(* ===== verification/Prelude.thy ===== *)
theory Prelude
  imports Main "HOL-Library.Word" "HOL-Library.Monad_Syntax" "HOL-Library.Signed_Division"
begin

text \<open>
  Shared vocabulary of the development: the machine integer types of the target (an ARM
  Cortex-M4, 32-bit \<open>int\<close> and \<open>long\<close>, plain \<open>char\<close> unsigned), C memory areas as lists with
  checked access, and the list lemmas every component uses.

  A C function is a function into \<^typ>\<open>'a option\<close> when it can execute something with no
  defined result: \<^const>\<open>None\<close> stands for an access outside the memory area it was given or a
  failed \<open>RT_ASSERT\<close> (whose handler never returns). A theorem that a call is \<^const>\<open>Some\<close>
  of something therefore says that neither happens.
\<close>

unbundle bit_operations_syntax

type_synonym u8 = "8 word"
type_synonym u16 = "16 word"
type_synonym u32 = "32 word"

named_theorems c_mem \<open>unfolding and rewriting rules of the checked memory accesses\<close>

subsection \<open>Checked memory accesses\<close>

definition mem_get :: "'a list \<Rightarrow> nat \<Rightarrow> 'a option" where
  "mem_get m i = (if i < length m then Some (m ! i) else None)"

definition mem_set :: "'a list \<Rightarrow> nat \<Rightarrow> 'a \<Rightarrow> 'a list option" where
  "mem_set m i v = (if i < length m then Some (m[i := v]) else None)"

definition mem_read :: "'a list \<Rightarrow> nat \<Rightarrow> nat \<Rightarrow> 'a list option" where
  "mem_read m i n = (if i + n \<le> length m then Some (take n (drop i m)) else None)"

definition overwrite :: "'a list \<Rightarrow> nat \<Rightarrow> 'a list \<Rightarrow> 'a list" where
  "overwrite m i bs = take i m @ bs @ drop (i + length bs) m"

definition mem_write :: "'a list \<Rightarrow> nat \<Rightarrow> 'a list \<Rightarrow> 'a list option" where
  "mem_write m i bs = (if i + length bs \<le> length m then Some (overwrite m i bs) else None)"

text \<open>\<open>memcpy(&dst[di], &src[si], n)\<close> on two distinct memory areas.\<close>

definition mem_copy :: "'a list \<Rightarrow> nat \<Rightarrow> 'a list \<Rightarrow> nat \<Rightarrow> nat \<Rightarrow> 'a list option" where
  "mem_copy dst di src si n = do { bs \<leftarrow> mem_read src si n; mem_write dst di bs }"

text \<open>\<open>RT_ASSERT(p)\<close>.\<close>

definition rt_assert :: "bool \<Rightarrow> unit option" where
  "rt_assert p = (if p then Some () else None)"

lemma rt_assert_simps [simp]: "rt_assert True = Some ()" "rt_assert False = None"
  by (simp_all add: rt_assert_def)

lemma length_overwrite [simp]: "i + length bs \<le> length m \<Longrightarrow> length (overwrite m i bs) = length m"
  by (simp add: overwrite_def)

lemma overwrite_Nil [simp]: "overwrite m i [] = m"
  by (simp add: overwrite_def)

lemma nth_overwrite:
  "i + length bs \<le> length m \<Longrightarrow> k < length m \<Longrightarrow>
   overwrite m i bs ! k = (if i \<le> k \<and> k < i + length bs then bs ! (k - i) else m ! k)"
  by (auto simp: overwrite_def nth_append min_def)

lemma overwrite_overwrite_append:
  "i + length (a @ b) \<le> length m \<Longrightarrow>
   overwrite (overwrite m i a) (i + length a) b = overwrite m i (a @ b)"
  by (rule nth_equalityI) (auto simp: nth_overwrite nth_append)

lemma overwrite_single: "i < length m \<Longrightarrow> overwrite m i [v] = m[i := v]"
  by (rule nth_equalityI) (auto simp: nth_overwrite nth_list_update)

lemma overwrite_update_Suc:
  "k < length xs \<Longrightarrow> overwrite (xs[k := y]) (Suc k) ys = overwrite xs k (y # ys)"
  by (simp add: overwrite_def take_Suc_conv_app_nth)

lemma take_overwrite: "i + length bs \<le> length m \<Longrightarrow> take i (overwrite m i bs) = take i m"
  by (simp add: overwrite_def)

lemma mem_read_overwrite:
  "i + length bs \<le> length m \<Longrightarrow> mem_read (overwrite m i bs) i (length bs) = Some bs"
  by (simp add: mem_read_def overwrite_def)

lemma mem_set_overwrite: "mem_set m i v = mem_write m i [v]"
  by (simp add: mem_set_def mem_write_def overwrite_single)

lemma mem_copy_Some:
  "si + n \<le> length src \<Longrightarrow> di + n \<le> length dst \<Longrightarrow>
   mem_copy dst di src si n = Some (overwrite dst di (take n (drop si src)))"
  by (simp add: mem_copy_def mem_read_def mem_write_def)

text \<open>Consecutive writes are one write; a single store is a write of one cell.\<close>

lemma mem_write_Nil [simp]: "i \<le> length m \<Longrightarrow> mem_write m i [] = Some m"
  by (simp add: mem_write_def)

lemma mem_write_append:
  "mem_write m i (a @ b) = do { m' \<leftarrow> mem_write m i a; mem_write m' (i + length a) b }"
  by (simp add: mem_write_def overwrite_overwrite_append)

lemma mem_write_Cons:
  "mem_write m i (b # bs) = do { m' \<leftarrow> mem_set m i b; mem_write m' (Suc i) bs }"
  using mem_write_append [of m i "[b]" bs] by (simp add: mem_set_overwrite)

lemma mem_write_length: "mem_write m i bs = Some m' \<Longrightarrow> length m' = length m"
  by (auto simp: mem_write_def split: if_splits)

subsection \<open>C strings\<close>

text \<open>
  A \<open>char *\<close> is the memory it points to: the characters, a terminating 0 and whatever follows.
  \<open>strlen\<close>, \<open>strcpy\<close>, \<open>strcmp\<close>, \<open>strncmp\<close> and \<open>memcmp\<close> of the C library read it up to the
  terminator; without one the access is undefined.
\<close>

definition c_str :: "u8 list \<Rightarrow> u8 list option" where
  "c_str m = (if 0 \<in> set m then Some (takeWhile (\<lambda>c. c \<noteq> 0) m) else None)"

definition c_strlen :: "u8 list \<Rightarrow> nat option" where
  "c_strlen m = map_option length (c_str m)"

fun c_strcmp :: "u8 list \<Rightarrow> u8 list \<Rightarrow> int option" where
  "c_strcmp (a # as) (b # bs) =
     (if a \<noteq> b \<or> a = 0 then Some (uint a - uint b) else c_strcmp as bs)"
| "c_strcmp _ _ = None"

fun c_strncmp :: "u8 list \<Rightarrow> u8 list \<Rightarrow> nat \<Rightarrow> int option" where
  "c_strncmp _ _ 0 = Some 0"
| "c_strncmp (a # as) (b # bs) (Suc n) =
     (if a \<noteq> b \<or> a = 0 then Some (uint a - uint b) else c_strncmp as bs n)"
| "c_strncmp _ _ (Suc n) = None"

fun c_memcmp :: "u8 list \<Rightarrow> u8 list \<Rightarrow> nat \<Rightarrow> int option" where
  "c_memcmp _ _ 0 = Some 0"
| "c_memcmp (a # as) (b # bs) (Suc n) =
     (if a \<noteq> b then Some (uint a - uint b) else c_memcmp as bs n)"
| "c_memcmp _ _ (Suc n) = None"

text \<open>A string literal with its terminator.\<close>

definition lit :: "string \<Rightarrow> u8 list" where
  "lit s = map of_char s @ [0]"

lemma c_str_takeWhile: "0 \<in> set m \<Longrightarrow> c_str m = Some (takeWhile (\<lambda>c. c \<noteq> 0) m)"
  by (simp add: c_str_def)

lemma c_str_terminated [simp]: "0 \<notin> set s \<Longrightarrow> c_str (s @ 0 # r) = Some s"
  by (induction s) (auto simp: c_str_def split: if_splits)

lemma c_strD:
  assumes "c_str m = Some s"
  obtains r where "m = s @ 0 # r" "0 \<notin> set s"
proof -
  from assms have z: "0 \<in> set m" and s: "s = takeWhile (\<lambda>c. c \<noteq> 0) m"
    by (auto simp: c_str_def split: if_splits)
  have "dropWhile (\<lambda>c. c \<noteq> 0) m \<noteq> []" using z by (simp add: dropWhile_eq_Nil_conv)
  then obtain x r where d: "dropWhile (\<lambda>c. c \<noteq> 0) m = x # r" by (meson neq_Nil_conv)
  then have "x = 0" using hd_dropWhile [of "\<lambda>c. c \<noteq> 0" m] by simp
  with d have "m = s @ 0 # r" using takeWhile_dropWhile_id [of "\<lambda>c. c \<noteq> 0" m] s by simp
  moreover have "0 \<notin> set s" using s by (auto dest: set_takeWhileD)
  ultimately show ?thesis by (rule that)
qed

lemma c_strcmp_zero:
  "0 \<notin> set a \<Longrightarrow> 0 \<notin> set b \<Longrightarrow> \<exists>r. c_strcmp (a @ 0 # x) (b @ 0 # y) = Some r \<and> (r = 0 \<longleftrightarrow> a = b)"
proof (induction a arbitrary: b)
  case Nil
  then show ?case by (cases b) (auto simp: uint_0_iff)
next
  case (Cons c a)
  then show ?case by (cases b) (auto simp: uint_0_iff dest: unsigned_word_eqI)
qed

lemma c_memcmp_equal:
  "n \<le> length a \<Longrightarrow> n \<le> length b \<Longrightarrow> take n a = take n b \<Longrightarrow> c_memcmp a b n = Some 0"
  by (induction a b n rule: c_memcmp.induct) auto

lemmas [c_mem] = mem_get_def mem_set_def mem_read_def mem_write_def mem_copy_Some rt_assert_def

subsection \<open>Words\<close>

lemma word_of_int_uint_small:
  "0 \<le> x \<Longrightarrow> x < 2 ^ LENGTH('a) \<Longrightarrow> uint (word_of_int x :: 'a::len word) = x"
  by (simp add: uint_word_of_int)

lemma unat_word_of_int_small:
  assumes "0 \<le> x" and "x < 2 ^ LENGTH('a)"
  shows "unat (word_of_int x :: 'a::len word) = nat x"
  using word_of_int_uint_small [OF assms] by (simp add: unat_eq_nat_uint)

lemma unat_of_nat_small [simp]:
  "n < 2 ^ LENGTH('a) \<Longrightarrow> unat (of_nat n :: 'a::len word) = n"
  by (simp add: unat_of_nat)

lemma ucast_of_nat_unat: "ucast w = of_nat (unat w)" for w :: "'a::len word"
  by simp

lemma unat_ucast_small [simp]:
  "unat w < 2 ^ LENGTH('b) \<Longrightarrow> unat (ucast (w :: 'a::len word) :: 'b::len word) = unat w"
  using unat_of_nat_small [where 'a = 'b, of "unat w"] by simp

text \<open>\<open>RT_ALIGN_DOWN(x, 4)\<close>.\<close>

lemma and_not_mask: "w AND NOT (mask n) = push_bit n (drop_bit n w)" for w :: "'a::len word"
  by (rule bit_eqI) (auto simp: bit_simps)

lemma and_not_3: "w AND NOT 3 = push_bit 2 (drop_bit 2 w)" for w :: "'a::len word"
  using and_not_mask [of w 2] by (simp add: mask_eq_exp_minus_1)

lemma unat_align_down: "unat (w AND NOT 3) = 4 * (unat w div 4)" for w :: "'a::len word"
proof -
  let ?x = "drop_bit 2 w"
  have x: "unat ?x = unat w div 4"
    unfolding unsigned_drop_bit_eq by (simp add: drop_bit_eq_div take_bit_nat_eq_self)
  have "4 * unat ?x \<le> unat w" unfolding x by simp
  also have "unat w < 2 ^ LENGTH('a)" by (rule unsigned_less)
  finally have "unat (of_nat (4 * unat ?x) :: 'a word) = 4 * unat ?x" by (rule unat_of_nat_small)
  then have "unat (4 * ?x) = 4 * unat ?x" by simp
  then show ?thesis
    unfolding x and_not_3 push_bit_eq_mult by (simp add: mult.commute)
qed

lemma unat_and_minus_4 [simp]: "unat (w AND - 4) = 4 * (unat w div 4)" for w :: "'a::len word"
  using unat_align_down [of w] by simp

lemma sint_small:
  fixes w :: "'a::len word"
  assumes "unat w < 2 ^ (LENGTH('a) - 1)"
  shows "sint w = int (unat w)"
proof -
  have "uint w < 2 ^ (LENGTH('a) - 1)"
    using assms uint_nat [of w] by (metis of_nat_less_iff of_nat_numeral of_nat_power)
  moreover have "- (2 ^ (LENGTH('a) - 1)) \<le> uint w"
    using uint_ge_0 [of w] by (meson neg_le_0_iff_le order_trans zero_le_numeral zero_le_power)
  ultimately show ?thesis
    by (simp add: sint_uint signed_take_bit_int_eq_self)
qed

lemma sint_nonneg:
  fixes w :: "'a::len word"
  assumes "0 \<le> sint w"
  shows "sint w = int (unat w)"
proof -
  have "uint w = take_bit LENGTH('a) (sint w)" by (simp add: uint_sint)
  also have "\<dots> = sint w"
    using assms sint_lt [of w]
    by (intro take_bit_int_eq_self) (auto intro: order_less_le_trans power_increasing)
  finally show ?thesis by simp
qed

lemma bit1_cases: "(m :: 1 word) = 0 \<or> m = 1"
proof -
  have "0 \<le> uint m" "uint m < 2"
    using uint_lt2p [of m] by simp_all
  then have "uint m = 0 \<or> uint m = 1" by linarith
  then show ?thesis
    by (metis uint_0_eq uint_1_eq word_uint_eqI)
qed

text \<open>\<open>~m\<close> on a one-bit field.\<close>

lemma not_bit1 [simp]:
  "(NOT m = n) = (m \<noteq> n)" "(n = NOT m) = (m \<noteq> n)" for m n :: "1 word"
  using bit1_cases [of m] bit1_cases [of n] by auto

text \<open>C division and remainder agree with \<^const>\<open>divide\<close> and \<^const>\<open>modulo\<close> on non-negative values.\<close>

lemma sdiv_nonneg [simp]: "0 \<le> a \<Longrightarrow> 0 < b \<Longrightarrow> a sdiv b = a div b" for a b :: int
  by (cases "a = 0") (auto simp: signed_divide_int_def)

lemma smod_nonneg [simp]: "0 \<le> a \<Longrightarrow> 0 < b \<Longrightarrow> a smod b = a mod b" for a b :: int
  by (cases "a = 0") (auto simp: signed_modulo_int_def)

text \<open>A value of the 32-bit signed \<open>int\<close>; signed overflow has no defined result.\<close>

definition c_int :: "int \<Rightarrow> int option" where
  "c_int x = (if - (2 ^ 31) \<le> x \<and> x < 2 ^ 31 then Some x else None)"

lemma c_int_Some [simp]: "- (2 ^ 31) \<le> x \<Longrightarrow> x < 2 ^ 31 \<Longrightarrow> c_int x = Some x"
  by (simp add: c_int_def)

text \<open>A value converted to the 32-bit size argument of \<open>memcpy\<close>.\<close>

definition csize :: "int \<Rightarrow> nat" where
  "csize x = nat (x mod 2 ^ 32)"

end
