(* ===== verification/Ringbuffer.thy ===== *)
theory Ringbuffer
  imports Prelude
begin

text \<open>
  The ring buffer of \<open>rt-thread/components/drivers/src/ringbuffer.c\<close>, which the pipe device
  under the MQTT publish queue and the device drivers use. The two indices are 15-bit fields
  with a one-bit mirror each; the size is a signed 16-bit integer; lengths are computed with
  C's promotions and stored back truncated, as the source does.

  The pool the structure points to is a byte list. Every \<open>memcpy\<close> is a checked copy, so
  the refinement theorems also say that no operation leaves the pool or the caller's buffer.
\<close>

subsection \<open>The structure and its operations\<close>

datatype rt_ringbuffer_state = RT_RINGBUFFER_EMPTY | RT_RINGBUFFER_FULL | RT_RINGBUFFER_HALFFULL

record rt_ringbuffer =
  buffer_ptr :: "u8 list"
  read_mirror :: "1 word"
  read_index :: "15 word"
  write_mirror :: "1 word"
  write_index :: "15 word"
  buffer_size :: u16

definition rt_ringbuffer_status :: "rt_ringbuffer \<Rightarrow> rt_ringbuffer_state" where
  "rt_ringbuffer_status rb =
     (if read_index rb = write_index rb
      then (if read_mirror rb = write_mirror rb then RT_RINGBUFFER_EMPTY else RT_RINGBUFFER_FULL)
      else RT_RINGBUFFER_HALFFULL)"

definition rt_ringbuffer_init :: "rt_ringbuffer \<Rightarrow> u8 list \<Rightarrow> u16 \<Rightarrow> rt_ringbuffer option" where
  "rt_ringbuffer_init rb pool sz = do {
     rt_assert (0 < sint sz);
     Some (rb\<lparr>read_mirror := 0, read_index := 0, write_mirror := 0, write_index := 0,
              buffer_ptr := pool, buffer_size := sz AND NOT 3\<rparr>) }"

definition rt_ringbuffer_data_len :: "rt_ringbuffer \<Rightarrow> u32" where
  "rt_ringbuffer_data_len rb =
     (case rt_ringbuffer_status rb of
        RT_RINGBUFFER_EMPTY \<Rightarrow> 0
      | RT_RINGBUFFER_FULL \<Rightarrow> word_of_int (sint (buffer_size rb))
      | RT_RINGBUFFER_HALFFULL \<Rightarrow>
          (if write_index rb > read_index rb
           then word_of_int (uint (write_index rb) - uint (read_index rb))
           else word_of_int (sint (buffer_size rb) - (uint (read_index rb) - uint (write_index rb)))))"

definition rt_ringbuffer_space_len :: "rt_ringbuffer \<Rightarrow> u32" where
  "rt_ringbuffer_space_len rb = word_of_int (sint (buffer_size rb)) - rt_ringbuffer_data_len rb"

definition rt_ringbuffer_get_size :: "rt_ringbuffer \<Rightarrow> u16" where
  "rt_ringbuffer_get_size rb = buffer_size rb"

definition rt_ringbuffer_put :: "rt_ringbuffer \<Rightarrow> u8 list \<Rightarrow> u16 \<Rightarrow> (rt_ringbuffer \<times> u32) option" where
  "rt_ringbuffer_put rb ptr len =
     (let sz = ucast (rt_ringbuffer_space_len rb) :: u16 in
      if sz = 0 then Some (rb, 0)
      else
       let len = (if sz < len then sz else len);
           room = sint (buffer_size rb) - uint (write_index rb) in
       if room > uint len then do {
         m \<leftarrow> mem_copy (buffer_ptr rb) (unat (write_index rb)) ptr 0 (unat len);
         Some (rb\<lparr>buffer_ptr := m, write_index := write_index rb + ucast len\<rparr>, ucast len) }
       else do {
         m \<leftarrow> mem_copy (buffer_ptr rb) (unat (write_index rb)) ptr 0 (csize room);
         m \<leftarrow> mem_copy m 0 ptr (csize room) (csize (uint len - room));
         Some (rb\<lparr>buffer_ptr := m, write_mirror := NOT (write_mirror rb),
                  write_index := word_of_int (uint len - room)\<rparr>, ucast len) })"

definition rt_ringbuffer_put_force ::
    "rt_ringbuffer \<Rightarrow> u8 list \<Rightarrow> u16 \<Rightarrow> (rt_ringbuffer \<times> u32) option" where
  "rt_ringbuffer_put_force rb ptr len =
     (let space = ucast (rt_ringbuffer_space_len rb) :: u16;
          off = (if uint len > sint (buffer_size rb)
                 then csize (uint len - sint (buffer_size rb)) else 0);
          len = (if uint len > sint (buffer_size rb) then buffer_size rb else len);
          room = sint (buffer_size rb) - uint (write_index rb) in
      if room > uint len then do {
        m \<leftarrow> mem_copy (buffer_ptr rb) (unat (write_index rb)) ptr off (unat len);
        let rb = rb\<lparr>buffer_ptr := m, write_index := write_index rb + ucast len\<rparr>;
        Some (if len > space then rb\<lparr>read_index := write_index rb\<rparr> else rb, ucast len) }
      else do {
        m \<leftarrow> mem_copy (buffer_ptr rb) (unat (write_index rb)) ptr off (csize room);
        m \<leftarrow> mem_copy m 0 ptr (off + csize room) (csize (uint len - room));
        let rb = rb\<lparr>buffer_ptr := m, write_mirror := NOT (write_mirror rb),
                    write_index := word_of_int (uint len - room)\<rparr>;
        Some (if len > space
              then rb\<lparr>read_mirror := NOT (read_mirror rb), read_index := write_index rb\<rparr>
              else rb, ucast len) })"

definition rt_ringbuffer_get ::
    "rt_ringbuffer \<Rightarrow> u8 list \<Rightarrow> u16 \<Rightarrow> (rt_ringbuffer \<times> u8 list \<times> u32) option" where
  "rt_ringbuffer_get rb ptr len =
     (let sz = rt_ringbuffer_data_len rb in
      if sz = 0 then Some (rb, ptr, 0)
      else
       let len = (if sz < ucast len then ucast sz else len);
           room = sint (buffer_size rb) - uint (read_index rb) in
       if room > uint len then do {
         ptr \<leftarrow> mem_copy ptr 0 (buffer_ptr rb) (unat (read_index rb)) (unat len);
         Some (rb\<lparr>read_index := read_index rb + ucast len\<rparr>, ptr, ucast len) }
       else do {
         ptr \<leftarrow> mem_copy ptr 0 (buffer_ptr rb) (unat (read_index rb)) (csize room);
         ptr \<leftarrow> mem_copy ptr (csize room) (buffer_ptr rb) 0 (csize (uint len - room));
         Some (rb\<lparr>read_mirror := NOT (read_mirror rb),
                  read_index := word_of_int (uint len - room)\<rparr>, ptr, ucast len) })"

definition rt_ringbuffer_putchar :: "rt_ringbuffer \<Rightarrow> u8 \<Rightarrow> (rt_ringbuffer \<times> u32) option" where
  "rt_ringbuffer_putchar rb ch =
     (if rt_ringbuffer_space_len rb = 0 then Some (rb, 0)
      else do {
        m \<leftarrow> mem_set (buffer_ptr rb) (unat (write_index rb)) ch;
        let rb = rb\<lparr>buffer_ptr := m\<rparr>;
        Some (if uint (write_index rb) = sint (buffer_size rb) - 1
              then rb\<lparr>write_mirror := NOT (write_mirror rb), write_index := 0\<rparr>
              else rb\<lparr>write_index := write_index rb + 1\<rparr>, 1) })"

definition rt_ringbuffer_putchar_force :: "rt_ringbuffer \<Rightarrow> u8 \<Rightarrow> (rt_ringbuffer \<times> u32) option" where
  "rt_ringbuffer_putchar_force rb ch = do {
     let old_state = rt_ringbuffer_status rb;
     m \<leftarrow> mem_set (buffer_ptr rb) (unat (write_index rb)) ch;
     let rb = rb\<lparr>buffer_ptr := m\<rparr>;
     if uint (write_index rb) = sint (buffer_size rb) - 1
     then
       let rb = rb\<lparr>write_mirror := NOT (write_mirror rb), write_index := 0\<rparr> in
       Some (if old_state = RT_RINGBUFFER_FULL
             then rb\<lparr>read_mirror := NOT (read_mirror rb), read_index := write_index rb\<rparr> else rb, 1)
     else
       let rb = rb\<lparr>write_index := write_index rb + 1\<rparr> in
       Some (if old_state = RT_RINGBUFFER_FULL
             then rb\<lparr>read_index := write_index rb\<rparr> else rb, 1) }"

text \<open>The byte stored through \<open>ch\<close> is returned; without data \<open>*ch\<close> is not written.\<close>

definition rt_ringbuffer_getchar :: "rt_ringbuffer \<Rightarrow> u8 \<Rightarrow> (rt_ringbuffer \<times> u8 \<times> u32) option" where
  "rt_ringbuffer_getchar rb ch =
     (if rt_ringbuffer_data_len rb = 0 then Some (rb, ch, 0)
      else do {
        ch \<leftarrow> mem_get (buffer_ptr rb) (unat (read_index rb));
        Some (if uint (read_index rb) = sint (buffer_size rb) - 1
              then rb\<lparr>read_mirror := NOT (read_mirror rb), read_index := 0\<rparr>
              else rb\<lparr>read_index := read_index rb + 1\<rparr>, ch, 1) })"

definition rt_ringbuffer_reset :: "rt_ringbuffer \<Rightarrow> rt_ringbuffer" where
  "rt_ringbuffer_reset rb =
     rb\<lparr>read_mirror := 0, read_index := 0, write_mirror := 0, write_index := 0\<rparr>"

text \<open>
  \<open>rt_ringbuffer_create\<close>: the two areas are what \<open>rt_malloc\<close> returned for the structure and for the
  pool, with whatever they contain.
\<close>

definition rt_ringbuffer_create ::
    "u16 \<Rightarrow> rt_ringbuffer option \<Rightarrow> u8 list option \<Rightarrow> rt_ringbuffer option option" where
  "rt_ringbuffer_create sz rb pool = do {
     rt_assert (sz > 0);
     (case (rb, pool) of
        (Some rb, Some pool) \<Rightarrow> map_option Some (rt_ringbuffer_init rb pool (sz AND NOT 3))
      | _ \<Rightarrow> Some None) }"


subsection \<open>Circular runs of a list\<close>

text \<open>
  \<open>ring m n r l\<close> is the run of \<open>l\<close> cells that starts at cell \<open>r\<close> of the first \<open>n\<close> cells of
  \<open>m\<close> and continues at cell 0; \<open>ring_write m n w bs\<close> stores \<open>bs\<close> at the cells from \<open>w\<close> on.
\<close>

definition ring :: "'a list \<Rightarrow> nat \<Rightarrow> nat \<Rightarrow> nat \<Rightarrow> 'a list" where
  "ring m n r l = map (\<lambda>k. m ! ((r + k) mod n)) [0..<l]"

definition ring_write :: "'a list \<Rightarrow> nat \<Rightarrow> nat \<Rightarrow> 'a list \<Rightarrow> 'a list" where
  "ring_write m n w bs =
     overwrite (overwrite m w (take (n - w) bs)) 0 (drop (n - w) bs)"

lemma length_ring [simp]: "length (ring m n r l) = l"
  by (simp add: ring_def)

lemma mod_twice: "a < 2 * n \<Longrightarrow> a mod n = (if a < n then a else a - n)" for a n :: nat
  by (auto simp: mod_if)

lemma take_ring: "k \<le> l \<Longrightarrow> take k (ring m n r l) = ring m n r k"
  by (simp add: ring_def take_map)

lemma drop_ring: "k \<le> l \<Longrightarrow> drop k (ring m n r l) = ring m n ((r + k) mod n) (l - k)"
  by (rule nth_equalityI) (auto simp: ring_def add.assoc mod_add_left_eq)

lemma ring_0 [simp]: "ring m n r 0 = []"
  by (simp add: ring_def)

lemma length_ring_write [simp]:
  "w \<le> n \<Longrightarrow> n \<le> length m \<Longrightarrow> length bs \<le> n \<Longrightarrow> length (ring_write m n w bs) = length m"
  by (simp add: ring_write_def)

lemma ring_write_no_wrap: "length bs \<le> n - w \<Longrightarrow> ring_write m n w bs = overwrite m w bs"
  by (simp add: ring_write_def)

text \<open>Cells are addressed relative to the write position, modulo the size.\<close>

lemma ring_write_nth:
  assumes "w < n" "n \<le> length m" "length bs \<le> n" "j < n"
  shows "ring_write m n w bs ! ((w + j) mod n) = (if j < length bs then bs ! j else m ! ((w + j) mod n))"
proof (cases "w + j < n")
  case True
  with assms show ?thesis by (auto simp: ring_write_def nth_overwrite)
next
  case False
  with assms have "(w + j) mod n = w + j - n" by (simp add: mod_twice)
  with False assms show ?thesis
    by (auto simp: ring_write_def nth_overwrite intro!: arg_cong [where f = "nth bs"])
qed

lemma mod_back: "l \<le> n \<Longrightarrow> (r + i) mod n = ((r + l) mod n + (n - l + i)) mod n" for n :: nat
proof -
  assume "l \<le> n"
  then have "r + l + (n - l + i) = r + i + n" by simp
  then show ?thesis by (metis mod_add_left_eq mod_add_self2)
qed

lemma ring_write_self:
  assumes "w < n" "n \<le> length m" "length bs \<le> n"
  shows "ring (ring_write m n w bs) n w (length bs) = bs"
  using assms by (intro nth_equalityI) (auto simp: ring_def ring_write_nth)

text \<open>Writing into the free cells appends to the run.\<close>

lemma ring_write_append:
  assumes "r < n" "n \<le> length m" "l + length bs \<le> n"
  shows "ring (ring_write m n ((r + l) mod n) bs) n r (l + length bs) = ring m n r l @ bs"
proof (rule nth_equalityI)
  let ?w = "(r + l) mod n"
  fix i assume "i < length (ring (ring_write m n ?w bs) n r (l + length bs))"
  then have i: "i < l + length bs" by simp
  show "ring (ring_write m n ?w bs) n r (l + length bs) ! i = (ring m n r l @ bs) ! i"
  proof (cases "i < l")
    case True
    have e: "(r + i) mod n = (?w + (n - l + i)) mod n"
      using assms(3) by (intro mod_back) simp
    have "ring_write m n ?w bs ! ((r + i) mod n) = m ! ((r + i) mod n)"
      unfolding e using True assms by (subst ring_write_nth) auto
    with True show ?thesis by (simp add: ring_def nth_append)
  next
    case False
    then have e: "(r + i) mod n = (?w + (i - l)) mod n"
      by (metis add.assoc le_add_diff_inverse mod_add_left_eq not_less)
    have "ring_write m n ?w bs ! ((r + i) mod n) = bs ! (i - l)"
      unfolding e using False assms i by (subst ring_write_nth) auto
    with False i show ?thesis by (simp add: ring_def nth_append)
  qed
qed simp

text \<open>Writing past the oldest cells drops as many of them.\<close>

lemma ring_write_force:
  assumes "r < n" "n \<le> length m" "l \<le> n" "length bs \<le> n" "n \<le> l + length bs"
  shows "ring (ring_write m n ((r + l) mod n) bs) n ((r + l + length bs) mod n) n
    = drop (l + length bs - n) (ring m n r l @ bs)"
proof (rule nth_equalityI)
  let ?w = "(r + l) mod n"
  fix i assume "i < length (ring (ring_write m n ?w bs) n ((r + l + length bs) mod n) n)"
  then have i: "i < n" by simp
  have pos: "((r + l + length bs) mod n + i) mod n = (?w + (length bs + i)) mod n"
    by (simp add: mod_add_left_eq add.assoc)
  show "ring (ring_write m n ?w bs) n ((r + l + length bs) mod n) n ! i
      = drop (l + length bs - n) (ring m n r l @ bs) ! i"
  proof (cases "length bs + i < n")
    case True
    let ?k = "l + length bs - n + i"
    have e: "(r + ?k) mod n = (?w + (length bs + i)) mod n"
      using mod_back [of l n r ?k] assms True by simp
    have "ring_write m n ?w bs ! ((r + ?k) mod n) = m ! ((r + ?k) mod n)"
      unfolding e using True assms by (subst ring_write_nth) auto
    moreover have "?k < l" using True assms by simp
    ultimately show ?thesis using True assms i pos e by (auto simp: ring_def nth_append)
  next
    case False
    then have e: "(?w + (length bs + i)) mod n = (?w + (length bs + i - n)) mod n"
      by (metis le_add_diff_inverse2 mod_add_self2 add.assoc not_less)
    have "ring_write m n ?w bs ! ((?w + (length bs + i)) mod n) = bs ! (length bs + i - n)"
      unfolding e using False assms i by (subst ring_write_nth) auto
    with False assms i pos show ?thesis by (auto simp: ring_def nth_append add.commute)
  qed
qed (use assms in simp)


text \<open>The two block copies of a wrapping write and of a wrapping read.\<close>

lemma ring_copy_in:
  assumes "w < c" "c \<le> length m" "n \<le> c" "off + n \<le> length ptr" "c \<le> w + n"
  shows "mem_copy m w ptr off (c - w) = Some (overwrite m w (take (c - w) (drop off ptr)))"
    "mem_copy (overwrite m w (take (c - w) (drop off ptr))) 0 ptr (off + (c - w)) (w + n - c)
     = Some (ring_write m c w (take n (drop off ptr)))"
proof -
  have "take (w + n - c) (drop (off + (c - w)) ptr) = drop (c - w) (take n (drop off ptr))"
    "take (c - w) (take n (drop off ptr)) = take (c - w) (drop off ptr)"
    using assms by (auto simp: drop_take take_take min_def add.commute)
  with assms show "mem_copy m w ptr off (c - w) = Some (overwrite m w (take (c - w) (drop off ptr)))"
    "mem_copy (overwrite m w (take (c - w) (drop off ptr))) 0 ptr (off + (c - w)) (w + n - c)
     = Some (ring_write m c w (take n (drop off ptr)))"
    by (simp_all add: mem_copy_Some ring_write_def del: take_take)
qed

lemma ring_copy_in_no_wrap:
  assumes "w + n < c" "c \<le> length m" "off + n \<le> length ptr"
  shows "mem_copy m w ptr off n = Some (ring_write m c w (take n (drop off ptr)))"
  using assms by (simp add: mem_copy_Some ring_write_no_wrap)

lemma ring_split:
  assumes "r < c" "c \<le> length m" "n \<le> c"
  shows "ring m c r n = take n (drop r (take c m)) @ take (r + n - c) m"
  by (rule nth_equalityI) (use assms in \<open>auto simp: ring_def nth_append mod_twice add.commute\<close>)

lemma ring_copy_out:
  assumes "r < c" "c \<le> length m" "n \<le> c" "n \<le> length ptr" "c \<le> r + n"
  shows "mem_copy ptr 0 m r (c - r) = Some (overwrite ptr 0 (take (c - r) (drop r m)))"
    "mem_copy (overwrite ptr 0 (take (c - r) (drop r m))) (c - r) m 0 (r + n - c)
     = Some (overwrite ptr 0 (ring m c r n))"
proof -
  have "take n (drop r (take c m)) = take (c - r) (drop r m)"
    using assms by (simp add: drop_take min_absorb2)
  then have r: "ring m c r n = take (c - r) (drop r m) @ take (r + n - c) m"
    using ring_split [OF assms(1-3)] by simp
  from assms show "mem_copy ptr 0 m r (c - r) = Some (overwrite ptr 0 (take (c - r) (drop r m)))"
    by (simp add: mem_copy_Some)
  from assms overwrite_overwrite_append [of 0 "take (c - r) (drop r m)" "take (r + n - c) m" ptr]
  show "mem_copy (overwrite ptr 0 (take (c - r) (drop r m))) (c - r) m 0 (r + n - c)
     = Some (overwrite ptr 0 (ring m c r n))"
    by (simp add: mem_copy_Some r)
qed

lemma ring_copy_out_no_wrap:
  assumes "r + n < c" "c \<le> length m" "n \<le> length ptr"
  shows "mem_copy ptr 0 m r n = Some (overwrite ptr 0 (ring m c r n))"
  using assms ring_split [of r c m n] by (simp add: mem_copy_Some drop_take min_def)

subsection \<open>Invariant and abstraction\<close>

definition rb_cap :: "rt_ringbuffer \<Rightarrow> nat" where
  "rb_cap rb = nat (sint (buffer_size rb))"

definition rb_cnt :: "rt_ringbuffer \<Rightarrow> nat" where
  "rb_cnt rb =
     (if read_mirror rb = write_mirror rb then unat (write_index rb) - unat (read_index rb)
      else rb_cap rb + unat (write_index rb) - unat (read_index rb))"

definition rb_inv :: "rt_ringbuffer \<Rightarrow> bool" where
  "rb_inv rb \<longleftrightarrow> 0 < sint (buffer_size rb) \<and> rb_cap rb \<le> length (buffer_ptr rb) \<and>
     unat (read_index rb) < rb_cap rb \<and> unat (write_index rb) < rb_cap rb \<and>
     (if read_mirror rb = write_mirror rb then read_index rb \<le> write_index rb
      else write_index rb \<le> read_index rb)"

text \<open>The queued bytes, oldest first.\<close>

definition rb_list :: "rt_ringbuffer \<Rightarrow> u8 list" where
  "rb_list rb = ring (buffer_ptr rb) (rb_cap rb) (unat (read_index rb)) (rb_cnt rb)"

lemma length_rb_list [simp]: "length (rb_list rb) = rb_cnt rb"
  by (simp add: rb_list_def)

lemma rb_cap_bound: "rb_cap rb < 2 ^ 15"
  using sint_lt [of "buffer_size rb"] by (simp add: rb_cap_def)

lemma rb_size_int: "rb_inv rb \<Longrightarrow> sint (buffer_size rb) = int (rb_cap rb)"
  by (simp add: rb_inv_def rb_cap_def)

lemma rb_invD:
  assumes "rb_inv rb"
  shows "unat (read_index rb) < rb_cap rb" "unat (write_index rb) < rb_cap rb"
    "rb_cap rb \<le> length (buffer_ptr rb)" "0 < rb_cap rb" "rb_cnt rb \<le> rb_cap rb"
    "(unat (read_index rb) + rb_cnt rb) mod rb_cap rb = unat (write_index rb)"
proof -
  have "read_index rb \<le> write_index rb \<longleftrightarrow> unat (read_index rb) \<le> unat (write_index rb)"
       "write_index rb \<le> read_index rb \<longleftrightarrow> unat (write_index rb) \<le> unat (read_index rb)"
    by (simp_all add: word_le_nat_alt)
  with assms show "unat (read_index rb) < rb_cap rb" "unat (write_index rb) < rb_cap rb"
    "rb_cap rb \<le> length (buffer_ptr rb)" "0 < rb_cap rb" "rb_cnt rb \<le> rb_cap rb"
    "(unat (read_index rb) + rb_cnt rb) mod rb_cap rb = unat (write_index rb)"
    by (auto simp: rb_inv_def rb_cnt_def rb_cap_def split: if_splits)
qed

lemma rb_data_len:
  assumes "rb_inv rb"
  shows "unat (rt_ringbuffer_data_len rb) = rb_cnt rb"
proof -
  let ?r = "unat (read_index rb)" and ?w = "unat (write_index rb)" and ?n = "rb_cap rb"
  have n: "?n < 2 ^ 15" "?r < ?n" "?w < ?n" "sint (buffer_size rb) = int ?n"
    using rb_cap_bound rb_invD [OF assms] rb_size_int [OF assms] by auto
  have eq: "read_index rb = write_index rb \<longleftrightarrow> ?r = ?w"
    by (simp add: word_unat_eq_iff)
  have d1: "?r < ?w \<Longrightarrow> uint (write_index rb) - uint (read_index rb) = int (?w - ?r)"
    by (simp add: of_nat_diff)
  have d2: "?w \<le> ?r \<Longrightarrow> int ?n - (uint (read_index rb) - uint (write_index rb)) = int (?n + ?w - ?r)"
    using n by (simp add: of_nat_diff)
  consider "?r = ?w" | "?r < ?w" | "?w < ?r" by linarith
  then show ?thesis
    using assms n eq d1 d2
    by cases (auto simp: rt_ringbuffer_data_len_def rt_ringbuffer_status_def rb_cnt_def rb_inv_def
        word_le_nat_alt word_less_nat_alt simp del: of_int_diff of_nat_diff of_nat_add
        split: if_splits)
qed

lemma rb_space_len:
  assumes "rb_inv rb"
  shows "unat (rt_ringbuffer_space_len rb) = rb_cap rb - rb_cnt rb"
proof -
  have "unat (word_of_int (sint (buffer_size rb)) :: u32) = rb_cap rb"
    using rb_cap_bound [of rb] by (simp add: rb_size_int [OF assms])
  with rb_invD(5) [OF assms] show ?thesis
    by (simp add: rt_ringbuffer_space_len_def unat_sub_if' rb_data_len [OF assms])
qed

subsection \<open>Advancing an index\<close>

text \<open>The write (read) position moved forward by \<open>k\<close> cells, crossing into the other mirror.\<close>

definition rb_wadv :: "nat \<Rightarrow> rt_ringbuffer \<Rightarrow> rt_ringbuffer" where
  "rb_wadv k rb =
     (if unat (write_index rb) + k < rb_cap rb
      then rb\<lparr>write_index := of_nat (unat (write_index rb) + k)\<rparr>
      else rb\<lparr>write_mirror := NOT (write_mirror rb),
              write_index := of_nat (unat (write_index rb) + k - rb_cap rb)\<rparr>)"

definition rb_radv :: "nat \<Rightarrow> rt_ringbuffer \<Rightarrow> rt_ringbuffer" where
  "rb_radv k rb =
     (if unat (read_index rb) + k < rb_cap rb
      then rb\<lparr>read_index := of_nat (unat (read_index rb) + k)\<rparr>
      else rb\<lparr>read_mirror := NOT (read_mirror rb),
              read_index := of_nat (unat (read_index rb) + k - rb_cap rb)\<rparr>)"

lemma rb_cap_update [simp]:
  "rb_cap (rb\<lparr>buffer_ptr := m\<rparr>) = rb_cap rb"
  "rb_cap (rb\<lparr>write_index := i\<rparr>) = rb_cap rb" "rb_cap (rb\<lparr>write_mirror := x\<rparr>) = rb_cap rb"
  "rb_cap (rb\<lparr>read_index := i\<rparr>) = rb_cap rb" "rb_cap (rb\<lparr>read_mirror := x\<rparr>) = rb_cap rb"
  by (simp_all add: rb_cap_def)

lemma rb_cap_adv [simp]: "rb_cap (rb_wadv k rb) = rb_cap rb" "rb_cap (rb_radv k rb) = rb_cap rb"
  by (simp_all add: rb_wadv_def rb_radv_def)

lemma rb_inv_buffer:
  "rb_inv rb \<Longrightarrow> length m = length (buffer_ptr rb) \<Longrightarrow> rb_inv (rb\<lparr>buffer_ptr := m\<rparr>)"
  by (simp add: rb_inv_def)

lemma rb_cnt_buffer [simp]: "rb_cnt (rb\<lparr>buffer_ptr := m\<rparr>) = rb_cnt rb"
  by (simp add: rb_cnt_def)

lemma rb_wadv:
  assumes "rb_inv rb" "rb_cnt rb + k \<le> rb_cap rb"
  shows "rb_inv (rb_wadv k rb)" "rb_cnt (rb_wadv k rb) = rb_cnt rb + k"
    "read_index (rb_wadv k rb) = read_index rb" "buffer_ptr (rb_wadv k rb) = buffer_ptr rb"
  using assms rb_cap_bound [of rb]
  by (auto simp: rb_inv_def rb_wadv_def rb_cnt_def word_le_nat_alt
      simp del: of_nat_add of_nat_diff split: if_splits)

lemma rb_radv:
  assumes "rb_inv rb" "k \<le> rb_cnt rb"
  shows "rb_inv (rb_radv k rb)" "rb_cnt (rb_radv k rb) = rb_cnt rb - k"
    "unat (read_index (rb_radv k rb)) = (unat (read_index rb) + k) mod rb_cap rb"
    "buffer_ptr (rb_radv k rb) = buffer_ptr rb"
  using assms rb_cap_bound [of rb]
  by (auto simp: rb_inv_def rb_radv_def rb_cnt_def word_le_nat_alt mod_twice
      simp del: of_nat_add of_nat_diff split: if_splits)

lemma rb_list_wadv:
  assumes "rb_inv rb" "rb_cnt rb + length bs \<le> rb_cap rb"
  shows "rb_list (rb_wadv (length bs) (rb\<lparr>buffer_ptr :=
      ring_write (buffer_ptr rb) (rb_cap rb) (unat (write_index rb)) bs\<rparr>)) = rb_list rb @ bs"
proof -
  let ?rb = "rb\<lparr>buffer_ptr := ring_write (buffer_ptr rb) (rb_cap rb) (unat (write_index rb)) bs\<rparr>"
  note D = rb_invD [OF assms(1)]
  have "rb_inv ?rb"
    using assms D by (intro rb_inv_buffer) auto
  with assms D show ?thesis
    using ring_write_append [of "unat (read_index rb)" "rb_cap rb" "buffer_ptr rb" "rb_cnt rb" bs]
    by (simp add: rb_list_def rb_wadv)
qed

lemma rb_list_radv:
  "rb_inv rb \<Longrightarrow> k \<le> rb_cnt rb \<Longrightarrow> rb_list (rb_radv k rb) = drop k (rb_list rb)"
  by (simp add: rb_list_def rb_radv drop_ring)

subsection \<open>What the operations do\<close>

lemma csize_nat [simp]: "n < 2 ^ 32 \<Longrightarrow> csize (int n) = n"
  by (simp add: csize_def)

lemma rb_room:
  assumes "rb_inv rb"
  shows "sint (buffer_size rb) - uint (write_index rb) = int (rb_cap rb - unat (write_index rb))"
    "sint (buffer_size rb) - uint (read_index rb) = int (rb_cap rb - unat (read_index rb))"
  using rb_size_int [OF assms] rb_invD [OF assms] by (simp_all add: of_nat_diff)

lemma rb_put_eq:
  assumes inv: "rb_inv rb" and ptr: "unat len \<le> length ptr"
    and n: "n = min (unat len) (rb_cap rb - rb_cnt rb)"
  shows "rt_ringbuffer_put rb ptr len =
    Some (rb_wadv n (rb\<lparr>buffer_ptr :=
      ring_write (buffer_ptr rb) (rb_cap rb) (unat (write_index rb)) (take n ptr)\<rparr>), of_nat n)"
proof -
  let ?w = "unat (write_index rb)" and ?c = "rb_cap rb"
  let ?sp = "ucast (rt_ringbuffer_space_len rb) :: u16"
  define l where "l = (if ?sp < len then ?sp else len)"
  note D = rb_invD [OF inv]
  have sp: "unat ?sp = ?c - rb_cnt rb"
    using rb_cap_bound [of rb] by (simp add: rb_space_len [OF inv])
  have l: "unat l = n" and n15: "n < 2 ^ 15"
    using sp n rb_cap_bound [of rb] by (auto simp: l_def word_less_nat_alt)
  have ul: "uint l = int n" "ucast l = (of_nat n :: u32)"
      "write_index rb + ucast l = of_nat (?w + n)"
    by (simp_all flip: l)
  have cmp: "int n < int (?c - ?w) \<longleftrightarrow> ?w + n < ?c" by auto
  have put: "rt_ringbuffer_put rb ptr len = (if ?sp = 0 then Some (rb, 0)
    else if ?w + n < ?c then do {
         m \<leftarrow> mem_copy (buffer_ptr rb) ?w ptr 0 n;
         Some (rb\<lparr>buffer_ptr := m, write_index := of_nat (?w + n)\<rparr>, of_nat n) }
       else do {
         m \<leftarrow> mem_copy (buffer_ptr rb) ?w ptr 0 (csize (int (?c - ?w)));
         m \<leftarrow> mem_copy m 0 ptr (csize (int (?c - ?w))) (csize (int n - int (?c - ?w)));
         Some (rb\<lparr>buffer_ptr := m, write_mirror := NOT (write_mirror rb),
                  write_index := word_of_int (int n - int (?c - ?w))\<rparr>, of_nat n) })"
    unfolding rt_ringbuffer_put_def Let_def l_def [symmetric] rb_room [OF inv] ul l cmp by (rule refl)
  have nle: "0 + n \<le> length ptr" "n \<le> ?c - rb_cnt rb" "n \<le> ?c" using ptr n by auto
  consider "?c - rb_cnt rb = 0" | "?c - rb_cnt rb > 0" "?w + n < ?c" | "?c - rb_cnt rb > 0" "?c \<le> ?w + n"
    by linarith
  then show ?thesis
  proof cases
    case 1
    with sp have "?sp = 0" by (simp add: unat_eq_zero)
    with 1 nle D show ?thesis by (simp add: put rb_wadv_def ring_write_def)
  next
    case 2
    with sp have "?sp \<noteq> 0" by (auto simp: unat_eq_zero)
    with 2 show ?thesis
      using ring_copy_in_no_wrap [OF 2(2) D(3) nle(1)] by (simp add: put rb_wadv_def del: of_nat_add)
  next
    case 3
    then have e: "int n - int (?c - ?w) = int (?w + n - ?c)" "csize (int (?c - ?w)) = ?c - ?w"
        "csize (int (?w + n - ?c)) = ?w + n - ?c"
      using D n15 rb_cap_bound [of rb] by (simp_all del: of_nat_diff)
    from 3 sp have "?sp \<noteq> 0" by (auto simp: unat_eq_zero)
    with 3 show ?thesis
      using ring_copy_in [OF D(2,3) nle(3,1) 3(2)]
      by (simp add: put rb_wadv_def e del: of_nat_add of_nat_diff)
  qed
qed

lemma rb_get_eq:
  assumes inv: "rb_inv rb" and n: "n = min (unat len) (rb_cnt rb)" and ptr: "n \<le> length ptr"
  shows "rt_ringbuffer_get rb ptr len =
    Some (rb_radv n rb, overwrite ptr 0 (take n (rb_list rb)), of_nat n)"
proof -
  let ?r = "unat (read_index rb)" and ?c = "rb_cap rb"
  let ?sz = "rt_ringbuffer_data_len rb"
  define l where "l = (if ?sz < ucast len then ucast ?sz else len)"
  note D = rb_invD [OF inv]
  have sz: "unat ?sz = rb_cnt rb" by (rule rb_data_len [OF inv])
  have "unat (ucast ?sz :: u16) = rb_cnt rb" "unat (ucast len :: u32) = unat len"
    using sz D(5) rb_cap_bound [of rb] unsigned_less [of len, where 'a = nat] by simp_all
  then have l: "unat l = n" and n15: "n < 2 ^ 15"
    using sz n D(5) rb_cap_bound [of rb] by (auto simp: l_def word_less_nat_alt)
  have ul: "uint l = int n" "ucast l = (of_nat n :: u32)" "read_index rb + ucast l = of_nat (?r + n)"
    by (simp_all flip: l)
  have cmp: "int n < int (?c - ?r) \<longleftrightarrow> ?r + n < ?c" by auto
  have get: "rt_ringbuffer_get rb ptr len = (if ?sz = 0 then Some (rb, ptr, 0)
    else if ?r + n < ?c then do {
         ptr \<leftarrow> mem_copy ptr 0 (buffer_ptr rb) ?r n;
         Some (rb\<lparr>read_index := of_nat (?r + n)\<rparr>, ptr, of_nat n) }
       else do {
         ptr \<leftarrow> mem_copy ptr 0 (buffer_ptr rb) ?r (csize (int (?c - ?r)));
         ptr \<leftarrow> mem_copy ptr (csize (int (?c - ?r))) (buffer_ptr rb) 0 (csize (int n - int (?c - ?r)));
         Some (rb\<lparr>read_mirror := NOT (read_mirror rb),
                  read_index := word_of_int (int n - int (?c - ?r))\<rparr>, ptr, of_nat n) })"
    unfolding rt_ringbuffer_get_def Let_def l_def [symmetric] rb_room [OF inv] ul l cmp by (rule refl)
  have tk: "take n (rb_list rb) = ring (buffer_ptr rb) ?c ?r n" and nc: "n \<le> ?c"
    using n D(5) by (simp_all add: rb_list_def take_ring)
  consider "rb_cnt rb = 0" | "rb_cnt rb > 0" "?r + n < ?c" | "rb_cnt rb > 0" "?c \<le> ?r + n"
    by linarith
  then show ?thesis
  proof cases
    case 1
    with sz have "?sz = 0" by (simp add: unat_eq_zero)
    with 1 n D(1) show ?thesis by (simp add: get rb_radv_def)
  next
    case 2
    with sz have "?sz \<noteq> 0" by (auto simp: unat_eq_zero)
    with 2 show ?thesis
      using ring_copy_out_no_wrap [OF 2(2) D(3) ptr] by (simp add: get tk rb_radv_def del: of_nat_add)
  next
    case 3
    then have e: "int n - int (?c - ?r) = int (?r + n - ?c)" "csize (int (?c - ?r)) = ?c - ?r"
        "csize (int (?r + n - ?c)) = ?r + n - ?c"
      using D n15 rb_cap_bound [of rb] by (simp_all del: of_nat_diff)
    from 3 sz have "?sz \<noteq> 0" by (auto simp: unat_eq_zero)
    with 3 show ?thesis
      using ring_copy_out [OF D(1,3) nc ptr 3(2)]
      by (simp add: get tk rb_radv_def e del: of_nat_add of_nat_diff)
  qed
qed

lemma rb_putchar_eq:
  assumes inv: "rb_inv rb" and sp: "rb_cnt rb < rb_cap rb"
  shows "rt_ringbuffer_putchar rb ch =
    Some (rb_wadv 1 (rb\<lparr>buffer_ptr :=
      ring_write (buffer_ptr rb) (rb_cap rb) (unat (write_index rb)) [ch]\<rparr>), 1)"
proof -
  note D = rb_invD [OF inv]
  have "rt_ringbuffer_space_len rb \<noteq> 0"
    using rb_space_len [OF inv] sp by (auto simp: unat_eq_zero)
  moreover have "uint (write_index rb) = sint (buffer_size rb) - 1
      \<longleftrightarrow> \<not> unat (write_index rb) + 1 < rb_cap rb"
    using rb_size_int [OF inv] D(2) uint_nat [of "write_index rb"] by linarith
  ultimately show ?thesis
    using D rb_size_int [OF inv]
    by (auto simp: rt_ringbuffer_putchar_def Let_def mem_set_def rb_wadv_def ring_write_def overwrite_single)
qed

lemma rb_putchar_full: "rb_inv rb \<Longrightarrow> rb_cnt rb = rb_cap rb \<Longrightarrow> rt_ringbuffer_putchar rb ch = Some (rb, 0)"
  using rb_space_len [of rb] by (simp add: rt_ringbuffer_putchar_def unat_eq_zero)

lemma rb_getchar_eq:
  assumes inv: "rb_inv rb" and sp: "rb_cnt rb > 0"
  shows "rt_ringbuffer_getchar rb ch = Some (rb_radv 1 rb, hd (rb_list rb), 1)"
proof -
  note D = rb_invD [OF inv]
  have "rt_ringbuffer_data_len rb \<noteq> 0"
    using rb_data_len [OF inv] sp by (auto simp: unat_eq_zero)
  moreover have "uint (read_index rb) = sint (buffer_size rb) - 1
      \<longleftrightarrow> \<not> unat (read_index rb) + 1 < rb_cap rb"
    using rb_size_int [OF inv] D(1) uint_nat [of "read_index rb"] by linarith
  moreover have "hd (rb_list rb) = buffer_ptr rb ! unat (read_index rb)"
    using sp D(1) by (simp add: rb_list_def hd_conv_nth ring_def flip: length_0_conv)
  ultimately show ?thesis
    using D rb_size_int [OF inv]
    by (auto simp: rt_ringbuffer_getchar_def Let_def mem_get_def rb_radv_def)
qed

lemma rb_getchar_empty: "rb_inv rb \<Longrightarrow> rb_cnt rb = 0 \<Longrightarrow> rt_ringbuffer_getchar rb ch = Some (rb, ch, 0)"
  using rb_data_len [of rb] by (simp add: rt_ringbuffer_getchar_def unat_eq_zero)

lemma rb_cnt_0_iff: "rb_inv rb \<Longrightarrow> rb_cnt rb = 0 \<longleftrightarrow> rt_ringbuffer_status rb = RT_RINGBUFFER_EMPTY"
  by (auto simp: rb_inv_def rb_cnt_def rt_ringbuffer_status_def word_le_nat_alt word_unat_eq_iff
      split: if_splits)

lemma rb_cnt_cap_iff: "rb_inv rb \<Longrightarrow> rb_cnt rb = rb_cap rb \<longleftrightarrow> rt_ringbuffer_status rb = RT_RINGBUFFER_FULL"
  by (auto simp: rb_inv_def rb_cnt_def rt_ringbuffer_status_def word_le_nat_alt word_unat_eq_iff
      split: if_splits)

lemma rb_init:
  assumes "4 \<le> sint sz" "nat (sint sz) \<le> length pool"
  shows "\<exists>rb'. rt_ringbuffer_init rb pool sz = Some rb' \<and> rb_inv rb' \<and> rb_list rb' = [] \<and>
    rb_cap rb' = 4 * (nat (sint sz) div 4)"
proof -
  have sz: "sint sz = int (unat sz)" using assms by (intro sint_nonneg) simp
  have "unat sz < 2 ^ 15" using sint_lt [of sz] sz by (simp del: of_nat_unat)
  then have al: "sint (sz AND - 4) = int (4 * (unat sz div 4))"
    by (subst sint_small) auto
  have "4 \<le> unat sz" using assms sz by linarith
  then have "4 * (unat sz div 4) \<ge> 4" by presburger
  moreover have "4 * (unat sz div 4) \<le> unat sz" by simp
  ultimately show ?thesis
    using assms
    by (auto simp: rt_ringbuffer_init_def rb_inv_def rb_cap_def rb_list_def rb_cnt_def al sz)
qed

lemma rb_reset: "rb_inv rb \<Longrightarrow> rb_inv (rt_ringbuffer_reset rb) \<and> rb_list (rt_ringbuffer_reset rb) = []"
  by (simp add: rt_ringbuffer_reset_def rb_inv_def rb_list_def rb_cnt_def rb_cap_def)

text \<open>
  The forced write. \<open>rb_forced\<close> is the state its two branches leave: the write position moved,
  and the read position set to it when bytes were lost, with the read mirror flipped when the
  write position wrapped.
\<close>

definition lastn :: "nat \<Rightarrow> 'a list \<Rightarrow> 'a list" where
  "lastn n xs = drop (length xs - n) xs"

definition rb_forced :: "nat \<Rightarrow> rt_ringbuffer \<Rightarrow> rt_ringbuffer" where
  "rb_forced n rb =
     (let rb' = rb_wadv n rb in
      if unat (write_index rb) + n < rb_cap rb then rb'\<lparr>read_index := write_index rb'\<rparr>
      else rb'\<lparr>read_mirror := NOT (read_mirror rb'), read_index := write_index rb'\<rparr>)"

lemma rb_put_force_eq:
  assumes inv: "rb_inv rb" and ptr: "unat len \<le> length ptr" and n: "n = min (unat len) (rb_cap rb)"
  defines "rb' \<equiv> rb\<lparr>buffer_ptr := ring_write (buffer_ptr rb) (rb_cap rb) (unat (write_index rb))
      (take n (drop (unat len - n) ptr))\<rparr>"
  shows "rt_ringbuffer_put_force rb ptr len =
    Some (if n \<le> rb_cap rb - rb_cnt rb then rb_wadv n rb' else rb_forced n rb', of_nat n)"
proof -
  let ?w = "unat (write_index rb)" and ?c = "rb_cap rb"
  let ?sp = "ucast (rt_ringbuffer_space_len rb) :: u16"
  define l where "l = (if uint len > sint (buffer_size rb) then buffer_size rb else len)"
  define off where "off = (if uint len > sint (buffer_size rb)
                           then csize (uint len - sint (buffer_size rb)) else 0)"
  note D = rb_invD [OF inv] and S = rb_size_int [OF inv]
  have sp: "unat ?sp = ?c - rb_cnt rb"
    using rb_cap_bound [of rb] by (simp add: rb_space_len [OF inv])
  have cap: "unat (buffer_size rb) = ?c"
    using sint_nonneg [of "buffer_size rb"] S by (simp del: of_nat_unat)
  have gt: "uint len > sint (buffer_size rb) \<longleftrightarrow> unat len > ?c"
    using S uint_nat [of len] by linarith
  have l: "unat l = n" and n15: "n < 2 ^ 15"
    using cap n rb_cap_bound [of rb] by (auto simp: l_def gt)
  have "csize (uint len - sint (buffer_size rb)) = unat len - ?c" if "unat len > ?c"
  proof -
    have "uint len - sint (buffer_size rb) = int (unat len - ?c)"
      using that S by (simp add: of_nat_diff)
    moreover have "unat len - ?c < 2 ^ 32"
      using unsigned_less [of len, where 'a = nat] by simp
    ultimately show ?thesis by (simp del: of_nat_diff)
  qed
  then have off: "off = unat len - n"
    using n by (auto simp: off_def gt)
  have ul: "uint l = int n" "ucast l = (of_nat n :: u32)" "write_index rb + ucast l = of_nat (?w + n)"
    by (simp_all flip: l)
  have lsp: "l > ?sp \<longleftrightarrow> \<not> n \<le> ?c - rb_cnt rb"
    using sp l by (simp add: word_less_nat_alt not_le)
  have cmp: "int n < int (?c - ?w) \<longleftrightarrow> ?w + n < ?c" by auto
  note put = rt_ringbuffer_put_force_def [of rb ptr len, unfolded Let_def, folded l_def off_def,
      unfolded rb_room [OF inv] ul l cmp lsp]
  have nle: "off + n \<le> length ptr" "n \<le> ?c" using ptr n off by auto
  show ?thesis
  proof (cases "?w + n < ?c")
    case True
    then show ?thesis
      using ring_copy_in_no_wrap [OF True D(3) nle(1)] off
      by (simp add: put rb_wadv_def rb_forced_def Let_def rb'_def del: of_nat_add)
  next
    case False
    then have e: "int n - int (?c - ?w) = int (?w + n - ?c)" "csize (int (?c - ?w)) = ?c - ?w"
        "csize (int (?w + n - ?c)) = ?w + n - ?c"
      using D n15 rb_cap_bound [of rb] by (simp_all del: of_nat_diff)
    from False show ?thesis
      using ring_copy_in [OF D(2,3) nle(2,1)] off
      by (simp add: put rb_wadv_def rb_forced_def Let_def rb'_def e del: of_nat_add of_nat_diff)
  qed
qed

text \<open>Bytes were lost and the two mirrors differed: the buffer is full of the newest bytes.\<close>

lemma rb_forced_full:
  assumes inv: "rb_inv rb" and m: "read_mirror rb \<noteq> write_mirror rb"
    and bs: "length bs \<le> rb_cap rb" "rb_cap rb - rb_cnt rb < length bs"
  defines "rb' \<equiv> rb\<lparr>buffer_ptr := ring_write (buffer_ptr rb) (rb_cap rb) (unat (write_index rb)) bs\<rparr>"
  shows "rb_inv (rb_forced (length bs) rb')"
    "rb_list (rb_forced (length bs) rb') = lastn (rb_cap rb) (rb_list rb @ bs)"
proof -
  let ?f = "rb_forced (length bs) rb'"
  let ?w' = "(unat (read_index rb) + rb_cnt rb + length bs) mod rb_cap rb"
  note D = rb_invD [OF inv]
  have w: "unat (write_index rb) + length bs < 2 * rb_cap rb" using D bs by simp
  have w': "?w' = (unat (write_index rb) + length bs) mod rb_cap rb"
    using D(6) by (metis mod_add_left_eq)
  have f: "unat (read_index ?f) = ?w'" "rb_cnt ?f = rb_cap rb" "rb_cap ?f = rb_cap rb"
      "buffer_ptr ?f = buffer_ptr rb'" "write_index ?f = read_index ?f"
      "read_mirror ?f \<noteq> write_mirror ?f" "buffer_size ?f = buffer_size rb"
    unfolding w' mod_twice [OF w]
    using m D bs rb_cap_bound [of rb]
    by (auto simp: rb_forced_def rb_wadv_def Let_def rb'_def rb_cnt_def simp del: of_nat_add of_nat_diff)
  have l: "length (buffer_ptr rb') = length (buffer_ptr rb)"
    using D bs by (simp add: rb'_def)
  show "rb_inv ?f"
    using inv f l D by (auto simp: rb_inv_def)
  show "rb_list ?f = lastn (rb_cap rb) (rb_list rb @ bs)"
    using f ring_write_force [OF D(1,3,5) bs(1)] bs(2) D(6)
    by (simp add: rb_list_def rb'_def lastn_def)
qed

text \<open>
  Bytes were lost and the two mirrors were equal: the write position wrapped, both mirrors
  flip, and the buffer counts as empty.
\<close>

lemma rb_forced_empty:
  assumes inv: "rb_inv rb" and m: "read_mirror rb = write_mirror rb"
    and bs: "rb_cap rb - rb_cnt rb < n" "n \<le> rb_cap rb"
  shows "rb_list (rb_forced n rb) = []"
proof -
  note D = rb_invD [OF inv]
  have "\<not> unat (write_index rb) + n < rb_cap rb"
    using inv m bs by (auto simp: rb_inv_def rb_cnt_def word_le_nat_alt)
  then show ?thesis
    using m by (simp add: rb_forced_def rb_wadv_def Let_def rb_list_def rb_cnt_def)
qed

lemma rb_putchar_force_eq:
  fixes ch :: u8
  assumes inv: "rb_inv rb"
  defines "rb' \<equiv> rb\<lparr>buffer_ptr := ring_write (buffer_ptr rb) (rb_cap rb) (unat (write_index rb)) [ch]\<rparr>"
  shows "rt_ringbuffer_putchar_force rb ch =
    Some (if rb_cnt rb < rb_cap rb then rb_wadv 1 rb' else rb_forced 1 rb', 1)"
proof -
  note D = rb_invD [OF inv]
  have full: "rt_ringbuffer_status rb = RT_RINGBUFFER_FULL \<longleftrightarrow> \<not> rb_cnt rb < rb_cap rb"
    using rb_cnt_cap_iff [OF inv] D(5) by auto
  have "uint (write_index rb) = sint (buffer_size rb) - 1
      \<longleftrightarrow> \<not> unat (write_index rb) + 1 < rb_cap rb"
    using rb_size_int [OF inv] D(2) uint_nat [of "write_index rb"] by linarith
  with full show ?thesis
    using D rb_size_int [OF inv]
    by (auto simp: rt_ringbuffer_putchar_force_def Let_def mem_set_def rb_wadv_def rb_forced_def
        rb'_def ring_write_def overwrite_single)
qed

lemma rb_full_mirrors: "rb_inv rb \<Longrightarrow> rb_cnt rb = rb_cap rb \<Longrightarrow> read_mirror rb \<noteq> write_mirror rb"
  using rb_cnt_cap_iff [of rb] by (auto simp: rt_ringbuffer_status_def split: if_splits)

subsection \<open>The byte queue interface\<close>

text \<open>
  What a client of the buffer relies on: \<open>put\<close> accepts as much of a block as fits, \<open>get\<close> returns
  the oldest bytes. \<open>fifo_run\<close> is a client that interleaves the two in any order and keeps the
  bytes the queue accepted and the bytes it delivered.
\<close>

datatype fifo_op = Put "u8 list" | Get u16

fun fifo_run ::
    "('q \<Rightarrow> u8 list \<Rightarrow> u16 \<Rightarrow> ('q \<times> u32) option) \<Rightarrow>
     ('q \<Rightarrow> u8 list \<Rightarrow> u16 \<Rightarrow> ('q \<times> u8 list \<times> u32) option) \<Rightarrow>
     'q \<Rightarrow> fifo_op list \<Rightarrow> ('q \<times> u8 list \<times> u8 list) option" where
  "fifo_run put get q [] = Some (q, [], [])"
| "fifo_run put get q (Put bs # ops) = do {
     (q, n) \<leftarrow> put q bs (of_nat (length bs));
     (q, acc, got) \<leftarrow> fifo_run put get q ops;
     Some (q, take (unat n) bs @ acc, got) }"
| "fifo_run put get q (Get k # ops) = do {
     (q, bs, n) \<leftarrow> get q (replicate (unat k) 0) k;
     (q, acc, got) \<leftarrow> fifo_run put get q ops;
     Some (q, acc, take (unat n) bs @ got) }"

definition fifo_op_ok :: "fifo_op \<Rightarrow> bool" where
  "fifo_op_ok x = (case x of Put bs \<Rightarrow> length bs < 2 ^ 16 | Get _ \<Rightarrow> True)"

locale byte_queue =
  fixes put :: "'q \<Rightarrow> u8 list \<Rightarrow> u16 \<Rightarrow> ('q \<times> u32) option"
    and get :: "'q \<Rightarrow> u8 list \<Rightarrow> u16 \<Rightarrow> ('q \<times> u8 list \<times> u32) option"
    and contents :: "'q \<Rightarrow> u8 list"
    and cap :: "'q \<Rightarrow> nat"
    and invar :: "'q \<Rightarrow> bool"
  assumes bounded: "invar q \<Longrightarrow> length (contents q) \<le> cap q"
    and put_spec: "invar q \<Longrightarrow> unat len \<le> length bs \<Longrightarrow>
      n = min (unat len) (cap q - length (contents q)) \<Longrightarrow>
      \<exists>q'. put q bs len = Some (q', of_nat n) \<and> invar q' \<and>
        contents q' = contents q @ take n bs \<and> cap q' = cap q"
    and get_spec: "invar q \<Longrightarrow> n = min (unat len) (length (contents q)) \<Longrightarrow> n \<le> length ptr \<Longrightarrow>
      \<exists>q'. get q ptr len = Some (q', overwrite ptr 0 (take n (contents q)), of_nat n) \<and> invar q' \<and>
        contents q' = drop n (contents q) \<and> cap q' = cap q"
begin

lemma fifo:
  "invar q \<Longrightarrow> list_all fifo_op_ok ops \<Longrightarrow>
   \<exists>q' acc got. fifo_run put get q ops = Some (q', acc, got) \<and> invar q' \<and> cap q' = cap q \<and>
     got @ contents q' = contents q @ acc"
proof (induction ops arbitrary: q)
  case (Cons x ops)
  show ?case
  proof (cases x)
    case (Put bs)
    define n where "n = min (length bs) (cap q - length (contents q))"
    have len: "unat (of_nat (length bs) :: u16) = length bs" "unat (of_nat n :: u32) = n"
      using Cons.prems(2) Put by (auto simp: fifo_op_ok_def n_def min_def)
    from put_spec [OF Cons.prems(1), of "of_nat (length bs)" bs n] len
    obtain q' where q': "put q bs (of_nat (length bs)) = Some (q', of_nat n)" "invar q'"
        "contents q' = contents q @ take n bs" "cap q' = cap q"
      by (auto simp: n_def)
    with Cons.IH [of q'] Cons.prems(2) len show ?thesis
      by (auto simp: Put)
  next
    case (Get k)
    define n where "n = min (unat k) (length (contents q))"
    have len: "unat (of_nat n :: u32) = n"
      using unsigned_less [of k, where 'a = nat] by (auto simp: n_def min_def)
    from get_spec [OF Cons.prems(1) n_def, of "replicate (unat k) 0"]
    obtain q' where q': "get q (replicate (unat k) 0) k =
          Some (q', overwrite (replicate (unat k) 0) 0 (take n (contents q)), of_nat n)"
        "invar q'" "contents q' = drop n (contents q)" "cap q' = cap q"
      by (auto simp: n_def)
    moreover have "take n (overwrite (replicate (unat k) 0) 0 (take n (contents q))) = take n (contents q)"
      by (simp add: overwrite_def n_def)
    ultimately show ?thesis
      using Cons.IH [of q'] Cons.prems(2) len by (auto simp: Get)
  qed
qed simp

end

interpretation rbq: byte_queue rt_ringbuffer_put rt_ringbuffer_get rb_list rb_cap rb_inv
proof
  fix rb :: rt_ringbuffer and bs :: "u8 list" and len :: u16 and n
  assume inv: "rb_inv rb" and len: "unat len \<le> length bs"
    and n: "n = min (unat len) (rb_cap rb - length (rb_list rb))"
  let ?rb = "rb\<lparr>buffer_ptr := ring_write (buffer_ptr rb) (rb_cap rb) (unat (write_index rb)) (take n bs)\<rparr>"
  note D = rb_invD [OF inv]
  have nb: "length (take n bs) = n" "rb_cnt rb + n \<le> rb_cap rb" using n len D(5) by auto
  have "rb_inv ?rb" using inv D nb by (intro rb_inv_buffer) auto
  with inv D nb rb_list_wadv [OF inv, of "take n bs"] rb_put_eq [OF inv len] n
  show "\<exists>q'. rt_ringbuffer_put rb bs len = Some (q', of_nat n) \<and> rb_inv q' \<and>
      rb_list q' = rb_list rb @ take n bs \<and> rb_cap q' = rb_cap rb"
    by (auto simp: rb_wadv)
next
  fix rb :: rt_ringbuffer and ptr :: "u8 list" and len :: u16 and n
  assume inv: "rb_inv rb" and n: "n = min (unat len) (length (rb_list rb))" "n \<le> length ptr"
  then show "\<exists>q'. rt_ringbuffer_get rb ptr len = Some (q', overwrite ptr 0 (take n (rb_list rb)), of_nat n) \<and>
      rb_inv q' \<and> rb_list q' = drop n (rb_list rb) \<and> rb_cap q' = rb_cap rb"
    using rb_get_eq [OF inv, of n len ptr] rb_list_radv [OF inv, of n] rb_radv [OF inv, of n]
    by (auto simp del: length_rb_list simp: length_rb_list)
qed (simp add: rb_invD)

subsection \<open>Properties\<close>


definition rb_raw :: rt_ringbuffer where
  "rb_raw = \<lparr>buffer_ptr = [], read_mirror = 0, read_index = 0, write_mirror = 0, write_index = 0,
             buffer_size = 0\<rparr>"


text \<open>
  \<open>rt_ringbuffer_putchar_force\<close> never fails and keeps the newest bytes: the queue becomes the
  last \<open>size\<close> bytes of the old contents followed by the character.
\<close>

lemma rt_ringbuffer_putchar_force_newest:
  assumes "rb_inv rb"
  shows "\<exists>rb'. rt_ringbuffer_putchar_force rb ch = Some (rb', 1) \<and> rb_inv rb' \<and>
    rb_list rb' = lastn (rb_cap rb) (rb_list rb @ [ch])"
proof -
  note D = rb_invD [OF assms]
  show ?thesis
  proof (cases "rb_cnt rb < rb_cap rb")
    case True
    let ?rb = "rb\<lparr>buffer_ptr := ring_write (buffer_ptr rb) (rb_cap rb) (unat (write_index rb)) [ch]\<rparr>"
    have "rb_inv ?rb" using assms D by (intro rb_inv_buffer) auto
    with True show ?thesis
      using rb_putchar_force_eq [OF assms, of ch] rb_list_wadv [OF assms, of "[ch]"] rb_wadv(1) [of ?rb 1]
      by (simp add: lastn_def)
  next
    case False
    then have "read_mirror rb \<noteq> write_mirror rb" "rb_cap rb - rb_cnt rb < length [ch]"
      using rb_full_mirrors [OF assms] D(5) by auto
    with False show ?thesis
      using rb_putchar_force_eq [OF assms, of ch] rb_forced_full [OF assms _ _, of "[ch]"] D(4) by auto
  qed
qed

text \<open>
  \<open>rt_ringbuffer_put_force\<close> stores the newest bytes when nothing has to be dropped or when the
  two mirror bits differ; when bytes have to be dropped while the mirror bits are equal, both
  mirrors are flipped and the buffer is left empty: every queued byte and the whole new block
  are lost, although the call reports the block as written.
\<close>

lemma rt_ringbuffer_put_force_cases:
  assumes "rb_inv rb" "unat len \<le> length ptr"
  shows "\<exists>rb'. rt_ringbuffer_put_force rb ptr len = Some (rb', of_nat (min (unat len) (rb_cap rb))) \<and>
    rb_list rb' =
      (if min (unat len) (rb_cap rb) \<le> rb_cap rb - length (rb_list rb) \<or> read_mirror rb \<noteq> write_mirror rb
       then lastn (rb_cap rb) (rb_list rb @ take (unat len) ptr) else [])"
proof -
  define n where "n = min (unat len) (rb_cap rb)"
  define bs where "bs = take n (drop (unat len - n) ptr)"
  let ?rb = "rb\<lparr>buffer_ptr := ring_write (buffer_ptr rb) (rb_cap rb) (unat (write_index rb)) bs\<rparr>"
  note D = rb_invD [OF assms(1)]
  have bs: "length bs = n" "n \<le> rb_cap rb" using assms(2) by (auto simp: bs_def n_def)
  have inv: "rb_inv ?rb" using assms(1) D bs by (intro rb_inv_buffer) auto
  have bs_last: "bs = lastn n (take (unat len) ptr)"
    using assms(2) by (simp add: bs_def lastn_def n_def drop_take min_def)
  have last: "lastn (rb_cap rb) (rb_list rb @ bs) = lastn (rb_cap rb) (rb_list rb @ take (unat len) ptr)"
    using assms(2) D(5) unfolding bs_last by (auto simp: lastn_def n_def min_def)
  have eq: "rt_ringbuffer_put_force rb ptr len =
      Some (if n \<le> rb_cap rb - rb_cnt rb then rb_wadv n ?rb else rb_forced n ?rb, of_nat n)"
    using rb_put_force_eq [OF assms n_def] by (simp add: bs_def)
  consider "n \<le> rb_cap rb - rb_cnt rb" | "\<not> n \<le> rb_cap rb - rb_cnt rb" "read_mirror rb \<noteq> write_mirror rb"
    | "\<not> n \<le> rb_cap rb - rb_cnt rb" "read_mirror rb = write_mirror rb"
    by blast
  then show ?thesis
  proof cases
    case 1
    then have "rb_list (rb_wadv n ?rb) = rb_list rb @ bs"
      using rb_list_wadv [OF assms(1), of bs] bs D(5) by simp
    moreover have "lastn (rb_cap rb) (rb_list rb @ bs) = rb_list rb @ bs"
      using 1 bs D(5) by (simp add: lastn_def)
    ultimately show ?thesis using 1 eq last by (simp add: n_def)
  next
    case 2
    then show ?thesis
      using rb_forced_full(2) [OF assms(1), of bs] bs eq last by (simp add: n_def)
  next
    case 3
    then have "rb_list (rb_forced n ?rb) = []"
      using rb_forced_empty [OF inv] bs by simp
    with 3 show ?thesis using eq by (simp add: n_def)
  qed
qed

end
