(* ===== verification/MqttPacket.thy ===== *)
theory MqttPacket
  imports Prelude
begin

text \<open>
  The common part of the MQTT packet library, \<open>MQTTPacket/src/MQTTPacket.c\<close> and \<open>MQTTPacket.h\<close>:
  the fixed header, the remaining-length encoding, the readers and writers of integers and
  strings, and the two functions that read a packet from a transport.

  A pointer into a buffer is a cursor: the memory of the buffer and a position in it.
\<close>

type_synonym cursor = "u8 list \<times> nat"

abbreviation (input) "MQTTPACKET_BUFFER_TOO_SHORT \<equiv> - 2 :: int"
abbreviation (input) "MQTTPACKET_READ_ERROR \<equiv> - 1 :: int"

datatype msgTypes = RESERVED0 | CONNECT | CONNACK | PUBLISH | PUBACK | PUBREC | PUBREL | PUBCOMP
  | SUBSCRIBE | SUBACK | UNSUBSCRIBE | UNSUBACK | PINGREQ | PINGRESP | DISCONNECT | RESERVED15

text \<open>The numbers of the enumeration, as the four bits of the header hold them.\<close>

fun msg_num :: "msgTypes \<Rightarrow> 4 word" where
  "msg_num RESERVED0 = 0" | "msg_num CONNECT = 1" | "msg_num CONNACK = 2" | "msg_num PUBLISH = 3"
| "msg_num PUBACK = 4" | "msg_num PUBREC = 5" | "msg_num PUBREL = 6" | "msg_num PUBCOMP = 7"
| "msg_num SUBSCRIBE = 8" | "msg_num SUBACK = 9" | "msg_num UNSUBSCRIBE = 10"
| "msg_num UNSUBACK = 11" | "msg_num PINGREQ = 12" | "msg_num PINGRESP = 13"
| "msg_num DISCONNECT = 14" | "msg_num RESERVED15 = 15"

text \<open>The header byte and its bit fields (the layout without \<open>REVERSED\<close>).\<close>

record MQTTHeader =
  h_retain :: "1 word"
  h_qos :: "2 word"
  h_dup :: "1 word"
  h_type :: "4 word"

definition header_byte :: "MQTTHeader \<Rightarrow> u8" where
  "header_byte h = ucast (h_retain h) OR push_bit 1 (ucast (h_qos h)) OR
     push_bit 3 (ucast (h_dup h)) OR push_bit 4 (ucast (h_type h))"

definition byte_header :: "u8 \<Rightarrow> MQTTHeader" where
  "byte_header b = \<lparr>h_retain = ucast b, h_qos = ucast (drop_bit 1 b),
     h_dup = ucast (drop_bit 3 b), h_type = ucast (drop_bit 4 b)\<rparr>"

definition MQTTHeader_zero :: MQTTHeader where
  "MQTTHeader_zero = \<lparr>h_retain = 0, h_qos = 0, h_dup = 0, h_type = 0\<rparr>"

record MQTTString =
  cstring :: "u8 list option"
  ls_len :: int
  ls_data :: "u8 list option"

definition MQTTString_initializer :: MQTTString where
  "MQTTString_initializer = \<lparr>cstring = None, ls_len = 0, ls_data = None\<rparr>"

subsection \<open>The remaining-length field\<close>

function MQTTPacket_encode_loop :: "u8 list \<Rightarrow> nat \<Rightarrow> int \<Rightarrow> int \<Rightarrow> (u8 list \<times> int) option" where
  "MQTTPacket_encode_loop m buf rc len = do {
     let d = word_of_int (len smod 128);
     let len = len sdiv 128;
     let d = (if len > 0 then d OR 0x80 else d);
     m \<leftarrow> mem_set m (buf + nat rc) d;
     let rc = rc + 1;
     if len > 0 then MQTTPacket_encode_loop m buf rc len else Some (m, rc) }"
  by pat_completeness auto
termination
  by (relation "measure (\<lambda>(m, buf, rc, len). nat len)")
    (auto simp: signed_divide_int_def sgn_if split: if_splits)

declare MQTTPacket_encode_loop.simps [simp del]

text \<open>\<open>MQTTPacket_encode(buf, length)\<close>, with \<open>buf\<close> a cursor; the count of bytes written is returned.\<close>

definition MQTTPacket_encode :: "cursor \<Rightarrow> int \<Rightarrow> (u8 list \<times> int) option" where
  "MQTTPacket_encode c len = MQTTPacket_encode_loop (fst c) (snd c) 0 len"

text \<open>\<open>ptr += MQTTPacket_encode(ptr, len)\<close>, as every serializer does after the header.\<close>

definition write_rem_len :: "cursor \<Rightarrow> int \<Rightarrow> cursor option" where
  "write_rem_len c len = do {
     (m, n) \<leftarrow> MQTTPacket_encode c len;
     Some (m, snd c + nat n) }"

text \<open>
  A byte source: called with its state and a count it returns what the C function returns, the
  bytes it has stored through its pointer argument, and its new state.
\<close>

type_synonym 's getfn = "'s \<Rightarrow> int \<Rightarrow> (int \<times> u8 list \<times> 's) option"

text \<open>
  The loop of \<open>MQTTPacket_decode\<close>; it returns \<open>len\<close>, \<open>*value\<close> and the state of the source. A
  source that claims one byte but does not store exactly one leaves \<open>c\<close> without a value.
\<close>

function MQTTPacket_decode_loop ::
    "'s getfn \<Rightarrow> 's \<Rightarrow> int \<Rightarrow> int \<Rightarrow> int \<Rightarrow> (int \<times> int \<times> 's) option" where
  "MQTTPacket_decode_loop getcharfn s len multiplier value =
     (let len = len + 1 in
      if len > 4 then Some (len, value, s)
      else case getcharfn s 1 of
        None \<Rightarrow> None
      | Some (rc, cs, s') \<Rightarrow>
          if rc \<noteq> 1 then Some (len, value, s')
          else case cs of
            [c] \<Rightarrow>
              let value = value + uint (c AND 127) * multiplier; multiplier = multiplier * 128 in
              if c AND 128 \<noteq> 0 then MQTTPacket_decode_loop getcharfn s' len multiplier value
              else Some (len, value, s')
          | _ \<Rightarrow> None)"
  by pat_completeness auto
termination
  by (relation "measure (\<lambda>(g, s, len, mult, val). nat (4 - len))") auto

declare MQTTPacket_decode_loop.simps [simp del]

definition MQTTPacket_decode :: "'s getfn \<Rightarrow> 's \<Rightarrow> (int \<times> int \<times> 's) option" where
  "MQTTPacket_decode getcharfn s = MQTTPacket_decode_loop getcharfn s 0 1 0"

definition MQTTPacket_len :: "int \<Rightarrow> int option" where
  "MQTTPacket_len rem_len =
     (let rem_len = rem_len + 1 in
      c_int (if rem_len < 128 then rem_len + 1
             else if rem_len < 16384 then rem_len + 2
             else if rem_len < 2097151 then rem_len + 3
             else rem_len + 4))"

text \<open>\<open>bufchar\<close> stores every byte it reads into the same cell; the state is \<open>bufptr\<close>.\<close>

definition bufchar :: "cursor getfn" where
  "bufchar bufptr count =
     (if count \<le> 0 then Some (count, [], bufptr)
      else do {
        bs \<leftarrow> mem_read (fst bufptr) (snd bufptr) (nat count);
        Some (count, [last bs], (fst bufptr, snd bufptr + nat count)) })"

definition MQTTPacket_decodeBuf :: "cursor \<Rightarrow> (int \<times> int) option" where
  "MQTTPacket_decodeBuf buf = do {
     (len, value, _) \<leftarrow> MQTTPacket_decode bufchar buf;
     Some (len, value) }"

subsection \<open>Integers and strings\<close>

definition readInt :: "cursor \<Rightarrow> (int \<times> cursor) option" where
  "readInt c = do {
     a \<leftarrow> mem_get (fst c) (snd c);
     b \<leftarrow> mem_get (fst c) (snd c + 1);
     Some (256 * uint a + uint b, (fst c, snd c + 2)) }"

definition readChar :: "cursor \<Rightarrow> (u8 \<times> cursor) option" where
  "readChar c = do {
     a \<leftarrow> mem_get (fst c) (snd c);
     Some (a, (fst c, snd c + 1)) }"

definition writeChar :: "cursor \<Rightarrow> u8 \<Rightarrow> cursor option" where
  "writeChar c b = do {
     m \<leftarrow> mem_set (fst c) (snd c) b;
     Some (m, snd c + 1) }"

definition writeInt :: "cursor \<Rightarrow> int \<Rightarrow> cursor option" where
  "writeInt c anInt = do {
     m \<leftarrow> mem_set (fst c) (snd c) (word_of_int (anInt sdiv 256));
     m \<leftarrow> mem_set m (snd c + 1) (word_of_int (anInt smod 256));
     Some (m, snd c + 2) }"

text \<open>\<open>memcpy(*pptr, src, n); *pptr += n\<close>.\<close>

definition write_bytes :: "cursor \<Rightarrow> u8 list \<Rightarrow> nat \<Rightarrow> cursor option" where
  "write_bytes c src n = do {
     m \<leftarrow> mem_copy (fst c) (snd c) src 0 n;
     Some (m, snd c + n) }"

definition writeCString :: "cursor \<Rightarrow> u8 list \<Rightarrow> cursor option" where
  "writeCString c str = do {
     len \<leftarrow> c_strlen str;
     c \<leftarrow> writeInt c (int len);
     write_bytes c str len }"

definition getLenStringLen :: "u8 list \<Rightarrow> int option" where
  "getLenStringLen ptr = do {
     a \<leftarrow> mem_get ptr 0;
     b \<leftarrow> mem_get ptr 1;
     Some (256 * uint a + uint b) }"

definition writeMQTTString :: "cursor \<Rightarrow> MQTTString \<Rightarrow> cursor option" where
  "writeMQTTString c ms =
     (if ls_len ms > 0 then do {
        c \<leftarrow> writeInt c (ls_len ms);
        d \<leftarrow> ls_data ms;
        write_bytes c d (nat (ls_len ms)) }
      else case cstring ms of
        Some s \<Rightarrow> writeCString c s
      | None \<Rightarrow> writeInt c 0)"

text \<open>The string read is a pointer into the buffer: the memory from the cursor on.\<close>

definition readMQTTLenString :: "MQTTString \<Rightarrow> cursor \<Rightarrow> nat \<Rightarrow> (int \<times> MQTTString \<times> cursor) option" where
  "readMQTTLenString ms c enddata =
     (if int enddata - int (snd c) > 1 then do {
        (n, c) \<leftarrow> readInt c;
        let ms = ms\<lparr>ls_len := n\<rparr>;
        if snd c + nat n \<le> enddata
        then Some (1, ms\<lparr>ls_data := Some (drop (snd c) (fst c)), cstring := None\<rparr>,
                   (fst c, snd c + nat n))
        else Some (0, ms\<lparr>cstring := None\<rparr>, c) }
      else Some (0, ms\<lparr>cstring := None\<rparr>, c))"

definition MQTTstrlen :: "MQTTString \<Rightarrow> int option" where
  "MQTTstrlen ms =
     (case cstring ms of
        Some s \<Rightarrow> map_option int (c_strlen s)
      | None \<Rightarrow> Some (ls_len ms))"

text \<open>\<open>strncmp(aptr, bptr, alen)\<close> is only evaluated when the two lengths are equal.\<close>

definition MQTTPacket_equals :: "MQTTString \<Rightarrow> u8 list \<Rightarrow> bool option" where
  "MQTTPacket_equals a bptr = do {
     (aptr, alen) \<leftarrow> (case cstring a of
        Some s \<Rightarrow> map_option (\<lambda>n. (Some s, int n)) (c_strlen s)
      | None \<Rightarrow> Some (ls_data a, ls_len a));
     blen \<leftarrow> c_strlen bptr;
     if alen = int blen then do {
       ap \<leftarrow> (if alen = 0 then Some [] else aptr);
       r \<leftarrow> c_strncmp ap bptr (nat alen);
       Some (r = 0) }
     else Some False }"

subsection \<open>Reading a packet from a transport\<close>

text \<open>
  \<open>getfn(buf + at, n)\<close>: the bytes the source stores are written to the buffer.
\<close>

definition get_into :: "'s getfn \<Rightarrow> 's \<Rightarrow> u8 list \<Rightarrow> nat \<Rightarrow> int \<Rightarrow> (int \<times> u8 list \<times> 's) option" where
  "get_into getfn s m at n = do {
     (rc, bs, s) \<leftarrow> getfn s n;
     m \<leftarrow> mem_write m at bs;
     Some (rc, m, s) }"

definition MQTTPacket_read :: "u8 list \<Rightarrow> int \<Rightarrow> 's getfn \<Rightarrow> 's \<Rightarrow> (int \<times> u8 list \<times> 's) option" where
  "MQTTPacket_read buf buflen getfn s = do {
     (rc, buf, s) \<leftarrow> get_into getfn s buf 0 1;
     if rc \<noteq> 1 then Some (- 1, buf, s)
     else do {
       (_, rem_len, s) \<leftarrow> MQTTPacket_decode getfn s;
       (buf, n) \<leftarrow> MQTTPacket_encode (buf, 1) rem_len;
       let len = 1 + n;
       if rem_len + len > buflen then Some (- 1, buf, s)
       else do {
         (rc, buf, s) \<leftarrow> get_into getfn s buf (nat len) rem_len;
         if rc \<noteq> rem_len then Some (- 1, buf, s)
         else do {
           b \<leftarrow> mem_get buf 0;
           Some (uint (h_type (byte_header b)), buf, s) } } } }"

text \<open>The non-blocking reader keeps its progress in the transport structure.\<close>

record MQTTTransport =
  t_multiplier :: int
  t_rem_len :: int
  t_len :: int
  t_state :: u8

function MQTTPacket_decodenb_loop ::
    "'s getfn \<Rightarrow> 's \<Rightarrow> MQTTTransport \<Rightarrow> (int \<times> MQTTTransport \<times> 's) option" where
  "MQTTPacket_decodenb_loop getfn s trp =
     (let trp = trp\<lparr>t_len := t_len trp + 1\<rparr> in
      if t_len trp > 4 then Some (MQTTPACKET_READ_ERROR, trp, s)
      else case getfn s 1 of
        None \<Rightarrow> None
      | Some (frc, cs, s') \<Rightarrow>
          if frc = - 1 then Some (MQTTPACKET_READ_ERROR, trp, s')
          else if frc = 0 then Some (0, trp, s')
          else case cs of
            [c] \<Rightarrow>
              let trp = trp\<lparr>t_rem_len := t_rem_len trp + uint (c AND 127) * t_multiplier trp,
                            t_multiplier := t_multiplier trp * 128\<rparr> in
              if c AND 128 \<noteq> 0 then MQTTPacket_decodenb_loop getfn s' trp
              else Some (t_len trp, trp, s')
          | _ \<Rightarrow> None)"
  by pat_completeness auto
termination
  by (relation "measure (\<lambda>(g, s, trp). nat (4 - t_len trp))") auto

declare MQTTPacket_decodenb_loop.simps [simp del]

definition MQTTPacket_decodenb ::
    "'s getfn \<Rightarrow> 's \<Rightarrow> MQTTTransport \<Rightarrow> (int \<times> MQTTTransport \<times> 's) option" where
  "MQTTPacket_decodenb getfn s trp =
     (let trp = (if t_len trp = 0 then trp\<lparr>t_multiplier := 1, t_rem_len := 0\<rparr> else trp) in
      MQTTPacket_decodenb_loop getfn s trp)"

text \<open>
  The three stages of \<open>MQTTPacket_readnb\<close>, each falling through to the next one. The result is
  the packet type, 0 for \<open>call again\<close> or -1, with the buffer, the transport and the source.
\<close>

definition readnb_state2 ::
    "u8 list \<Rightarrow> 's getfn \<Rightarrow> 's \<Rightarrow> MQTTTransport \<Rightarrow> (int \<times> u8 list \<times> MQTTTransport \<times> 's) option" where
  "readnb_state2 buf getfn s trp = do {
     (frc, buf, s) \<leftarrow> get_into getfn s buf (nat (t_len trp)) (t_rem_len trp);
     if frc = - 1 then Some (- 1, buf, trp\<lparr>t_state := 0\<rparr>, s)
     else if frc = 0 then Some (0, buf, trp, s)
     else
       let trp = trp\<lparr>t_rem_len := t_rem_len trp - frc, t_len := t_len trp + frc\<rparr> in
       if t_rem_len trp \<noteq> 0 then Some (0, buf, trp, s)
       else do {
         b \<leftarrow> mem_get buf 0;
         Some (uint (h_type (byte_header b)), buf, trp\<lparr>t_state := 0\<rparr>, s) } }"

definition readnb_state1 ::
    "u8 list \<Rightarrow> int \<Rightarrow> 's getfn \<Rightarrow> 's \<Rightarrow> MQTTTransport \<Rightarrow> (int \<times> u8 list \<times> MQTTTransport \<times> 's) option" where
  "readnb_state1 buf buflen getfn s trp = do {
     (frc, trp, s) \<leftarrow> MQTTPacket_decodenb getfn s trp;
     if frc = MQTTPACKET_READ_ERROR then Some (- 1, buf, trp\<lparr>t_state := 0\<rparr>, s)
     else if frc = 0 then Some (0, buf, trp, s)
     else do {
       (buf, n) \<leftarrow> MQTTPacket_encode (buf, 1) (t_rem_len trp);
       let trp = trp\<lparr>t_len := 1 + n\<rparr>;
       if t_rem_len trp + t_len trp > buflen then Some (- 1, buf, trp\<lparr>t_state := 0\<rparr>, s)
       else readnb_state2 buf getfn s (trp\<lparr>t_state := t_state trp + 1\<rparr>) } }"

definition readnb_state0 ::
    "u8 list \<Rightarrow> int \<Rightarrow> 's getfn \<Rightarrow> 's \<Rightarrow> MQTTTransport \<Rightarrow> (int \<times> u8 list \<times> MQTTTransport \<times> 's) option" where
  "readnb_state0 buf buflen getfn s trp = do {
     (frc, buf, s) \<leftarrow> get_into getfn s buf 0 1;
     if frc = - 1 then Some (- 1, buf, trp\<lparr>t_state := 0\<rparr>, s)
     else if frc = 0 then Some (0, buf, trp, s)
     else readnb_state1 buf buflen getfn s (trp\<lparr>t_len := 0, t_state := t_state trp + 1\<rparr>) }"

definition MQTTPacket_readnb ::
    "u8 list \<Rightarrow> int \<Rightarrow> 's getfn \<Rightarrow> 's \<Rightarrow> MQTTTransport \<Rightarrow> (int \<times> u8 list \<times> MQTTTransport \<times> 's) option" where
  "MQTTPacket_readnb buf buflen getfn s trp =
     (if t_state trp = 1 then readnb_state1 buf buflen getfn s trp
      else if t_state trp = 2 then readnb_state2 buf getfn s trp
      else if t_state trp = 0 then readnb_state0 buf buflen getfn s trp
      else readnb_state0 buf buflen getfn s (trp\<lparr>t_state := 0\<rparr>))"

subsection \<open>What the writers write and the readers see\<close>

text \<open>
  A writer \<^emph>\<open>emits\<close> a byte sequence at its cursor; a cursor \<^emph>\<open>sees\<close> a byte sequence when the
  memory holds it from there on. The serializers below are sequences of emits, and the
  deserializers are run on cursors that see what was emitted.
\<close>

definition emit :: "cursor \<Rightarrow> u8 list \<Rightarrow> cursor option" where
  "emit c bs = do { m \<leftarrow> mem_write (fst c) (snd c) bs; Some (m, snd c + length bs) }"

definition sees :: "cursor \<Rightarrow> u8 list \<Rightarrow> bool" where
  "sees c bs \<longleftrightarrow> take (length bs) (drop (snd c) (fst c)) = bs"

lemma emit_append: "emit c (a @ b) = do { c \<leftarrow> emit c a; emit c b }"
  by (simp add: emit_def mem_write_append)
    (simp add: mem_write_def add.assoc split: option.splits)

lemma emit_Some:
  assumes "p + length bs \<le> length m"
  shows "emit (m, p) bs = Some (overwrite m p bs, p + length bs)"
  using assms by (simp add: emit_def mem_write_def)

lemma sees_Cons: "sees (m, p) (b # bs) \<longleftrightarrow> p < length m \<and> m ! p = b \<and> sees (m, Suc p) bs"
proof (cases "p < length m")
  case True
  then show ?thesis by (auto simp: sees_def Cons_nth_drop_Suc [symmetric])
qed (auto simp: sees_def)

lemma sees_Nil [simp]: "sees c []"
  by (simp add: sees_def)

lemma sees_append [simp]: "sees (m, p) (a @ b) \<longleftrightarrow> sees (m, p) a \<and> sees (m, p + length a) b"
  by (induction a arbitrary: p) (auto simp: sees_Cons)

lemma sees_length: "sees (m, p) bs \<Longrightarrow> bs \<noteq> [] \<Longrightarrow> p + length bs \<le> length m"
proof (induction bs arbitrary: p)
  case (Cons b bs)
  then show ?case by (cases "bs = []") (use Cons.IH [of "Suc p"] in \<open>auto simp: sees_Cons\<close>)
qed simp

lemma sees_emitted: "p + length bs \<le> length m \<Longrightarrow> sees (overwrite m p bs, p) bs"
  by (simp add: sees_def overwrite_def)

text \<open>The header byte.\<close>

lemma byte_header_byte [simp]: "byte_header (header_byte h) = h"
proof -
  have "ucast (header_byte h) = h_retain h"
    by (rule bit_eqI) (auto simp: header_byte_def bit_simps simp del: push_bit_Suc drop_bit_Suc
        dest: bit_imp_le_length)
  moreover have "ucast (drop_bit 1 (header_byte h)) = h_qos h"
    by (rule bit_eqI) (auto simp: header_byte_def bit_simps simp del: push_bit_Suc drop_bit_Suc
        dest: bit_imp_le_length)
  moreover have "ucast (drop_bit 3 (header_byte h)) = h_dup h"
    by (rule bit_eqI) (auto simp: header_byte_def bit_simps simp del: push_bit_Suc drop_bit_Suc
        dest: bit_imp_le_length)
  moreover have "ucast (drop_bit 4 (header_byte h)) = h_type h"
    by (rule bit_eqI) (auto simp: header_byte_def bit_simps simp del: push_bit_Suc drop_bit_Suc
        dest: bit_imp_le_length)
  ultimately show ?thesis by (simp add: byte_header_def)
qed

lemma msg_num_inject: "msg_num a = msg_num b \<longleftrightarrow> a = b"
  by (cases a; cases b) simp_all

text \<open>The base-128 digits of a length, least significant first, all but the last with the top bit set.\<close>

fun enc_bytes :: "nat \<Rightarrow> u8 list" where
  "enc_bytes n = (if n < 128 then [of_nat n] else of_nat (n mod 128 + 128) # enc_bytes (n div 128))"

declare enc_bytes.simps [simp del]

lemma enc_bytes_not_Nil [simp]: "enc_bytes n \<noteq> []"
  by (subst enc_bytes.simps) simp

lemma length_enc_bytes_pos: "0 < length (enc_bytes n)"
  by simp

lemma length_enc_bytes_le: "n < 128 ^ k \<Longrightarrow> 0 < k \<Longrightarrow> length (enc_bytes n) \<le> k"
proof (induction k arbitrary: n)
  case (Suc k)
  show ?case
  proof (cases "n < 128")
    case True
    then show ?thesis by (simp add: enc_bytes.simps)
  next
    case False
    then have "n div 128 < 128 ^ k" "0 < k" using Suc.prems by (auto simp: less_mult_imp_div_less mult.commute intro: gr0I)
    with Suc.IH show ?thesis using False by (subst enc_bytes.simps) simp
  qed
qed simp

lemma length_enc_bytes_gt: "128 ^ k \<le> n \<Longrightarrow> k < length (enc_bytes n)"
proof (induction k arbitrary: n)
  case (Suc k)
  then have "\<not> n < 128" "128 ^ k \<le> n div 128"
    by (auto simp: less_eq_div_iff_mult_less_eq mult.commute)
      (use Suc.prems one_le_power [of "128::nat" k] in linarith)
  with Suc.IH show ?case by (subst enc_bytes.simps) simp
qed simp

lemma length_enc_bytes:
  "length (enc_bytes n) =
     (if n < 128 then 1 else if n < 16384 then 2 else if n < 2097152 then 3 else length (enc_bytes n))"
  "2097152 \<le> n \<Longrightarrow> n < 268435456 \<Longrightarrow> length (enc_bytes n) = 4"
  using length_enc_bytes_pos [of n, THEN Suc_leI] length_enc_bytes_le [of n 1] length_enc_bytes_gt [of 1 n] length_enc_bytes_gt [of 2 n]
    length_enc_bytes_le [of n 2] length_enc_bytes_le [of n 3] length_enc_bytes_gt [of 3 n]
    length_enc_bytes_le [of n 4]
  by auto

lemma or_128: "n < 128 \<Longrightarrow> (of_nat n :: u8) OR 128 = of_nat (n + 128)"
proof -
  assume n: "n < 128"
  have "(of_nat n :: u8) AND 128 = 0"
  proof (rule bit_word_eqI)
    fix k assume "k < LENGTH(8)"
    show "bit ((of_nat n :: u8) AND 128) k \<longleftrightarrow> bit (0 :: u8) k"
    proof (cases "k = 7")
      case True
      have "\<not> bit n 7" using n by (simp add: bit_iff_odd)
      with True show ?thesis by (simp add: bit_and_iff bit_of_nat_iff)
    next
      case False
      have "(128 :: u8) = 2 ^ 7" by simp
      with False show ?thesis by (simp only: bit_and_iff bit_exp_iff) simp
    qed
  qed
  then have "(of_nat n :: u8) OR 128 = of_nat n + 128" by (simp add: disjunctive_add_eq_or)
  then show ?thesis by simp
qed

lemma MQTTPacket_encode_loop_eq:
  "MQTTPacket_encode_loop m buf (int rc) (int n) = do {
     m \<leftarrow> mem_write m (buf + rc) (enc_bytes n);
     Some (m, int (rc + length (enc_bytes n))) }"
proof (induction n arbitrary: m rc rule: enc_bytes.induct)
  case (1 n)
  have d: "int n div 128 = int (n div 128)" "int n mod 128 = int (n mod 128)"
    by (simp_all add: zdiv_int zmod_int)
  show ?case
  proof (cases "n < 128")
    case True
    then show ?thesis
      by (subst MQTTPacket_encode_loop.simps, subst enc_bytes.simps)
        (simp add: Let_def mem_set_overwrite enc_bytes.simps add.commute)
  next
    case False
    have IH: "MQTTPacket_encode_loop m' buf (int (Suc rc)) (int (n div 128)) = do {
        m \<leftarrow> mem_write m' (buf + Suc rc) (enc_bytes (n div 128));
        Some (m, int (Suc rc + length (enc_bytes (n div 128)))) }" for m'
      using 1 [OF False] .
    have e: "enc_bytes n = of_nat (n mod 128 + 128) # enc_bytes (n div 128)"
      using False by (subst enc_bytes.simps) simp
    have pos: "0 < n div 128" using False by simp
    have w: "(word_of_int (int (n mod 128)) :: u8) OR 128 = of_nat (n mod 128 + 128)"
      using or_128 [of "n mod 128"] by simp
    show ?thesis
      unfolding e mem_write_Cons
      by (subst MQTTPacket_encode_loop.simps)
        (use pos IH w in \<open>simp add: Let_def d add.commute\<close>)
  qed
qed

lemma MQTTPacket_encode_eq:
  "MQTTPacket_encode (m, p) (int n) = do {
     m \<leftarrow> mem_write m p (enc_bytes n); Some (m, int (length (enc_bytes n))) }"
  using MQTTPacket_encode_loop_eq [of m p 0 n] by (simp add: MQTTPacket_encode_def)

lemma uint_and_127: "uint (c AND 127) = uint c mod 128" for c :: u8
proof -
  have "c AND 127 = take_bit 7 c" by (simp add: take_bit_eq_mask mask_eq_exp_minus_1)
  then show ?thesis by (simp only: unsigned_take_bit_eq) (simp add: take_bit_eq_mod)
qed

lemma and_128_iff: "c AND 128 \<noteq> 0 \<longleftrightarrow> 128 \<le> uint c" for c :: u8
proof -
  have "c AND 128 \<noteq> 0 \<longleftrightarrow> bit c 7"
    using and_exp_eq_0_iff_not_bit [of c 7] by simp
  also have "\<dots> \<longleftrightarrow> odd (uint c div 128)"
    using bit_uint_iff [of c 7] bit_iff_odd [of "uint c" 7] by simp
  also have "\<dots> \<longleftrightarrow> 128 \<le> uint c"
    using uint_lt2p [of c] int_div_less_self [of "uint c" 128]
    by (cases "128 \<le> uint c") (simp_all add: div_pos_geq)
  finally show ?thesis .
qed

text \<open>
  The contract of a byte source, \<open>gives s bs\<close> saying that it has the bytes \<open>bs\<close> ready: asking for one
  delivers the next one, and a block source delivers any number of bytes it has ready.
\<close>

locale char_source =
  fixes getfn :: "'s getfn" and gives :: "'s \<Rightarrow> u8 list \<Rightarrow> bool"
  assumes get_char: "gives s (b # r) \<Longrightarrow> \<exists>s'. getfn s 1 = Some (1, [b], s') \<and> gives s' r"
begin

lemma decode_last:
  assumes "gives s (of_nat n # r)" and "n < 128" and "len < 4"
  shows "\<exists>s'. MQTTPacket_decode_loop getfn s len mult val = Some (len + 1, val + int n * mult, s') \<and>
    gives s' r"
proof -
  from get_char [OF assms(1)] obtain s' where g: "getfn s 1 = Some (1, [of_nat n], s')" "gives s' r"
    by blast
  have u: "uint (of_nat n :: u8) = int n" using assms(2) by (simp add: unsigned_of_nat take_bit_eq_mod)
  then have "(of_nat n :: u8) AND 128 = 0" using and_128_iff [of "of_nat n"] assms(2) by auto
  then show ?thesis using g u assms(2,3)
    by (subst MQTTPacket_decode_loop.simps) (simp add: Let_def uint_and_127)
qed

lemma decode_more:
  assumes "gives s (of_nat (k + 128) # r)" and "k < 128" and "len < 4"
  shows "\<exists>s'. MQTTPacket_decode_loop getfn s len mult val =
      MQTTPacket_decode_loop getfn s' (len + 1) (mult * 128) (val + int k * mult) \<and> gives s' r"
proof -
  let ?b = "of_nat (k + 128) :: u8"
  from get_char [OF assms(1)] obtain s' where g: "getfn s 1 = Some (1, [?b], s')" "gives s' r"
    by blast
  have u: "uint ?b = int k + 128"
    using assms(2) unsigned_of_nat [of "k + 128", where 'b = 8 and 'a = int]
    by (simp add: take_bit_eq_mod del: unsigned_of_nat)
  have a: "?b AND 128 \<noteq> 0" using and_128_iff [of ?b] u by simp
  have v: "uint (?b AND 127) = int k"
    using uint_and_127 [of ?b] u assms(2) by simp
  show ?thesis using g a v assms(3)
    by (intro exI [of _ s'], subst MQTTPacket_decode_loop.simps) (simp add: Let_def)
qed

lemma decode_loop:
  assumes "gives s (enc_bytes n @ r)" and "len + int (length (enc_bytes n)) \<le> 4"
  shows "\<exists>s'. MQTTPacket_decode_loop getfn s len mult val =
      Some (len + int (length (enc_bytes n)), val + int n * mult, s') \<and> gives s' r"
  using assms
proof (induction n arbitrary: s len mult val rule: enc_bytes.induct)
  case (1 n)
  show ?case
  proof (cases "n < 128")
    case True
    then show ?thesis using 1 decode_last [of s n r len mult val] by (auto simp: enc_bytes.simps)
  next
    case False
    have e: "enc_bytes n = of_nat (n mod 128 + 128) # enc_bytes (n div 128)"
      using False by (subst enc_bytes.simps) simp
    have eq: "val + int (n mod 128) * mult + int (n div 128) * (mult * 128) = val + int n * mult"
    proof -
      have "int n = 128 * int (n div 128) + int (n mod 128)" by (simp add: zdiv_int zmod_int)
      then have "int n * mult = (128 * int (n div 128) + int (n mod 128)) * mult" by simp
      then show ?thesis by (simp only: distrib_right)
    qed
    have "\<exists>s'. MQTTPacket_decode_loop getfn s len mult val =
        MQTTPacket_decode_loop getfn s' (len + 1) (mult * 128) (val + int (n mod 128) * mult) \<and>
        gives s' (enc_bytes (n div 128) @ r)"
      by (rule decode_more) (use 1 e length_enc_bytes_pos [of "n div 128"] in auto)
    then show ?thesis
      using 1(1) [OF False, where len = "len + 1" and mult = "mult * 128" and
          val = "val + int (n mod 128) * mult"] 1(3) e eq
      by (auto simp: algebra_simps)
  qed
qed

lemma decode:
  assumes "gives s (enc_bytes n @ r)" and "n < 268435456"
  shows "\<exists>s'. MQTTPacket_decode getfn s = Some (int (length (enc_bytes n)), int n, s') \<and> gives s' r"
  using decode_loop [OF assms(1), of 0 1 0] length_enc_bytes_le [of n 4] assms(2)
  by (simp add: MQTTPacket_decode_def)

end

locale byte_source = char_source +
  assumes get_block: "gives s (bs @ r) \<Longrightarrow>
    \<exists>s'. getfn s (int (length bs)) = Some (int (length bs), bs, s') \<and> gives s' r"

interpretation bufchar: char_source bufchar "\<lambda>c bs. drop (snd c) (fst c) = bs"
proof (unfold_locales, goal_cases)
  case (1 s b r)
  then have "snd s < length (fst s)" "fst s ! snd s = b" "drop (Suc (snd s)) (fst s) = r"
    by (metis drop_eq_Nil leI list.distinct(1)) (metis 1 hd_drop_conv_nth drop_eq_Nil leI list.distinct(1) list.sel(1),
      metis 1 drop_Suc tl_drop list.sel(3))
  then show ?case using 1 by (simp add: bufchar_def mem_read_def)
qed

lemma sees_drop: "sees (m, p) bs \<Longrightarrow> \<exists>r. drop p m = bs @ r"
  by (metis append_take_drop_id fst_conv sees_def snd_conv)

lemma MQTTPacket_decodeBuf_sees:
  assumes "sees (m, p) (enc_bytes n)" and "n < 268435456"
  shows "MQTTPacket_decodeBuf (m, p) = Some (int (length (enc_bytes n)), int n)"
proof -
  from sees_drop [OF assms(1)] obtain r where "drop p m = enc_bytes n @ r" ..
  then show ?thesis using bufchar.decode [of "(m, p)" n r] assms(2)
    by (auto simp: MQTTPacket_decodeBuf_def)
qed

text \<open>Integers and strings.\<close>

definition be16 :: "int \<Rightarrow> u8 list" where
  "be16 n = [word_of_int (n div 256), word_of_int (n mod 256)]"

definition utf :: "u8 list \<Rightarrow> u8 list" where
  "utf bs = be16 (int (length bs)) @ bs"

lemma length_be16 [simp]: "length (be16 n) = 2"
  by (simp add: be16_def)

lemma length_utf [simp]: "length (utf bs) = 2 + length bs"
  by (simp add: utf_def)

text \<open>
  The bytes an \<open>MQTTString\<close> stands for: one of the C string and the length-delimited string is
  set, or neither. With both set, \<open>MQTTstrlen\<close> measures the first and \<open>writeMQTTString\<close> writes the
  second, so no byte sequence is denoted.
\<close>

definition mqs_bytes :: "MQTTString \<Rightarrow> u8 list option" where
  "mqs_bytes ms =
     (case cstring ms of
        Some s \<Rightarrow> if ls_len ms \<le> 0 then c_str s else None
      | None \<Rightarrow>
          if ls_len ms = 0 then Some []
          else if ls_len ms < 0 then None
          else do { d \<leftarrow> ls_data ms; mem_read d 0 (nat (ls_len ms)) })"

lemma writeChar_emit: "writeChar c b = emit c [b]"
  by (simp add: writeChar_def emit_def mem_set_overwrite)

lemma writeInt_emit: "0 \<le> n \<Longrightarrow> writeInt c n = emit c (be16 n)"
  by (simp add: writeInt_def emit_def be16_def mem_write_Cons [of _ _ _ "[_]"] mem_set_overwrite)

lemma write_bytes_emit:
  "n \<le> length src \<Longrightarrow> write_bytes c src n = emit c (take n src)"
  by (simp add: write_bytes_def emit_def mem_copy_def mem_read_def min_def)

lemma writeCString_emit: "c_str s = Some bs \<Longrightarrow> writeCString c s = emit c (utf bs)"
  by (elim c_strD) (simp add: writeCString_def c_strlen_def writeInt_emit write_bytes_emit utf_def emit_append)

lemma emit_utf: "do { c \<leftarrow> emit c (be16 (int (length bs))); emit c bs } = emit c (utf bs)"
  by (simp add: utf_def emit_append)

lemma emit_bind_Nil [simp]: "do { c \<leftarrow> emit c a; emit c [] } = emit c a"
  using emit_append [of c a "[]"] by simp

lemma writeMQTTString_emit: "mqs_bytes ms = Some bs \<Longrightarrow> writeMQTTString c ms = emit c (utf bs)"
  by (auto simp: mqs_bytes_def writeMQTTString_def writeCString_emit writeInt_emit write_bytes_emit
      mem_read_def emit_utf [symmetric] bind_eq_Some_conv split: option.splits if_splits)

lemma MQTTstrlen_bytes: "mqs_bytes ms = Some bs \<Longrightarrow> MQTTstrlen ms = Some (int (length bs))"
  by (auto simp: mqs_bytes_def MQTTstrlen_def c_strlen_def mem_read_def bind_eq_Some_conv
      split: option.splits if_splits)

lemma readChar_sees: "sees (m, p) [b] \<Longrightarrow> readChar (m, p) = Some (b, (m, p + 1))"
  by (simp add: readChar_def mem_get_def sees_Cons)

lemma readInt_sees:
  assumes "sees (m, p) (be16 n)" and "0 \<le> n" and "n < 65536"
  shows "readInt (m, p) = Some (n, (m, p + 2))"
proof -
  have "256 * uint (word_of_int (n div 256) :: u8) + uint (word_of_int (n mod 256) :: u8) = n"
    using assms(2,3) by (simp add: word_of_int_uint_small div_le_dividend)
  then show ?thesis using assms(1) by (simp add: readInt_def mem_get_def sees_Cons be16_def)
qed

text \<open>The string a deserializer hands out: a view into the packet buffer.\<close>

definition mqs_view :: "u8 list \<Rightarrow> nat \<Rightarrow> nat \<Rightarrow> MQTTString" where
  "mqs_view m p n = \<lparr>cstring = None, ls_len = int n, ls_data = Some (drop p m)\<rparr>"

lemma readMQTTLenString_sees:
  assumes "sees (m, p) (utf bs)" and "length bs < 65536" and "p + 2 + length bs \<le> enddata"
  shows "readMQTTLenString ms (m, p) enddata =
     Some (1, mqs_view m (p + 2) (length bs), (m, p + 2 + length bs))"
  using assms readInt_sees [of m p "int (length bs)"]
  by (auto simp: readMQTTLenString_def utf_def mqs_view_def)

lemma mqs_bytes_view: "sees (m, p) bs \<Longrightarrow> mqs_bytes (mqs_view m p (length bs)) = Some bs"
  using sees_length [of m p bs] by (auto simp: mqs_bytes_def mqs_view_def mem_read_def sees_def)

text \<open>A chain of writes is one write of the concatenated bytes, skipped writes included.\<close>

lemma emit_emit: "do { c \<leftarrow> emit c a; c \<leftarrow> emit c b; k c } = do { c \<leftarrow> emit c (a @ b); k c }"
  by (simp add: emit_append)

lemma emit_optional:
  "do { c \<leftarrow> emit c a; c \<leftarrow> (if P then emit c b else Some c); k c }
   = do { c \<leftarrow> emit c (a @ (if P then b else [])); k c }"
  by (cases P) (simp_all add: emit_append)

lemma emit_optional_last:
  "do { c \<leftarrow> emit c a; (if P then emit c b else Some c) } = emit c (a @ (if P then b else []))"
  using emit_optional [of c a P b Some] by simp

lemmas mqtt_emit = writeChar_emit writeInt_emit writeCString_emit writeMQTTString_emit write_bytes_emit

lemma write_rem_len_emit: "0 \<le> n \<Longrightarrow> write_rem_len c n = emit c (enc_bytes (nat n))"
  using MQTTPacket_encode_eq [of "fst c" "snd c" "nat n"] by (simp add: write_rem_len_def emit_def)

text \<open>The packet size computed before writing is never less than the size written.\<close>

lemma MQTTPacket_len_cases:
  assumes "n < 268435456"
  shows "MQTTPacket_len (int n) = Some (int (1 + length (enc_bytes n) + n) +
      (if n = 127 \<or> n = 16383 \<or> n = 2097150 \<or> n = 2097151 then 1 else 0))"
proof -
  consider "n < 128" | "128 \<le> n" "n < 16384" | "16384 \<le> n" "n < 2097152" | "2097152 \<le> n" by linarith
  then show ?thesis
    by cases (use assms length_enc_bytes [of n] in \<open>auto simp: MQTTPacket_len_def Let_def c_int_def\<close>)
qed

subsection \<open>Whole packets\<close>

text \<open>A packet: the header byte, the remaining length and the body.\<close>

definition mqtt_packet :: "MQTTHeader \<Rightarrow> u8 list \<Rightarrow> u8 list" where
  "mqtt_packet h body = header_byte h # enc_bytes (length body) @ body"

lemma length_mqtt_packet [simp]:
  "length (mqtt_packet h body) = 1 + length (enc_bytes (length body)) + length body"
  by (simp add: mqtt_packet_def)

lemma mqtt_packet_not_Nil [simp]: "mqtt_packet h body \<noteq> []"
  by (simp add: mqtt_packet_def)

lemma emit_packet:
  "do { c \<leftarrow> writeChar c (header_byte h); c \<leftarrow> write_rem_len c (int (length body)); emit c body }
   = emit c (mqtt_packet h body)"
  using emit_append [of c "[header_byte h]" "enc_bytes (length body) @ body"]
  by (simp add: mqtt_packet_def write_rem_len_emit writeChar_emit emit_append)

lemma sees_packet:
  assumes "sees (m, 0) (mqtt_packet h body)" and "length body < 268435456"
  shows "readChar (m, 0) = Some (header_byte h, (m, 1))"
    and "MQTTPacket_decodeBuf (m, 1) = Some (int (length (enc_bytes (length body))), int (length body))"
    and "sees (m, 1 + length (enc_bytes (length body))) body"
  using assms readChar_sees [of m 0 "header_byte h"] MQTTPacket_decodeBuf_sees [of m 1 "length body"]
  by (auto simp: mqtt_packet_def sees_Cons)

text \<open>
  What every serializer does once it has computed the remaining length: the packet is written in
  full when the size check lets it through, and the check never lets a packet through that does not
  fit.
\<close>

definition put_packet :: "u8 list \<Rightarrow> int \<Rightarrow> MQTTHeader \<Rightarrow> u8 list \<Rightarrow> (int \<times> u8 list) option" where
  "put_packet buf buflen h body = do {
     total \<leftarrow> MQTTPacket_len (int (length body));
     if total > buflen then Some (MQTTPACKET_BUFFER_TOO_SHORT, buf)
     else do { (m, p) \<leftarrow> emit (buf, 0) (mqtt_packet h body); Some (int p, m) } }"

lemma put_packet_Some:
  assumes "length body < 268435456" and "buflen \<le> int (length buf)"
  obtains "put_packet buf buflen h body = Some (MQTTPACKET_BUFFER_TOO_SHORT, buf)"
      "buflen \<le> int (length (mqtt_packet h body))"
  | "put_packet buf buflen h body =
       Some (int (length (mqtt_packet h body)), overwrite buf 0 (mqtt_packet h body))"
      "int (length (mqtt_packet h body)) \<le> buflen"
  using assms MQTTPacket_len_cases [of "length body"] emit_Some [of 0 "mqtt_packet h body" buf]
  by (fastforce simp: put_packet_def split: if_splits)

lemma sees_put_packet:
  assumes "put_packet buf buflen h body = Some (int n, m)"
  shows "sees (m, 0) (mqtt_packet h body)" and "n = length (mqtt_packet h body)"
    and "length m = length buf"
  using assms
  by (auto simp: put_packet_def emit_def mem_write_def bind_eq_Some_conv sees_emitted split: if_splits)

lemma put_packet_fits:
  assumes "length body < 268435456" and "int (length body) + 5 \<le> buflen" and "buflen \<le> int (length buf)"
  shows "put_packet buf buflen h body =
      Some (int (length (mqtt_packet h body)), overwrite buf 0 (mqtt_packet h body))"
    and "int (length (mqtt_packet h body)) \<le> buflen"
proof -
  have e: "length (enc_bytes (length body)) \<le> 4" using length_enc_bytes_le [of _ 4] assms(1) by simp
  then obtain k where k: "MQTTPacket_len (int (length body)) = Some k" "k \<le> buflen"
    using MQTTPacket_len_cases [OF assms(1)] length_enc_bytes [of "length body"] assms(2)
    by (auto split: if_splits)
  show le: "int (length (mqtt_packet h body)) \<le> buflen" using e assms(2) by simp
  then show "put_packet buf buflen h body =
      Some (int (length (mqtt_packet h body)), overwrite buf 0 (mqtt_packet h body))"
    using k assms(3) emit_Some [of 0 "mqtt_packet h body" buf] by (simp add: put_packet_def)
qed

lemma sees_mem_read: "sees (m, p) bs \<Longrightarrow> p + length bs \<le> length m \<Longrightarrow> mem_read m p (length bs) = Some bs"
  by (simp add: sees_def mem_read_def)

end
