(* ===== verification/MqttPublish.thy ===== *)
theory MqttPublish
  imports MqttPacket
begin

text \<open>
  PUBLISH packets and the four acknowledgements: \<open>MQTTSerializePublish.c\<close> and
  \<open>MQTTDeserializePublish.c\<close>. A serializer returns its result code and the buffer; a
  deserializer gets the old values of its output parameters and returns its result code and
  the new ones.
\<close>

subsection \<open>The code\<close>

definition MQTTSerialize_publishLength :: "int \<Rightarrow> MQTTString \<Rightarrow> int \<Rightarrow> int option" where
  "MQTTSerialize_publishLength qos topicName payloadlen = do {
     n \<leftarrow> MQTTstrlen topicName;
     len \<leftarrow> c_int (2 + n + payloadlen);
     if qos > 0 then c_int (len + 2) else Some len }"

definition MQTTSerialize_publish ::
    "u8 list \<Rightarrow> int \<Rightarrow> u8 \<Rightarrow> int \<Rightarrow> u8 \<Rightarrow> u16 \<Rightarrow> MQTTString \<Rightarrow> u8 list \<Rightarrow> int \<Rightarrow> (int \<times> u8 list) option" where
  "MQTTSerialize_publish buf buflen dup qos retained packetid topicName payload payloadlen = do {
     rem_len \<leftarrow> MQTTSerialize_publishLength qos topicName payloadlen;
     total \<leftarrow> MQTTPacket_len rem_len;
     if total > buflen then Some (MQTTPACKET_BUFFER_TOO_SHORT, buf)
     else do {
       let header = MQTTHeader_zero\<lparr>h_type := msg_num PUBLISH, h_dup := ucast dup,
                                    h_qos := word_of_int qos, h_retain := ucast retained\<rparr>;
       c \<leftarrow> writeChar (buf, 0) (header_byte header);
       c \<leftarrow> write_rem_len c rem_len;
       c \<leftarrow> writeMQTTString c topicName;
       c \<leftarrow> (if qos > 0 then writeInt c (uint packetid) else Some c);
       (m, p) \<leftarrow> write_bytes c payload (csize payloadlen);
       Some (int p, m) } }"

definition MQTTSerialize_ack :: "u8 list \<Rightarrow> int \<Rightarrow> u8 \<Rightarrow> u8 \<Rightarrow> u16 \<Rightarrow> (int \<times> u8 list) option" where
  "MQTTSerialize_ack buf buflen packettype dup packetid =
     (if buflen < 4 then Some (MQTTPACKET_BUFFER_TOO_SHORT, buf)
      else do {
        let header = MQTTHeader_zero\<lparr>h_type := ucast packettype, h_dup := ucast dup,
                        h_qos := (if packettype = ucast (msg_num PUBREL) then 1 else 0)\<rparr>;
        c \<leftarrow> writeChar (buf, 0) (header_byte header);
        c \<leftarrow> write_rem_len c 2;
        (m, p) \<leftarrow> writeInt c (uint packetid);
        Some (int p, m) })"

definition MQTTSerialize_puback :: "u8 list \<Rightarrow> int \<Rightarrow> u16 \<Rightarrow> (int \<times> u8 list) option" where
  "MQTTSerialize_puback buf buflen packetid =
     MQTTSerialize_ack buf buflen (ucast (msg_num PUBACK)) 0 packetid"

definition MQTTSerialize_pubrel :: "u8 list \<Rightarrow> int \<Rightarrow> u8 \<Rightarrow> u16 \<Rightarrow> (int \<times> u8 list) option" where
  "MQTTSerialize_pubrel buf buflen dup packetid =
     MQTTSerialize_ack buf buflen (ucast (msg_num PUBREL)) dup packetid"

definition MQTTSerialize_pubcomp :: "u8 list \<Rightarrow> int \<Rightarrow> u16 \<Rightarrow> (int \<times> u8 list) option" where
  "MQTTSerialize_pubcomp buf buflen packetid =
     MQTTSerialize_ack buf buflen (ucast (msg_num PUBCOMP)) 0 packetid"

text \<open>
  The output parameters of \<open>MQTTDeserialize_publish\<close>; \<open>payload\<close> points into the buffer and is
  an offset here.
\<close>

record publish_out =
  p_dup :: u8
  p_qos :: int
  p_retained :: u8
  p_packetid :: u16
  p_topicName :: MQTTString
  p_payload :: nat
  p_payloadlen :: int

definition MQTTDeserialize_publish :: "publish_out \<Rightarrow> u8 list \<Rightarrow> int \<Rightarrow> (int \<times> publish_out) option" where
  "MQTTDeserialize_publish out buf buflen = do {
     (b, c) \<leftarrow> readChar (buf, 0);
     let header = byte_header b;
     if h_type header \<noteq> msg_num PUBLISH then Some (0, out)
     else do {
       let out = out\<lparr>p_dup := ucast (h_dup header), p_qos := uint (h_qos header),
                     p_retained := ucast (h_retain header)\<rparr>;
       (rc, mylen) \<leftarrow> MQTTPacket_decodeBuf c;
       let c = (fst c, snd c + nat rc);
       let enddata = snd c + nat mylen;
       (ok, topic, c) \<leftarrow> readMQTTLenString (p_topicName out) c enddata;
       let out = out\<lparr>p_topicName := topic\<rparr>;
       if ok = 0 \<or> int enddata - int (snd c) < 0 then Some (rc, out)
       else do {
         (out, c) \<leftarrow> (if p_qos out > 0 then do {
              (i, c) \<leftarrow> readInt c;
              Some (out\<lparr>p_packetid := word_of_int i\<rparr>, c) }
            else Some (out, c));
         Some (1, out\<lparr>p_payloadlen := int enddata - int (snd c), p_payload := snd c\<rparr>) } } }"

record ack_out =
  a_packettype :: u8
  a_dup :: u8
  a_packetid :: u16

definition MQTTDeserialize_ack :: "ack_out \<Rightarrow> u8 list \<Rightarrow> int \<Rightarrow> (int \<times> ack_out) option" where
  "MQTTDeserialize_ack out buf buflen = do {
     (b, c) \<leftarrow> readChar (buf, 0);
     let header = byte_header b;
     let out = out\<lparr>a_dup := ucast (h_dup header), a_packettype := ucast (h_type header)\<rparr>;
     (rc, mylen) \<leftarrow> MQTTPacket_decodeBuf c;
     let c = (fst c, snd c + nat rc);
     let enddata = snd c + nat mylen;
     if int enddata - int (snd c) < 2 then Some (rc, out)
     else do {
       (i, c) \<leftarrow> readInt c;
       Some (1, out\<lparr>a_packetid := word_of_int i\<rparr>) } }"

subsection \<open>The packets\<close>

text \<open>The bytes of a PUBLISH packet, from the abstract contents.\<close>

definition pub_header :: "u8 \<Rightarrow> int \<Rightarrow> u8 \<Rightarrow> MQTTHeader" where
  "pub_header dup qos retained = \<lparr>h_retain = ucast retained, h_qos = word_of_int qos,
     h_dup = ucast dup, h_type = msg_num PUBLISH\<rparr>"

definition pub_body :: "int \<Rightarrow> u16 \<Rightarrow> u8 list \<Rightarrow> u8 list \<Rightarrow> u8 list" where
  "pub_body qos packetid topic payload =
     utf topic @ (if qos > 0 then be16 (uint packetid) else []) @ payload"

lemma length_pub_body:
  "length (pub_body qos packetid t payload) = 2 + length t + length payload + (if qos > 0 then 2 else 0)"
  by (simp add: pub_body_def)

lemma csize_nonneg: "0 \<le> x \<Longrightarrow> x < 2 ^ 32 \<Longrightarrow> csize x = nat x"
  by (simp add: csize_def)

lemma MQTTSerialize_publish_put:
  assumes t: "mqs_bytes topic = Some t" and n: "n \<le> length payload"
    and small: "length (pub_body qos packetid t (take n payload)) < 268435456"
  shows "MQTTSerialize_publish buf buflen dup qos retained packetid topic payload (int n) =
     put_packet buf buflen (pub_header dup qos retained) (pub_body qos packetid t (take n payload))"
proof -
  let ?b = "pub_body qos packetid t (take n payload)"
  have b: "length ?b = 2 + length t + n + (if qos > 0 then 2 else 0)"
    using n by (simp add: length_pub_body)
  have l: "MQTTSerialize_publishLength qos topic (int n) = Some (int (length ?b))"
    using small MQTTstrlen_bytes [OF t] by (simp add: b MQTTSerialize_publishLength_def c_int_def)
  have h: "MQTTHeader_zero\<lparr>h_type := msg_num PUBLISH, h_dup := ucast dup, h_qos := word_of_int qos,
      h_retain := ucast retained\<rparr> = pub_header dup qos retained"
    by (simp add: MQTTHeader_zero_def pub_header_def)
  have c: "csize (int n) = n" using small b by (simp add: csize_nonneg split: if_splits)
  have w: "do { c \<leftarrow> writeMQTTString c topic;
           c \<leftarrow> (if qos > 0 then writeInt c (uint packetid) else Some c);
           write_bytes c payload (csize (int n)) } = emit c ?b" for c
    using n by (cases "qos > 0") (simp_all add: mqtt_emit t c pub_body_def emit_append)
  show ?thesis
    unfolding MQTTSerialize_publish_def put_packet_def Let_def l h emit_packet [symmetric] w [symmetric]
    by (simp cong: if_cong)
qed

lemma ucast_1_8: "b < 2 \<Longrightarrow> ucast (ucast b :: 1 word) = b" for b :: u8
proof -
  assume "b < 2"
  then have "unat b = 0 \<or> unat b = 1" by (auto simp: word_less_nat_alt)
  then have "b = 0 \<or> b = 1" by (metis unat_0 unat_1 unsigned_word_eqI)
  then show ?thesis by auto
qed

lemma MQTTDeserialize_publish_sees:
  assumes "sees (m, 0) (mqtt_packet (pub_header dup qos retained) (pub_body qos packetid t payload))"
    and small: "length (pub_body qos packetid t payload) < 268435456" "length t < 65536"
    and q: "0 \<le> qos" "qos < 4"
    and p: "p = 1 + length (enc_bytes (length (pub_body qos packetid t payload)))"
  shows "MQTTDeserialize_publish out m len = Some (1, out\<lparr>
      p_dup := ucast (ucast dup :: 1 word), p_qos := qos, p_retained := ucast (ucast retained :: 1 word),
      p_topicName := mqs_view m (p + 2) (length t),
      p_packetid := (if qos > 0 then packetid else p_packetid out),
      p_payload := p + 2 + length t + (if qos > 0 then 2 else 0),
      p_payloadlen := int (length payload)\<rparr>)"
proof -
  obtain L where L: "L = length (pub_body qos packetid t payload)" by simp
  note s = sees_packet [OF assms(1) small(1), folded L]
  have at: "sees (m, p) (utf t)" "qos > 0 \<Longrightarrow> sees (m, p + 2 + length t) (be16 (uint packetid))"
    using s(3) by (simp_all add: p pub_body_def L)
  have qw: "uint (word_of_int qos :: 2 word) = qos" using q by (simp add: word_of_int_uint_small)
  have pid: "qos > 0 \<Longrightarrow> readInt (m, p + 2 + length t) = Some (uint packetid, (m, p + 2 + length t + 2))"
    using readInt_sees [OF at(2)] uint_lt2p [of packetid] by simp
  have L2: "L = 2 + length t + length payload + (if qos > 0 then 2 else 0)"
    by (simp add: L length_pub_body)
  have str: "readMQTTLenString ms (m, p) (p + L) = Some (1, mqs_view m (p + 2) (length t), (m, p + 2 + length t))" for ms
    using readMQTTLenString_sees [OF at(1) small(2), of "p + L" ms] L2 by simp
  have dec: "MQTTPacket_decodeBuf (m, 1) = Some (int (p - 1), int L)" and p1: "1 + (p - 1) = p"
    using s(2) p L by simp_all
  show ?thesis
    unfolding MQTTDeserialize_publish_def s(1)
    using pid
    by (cases "0 < qos"; simp add: dec pub_header_def qw p1 str Let_def del: One_nat_def add_2_eq_Suc';
        simp add: L2)
qed

text \<open>
  C15. A PUBLISH packet that is serialized and deserialized again carries the same flags, packet
  identifier (for a quality of service above 0), topic and payload, for every topic of less than
  65536 bytes, every payload and every buffer large enough.
\<close>

theorem MQTT_publish_roundtrip:
  assumes "mqs_bytes topic = Some t" and "length t < 65536" and "n \<le> length payload"
    and "0 \<le> qos" and "qos < 4" and "dup < 2" and "retained < 2"
    and "length t + n + 4 < 268435456" and "int (length t + n + 9) \<le> buflen" and "buflen \<le> int (length buf)"
  shows "\<exists>len m out'.
    MQTTSerialize_publish buf buflen dup qos retained packetid topic payload (int n) = Some (len, m) \<and>
    0 < len \<and> len \<le> buflen \<and>
    MQTTDeserialize_publish out m len = Some (1, out') \<and>
    p_dup out' = dup \<and> p_qos out' = qos \<and> p_retained out' = retained \<and>
    p_packetid out' = (if qos > 0 then packetid else p_packetid out) \<and>
    mqs_bytes (p_topicName out') = Some t \<and>
    p_payloadlen out' = int n \<and> mem_read m (p_payload out') n = Some (take n payload)"
proof -
  let ?b = "pub_body qos packetid t (take n payload)" and ?h = "pub_header dup qos retained"
  let ?m = "overwrite buf 0 (mqtt_packet ?h ?b)"
  have b: "length ?b < 268435456" "int (length ?b) + 5 \<le> buflen"
    using assms(3,8,9) by (auto simp: length_pub_body)
  note m = put_packet_fits [OF b assms(10), of ?h]
  note s = sees_put_packet [OF m(1)]
  obtain p where p: "p = 1 + length (enc_bytes (length ?b))" by simp
  have "sees (?m, p) ?b" using sees_packet(3) [OF s(1) b(1)] p by simp
  then have at: "sees (?m, p + 2) t" "sees (?m, p + 2 + length t + (if qos > 0 then 2 else 0)) (take n payload)"
    by (auto simp: pub_body_def utf_def)
  have "p + length ?b \<le> length ?m" using m(2) assms(10) s(3) p by simp
  then have "mem_read ?m (p + 2 + length t + (if qos > 0 then 2 else 0)) n = Some (take n payload)"
    using sees_mem_read [OF at(2)] assms(3) by (simp add: length_pub_body split: if_splits)
  then show ?thesis
    using MQTTSerialize_publish_put [OF assms(1,3) b(1), where dup = dup and retained = retained and buf = buf and buflen = buflen]
      MQTTDeserialize_publish_sees [OF s(1) b(1) assms(2,4,5) p, of out] m
      ucast_1_8 [OF assms(6)] ucast_1_8 [OF assms(7)] mqs_bytes_view [OF at(1)] assms(3)
    by (intro exI conjI) auto
qed

definition topic_ab :: MQTTString where
  "topic_ab = \<lparr>cstring = Some [0x61, 0x2F, 0x62, 0], ls_len = 0, ls_data = None\<rparr>"

definition publish_out0 :: publish_out where
  "publish_out0 = \<lparr>p_dup = 0, p_qos = 0, p_retained = 0, p_packetid = 0,
     p_topicName = MQTTString_initializer, p_payload = 0, p_payloadlen = 0\<rparr>"

lemma topic_ab_bytes: "mqs_bytes topic_ab = Some [0x61, 0x2F, 0x62]"
  by (simp add: topic_ab_def mqs_bytes_def c_str_def)

theorem MQTT_publish_roundtrip_witness:
  "\<exists>len m out'.
    MQTTSerialize_publish (replicate 20 0) 20 0 1 1 7 topic_ab [0x68, 0x69] (int 2) = Some (len, m) \<and>
    0 < len \<and> len \<le> 20 \<and>
    MQTTDeserialize_publish publish_out0 m len = Some (1, out') \<and>
    p_dup out' = 0 \<and> p_qos out' = 1 \<and> p_retained out' = 1 \<and>
    p_packetid out' = (if (1 :: int) > 0 then 7 else p_packetid publish_out0) \<and>
    mqs_bytes (p_topicName out') = Some [0x61, 0x2F, 0x62] \<and>
    p_payloadlen out' = int 2 \<and> mem_read m (p_payload out') 2 = Some (take 2 [0x68, 0x69])"
  by (rule MQTT_publish_roundtrip) (simp_all add: topic_ab_bytes)

text \<open>
  \<open>MQTTSerialize_publish\<close> never writes outside the buffer it is given: for a buffer of at
  least \<open>buflen\<close> bytes it either returns \<open>MQTTPACKET_BUFFER_TOO_SHORT\<close> and leaves the buffer
  alone, or it returns a length between 1 and \<open>buflen\<close>, has written that many bytes and nothing
  behind them.
\<close>

lemma MQTTSerialize_publish_safe:
  assumes "mqs_bytes topic = Some t" and "n \<le> length payload"
    and "length t + n + 4 < 268435456" and "buflen \<le> int (length buf)"
  shows "\<exists>rc m.
    MQTTSerialize_publish buf buflen dup qos retained packetid topic payload (int n) = Some (rc, m) \<and>
    length m = length buf \<and>
    (rc = MQTTPACKET_BUFFER_TOO_SHORT \<and> m = buf \<or>
     0 < rc \<and> rc \<le> buflen \<and> drop (nat rc) m = drop (nat rc) buf)"
proof -
  let ?b = "pub_body qos packetid t (take n payload)"
  have b: "length ?b < 268435456" using assms(2,3) by (simp add: length_pub_body)
  show ?thesis
    unfolding MQTTSerialize_publish_put [OF assms(1,2) b]
    by (rule put_packet_Some [OF b assms(4), of "pub_header dup qos retained"])
      (use assms(4) in \<open>auto simp: overwrite_def simp del: length_mqtt_packet\<close>)
qed



text \<open>
  A PUBLISH packet too short to hold a topic length is not rejected: with a one-byte remaining
  length below 2 the function returns the value 1 of success, and neither the payload nor its
  length is set.
\<close>

lemma MQTTDeserialize_publish_truncated:
  assumes "h_type (byte_header b) = msg_num PUBLISH" and "n < 2"
  shows "\<exists>out'. MQTTDeserialize_publish out (b # of_nat n # rest) buflen = Some (1, out') \<and>
    p_payload out' = p_payload out \<and> p_payloadlen out' = p_payloadlen out \<and>
    ls_data (p_topicName out') = ls_data (p_topicName out)"
proof -
  have "sees (b # of_nat n # rest, 1) (enc_bytes n)" and e: "length (enc_bytes n) = 1"
    using assms(2) by (simp_all add: enc_bytes.simps sees_Cons)
  then have "MQTTPacket_decodeBuf (b # of_nat n # rest, 1) = Some (1, int n)"
    using MQTTPacket_decodeBuf_sees [of "b # of_nat n # rest" 1 n] assms(2) by simp
  then show ?thesis
    using assms
    by (simp add: MQTTDeserialize_publish_def readChar_def mem_get_def readMQTTLenString_def Let_def)
qed

text \<open>The acknowledgements.\<close>

definition ack_header :: "u8 \<Rightarrow> u8 \<Rightarrow> MQTTHeader" where
  "ack_header packettype dup = \<lparr>h_retain = 0, h_qos = (if packettype = ucast (msg_num PUBREL) then 1 else 0),
     h_dup = ucast dup, h_type = ucast packettype\<rparr>"

lemma MQTTSerialize_ack_emit:
  assumes "4 \<le> buflen" and "buflen \<le> int (length buf)"
  shows "MQTTSerialize_ack buf buflen packettype dup packetid =
    Some (4, overwrite buf 0 (mqtt_packet (ack_header packettype dup) (be16 (uint packetid))))"
proof -
  have "do { c \<leftarrow> writeChar (buf, 0) (header_byte (ack_header packettype dup)); c \<leftarrow> write_rem_len c 2;
        writeInt c (uint packetid) } = emit (buf, 0) (mqtt_packet (ack_header packettype dup) (be16 (uint packetid)))"
    using emit_packet [of "(buf, 0)" "ack_header packettype dup" "be16 (uint packetid)"] by (simp add: writeInt_emit)
  moreover have "length (mqtt_packet (ack_header packettype dup) (be16 (uint packetid))) = 4"
    by (simp add: enc_bytes.simps)
  ultimately show ?thesis
    using assms emit_Some [of 0 "mqtt_packet (ack_header packettype dup) (be16 (uint packetid))" buf]
    by (simp add: MQTTSerialize_ack_def ack_header_def MQTTHeader_zero_def Let_def del: length_mqtt_packet
        flip: bind_assoc)
qed

lemma MQTTDeserialize_ack_sees:
  assumes "sees (m, 0) (mqtt_packet h (be16 (uint packetid)))"
  shows "MQTTDeserialize_ack out m len = Some (1, out\<lparr>a_dup := ucast (h_dup h),
      a_packettype := ucast (h_type h), a_packetid := packetid\<rparr>)"
proof -
  have e: "length (enc_bytes 2) = 1" by (simp add: enc_bytes.simps)
  note s = sees_packet [OF assms, simplified e length_be16, simplified]
  have "sees (m, 2) (be16 (uint packetid))" using s(3) by (simp add: numeral_2_eq_2)
  then have "readInt (m, 2) = Some (uint packetid, (m, 2 + 2))"
    using readInt_sees [of m 2 "uint packetid"] uint_lt2p [of packetid] by simp
  then show ?thesis by (simp add: MQTTDeserialize_ack_def s(1,2) Let_def numeral_2_eq_2)
qed

text \<open>
  Each acknowledgement (PUBACK, PUBREL with its duplicate flag, PUBCOMP) fits in four bytes and
  comes back from \<open>MQTTDeserialize_ack\<close> with its type, flag and packet identifier; a buffer of
  fewer than four bytes is refused unchanged.
\<close>

lemma MQTT_ack_roundtrip:
  assumes "packettype < 16" and "dup < 2" and "buflen \<le> int (length buf)"
  shows "MQTTSerialize_ack buf buflen packettype dup packetid =
      (if buflen < 4 then Some (MQTTPACKET_BUFFER_TOO_SHORT, buf)
       else Some (4, overwrite buf 0 (mqtt_packet (ack_header packettype dup) (be16 (uint packetid))))) \<and>
    (4 \<le> buflen \<longrightarrow>
      MQTTDeserialize_ack out (overwrite buf 0 (mqtt_packet (ack_header packettype dup) (be16 (uint packetid)))) 4 =
        Some (1, \<lparr>a_packettype = packettype, a_dup = dup, a_packetid = packetid\<rparr>))"
proof -
  have l: "length (mqtt_packet (ack_header packettype dup) (be16 (uint packetid))) = 4"
    by (simp add: enc_bytes.simps)
  have t: "ucast (ucast packettype :: 4 word) = packettype"
    using assms(1) by (intro unsigned_word_eqI [where 'a = nat]) (simp add: word_less_nat_alt)
  show ?thesis
    using MQTTSerialize_ack_emit [OF _ assms(3), of packettype dup packetid] l t assms(3)
      MQTTDeserialize_ack_sees [OF sees_emitted, where h = "ack_header packettype dup" and
        packetid = packetid and out = out and len = 4]
      ucast_1_8 [OF assms(2)]
    by (auto simp: MQTTSerialize_ack_def ack_header_def)
qed

end
