(* ===== verification/MqttConnect.thy ===== *)
theory MqttConnect
  imports MqttPacket
begin

text \<open>
  CONNECT, CONNACK and the packets without a body (PINGREQ, DISCONNECT): \<open>MQTTConnect.h\<close>,
  \<open>MQTTConnectClient.c\<close> and \<open>MQTTConnectServer.c\<close>.
\<close>

subsection \<open>The code\<close>

record MQTTConnectFlags =
  f_unused :: "1 word"
  f_cleansession :: "1 word"
  f_will :: "1 word"
  f_willQoS :: "2 word"
  f_willRetain :: "1 word"
  f_password :: "1 word"
  f_username :: "1 word"

definition flags_byte :: "MQTTConnectFlags \<Rightarrow> u8" where
  "flags_byte f = ucast (f_unused f) OR push_bit 1 (ucast (f_cleansession f)) OR
     push_bit 2 (ucast (f_will f)) OR push_bit 3 (ucast (f_willQoS f)) OR
     push_bit 5 (ucast (f_willRetain f)) OR push_bit 6 (ucast (f_password f)) OR
     push_bit 7 (ucast (f_username f))"

definition byte_flags :: "u8 \<Rightarrow> MQTTConnectFlags" where
  "byte_flags b = \<lparr>f_unused = ucast b, f_cleansession = ucast (drop_bit 1 b),
     f_will = ucast (drop_bit 2 b), f_willQoS = ucast (drop_bit 3 b),
     f_willRetain = ucast (drop_bit 5 b), f_password = ucast (drop_bit 6 b),
     f_username = ucast (drop_bit 7 b)\<rparr>"

record MQTTPacket_willOptions =
  w_topicName :: MQTTString
  w_message :: MQTTString
  w_retained :: u8
  w_qos :: u8

text \<open>The eyecatcher and the structure version, which no function reads, are left out.\<close>

record MQTTPacket_connectData =
  MQTTVersion :: u8
  clientID :: MQTTString
  keepAliveInterval :: u16
  cleansession :: u8
  willFlag :: u8
  will :: MQTTPacket_willOptions
  username :: MQTTString
  password :: MQTTString

definition MQTTPacket_connectData_initializer :: MQTTPacket_connectData where
  "MQTTPacket_connectData_initializer = \<lparr>MQTTVersion = 4, clientID = MQTTString_initializer,
     keepAliveInterval = 60, cleansession = 1, willFlag = 0,
     will = \<lparr>w_topicName = MQTTString_initializer, w_message = MQTTString_initializer,
             w_retained = 0, w_qos = 0\<rparr>,
     username = MQTTString_initializer, password = MQTTString_initializer\<rparr>"

text \<open>The test \<open>s.cstring || s.lenstring.data\<close>.\<close>

definition mqs_set :: "MQTTString \<Rightarrow> bool" where
  "mqs_set ms \<longleftrightarrow> cstring ms \<noteq> None \<or> ls_data ms \<noteq> None"

definition MQTTSerialize_connectLength :: "MQTTPacket_connectData \<Rightarrow> int option" where
  "MQTTSerialize_connectLength options = do {
     let len = (if MQTTVersion options = 3 then 12 else if MQTTVersion options = 4 then 10 else 0);
     n \<leftarrow> MQTTstrlen (clientID options);
     let len = len + (n + 2);
     len \<leftarrow> (if willFlag options \<noteq> 0 then do {
          t \<leftarrow> MQTTstrlen (w_topicName (will options));
          m \<leftarrow> MQTTstrlen (w_message (will options));
          Some (len + (t + 2 + m + 2)) }
        else Some len);
     len \<leftarrow> (if mqs_set (username options) then do {
          n \<leftarrow> MQTTstrlen (username options); Some (len + (n + 2)) }
        else Some len);
     len \<leftarrow> (if mqs_set (password options) then do {
          n \<leftarrow> MQTTstrlen (password options); Some (len + (n + 2)) }
        else Some len);
     c_int len }"

definition connect_flags :: "MQTTPacket_connectData \<Rightarrow> MQTTConnectFlags" where
  "connect_flags options =
     (let w = (if willFlag options \<noteq> 0 then 1 else 0) in
      \<lparr>f_unused = 0, f_cleansession = ucast (cleansession options), f_will = w,
       f_willQoS = (if w \<noteq> 0 then ucast (w_qos (will options)) else 0),
       f_willRetain = (if w \<noteq> 0 then ucast (w_retained (will options)) else 0),
       f_password = (if mqs_set (password options) then 1 else 0),
       f_username = (if mqs_set (username options) then 1 else 0)\<rparr>)"

definition MQTTSerialize_connect :: "u8 list \<Rightarrow> int \<Rightarrow> MQTTPacket_connectData \<Rightarrow> (int \<times> u8 list) option" where
  "MQTTSerialize_connect buf buflen options = do {
     len \<leftarrow> MQTTSerialize_connectLength options;
     total \<leftarrow> MQTTPacket_len len;
     if total > buflen then Some (MQTTPACKET_BUFFER_TOO_SHORT, buf)
     else do {
       let header = MQTTHeader_zero\<lparr>h_type := msg_num CONNECT\<rparr>;
       c \<leftarrow> writeChar (buf, 0) (header_byte header);
       c \<leftarrow> write_rem_len c len;
       c \<leftarrow> (if MQTTVersion options = 4
            then do { c \<leftarrow> writeCString c (lit ''MQTT''); writeChar c 4 }
            else do { c \<leftarrow> writeCString c (lit ''MQIsdp''); writeChar c 3 });
       let flags = connect_flags options;
       c \<leftarrow> writeChar c (flags_byte flags);
       c \<leftarrow> writeInt c (uint (keepAliveInterval options));
       c \<leftarrow> writeMQTTString c (clientID options);
       c \<leftarrow> (if willFlag options \<noteq> 0 then do {
            c \<leftarrow> writeMQTTString c (w_topicName (will options));
            writeMQTTString c (w_message (will options)) }
          else Some c);
       c \<leftarrow> (if f_username flags \<noteq> 0 then writeMQTTString c (username options) else Some c);
       (m, p) \<leftarrow> (if f_password flags \<noteq> 0 then writeMQTTString c (password options) else Some c);
       Some (int p, m) } }"

text \<open>The session-present flag is bit 7 of the CONNACK flags in the layout without \<open>REVERSED\<close>.\<close>

definition connack_flags_byte :: "1 word \<Rightarrow> u8" where
  "connack_flags_byte sessionpresent = push_bit 7 (ucast sessionpresent)"

definition connack_sessionpresent :: "u8 \<Rightarrow> 1 word" where
  "connack_sessionpresent b = ucast (drop_bit 7 b)"

text \<open>The output parameters \<open>sessionPresent\<close> and \<open>connack_rc\<close> are passed and returned as a pair.\<close>

definition MQTTDeserialize_connack :: "u8 \<times> u8 \<Rightarrow> u8 list \<Rightarrow> int \<Rightarrow> (int \<times> u8 \<times> u8) option" where
  "MQTTDeserialize_connack out buf buflen = do {
     (b, c) \<leftarrow> readChar (buf, 0);
     let header = byte_header b;
     if h_type header \<noteq> msg_num CONNACK then Some (0, out)
     else do {
       (rc, mylen) \<leftarrow> MQTTPacket_decodeBuf c;
       let c = (fst c, snd c + nat rc);
       let enddata = snd c + nat mylen;
       if int enddata - int (snd c) < 2 then Some (rc, out)
       else do {
         (flags, c) \<leftarrow> readChar c;
         (connack_rc, c) \<leftarrow> readChar c;
         Some (1, ucast (connack_sessionpresent flags), connack_rc) } } }"

definition MQTTSerialize_zero :: "u8 list \<Rightarrow> int \<Rightarrow> u8 \<Rightarrow> (int \<times> u8 list) option" where
  "MQTTSerialize_zero buf buflen packettype =
     (if buflen < 2 then Some (MQTTPACKET_BUFFER_TOO_SHORT, buf)
      else do {
        let header = MQTTHeader_zero\<lparr>h_type := ucast packettype\<rparr>;
        c \<leftarrow> writeChar (buf, 0) (header_byte header);
        (m, p) \<leftarrow> write_rem_len c 0;
        Some (int p, m) })"

definition MQTTSerialize_disconnect :: "u8 list \<Rightarrow> int \<Rightarrow> (int \<times> u8 list) option" where
  "MQTTSerialize_disconnect buf buflen = MQTTSerialize_zero buf buflen (ucast (msg_num DISCONNECT))"

definition MQTTSerialize_pingreq :: "u8 list \<Rightarrow> int \<Rightarrow> (int \<times> u8 list) option" where
  "MQTTSerialize_pingreq buf buflen = MQTTSerialize_zero buf buflen (ucast (msg_num PINGREQ))"

definition MQTTSerialize_connack_string :: "u8 \<Rightarrow> string" where
  "MQTTSerialize_connack_string connack_rc =
     (if connack_rc = 0 then ''MQTT_CONNECTION_ACCEPTED''
      else if connack_rc = 1 then ''MQTT_UNNACCEPTABLE_PROTOCOL''
      else if connack_rc = 2 then ''MQTT_CLIENTID_REJECTED''
      else if connack_rc = 3 then ''MQTT_SERVER_UNAVAILABLE''
      else if connack_rc = 4 then ''MQTT_BAD_USERNAME_OR_PASSWORD''
      else if connack_rc = 5 then ''MQTT_NOT_AUTHORIZED''
      else ''UNKNOWN_ERROR'')"

definition MQTTPacket_checkVersion :: "MQTTString \<Rightarrow> int \<Rightarrow> bool option" where
  "MQTTPacket_checkVersion protocol version =
     (if version = 3 then do {
        d \<leftarrow> ls_data protocol;
        r \<leftarrow> c_memcmp d (lit ''MQIsdp'') (nat (min 6 (ls_len protocol)));
        Some (r = 0) }
      else if version = 4 then do {
        d \<leftarrow> ls_data protocol;
        r \<leftarrow> c_memcmp d (lit ''MQTT'') (nat (min 4 (ls_len protocol)));
        Some (r = 0) }
      else Some False)"

text \<open>The user name and the password, the last part of \<open>MQTTDeserialize_connect\<close>.\<close>

definition deserialize_credentials ::
    "MQTTPacket_connectData \<Rightarrow> MQTTConnectFlags \<Rightarrow> cursor \<Rightarrow> nat \<Rightarrow> (int \<times> MQTTPacket_connectData) option" where
  "deserialize_credentials d flags c enddata =
     (if f_username flags \<noteq> 0 then
        if int enddata - int (snd c) < 3 then Some (0, d)
        else do {
          (ok, s, c) \<leftarrow> readMQTTLenString (username d) c enddata;
          let d = d\<lparr>username := s\<rparr>;
          if ok = 0 then Some (0, d)
          else if f_password flags \<noteq> 0 then
            if int enddata - int (snd c) < 3 then Some (0, d)
            else do {
              (ok, s, c) \<leftarrow> readMQTTLenString (password d) c enddata;
              let d = d\<lparr>password := s\<rparr>;
              if ok = 0 then Some (0, d) else Some (1, d) }
          else Some (1, d) }
      else if f_password flags \<noteq> 0 then Some (0, d)
      else Some (1, d))"

definition MQTTDeserialize_connect ::
    "MQTTPacket_connectData \<Rightarrow> u8 list \<Rightarrow> int \<Rightarrow> (int \<times> MQTTPacket_connectData) option" where
  "MQTTDeserialize_connect d buf len = do {
     let enddata = nat len;
     (b, c) \<leftarrow> readChar (buf, 0);
     if h_type (byte_header b) \<noteq> msg_num CONNECT then Some (0, d)
     else do {
       (n, mylen) \<leftarrow> MQTTPacket_decodeBuf c;
       let c = (fst c, snd c + nat n);
       (ok, protocol, c) \<leftarrow> readMQTTLenString MQTTString_initializer c enddata;
       if ok = 0 \<or> int enddata - int (snd c) < 0 then Some (0, d)
       else do {
         (version, c) \<leftarrow> readChar c;
         v \<leftarrow> MQTTPacket_checkVersion protocol (uint version);
         if \<not> v then Some (0, d)
         else do {
           (b, c) \<leftarrow> readChar c;
           let flags = byte_flags b;
           let d = d\<lparr>cleansession := ucast (f_cleansession flags)\<rparr>;
           (k, c) \<leftarrow> readInt c;
           let d = d\<lparr>keepAliveInterval := word_of_int k\<rparr>;
           (ok, s, c) \<leftarrow> readMQTTLenString (clientID d) c enddata;
           let d = d\<lparr>clientID := s\<rparr>;
           if ok = 0 then Some (0, d)
           else do {
             let d = d\<lparr>willFlag := ucast (f_will flags)\<rparr>;
             if f_will flags \<noteq> 0 then do {
               let d = d\<lparr>will := (will d)\<lparr>w_qos := ucast (f_willQoS flags),
                                           w_retained := ucast (f_willRetain flags)\<rparr>\<rparr>;
               (ok, s, c) \<leftarrow> readMQTTLenString (w_topicName (will d)) c enddata;
               let d = d\<lparr>will := (will d)\<lparr>w_topicName := s\<rparr>\<rparr>;
               if ok = 0 then Some (0, d)
               else do {
                 (ok, s, c) \<leftarrow> readMQTTLenString (w_message (will d)) c enddata;
                 let d = d\<lparr>will := (will d)\<lparr>w_message := s\<rparr>\<rparr>;
                 if ok = 0 then Some (0, d)
                 else deserialize_credentials d flags c enddata } }
             else deserialize_credentials d flags c enddata } } } } }"

definition MQTTSerialize_connack :: "u8 list \<Rightarrow> int \<Rightarrow> u8 \<Rightarrow> u8 \<Rightarrow> (int \<times> u8 list) option" where
  "MQTTSerialize_connack buf buflen connack_rc sessionPresent =
     (if buflen < 2 then Some (MQTTPACKET_BUFFER_TOO_SHORT, buf)
      else do {
        let header = MQTTHeader_zero\<lparr>h_type := msg_num CONNACK\<rparr>;
        c \<leftarrow> writeChar (buf, 0) (header_byte header);
        c \<leftarrow> write_rem_len c 2;
        c \<leftarrow> writeChar c (connack_flags_byte (ucast sessionPresent));
        (m, p) \<leftarrow> writeChar c connack_rc;
        Some (int p, m) })"

subsection \<open>The packets\<close>

lemma byte_flags_byte [simp]: "byte_flags (flags_byte f) = f"
proof -
  note bits = flags_byte_def bit_simps
  have "ucast (flags_byte f) = f_unused f"
    by (rule bit_eqI) (auto simp: bits simp del: push_bit_Suc drop_bit_Suc dest: bit_imp_le_length)
  moreover have "ucast (drop_bit 1 (flags_byte f)) = f_cleansession f"
    by (rule bit_eqI) (auto simp: bits simp del: push_bit_Suc drop_bit_Suc dest: bit_imp_le_length)
  moreover have "ucast (drop_bit 2 (flags_byte f)) = f_will f"
    by (rule bit_eqI) (auto simp: bits simp del: push_bit_Suc drop_bit_Suc dest: bit_imp_le_length)
  moreover have "ucast (drop_bit 3 (flags_byte f)) = f_willQoS f"
    by (rule bit_eqI) (auto simp: bits simp del: push_bit_Suc drop_bit_Suc dest: bit_imp_le_length)
  moreover have "ucast (drop_bit 5 (flags_byte f)) = f_willRetain f"
    by (rule bit_eqI) (auto simp: bits simp del: push_bit_Suc drop_bit_Suc dest: bit_imp_le_length)
  moreover have "ucast (drop_bit 6 (flags_byte f)) = f_password f"
    by (rule bit_eqI) (auto simp: bits simp del: push_bit_Suc drop_bit_Suc dest: bit_imp_le_length)
  moreover have "ucast (drop_bit 7 (flags_byte f)) = f_username f"
    by (rule bit_eqI) (auto simp: bits simp del: push_bit_Suc drop_bit_Suc dest: bit_imp_le_length)
  ultimately show ?thesis by (simp add: byte_flags_def)
qed

text \<open>The abstract contents of a CONNECT packet and the bytes of its body.\<close>

record connect_data =
  c_version :: u8
  c_clean :: "1 word"
  c_keepalive :: u16
  c_client :: "u8 list"
  c_will :: "(2 word \<times> 1 word \<times> u8 list \<times> u8 list) option"
  c_user :: "u8 list option"
  c_pass :: "u8 list option"

definition c_flags :: "connect_data \<Rightarrow> MQTTConnectFlags" where
  "c_flags d =
     \<lparr>f_unused = 0, f_cleansession = c_clean d,
      f_will = (case c_will d of None \<Rightarrow> 0 | Some _ \<Rightarrow> 1),
      f_willQoS = (case c_will d of None \<Rightarrow> 0 | Some (q, r, t, m) \<Rightarrow> q),
      f_willRetain = (case c_will d of None \<Rightarrow> 0 | Some (q, r, t, m) \<Rightarrow> r),
      f_password = (case c_pass d of None \<Rightarrow> 0 | Some _ \<Rightarrow> 1),
      f_username = (case c_user d of None \<Rightarrow> 0 | Some _ \<Rightarrow> 1)\<rparr>"

definition c_proto :: "u8 \<Rightarrow> u8 list" where
  "c_proto v = (if v = 4 then map of_char ''MQTT'' else map of_char ''MQIsdp'')"

definition opt_utf :: "u8 list option \<Rightarrow> u8 list" where
  "opt_utf x = (case x of None \<Rightarrow> [] | Some s \<Rightarrow> utf s)"

definition conn_will :: "connect_data \<Rightarrow> u8 list" where
  "conn_will d = (case c_will d of None \<Rightarrow> [] | Some (q, r, t, m) \<Rightarrow> utf t @ utf m)"

definition conn_body :: "connect_data \<Rightarrow> u8 list" where
  "conn_body d = utf (c_proto (c_version d)) @ [if c_version d = 4 then 4 else 3, flags_byte (c_flags d)] @
     be16 (uint (c_keepalive d)) @ utf (c_client d) @ conn_will d @ opt_utf (c_user d) @ opt_utf (c_pass d)"

text \<open>The contents a connect structure stands for.\<close>

definition mqs_opt :: "MQTTString \<Rightarrow> u8 list option option" where
  "mqs_opt ms = (if mqs_set ms then map_option Some (mqs_bytes ms) else Some None)"

definition connect_of :: "MQTTPacket_connectData \<Rightarrow> connect_data option" where
  "connect_of opts = do {
     cid \<leftarrow> mqs_bytes (clientID opts);
     w \<leftarrow> (if willFlag opts \<noteq> 0 then do {
            t \<leftarrow> mqs_bytes (w_topicName (will opts));
            m \<leftarrow> mqs_bytes (w_message (will opts));
            Some (Some (ucast (w_qos (will opts)), ucast (w_retained (will opts)), t, m)) }
          else Some None);
     u \<leftarrow> mqs_opt (username opts);
     p \<leftarrow> mqs_opt (password opts);
     Some \<lparr>c_version = MQTTVersion opts, c_clean = ucast (cleansession opts), c_keepalive = keepAliveInterval opts,
           c_client = cid, c_will = w, c_user = u, c_pass = p\<rparr> }"

definition conn_header :: MQTTHeader where
  "conn_header = \<lparr>h_retain = 0, h_qos = 0, h_dup = 0, h_type = msg_num CONNECT\<rparr>"

lemma c_str_lit: "0 \<notin> set (map of_char s :: u8 list) \<Longrightarrow> c_str (lit s) = Some (map of_char s)"
  unfolding lit_def by (rule c_str_terminated)

lemma write_proto:
  "(if v = 4 then do { c \<leftarrow> writeCString c (lit ''MQTT''); writeChar c 4 }
    else do { c \<leftarrow> writeCString c (lit ''MQIsdp''); writeChar c 3 })
   = emit c (utf (c_proto v) @ [if v = 4 then 4 else 3])"
  by (simp add: c_proto_def writeCString_emit c_str_lit of_char_def writeChar_emit emit_append)

lemma write_opt:
  assumes "mqs_opt s = Some u"
  shows "(if (if mqs_set s then 1 else 0 :: 1 word) \<noteq> 0 then writeMQTTString c s else Some c)
    = (if u \<noteq> None then emit c (opt_utf u) else Some c)"
  using assms by (auto simp: mqs_opt_def opt_utf_def writeMQTTString_emit split: if_splits)

lemma opt_if_utf [simp]: "(if u = None then [] else opt_utf u) = opt_utf u"
  by (auto simp: opt_utf_def)

lemma connect_ofD:
  assumes "connect_of opts = Some d"
  shows "mqs_bytes (clientID opts) = Some (c_client d)"
    and "mqs_opt (username opts) = Some (c_user d)" and "mqs_opt (password opts) = Some (c_pass d)"
    and "c_version d = MQTTVersion opts" and "c_keepalive d = keepAliveInterval opts"
    and "connect_flags opts = c_flags d"
    and "(if willFlag opts \<noteq> 0 then do {
            c \<leftarrow> writeMQTTString c (w_topicName (will opts));
            writeMQTTString c (w_message (will opts)) }
          else Some c) = (if c_will d \<noteq> None then emit c (conn_will d) else Some c)"
  using assms
  by (auto simp: connect_of_def bind_eq_Some_conv connect_flags_def c_flags_def mqs_opt_def Let_def
      conn_will_def writeMQTTString_emit emit_append split: if_splits)

lemma length_opt:
  assumes "mqs_opt s = Some u"
  shows "(if mqs_set s then do { n \<leftarrow> MQTTstrlen s; Some (len + (n + 2)) } else Some len)
    = Some (len + int (length (opt_utf u)))"
  using assms by (auto simp: mqs_opt_def opt_utf_def MQTTstrlen_bytes split: if_splits)

lemma length_will:
  assumes "connect_of opts = Some d"
  shows "(if willFlag opts \<noteq> 0 then do {
          t \<leftarrow> MQTTstrlen (w_topicName (will opts));
          m \<leftarrow> MQTTstrlen (w_message (will opts));
          Some (len + (t + 2 + m + 2)) }
        else Some len) = Some (len + int (length (conn_will d)))"
  using assms
  by (auto simp: connect_of_def conn_will_def bind_eq_Some_conv MQTTstrlen_bytes split: if_splits)

lemma connectLength_body:
  assumes d: "connect_of opts = Some d" and v: "MQTTVersion opts = 3 \<or> MQTTVersion opts = 4"
    and n: "length (conn_body d) < 268435456"
  shows "MQTTSerialize_connectLength opts = Some (int (length (conn_body d)))"
proof -
  have "(if MQTTVersion opts = 3 then 12 else if MQTTVersion opts = 4 then 10 else 0) =
      int (6 + length (c_proto (c_version d)))"
    using v connect_ofD(4) [OF d] by (auto simp: c_proto_def)
  then show ?thesis
    using n unfolding MQTTSerialize_connectLength_def MQTTstrlen_bytes [OF connect_ofD(1) [OF d]]
      length_will [OF d] length_opt [OF connect_ofD(2) [OF d]] length_opt [OF connect_ofD(3) [OF d]]
    by (simp add: conn_body_def c_int_def)
qed

lemma MQTTSerialize_connect_put:
  assumes d: "connect_of opts = Some d" and v: "MQTTVersion opts = 3 \<or> MQTTVersion opts = 4"
    and n: "length (conn_body d) < 268435456"
  shows "MQTTSerialize_connect buf buflen opts = put_packet buf buflen conn_header (conn_body d)"
proof -
  note D = connect_ofD [OF d]
  have h: "MQTTHeader_zero\<lparr>h_type := msg_num CONNECT\<rparr> = conn_header"
    by (simp add: MQTTHeader_zero_def conn_header_def)
  have f: "f_username (c_flags d) = (if mqs_set (username opts) then 1 else 0)"
    "f_password (c_flags d) = (if mqs_set (password opts) then 1 else 0)"
    by (simp_all add: D(6) [symmetric] connect_flags_def Let_def)
  have will: "(if c_will d \<noteq> None then conn_will d else []) = conn_will d"
    and opt: "(if u \<noteq> None then opt_utf u else []) = opt_utf u" for u
    by (simp_all add: conn_will_def opt_utf_def split: option.splits)
  have w: "do {
       c \<leftarrow> (if MQTTVersion opts = 4
            then do { c \<leftarrow> writeCString c (lit ''MQTT''); writeChar c 4 }
            else do { c \<leftarrow> writeCString c (lit ''MQIsdp''); writeChar c 3 });
       c \<leftarrow> writeChar c (flags_byte (c_flags d));
       c \<leftarrow> writeInt c (uint (keepAliveInterval opts));
       c \<leftarrow> writeMQTTString c (clientID opts);
       c \<leftarrow> (if willFlag opts \<noteq> 0 then do {
            c \<leftarrow> writeMQTTString c (w_topicName (will opts));
            writeMQTTString c (w_message (will opts)) }
          else Some c);
       c \<leftarrow> (if f_username (c_flags d) \<noteq> 0 then writeMQTTString c (username opts) else Some c);
       (if f_password (c_flags d) \<noteq> 0 then writeMQTTString c (password opts) else Some c) }
     = emit c (conn_body d)" for c
    unfolding write_proto unfolding D(7) f write_opt [OF D(2)] write_opt [OF D(3)] writeMQTTString_emit [OF D(1)]
      writeChar_emit writeInt_emit [OF uint_ge_0] emit_emit emit_optional emit_optional_last will opt
    by (simp add: conn_body_def D(4,5) emit_emit emit_append [symmetric])
  show ?thesis
    unfolding MQTTSerialize_connect_def connectLength_body [OF d v n] put_packet_def Let_def h D(6)
      emit_packet [symmetric] w [symmetric]
    by (simp cong: if_cong)
qed

text \<open>
  The contents the deserializer accepts: a known version, strings that fit their length field, a
  password only with a user name, and both of them not empty when present.
\<close>

definition str_ok :: "u8 list \<Rightarrow> bool" where
  "str_ok s \<longleftrightarrow> length s < 65536"

definition cred_ok :: "u8 list option \<Rightarrow> bool" where
  "cred_ok u = (case u of None \<Rightarrow> True | Some s \<Rightarrow> str_ok s \<and> s \<noteq> [])"

definition connect_ok :: "connect_data \<Rightarrow> bool" where
  "connect_ok d \<longleftrightarrow> (c_version d = 3 \<or> c_version d = 4) \<and> str_ok (c_client d) \<and>
     (case c_will d of None \<Rightarrow> True | Some (q, r, t, m) \<Rightarrow> str_ok t \<and> str_ok m) \<and>
     cred_ok (c_user d) \<and> cred_ok (c_pass d) \<and> (c_user d = None \<longrightarrow> c_pass d = None)"

lemma connect_body_bound:
  assumes "connect_ok d"
  shows "length (conn_body d) < 400000"
  using assms
  by (auto simp: connect_ok_def conn_body_def c_proto_def conn_will_def opt_utf_def cred_ok_def str_ok_def
      split: option.splits)

text \<open>The string view of an optional string at a position, and the position behind it.\<close>

definition opt_view :: "MQTTString \<Rightarrow> u8 list \<Rightarrow> nat \<Rightarrow> u8 list option \<Rightarrow> MQTTString" where
  "opt_view old m p u = (case u of None \<Rightarrow> old | Some s \<Rightarrow> mqs_view m (p + 2) (length s))"

lemma deserialize_credentials_sees:
  assumes "sees (m, p) (opt_utf u @ opt_utf w)" and "enddata = p + length (opt_utf u @ opt_utf w)"
    and "cred_ok u" and "cred_ok w" and "u = None \<longrightarrow> w = None"
    and "f_username f \<noteq> 0 \<longleftrightarrow> u \<noteq> None" and "f_password f \<noteq> 0 \<longleftrightarrow> w \<noteq> None"
  shows "deserialize_credentials d f (m, p) enddata = Some (1, d\<lparr>
      username := opt_view (username d) m p u,
      password := opt_view (password d) m (p + length (opt_utf u)) w\<rparr>)"
proof (cases u)
  case None
  with assms show ?thesis by (simp add: deserialize_credentials_def opt_view_def)
next
  case (Some s)
  have s: "length s < 65536" "s \<noteq> []" using assms(3) Some by (auto simp: cred_ok_def str_ok_def)
  have rs: "readMQTTLenString ms (m, p) enddata = Some (1, mqs_view m (p + 2) (length s), (m, p + 2 + length s))" for ms
    using assms(1,2) Some s by (intro readMQTTLenString_sees) (auto simp: opt_utf_def)
  have l: "int enddata - int p \<ge> 3" using assms(2) Some s by (auto simp: opt_utf_def) (cases s; simp)
  show ?thesis
  proof (cases w)
    case None
    with Some s assms(6,7) rs l show ?thesis
      by (simp add: deserialize_credentials_def opt_view_def)
  next
    case (Some t)
    have t: "length t < 65536" "t \<noteq> []" using assms(4) Some by (auto simp: cred_ok_def str_ok_def)
    let ?q = "p + 2 + length s"
    have rt: "readMQTTLenString ms (m, ?q) enddata = Some (1, mqs_view m (?q + 2) (length t), (m, ?q + 2 + length t))" for ms
      using assms(1,2) Some t \<open>u = Some s\<close> by (intro readMQTTLenString_sees) (auto simp: opt_utf_def)
    have "int enddata - int ?q \<ge> 3" using assms(2) Some t \<open>u = Some s\<close> by (auto simp: opt_utf_def) (cases t; simp)
    then show ?thesis using Some \<open>u = Some s\<close> assms(6,7) rs rt l
      by (simp add: deserialize_credentials_def opt_view_def opt_utf_def)
  qed
qed

lemma checkVersion_sees:
  assumes "sees (m, p) (c_proto v)" and "v = 3 \<or> v = 4"
  shows "MQTTPacket_checkVersion (mqs_view m p (length (c_proto v))) (uint (if v = 4 then 4 else 3 :: u8)) = Some True"
proof -
  have b: "p + length (c_proto v) \<le> length m"
    using sees_length [OF assms(1)] by (simp add: c_proto_def split: if_splits)
  have "c_memcmp (drop p m) (c_proto v @ [0]) (length (c_proto v)) = Some 0"
    using assms(1) b by (intro c_memcmp_equal) (auto simp: sees_def)
  moreover have l: "length (c_proto v) = (if v = 4 then 4 else 6)" by (simp add: c_proto_def)
  ultimately have "c_memcmp (drop p m) (c_proto v @ [0]) (if v = 4 then 4 else 6) = Some 0" by simp
  then show ?thesis using assms(2) l
    by (auto simp: MQTTPacket_checkVersion_def mqs_view_def c_proto_def lit_def)
qed

text \<open>The positions of the fields of a CONNECT packet.\<close>

lemma MQTTDeserialize_connect_sees:
  assumes "sees (m, 0) (mqtt_packet conn_header (conn_body cd))" and ok: "connect_ok cd"
    and p: "p = 1 + length (enc_bytes (length (conn_body cd)))"
    and p1: "p1 = p + 2 + length (c_proto (c_version cd))"
    and p2: "p2 = p1 + 6 + length (c_client cd)" and p3: "p3 = p2 + length (conn_will cd)"
  shows "MQTTDeserialize_connect d m (int (length (mqtt_packet conn_header (conn_body cd)))) =
    Some (1, d\<lparr>cleansession := ucast (c_clean cd), keepAliveInterval := c_keepalive cd,
      clientID := mqs_view m (p1 + 6) (length (c_client cd)),
      willFlag := (if c_will cd = None then 0 else 1),
      will := (case c_will cd of None \<Rightarrow> will d
        | Some (q, r, t, s) \<Rightarrow> (will d)\<lparr>w_topicName := mqs_view m (p2 + 2) (length t),
            w_message := mqs_view m (p2 + 2 + length t + 2) (length s), w_retained := ucast r, w_qos := ucast q\<rparr>),
      username := opt_view (username d) m p3 (c_user cd),
      password := opt_view (password d) m (p3 + length (opt_utf (c_user cd))) (c_pass cd)\<rparr>)"
proof -
  obtain vb :: u8 where vb: "vb = (if c_version cd = 4 then 4 else 3)" by simp
  obtain e where e: "e = p + length (conn_body cd)" by simp
  have n: "length (conn_body cd) < 268435456" using connect_body_bound [OF ok] by simp
  note s = sees_packet [OF assms(1) n]
  have dec: "MQTTPacket_decodeBuf (m, 1) = Some (int (p - 1), int (length (conn_body cd)))"
    and pp: "1 + (p - 1) = p" using s(2) p by simp_all
  have E: "e = p3 + length (opt_utf (c_user cd) @ opt_utf (c_pass cd))"
    by (simp add: e conn_body_def p1 p2 p3)
  obtain R1 where R1: "R1 = be16 (uint (c_keepalive cd)) @ utf (c_client cd) @ conn_will cd @
      opt_utf (c_user cd) @ opt_utf (c_pass cd)" by simp
  have "sees (m, p) (conn_body cd)" using s(3) p by simp
  then have at: "sees (m, p) (utf (c_proto (c_version cd)))"
    and a1: "sees (m, p1) [vb]" and a2: "sees (m, p1 + 1) [flags_byte (c_flags cd)]"
    and a3: "sees (m, p1 + 2) R1"
    by (simp_all add: conn_body_def p1 R1 vb sees_Cons add.assoc)
  have a4: "sees (m, p1 + 2) (be16 (uint (c_keepalive cd)))" and a5: "sees (m, p1 + 4) (utf (c_client cd))"
    and a6: "sees (m, p2) (conn_will cd)" and a7: "sees (m, p3) (opt_utf (c_user cd) @ opt_utf (c_pass cd))"
    using a3 by (simp_all add: R1 p2 p3 add.assoc eval_nat_numeral)
  have proto: "length (c_proto (c_version cd)) < 65536" by (simp add: c_proto_def)
  have r1: "readMQTTLenString ms (m, p) e = Some (1, mqs_view m (p + 2) (length (c_proto (c_version cd))), (m, p1))" for ms
    unfolding p1 by (rule readMQTTLenString_sees [OF at proto]) (use E p1 p2 p3 in simp)
  have r5: "readMQTTLenString ms (m, p1 + 4) e = Some (1, mqs_view m (p1 + 6) (length (c_client cd)), (m, p2))" for ms
    using readMQTTLenString_sees [OF a5, of e ms] ok E p2 p3 by (simp add: connect_ok_def str_ok_def ac_simps)
  have r4: "readInt (m, p1 + 2) = Some (uint (c_keepalive cd), (m, p1 + 4))"
    using readInt_sees [OF a4] uint_lt2p [of "c_keepalive cd"] by simp
  have v: "MQTTPacket_checkVersion (mqs_view m (p + 2) (length (c_proto (c_version cd)))) (uint vb) = Some True"
    unfolding vb by (rule checkVersion_sees) (use at ok in \<open>auto simp: utf_def connect_ok_def\<close>)
  have cr: "deserialize_credentials d (c_flags cd) (m, p3) e = Some (1, d\<lparr>
      username := opt_view (username d) m p3 (c_user cd),
      password := opt_view (password d) m (p3 + length (opt_utf (c_user cd))) (c_pass cd)\<rparr>)" for d
    by (rule deserialize_credentials_sees [OF a7 E])
      (use ok in \<open>auto simp: connect_ok_def c_flags_def split: option.splits\<close>)
  have E1: "length (mqtt_packet conn_header (conn_body cd)) = e" and ht: "h_type conn_header = 1"
    using p e by (simp_all add: conn_header_def)
  have pE: "\<not> e < p1" using E p2 p3 by simp
  have rf: "readChar (m, p1 + 1) = Some (flags_byte (c_flags cd), (m, p1 + 2))"
    and cs: "f_cleansession (c_flags cd) = c_clean cd"
    using readChar_sees [OF a2] by (simp_all add: c_flags_def)
  note run = MQTTDeserialize_connect_def E1 ht s(1) dec pp r1 readChar_sees [OF a1] rf cs r4 r5 v pE
  show ?thesis
  proof (cases "c_will cd")
    case None
    then have "p3 = p2" "f_will (c_flags cd) = 0" using p3 by (simp_all add: conn_will_def c_flags_def)
    then show ?thesis using None cr
      by (simp add: run Let_def del: One_nat_def length_mqtt_packet add_2_eq_Suc')
  next
    case (Some w)
    obtain q r t u where w: "w = (q, r, t, u)" by (cases w)
    have len: "length t < 65536" "length u < 65536" using ok Some w by (auto simp: connect_ok_def str_ok_def)
    have cw: "conn_will cd = utf t @ utf u" using Some w by (simp add: conn_will_def)
    have r6: "readMQTTLenString ms (m, p2) e = Some (1, mqs_view m (p2 + 2) (length t), (m, p2 + 2 + length t))" for ms
      using readMQTTLenString_sees [of m p2 t e ms] a6 len E p3 by (simp add: cw)
    have r7: "readMQTTLenString ms (m, p2 + 2 + length t) e =
        Some (1, mqs_view m (p2 + 2 + length t + 2) (length u), (m, p3))" for ms
      using readMQTTLenString_sees [of m "p2 + 2 + length t" u e ms] a6 len E p3 by (simp add: cw add.assoc)
    have "f_will (c_flags cd) = 1" "f_willQoS (c_flags cd) = q" "f_willRetain (c_flags cd) = r"
      using Some w by (simp_all add: c_flags_def)
    then show ?thesis using Some w cr r6 r7
      by (simp add: run Let_def del: One_nat_def length_mqtt_packet add_2_eq_Suc')
  qed
qed

lemma mqs_opt_view:
  assumes "sees (m, p) (opt_utf u)"
  shows "mqs_opt (opt_view MQTTString_initializer m p u) = Some u"
proof (cases u)
  case None
  then show ?thesis by (simp add: opt_view_def mqs_opt_def mqs_set_def MQTTString_initializer_def)
next
  case (Some s)
  then have "mqs_bytes (mqs_view m (p + 2) (length s)) = Some s"
    using assms by (intro mqs_bytes_view) (simp add: opt_utf_def utf_def)
  with Some show ?thesis by (simp add: opt_view_def mqs_opt_def mqs_set_def mqs_view_def)
qed

lemma connect_decoded:
  assumes "sees (m, 0) (mqtt_packet conn_header (conn_body cd))" and ok: "connect_ok cd"
  shows "\<exists>d'. MQTTDeserialize_connect MQTTPacket_connectData_initializer m
      (int (length (mqtt_packet conn_header (conn_body cd)))) = Some (1, d') \<and>
    connect_of d' = Some (cd\<lparr>c_version := 4\<rparr>)"
proof -
  obtain p p1 p2 p3 where p: "p = 1 + length (enc_bytes (length (conn_body cd)))"
    and p1: "p1 = p + 2 + length (c_proto (c_version cd))"
    and p2: "p2 = p1 + 6 + length (c_client cd)" and p3: "p3 = p2 + length (conn_will cd)" by simp
  have n: "length (conn_body cd) < 268435456" using connect_body_bound [OF ok] by simp
  have "sees (m, p) (conn_body cd)" using sees_packet(3) [OF assms(1) n] p by simp
  then have at: "sees (m, p1 + 6) (c_client cd)" "sees (m, p2) (conn_will cd)" "sees (m, p3) (opt_utf (c_user cd))"
    "sees (m, p3 + length (opt_utf (c_user cd))) (opt_utf (c_pass cd))"
    by (simp_all add: conn_body_def p1 p2 p3 utf_def sees_Cons eval_nat_numeral add.assoc)
  have c: "mqs_bytes (mqs_view m (p1 + 6) (length (c_client cd))) = Some (c_client cd)"
    by (rule mqs_bytes_view [OF at(1)])
  have w: "c_will cd = Some (q, r, t, u) \<Longrightarrow> mqs_bytes (mqs_view m (p2 + 2) (length t)) = Some t \<and>
      mqs_bytes (mqs_view m (p2 + 2 + length t + 2) (length u)) = Some u" for q r t u
    using at(2) by (auto simp: conn_will_def utf_def eval_nat_numeral add.assoc intro!: mqs_bytes_view)
  have u: "ucast (ucast (x :: 1 word) :: u8) = x" "ucast (ucast (y :: 2 word) :: u8) = y" for x y
    by (rule bit_eqI, auto simp: bit_simps dest: bit_imp_le_length)+
  show ?thesis
    unfolding MQTTDeserialize_connect_sees [OF assms(1) ok p p1 p2 p3]
    using mqs_opt_view [OF at(3)] mqs_opt_view [OF at(4)] c w
    by (cases "c_will cd")
      (auto simp: connect_of_def MQTTPacket_connectData_initializer_def u add.assoc)
qed


definition sample_options :: MQTTPacket_connectData where
  "sample_options = MQTTPacket_connectData_initializer\<lparr>
     clientID := \<lparr>cstring = Some [0x64, 0x31, 0], ls_len = 0, ls_data = None\<rparr>,
     willFlag := 1,
     will := \<lparr>w_topicName = \<lparr>cstring = Some [0x74, 0], ls_len = 0, ls_data = None\<rparr>,
              w_message = \<lparr>cstring = None, ls_len = 2, ls_data = Some [0x62, 0x79, 0x65]\<rparr>,
              w_retained = 0, w_qos = 1\<rparr>,
     username := \<lparr>cstring = Some [0x75, 0], ls_len = 0, ls_data = None\<rparr>\<rparr>"

definition sample_data :: connect_data where
  "sample_data = \<lparr>c_version = 4, c_clean = 1, c_keepalive = 60, c_client = [0x64, 0x31],
     c_will = Some (1, 0, [0x74], [0x62, 0x79]), c_user = Some [0x75], c_pass = None\<rparr>"

lemma sample_of: "connect_of sample_options = Some sample_data"
  by (simp add: connect_of_def sample_options_def sample_data_def MQTTPacket_connectData_initializer_def
      mqs_opt_def mqs_set_def mqs_bytes_def c_str_def mem_read_def MQTTString_initializer_def)


text \<open>
  \<open>MQTTSerialize_connect\<close> stays inside its buffer: for connect options of a known version it
  returns \<open>MQTTPACKET_BUFFER_TOO_SHORT\<close> and leaves the buffer alone, or writes a packet of at most
  \<open>buflen\<close> bytes and nothing behind it.
\<close>

lemma MQTTSerialize_connect_safe:
  assumes "connect_of opts = Some cd" and "MQTTVersion opts = 3 \<or> MQTTVersion opts = 4"
    and "length (conn_body cd) < 268435456" and "buflen \<le> int (length buf)"
  shows "\<exists>rc m. MQTTSerialize_connect buf buflen opts = Some (rc, m) \<and> length m = length buf \<and>
    (rc = MQTTPACKET_BUFFER_TOO_SHORT \<and> m = buf \<or>
     0 < rc \<and> rc \<le> buflen \<and> drop (nat rc) m = drop (nat rc) buf)"
  unfolding MQTTSerialize_connect_put [OF assms(1-3)]
  by (rule put_packet_Some [OF assms(3,4), of conn_header])
    (use assms(4) in \<open>auto simp: overwrite_def simp del: length_mqtt_packet\<close>)

lemma connack_bytes:
  "MQTTDeserialize_connack out ([0x20, 2, fl, rc] @ r) len = Some (1, ucast (connack_sessionpresent fl), rc)"
  by (simp add: MQTTDeserialize_connack_def readChar_def mem_get_def byte_header_def MQTTPacket_decodeBuf_def
      MQTTPacket_decode_def MQTTPacket_decode_loop.simps bufchar_def mem_read_def Let_def)

text \<open>
  CONNACK. \<open>MQTTSerialize_connack\<close> checks for two bytes of space but writes four: in a
  buffer of exactly two or three bytes the write leaves the buffer (no result here), and with
  four bytes or more the packet is written and read back with the same return code and session flag.
\<close>

lemma MQTT_connack_cases:
  "MQTTSerialize_connack buf (int (length buf)) connack_rc sp =
     (if length buf < 2 then Some (MQTTPACKET_BUFFER_TOO_SHORT, buf)
      else if length buf < 4 then None
      else Some (4, [0x20, 2, push_bit 7 sp, connack_rc] @ drop 4 buf)) \<and>
   MQTTDeserialize_connack out ([0x20, 2, push_bit 7 sp, connack_rc] @ drop 4 buf) 4 =
     Some (1, sp AND 1, connack_rc)"
proof
  have f: "header_byte (MQTTHeader_zero\<lparr>h_type := 2\<rparr>) = 0x20"
    by (simp add: header_byte_def MQTTHeader_zero_def)
  have sp: "push_bit 7 (ucast (ucast sp :: 1 word)) = push_bit 7 sp"
    by (rule bit_eqI) (auto simp: bit_simps)
  consider "length buf < 2" | "length buf = 2" | "length buf = 3"
    | b0 b1 b2 b3 r where "buf = b0 # b1 # b2 # b3 # r"
    by (cases buf rule: remdups_adj.cases; cases "tl (tl buf)" rule: remdups_adj.cases) auto
  then show "MQTTSerialize_connack buf (int (length buf)) connack_rc sp =
     (if length buf < 2 then Some (MQTTPACKET_BUFFER_TOO_SHORT, buf)
      else if length buf < 4 then None
      else Some (4, [0x20, 2, push_bit 7 sp, connack_rc] @ drop 4 buf))"
    by cases (simp_all add: MQTTSerialize_connack_def f write_rem_len_emit writeChar_emit connack_flags_byte_def
        enc_bytes.simps emit_def mem_write_def overwrite_def sp)
  have "ucast (connack_sessionpresent (push_bit 7 sp)) = sp AND 1"
    by (rule bit_eqI) (auto simp: connack_sessionpresent_def bit_simps simp del: push_bit_numeral)
  then show "MQTTDeserialize_connack out ([0x20, 2, push_bit 7 sp, connack_rc] @ drop 4 buf) 4 =
     Some (1, sp AND 1, connack_rc)"
    using connack_bytes by simp
qed

end
