(* ===== verification/MqttSubscribe.thy ===== *)
theory MqttSubscribe
  imports MqttPublish
begin

text \<open>
  SUBSCRIBE, SUBACK, UNSUBSCRIBE and UNSUBACK: \<open>MQTTSubscribeClient.c\<close>, \<open>MQTTSubscribeServer.c\<close>,
  \<open>MQTTUnsubscribeClient.c\<close> and \<open>MQTTUnsubscribeServer.c\<close>. The arrays of topic filters and
  qualities of service are memory areas of their own: an index outside one is no result.
\<close>

subsection \<open>The code\<close>

text \<open>The loops of the four length and write functions; the first argument counts down.\<close>

fun subscribeLength_loop :: "nat \<Rightarrow> MQTTString list \<Rightarrow> nat \<Rightarrow> int \<Rightarrow> int option" where
  "subscribeLength_loop 0 topicFilters i len = Some len"
| "subscribeLength_loop (Suc k) topicFilters i len = do {
     f \<leftarrow> mem_get topicFilters i;
     n \<leftarrow> MQTTstrlen f;
     subscribeLength_loop k topicFilters (i + 1) (len + (2 + n + 1)) }"

definition MQTTSerialize_subscribeLength :: "int \<Rightarrow> MQTTString list \<Rightarrow> int option" where
  "MQTTSerialize_subscribeLength count topicFilters = do {
     len \<leftarrow> subscribeLength_loop (nat count) topicFilters 0 2;
     c_int len }"

fun subscribe_loop :: "nat \<Rightarrow> MQTTString list \<Rightarrow> int list \<Rightarrow> nat \<Rightarrow> cursor \<Rightarrow> cursor option" where
  "subscribe_loop 0 topicFilters requestedQoSs i c = Some c"
| "subscribe_loop (Suc k) topicFilters requestedQoSs i c = do {
     f \<leftarrow> mem_get topicFilters i;
     c \<leftarrow> writeMQTTString c f;
     q \<leftarrow> mem_get requestedQoSs i;
     c \<leftarrow> writeChar c (word_of_int q);
     subscribe_loop k topicFilters requestedQoSs (i + 1) c }"

definition MQTTSerialize_subscribe ::
    "u8 list \<Rightarrow> int \<Rightarrow> u8 \<Rightarrow> u16 \<Rightarrow> int \<Rightarrow> MQTTString list \<Rightarrow> int list \<Rightarrow> (int \<times> u8 list) option" where
  "MQTTSerialize_subscribe buf buflen dup packetid count topicFilters requestedQoSs = do {
     rem_len \<leftarrow> MQTTSerialize_subscribeLength count topicFilters;
     total \<leftarrow> MQTTPacket_len rem_len;
     if total > buflen then Some (MQTTPACKET_BUFFER_TOO_SHORT, buf)
     else do {
       let header = MQTTHeader_zero\<lparr>h_type := msg_num SUBSCRIBE, h_dup := ucast dup, h_qos := 1\<rparr>;
       c \<leftarrow> writeChar (buf, 0) (header_byte header);
       c \<leftarrow> write_rem_len c rem_len;
       c \<leftarrow> writeInt c (uint packetid);
       (m, p) \<leftarrow> subscribe_loop (nat count) topicFilters requestedQoSs 0 c;
       Some (int p, m) } }"

text \<open>The output parameters of \<open>MQTTDeserialize_suback\<close>.\<close>

record suback_out =
  s_packetid :: u16
  s_count :: int
  s_grantedQoSs :: "int list"

function suback_loop :: "int \<Rightarrow> nat \<Rightarrow> suback_out \<Rightarrow> cursor \<Rightarrow> (int \<times> suback_out) option" where
  "suback_loop maxcount enddata out c =
     (if snd c < enddata then
        if s_count out > maxcount then Some (- 1, out)
        else case readChar c of
          None \<Rightarrow> None
        | Some (b, c') \<Rightarrow>
            (case mem_set (s_grantedQoSs out) (nat (s_count out)) (uint b) of
               None \<Rightarrow> None
             | Some g \<Rightarrow> suback_loop maxcount enddata
                 (out\<lparr>s_grantedQoSs := g, s_count := s_count out + 1\<rparr>) c')
      else Some (1, out))"
  by pat_completeness auto
termination
  by (relation "measure (\<lambda>(maxcount, enddata, out, c). enddata - snd c)")
    (auto simp: readChar_def bind_eq_Some_conv)

declare suback_loop.simps [simp del]

definition MQTTDeserialize_suback :: "int \<Rightarrow> suback_out \<Rightarrow> u8 list \<Rightarrow> int \<Rightarrow> (int \<times> suback_out) option" where
  "MQTTDeserialize_suback maxcount out buf buflen = do {
     (b, c) \<leftarrow> readChar (buf, 0);
     if h_type (byte_header b) \<noteq> msg_num SUBACK then Some (0, out)
     else do {
       (rc, mylen) \<leftarrow> MQTTPacket_decodeBuf c;
       let c = (fst c, snd c + nat rc);
       let enddata = snd c + nat mylen;
       if int enddata - int (snd c) < 2 then Some (rc, out)
       else do {
         (i, c) \<leftarrow> readInt c;
         suback_loop maxcount enddata (out\<lparr>s_packetid := word_of_int i, s_count := 0\<rparr>) c } } }"

text \<open>
  The output parameters of \<open>MQTTDeserialize_subscribe\<close> (and, without the qualities of service, of
  \<open>MQTTDeserialize_unsubscribe\<close>).
\<close>

record subscribe_out =
  u_dup :: u8
  u_packetid :: u16
  u_count :: nat
  u_topicFilters :: "MQTTString list"
  u_requestedQoSs :: "int list"

lemma readMQTTLenString_adv:
  "readMQTTLenString ms c e = Some (ok, ms', c') \<Longrightarrow> snd c \<le> snd c' \<and> (ok \<noteq> 0 \<longrightarrow> snd c < snd c')"
  by (auto simp: readMQTTLenString_def readInt_def bind_eq_Some_conv Let_def split: if_splits)

function deserialize_subscribe_loop :: "int \<Rightarrow> nat \<Rightarrow> subscribe_out \<Rightarrow> cursor \<Rightarrow> (int \<times> subscribe_out) option" where
  "deserialize_subscribe_loop rc enddata out c =
     (if snd c < enddata then
        case mem_get (u_topicFilters out) (u_count out) of
          None \<Rightarrow> None
        | Some old \<Rightarrow>
          (case readMQTTLenString old c enddata of
             None \<Rightarrow> None
           | Some (ok, ms, c1) \<Rightarrow>
               let out = out\<lparr>u_topicFilters := (u_topicFilters out)[u_count out := ms]\<rparr> in
               if ok = 0 \<or> snd c1 \<ge> enddata then Some (rc, out)
               else case readChar c1 of
                 None \<Rightarrow> None
               | Some (b, c2) \<Rightarrow>
                   (case mem_set (u_requestedQoSs out) (u_count out) (uint b) of
                      None \<Rightarrow> None
                    | Some q \<Rightarrow> deserialize_subscribe_loop rc enddata
                        (out\<lparr>u_requestedQoSs := q, u_count := u_count out + 1\<rparr>) c2))
      else Some (1, out))"
  by pat_completeness auto
termination
  by (relation "measure (\<lambda>(rc, enddata, out, c). enddata - snd c)")
    (auto simp: readChar_def bind_eq_Some_conv dest!: readMQTTLenString_adv)

declare deserialize_subscribe_loop.simps [simp del]

definition MQTTDeserialize_subscribe :: "int \<Rightarrow> subscribe_out \<Rightarrow> u8 list \<Rightarrow> int \<Rightarrow> (int \<times> subscribe_out) option" where
  "MQTTDeserialize_subscribe maxcount out buf buflen = do {
     (b, c) \<leftarrow> readChar (buf, 0);
     let header = byte_header b;
     if h_type header \<noteq> msg_num SUBSCRIBE then Some (- 1, out)
     else do {
       let out = out\<lparr>u_dup := ucast (h_dup header)\<rparr>;
       (rc, mylen) \<leftarrow> MQTTPacket_decodeBuf c;
       let c = (fst c, snd c + nat rc);
       let enddata = snd c + nat mylen;
       (i, c) \<leftarrow> readInt c;
       deserialize_subscribe_loop rc enddata (out\<lparr>u_packetid := word_of_int i, u_count := 0\<rparr>) c } }"

fun suback_write_loop :: "nat \<Rightarrow> int list \<Rightarrow> nat \<Rightarrow> cursor \<Rightarrow> cursor option" where
  "suback_write_loop 0 grantedQoSs i c = Some c"
| "suback_write_loop (Suc k) grantedQoSs i c = do {
     q \<leftarrow> mem_get grantedQoSs i;
     c \<leftarrow> writeChar c (word_of_int q);
     suback_write_loop k grantedQoSs (i + 1) c }"

definition MQTTSerialize_suback :: "u8 list \<Rightarrow> int \<Rightarrow> u16 \<Rightarrow> int \<Rightarrow> int list \<Rightarrow> (int \<times> u8 list) option" where
  "MQTTSerialize_suback buf buflen packetid count grantedQoSs =
     (if buflen < 2 + count then Some (MQTTPACKET_BUFFER_TOO_SHORT, buf)
      else do {
        let header = MQTTHeader_zero\<lparr>h_type := msg_num SUBACK\<rparr>;
        c \<leftarrow> writeChar (buf, 0) (header_byte header);
        c \<leftarrow> write_rem_len c (2 + count);
        c \<leftarrow> writeInt c (uint packetid);
        (m, p) \<leftarrow> suback_write_loop (nat count) grantedQoSs 0 c;
        Some (int p, m) })"

fun unsubscribeLength_loop :: "nat \<Rightarrow> MQTTString list \<Rightarrow> nat \<Rightarrow> int \<Rightarrow> int option" where
  "unsubscribeLength_loop 0 topicFilters i len = Some len"
| "unsubscribeLength_loop (Suc k) topicFilters i len = do {
     f \<leftarrow> mem_get topicFilters i;
     n \<leftarrow> MQTTstrlen f;
     unsubscribeLength_loop k topicFilters (i + 1) (len + (2 + n)) }"

definition MQTTSerialize_unsubscribeLength :: "int \<Rightarrow> MQTTString list \<Rightarrow> int option" where
  "MQTTSerialize_unsubscribeLength count topicFilters = do {
     len \<leftarrow> unsubscribeLength_loop (nat count) topicFilters 0 2;
     c_int len }"

fun unsubscribe_loop :: "nat \<Rightarrow> MQTTString list \<Rightarrow> nat \<Rightarrow> cursor \<Rightarrow> cursor option" where
  "unsubscribe_loop 0 topicFilters i c = Some c"
| "unsubscribe_loop (Suc k) topicFilters i c = do {
     f \<leftarrow> mem_get topicFilters i;
     c \<leftarrow> writeMQTTString c f;
     unsubscribe_loop k topicFilters (i + 1) c }"

definition MQTTSerialize_unsubscribe ::
    "u8 list \<Rightarrow> int \<Rightarrow> u8 \<Rightarrow> u16 \<Rightarrow> int \<Rightarrow> MQTTString list \<Rightarrow> (int \<times> u8 list) option" where
  "MQTTSerialize_unsubscribe buf buflen dup packetid count topicFilters = do {
     rem_len \<leftarrow> MQTTSerialize_unsubscribeLength count topicFilters;
     total \<leftarrow> MQTTPacket_len rem_len;
     if total > buflen then Some (MQTTPACKET_BUFFER_TOO_SHORT, buf)
     else do {
       let header = MQTTHeader_zero\<lparr>h_type := msg_num UNSUBSCRIBE, h_dup := ucast dup, h_qos := 1\<rparr>;
       c \<leftarrow> writeChar (buf, 0) (header_byte header);
       c \<leftarrow> write_rem_len c rem_len;
       c \<leftarrow> writeInt c (uint packetid);
       (m, p) \<leftarrow> unsubscribe_loop (nat count) topicFilters 0 c;
       Some (int p, m) } }"

text \<open>\<open>type\<close> and \<open>dup\<close> are locals initialised to 0.\<close>

definition MQTTDeserialize_unsuback :: "u16 \<Rightarrow> u8 list \<Rightarrow> int \<Rightarrow> (int \<times> u16) option" where
  "MQTTDeserialize_unsuback packetid buf buflen = do {
     (rc, out) \<leftarrow> MQTTDeserialize_ack \<lparr>a_packettype = 0, a_dup = 0, a_packetid = packetid\<rparr> buf buflen;
     Some (if a_packettype out = ucast (msg_num UNSUBACK) then 1 else rc, a_packetid out) }"

function deserialize_unsubscribe_loop :: "int \<Rightarrow> nat \<Rightarrow> subscribe_out \<Rightarrow> cursor \<Rightarrow> (int \<times> subscribe_out) option" where
  "deserialize_unsubscribe_loop rc enddata out c =
     (if snd c < enddata then
        case mem_get (u_topicFilters out) (u_count out) of
          None \<Rightarrow> None
        | Some old \<Rightarrow>
          (case readMQTTLenString old c enddata of
             None \<Rightarrow> None
           | Some (ok, ms, c1) \<Rightarrow>
               let out = out\<lparr>u_topicFilters := (u_topicFilters out)[u_count out := ms]\<rparr> in
               if ok = 0 then Some (rc, out)
               else deserialize_unsubscribe_loop rc enddata (out\<lparr>u_count := u_count out + 1\<rparr>) c1)
      else Some (1, out))"
  by pat_completeness auto
termination
  by (relation "measure (\<lambda>(rc, enddata, out, c). enddata - snd c)")
    (auto dest!: readMQTTLenString_adv)

declare deserialize_unsubscribe_loop.simps [simp del]

definition MQTTDeserialize_unsubscribe :: "int \<Rightarrow> subscribe_out \<Rightarrow> u8 list \<Rightarrow> int \<Rightarrow> (int \<times> subscribe_out) option" where
  "MQTTDeserialize_unsubscribe maxcount out buf len = do {
     (b, c) \<leftarrow> readChar (buf, 0);
     let header = byte_header b;
     if h_type header \<noteq> msg_num UNSUBSCRIBE then Some (0, out)
     else do {
       let out = out\<lparr>u_dup := ucast (h_dup header)\<rparr>;
       (rc, mylen) \<leftarrow> MQTTPacket_decodeBuf c;
       let c = (fst c, snd c + nat rc);
       let enddata = snd c + nat mylen;
       (i, c) \<leftarrow> readInt c;
       deserialize_unsubscribe_loop rc enddata (out\<lparr>u_packetid := word_of_int i, u_count := 0\<rparr>) c } }"

definition MQTTSerialize_unsuback :: "u8 list \<Rightarrow> int \<Rightarrow> u16 \<Rightarrow> (int \<times> u8 list) option" where
  "MQTTSerialize_unsuback buf buflen packetid =
     (if buflen < 2 then Some (MQTTPACKET_BUFFER_TOO_SHORT, buf)
      else do {
        let header = MQTTHeader_zero\<lparr>h_type := msg_num UNSUBACK\<rparr>;
        c \<leftarrow> writeChar (buf, 0) (header_byte header);
        c \<leftarrow> write_rem_len c 2;
        (m, p) \<leftarrow> writeInt c (uint packetid);
        Some (int p, m) })"

subsection \<open>The packets\<close>

fun sub_bytes :: "u8 list list \<Rightarrow> int list \<Rightarrow> u8 list" where
  "sub_bytes (t # ts) (q # qs) = utf t @ word_of_int q # sub_bytes ts qs"
| "sub_bytes _ _ = []"

definition sub_header :: "u8 \<Rightarrow> MQTTHeader" where
  "sub_header dup = \<lparr>h_retain = 0, h_qos = 1, h_dup = ucast dup, h_type = msg_num SUBSCRIBE\<rparr>"

definition sub_body :: "u16 \<Rightarrow> u8 list list \<Rightarrow> int list \<Rightarrow> u8 list" where
  "sub_body packetid ts qs = be16 (uint packetid) @ sub_bytes ts qs"

text \<open>The filters of the array denote the given byte strings.\<close>

definition filters_denote :: "MQTTString list \<Rightarrow> u8 list list \<Rightarrow> bool" where
  "filters_denote fs ts \<longleftrightarrow> list_all2 (\<lambda>f t. mqs_bytes f = Some t) fs ts"

lemma mem_get_append: "mem_get (pre @ x # xs) (length pre) = Some x"
  by (simp add: mem_get_def)

lemma subscribe_loop_emit:
  assumes "list_all2 (\<lambda>f t. mqs_bytes f = Some t) fs ts" and "length qs = length fs" and "length qpre = length pre"
  shows "do { c \<leftarrow> emit c a; subscribe_loop (length fs) (pre @ fs) (qpre @ qs) (length pre) c } =
    emit c (a @ sub_bytes ts qs)"
  using assms
proof (induction fs ts arbitrary: qs pre qpre a rule: list_all2_induct)
  case Nil
  then show ?case by simp
next
  case (Cons f fs t ts)
  then obtain q qs' where qs: "qs = q # qs'" by (cases qs) auto
  have g: "mem_get (pre @ f # fs) (length pre) = Some f" "mem_get (qpre @ q # qs') (length pre) = Some q"
    using Cons.prems(2) by (simp_all add: mem_get_def nth_append)
  have "do { c \<leftarrow> emit c a; c \<leftarrow> emit c (utf t); c \<leftarrow> emit c [word_of_int q];
        subscribe_loop (length fs) ((pre @ [f]) @ fs) ((qpre @ [q]) @ qs') (length (pre @ [f])) c }
      = emit c ((a @ utf t @ [word_of_int q]) @ sub_bytes ts qs')"
    using Cons.IH [of qs' "qpre @ [q]" "pre @ [f]" "a @ utf t @ [word_of_int q]"] Cons.prems qs
    by (simp add: emit_append)
  then show ?case
    by (simp add: qs g writeMQTTString_emit [OF Cons.hyps(1)] writeChar_emit)
qed

lemma subscribeLength_loop_eq:
  assumes "list_all2 (\<lambda>f t. mqs_bytes f = Some t) fs ts" and "length qs = length fs"
  shows "subscribeLength_loop (length fs) (pre @ fs) (length pre) len =
    Some (len + int (length (sub_bytes ts qs)))"
  using assms
proof (induction fs ts arbitrary: qs pre len rule: list_all2_induct)
  case (Cons f fs t ts)
  then obtain q qs' where qs: "qs = q # qs'" by (cases qs) auto
  show ?case
    using Cons.IH [of qs' "pre @ [f]" "len + (2 + int (length t) + 1)"] Cons.prems
    by (simp add: qs mem_get_append MQTTstrlen_bytes [OF Cons.hyps(1)])
qed simp

lemma MQTTSerialize_subscribe_put:
  assumes "filters_denote fs ts" and "length qs = length fs" and n: "length (sub_body packetid ts qs) < 268435456"
  shows "MQTTSerialize_subscribe buf buflen dup packetid (int (length fs)) fs qs =
    put_packet buf buflen (sub_header dup) (sub_body packetid ts qs)"
proof -
  have l: "MQTTSerialize_subscribeLength (int (length fs)) fs = Some (int (length (sub_body packetid ts qs)))"
    using subscribeLength_loop_eq [of fs ts qs "[]" 2] assms
    by (simp add: MQTTSerialize_subscribeLength_def filters_denote_def sub_body_def c_int_def)
  have h: "MQTTHeader_zero\<lparr>h_type := msg_num SUBSCRIBE, h_dup := ucast dup, h_qos := 1\<rparr> = sub_header dup"
    by (simp add: MQTTHeader_zero_def sub_header_def)
  have w: "do { c \<leftarrow> writeInt c (uint packetid); subscribe_loop (nat (int (length fs))) fs qs 0 c } =
      emit c (sub_body packetid ts qs)" for c
    using subscribe_loop_emit [of fs ts qs "[]" "[]" c "be16 (uint packetid)"] assms
    by (simp add: writeInt_emit sub_body_def filters_denote_def)
  show ?thesis
    unfolding MQTTSerialize_subscribe_def l put_packet_def Let_def h emit_packet [symmetric] w [symmetric]
    by (simp cong: if_cong)
qed

lemma deserialize_subscribe_loop_sees:
  assumes "sees (m, p) (sub_bytes ts qs)" and "e = p + length (sub_bytes ts qs)"
    and "length qs = length ts" and "\<forall>t\<in>set ts. length t < 65536" and "\<forall>q\<in>set qs. 0 \<le> q \<and> q < 256"
    and "u_count out + length ts \<le> length (u_topicFilters out)"
    and "u_count out + length ts \<le> length (u_requestedQoSs out)"
  shows "\<exists>fs. filters_denote fs ts \<and> deserialize_subscribe_loop rc e out (m, p) =
    Some (1, out\<lparr>u_count := u_count out + length ts,
      u_topicFilters := overwrite (u_topicFilters out) (u_count out) fs,
      u_requestedQoSs := overwrite (u_requestedQoSs out) (u_count out) qs\<rparr>)"
  using assms
proof (induction ts arbitrary: qs p out)
  case Nil
  then show ?case
    by (intro exI [of _ "[]"]) (auto simp: filters_denote_def deserialize_subscribe_loop.simps)
next
  case (Cons t ts)
  then obtain q qs' where qs: "qs = q # qs'" by (cases qs) auto
  let ?k = "u_count out" and ?p = "p + 2 + length t"
  let ?v = "mqs_view m (p + 2) (length t)"
  let ?out = "out\<lparr>u_topicFilters := (u_topicFilters out)[?k := ?v],
    u_requestedQoSs := (u_requestedQoSs out)[?k := q], u_count := ?k + 1\<rparr>"
  have at: "sees (m, p) (utf t)" "sees (m, ?p) [word_of_int q]" "sees (m, ?p + 1) (sub_bytes ts qs')"
    using Cons.prems(1) qs by (simp_all add: sees_Cons)
  have e: "e = ?p + 1 + length (sub_bytes ts qs')" using Cons.prems(2) qs by simp
  have r: "readMQTTLenString ms (m, p) e = Some (1, ?v, (m, ?p))" for ms
    using readMQTTLenString_sees [OF at(1), of e ms] Cons.prems(4) e by simp
  have q: "uint (word_of_int q :: u8) = q" using Cons.prems(5) qs by (simp add: word_of_int_uint_small)
  obtain fs where fs: "filters_denote fs ts"
      "deserialize_subscribe_loop rc e ?out (m, ?p + 1) = Some (1, ?out\<lparr>u_count := u_count ?out + length ts,
        u_topicFilters := overwrite (u_topicFilters ?out) (u_count ?out) fs,
        u_requestedQoSs := overwrite (u_requestedQoSs ?out) (u_count ?out) qs'\<rparr>)"
    using Cons.IH [OF at(3) e, of ?out] Cons.prems qs by auto
  have v: "mqs_bytes ?v = Some t" using at(1) by (intro mqs_bytes_view) (simp add: utf_def)
  have step: "deserialize_subscribe_loop rc e out (m, p) = deserialize_subscribe_loop rc e ?out (m, ?p + 1)"
    using Cons.prems(6,7) r readChar_sees [OF at(2)] e
    by (subst deserialize_subscribe_loop.simps)
      (simp add: mem_get_def mem_set_def q Let_def del: add_2_eq_Suc' One_nat_def)
  have len: "length fs = length ts" using fs(1) by (simp add: filters_denote_def list_all2_lengthD)
  show ?case
    using step fs v Cons.prems(6,7) qs
    by (intro exI [of _ "?v # fs"]) (auto simp: filters_denote_def overwrite_update_Suc)
qed

text \<open>
  C20. SUBSCRIBE round trip: any number of topic filters with their requested qualities of
  service is serialized into one packet, and \<open>MQTTDeserialize_subscribe\<close>, given arrays large
  enough, fills them with the same filters and qualities of service, in order.
\<close>

theorem MQTT_subscribe_roundtrip:
  assumes "filters_denote fs ts" and "length qs = length fs"
    and "\<forall>t\<in>set ts. length t < 65536" and "\<forall>q\<in>set qs. 0 \<le> q \<and> q < 256" and "dup < 2"
    and "length (sub_body packetid ts qs) < 268435456"
    and "int (length (sub_body packetid ts qs)) + 5 \<le> buflen" and "buflen \<le> int (length buf)"
    and "length fs \<le> length (u_topicFilters out)" and "length fs \<le> length (u_requestedQoSs out)"
  shows "\<exists>len m out'.
    MQTTSerialize_subscribe buf buflen dup packetid (int (length fs)) fs qs = Some (len, m) \<and>
    0 < len \<and> len \<le> buflen \<and>
    MQTTDeserialize_subscribe maxcount out m len = Some (1, out') \<and>
    u_dup out' = dup \<and> u_packetid out' = packetid \<and> u_count out' = length fs \<and>
    filters_denote (take (length fs) (u_topicFilters out')) ts \<and>
    take (length fs) (u_requestedQoSs out') = qs"
proof -
  let ?b = "sub_body packetid ts qs" and ?h = "sub_header dup"
  obtain m where m: "m = overwrite buf 0 (mqtt_packet ?h ?b)" by simp
  obtain p where p: "p = 1 + length (enc_bytes (length ?b))" by simp
  have l: "length ts = length fs" using assms(1) by (simp add: filters_denote_def list_all2_lengthD)
  note put = put_packet_fits [OF assms(6-8), of ?h]
  note s = sees_packet [OF sees_put_packet(1) [OF put(1)] assms(6), folded m]
  have at: "sees (m, p) (be16 (uint packetid))" "sees (m, p + 2) (sub_bytes ts qs)"
    using s(3) p by (simp_all add: sub_body_def)
  have pid: "readInt (m, p) = Some (uint packetid, (m, p + 2))"
    using readInt_sees [OF at(1)] uint_lt2p [of packetid] by simp
  have dec: "MQTTPacket_decodeBuf (m, 1) = Some (int (p - 1), int (length ?b))" and p1: "1 + (p - 1) = p"
    using s(2) p by simp_all
  let ?out = "out\<lparr>u_dup := dup, u_packetid := packetid, u_count := 0\<rparr>"
  have e: "p + length ?b = p + 2 + length (sub_bytes ts qs)" by (simp add: sub_body_def)
  obtain fs' where fs': "filters_denote fs' ts"
      "deserialize_subscribe_loop (int (p - 1)) (p + length ?b) ?out (m, p + 2) =
        Some (1, ?out\<lparr>u_count := u_count ?out + length ts,
          u_topicFilters := overwrite (u_topicFilters ?out) (u_count ?out) fs',
          u_requestedQoSs := overwrite (u_requestedQoSs ?out) (u_count ?out) qs\<rparr>)"
    using deserialize_subscribe_loop_sees [OF at(2) e, of ?out "int (p - 1)"] assms(2-5,9,10) l by auto
  have len': "length fs' = length fs" using fs'(1) l by (simp add: filters_denote_def list_all2_lengthD)
  have "MQTTDeserialize_subscribe maxcount out m (int (length (mqtt_packet ?h ?b))) =
      deserialize_subscribe_loop (int (p - 1)) (p + length ?b) ?out (m, p + 2)"
    using ucast_1_8 [OF assms(5)]
    by (simp add: MQTTDeserialize_subscribe_def s(1) dec p1 pid sub_header_def Let_def del: One_nat_def add_2_eq_Suc')
  then show ?thesis
    using put fs' len' assms(2,9,10) l
    unfolding MQTTSerialize_subscribe_put [OF assms(1,2,6)] m [symmetric]
    by (auto simp: overwrite_def simp del: length_mqtt_packet)
qed

definition subscribe_out0 :: "nat \<Rightarrow> subscribe_out" where
  "subscribe_out0 n = \<lparr>u_dup = 0, u_packetid = 0, u_count = 0,
     u_topicFilters = replicate n MQTTString_initializer, u_requestedQoSs = replicate n 0\<rparr>"

theorem MQTT_subscribe_roundtrip_witness:
  "\<exists>len m out'.
    MQTTSerialize_subscribe (replicate 30 0) 30 0 5 (int (length [topic_ab, topic_ab])) [topic_ab, topic_ab] [1, 2] = Some (len, m) \<and>
    0 < len \<and> len \<le> 30 \<and>
    MQTTDeserialize_subscribe 3 (subscribe_out0 3) m len = Some (1, out') \<and>
    u_dup out' = 0 \<and> u_packetid out' = 5 \<and> u_count out' = length [topic_ab, topic_ab] \<and>
    filters_denote (take (length [topic_ab, topic_ab]) (u_topicFilters out')) [[0x61, 0x2F, 0x62], [0x61, 0x2F, 0x62]] \<and>
    take (length [topic_ab, topic_ab]) (u_requestedQoSs out') = [1, 2]"
  by (rule MQTT_subscribe_roundtrip)
    (simp_all add: filters_denote_def topic_ab_bytes sub_body_def subscribe_out0_def)

text \<open>The loop of \<open>MQTTDeserialize_suback\<close>, on any number of return codes.\<close>

lemma suback_loop_sees:
  assumes "sees (m, p) qs" and "e = p + length qs" and "p \<le> length m"
    and "0 \<le> s_count out" and "int (length (s_grantedQoSs out)) = maxcount" and "s_count out \<le> maxcount"
  shows "suback_loop maxcount e out (m, p) =
    (if s_count out + int (length qs) \<le> maxcount
     then Some (1, out\<lparr>s_count := s_count out + int (length qs),
       s_grantedQoSs := overwrite (s_grantedQoSs out) (nat (s_count out)) (map uint qs)\<rparr>)
     else None)"
  using assms
proof (induction qs arbitrary: p out)
  case Nil
  then show ?case by (simp add: suback_loop.simps)
next
  case (Cons q qs)
  have at: "p < length m" "m ! p = q" "sees (m, Suc p) qs" using Cons.prems(1) by (auto simp: sees_Cons)
  have r: "readChar (m, p) = Some (q, (m, Suc p))" using at by (simp add: readChar_def mem_get_def)
  show ?case
  proof (cases "s_count out = maxcount")
    case True
    then show ?thesis using Cons.prems r
      by (subst suback_loop.simps) (auto simp: mem_set_def)
  next
    case False
    let ?out = "out\<lparr>s_grantedQoSs := (s_grantedQoSs out)[nat (s_count out) := uint q], s_count := s_count out + 1\<rparr>"
    have "suback_loop maxcount e out (m, p) = suback_loop maxcount e ?out (m, Suc p)"
      using False Cons.prems r by (subst suback_loop.simps) (auto simp: mem_set_def)
    moreover have n: "nat (s_count out + 1) = Suc (nat (s_count out))" using Cons.prems(4) by simp
    ultimately show ?thesis
      using Cons.IH [of "Suc p" ?out] at False Cons.prems
      by (auto simp: overwrite_update_Suc algebra_simps nat_add_distrib)
  qed
qed

text \<open>
  \<open>MQTTDeserialize_suback\<close> with a result array of \<open>maxcount\<close> entries, on a SUBACK packet with any
  number of return codes: up to \<open>maxcount\<close> codes are stored in order; with one more the array is
  overrun (no result), because the bound is tested with \<open>>\<close> instead of \<open>\<ge>\<close>.
\<close>

lemma MQTTDeserialize_suback_cases:
  assumes "h_type (byte_header b) = msg_num SUBACK" and "2 + length qs < 128"
    and "int (length (s_grantedQoSs out)) = maxcount"
  shows "MQTTDeserialize_suback maxcount out
      (b # of_nat (2 + length qs) # be16 (uint packetid) @ qs @ rest) len =
    (if int (length qs) \<le> maxcount
     then Some (1, out\<lparr>s_packetid := packetid, s_count := int (length qs),
       s_grantedQoSs := overwrite (s_grantedQoSs out) 0 (map uint qs)\<rparr>)
     else None)"
proof -
  obtain m where m: "m = b # of_nat (2 + length qs) # be16 (uint packetid) @ qs @ rest" by simp
  have en: "enc_bytes (2 + length qs) = [of_nat (2 + length qs)]" using assms(2) by (simp add: enc_bytes.simps)
  have s: "sees (m, 0) ([b] @ enc_bytes (2 + length qs) @ be16 (uint packetid) @ qs)"
    unfolding en m by (simp add: sees_def be16_def)
  have "sees (m, Suc 0) (enc_bytes (2 + length qs))" using s by (simp add: sees_Cons en del: of_nat_add)
  then have dec: "MQTTPacket_decodeBuf (m, Suc 0) = Some (1, int (2 + length qs))"
    using MQTTPacket_decodeBuf_sees [of m "Suc 0" "2 + length qs"] en assms(2) by simp
  have "length (enc_bytes (Suc (Suc (length qs)))) = 1" using en by simp
  then have "sees (m, 2) (be16 (uint packetid))" and at: "sees (m, 4) qs"
    using s by (simp_all add: sees_Cons eval_nat_numeral del: of_nat_add)
  then have pid: "readInt (m, 2) = Some (uint packetid, (m, 4))"
    using readInt_sees [of m 2 "uint packetid"] uint_lt2p [of packetid] by simp
  have "readChar (m, 0) = Some (b, (m, Suc 0))" using s by (simp add: readChar_def mem_get_def sees_Cons)
  moreover have "4 \<le> length m" by (simp add: m)
  moreover have nn: "Suc (Suc (nat (int (length qs) + 2))) = length qs + 4" by (simp add: nat_add_distrib)
  ultimately show ?thesis
    unfolding m [symmetric]
    using suback_loop_sees [OF at refl, of "out\<lparr>s_packetid := packetid, s_count := 0\<rparr>" maxcount] assms dec pid
    by (simp add: MQTTDeserialize_suback_def Let_def numeral_2_eq_2 [symmetric] algebra_simps nn)
qed

text \<open>
  UNSUBACK. The serializer checks for two bytes of space and writes four: a buffer of exactly
  two or three bytes is overrun. The deserializer reports success for every packet whose type is
  UNSUBACK, even one too short to hold a packet identifier, which then keeps its old value.
\<close>

lemma MQTT_unsuback_cases:
  "MQTTSerialize_unsuback buf (int (length buf)) packetid =
     (if length buf < 2 then Some (MQTTPACKET_BUFFER_TOO_SHORT, buf)
      else if length buf < 4 then None
      else Some (4, [0xB0, 2] @ be16 (uint packetid) @ drop 4 buf)) \<and>
   MQTTDeserialize_unsuback old ([0xB0, 2] @ be16 (uint packetid) @ rest) len = Some (1, packetid) \<and>
   MQTTDeserialize_unsuback old ([0xB0, 1, x] @ rest) len = Some (1, old)"
proof (intro conjI)
  have f: "header_byte (MQTTHeader_zero\<lparr>h_type := 11\<rparr>) = 0xB0"
    by (simp add: header_byte_def MQTTHeader_zero_def)
  consider "length buf < 2" | "length buf = 2" | "length buf = 3"
    | b0 b1 b2 b3 r where "buf = b0 # b1 # b2 # b3 # r"
    by (cases buf rule: remdups_adj.cases; cases "tl (tl buf)" rule: remdups_adj.cases) auto
  then show "MQTTSerialize_unsuback buf (int (length buf)) packetid =
     (if length buf < 2 then Some (MQTTPACKET_BUFFER_TOO_SHORT, buf)
      else if length buf < 4 then None
      else Some (4, [0xB0, 2] @ be16 (uint packetid) @ drop 4 buf))"
    by cases (simp_all add: MQTTSerialize_unsuback_def f write_rem_len_emit writeChar_emit writeInt_emit
        enc_bytes.simps emit_def mem_write_def overwrite_def be16_def)
  have b: "header_byte \<lparr>h_retain = 0, h_qos = 0, h_dup = 0, h_type = 11\<rparr> = 0xB0"
    by (simp add: header_byte_def)
  have "sees ([0xB0, 2] @ be16 (uint packetid) @ rest, 0)
      (mqtt_packet \<lparr>h_retain = 0, h_qos = 0, h_dup = 0, h_type = 11\<rparr> (be16 (uint packetid)))"
    by (simp add: mqtt_packet_def b enc_bytes.simps sees_def be16_def)
  from MQTTDeserialize_ack_sees [OF this]
  show "MQTTDeserialize_unsuback old ([0xB0, 2] @ be16 (uint packetid) @ rest) len = Some (1, packetid)"
    by (simp add: MQTTDeserialize_unsuback_def)
  show "MQTTDeserialize_unsuback old ([0xB0, 1, x] @ rest) len = Some (1, old)"
    by (simp add: MQTTDeserialize_unsuback_def MQTTDeserialize_ack_def readChar_def mem_get_def byte_header_def
        MQTTPacket_decodeBuf_def MQTTPacket_decode_def MQTTPacket_decode_loop.simps bufchar_def mem_read_def Let_def)
qed

end
