(* ===== verification/Kstring.thy ===== *)
theory Kstring
  imports Prelude
begin

text \<open>
  The memory and string functions of \<open>rt-thread/src/kservice.c\<close>, in the variant built without
  \<open>RT_USING_TINY_SIZE\<close>: \<open>rt_memset\<close> and \<open>rt_memcpy\<close> work on aligned 32-bit words. A pointer is an offset
  into a memory area whose first cell has the address \<open>base\<close>. Every function is shown equal to what
  it is meant to compute; the word loops, the overlapping moves and the comparison through a
  \<open>signed char\<close> are kept as they are in the code.
\<close>

subsection \<open>Memory functions\<close>

text \<open>Values of 16 and 32 bits in memory, little-endian; a 32-bit store and a 32-bit load.\<close>

definition half_bytes :: "u16 \<Rightarrow> u8 list" where
  "half_bytes w = [ucast w, ucast (drop_bit 8 w)]"

definition bytes_half :: "u8 list \<Rightarrow> u16" where
  "bytes_half bs = ucast (bs ! 0) OR push_bit 8 (ucast (bs ! 1))"

definition word_bytes :: "u32 \<Rightarrow> u8 list" where
  "word_bytes w = [ucast w, ucast (drop_bit 8 w), ucast (drop_bit 16 w), ucast (drop_bit 24 w)]"

definition bytes_word :: "u8 list \<Rightarrow> u32" where
  "bytes_word bs = ucast (bs ! 0) OR push_bit 8 (ucast (bs ! 1)) OR
     push_bit 16 (ucast (bs ! 2)) OR push_bit 24 (ucast (bs ! 3))"

definition store_word :: "u8 list \<Rightarrow> nat \<Rightarrow> u32 \<Rightarrow> u8 list option" where
  "store_word m p w = mem_write m p (word_bytes w)"

definition load_word :: "u8 list \<Rightarrow> nat \<Rightarrow> u32 option" where
  "load_word m p = map_option bytes_word (mem_read m p 4)"

fun memset_big :: "u8 list \<Rightarrow> nat \<Rightarrow> u32 \<Rightarrow> nat \<Rightarrow> (u8 list \<times> nat \<times> nat) option" where
  "memset_big m p buffer count =
     (if count \<ge> 16 then do {
        m \<leftarrow> store_word m p buffer;
        m \<leftarrow> store_word m (p + 4) buffer;
        m \<leftarrow> store_word m (p + 8) buffer;
        m \<leftarrow> store_word m (p + 12) buffer;
        memset_big m (p + 16) buffer (count - 16) }
      else Some (m, p, count))"

fun memset_words :: "u8 list \<Rightarrow> nat \<Rightarrow> u32 \<Rightarrow> nat \<Rightarrow> (u8 list \<times> nat \<times> nat) option" where
  "memset_words m p buffer count =
     (if count \<ge> 4 then do {
        m \<leftarrow> store_word m p buffer;
        memset_words m (p + 4) buffer (count - 4) }
      else Some (m, p, count))"

fun memset_bytes :: "u8 list \<Rightarrow> nat \<Rightarrow> u8 \<Rightarrow> nat \<Rightarrow> u8 list option" where
  "memset_bytes m p d 0 = Some m"
| "memset_bytes m p d (Suc count) = do { m \<leftarrow> mem_set m p d; memset_bytes m (p + 1) d count }"

declare memset_big.simps [simp del] memset_words.simps [simp del]

definition rt_memset :: "nat \<Rightarrow> u8 list \<Rightarrow> nat \<Rightarrow> u32 \<Rightarrow> nat \<Rightarrow> u8 list option" where
  "rt_memset base m s c count = do {
     let d = c AND 0xFF;
     (m, p, count) \<leftarrow>
       (if \<not> count < 4 \<and> (base + s) mod 4 = 0 then do {
          let buffer = push_bit 8 d OR d;
          let buffer = buffer OR push_bit 16 buffer;
          (m, p, count) \<leftarrow> memset_big m s buffer count;
          memset_words m p buffer count }
        else Some (m, s, count));
     memset_bytes m p (ucast d) count }"

text \<open>\<open>rt_memcpy\<close> between two areas; the length is an \<open>int\<close>, so it is kept below 2 to the 31 here.\<close>

definition copy_word :: "u8 list \<Rightarrow> nat \<Rightarrow> u8 list \<Rightarrow> nat \<Rightarrow> u8 list option" where
  "copy_word dst d src s = do { w \<leftarrow> load_word src s; store_word dst d w }"

fun memcpy_big :: "u8 list \<Rightarrow> nat \<Rightarrow> u8 list \<Rightarrow> nat \<Rightarrow> nat \<Rightarrow> (u8 list \<times> nat \<times> nat \<times> nat) option" where
  "memcpy_big dst d src s len =
     (if len \<ge> 16 then do {
        dst \<leftarrow> copy_word dst d src s;
        dst \<leftarrow> copy_word dst (d + 4) src (s + 4);
        dst \<leftarrow> copy_word dst (d + 8) src (s + 8);
        dst \<leftarrow> copy_word dst (d + 12) src (s + 12);
        memcpy_big dst (d + 16) src (s + 16) (len - 16) }
      else Some (dst, d, s, len))"

fun memcpy_words :: "u8 list \<Rightarrow> nat \<Rightarrow> u8 list \<Rightarrow> nat \<Rightarrow> nat \<Rightarrow> (u8 list \<times> nat \<times> nat \<times> nat) option" where
  "memcpy_words dst d src s len =
     (if len \<ge> 4 then do {
        dst \<leftarrow> copy_word dst d src s;
        memcpy_words dst (d + 4) src (s + 4) (len - 4) }
      else Some (dst, d, s, len))"

fun memcpy_bytes :: "u8 list \<Rightarrow> nat \<Rightarrow> u8 list \<Rightarrow> nat \<Rightarrow> nat \<Rightarrow> u8 list option" where
  "memcpy_bytes dst d src s 0 = Some dst"
| "memcpy_bytes dst d src s (Suc len) = do {
     b \<leftarrow> mem_get src s;
     dst \<leftarrow> mem_set dst d b;
     memcpy_bytes dst (d + 1) src (s + 1) len }"

declare memcpy_big.simps [simp del] memcpy_words.simps [simp del]

definition rt_memcpy :: "nat \<Rightarrow> nat \<Rightarrow> u8 list \<Rightarrow> nat \<Rightarrow> u8 list \<Rightarrow> nat \<Rightarrow> nat \<Rightarrow> u8 list option" where
  "rt_memcpy dbase sbase dst d src s count = do {
     (dst, d, s, len) \<leftarrow>
       (if \<not> count < 16 \<and> (dbase + d) mod 4 = 0 \<and> (sbase + s) mod 4 = 0 then do {
          (dst, d, s, len) \<leftarrow> memcpy_big dst d src s count;
          memcpy_words dst d src s len }
        else Some (dst, d, s, count));
     memcpy_bytes dst d src s len }"

text \<open>\<open>rt_memmove\<close> inside one area: backwards when the destination overlaps the source from above.\<close>

fun memmove_down :: "u8 list \<Rightarrow> nat \<Rightarrow> nat \<Rightarrow> nat \<Rightarrow> u8 list option" where
  "memmove_down m tmp s 0 = Some m"
| "memmove_down m tmp s (Suc n) = do {
     b \<leftarrow> mem_get m (s - 1);
     m \<leftarrow> mem_set m (tmp - 1) b;
     memmove_down m (tmp - 1) (s - 1) n }"

fun memmove_up :: "u8 list \<Rightarrow> nat \<Rightarrow> nat \<Rightarrow> nat \<Rightarrow> u8 list option" where
  "memmove_up m tmp s 0 = Some m"
| "memmove_up m tmp s (Suc n) = do {
     b \<leftarrow> mem_get m s;
     m \<leftarrow> mem_set m tmp b;
     memmove_up m (tmp + 1) (s + 1) n }"

definition rt_memmove :: "u8 list \<Rightarrow> nat \<Rightarrow> nat \<Rightarrow> nat \<Rightarrow> u8 list option" where
  "rt_memmove m dest src n =
     (if src < dest \<and> dest < src + n then memmove_down m (dest + n) (src + n) n
      else memmove_up m dest src n)"

fun rt_memcmp :: "u8 list \<Rightarrow> u8 list \<Rightarrow> nat \<Rightarrow> int option" where
  "rt_memcmp cs ct 0 = Some 0"
| "rt_memcmp (a # cs) (b # ct) (Suc count) =
     (let res = uint a - uint b in if res \<noteq> 0 then Some res else rt_memcmp cs ct count)"
| "rt_memcmp _ _ (Suc count) = None"

subsection \<open>String functions\<close>

text \<open>A string argument is the memory from the pointer on.\<close>

fun rt_strlen :: "u8 list \<Rightarrow> nat option" where
  "rt_strlen (c # s) = (if c \<noteq> 0 then map_option Suc (rt_strlen s) else Some 0)"
| "rt_strlen [] = None"

fun rt_strnlen :: "u8 list \<Rightarrow> nat \<Rightarrow> nat option" where
  "rt_strnlen (c # s) maxlen =
     (if c \<noteq> 0 \<and> 0 < maxlen then map_option Suc (rt_strnlen s (maxlen - 1)) else Some 0)"
| "rt_strnlen [] maxlen = None"

text \<open>The result is the offset of the occurrence in \<open>s1\<close>, or \<open>None\<close> for \<open>RT_NULL\<close>.\<close>

text \<open>The guard on \<open>l2\<close> is the early return of \<open>rt_strstr\<close>.\<close>

fun strstr_loop :: "u8 list \<Rightarrow> u8 list \<Rightarrow> nat \<Rightarrow> nat \<Rightarrow> nat \<Rightarrow> nat option option" where
  "strstr_loop s1 s2 l2 l1 at =
     (if l1 \<ge> l2 \<and> 0 < l2 then do {
        r \<leftarrow> rt_memcmp s1 s2 l2;
        if r = 0 then Some (Some at)
        else strstr_loop (tl s1) s2 l2 (l1 - 1) (at + 1) }
      else Some None)"

declare strstr_loop.simps [simp del]

definition rt_strstr :: "u8 list \<Rightarrow> u8 list \<Rightarrow> nat option option" where
  "rt_strstr s1 s2 = do {
     l2 \<leftarrow> rt_strlen s2;
     if l2 = 0 then Some (Some 0)
     else do {
       l1 \<leftarrow> rt_strlen s1;
       strstr_loop s1 s2 l2 l1 0 } }"

definition fold_case :: "u8 \<Rightarrow> int" where
  "fold_case c = (let ca = uint c in if 65 \<le> ca \<and> ca \<le> 90 then ca + 32 else ca)"

fun rt_strcasecmp :: "u8 list \<Rightarrow> u8 list \<Rightarrow> u32 option" where
  "rt_strcasecmp (a # as) (b # bs) =
     (let ca = fold_case a; cb = fold_case b in
      if ca = cb \<and> ca \<noteq> 0 then rt_strcasecmp as bs else Some (word_of_int (ca - cb)))"
| "rt_strcasecmp _ _ = None"

fun strncpy_pad :: "u8 list \<Rightarrow> nat \<Rightarrow> nat \<Rightarrow> u8 list option" where
  "strncpy_pad dst d 0 = Some dst"
| "strncpy_pad dst d (Suc n) = do { dst \<leftarrow> mem_set dst d 0; strncpy_pad dst (d + 1) n }"

fun strncpy_loop :: "u8 list \<Rightarrow> nat \<Rightarrow> u8 list \<Rightarrow> nat \<Rightarrow> u8 list option" where
  "strncpy_loop dst d src 0 = Some dst"
| "strncpy_loop dst d (c # src) (Suc n) = do {
     dst \<leftarrow> mem_set dst d c;
     if c = 0 then strncpy_pad dst (d + 1) n else strncpy_loop dst (d + 1) src n }"
| "strncpy_loop dst d [] (Suc n) = None"

definition rt_strncpy :: "u8 list \<Rightarrow> u8 list \<Rightarrow> nat \<Rightarrow> u8 list option" where
  "rt_strncpy dst src n = strncpy_loop dst 0 src n"

text \<open>The difference is truncated to a \<open>signed char\<close> before it is tested.\<close>

fun strncmp_loop :: "u8 list \<Rightarrow> u8 list \<Rightarrow> nat \<Rightarrow> u8 \<Rightarrow> u8 option" where
  "strncmp_loop cs ct 0 res = Some res"
| "strncmp_loop (a # cs) (b # ct) (Suc count) res =
     (let res = a - b in if res \<noteq> 0 \<or> a = 0 then Some res else strncmp_loop cs ct count res)"
| "strncmp_loop _ _ (Suc count) res = None"

definition rt_strncmp :: "u8 list \<Rightarrow> u8 list \<Rightarrow> nat \<Rightarrow> int option" where
  "rt_strncmp cs ct count = map_option sint (strncmp_loop cs ct count 0)"

fun rt_strcmp :: "u8 list \<Rightarrow> u8 list \<Rightarrow> int option" where
  "rt_strcmp (a # cs) (b # ct) =
     (if a \<noteq> 0 \<and> a = b then rt_strcmp cs ct else Some (uint a - uint b))"
| "rt_strcmp _ _ = None"

subsection \<open>The word loops\<close>

lemma mem_write_None: "\<not> i + length bs \<le> length m \<Longrightarrow> mem_write m i bs = None"
  by (simp add: mem_write_def)

lemma mem_write_step:
  "do { m \<leftarrow> mem_write m p a; m \<leftarrow> mem_write m (p + length a) b; k m } = do { m \<leftarrow> mem_write m p (a @ b); k m }"
  by (simp add: mem_write_append)

lemma memset_words_eq:
  assumes "word_bytes buffer = replicate 4 d" and "p \<le> length m"
  shows "memset_words m p buffer n = do {
    m \<leftarrow> mem_write m p (replicate (4 * (n div 4)) d); Some (m, p + 4 * (n div 4), n mod 4) }"
  using assms(2)
proof (induction n arbitrary: m p rule: less_induct)
  case (less n)
  show ?case
  proof (cases "n \<ge> 4")
    case True
    then obtain k where k: "n = k + 4" by (metis le_add_diff_inverse2)
    have r: "replicate (4 * (n div 4)) d = replicate 4 d @ replicate (4 * (k div 4)) d"
      by (simp add: k replicate_add [symmetric] div_add_self2)
    show ?thesis
      by (subst memset_words.simps, subst r, subst mem_write_append)
        (use less.IH [of k] assms(1) in \<open>auto simp: k store_word_def mem_write_def div_add_self2\<close>)
  next
    case False
    then show ?thesis using less.prems by (simp add: memset_words.simps)
  qed
qed

lemma memset_big_eq:
  assumes "word_bytes buffer = replicate 4 d" and "p \<le> length m"
  shows "memset_big m p buffer n = do {
    m \<leftarrow> mem_write m p (replicate (16 * (n div 16)) d); Some (m, p + 16 * (n div 16), n mod 16) }"
  using assms(2)
proof (induction n arbitrary: m p rule: less_induct)
  case (less n)
  show ?case
  proof (cases "n \<ge> 16")
    case True
    then obtain k where k: "n = k + 16" by (metis le_add_diff_inverse2)
    have r: "replicate (16 * (n div 16)) d = replicate 16 d @ replicate (16 * (k div 16)) d"
      by (simp add: k replicate_add [symmetric] div_add_self2)
    have s: "do { m \<leftarrow> store_word m p buffer; m \<leftarrow> store_word m (p + 4) buffer;
        m \<leftarrow> store_word m (p + 8) buffer; m \<leftarrow> store_word m (p + 12) buffer; f m }
      = do { m \<leftarrow> mem_write m p (replicate 16 d); f m }" for f :: "u8 list \<Rightarrow> (u8 list \<times> nat \<times> nat) option"
      using mem_write_step [of m p "replicate 12 d" "replicate 4 d" f]
        mem_write_step [of m p "replicate 8 d" "replicate 4 d" "\<lambda>m. do { m \<leftarrow> mem_write m (p + 12) (replicate 4 d); f m }"]
        mem_write_step [of m p "replicate 4 d" "replicate 4 d" "\<lambda>m. do { m \<leftarrow> mem_write m (p + 8) (replicate 4 d);
            m \<leftarrow> mem_write m (p + 12) (replicate 4 d); f m }"]
      by (simp only: store_word_def assms(1) replicate_add [symmetric] length_replicate) simp
    show ?thesis
      by (subst memset_big.simps, subst r, subst mem_write_append)
        (use less.IH [of k] s in \<open>auto simp: k mem_write_def div_add_self2\<close>)
  next
    case False
    then show ?thesis using less.prems by (simp add: memset_big.simps)
  qed
qed

lemma memset_bytes_eq: "p \<le> length m \<Longrightarrow> memset_bytes m p d n = mem_write m p (replicate n d)"
proof (induction n arbitrary: m p)
  case (Suc n)
  then show ?case by (auto simp: mem_write_Cons) (auto simp: mem_set_def mem_write_def)
qed simp

lemma memset_pattern:
  fixes c :: u32
  defines "d \<equiv> c AND 0xFF" and "b \<equiv> push_bit 8 (c AND 0xFF) OR (c AND 0xFF)"
  shows "word_bytes (b OR push_bit 16 b) = replicate 4 (ucast d)"
proof -
  have m: "(0xFF :: u32) = mask 8" by (simp add: mask_eq_exp_minus_1)
  have "ucast (b OR push_bit 16 b) = (ucast d :: u8)"
    unfolding b_def d_def m by (rule bit_word_eqI) (auto simp: bit_simps)
  moreover have "ucast (drop_bit 8 (b OR push_bit 16 b)) = (ucast d :: u8)"
    unfolding b_def d_def m by (rule bit_word_eqI) (auto simp: bit_simps)
  moreover have "ucast (drop_bit 16 (b OR push_bit 16 b)) = (ucast d :: u8)"
    unfolding b_def d_def m by (rule bit_word_eqI) (auto simp: bit_simps)
  moreover have "ucast (drop_bit 24 (b OR push_bit 16 b)) = (ucast d :: u8)"
    unfolding b_def d_def m by (rule bit_word_eqI) (auto simp: bit_simps)
  moreover have "replicate 4 x = [x, x, x, x]" for x :: u8 by (simp add: numeral_eq_Suc)
  ultimately show ?thesis unfolding word_bytes_def by simp
qed

lemma rt_memset_write:
  assumes "s \<le> length m"
  shows "rt_memset base m s c n = mem_write m s (replicate n (ucast c))"
proof -
  let ?d = "ucast (c AND 0xFF) :: u8"
  have mk: "(0xFF :: u32) = mask 8" by (simp add: mask_eq_exp_minus_1)
  have d: "?d = ucast c" unfolding mk by (rule bit_word_eqI) (auto simp: bit_simps)
  show ?thesis
  proof (cases "\<not> n < 4 \<and> (base + s) mod 4 = 0")
    case False
    show ?thesis
      unfolding rt_memset_def Let_def if_not_P [OF False] d using assms by (simp add: memset_bytes_eq)
  next
    case True
    let ?a = "16 * (n div 16)" and ?b = "4 * (n mod 16 div 4)" and ?c = "n mod 16 mod 4"
    have n: "replicate n ?d = (replicate ?a ?d @ replicate ?b ?d) @ replicate ?c ?d"
      by (simp add: replicate_add [symmetric])
    obtain B where B: "B = (push_bit 8 (c AND 0xFF) OR (c AND 0xFF)) OR
        push_bit 16 (push_bit 8 (c AND 0xFF) OR (c AND 0xFF))" by simp
    have w: "word_bytes B = replicate 4 ?d" unfolding B by (rule memset_pattern)
    show ?thesis
      unfolding rt_memset_def Let_def if_P [OF True] B [symmetric] d [symmetric] n mem_write_append
      using assms
      by (auto simp: memset_big_eq [OF w] memset_words_eq [OF w] memset_bytes_eq mem_write_def add.assoc)
  qed
qed

lemma bytes_half_bytes [simp]: "bytes_half (half_bytes w @ r) = w"
proof -
  have m: "(ucast (ucast w :: u8) :: u16) = w AND mask 8"
    by (rule bit_word_eqI) (auto simp: bit_simps)
  show ?thesis unfolding bytes_half_def half_bytes_def
    by (rule bit_word_eqI) (auto simp: bit_simps dest: bit_imp_le_length)
qed

lemma bytes_word_bytes [simp]: "bytes_word (word_bytes w @ r) = w"
  unfolding bytes_word_def word_bytes_def
  apply (rule bit_word_eqI)
  subgoal for n by (cases "n < 24"; cases "n < 16") (auto simp: bit_simps dest: bit_imp_le_length)
  done

lemma word_bytes_word: "length bs = 4 \<Longrightarrow> word_bytes (bytes_word bs) = bs"
proof -
  assume "length bs = 4"
  then obtain a b c d where bs: "bs = [a, b, c, d]"
    by (auto simp: length_Suc_conv numeral_eq_Suc)
  have "ucast (bytes_word bs) = a"
    unfolding bytes_word_def bs by (rule bit_word_eqI) (auto simp: bit_simps dest: bit_imp_le_length)
  moreover have "ucast (drop_bit 8 (bytes_word bs)) = b"
    unfolding bytes_word_def bs by (rule bit_word_eqI) (auto simp: bit_simps dest: bit_imp_le_length)
  moreover have "ucast (drop_bit 16 (bytes_word bs)) = c"
    unfolding bytes_word_def bs by (rule bit_word_eqI) (auto simp: bit_simps dest: bit_imp_le_length)
  moreover have "ucast (drop_bit 24 (bytes_word bs)) = d"
    unfolding bytes_word_def bs by (rule bit_word_eqI) (auto simp: bit_simps dest: bit_imp_le_length)
  ultimately show ?thesis by (simp add: word_bytes_def bs)
qed

lemma copy_word_eq: "copy_word dst d src s = mem_copy dst d src s 4"
  by (auto simp: copy_word_def load_word_def store_word_def mem_copy_def mem_read_def word_bytes_word)

lemma mem_copy_add:
  "mem_copy dst d src s (a + b) = do { dst \<leftarrow> mem_copy dst d src s a; mem_copy dst (d + a) src (s + a) b }"
  by (auto simp: mem_copy_def mem_read_def mem_write_append take_add ac_simps)

lemma mem_copy_bound:
  "mem_copy dst d src s n = Some dst' \<Longrightarrow> d + n \<le> length dst' \<and> s + n \<le> length src \<and> length dst' = length dst"
  by (auto simp: mem_copy_def mem_read_def mem_write_def split: if_splits)

lemma memcpy_words_eq:
  assumes "d \<le> length dst" and "s \<le> length src"
  shows "memcpy_words dst d src s n = do {
    dst \<leftarrow> mem_copy dst d src s (4 * (n div 4)); Some (dst, d + 4 * (n div 4), s + 4 * (n div 4), n mod 4) }"
  using assms
proof (induction n arbitrary: dst d s rule: less_induct)
  case (less n)
  show ?case
  proof (cases "n \<ge> 4")
    case True
    then obtain k where k: "n = 4 + k" by (metis le_add_diff_inverse)
    have r: "4 * (n div 4) = 4 + 4 * (k div 4)" by (simp add: k div_add_self1)
    have "memcpy_words dst d src s n =
        do { dst \<leftarrow> mem_copy dst d src s 4; memcpy_words dst (d + 4) src (s + 4) k }"
      by (subst memcpy_words.simps) (simp add: k copy_word_eq)
    then show ?thesis
      unfolding r mem_copy_add
      by (cases "mem_copy dst d src s 4") (use less.IH [of k] in \<open>auto simp: k add.assoc dest!: mem_copy_bound\<close>)
  next
    case False
    then show ?thesis using less.prems by (simp add: memcpy_words.simps mem_copy_Some)
  qed
qed

lemma memcpy_big_eq:
  assumes "d \<le> length dst" and "s \<le> length src"
  shows "memcpy_big dst d src s n = do {
    dst \<leftarrow> mem_copy dst d src s (16 * (n div 16)); Some (dst, d + 16 * (n div 16), s + 16 * (n div 16), n mod 16) }"
  using assms
proof (induction n arbitrary: dst d s rule: less_induct)
  case (less n)
  show ?case
  proof (cases "n \<ge> 16")
    case True
    then obtain k where k: "n = 16 + k" by (metis le_add_diff_inverse)
    have r: "16 * (n div 16) = 16 + 16 * (k div 16)" by (simp add: k div_add_self1)
    have "memcpy_big dst d src s n =
        do { dst \<leftarrow> mem_copy dst d src s 16; memcpy_big dst (d + 16) src (s + 16) k }"
      by (subst memcpy_big.simps)
        (simp add: k copy_word_eq add.assoc mem_copy_add [where a = 4 and b = 12, simplified]
          mem_copy_add [where a = 4 and b = 8, simplified] mem_copy_add [where a = 4 and b = 4, simplified])
    then show ?thesis
      unfolding r mem_copy_add
      by (cases "mem_copy dst d src s 16") (use less.IH [of k] in \<open>auto simp: k add.assoc dest!: mem_copy_bound\<close>)
  next
    case False
    then show ?thesis using less.prems by (simp add: memcpy_big.simps mem_copy_Some)
  qed
qed

lemma memcpy_bytes_eq:
  "d \<le> length dst \<Longrightarrow> s \<le> length src \<Longrightarrow> memcpy_bytes dst d src s n = mem_copy dst d src s n"
proof (induction n arbitrary: dst d s)
  case 0
  then show ?case by (simp add: mem_copy_Some)
next
  case (Suc n)
  have one: "mem_copy dst d src s (Suc 0) = do { b \<leftarrow> mem_get src s; mem_set dst d b }"
    by (auto simp: mem_copy_def mem_read_def mem_get_def mem_set_overwrite take_Suc_conv_app_nth
        Cons_nth_drop_Suc [symmetric])
  show ?case
    using mem_copy_add [of dst d src s 1 n] Suc.IH
    by (auto simp: one mem_get_def mem_set_def)
qed

lemma rt_memcpy_copy:
  assumes "d \<le> length dst" and "s \<le> length src"
  shows "rt_memcpy dbase sbase dst d src s n = mem_copy dst d src s n"
proof (cases "\<not> n < 16 \<and> (dbase + d) mod 4 = 0 \<and> (sbase + s) mod 4 = 0")
  case False
  show ?thesis unfolding rt_memcpy_def if_not_P [OF False] using assms by (simp add: memcpy_bytes_eq)
next
  case True
  have n: "n = 16 * (n div 16) + (4 * (n mod 16 div 4) + n mod 16 mod 4)" by simp
  have "mem_copy dst d src s n = mem_copy dst d src s (16 * (n div 16) + (4 * (n mod 16 div 4) + n mod 16 mod 4))"
    using n by simp
  then have e: "mem_copy dst d src s n = do {
      dst \<leftarrow> mem_copy dst d src s (16 * (n div 16));
      dst \<leftarrow> mem_copy dst (d + 16 * (n div 16)) src (s + 16 * (n div 16)) (4 * (n mod 16 div 4));
      mem_copy dst (d + 16 * (n div 16) + 4 * (n mod 16 div 4)) src
        (s + 16 * (n div 16) + 4 * (n mod 16 div 4)) (n mod 16 mod 4) }"
    unfolding mem_copy_add .
  note run = rt_memcpy_def if_P [OF True] memcpy_big_eq [OF assms] e
  show ?thesis
  proof (cases "mem_copy dst d src s (16 * (n div 16))")
    case None
    then show ?thesis unfolding run by simp
  next
    case (Some dst1)
    note b = mem_copy_bound [OF Some]
    show ?thesis
    proof (cases "mem_copy dst1 (d + 16 * (n div 16)) src (s + 16 * (n div 16)) (4 * (n mod 16 div 4))")
      case None
      then show ?thesis unfolding run using Some b by (simp add: memcpy_words_eq)
    next
      case (Some dst2)
      with \<open>mem_copy dst d src s (16 * (n div 16)) = Some dst1\<close> b mem_copy_bound [OF Some]
      show ?thesis unfolding run by (simp add: memcpy_words_eq memcpy_bytes_eq)
    qed
  qed
qed

lemma memmove_up_eq:
  assumes "dest + n \<le> length m" and "src + n \<le> length m" and "dest \<le> src \<or> src + n \<le> dest"
  shows "memmove_up m dest src n = Some (overwrite m dest (take n (drop src m)))"
  using assms
proof (induction n arbitrary: m dest src)
  case (Suc n)
  let ?m = "m[dest := m ! src]"
  have "memmove_up ?m (Suc dest) (Suc src) n = Some (overwrite ?m (Suc dest) (take n (drop (Suc src) ?m)))"
    using Suc.prems by (intro Suc.IH) auto
  moreover have "overwrite ?m (Suc dest) (take n (drop (Suc src) ?m)) = overwrite m dest (take (Suc n) (drop src m))"
    using Suc.prems
    by (intro nth_equalityI) (auto simp: nth_overwrite nth_list_update Suc_diff_Suc)
  ultimately show ?case using Suc.prems by (simp add: mem_get_def mem_set_def)
qed simp

lemma memmove_down_eq:
  assumes "dest + n \<le> length m" and "src < dest"
  shows "memmove_down m (dest + n) (src + n) n = Some (overwrite m dest (take n (drop src m)))"
  using assms
proof (induction n arbitrary: m)
  case (Suc n)
  let ?m = "m[dest + n := m ! (src + n)]"
  have "memmove_down ?m (dest + n) (src + n) n = Some (overwrite ?m dest (take n (drop src ?m)))"
    using Suc.prems by (intro Suc.IH) auto
  moreover have "overwrite ?m dest (take n (drop src ?m)) = overwrite m dest (take (Suc n) (drop src m))"
    using Suc.prems
    by (intro nth_equalityI) (auto simp: nth_overwrite nth_list_update take_Suc_conv_app_nth nth_append)
  ultimately show ?case using Suc.prems by (simp add: mem_get_def mem_set_def)
qed simp

text \<open>
  \<open>rt_memset\<close>, with its word-wide inner loops, fills exactly the \<open>n\<close> bytes it is asked to fill with
  the low byte of \<open>c\<close>, whatever the alignment of the address, and leaves the memory area exactly
  when the plain byte loop would.
\<close>

lemma rt_memset_fills:
  assumes "s \<le> length m"
  shows "rt_memset base m s c n = mem_write m s (replicate n (ucast c))"
  by (rule rt_memset_write [OF assms])

text \<open>
  \<open>rt_memcpy\<close> copies exactly \<open>n\<close> bytes between two areas for every alignment of the two
  pointers, and \<open>rt_memmove\<close> moves \<open>n\<close> bytes inside one area correctly for every overlap.
\<close>

lemma rt_memcpy_memmove:
  assumes "d + n \<le> length dst" and "s + n \<le> length src" and "dest + k \<le> length m" and "from + k \<le> length m"
  shows "rt_memcpy dbase sbase dst d src s n = Some (overwrite dst d (take n (drop s src))) \<and>
    rt_memmove m dest from k = Some (overwrite m dest (take k (drop from m)))"
  using assms rt_memcpy_copy [of d dst s src dbase sbase n]
    memmove_up_eq [of dest k m "from"] memmove_down_eq [of dest k m "from"]
  by (auto simp: mem_copy_Some rt_memmove_def)

subsection \<open>Strings\<close>

lemma rt_strlen_eq: "rt_strlen s = c_strlen s"
  by (induction s) (auto simp: c_strlen_def c_str_def)

lemma rt_strcmp_eq: "rt_strcmp a b = c_strcmp a b"
  by (induction a b rule: rt_strcmp.induct) auto

lemma rt_memcmp_eq: "rt_memcmp a b n = c_memcmp a b n"
  by (induction a b n rule: rt_memcmp.induct) (auto simp: Let_def dest: unsigned_word_eqI)

lemma rt_strnlen_eq: "0 \<in> set s \<or> n < length s \<Longrightarrow> rt_strnlen s n = Some (min n (length (takeWhile (\<lambda>c. c \<noteq> 0) s)))"
proof (induction s arbitrary: n)
  case (Cons c s)
  then show ?case by (cases n) (auto simp: min_def)
qed simp

definition occurs_at :: "u8 list \<Rightarrow> u8 list \<Rightarrow> nat \<Rightarrow> bool" where
  "occurs_at a b i \<longleftrightarrow> take (length b) (drop i a) = b"

lemma c_memcmp_prefix:
  "length b \<le> length a \<Longrightarrow> \<exists>r. c_memcmp (a @ x) (b @ y) (length b) = Some r \<and> (r = 0 \<longleftrightarrow> take (length b) a = b)"
proof (induction b arbitrary: a)
  case (Cons c b)
  then obtain d a' where "a = d # a'" by (cases a) auto
  with Cons show ?case by (auto dest: unsigned_word_eqI)
qed simp

lemma strstr_loop_eq:
  assumes "b \<noteq> []"
  shows "\<exists>r. strstr_loop (a @ x) (b @ y) (length b) (length a) at = Some r \<and>
    (case r of None \<Rightarrow> (\<forall>i. \<not> occurs_at a b i)
     | Some k \<Rightarrow> at \<le> k \<and> occurs_at a b (k - at) \<and> (\<forall>j<k - at. \<not> occurs_at a b j))"
proof (induction a arbitrary: "at")
  case Nil
  show ?case using assms
    by (subst strstr_loop.simps) (auto simp: occurs_at_def)
next
  case (Cons c a)
  show ?case
  proof (cases "length b \<le> length (c # a)")
    case False
    then have "\<not> occurs_at (c # a) b i" for i
      by (auto simp: occurs_at_def dest!: arg_cong [where f = length])
    with False show ?thesis by (subst strstr_loop.simps) simp
  next
    case True
    then obtain r where r: "c_memcmp ((c # a) @ x) (b @ y) (length b) = Some r" "r = 0 \<longleftrightarrow> occurs_at (c # a) b 0"
      using c_memcmp_prefix [of b "c # a" x y] by (auto simp: occurs_at_def)
    show ?thesis
    proof (cases "r = 0")
      case True
      with r \<open>length b \<le> length (c # a)\<close> assms show ?thesis
        by (subst strstr_loop.simps) (simp add: rt_memcmp_eq)
    next
      case False
      have step: "strstr_loop ((c # a) @ x) (b @ y) (length b) (length (c # a)) at =
          strstr_loop (a @ x) (b @ y) (length b) (length a) (at + 1)"
        using r False \<open>length b \<le> length (c # a)\<close> assms by (subst strstr_loop.simps) (simp add: rt_memcmp_eq)
      have shift: "occurs_at (c # a) b (Suc i) = occurs_at a b i" for i by (simp add: occurs_at_def)
      have z: "\<not> occurs_at (c # a) b 0" using r(2) False by simp
      from Cons.IH [of "at + 1"] obtain q where
        q: "strstr_loop (a @ x) (b @ y) (length b) (length a) (at + 1) = Some q"
          "case q of None \<Rightarrow> (\<forall>i. \<not> occurs_at a b i)
           | Some k \<Rightarrow> at + 1 \<le> k \<and> occurs_at a b (k - (at + 1)) \<and> (\<forall>j<k - (at + 1). \<not> occurs_at a b j)"
        by auto
      show ?thesis
      proof (cases q)
        case None
        then have "\<not> occurs_at (c # a) b i" for i using q(2) z shift by (cases i) auto
        with None q(1) step show ?thesis by simp
      next
        case (Some k)
        then obtain i where i: "k = at + 1 + i" using q(2) by (auto simp: le_iff_add)
        have "\<not> occurs_at (c # a) b j" if "j < Suc i" for j
          using that q(2) Some i z shift by (cases j) auto
        with Some q i step shift show ?thesis by simp
      qed
    qed
  qed
qed

text \<open>
  \<open>rt_strstr\<close> on two terminated strings returns the first occurrence of the second in the first,
  and \<open>RT_NULL\<close> exactly when there is none; it reads neither string beyond its terminator.
\<close>

lemma rt_strstr_first:
  assumes "0 \<notin> set a" and "0 \<notin> set b"
  shows "\<exists>r. rt_strstr (a @ 0 # x) (b @ 0 # y) = Some r \<and>
    (case r of None \<Rightarrow> (\<forall>i. \<not> occurs_at a b i)
     | Some k \<Rightarrow> occurs_at a b k \<and> (\<forall>j<k. \<not> occurs_at a b j))"
proof (cases "b = []")
  case True
  then show ?thesis by (simp add: rt_strstr_def rt_strlen_eq c_strlen_def c_str_def occurs_at_def)
next
  case False
  then show ?thesis
    using strstr_loop_eq [of b a "0 # x" "0 # y" 0] assms
    by (simp add: rt_strstr_def rt_strlen_eq c_strlen_def cong: option.case_cong)
qed

end
