(* ===== verification/Kprintf.thy ===== *)
theory Kprintf
  imports Kstring
begin

text \<open>
  The formatted output of \<open>rt-thread/src/kservice.c\<close> as it is configured here
  (\<open>RT_PRINTF_PRECISION\<close> defined, \<open>RT_PRINTF_LONGLONG\<close> and \<open>RT_PRINTF_SPECIAL\<close> not): \<open>divide\<close>,
  \<open>skip_atoi\<close>, \<open>print_number\<close>, \<open>rt_vsnprintf\<close> and its wrappers. The variable arguments are a list;
  fetching one that was not passed has no result, and neither has reading the format or a string
  past its memory or writing past the output buffer.
\<close>

subsection \<open>Output\<close>

text \<open>
  The output: the memory of the buffer, the current position \<open>str\<close> and the limit \<open>end\<close>, both relative
  to \<open>buf\<close>. \<open>if (str < end) *str = c; ++str;\<close>
\<close>

type_synonym sink = "u8 list \<times> nat \<times> nat"

definition putc :: "sink \<Rightarrow> u8 \<Rightarrow> sink option" where
  "putc st c = (case st of (m, str, e) \<Rightarrow>
     if str < e then do { m \<leftarrow> mem_set m str c; Some (m, str + 1, e) } else Some (m, str + 1, e))"

fun puts :: "sink \<Rightarrow> u8 list \<Rightarrow> sink option" where
  "puts st [] = Some st"
| "puts st (c # cs) = do { st \<leftarrow> putc st c; puts st cs }"

subsection \<open>Numbers\<close>

abbreviation (input) "ZEROPAD \<equiv> 1 :: u8"
abbreviation (input) "SIGN \<equiv> 2 :: u8"
abbreviation (input) "PLUS \<equiv> 4 :: u8"
abbreviation (input) "SPACE \<equiv> 8 :: u8"
abbreviation (input) "LEFT \<equiv> 16 :: u8"
abbreviation (input) "SPECIAL \<equiv> 32 :: u8"
abbreviation (input) "LARGE \<equiv> 64 :: u8"

definition has :: "u8 \<Rightarrow> u8 \<Rightarrow> bool" where
  "has flags f \<longleftrightarrow> flags AND f \<noteq> 0"

text \<open>The remainder and the new value of \<open>*n\<close>.\<close>

definition divide_num :: "u32 \<Rightarrow> u8 \<Rightarrow> nat \<times> u32" where
  "divide_num n base = (if base = 10 then (unat (n mod 10), n div 10) else (unat (n mod 16), n div 16))"

definition is_digit :: "u8 \<Rightarrow> bool" where
  "is_digit c \<longleftrightarrow> 48 \<le> c \<and> c \<le> 57"

fun skip_atoi_loop :: "u8 list \<Rightarrow> int \<Rightarrow> (int \<times> u8 list) option" where
  "skip_atoi_loop [] i = None"
| "skip_atoi_loop (c # s) i =
     (if is_digit c then skip_atoi_loop s (i * 10 + uint c - 48) else Some (i, c # s))"

definition skip_atoi :: "u8 list \<Rightarrow> (int \<times> u8 list) option" where
  "skip_atoi s = skip_atoi_loop s 0"

definition small_digits :: "u8 list" where
  "small_digits = map of_char ''0123456789abcdef''"

definition large_digits :: "u8 list" where
  "large_digits = map of_char ''0123456789ABCDEF''"

text \<open>
  \<open>while (num != 0) tmp[i++] = digits[divide(&num, base)]\<close>; \<open>tmp\<close> has 16 cells, of which the first \<open>i\<close>
  are used.
\<close>

lemma divide_num_less: "num \<noteq> 0 \<Longrightarrow> unat (snd (divide_num num base)) < unat num"
  by (auto simp: divide_num_def unat_div_distrib unat_eq_zero intro!: div_less_dividend gr0I)

function number_digits :: "u32 \<Rightarrow> u8 \<Rightarrow> u8 list \<Rightarrow> u8 list \<Rightarrow> u8 list option" where
  "number_digits num base digits tmp =
     (if num = 0 then Some tmp
      else if length tmp < 16 then do {
        d \<leftarrow> mem_get digits (fst (divide_num num base));
        number_digits (snd (divide_num num base)) base digits (tmp @ [d]) }
      else None)"
  by pat_completeness auto
termination
  by (relation "measure (\<lambda>(num, base, digits, tmp). unat num)") (auto simp: divide_num_less)

declare number_digits.simps [simp del]

text \<open>\<open>while (size-- > 0) { put c }\<close>, with the value \<open>size\<close> has afterwards.\<close>

definition pad :: "sink \<Rightarrow> u8 \<Rightarrow> int \<Rightarrow> (sink \<times> int) option" where
  "pad st c sz = do {
     st \<leftarrow> puts st (replicate (nat sz) c);
     Some (st, if sz > 0 then - 1 else sz - 1) }"

definition print_number :: "sink \<Rightarrow> u32 \<Rightarrow> u8 \<Rightarrow> int \<Rightarrow> int \<Rightarrow> u8 \<Rightarrow> sink option" where
  "print_number st num base s precision type = do {
     let precision_bak = precision;
     let sz = s;
     let digits = (if has type LARGE then large_digits else small_digits);
     let type = (if has type LEFT then type AND NOT ZEROPAD else type);
     let c = (if has type ZEROPAD then 48 else 32);
     let sign = (if has type SIGN
                 then (if sint num < 0 then 45 else if has type PLUS then 43 else if has type SPACE then 32 else 0)
                 else 0);
     let num = (if has type SIGN \<and> sint num < 0 then - num else num);
     tmp \<leftarrow> (if num = 0 then Some [48] else number_digits num base digits []);
     let i = int (length tmp);
     let precision = (if i > precision then i else precision);
     let sz = sz - precision;
     (st, sz) \<leftarrow> (if \<not> has type (ZEROPAD OR LEFT)
        then pad st 32 (if sign \<noteq> 0 \<and> sz > 0 then sz - 1 else sz)
        else Some (st, sz));
     (st, sz) \<leftarrow> (if sign \<noteq> 0 then do { st \<leftarrow> putc st sign; Some (st, sz - 1) } else Some (st, sz));
     (st, sz) \<leftarrow> (if \<not> has type LEFT then pad st c sz else Some (st, sz));
     st \<leftarrow> puts st (replicate (nat (precision - i)) 48);
     st \<leftarrow> (if precision_bak \<noteq> 0 then puts st (rev tmp) else Some st);
     (st, sz) \<leftarrow> pad st 32 sz;
     Some st }"

subsection \<open>The formatter\<close>

text \<open>
  A variable argument: an integer (or any value passed in a 32-bit word), or a pointer to a string,
  given by its address and the memory it points to; the null pointer points nowhere.
\<close>

datatype va = VInt u32 | VPtr u32 "u8 list"

fun va_int :: "va list \<Rightarrow> (u32 \<times> va list) option" where
  "va_int (VInt n # args) = Some (n, args)"
| "va_int (VPtr a m # args) = Some (a, args)"
| "va_int [] = None"

fun va_str :: "va list \<Rightarrow> (u8 list \<times> va list) option" where
  "va_str (VPtr a m # args) = Some (if a = 0 then lit ''(NULL)'' else m, args)"
| "va_str (VInt n # args) = (if n = 0 then Some (lit ''(NULL)'', args) else None)"
| "va_str [] = None"

text \<open>The flags behind the percent sign.\<close>

fun parse_flags :: "u8 list \<Rightarrow> u8 \<Rightarrow> (u8 \<times> u8 list) option" where
  "parse_flags [] flags = None"
| "parse_flags (f # fmt) flags =
     (if f = 45 then parse_flags fmt (flags OR LEFT)
      else if f = 43 then parse_flags fmt (flags OR PLUS)
      else if f = 32 then parse_flags fmt (flags OR SPACE)
      else if f = 35 then parse_flags fmt (flags OR SPECIAL)
      else if f = 48 then parse_flags fmt (flags OR ZEROPAD)
      else Some (flags, f # fmt))"

definition parse_width :: "u8 list \<Rightarrow> va list \<Rightarrow> u8 \<Rightarrow> (int \<times> u8 \<times> u8 list \<times> va list) option" where
  "parse_width fmt args flags = do {
     f \<leftarrow> mem_get fmt 0;
     if is_digit f then do {
       (w, fmt) \<leftarrow> skip_atoi fmt;
       Some (w, flags, fmt, args) }
     else if f = 42 then do {
       (w, args) \<leftarrow> va_int args;
       Some (if sint w < 0 then (- sint w, flags OR LEFT, tl fmt, args) else (sint w, flags, tl fmt, args)) }
     else Some (- 1, flags, fmt, args) }"

definition parse_precision :: "u8 list \<Rightarrow> va list \<Rightarrow> (int \<times> u8 list \<times> va list) option" where
  "parse_precision fmt args = do {
     f \<leftarrow> mem_get fmt 0;
     if f = 46 then do {
       let fmt = tl fmt;
       f \<leftarrow> mem_get fmt 0;
       (p, fmt, args) \<leftarrow>
         (if is_digit f then do { (p, fmt) \<leftarrow> skip_atoi fmt; Some (p, fmt, args) }
          else if f = 42 then do { (p, args) \<leftarrow> va_int args; Some (sint p, tl fmt, args) }
          else Some (- 1, fmt, args));
       Some (if p < 0 then 0 else p, fmt, args) }
     else Some (- 1, fmt, args) }"

definition parse_qualifier :: "u8 list \<Rightarrow> (u8 \<times> u8 list) option" where
  "parse_qualifier fmt = do {
     f \<leftarrow> mem_get fmt 0;
     Some (if f = 104 \<or> f = 108 then (f, tl fmt) else (0, fmt)) }"

text \<open>The conversions \<open>%c\<close> and \<open>%s\<close>. \<open>while (--field_width > 0)\<close> runs one time less than its width.\<close>

definition conv_char :: "sink \<Rightarrow> va list \<Rightarrow> u8 \<Rightarrow> int \<Rightarrow> (sink \<times> va list) option" where
  "conv_char st args flags field_width = do {
     (st, w) \<leftarrow> (if \<not> has flags LEFT
        then do { st \<leftarrow> puts st (replicate (nat (field_width - 1)) 32);
                  Some (st, if field_width > 0 then 0 else field_width - 1) }
        else Some (st, field_width));
     (n, args) \<leftarrow> va_int args;
     st \<leftarrow> putc st (ucast n);
     st \<leftarrow> puts st (replicate (nat (w - 1)) 32);
     Some (st, args) }"

definition conv_string :: "sink \<Rightarrow> va list \<Rightarrow> u8 \<Rightarrow> int \<Rightarrow> int \<Rightarrow> (sink \<times> va list) option" where
  "conv_string st args flags field_width precision = do {
     (s, args) \<leftarrow> va_str args;
     len \<leftarrow> rt_strlen s;
     let len = (if precision > 0 \<and> int len > precision then precision else int len);
     (st, w) \<leftarrow> (if \<not> has flags LEFT
        then do { st \<leftarrow> puts st (replicate (nat (field_width - len)) 32);
                  Some (st, if field_width > len then len - 1 else field_width - 1) }
        else Some (st, field_width));
     bs \<leftarrow> mem_read s 0 (nat len);
     st \<leftarrow> puts st bs;
     st \<leftarrow> puts st (replicate (nat (w - len)) 32);
     Some (st, args) }"

text \<open>The integer fetched for a conversion and its base and flags.\<close>

definition conv_number :: "sink \<Rightarrow> va list \<Rightarrow> u8 \<Rightarrow> u8 \<Rightarrow> u8 \<Rightarrow> int \<Rightarrow> int \<Rightarrow> (sink \<times> va list) option" where
  "conv_number st args flags base qualifier field_width precision = do {
     (n, args) \<leftarrow> va_int args;
     let num = (if qualifier = 104
                then (let h = ucast n :: u16 in
                      if has flags SIGN then word_of_int (sint h) else ucast h)
                else n);
     st \<leftarrow> print_number st num base field_width precision flags;
     Some (st, args) }"

text \<open>
  The \<open>switch\<close> on the conversion character; the rest of the format is returned. A specification cut
  off by the end of the format prints a percent sign and stays on the terminator.
\<close>

definition conversion_switch ::
    "sink \<Rightarrow> u8 list \<Rightarrow> va list \<Rightarrow> u8 \<Rightarrow> int \<Rightarrow> int \<Rightarrow> u8 \<Rightarrow> (sink \<times> u8 list \<times> va list) option" where
  "conversion_switch st fmt args flags field_width precision qualifier = do {
     f \<leftarrow> mem_get fmt 0;
     let rest = tl fmt;
     let number = (\<lambda>flags base. do {
           (st, args) \<leftarrow> conv_number st args flags base qualifier field_width precision;
           Some (st, rest, args) });
     if f = 99 then do {
       (st, args) \<leftarrow> conv_char st args flags field_width; Some (st, rest, args) }
     else if f = 115 then do {
       (st, args) \<leftarrow> conv_string st args flags field_width precision; Some (st, rest, args) }
     else if f = 112 then do {
       let flags = (if field_width = - 1 then flags OR ZEROPAD else flags);
       let field_width = (if field_width = - 1 then 8 else field_width);
       (n, args) \<leftarrow> va_int args;
       st \<leftarrow> print_number st n 16 field_width precision flags;
       Some (st, rest, args) }
     else if f = 37 then do { st \<leftarrow> putc st 37; Some (st, rest, args) }
     else if f = 111 then number flags 8
     else if f = 88 then number (flags OR LARGE) 16
     else if f = 120 then number flags 16
     else if f = 100 \<or> f = 105 then number (flags OR SIGN) 10
     else if f = 117 then number flags 10
     else do {
       st \<leftarrow> putc st 37;
       if f \<noteq> 0 then do { st \<leftarrow> putc st f; Some (st, rest, args) } else Some (st, fmt, args) } }"

text \<open>One conversion specification, from behind the percent sign.\<close>

definition conversion :: "sink \<Rightarrow> u8 list \<Rightarrow> va list \<Rightarrow> (sink \<times> u8 list \<times> va list) option" where
  "conversion st fmt args = do {
     (flags, fmt) \<leftarrow> parse_flags fmt 0;
     (field_width, flags, fmt, args) \<leftarrow> parse_width fmt args flags;
     (precision, fmt, args) \<leftarrow> parse_precision fmt args;
     (qualifier, fmt) \<leftarrow> parse_qualifier fmt;
     conversion_switch st fmt args flags field_width precision qualifier }"

lemma skip_atoi_length: "skip_atoi s = Some (i, r) \<Longrightarrow> length r \<le> length s"
proof -
  have "skip_atoi_loop s k = Some (i, r) \<Longrightarrow> length r \<le> length s" for k
    by (induction s k rule: skip_atoi_loop.induct) (auto split: if_splits)
  then show "skip_atoi s = Some (i, r) \<Longrightarrow> length r \<le> length s" by (simp add: skip_atoi_def)
qed

lemma parse_length:
  "parse_flags fmt fl = Some (fl', r) \<Longrightarrow> length r \<le> length fmt"
  "parse_width fmt args fl = Some (w, fl', r, args') \<Longrightarrow> length r \<le> length fmt"
  "parse_precision fmt args = Some (p, r, args') \<Longrightarrow> length r \<le> length fmt"
  "parse_qualifier fmt = Some (q, r) \<Longrightarrow> length r \<le> length fmt"
proof -
  show "parse_flags fmt fl = Some (fl', r) \<Longrightarrow> length r \<le> length fmt"
    by (induction fmt fl rule: parse_flags.induct) (auto split: if_splits)
  show "parse_width fmt args fl = Some (w, fl', r, args') \<Longrightarrow> length r \<le> length fmt"
    by (auto simp: parse_width_def bind_eq_Some_conv split: if_splits dest: skip_atoi_length)
  show "parse_precision fmt args = Some (p, r, args') \<Longrightarrow> length r \<le> length fmt"
    by (fastforce simp: parse_precision_def bind_eq_Some_conv Let_def split: if_splits dest: skip_atoi_length)
  show "parse_qualifier fmt = Some (q, r) \<Longrightarrow> length r \<le> length fmt"
    by (auto simp: parse_qualifier_def bind_eq_Some_conv split: if_splits)
qed

lemma conversion_switch_length:
  assumes "conversion_switch st fmt args fl w p q = Some (st', r, args')"
  shows "length r \<le> length fmt"
proof -
  have "r = tl fmt \<or> r = fmt"
    using assms unfolding conversion_switch_def Let_def
    by (auto simp: bind_eq_Some_conv simp del: has_def split: if_split_asm)
  then show ?thesis by auto
qed

lemma conversion_cases:
  assumes "conversion st fmt args = Some (st', r, args')"
  obtains fl w fl2 a2 p a3 q f4 where "length f4 \<le> length fmt"
    "conversion_switch st f4 a3 fl2 w p q = Some (st', r, args')"
proof -
  from assms obtain fl f1 where 1: "parse_flags fmt 0 = Some (fl, f1)"
    by (auto simp: conversion_def bind_eq_Some_conv)
  with assms obtain w fl2 f2 a2 where 2: "parse_width f1 args fl = Some (w, fl2, f2, a2)"
    by (auto simp: conversion_def bind_eq_Some_conv)
  with assms 1 obtain p f3 a3 where 3: "parse_precision f2 a2 = Some (p, f3, a3)"
    by (auto simp: conversion_def bind_eq_Some_conv)
  with assms 1 2 obtain q f4 where 4: "parse_qualifier f3 = Some (q, f4)"
    by (auto simp: conversion_def bind_eq_Some_conv)
  have "conversion_switch st f4 a3 fl2 w p q = Some (st', r, args')"
    using assms 1 2 3 4 by (simp add: conversion_def)
  moreover have "length f4 \<le> length fmt"
    using parse_length(1) [OF 1] parse_length(2) [OF 2] parse_length(3) [OF 3] parse_length(4) [OF 4] by linarith
  ultimately show ?thesis by (rule that [rotated])
qed

lemma conversion_length:
  assumes "conversion st fmt args = Some (st', r, args')"
  shows "length r \<le> length fmt"
  using conversion_cases [OF assms] conversion_switch_length by (meson le_trans)

function vsnprintf_loop :: "sink \<Rightarrow> u8 list \<Rightarrow> va list \<Rightarrow> sink option" where
  "vsnprintf_loop st [] args = None"
| "vsnprintf_loop st (f # fmt) args =
     (if f = 0 then Some st
      else if f \<noteq> 37 then
        (case putc st f of None \<Rightarrow> None | Some st' \<Rightarrow> vsnprintf_loop st' fmt args)
      else case conversion st fmt args of
        None \<Rightarrow> None
      | Some (st', fmt', args') \<Rightarrow> vsnprintf_loop st' fmt' args')"
  by pat_completeness auto
termination
  by (relation "measure (\<lambda>(st, fmt, args). length fmt)") (auto dest: conversion_length)

text \<open>
  \<open>rt_vsnprintf\<close>: \<open>base\<close> is the address of \<open>buf\<close>; a limit that would wrap around is replaced by the last
  address. The result is the length the whole output would have, and the buffer.
\<close>

definition rt_vsnprintf :: "nat \<Rightarrow> u8 list \<Rightarrow> u32 \<Rightarrow> u8 list \<Rightarrow> va list \<Rightarrow> (int \<times> u8 list) option" where
  "rt_vsnprintf base buf sz fmt args = do {
     let e = (if base + unat sz \<ge> 2 ^ 32 then 2 ^ 32 - 1 - base else unat sz);
     (m, str, e) \<leftarrow> vsnprintf_loop (buf, 0, e) fmt args;
     m \<leftarrow> (if e > 0 then (if str < e then mem_set m str 0 else mem_set m (e - 1) 0) else Some m);
     Some (int str, m) }"

definition rt_snprintf :: "nat \<Rightarrow> u8 list \<Rightarrow> u32 \<Rightarrow> u8 list \<Rightarrow> va list \<Rightarrow> (int \<times> u8 list) option" where
  "rt_snprintf base buf sz fmt args = rt_vsnprintf base buf sz fmt args"

definition rt_vsprintf :: "nat \<Rightarrow> u8 list \<Rightarrow> u8 list \<Rightarrow> va list \<Rightarrow> (int \<times> u8 list) option" where
  "rt_vsprintf base buf fmt args = rt_vsnprintf base buf (- 1) fmt args"

definition rt_sprintf :: "nat \<Rightarrow> u8 list \<Rightarrow> u8 list \<Rightarrow> va list \<Rightarrow> (int \<times> u8 list) option" where
  "rt_sprintf base buf fmt args = rt_vsprintf base buf fmt args"

subsection \<open>What is written\<close>

text \<open>
  Output within the limit \<open>e\<close>: a call that is given a buffer of at least \<open>e\<close> bytes changes only
  cells below \<open>e\<close>. \<open>within st st'\<close> relates the output before and after.
\<close>

definition within :: "sink \<Rightarrow> sink \<Rightarrow> bool" where
  "within st st' \<longleftrightarrow> (case (st, st') of ((m, p, e), (m', p', e')) \<Rightarrow>
     e' = e \<and> p \<le> p' \<and> length m' = length m \<and> drop e m' = drop e m \<and> take p m' = take p m)"

lemma within_refl [simp]: "within st st"
  by (simp add: within_def split: prod.splits)

lemma within_trans: "within a b \<Longrightarrow> within b c \<Longrightarrow> within a c"
  by (auto simp: within_def split: prod.splits) (metis min_def take_take)

lemma putc_within: "putc st c = Some st' \<Longrightarrow> within st st'"
  by (auto simp: putc_def within_def mem_set_def split: prod.splits if_splits)

lemma puts_within: "puts st cs = Some st' \<Longrightarrow> within st st'"
  by (induction cs arbitrary: st) (auto simp: bind_eq_Some_conv intro: within_trans putc_within)

lemma pad_within: "pad st c sz = Some (st', sz') \<Longrightarrow> within st st'"
  by (auto simp: pad_def bind_eq_Some_conv intro: puts_within)

lemma puts_append: "puts st (a @ b) = do { st \<leftarrow> puts st a; puts st b }"
  by (induction a arbitrary: st) simp_all

lemma putc_puts: "putc st c = puts st [c]"
  by simp

text \<open>The characters \<open>print_number\<close> prints: padding, sign, padding, leading zeros, digits, padding.\<close>

definition number_layout :: "u8 \<Rightarrow> u8 list \<Rightarrow> int \<Rightarrow> int \<Rightarrow> u8 \<Rightarrow> u8 list" where
  "number_layout sign tmp s precision type =
     (let i = int (length tmp);
          prec = max i precision;
          sz0 = s - prec;
          blank = \<not> has type (ZEROPAD OR LEFT);
          lead = (if sign \<noteq> 0 \<and> sz0 > 0 then sz0 - 1 else sz0);
          sz1 = (if blank then (if lead > 0 then - 1 else lead - 1) else sz0);
          sz2 = (if sign \<noteq> 0 then sz1 - 1 else sz1);
          sz3 = (if \<not> has type LEFT then (if sz2 > 0 then - 1 else sz2 - 1) else sz2) in
      (if blank then replicate (nat lead) 32 else []) @
      (if sign \<noteq> 0 then [sign] else []) @
      (if \<not> has type LEFT then replicate (nat sz2) (if has type ZEROPAD then 48 else 32) else []) @
      replicate (nat (prec - i)) 48 @
      (if precision \<noteq> 0 then rev tmp else []) @
      replicate (nat sz3) 32)"

definition number_chars :: "u32 \<Rightarrow> u8 \<Rightarrow> int \<Rightarrow> int \<Rightarrow> u8 \<Rightarrow> u8 list option" where
  "number_chars num base s precision type = do {
     let digits = (if has type LARGE then large_digits else small_digits);
     let type = (if has type LEFT then type AND NOT ZEROPAD else type);
     let sign = (if has type SIGN
                 then (if sint num < 0 then 45 else if has type PLUS then 43 else if has type SPACE then 32 else 0)
                 else 0);
     let num = (if has type SIGN \<and> sint num < 0 then - num else num);
     tmp \<leftarrow> (if num = 0 then Some [48] else number_digits num base digits []);
     Some (number_layout sign tmp s precision type) }"

lemma pad_puts: "do { (st, sz) \<leftarrow> pad st c n; k st sz } =
    do { st \<leftarrow> puts st (replicate (nat n) c); k st (if n > 0 then - 1 else n - 1) }"
  by (simp add: pad_def)

lemma replicate_nat_nonpos: "n \<le> 0 \<Longrightarrow> replicate (nat n) c = []"
  by simp

lemma layout_puts:
  "do {
     let i = int (length tmp);
     let precision' = (if i > precision then i else precision);
     let sz = s - precision';
     (st, sz) \<leftarrow> (if \<not> has type (ZEROPAD OR LEFT)
        then pad st 32 (if sign \<noteq> 0 \<and> sz > 0 then sz - 1 else sz)
        else Some (st, sz));
     (st, sz) \<leftarrow> (if sign \<noteq> 0 then do { st \<leftarrow> putc st sign; Some (st, sz - 1) } else Some (st, sz));
     (st, sz) \<leftarrow> (if \<not> has type LEFT then pad st (if has type ZEROPAD then 48 else 32) sz else Some (st, sz));
     st \<leftarrow> puts st (replicate (nat (precision' - i)) 48);
     st \<leftarrow> (if precision \<noteq> 0 then puts st (rev tmp) else Some st);
     (st, sz) \<leftarrow> pad st 32 sz;
     Some st } = puts st (number_layout sign tmp s precision type)"
proof -
  have m: "(if int (length tmp) > precision then int (length tmp) else precision) = max (int (length tmp)) precision"
    by simp
  obtain sz where sz: "s - max (int (length tmp)) precision = sz" by simp
  show ?thesis
    unfolding number_layout_def Let_def m sz
    by (cases "has type (ZEROPAD OR LEFT)"; cases "sign = 0"; cases "has type LEFT"; cases "precision = 0";
        cases "sz > 1"; cases "sz = 1")
      (simp_all add: pad_puts pad_def puts_append replicate_nat_nonpos)
qed

lemma print_number_puts:
  "print_number st num base s precision type = do { cs \<leftarrow> number_chars num base s precision type; puts st cs }"
  unfolding print_number_def number_chars_def Let_def
  by (simp only: layout_puts [unfolded Let_def] bind_assoc bind.bind_lunit)

text \<open>Decimal notation.\<close>

fun dec_nat :: "nat \<Rightarrow> u8 list" where
  "dec_nat n = (if n < 10 then [of_nat (48 + n)] else dec_nat (n div 10) @ [of_nat (48 + n mod 10)])"

declare dec_nat.simps [simp del]

lemma dec_nat_0 [simp]: "dec_nat 0 = [48]"
  by (simp add: dec_nat.simps)

definition dec_int :: "int \<Rightarrow> u8 list" where
  "dec_int i = (if i < 0 then 45 # dec_nat (nat (- i)) else dec_nat (nat i))"

lemma length_dec_nat: "n < 10 ^ k \<Longrightarrow> 0 < k \<Longrightarrow> length (dec_nat n) \<le> k"
proof (induction k arbitrary: n)
  case (Suc k)
  show ?case
  proof (cases "n < 10")
    case False
    then have "n div 10 < 10 ^ k" "0 < k"
      using Suc.prems by (auto simp: less_mult_imp_div_less mult.commute intro: gr0I)
    with Suc.IH False show ?thesis by (subst dec_nat.simps) simp
  qed (simp add: dec_nat.simps)
qed simp

lemma length_dec_int: "- (2 ^ 31) \<le> i \<Longrightarrow> i < 2 ^ 31 \<Longrightarrow> length (dec_int i) \<le> 11"
  using length_dec_nat [of "nat (- i)" 10] length_dec_nat [of "nat i" 10]
  by (cases "i < 0") (simp_all add: dec_int_def nat_less_iff)

lemma dec_nat_nonzero: "c \<in> set (dec_nat n) \<Longrightarrow> 48 \<le> unat c \<and> unat c < 58"
proof (induction n rule: dec_nat.induct)
  case (1 n)
  have d: "unat (of_nat (48 + k) :: u8) = 48 + k" if "k < 10" for k
    using that by (intro unat_of_nat_small) simp
  show ?case
    using 1 d [of n] d [of "n mod 10"]
    by (subst (asm) dec_nat.simps) (auto split: if_splits simp del: of_nat_add)
qed

lemma digit_char:
  assumes "k < 10"
  shows "mem_get small_digits k = Some (of_nat (48 + k))"
proof -
  from assms have "k \<in> {0, 1, 2, 3, 4, 5, 6, 7, 8, 9}" by auto
  then show ?thesis by (auto simp: mem_get_def small_digits_def)
qed

lemma number_digits_dec:
  assumes "num \<noteq> 0" and "length tmp + length (dec_nat (unat num)) \<le> 16"
  shows "number_digits num 10 small_digits tmp = Some (tmp @ rev (dec_nat (unat num)))"
  using assms
proof (induction "unat num" arbitrary: num tmp rule: less_induct)
  case less
  have q: "unat (num div 10) = unat num div 10" "unat (num mod 10) = unat num mod 10"
    by (simp_all add: unat_div_distrib unat_mod_distrib)
  have lt: "length tmp < 16" using less.prems(2) by (cases "dec_nat (unat num)") (auto simp: dec_nat.simps split: if_splits)
  have step: "number_digits num 10 small_digits tmp =
      number_digits (num div 10) 10 small_digits (tmp @ [of_nat (48 + unat num mod 10)])"
    using less.prems(1) lt q digit_char [of "unat num mod 10"]
    by (subst number_digits.simps) (simp add: divide_num_def del: of_nat_add)
  show ?case
  proof (cases "unat num < 10")
    case True
    then have "num div 10 = 0" using q(1) by (simp add: unat_eq_zero [symmetric])
    with step True show ?thesis by (simp add: number_digits.simps dec_nat.simps)
  next
    case False
    then have "num div 10 \<noteq> 0" using q(1) by (auto simp: unat_eq_zero [symmetric])
    moreover have d: "dec_nat (unat num) = dec_nat (unat num div 10) @ [of_nat (48 + unat num mod 10)]"
      using False by (subst dec_nat.simps) simp
    moreover have "unat (num div 10) < unat num" using False q by simp
    ultimately show ?thesis
      using less.hyps [of "num div 10" "tmp @ [of_nat (48 + unat num mod 10)]"] less.prems step q by simp
  qed
qed

lemma has_simps [simp]:
  "has 0 f = False" "has 2 64 = False" "has 2 16 = False" "has 2 2 = True" "has 2 4 = False" "has 2 8 = False"
  "has 2 17 = False" "has 2 1 = False"
  by (simp_all add: has_def)

lemma unat_minus_negative:
  fixes num :: u32
  assumes "sint num < 0"
  shows "unat (- num) = nat (- sint num)"
proof -
  have "- num = word_of_int (- sint num)" by simp
  moreover have "unat (word_of_int (- sint num) :: u32) = nat (- sint num)"
    using assms sint_ge [of num] by (intro unat_word_of_int_small) simp_all
  ultimately show ?thesis by simp
qed

lemma number_chars_d: "number_chars num 10 (- 1) (- 1) SIGN = Some (dec_int (sint num))"
proof -
  have fin: "(if n = 0 then Some [48] else number_digits n 10 small_digits []) = Some (rev (dec_nat (unat n)))" for n
  proof (cases "n = 0")
    case False
    have "unat n < 2 ^ 32" using unsigned_less [of n, where ?'a = nat] by simp
    then have "length (dec_nat (unat n)) \<le> 10" by (intro length_dec_nat) simp_all
    with False number_digits_dec [of n "[]"] show ?thesis by simp
  qed (simp add: dec_nat.simps)
  have l: "number_layout sign tmp (- 1) (- 1) 2 = (if sign \<noteq> 0 then sign # rev tmp else rev tmp)" for sign tmp
    by (simp add: number_layout_def Let_def)
  show ?thesis
  proof (cases "sint num < 0")
    case True
    then have "num \<noteq> 0" by auto
    with True show ?thesis
      using fin [of "- num"] unat_minus_negative [OF True] by (simp add: number_chars_def Let_def l dec_int_def)
  next
    case False
    then have "unat num = nat (sint num)" using sint_nonneg [of num] by simp
    with False show ?thesis
      using fin [of num] by (cases "num = 0") (simp_all add: number_chars_def Let_def l dec_int_def)
  qed
qed

lemma conversion_d:
  "conversion st (100 # fmt) (VInt n # args) = do { st \<leftarrow> puts st (dec_int (sint n)); Some (st, fmt, args) }"
  by (simp add: conversion_def parse_width_def parse_precision_def parse_qualifier_def mem_get_def is_digit_def
      conversion_switch_def conv_number_def print_number_puts number_chars_d)

lemma conversion_s:
  assumes "a \<noteq> 0" and "c_str m = Some s"
  shows "conversion st (115 # fmt) (VPtr a m # args) = do { st \<leftarrow> puts st s; Some (st, fmt, args) }"
proof -
  have "rt_strlen m = Some (length s)" "mem_read m 0 (length s) = Some s"
    using assms(2) by (auto simp: rt_strlen_eq c_strlen_def mem_read_def elim!: c_strD)
  then show ?thesis
    using assms(1)
    by (simp add: conversion_def parse_width_def parse_precision_def parse_qualifier_def mem_get_def is_digit_def
        conversion_switch_def conv_string_def replicate_nat_nonpos)
qed

text \<open>No output leaves the limit.\<close>

lemma print_number_within: "print_number st num base s p t = Some st' \<Longrightarrow> within st st'"
  by (auto simp: print_number_puts bind_eq_Some_conv intro: puts_within)

lemma conv_within:
  "conv_char st args fl w = Some (st', args') \<Longrightarrow> within st st'"
  "conv_string st args fl w p = Some (st', args') \<Longrightarrow> within st st'"
  "conv_number st args fl b q w p = Some (st', args') \<Longrightarrow> within st st'"
proof -
  show "conv_char st args fl w = Some (st', args') \<Longrightarrow> within st st'"
    unfolding conv_char_def
    by (auto simp: bind_eq_Some_conv split: if_split_asm) (blast intro: within_trans putc_within puts_within)+
  show "conv_string st args fl w p = Some (st', args') \<Longrightarrow> within st st'"
    unfolding conv_string_def Let_def
    by (auto simp: bind_eq_Some_conv split: if_split_asm) (blast intro: within_trans puts_within)+
  show "conv_number st args fl b q w p = Some (st', args') \<Longrightarrow> within st st'"
    by (auto simp: conv_number_def bind_eq_Some_conv Let_def intro: print_number_within)
qed

lemma conversion_within: "conversion st fmt args = Some (st', r, args') \<Longrightarrow> within st st'"
proof (elim conversion_cases)
  fix f4 a3 fl2 w p q
  assume "conversion_switch st f4 a3 fl2 w p q = Some (st', r, args')"
  then show "within st st'"
    unfolding conversion_switch_def Let_def
    by (auto simp: bind_eq_Some_conv split: if_split_asm
        intro: conv_within print_number_within putc_within within_trans [OF putc_within putc_within])
qed

lemma vsnprintf_loop_within: "vsnprintf_loop st fmt args = Some st' \<Longrightarrow> within st st'"
  by (induction st fmt args rule: vsnprintf_loop.induct)
    (auto split: if_split_asm option.splits intro: within_trans dest: putc_within conversion_within)



text \<open>
  A plain decimal conversion: \<open>%d\<close> in the format prints exactly the signed decimal notation of
  the next argument, of at most eleven characters, and continues with the rest of the format and
  of the arguments; the octal conversion \<open>%o\<close> prints the same characters as \<open>%x\<close>.
\<close>

lemma vsnprintf_decimal:
  "vsnprintf_loop st (37 # 100 # fmt) (VInt n # args) =
     do { st \<leftarrow> puts st (dec_int (sint n)); vsnprintf_loop st fmt args } \<and>
   length (dec_int (sint n)) \<le> 11 \<and>
   vsnprintf_loop st (37 # 111 # fmt) (VInt n # args) = vsnprintf_loop st (37 # 120 # fmt) (VInt n # args)"
proof (intro conjI)
  show "vsnprintf_loop st (37 # 100 # fmt) (VInt n # args) =
     do { st \<leftarrow> puts st (dec_int (sint n)); vsnprintf_loop st fmt args }"
    by (simp add: conversion_d split: option.split bind_split)
  show "length (dec_int (sint n)) \<le> 11"
    using sint_ge [of n] sint_lt [of n] by (intro length_dec_int) simp_all
  have nd: "number_digits num 8 digits tmp = number_digits num 16 digits tmp" for num digits tmp
    by (induction num "8 :: u8" digits tmp rule: number_digits.induct)
      (subst number_digits.simps, subst (2) number_digits.simps,
        auto simp: divide_num_def intro!: Option.bind_cong)
  have "print_number st num 8 w p fl = print_number st num 16 w p fl" for num w p fl
    by (simp only: print_number_puts number_chars_def nd)
  then show "vsnprintf_loop st (37 # 111 # fmt) (VInt n # args) = vsnprintf_loop st (37 # 120 # fmt) (VInt n # args)"
    by (simp add: conversion_def parse_width_def parse_precision_def parse_qualifier_def mem_get_def is_digit_def
      conversion_switch_def conv_number_def)
qed

end
