(* ===== verification/DevSensor.thy ===== *)
theory DevSensor
  imports Kprintf
begin

text \<open>
  The application itself: \<open>modules/src/dev_sensor.c\<close>, \<open>modules/inc/dev_sensor.h\<close>, the command handler and
  the publish function of \<open>modules/src/wifi_mqtt.c\<close>. The state collects the global variables of the
  two files, the levels and modes of the output pins, and the messages handed to \<open>MQTTPublish\<close> in
  order.

  What the hardware answers is a parameter: the readings of the temperature and humidity sensor and of
  the analog-digital converter, whether a device or thread could be created. Floating-point arithmetic
  is the target's, a record of operations that every function using it takes as an argument. Logging and
  delays have no effect on this state.
\<close>

subsection \<open>State\<close>

datatype dev_sensor_t = DEV_SENSOR_INIT | DEV_SENSOR_DEINIT | DEV_SENSOR_OPEN | DEV_SENSOR_CLOSE
  | DEV_SENSOR_BUSY | DEV_SENSOR_IDLE | DEV_SENSOR_MAX

fun dev_sensor_num :: "dev_sensor_t \<Rightarrow> int" where
  "dev_sensor_num DEV_SENSOR_INIT = 0" | "dev_sensor_num DEV_SENSOR_DEINIT = 1"
| "dev_sensor_num DEV_SENSOR_OPEN = 2" | "dev_sensor_num DEV_SENSOR_CLOSE = 3"
| "dev_sensor_num DEV_SENSOR_BUSY = 4" | "dev_sensor_num DEV_SENSOR_IDLE = 5"
| "dev_sensor_num DEV_SENSOR_MAX = 6"

record 'f dev_sensor_data_t =
  sht3x_data_temp :: 'f
  sht3x_data_humi :: 'f
  mq2_data :: 'f
  zph02_data :: u32
  sht3x_status :: dev_sensor_t
  mq2_status :: dev_sensor_t
  zph02_status :: dev_sensor_t
  relay1_status :: dev_sensor_t
  relay2_status :: dev_sensor_t
  beep_status :: dev_sensor_t
  status :: u16

text \<open>\<open>GET_PIN(D, 13)\<close>, \<open>GET_PIN(D, 14)\<close> and \<open>GET_PIN(B, 2)\<close>.\<close>

abbreviation (input) "PIN_RELAY1 \<equiv> 61 :: nat"
abbreviation (input) "PIN_RELAY2 \<equiv> 62 :: nat"
abbreviation (input) "PIN_BEEP \<equiv> 18 :: nat"

datatype iotb_mqtt_message_t = DEVICE_NONE | APPLETS_ONLINE | APPLETS_OFFLINE | DEVICE_ONLINE
  | DEVICE_OFFLINE | DEVICE_SENSOR_ALL | DEVICE_SENSOR_DATA | RELAY_1_ON | RELAY_1_OFF
  | RELAY_2_ON | RELAY_2_OFF | BEEP_ON | BEEP_OFF

fun message_name :: "iotb_mqtt_message_t \<Rightarrow> string" where
  "message_name DEVICE_NONE = ''DEVICE_NONE''"
| "message_name APPLETS_ONLINE = ''APPLETS_ONLINE''"
| "message_name APPLETS_OFFLINE = ''APPLETS_OFFLINE''"
| "message_name DEVICE_ONLINE = ''DEVICE_ONLINE''"
| "message_name DEVICE_OFFLINE = ''DEVICE_OFFLINE''"
| "message_name DEVICE_SENSOR_ALL = ''DEVICE_SENSOR_ALL''"
| "message_name DEVICE_SENSOR_DATA = ''DEVICE_SENSOR_DATA''"
| "message_name RELAY_1_ON = ''RELAY_1_ON''"
| "message_name RELAY_1_OFF = ''RELAY_1_OFF''"
| "message_name RELAY_2_ON = ''RELAY_2_ON''"
| "message_name RELAY_2_OFF = ''RELAY_2_OFF''"
| "message_name BEEP_ON = ''BEEP_ON''"
| "message_name BEEP_OFF = ''BEEP_OFF''"

definition mqtt_message_buffer :: "iotb_mqtt_message_t \<Rightarrow> u8 list" where
  "mqtt_message_buffer c = lit (message_name c)"

text \<open>A message handed to \<open>MQTTPublish\<close>: quality of service, retained flag, topic and payload.\<close>

type_synonym outgoing = "int \<times> int \<times> u8 list \<times> u8 list"

record 'f app =
  result_data :: "'f dev_sensor_data_t"
  pin_high :: "nat \<Rightarrow> bool"
  pin_output :: "nat \<Rightarrow> bool"
  outbox :: "outgoing list"
  mqtt_is_started :: bool
  dev_sht3x :: "('f \<times> 'f) option"
  dev_sht3x_inited :: bool
  dev_mq2_inited :: bool
  dev_mq2_value :: 'f
  Vrl :: 'f
  dev_zph02_inited :: bool
  dev_zph02_value_buffer :: "u8 list"
  dev_zph02_data_high :: u8
  dev_zph02_data_low :: u8
  zph02_count :: u8
  dev_sensor_all :: "u8 list"
  dev_sensor_data :: "u8 list"

text \<open>The initial values of \<open>dev_sensor_data_result\<close>; \<open>zero\<close> is \<open>0.0f\<close>.\<close>

definition dev_sensor_data_result0 :: "'f \<Rightarrow> 'f dev_sensor_data_t" where
  "dev_sensor_data_result0 zero =
     \<lparr>sht3x_data_temp = zero, sht3x_data_humi = zero, mq2_data = zero, zph02_data = 0,
      sht3x_status = DEV_SENSOR_DEINIT, mq2_status = DEV_SENSOR_DEINIT, zph02_status = DEV_SENSOR_DEINIT,
      relay1_status = DEV_SENSOR_DEINIT, relay2_status = DEV_SENSOR_DEINIT,
      beep_status = DEV_SENSOR_DEINIT, status = 0\<rparr>"

definition app0 :: "'f \<Rightarrow> 'f app" where
  "app0 zero = \<lparr>result_data = dev_sensor_data_result0 zero, pin_high = (\<lambda>_. False),
     pin_output = (\<lambda>_. False), outbox = [], mqtt_is_started = False, dev_sht3x = None,
     dev_sht3x_inited = False, dev_mq2_inited = False, dev_mq2_value = zero, Vrl = zero,
     dev_zph02_inited = False, dev_zph02_value_buffer = replicate 9 0, dev_zph02_data_high = 0,
     dev_zph02_data_low = 0, zph02_count = 0, dev_sensor_all = replicate 100 0,
     dev_sensor_data = replicate 100 0\<rparr>"

abbreviation upd_result :: "('f dev_sensor_data_t \<Rightarrow> 'f dev_sensor_data_t) \<Rightarrow> 'f app \<Rightarrow> 'f app" where
  "upd_result f s \<equiv> s\<lparr>result_data := f (result_data s)\<rparr>"

definition rt_pin_write :: "nat \<Rightarrow> bool \<Rightarrow> 'f app \<Rightarrow> 'f app" where
  "rt_pin_write pin high s = s\<lparr>pin_high := (pin_high s)(pin := high)\<rparr>"

definition rt_pin_mode_output :: "nat \<Rightarrow> 'f app \<Rightarrow> 'f app" where
  "rt_pin_mode_output pin s = s\<lparr>pin_output := (pin_output s)(pin := True)\<rparr>"

subsection \<open>Publishing\<close>

text \<open>
  \<open>mqtt_publish\<close>: nothing before the client is started, otherwise the string goes to \<open>MQTTPublish\<close> with
  quality of service 1 on the topic \<open>Device\<close>.
\<close>

definition mqtt_publish :: "u8 list \<Rightarrow> 'f app \<Rightarrow> (int \<times> 'f app) option" where
  "mqtt_publish send_str s =
     (if \<not> mqtt_is_started s then Some (- 1, s)
      else do {
        payloadlen \<leftarrow> c_strlen send_str;
        payload \<leftarrow> mem_read send_str 0 payloadlen;
        Some (0, s\<lparr>outbox := outbox s @ [(1, 0, lit ''Device'', payload)]\<rparr>) })"

subsection \<open>Relays and beeper\<close>

definition dev_sensor_relay1_ctl :: "dev_sensor_t \<Rightarrow> 'f app \<Rightarrow> 'f app option" where
  "dev_sensor_relay1_ctl relay_t s =
     (case relay_t of
        DEV_SENSOR_INIT \<Rightarrow>
          Some (upd_result (relay1_status_update (\<lambda>_. DEV_SENSOR_CLOSE))
                 (rt_pin_write PIN_RELAY1 True (rt_pin_mode_output PIN_RELAY1 s)))
      | DEV_SENSOR_DEINIT \<Rightarrow>
          Some (upd_result (relay1_status_update (\<lambda>_. DEV_SENSOR_CLOSE)) (rt_pin_write PIN_RELAY1 True s))
      | DEV_SENSOR_OPEN \<Rightarrow>
          map_option snd (mqtt_publish (mqtt_message_buffer RELAY_1_ON)
            (upd_result (relay1_status_update (\<lambda>_. DEV_SENSOR_OPEN)) (rt_pin_write PIN_RELAY1 False s)))
      | DEV_SENSOR_CLOSE \<Rightarrow>
          map_option snd (mqtt_publish (mqtt_message_buffer RELAY_1_OFF)
            (upd_result (relay1_status_update (\<lambda>_. DEV_SENSOR_CLOSE)) (rt_pin_write PIN_RELAY1 True s)))
      | _ \<Rightarrow> Some s)"

definition dev_sensor_relay2_ctl :: "dev_sensor_t \<Rightarrow> 'f app \<Rightarrow> 'f app option" where
  "dev_sensor_relay2_ctl relay_t s =
     (case relay_t of
        DEV_SENSOR_INIT \<Rightarrow>
          Some (upd_result (relay2_status_update (\<lambda>_. DEV_SENSOR_CLOSE))
                 (rt_pin_write PIN_RELAY2 True (rt_pin_mode_output PIN_RELAY2 s)))
      | DEV_SENSOR_DEINIT \<Rightarrow>
          Some (upd_result (relay2_status_update (\<lambda>_. DEV_SENSOR_CLOSE)) (rt_pin_write PIN_RELAY2 True s))
      | DEV_SENSOR_OPEN \<Rightarrow>
          map_option snd (mqtt_publish (mqtt_message_buffer RELAY_2_ON)
            (upd_result (relay2_status_update (\<lambda>_. DEV_SENSOR_OPEN)) (rt_pin_write PIN_RELAY2 False s)))
      | DEV_SENSOR_CLOSE \<Rightarrow>
          map_option snd (mqtt_publish (mqtt_message_buffer RELAY_2_OFF)
            (upd_result (relay2_status_update (\<lambda>_. DEV_SENSOR_CLOSE)) (rt_pin_write PIN_RELAY2 True s)))
      | _ \<Rightarrow> Some s)"

definition dev_sensor_beep_ctl :: "dev_sensor_t \<Rightarrow> 'f app \<Rightarrow> 'f app" where
  "dev_sensor_beep_ctl beep_t s =
     (case beep_t of
        DEV_SENSOR_INIT \<Rightarrow>
          upd_result (beep_status_update (\<lambda>_. DEV_SENSOR_CLOSE))
            (rt_pin_write PIN_BEEP False (rt_pin_mode_output PIN_BEEP s))
      | DEV_SENSOR_DEINIT \<Rightarrow>
          upd_result (beep_status_update (\<lambda>_. DEV_SENSOR_CLOSE)) (rt_pin_write PIN_BEEP False s)
      | DEV_SENSOR_OPEN \<Rightarrow> rt_pin_write PIN_BEEP True s
      | DEV_SENSOR_CLOSE \<Rightarrow> rt_pin_write PIN_BEEP False s
      | _ \<Rightarrow> s)"

definition dev_sensor_ctl :: "nat \<Rightarrow> dev_sensor_t \<Rightarrow> 'f app \<Rightarrow> 'f app" where
  "dev_sensor_ctl pin_t status_t s =
     (case status_t of
        DEV_SENSOR_INIT \<Rightarrow> rt_pin_write pin_t True (rt_pin_mode_output pin_t s)
      | DEV_SENSOR_DEINIT \<Rightarrow> rt_pin_write pin_t True s
      | DEV_SENSOR_OPEN \<Rightarrow> rt_pin_write pin_t False s
      | DEV_SENSOR_CLOSE \<Rightarrow> rt_pin_write pin_t True s
      | _ \<Rightarrow> s)"

subsection \<open>The sensors\<close>

text \<open>What the hardware and the kernel answer during one call.\<close>

record 'f env =
  e_sht3x_init :: "('f \<times> 'f) option"
  e_sht3x_read :: "'f \<times> 'f \<Rightarrow> 'f \<times> 'f"
  e_adc_value :: u32
  e_uart_found :: bool
  e_thread_created :: bool

definition dev_sensor_sht3x_deinit :: "'f app \<Rightarrow> int \<times> 'f app" where
  "dev_sensor_sht3x_deinit s =
     (if dev_sht3x s = None then (1, s)
      else
       let s = upd_result (sht3x_status_update (\<lambda>_. DEV_SENSOR_BUSY)) s;
           s = s\<lparr>dev_sht3x := None, dev_sht3x_inited := False\<rparr> in
       (0, upd_result (sht3x_status_update (\<lambda>_. DEV_SENSOR_IDLE)) s))"

definition dev_sensor_sht3x_init :: "'f env \<Rightarrow> 'f app \<Rightarrow> int \<times> 'f app" where
  "dev_sensor_sht3x_init e s =
     (if dev_sht3x_inited s then (0, s)
      else
       let s = snd (dev_sensor_sht3x_deinit s);
           s = upd_result (sht3x_status_update (\<lambda>_. DEV_SENSOR_BUSY)) s;
           s = s\<lparr>dev_sht3x := e_sht3x_init e\<rparr> in
       if dev_sht3x s = None then (1, s\<lparr>dev_sht3x_inited := False\<rparr>)
       else (0, (upd_result (sht3x_status_update (\<lambda>_. DEV_SENSOR_IDLE)) s)\<lparr>dev_sht3x_inited := True\<rparr>))"

definition dev_sensor_mq2_init :: "'f app \<Rightarrow> int \<times> 'f app" where
  "dev_sensor_mq2_init s =
     (if dev_mq2_inited s then (0, s)
      else
       let s = upd_result (mq2_status_update (\<lambda>_. DEV_SENSOR_BUSY)) s;
           s = upd_result (mq2_status_update (\<lambda>_. DEV_SENSOR_IDLE)) s in
       (0, s\<lparr>dev_mq2_inited := True\<rparr>))"

text \<open>The sum of the bytes 1 to 7 in an 8-bit variable; the comparison is done in \<open>int\<close>.\<close>

definition zph02_sum :: "u8 list \<Rightarrow> u8" where
  "zph02_sum buf = sum_list (map ((!) buf) [1, 2, 3, 4, 5, 6, 7])"

definition dev_zph02_value_check :: "'f app \<Rightarrow> int \<times> 'f app" where
  "dev_zph02_value_check s =
     (let buf = dev_zph02_value_buffer s in
      if uint (zph02_sum buf XOR 0xFF) + 1 = uint (buf ! 8)
      then (0, upd_result (zph02_status_update (\<lambda>_. DEV_SENSOR_IDLE))
                 (s\<lparr>dev_zph02_data_high := buf ! 3, dev_zph02_data_low := buf ! 4\<rparr>))
      else (1, s))"

text \<open>
  One byte in the loop of \<open>dev_sensor_zph02_thread\<close>, once it has been read from the serial port. The
  byte is a signed \<open>rt_int8_t\<close>, so the comparison with \<open>0xff\<close> is one with 255.
\<close>

definition dev_sensor_zph02_byte :: "u8 \<Rightarrow> 'f app \<Rightarrow> 'f app option" where
  "dev_sensor_zph02_byte ch s =
     (if zph02_status (result_data s) = DEV_SENSOR_IDLE then do {
        let s = (if sint ch = 255 then s\<lparr>zph02_count := 0\<rparr> else s);
        buf \<leftarrow> mem_set (dev_zph02_value_buffer s) (unat (zph02_count s)) ch;
        let s = s\<lparr>dev_zph02_value_buffer := buf, zph02_count := zph02_count s + 1\<rparr>;
        Some (if zph02_count s = 9
              then snd (dev_zph02_value_check
                     ((upd_result (zph02_status_update (\<lambda>_. DEV_SENSOR_BUSY)) s)\<lparr>zph02_count := 0\<rparr>))
              else s) }
      else Some s)"

fun dev_sensor_zph02_bytes :: "u8 list \<Rightarrow> 'f app \<Rightarrow> 'f app option" where
  "dev_sensor_zph02_bytes [] s = Some s"
| "dev_sensor_zph02_bytes (ch # chs) s = do { s \<leftarrow> dev_sensor_zph02_byte ch s; dev_sensor_zph02_bytes chs s }"

definition dev_sensor_zph02_init :: "'f env \<Rightarrow> 'f app \<Rightarrow> int \<times> 'f app" where
  "dev_sensor_zph02_init e s =
     (if dev_zph02_inited s then (0, s)
      else
       let s = upd_result (zph02_status_update (\<lambda>_. DEV_SENSOR_BUSY)) s in
       if \<not> e_uart_found e then (1, s)
       else if \<not> e_thread_created e then (1, s)
       else (0, (upd_result (zph02_status_update (\<lambda>_. DEV_SENSOR_IDLE)) s)\<lparr>dev_zph02_inited := True\<rparr>))"

subsection \<open>Readings\<close>

text \<open>
  The floating-point operations the code uses: \<open>float\<close> constants and arithmetic, the conversion of the
  converter's value, the part of the gas formula computed in \<open>double\<close> (division by \<open>7.905\<close>, \<open>pow\<close>, the
  product) and rounded back, comparison with 50, and the truncation to \<open>int\<close>, which has no result for
  a value outside the range of \<open>int\<close>.
\<close>

record ('f, 'd) fpu =
  f_3_3 :: 'f
  f_4095 :: 'f
  f_5_1 :: 'f
  f_4391_7 :: 'f
  f_m2_647 :: 'f
  f_10 :: 'f
  f_50 :: 'f
  d_7_905 :: 'd
  f_of_u32 :: "u32 \<Rightarrow> 'f"
  f_mul :: "'f \<Rightarrow> 'f \<Rightarrow> 'f"
  f_div :: "'f \<Rightarrow> 'f \<Rightarrow> 'f"
  f_sub :: "'f \<Rightarrow> 'f \<Rightarrow> 'f"
  f_gt :: "'f \<Rightarrow> 'f \<Rightarrow> bool"
  f_to_int :: "'f \<Rightarrow> int option"
  d_of_f :: "'f \<Rightarrow> 'd"
  d_div :: "'d \<Rightarrow> 'd \<Rightarrow> 'd"
  d_mul :: "'d \<Rightarrow> 'd \<Rightarrow> 'd"
  d_pow :: "'d \<Rightarrow> 'd \<Rightarrow> 'd"
  f_of_d :: "'d \<Rightarrow> 'f"

text \<open>The eight numbers of the two status lines, and the three status codes of the long one.\<close>

definition sensor_numbers :: "('f, 'd) fpu \<Rightarrow> 'f dev_sensor_data_t \<Rightarrow> int list option" where
  "sensor_numbers fp d = do {
     t \<leftarrow> f_to_int fp (sht3x_data_temp d);
     t10 \<leftarrow> f_to_int fp (f_mul fp (sht3x_data_temp d) (f_10 fp));
     h \<leftarrow> f_to_int fp (sht3x_data_humi d);
     h10 \<leftarrow> f_to_int fp (f_mul fp (sht3x_data_humi d) (f_10 fp));
     g \<leftarrow> f_to_int fp (mq2_data d);
     g1 \<leftarrow> c_int (g * 10);
     g10 \<leftarrow> f_to_int fp (f_mul fp (mq2_data d) (f_10 fp));
     let z = sint (zph02_data d);
     Some [t, t10 smod 10, h, h10 smod 10, g1 sdiv 10, g10 smod 10, z sdiv 10, z smod 10] }"

definition va_of_int :: "int \<Rightarrow> va" where
  "va_of_int i = VInt (word_of_int i)"

definition format_all :: "u8 list" where
  "format_all = map of_char ''D$S-A_%d.%d_%d.%d_%d.%d_%d.%d_%d_%d_%d_%d'' @ [10, 0]"

definition format_data :: "u8 list" where
  "format_data = map of_char ''D$S-D_%d.%d_%d.%d_%d.%d_%d.%d'' @ [10, 0]"

text \<open>
  The two \<open>rt_sprintf\<close> calls; \<open>base\<close> is the address of the buffer. The format of the long line has twelve
  conversions and the call passes eleven numbers: \<open>stray\<close> is the word that \<open>va_arg\<close> finds behind them.
\<close>

definition print_all :: "('f, 'd) fpu \<Rightarrow> u32 \<Rightarrow> nat \<Rightarrow> 'f app \<Rightarrow> 'f app option" where
  "print_all fp stray base s = do {
     xs \<leftarrow> sensor_numbers fp (result_data s);
     (n, m) \<leftarrow> rt_sprintf base (dev_sensor_all s) format_all
       (map va_of_int (xs @ map dev_sensor_num
          [relay1_status (result_data s), relay2_status (result_data s), beep_status (result_data s)]) @
        [VInt stray]);
     Some (s\<lparr>dev_sensor_all := m\<rparr>) }"

definition print_data :: "('f, 'd) fpu \<Rightarrow> nat \<Rightarrow> 'f app \<Rightarrow> 'f app option" where
  "print_data fp base s = do {
     xs \<leftarrow> sensor_numbers fp (result_data s);
     (n, m) \<leftarrow> rt_sprintf base (dev_sensor_data s) format_data (map va_of_int xs);
     Some (s\<lparr>dev_sensor_data := m\<rparr>) }"

definition dev_sensor_mqtt_buffer :: "('f, 'd) fpu \<Rightarrow> u32 \<Rightarrow> nat \<Rightarrow> nat \<Rightarrow> 'f app \<Rightarrow> 'f app option" where
  "dev_sensor_mqtt_buffer fp stray all_base data_base s =
     (if status (result_data s) \<noteq> 0 then do {
        s \<leftarrow> print_all fp stray all_base s;
        print_data fp data_base s }
      else Some s)"

definition dev_sensor_data_upload :: "'f dev_sensor_data_t \<Rightarrow> 'f dev_sensor_data_t \<Rightarrow> 'f dev_sensor_data_t" where
  "dev_sensor_data_upload in_data out_data =
     out_data\<lparr>sht3x_data_temp := sht3x_data_temp in_data, sht3x_data_humi := sht3x_data_humi in_data,
              mq2_data := mq2_data in_data, zph02_data := zph02_data in_data\<rparr>"

text \<open>
  The three parts of \<open>dev_sensor_data_read\<close>, on the state and the local copy \<open>sensor_data\<close> (of which
  only the four readings are used).
\<close>

definition read_sht3x :: "'f env \<Rightarrow> 'f app \<times> 'f dev_sensor_data_t \<Rightarrow> ('f app \<times> 'f dev_sensor_data_t) option" where
  "read_sht3x e sd = (case sd of (s, d) \<Rightarrow>
     if dev_sht3x_inited s then do {
       let s = upd_result (sht3x_status_update (\<lambda>_. DEV_SENSOR_BUSY)) s;
       dev \<leftarrow> dev_sht3x s;
       let dev = e_sht3x_read e dev;
       let s = s\<lparr>dev_sht3x := Some dev\<rparr>;
       Some (upd_result (sht3x_status_update (\<lambda>_. DEV_SENSOR_IDLE)) s,
             d\<lparr>sht3x_data_temp := fst dev, sht3x_data_humi := snd dev\<rparr>) }
     else if sht3x_status (result_data s) = DEV_SENSOR_IDLE
     then Some (snd (dev_sensor_sht3x_init e s), d)
     else Some (s, d))"

definition mq2_formula :: "('f, 'd) fpu \<Rightarrow> 'f \<Rightarrow> 'f" where
  "mq2_formula fp v =
     f_of_d fp (d_mul fp (d_of_f fp (f_4391_7 fp))
       (d_pow fp
         (d_div fp (d_of_f fp (f_mul fp (f_div fp (f_sub fp (f_3_3 fp) v) v) (f_5_1 fp))) (d_7_905 fp))
         (d_of_f fp (f_m2_647 fp))))"

definition read_mq2 :: "('f, 'd) fpu \<Rightarrow> 'f env \<Rightarrow> 'f app \<times> 'f dev_sensor_data_t \<Rightarrow> 'f app \<times> 'f dev_sensor_data_t" where
  "read_mq2 fp e sd = (case sd of (s, d) \<Rightarrow>
     if dev_mq2_inited s then
       let s = upd_result (mq2_status_update (\<lambda>_. DEV_SENSOR_BUSY)) s;
           s = s\<lparr>dev_mq2_value := f_of_u32 fp (e_adc_value e)\<rparr>;
           s = s\<lparr>Vrl := f_div fp (f_mul fp (f_3_3 fp) (dev_mq2_value s)) (f_4095 fp)\<rparr>;
           d = d\<lparr>mq2_data := mq2_formula fp (Vrl s)\<rparr>;
           s = (if f_gt fp (mq2_data d) (f_50 fp)
                then (if beep_status (result_data s) = DEV_SENSOR_OPEN
                      then dev_sensor_beep_ctl DEV_SENSOR_OPEN s else s)
                else dev_sensor_beep_ctl DEV_SENSOR_CLOSE s) in
       (upd_result (mq2_status_update (\<lambda>_. DEV_SENSOR_IDLE)) s, d)
     else if mq2_status (result_data s) = DEV_SENSOR_IDLE
     then (snd (dev_sensor_mq2_init s), d)
     else (s, d))"

definition read_zph02 :: "'f env \<Rightarrow> 'f app \<times> 'f dev_sensor_data_t \<Rightarrow> 'f app \<times> 'f dev_sensor_data_t" where
  "read_zph02 e sd = (case sd of (s, d) \<Rightarrow>
     if dev_zph02_inited s
     then (s, d\<lparr>zph02_data :=
             word_of_int (uint (dev_zph02_data_high s) * 100 + uint (dev_zph02_data_low s))\<rparr>)
     else if zph02_status (result_data s) = DEV_SENSOR_IDLE
     then (snd (dev_sensor_zph02_init e s), d)
     else (s, d))"

definition dev_sensor_data_read :: "('f, 'd) fpu \<Rightarrow> 'f env \<Rightarrow> 'f app \<Rightarrow> 'f app option" where
  "dev_sensor_data_read fp e s = do {
     let s = upd_result (status_update (\<lambda>_. 4)) s;
     let d = dev_sensor_data_upload (result_data s) (result_data s);
     (s, d) \<leftarrow> read_sht3x e (s, d);
     let (s, d) = read_mq2 fp e (s, d);
     let (s, d) = read_zph02 e (s, d);
     let s = upd_result (dev_sensor_data_upload d) s;
     Some (upd_result (status_update (\<lambda>_. 5)) s) }"

subsection \<open>Commands\<close>

text \<open>
  \<open>mqtt_sub_callback\<close>: \<open>buf\<close> is the read buffer of the client, in which the payload lies at an offset. The
  terminator is written behind the payload, then the payload is compared with the known names in turn.
  The length is the signed value that \<open>MQTTDeserialize_publish\<close> stored: adding it to the pointer as a 32-bit
  size has the same result.
\<close>

definition is_message :: "u8 list \<Rightarrow> iotb_mqtt_message_t \<Rightarrow> bool option" where
  "is_message payload c = map_option (\<lambda>r. r = 0) (c_strcmp payload (mqtt_message_buffer c))"

definition mqtt_command :: "u8 list \<Rightarrow> 'f app \<Rightarrow> 'f app option" where
  "mqtt_command payload s = do {
     b \<leftarrow> is_message payload APPLETS_ONLINE;
     if b then map_option snd (mqtt_publish (dev_sensor_all s) s) else do {
     b \<leftarrow> is_message payload DEVICE_SENSOR_ALL;
     if b then map_option snd (mqtt_publish (dev_sensor_all s) s) else do {
     b \<leftarrow> is_message payload DEVICE_SENSOR_DATA;
     if b then map_option snd (mqtt_publish (dev_sensor_data s) s) else do {
     b \<leftarrow> is_message payload RELAY_1_ON;
     if b then dev_sensor_relay1_ctl DEV_SENSOR_OPEN s else do {
     b \<leftarrow> is_message payload RELAY_1_OFF;
     if b then dev_sensor_relay1_ctl DEV_SENSOR_CLOSE s else do {
     b \<leftarrow> is_message payload RELAY_2_ON;
     if b then dev_sensor_relay2_ctl DEV_SENSOR_OPEN s else do {
     b \<leftarrow> is_message payload RELAY_2_OFF;
     if b then dev_sensor_relay2_ctl DEV_SENSOR_CLOSE s else do {
     b \<leftarrow> is_message payload BEEP_ON;
     if b then map_option snd (mqtt_publish (mqtt_message_buffer BEEP_ON)
                (upd_result (beep_status_update (\<lambda>_. DEV_SENSOR_OPEN)) s)) else do {
     b \<leftarrow> is_message payload BEEP_OFF;
     if b then map_option snd (mqtt_publish (mqtt_message_buffer BEEP_OFF)
                (upd_result (beep_status_update (\<lambda>_. DEV_SENSOR_CLOSE)) s)) else Some s }}}}}}}} }"

definition terminate_payload :: "nat \<Rightarrow> int \<Rightarrow> u8 list \<Rightarrow> u8 list option" where
  "terminate_payload payload payloadlen buf =
     (if int payload + payloadlen < 0 then None else mem_set buf (nat (int payload + payloadlen)) 0)"

definition mqtt_sub_callback :: "nat \<Rightarrow> int \<Rightarrow> u8 list \<times> 'f app \<Rightarrow> (u8 list \<times> 'f app) option" where
  "mqtt_sub_callback payload payloadlen bs = (case bs of (buf, s) \<Rightarrow> do {
     buf \<leftarrow> terminate_payload payload payloadlen buf;
     s \<leftarrow> mqtt_command (drop payload buf) s;
     Some (buf, s) })"

definition mqtt_sub_default_callback :: "nat \<Rightarrow> int \<Rightarrow> u8 list \<times> 'f app \<Rightarrow> (u8 list \<times> 'f app) option" where
  "mqtt_sub_default_callback payload payloadlen bs = (case bs of (buf, s) \<Rightarrow> do {
     buf \<leftarrow> terminate_payload payload payloadlen buf;
     Some (buf, s) })"

definition mqtt_online_callback :: "'f app \<Rightarrow> 'f app option" where
  "mqtt_online_callback s = map_option snd (mqtt_publish (lit ''DEVICE_ONLINE'') s)"

text \<open>
  \<open>mqtt_start\<close> as far as this state is concerned; \<open>allocated\<close> says whether both buffers of the client
  could be allocated. What \<open>paho_mqtt_start\<close> returns is not looked at.
\<close>

definition mqtt_start :: "bool \<Rightarrow> 'f app \<Rightarrow> int \<times> 'f app" where
  "mqtt_start allocated s =
     (if mqtt_is_started s then (- 1, s)
      else if \<not> allocated then (- 1, s)
      else (0, s\<lparr>mqtt_is_started := True\<rparr>))"

definition dev_sensor_init :: "'f env \<Rightarrow> bool \<Rightarrow> 'f app \<Rightarrow> 'f app option" where
  "dev_sensor_init e allocated s = do {
     s \<leftarrow> dev_sensor_relay1_ctl DEV_SENSOR_INIT s;
     s \<leftarrow> dev_sensor_relay2_ctl DEV_SENSOR_INIT s;
     let s = dev_sensor_beep_ctl DEV_SENSOR_INIT s;
     let s = snd (dev_sensor_sht3x_init e s);
     let s = snd (dev_sensor_mq2_init s);
     let s = snd (dev_sensor_zph02_init e s);
     Some (snd (mqtt_start allocated s)) }"

subsection \<open>The dust sensor's frames\<close>

lemma zph02_bytes_append:
  "dev_sensor_zph02_bytes (xs @ ys) t = do { t \<leftarrow> dev_sensor_zph02_bytes xs t; dev_sensor_zph02_bytes ys t }"
proof (induction xs arbitrary: t)
  case (Cons x xs)
  then show ?case by (cases "dev_sensor_zph02_byte x t") auto
qed simp

lemma sint_char_not_255: "sint (ch :: u8) \<noteq> 255"
  using sint_lt [of ch] by auto

text \<open>Up to eight bytes are only stored.\<close>

lemma zph02_bytes_store:
  assumes "zph02_status (result_data s) = DEV_SENSOR_IDLE" and "length (dev_zph02_value_buffer s) = 9"
    and "unat (zph02_count s) + length bs \<le> 8"
  shows "dev_sensor_zph02_bytes bs s = Some (s\<lparr>
    dev_zph02_value_buffer := overwrite (dev_zph02_value_buffer s) (unat (zph02_count s)) bs,
    zph02_count := zph02_count s + of_nat (length bs)\<rparr>)"
  using assms
proof (induction bs arbitrary: s)
  case (Cons b bs)
  let ?c = "zph02_count s"
  let ?s = "s\<lparr>dev_zph02_value_buffer := (dev_zph02_value_buffer s)[unat ?c := b], zph02_count := ?c + 1\<rparr>"
  have u: "unat (?c + 1) = Suc (unat ?c)"
    using Cons.prems(3) by (subst unat_add_lem [THEN iffD1]) simp_all
  have "?c + 1 \<noteq> 9"
  proof
    assume "?c + 1 = 9"
    then have "unat (?c + 1) = 9" by simp
    with u Cons.prems(3) show False by simp
  qed
  then have "dev_sensor_zph02_byte b s = Some ?s"
    using Cons.prems by (simp add: dev_sensor_zph02_byte_def mem_set_def sint_char_not_255 Let_def)
  then show ?case
    using Cons.IH [of ?s] Cons.prems u by (simp add: overwrite_update_Suc add.assoc)
qed simp

definition zph02_frame_ok :: "u8 list \<Rightarrow> bool" where
  "zph02_frame_ok fr \<longleftrightarrow> uint (zph02_sum fr XOR 0xFF) + 1 = uint (fr ! 8)"

lemma zph02_frame:
  assumes "zph02_status (result_data s) = DEV_SENSOR_IDLE" and "length (dev_zph02_value_buffer s) = 9"
    and "zph02_count s = 0" and "length fr = 9"
  shows "dev_sensor_zph02_bytes fr s = Some (
    let s' = s\<lparr>dev_zph02_value_buffer := fr, zph02_count := 0\<rparr> in
    if zph02_frame_ok fr
    then s'\<lparr>dev_zph02_data_high := fr ! 3, dev_zph02_data_low := fr ! 4\<rparr>
    else upd_result (zph02_status_update (\<lambda>_. DEV_SENSOR_BUSY)) s')"
proof -
  obtain a b where fr: "fr = a @ [b]" and a: "length a = 8"
    using assms(4) by (metis append_butlast_last_id length_butlast list.size(3) numeral_eq_Suc diff_Suc_1 zero_neq_numeral eval_nat_numeral(3))
  let ?s1 = "s\<lparr>dev_zph02_value_buffer := overwrite (dev_zph02_value_buffer s) 0 a, zph02_count := 8\<rparr>"
  have 1: "dev_sensor_zph02_bytes a s = Some ?s1"
    using zph02_bytes_store [of s a] assms a by simp
  have o: "(overwrite (dev_zph02_value_buffer s) 0 a)[8 := b] = fr"
    using assms(2) a fr by (auto simp: overwrite_def intro!: nth_equalityI simp: nth_append nth_list_update)
  have same: "upd_result (zph02_status_update (\<lambda>_. DEV_SENSOR_IDLE))
      (upd_result (zph02_status_update (\<lambda>_. DEV_SENSOR_BUSY)) t) = t"
    if "zph02_status (result_data t) = DEV_SENSOR_IDLE" for t :: "'a app"
    using that by simp
  show ?thesis
    unfolding fr zph02_bytes_append 1
    using assms a o fr same [of s]
    by (simp add: dev_sensor_zph02_byte_def sint_char_not_255 mem_set_def Let_def dev_zph02_value_check_def
        zph02_frame_ok_def)
qed

text \<open>
  A correct frame of nine bytes that starts at a frame boundary is accepted: the concentration
  bytes 3 and 4 become the reading, and the receiver is ready for the next frame.
\<close>

lemma zph02_frame_accepted:
  assumes "zph02_status (result_data s) = DEV_SENSOR_IDLE" and "length (dev_zph02_value_buffer s) = 9"
    and "zph02_count s = 0" and "length fr = 9" and "uint (zph02_sum fr XOR 0xFF) + 1 = uint (fr ! 8)"
  shows "dev_sensor_zph02_bytes fr s = Some (s\<lparr>dev_zph02_value_buffer := fr, zph02_count := 0,
    dev_zph02_data_high := fr ! 3, dev_zph02_data_low := fr ! 4\<rparr>)"
  using zph02_frame [OF assms(1-4)] assms(5) by (simp add: zph02_frame_ok_def Let_def)

definition app_idle :: "int app" where
  "app_idle = upd_result (zph02_status_update (\<lambda>_. DEV_SENSOR_IDLE)) ((app0 0)\<lparr>dev_zph02_inited := True\<rparr>)"

lemma zph02_busy_ignores:
  assumes "zph02_status (result_data s) \<noteq> DEV_SENSOR_IDLE"
  shows "dev_sensor_zph02_bytes bs s = Some s"
  using assms by (induction bs) (simp_all add: dev_sensor_zph02_byte_def)

text \<open>
  C35. The receiver does not recover from a frame with a wrong checksum: it stays busy, and whatever
  bytes follow (correct frames included) are ignored and the reading keeps its old value. A start
  byte does not resynchronise it either: the byte \<open>0xff\<close> is stored like any other.
\<close>

theorem zph02_bad_frame_stuck:
  assumes "zph02_status (result_data s) = DEV_SENSOR_IDLE" and "length (dev_zph02_value_buffer s) = 9"
    and "zph02_count s = 0" and "length fr = 9" and "uint (zph02_sum fr XOR 0xFF) + 1 \<noteq> uint (fr ! 8)"
  shows "dev_sensor_zph02_bytes (fr @ bs) s = Some (upd_result (zph02_status_update (\<lambda>_. DEV_SENSOR_BUSY))
    (s\<lparr>dev_zph02_value_buffer := fr, zph02_count := 0\<rparr>))"
proof -
  have "dev_sensor_zph02_bytes fr s = Some (upd_result (zph02_status_update (\<lambda>_. DEV_SENSOR_BUSY))
      (s\<lparr>dev_zph02_value_buffer := fr, zph02_count := 0\<rparr>))"
    using zph02_frame [OF assms(1-4)] assms(5) by (simp add: zph02_frame_ok_def Let_def)
  then show ?thesis by (simp add: zph02_bytes_append zph02_busy_ignores)
qed

theorem zph02_bad_frame_stuck_witness:
  "dev_sensor_zph02_bytes ([0, 0xFF, 0x18, 0, 3, 42, 0, 0, 0] @ [0xFF, 0x18, 0, 3, 42, 0, 0, 0, 0xBB]) app_idle =
    Some (upd_result (zph02_status_update (\<lambda>_. DEV_SENSOR_BUSY))
      (app_idle\<lparr>dev_zph02_value_buffer := [0, 0xFF, 0x18, 0, 3, 42, 0, 0, 0], zph02_count := 0\<rparr>))"
  by (rule zph02_bad_frame_stuck)
    (simp_all add: app_idle_def app0_def dev_sensor_data_result0_def zph02_sum_def)

subsection \<open>Steps of the application\<close>

text \<open>
  The threads and callbacks of the running application: bytes from the dust sensor, readings, the status
  lines, and the messages of the MQTT client.
\<close>

inductive app_step :: "('f, 'd) fpu \<Rightarrow> 'f app \<Rightarrow> 'f app \<Rightarrow> bool" for fp where
  byte: "dev_sensor_zph02_byte ch s = Some s' \<Longrightarrow> app_step fp s s'"
| reading: "dev_sensor_data_read fp e s = Some s' \<Longrightarrow> app_step fp s s'"
| buffer: "dev_sensor_mqtt_buffer fp x a b s = Some s' \<Longrightarrow> app_step fp s s'"
| command: "mqtt_command payload s = Some s' \<Longrightarrow> app_step fp s s'"
| online: "mqtt_online_callback s = Some s' \<Longrightarrow> app_step fp s s'"

inductive app_reach :: "('f, 'd) fpu \<Rightarrow> 'f app \<Rightarrow> 'f app \<Rightarrow> bool" for fp where
  start: "app_reach fp s s"
| more: "app_reach fp s s' \<Longrightarrow> app_step fp s' s'' \<Longrightarrow> app_reach fp s s''"

inductive_cases app_stepE: "app_step fp s s'"

lemma app_reach_invariant:
  assumes "app_reach fp s s'" and "P s" and "\<And>t t'. P t \<Longrightarrow> app_step fp t t' \<Longrightarrow> P t'"
  shows "P s'"
  using assms by (induction rule: app_reach.induct) auto

lemma mqtt_publish_effect:
  "mqtt_publish str s = Some (r, s') \<Longrightarrow> \<exists>x. s' = s\<lparr>outbox := x\<rparr>"
  by (auto simp: mqtt_publish_def bind_eq_Some_conv split: if_splits) (metis app.surjective app.update_convs(4))

text \<open>What a command can change besides the outgoing messages.\<close>

lemma mqtt_command_cases:
  assumes "mqtt_command payload s = Some s'"
  obtains x where "s' = s\<lparr>outbox := x\<rparr>"
  | c where "dev_sensor_relay1_ctl c s = Some s'"
  | c where "dev_sensor_relay2_ctl c s = Some s'"
  | x c where "s' = (upd_result (beep_status_update (\<lambda>_. c)) s)\<lparr>outbox := x\<rparr>"
proof -
  have same: "s = s\<lparr>outbox := outbox s\<rparr>" by simp
  have pub: "map_option snd (mqtt_publish str t) = Some s' \<Longrightarrow> \<exists>x. s' = t\<lparr>outbox := x\<rparr>" for str t
    using mqtt_publish_effect by fastforce
  have branch: "do { b \<leftarrow> x; if b then f else g } = Some s' \<Longrightarrow> (f = Some s' \<Longrightarrow> R) \<Longrightarrow> (g = Some s' \<Longrightarrow> R) \<Longrightarrow> R"
    for x f g R by (cases x) (auto split: if_split_asm)
  show ?thesis
    using assms unfolding mqtt_command_def
    apply (elim branch)
             apply (drule pub, elim exE, erule that(1))
            apply (drule pub, elim exE, erule that(1))
           apply (drule pub, elim exE, erule that(1))
          apply (erule that(2))
         apply (erule that(2))
        apply (erule that(3))
       apply (erule that(3))
      apply (drule pub, elim exE, erule that(4))
     apply (drule pub, elim exE, erule that(4))
    apply (rule that(1) [of "outbox s"], simp)
    done
qed

text \<open>What taking a reading leaves alone.\<close>

definition quiet :: "'f app \<Rightarrow> 'f app \<Rightarrow> bool" where
  "quiet s s' \<longleftrightarrow> relay1_status (result_data s') = relay1_status (result_data s) \<and>
     relay2_status (result_data s') = relay2_status (result_data s) \<and>
     beep_status (result_data s') = beep_status (result_data s) \<and>
     pin_output s' = pin_output s \<and> mqtt_is_started s' = mqtt_is_started s \<and> outbox s' = outbox s \<and>
     (\<forall>p. p \<noteq> PIN_BEEP \<longrightarrow> pin_high s' p = pin_high s p)"

lemma quiet_refl [simp]: "quiet s s"
  by (simp add: quiet_def)

lemma quiet_trans: "quiet a b \<Longrightarrow> quiet b c \<Longrightarrow> quiet a c"
  by (simp add: quiet_def)

lemma quiet_sht3x_init: "quiet s (snd (dev_sensor_sht3x_init e s))"
  by (simp add: quiet_def dev_sensor_sht3x_init_def dev_sensor_sht3x_deinit_def Let_def)

lemma quiet_mq2_init: "quiet s (snd (dev_sensor_mq2_init s))"
  by (simp add: quiet_def dev_sensor_mq2_init_def Let_def)

lemma quiet_zph02_init: "quiet s (snd (dev_sensor_zph02_init e s))"
  by (simp add: quiet_def dev_sensor_zph02_init_def Let_def)

lemma quiet_read_sht3x: "read_sht3x e (s, d) = Some (s', d') \<Longrightarrow> quiet s s'"
  using quiet_sht3x_init [of s e]
  by (auto simp: read_sht3x_def bind_eq_Some_conv Let_def quiet_def split: if_split_asm)

lemma quiet_beep: "c \<in> {DEV_SENSOR_OPEN, DEV_SENSOR_CLOSE} \<Longrightarrow> quiet s (dev_sensor_beep_ctl c s)"
  by (auto simp: quiet_def dev_sensor_beep_ctl_def rt_pin_write_def)

lemma quiet_read_mq2: "quiet s (fst (read_mq2 fp e (s, d)))"
  using quiet_mq2_init [of s]
  by (simp add: read_mq2_def Let_def quiet_def dev_sensor_beep_ctl_def rt_pin_write_def)

lemma quiet_read_zph02: "quiet s (fst (read_zph02 e (s, d)))"
  using quiet_zph02_init [of s e] by (simp add: read_zph02_def)

lemma quiet_read:
  assumes "dev_sensor_data_read fp e s = Some s'"
  shows "quiet s s'"
proof -
  let ?s0 = "upd_result (status_update (\<lambda>_. 4)) s"
  let ?d0 = "dev_sensor_data_upload (result_data ?s0) (result_data ?s0)"
  from assms obtain s1 d1 where 1: "read_sht3x e (?s0, ?d0) = Some (s1, d1)"
    by (auto simp: dev_sensor_data_read_def bind_eq_Some_conv Let_def)
  obtain s2 d2 where 2: "read_mq2 fp e (s1, d1) = (s2, d2)" by (cases "read_mq2 fp e (s1, d1)")
  obtain s3 d3 where 3: "read_zph02 e (s2, d2) = (s3, d3)" by (cases "read_zph02 e (s2, d2)")
  have "s' = upd_result (status_update (\<lambda>_. 5)) (upd_result (dev_sensor_data_upload d3) s3)"
    using assms 1 2 3 by (simp add: dev_sensor_data_read_def Let_def)
  moreover have "quiet s s3"
    using quiet_read_sht3x [OF 1] quiet_read_mq2 [of s1 fp e d1] quiet_read_zph02 [of s2 e d2] 2 3
    by (simp add: quiet_def)
  ultimately show ?thesis by (simp add: quiet_def dev_sensor_data_upload_def)
qed

text \<open>The relays: active low, with the status variable in step with the pin.\<close>

definition relays_ok :: "'f app \<Rightarrow> bool" where
  "relays_ok s \<longleftrightarrow> pin_output s PIN_RELAY1 \<and> pin_output s PIN_RELAY2 \<and>
     (relay1_status (result_data s) = DEV_SENSOR_OPEN \<and> \<not> pin_high s PIN_RELAY1 \<or>
      relay1_status (result_data s) = DEV_SENSOR_CLOSE \<and> pin_high s PIN_RELAY1) \<and>
     (relay2_status (result_data s) = DEV_SENSOR_OPEN \<and> \<not> pin_high s PIN_RELAY2 \<or>
      relay2_status (result_data s) = DEV_SENSOR_CLOSE \<and> pin_high s PIN_RELAY2)"

lemma relays_ok_quiet: "quiet s s' \<Longrightarrow> relays_ok s \<Longrightarrow> relays_ok s'"
  by (simp add: quiet_def relays_ok_def)

lemma relays_ok_relay1: "dev_sensor_relay1_ctl c s = Some s' \<Longrightarrow> relays_ok s \<Longrightarrow> relays_ok s'"
  by (cases c) (auto simp: dev_sensor_relay1_ctl_def relays_ok_def rt_pin_write_def rt_pin_mode_output_def
      dest!: mqtt_publish_effect)

lemma relays_ok_relay2: "dev_sensor_relay2_ctl c s = Some s' \<Longrightarrow> relays_ok s \<Longrightarrow> relays_ok s'"
  by (cases c) (auto simp: dev_sensor_relay2_ctl_def relays_ok_def rt_pin_write_def rt_pin_mode_output_def
      dest!: mqtt_publish_effect)

lemma quiet_byte: "dev_sensor_zph02_byte ch s = Some s' \<Longrightarrow> quiet s s'"
  by (auto simp: dev_sensor_zph02_byte_def dev_zph02_value_check_def Let_def quiet_def bind_eq_Some_conv
      split: if_split_asm)

lemma quiet_buffer: "dev_sensor_mqtt_buffer fp x a b s = Some s' \<Longrightarrow> quiet s s'"
  by (auto simp: dev_sensor_mqtt_buffer_def print_all_def print_data_def quiet_def bind_eq_Some_conv
      split: if_split_asm)

lemma relays_ok_updates [simp]:
  "relays_ok (s\<lparr>outbox := x\<rparr>) = relays_ok s"
  "relays_ok (upd_result (beep_status_update f) s) = relays_ok s"
  by (simp_all add: relays_ok_def)

lemma relays_ok_step: "app_step fp s s' \<Longrightarrow> relays_ok s \<Longrightarrow> relays_ok s'"
proof (induction rule: app_step.induct)
  case (command payload s s')
  from command(1) show ?case
  proof (cases rule: mqtt_command_cases)
    case (4 x c)
    then show ?thesis using command(2) by (simp add: relays_ok_def)
  qed (use command(2) relays_ok_relay1 relays_ok_relay2 in auto)
next
  case (online s s')
  then show ?case by (auto simp: mqtt_online_callback_def dest!: mqtt_publish_effect)
qed (blast intro: relays_ok_quiet quiet_read quiet_byte quiet_buffer)+

lemma quiet_init_tail:
  "quiet s (snd (dev_sensor_zph02_init e (snd (dev_sensor_mq2_init (snd (dev_sensor_sht3x_init e s))))))"
  by (rule quiet_trans [OF quiet_trans [OF quiet_sht3x_init quiet_mq2_init] quiet_zph02_init])

lemma relays_ok_init: "dev_sensor_init e allocated s = Some s' \<Longrightarrow> relays_ok s'"
proof -
  assume a: "dev_sensor_init e allocated s = Some s'"
  let ?b = "dev_sensor_beep_ctl DEV_SENSOR_INIT
    (upd_result (relay2_status_update (\<lambda>_. DEV_SENSOR_CLOSE)) (rt_pin_write PIN_RELAY2 True (rt_pin_mode_output PIN_RELAY2
      (upd_result (relay1_status_update (\<lambda>_. DEV_SENSOR_CLOSE)) (rt_pin_write PIN_RELAY1 True (rt_pin_mode_output PIN_RELAY1 s))))))"
  have "relays_ok ?b"
    by (simp add: relays_ok_def dev_sensor_beep_ctl_def rt_pin_write_def rt_pin_mode_output_def)
  then have "relays_ok (snd (dev_sensor_zph02_init e (snd (dev_sensor_mq2_init (snd (dev_sensor_sht3x_init e ?b))))))"
    by (rule relays_ok_quiet [OF quiet_init_tail])
  moreover have "relays_ok (snd (mqtt_start allocated t)) = relays_ok t" for t :: "'a app"
    by (simp add: mqtt_start_def relays_ok_def)
  ultimately show "relays_ok s'"
    using a by (auto simp: dev_sensor_init_def dev_sensor_relay1_ctl_def dev_sensor_relay2_ctl_def)
qed

text \<open>
  C22. From initialisation on, through any sequence of commands, readings and sensor bytes, both relays
  are driven as outputs, each status variable says open or closed, and it says open exactly when
  the (active low) pin is low.
\<close>

theorem relays_track_pins:
  assumes "dev_sensor_init e allocated s0 = Some s" and "app_reach fp s s'"
  shows "pin_output s' PIN_RELAY1 \<and> pin_output s' PIN_RELAY2 \<and>
    relay1_status (result_data s') = (if pin_high s' PIN_RELAY1 then DEV_SENSOR_CLOSE else DEV_SENSOR_OPEN) \<and>
    relay2_status (result_data s') = (if pin_high s' PIN_RELAY2 then DEV_SENSOR_CLOSE else DEV_SENSOR_OPEN)"
proof -
  have "relays_ok s'"
    by (rule app_reach_invariant [where P = relays_ok, OF assms(2)])
      (use relays_ok_init [OF assms(1)] relays_ok_step in auto)
  then show ?thesis by (auto simp: relays_ok_def)
qed

definition env0 :: "int env" where
  "env0 = \<lparr>e_sht3x_init = None, e_sht3x_read = id, e_adc_value = 2000, e_uart_found = True, e_thread_created = True\<rparr>"

lemma init_Some: "\<exists>s. dev_sensor_init e allocated s0 = Some s"
  by (simp add: dev_sensor_init_def dev_sensor_relay1_ctl_def dev_sensor_relay2_ctl_def)

theorem relays_track_pins_witness:
  "\<exists>s. dev_sensor_init env0 True (app0 0) = Some s \<and> pin_output s PIN_RELAY1 \<and>
    relay1_status (result_data s) = (if pin_high s PIN_RELAY1 then DEV_SENSOR_CLOSE else DEV_SENSOR_OPEN)"
proof -
  obtain s where s: "dev_sensor_init env0 True (app0 0) = Some s" using init_Some by blast
  show ?thesis using relays_track_pins [OF s app_reach.start] s by blast
qed

subsection \<open>Commands\<close>

lemma message_bytes_inject:
  "map of_char (message_name c) = (map of_char (message_name c') :: u8 list) \<longleftrightarrow> c = c'"
  by (cases c; cases c'; simp)

lemma message_bytes_nonzero: "(0 :: u8) \<notin> set (map of_char (message_name c))"
  by (cases c) simp_all

lemma is_message_name: "is_message (map of_char (message_name c) @ 0 # r) c' = Some (c = c')"
proof -
  obtain x where "c_strcmp (map of_char (message_name c) @ 0 # r) (map of_char (message_name c') @ 0 # []) = Some x"
    "x = 0 \<longleftrightarrow> c = c'"
    using c_strcmp_zero [OF message_bytes_nonzero message_bytes_nonzero, where x = r and y = "[]"]
      message_bytes_inject by blast
  then show ?thesis by (simp add: is_message_def mqtt_message_buffer_def lit_def)
qed

text \<open>What each message is meant to do.\<close>

definition message_effect :: "iotb_mqtt_message_t \<Rightarrow> 'f app \<Rightarrow> 'f app option" where
  "message_effect c s =
     (case c of
        APPLETS_ONLINE \<Rightarrow> map_option snd (mqtt_publish (dev_sensor_all s) s)
      | DEVICE_SENSOR_ALL \<Rightarrow> map_option snd (mqtt_publish (dev_sensor_all s) s)
      | DEVICE_SENSOR_DATA \<Rightarrow> map_option snd (mqtt_publish (dev_sensor_data s) s)
      | RELAY_1_ON \<Rightarrow> dev_sensor_relay1_ctl DEV_SENSOR_OPEN s
      | RELAY_1_OFF \<Rightarrow> dev_sensor_relay1_ctl DEV_SENSOR_CLOSE s
      | RELAY_2_ON \<Rightarrow> dev_sensor_relay2_ctl DEV_SENSOR_OPEN s
      | RELAY_2_OFF \<Rightarrow> dev_sensor_relay2_ctl DEV_SENSOR_CLOSE s
      | BEEP_ON \<Rightarrow> map_option snd (mqtt_publish (mqtt_message_buffer BEEP_ON)
          (upd_result (beep_status_update (\<lambda>_. DEV_SENSOR_OPEN)) s))
      | BEEP_OFF \<Rightarrow> map_option snd (mqtt_publish (mqtt_message_buffer BEEP_OFF)
          (upd_result (beep_status_update (\<lambda>_. DEV_SENSOR_CLOSE)) s))
      | _ \<Rightarrow> Some s)"

lemma mqtt_command_name: "mqtt_command (map of_char (message_name c) @ 0 # r) s = message_effect c s"
  by (cases c) (simp_all add: mqtt_command_def is_message_name message_effect_def del: message_name.simps)

lemma mqtt_sub_callback_name:
  "mqtt_sub_callback (length pre) (int (length (message_name c))) (pre @ map of_char (message_name c) @ rest, s) =
    (case rest of
       [] \<Rightarrow> None
     | x # r \<Rightarrow> map_option (\<lambda>s'. (pre @ map of_char (message_name c) @ 0 # r, s')) (message_effect c s))"
proof (cases rest)
  case Nil
  then show ?thesis by (simp add: mqtt_sub_callback_def terminate_payload_def mem_set_def nat_add_distrib)
next
  case (Cons x r)
  have "terminate_payload (length pre) (int (length (message_name c))) (pre @ map of_char (message_name c) @ rest) =
      Some (pre @ map of_char (message_name c) @ 0 # r)"
    using Cons by (simp add: terminate_payload_def mem_set_def list_update_append nat_add_distrib)
  then show ?thesis
    using Cons by (cases "message_effect c s") (simp_all add: mqtt_sub_callback_def mqtt_command_name)
qed

text \<open>
  C29. A message whose payload is one of the known names has exactly that name's effect, wherever it lies
  in the read buffer and whatever follows it, as long as one byte follows it. A payload that ends
  at the end of the buffer makes the handler write its terminator outside (no result).
\<close>

theorem mqtt_sub_callback_dispatch:
  assumes "buf = pre @ map of_char (message_name c) @ rest"
  shows "mqtt_sub_callback (length pre) (int (length (message_name c))) (buf, s) =
    (case rest of
       [] \<Rightarrow> None
     | x # r \<Rightarrow> map_option (\<lambda>s'. (pre @ map of_char (message_name c) @ 0 # r, s')) (message_effect c s))"
  unfolding assms by (rule mqtt_sub_callback_name)

theorem mqtt_sub_callback_dispatch_witness:
  "mqtt_sub_callback (length [0x30, 0x0A :: u8]) (int (length (message_name RELAY_1_ON)))
      ([0x30, 0x0A] @ map of_char (message_name RELAY_1_ON) @ [7], app_idle) =
    (case [7 :: u8] of
       [] \<Rightarrow> None
     | x # r \<Rightarrow> map_option (\<lambda>s'. ([0x30, 0x0A] @ map of_char (message_name RELAY_1_ON) @ 0 # r, s'))
         (message_effect RELAY_1_ON app_idle))"
  by (rule mqtt_sub_callback_dispatch [OF refl])

text \<open>A run of readings.\<close>

fun readings :: "('f, 'd) fpu \<Rightarrow> 'f env list \<Rightarrow> 'f app \<Rightarrow> 'f app option" where
  "readings fp [] s = Some s"
| "readings fp (e # es) s = do { s \<leftarrow> dev_sensor_data_read fp e s; readings fp es s }"

text \<open>The gas reading of one conversion.\<close>

definition gas_alarm :: "('f, 'd) fpu \<Rightarrow> 'f env \<Rightarrow> bool" where
  "gas_alarm fp e = f_gt fp (mq2_formula fp
     (f_div fp (f_mul fp (f_3_3 fp) (f_of_u32 fp (e_adc_value e))) (f_4095 fp))) (f_50 fp)"

definition same_mq2 :: "'f app \<Rightarrow> 'f app \<Rightarrow> bool" where
  "same_mq2 s s' \<longleftrightarrow> dev_mq2_inited s' = dev_mq2_inited s \<and>
     beep_status (result_data s') = beep_status (result_data s) \<and> pin_high s' PIN_BEEP = pin_high s PIN_BEEP"

lemma read_sht3x_mq2: "read_sht3x e (s, d) = Some (s', d') \<Longrightarrow> same_mq2 s s'"
  by (auto simp: read_sht3x_def bind_eq_Some_conv Let_def same_mq2_def dev_sensor_sht3x_init_def
      dev_sensor_sht3x_deinit_def split: if_split_asm)

lemma read_zph02_mq2: "same_mq2 s (fst (read_zph02 e (s, d)))"
  by (simp add: read_zph02_def same_mq2_def dev_sensor_zph02_init_def Let_def)

lemma read_mq2_beep:
  assumes "dev_mq2_inited s"
  shows "dev_mq2_inited (fst (read_mq2 fp e (s, d)))"
    and "beep_status (result_data (fst (read_mq2 fp e (s, d)))) = beep_status (result_data s)"
    and "pin_high (fst (read_mq2 fp e (s, d))) PIN_BEEP =
      (if gas_alarm fp e then beep_status (result_data s) = DEV_SENSOR_OPEN \<or> pin_high s PIN_BEEP else False)"
  using assms by (simp_all add: read_mq2_def Let_def gas_alarm_def dev_sensor_beep_ctl_def rt_pin_write_def)

lemma data_read_beep:
  assumes "dev_sensor_data_read fp e s = Some s'" and "dev_mq2_inited s"
  shows "dev_mq2_inited s' \<and> beep_status (result_data s') = beep_status (result_data s) \<and>
    pin_high s' PIN_BEEP =
      (if gas_alarm fp e then beep_status (result_data s) = DEV_SENSOR_OPEN \<or> pin_high s PIN_BEEP else False)"
proof -
  let ?s0 = "upd_result (status_update (\<lambda>_. 4)) s"
  let ?d0 = "dev_sensor_data_upload (result_data ?s0) (result_data ?s0)"
  from assms obtain s1 d1 where 1: "read_sht3x e (?s0, ?d0) = Some (s1, d1)"
    by (auto simp: dev_sensor_data_read_def bind_eq_Some_conv Let_def)
  obtain s2 d2 where 2: "read_mq2 fp e (s1, d1) = (s2, d2)" by (cases "read_mq2 fp e (s1, d1)")
  obtain s3 d3 where 3: "read_zph02 e (s2, d2) = (s3, d3)" by (cases "read_zph02 e (s2, d2)")
  have "s' = upd_result (status_update (\<lambda>_. 5)) (upd_result (dev_sensor_data_upload d3) s3)"
    using assms 1 2 3 by (simp add: dev_sensor_data_read_def Let_def)
  moreover have "dev_mq2_inited s1" "beep_status (result_data s1) = beep_status (result_data s)"
    "pin_high s1 PIN_BEEP = pin_high s PIN_BEEP"
    using read_sht3x_mq2 [OF 1] assms(2) by (simp_all add: same_mq2_def)
  moreover have "same_mq2 s2 s3" using read_zph02_mq2 [of s2 e d2] 3 by simp
  ultimately show ?thesis
    using read_mq2_beep [of s1 fp e d1] 2 by (simp add: same_mq2_def dev_sensor_data_upload_def)
qed


text \<open>The pointer to the temperature sensor is set whenever it is used, so readings always return.\<close>

definition sht3x_ok :: "'f app \<Rightarrow> bool" where
  "sht3x_ok s \<longleftrightarrow> (dev_sht3x_inited s \<longrightarrow> dev_sht3x s \<noteq> None)"

lemma sht3x_ok_read_sht3x:
  assumes "sht3x_ok s"
  shows "\<exists>s' d'. read_sht3x e (s, d) = Some (s', d') \<and> sht3x_ok s'"
  using assms
  by (auto simp: read_sht3x_def sht3x_ok_def dev_sensor_sht3x_init_def Let_def)

lemma sht3x_ok_read_mq2: "sht3x_ok (fst (read_mq2 fp e (s, d))) = sht3x_ok s"
  by (simp add: read_mq2_def Let_def sht3x_ok_def dev_sensor_beep_ctl_def rt_pin_write_def dev_sensor_mq2_init_def)

lemma sht3x_ok_read_zph02: "sht3x_ok (fst (read_zph02 e (s, d))) = sht3x_ok s"
  by (simp add: read_zph02_def sht3x_ok_def dev_sensor_zph02_init_def Let_def)

lemma data_read_total:
  assumes "sht3x_ok s"
  shows "\<exists>s'. dev_sensor_data_read fp e s = Some s' \<and> sht3x_ok s'"
proof -
  let ?s0 = "upd_result (status_update (\<lambda>_. 4)) s"
  let ?d0 = "dev_sensor_data_upload (result_data ?s0) (result_data ?s0)"
  have "sht3x_ok ?s0" using assms by (simp add: sht3x_ok_def)
  from sht3x_ok_read_sht3x [OF this] obtain s1 d1 where
    1: "read_sht3x e (?s0, ?d0) = Some (s1, d1)" "sht3x_ok s1" by blast
  obtain s2 d2 where 2: "read_mq2 fp e (s1, d1) = (s2, d2)" by (cases "read_mq2 fp e (s1, d1)")
  obtain s3 d3 where 3: "read_zph02 e (s2, d2) = (s3, d3)" by (cases "read_zph02 e (s2, d2)")
  have "sht3x_ok s3"
    using 1(2) sht3x_ok_read_mq2 [of fp e s1 d1] sht3x_ok_read_zph02 [of e s2 d2] 2 3 by simp
  then show ?thesis
    using 1 2 3 by (simp add: dev_sensor_data_read_def Let_def sht3x_ok_def)
qed

lemma readings_total: "sht3x_ok s \<Longrightarrow> \<exists>s'. readings fp es s = Some s'"
proof (induction es arbitrary: s)
  case (Cons e es)
  from data_read_total [OF Cons.prems] obtain s1 where "dev_sensor_data_read fp e s = Some s1" "sht3x_ok s1"
    by blast
  with Cons.IH show ?case by simp
qed simp

text \<open>Integers instead of floating-point numbers: enough to run the code.\<close>

definition fpu0 :: "(int, int) fpu" where
  "fpu0 = \<lparr>f_3_3 = 3, f_4095 = 4095, f_5_1 = 5, f_4391_7 = 4391, f_m2_647 = - 2, f_10 = 10, f_50 = 50,
     d_7_905 = 8, f_of_u32 = uint, f_mul = (*), f_div = (\<lambda>x y. x sdiv y), f_sub = (-), f_gt = (>), f_to_int = c_int,
     d_of_f = id, d_div = (\<lambda>x y. x sdiv y), d_mul = (*), d_pow = (\<lambda>x y. 1), f_of_d = id\<rparr>"


subsection \<open>Sensors that failed to start\<close>

text \<open>A sensor that is busy and not initialised, with the readings it had.\<close>

definition sht3x_dead :: "'f \<Rightarrow> 'f \<Rightarrow> 'f app \<Rightarrow> bool" where
  "sht3x_dead t h s \<longleftrightarrow> \<not> dev_sht3x_inited s \<and> sht3x_status (result_data s) = DEV_SENSOR_BUSY \<and>
     sht3x_data_temp (result_data s) = t \<and> sht3x_data_humi (result_data s) = h"

lemma sht3x_dead_updates [simp]:
  "sht3x_dead t h (s\<lparr>outbox := x\<rparr>) = sht3x_dead t h s"
  "sht3x_dead t h (upd_result (beep_status_update f) s) = sht3x_dead t h s"
  "sht3x_dead t h (upd_result (status_update g) s) = sht3x_dead t h s"
  by (simp_all add: sht3x_dead_def)

lemma sht3x_dead_read:
  assumes "dev_sensor_data_read fp e s = Some s'" and "sht3x_dead t h s"
  shows "sht3x_dead t h s'"
proof -
  let ?s0 = "upd_result (status_update (\<lambda>_. 4)) s"
  let ?d0 = "dev_sensor_data_upload (result_data ?s0) (result_data ?s0)"
  have 1: "read_sht3x e (?s0, ?d0) = Some (?s0, ?d0)"
    using assms(2) by (simp add: read_sht3x_def sht3x_dead_def)
  obtain s2 d2 where 2: "read_mq2 fp e (?s0, ?d0) = (s2, d2)" by (cases "read_mq2 fp e (?s0, ?d0)")
  obtain s3 d3 where 3: "read_zph02 e (s2, d2) = (s3, d3)" by (cases "read_zph02 e (s2, d2)")
  have d0: "sht3x_data_temp ?d0 = t" "sht3x_data_humi ?d0 = h"
    using assms(2) by (simp_all add: sht3x_dead_def dev_sensor_data_upload_def)
  have m: "sht3x_dead t h (fst (read_mq2 fp e (?s0, ?d0)))"
    "sht3x_data_temp (snd (read_mq2 fp e (?s0, ?d0))) = t" "sht3x_data_humi (snd (read_mq2 fp e (?s0, ?d0))) = h"
    using assms(2) d0 by (simp_all add: read_mq2_def Let_def sht3x_dead_def dev_sensor_beep_ctl_def
        rt_pin_write_def dev_sensor_mq2_init_def)
  have z: "sht3x_dead t h (fst (read_zph02 e (s2, d2)))"
    "sht3x_data_temp (snd (read_zph02 e (s2, d2))) = t" "sht3x_data_humi (snd (read_zph02 e (s2, d2))) = h"
    using m 2 by (simp_all add: read_zph02_def Let_def sht3x_dead_def dev_sensor_zph02_init_def)
  have "s' = upd_result (status_update (\<lambda>_. 5)) (upd_result (dev_sensor_data_upload d3) s3)"
    using assms(1) 1 2 3 by (simp add: dev_sensor_data_read_def Let_def)
  then show ?thesis using z 3 by (simp add: sht3x_dead_def dev_sensor_data_upload_def)
qed

lemma sht3x_dead_relays:
  "dev_sensor_relay1_ctl c s = Some s' \<Longrightarrow> sht3x_dead t h s \<Longrightarrow> sht3x_dead t h s'"
  "dev_sensor_relay2_ctl c s = Some s' \<Longrightarrow> sht3x_dead t h s \<Longrightarrow> sht3x_dead t h s'"
  by (cases c; auto simp: dev_sensor_relay1_ctl_def sht3x_dead_def rt_pin_write_def rt_pin_mode_output_def
      dest!: mqtt_publish_effect)
    (cases c; auto simp: dev_sensor_relay2_ctl_def sht3x_dead_def rt_pin_write_def rt_pin_mode_output_def
      dest!: mqtt_publish_effect)

lemma sht3x_dead_step: "app_step fp s s' \<Longrightarrow> sht3x_dead t h s \<Longrightarrow> sht3x_dead t h s'"
proof (induction rule: app_step.induct)
  case (command payload s s')
  from command(1) show ?case
  proof (cases rule: mqtt_command_cases)
    case (4 x c)
    then show ?thesis using command(2) by (simp add: sht3x_dead_def)
  qed (use command(2) sht3x_dead_relays in auto)
next
  case (online s s')
  then show ?case by (auto simp: mqtt_online_callback_def dest!: mqtt_publish_effect)
next
  case (byte ch s s')
  then show ?case
    by (auto simp: dev_sensor_zph02_byte_def dev_zph02_value_check_def Let_def sht3x_dead_def bind_eq_Some_conv
      split: if_split_asm)
next
  case (buffer x a b s s')
  then show ?case
    by (auto simp: dev_sensor_mqtt_buffer_def print_all_def print_data_def sht3x_dead_def bind_eq_Some_conv
      split: if_split_asm)
qed (rule sht3x_dead_read)

lemma sht3x_dead_init:
  "e_sht3x_init e = None \<Longrightarrow> \<not> dev_sht3x_inited s \<Longrightarrow>
    sht3x_dead (sht3x_data_temp (result_data s)) (sht3x_data_humi (result_data s)) (snd (dev_sensor_sht3x_init e s))"
  "sht3x_dead t h (snd (dev_sensor_mq2_init s)) = sht3x_dead t h s"
  "sht3x_dead t h (snd (dev_sensor_zph02_init e s)) = sht3x_dead t h s"
  "sht3x_dead t h (snd (mqtt_start allocated s)) = sht3x_dead t h s"
  by (simp_all add: sht3x_dead_def dev_sensor_sht3x_init_def dev_sensor_sht3x_deinit_def dev_sensor_mq2_init_def
      dev_sensor_zph02_init_def mqtt_start_def Let_def)

text \<open>
  A temperature and humidity sensor that does not answer during initialisation is never tried again:
  whatever happens afterwards, it stays busy and uninitialised and its two readings keep their initial
  values (the branch of \<open>dev_sensor_data_read\<close> that initialises it again needs an idle sensor).
\<close>

lemma sht3x_never_retried:
  assumes "e_sht3x_init e = None" and "\<not> dev_sht3x_inited s0" and "dev_sensor_init e allocated s0 = Some s"
    and "app_reach fp s s'"
  shows "\<not> dev_sht3x_inited s' \<and> sht3x_status (result_data s') = DEV_SENSOR_BUSY \<and>
    sht3x_data_temp (result_data s') = sht3x_data_temp (result_data s0) \<and>
    sht3x_data_humi (result_data s') = sht3x_data_humi (result_data s0)"
proof -
  let ?dead = "sht3x_dead (sht3x_data_temp (result_data s0)) (sht3x_data_humi (result_data s0))"
  obtain b where b: "dev_sensor_init e allocated s0 = Some (snd (mqtt_start allocated
      (snd (dev_sensor_zph02_init e (snd (dev_sensor_mq2_init (snd (dev_sensor_sht3x_init e b))))))))"
    and sd: "\<not> dev_sht3x_inited b" "sht3x_data_temp (result_data b) = sht3x_data_temp (result_data s0)"
      "sht3x_data_humi (result_data b) = sht3x_data_humi (result_data s0)"
    using assms(2)
    by (simp add: dev_sensor_init_def dev_sensor_relay1_ctl_def dev_sensor_relay2_ctl_def
        dev_sensor_beep_ctl_def rt_pin_write_def rt_pin_mode_output_def)
  have "?dead s"
    using b assms(3) sht3x_dead_init(1) [OF assms(1) sd(1)] sd(2,3) by (simp add: sht3x_dead_init(2-4))
  then have "?dead s'"
    by (rule app_reach_invariant [where P = ?dead, OF assms(4)]) (rule sht3x_dead_step)
  then show ?thesis by (simp add: sht3x_dead_def)
qed

subsection \<open>The status lines\<close>

text \<open>What a format whose only conversions are \<open>%d\<close> prints.\<close>

fun plain_out :: "u8 list \<Rightarrow> int list \<Rightarrow> u8 list" where
  "plain_out [] xs = []"
| "plain_out (c # f) xs =
     (if c = 37 then (case xs of [] \<Rightarrow> [] | x # xs' \<Rightarrow> dec_int x @ plain_out (tl f) xs')
      else c # plain_out f xs)"

fun plain_format :: "u8 list \<Rightarrow> nat \<Rightarrow> bool" where
  "plain_format [] n = (n = 0)"
| "plain_format (c # f) n =
     (if c = 37 then n \<noteq> 0 \<and> f \<noteq> [] \<and> hd f = 100 \<and> plain_format (tl f) (n - 1)
      else c \<noteq> 0 \<and> plain_format f n)"

lemma vsnprintf_plain:
  assumes "plain_format f (length ns)"
  shows "vsnprintf_loop st (f @ [0]) (map VInt ns) = puts st (plain_out f (map sint ns))"
  using assms
proof (induction f "map sint ns" arbitrary: st ns rule: plain_out.induct)
  case (2 c f)
  show ?case
  proof (cases "c = 37")
    case True
    with "2.prems" obtain n ns' f' where n: "ns = n # ns'" and f: "f = 100 # f'" and "plain_format f' (length ns')"
      by (cases ns; cases f) auto
    then have "vsnprintf_loop st' (f' @ [0]) (map VInt ns') = puts st' (plain_out f' (map sint ns'))" for st'
      using "2.hyps"(1) [OF True] by simp
    then show ?thesis using True n f
      by (cases "puts st (dec_int (sint n))") (simp_all add: conversion_d puts_append)
  next
    case False
    with 2 have "vsnprintf_loop st' (f @ [0]) (map VInt ns) = puts st' (plain_out f (map sint ns))" for st'
      by simp
    then show ?thesis using False "2.prems" by (cases "putc st c") simp_all
  qed
qed simp

lemma puts_overwrite:
  assumes "p + length cs \<le> e" and "p + length cs \<le> length m"
  shows "puts (m, p, e) cs = Some (overwrite m p cs, p + length cs, e)"
  using assms
  by (induction cs arbitrary: m p) (simp_all add: putc_def mem_set_def overwrite_update_Suc)

lemma plain_out_nonzero: "plain_format f (length xs) \<Longrightarrow> 0 \<notin> set (plain_out f xs)"
proof (induction f xs rule: plain_out.induct)
  case (2 c f xs)
  have "0 \<notin> set (dec_int x)" for x using dec_nat_nonzero [of 0] by (auto simp: dec_int_def)
  with 2 show ?case by (auto split: list.splits if_splits)
qed simp

text \<open>A line that fits in the buffer is printed in full and terminated.\<close>

lemma rt_sprintf_plain:
  assumes "plain_format f (length ns)" and "length (plain_out f (map sint ns)) < length buf"
    and "base + length buf < 2 ^ 32"
  shows "\<exists>m. rt_sprintf base buf (f @ [0]) (map VInt ns) = Some (int (length (plain_out f (map sint ns))), m) \<and>
    c_str m = Some (plain_out f (map sint ns)) \<and> length m = length buf"
proof -
  let ?out = "plain_out f (map sint ns)"
  have u: "unat (- 1 :: u32) = 2 ^ 32 - 1" by (simp add: unsigned_minus_1_eq_mask mask_eq_exp_minus_1)
  have "base + unat (- 1 :: u32) \<ge> 2 ^ 32 \<or> base = 0" using u by auto
  then obtain e where e: "(if base + unat (- 1 :: u32) \<ge> 2 ^ 32 then 2 ^ 32 - 1 - base else unat (- 1 :: u32)) = e"
      "length buf \<le> e"
    using assms(3) u by auto
  have "vsnprintf_loop (buf, 0, e) (f @ [0]) (map VInt ns) = Some (overwrite buf 0 ?out, length ?out, e)"
    using puts_overwrite [of 0 ?out e buf] vsnprintf_plain [OF assms(1)] assms(2) e(2) by simp
  moreover have "mem_set (overwrite buf 0 ?out) (length ?out) 0 = Some (overwrite buf 0 (?out @ [0]))"
    using assms(2) by (simp add: mem_set_overwrite mem_write_def overwrite_overwrite_append [where i = 0, simplified])
  moreover have "c_str (overwrite buf 0 (?out @ [0])) = Some ?out"
    using plain_out_nonzero [of f "map sint ns"] assms(1,2) by (simp add: overwrite_def c_str_terminated)
  ultimately show ?thesis
    using e assms(2) by (simp add: rt_sprintf_def rt_vsprintf_def rt_vsnprintf_def)
qed

definition line_all :: "u8 list" where "line_all = butlast format_all"
definition line_data :: "u8 list" where "line_data = butlast format_data"

lemma formats:
  "format_all = line_all @ [0]" "plain_format line_all 12"
  "format_data = line_data @ [0]" "plain_format line_data 8"
  by (simp_all add: line_all_def line_data_def format_all_def format_data_def)

lemma length_plain_line:
  "length (plain_out line_data [a, b, c, d, e, f, g, h]) = 14 +
     length (dec_int a) + length (dec_int b) + length (dec_int c) + length (dec_int d) +
     length (dec_int e) + length (dec_int f) + length (dec_int g) + length (dec_int h)"
  "length (plain_out line_all [a, b, c, d, e, f, g, h, i, j, k, l]) = 18 +
     length (dec_int a) + length (dec_int b) + length (dec_int c) + length (dec_int d) +
     length (dec_int e) + length (dec_int f) + length (dec_int g) + length (dec_int h) +
     length (dec_int i) + length (dec_int j) + length (dec_int k) + length (dec_int l)"
  by (simp_all add: line_data_def line_all_def format_data_def format_all_def)

lemma length_dec_digit: "length (dec_int (x smod 10)) \<le> 2"
proof -
  have "- 10 < x smod 10" "x smod 10 < 10"
    using abs_mod_less [of 10 "\<bar>x\<bar>"] by (auto simp: signed_modulo_int_def signed_divide_int_def abs_if sgn_if)
  then show ?thesis
    using length_dec_nat [of "nat (- (x smod 10))" 1] length_dec_nat [of "nat (x smod 10)" 1]
    by (cases "x smod 10 < 0") (simp_all add: dec_int_def nat_less_iff)
qed

lemma length_dec_c32: "length (dec_int (sint (w :: u32))) \<le> 11"
  using sint_ge [of w] sint_lt [of w] by (intro length_dec_int) simp_all

lemma length_dec_digit_c32: "length (dec_int (sint (word_of_int (x smod 10) :: u32))) \<le> 2"
proof -
  have "- 10 < x smod 10" "x smod 10 < 10"
    using abs_mod_less [of 10 "\<bar>x\<bar>"] by (auto simp: signed_modulo_int_def signed_divide_int_def abs_if sgn_if)
  then have "sint (word_of_int (x smod 10) :: u32) = x smod 10"
    by (simp add: int_word_sint)
  then show ?thesis by (simp only: length_dec_digit)
qed

lemma length_dec_status: "length (dec_int (sint (word_of_int (dev_sensor_num c) :: u32))) = 1"
  by (cases c) (simp_all add: dec_int_def dec_nat.simps)

lemma sensor_numbers_length:
  assumes "sensor_numbers fp d = Some xs"
  obtains t t10 h h10 g g10 z where "xs = [t, t10 smod 10, h, h10 smod 10, g, g10 smod 10, z sdiv 10, z smod 10]"
  using assms by (auto simp: sensor_numbers_def bind_eq_Some_conv Let_def)

text \<open>
  The status lines. When the readings can be converted to integers, both lines are printed in full
  inside their buffers of 100 bytes, each number in signed decimal notation at its place; the last
  field of the long line is the word found behind the arguments, which is none of the readings.
\<close>

lemma status_lines_printed:
  assumes "status (result_data s) \<noteq> 0" and "sensor_numbers fp (result_data s) = Some xs"
    and "length (dev_sensor_all s) = 100" and "length (dev_sensor_data s) = 100"
    and "all_base + 100 < 2 ^ 32" and "data_base + 100 < 2 ^ 32"
  shows "\<exists>m1 m2. dev_sensor_mqtt_buffer fp stray all_base data_base s =
      Some (s\<lparr>dev_sensor_all := m1, dev_sensor_data := m2\<rparr>) \<and> length m1 = 100 \<and> length m2 = 100 \<and>
    c_str m1 = Some (plain_out line_all (map (\<lambda>i. sint (word_of_int i :: u32)) (xs @ map dev_sensor_num
      [relay1_status (result_data s), relay2_status (result_data s), beep_status (result_data s)]) @ [sint stray])) \<and>
    c_str m2 = Some (plain_out line_data (map (\<lambda>i. sint (word_of_int i :: u32)) xs))"
proof -
  obtain t t10 h h10 g g10 z where
    xs: "xs = [t, t10 smod 10, h, h10 smod 10, g, g10 smod 10, z sdiv 10, z smod 10]"
    using sensor_numbers_length [OF assms(2)] by blast
  let ?st = "map dev_sensor_num
    [relay1_status (result_data s), relay2_status (result_data s), beep_status (result_data s)]"
  let ?n1 = "map word_of_int (xs @ ?st) @ [stray] :: u32 list" and ?n2 = "map word_of_int xs :: u32 list"
  note lengths = length_plain_line length_dec_status
  note small = length_dec_digit_c32 [of t10] length_dec_digit_c32 [of h10] length_dec_digit_c32 [of g10]
    length_dec_digit_c32 [of z] length_dec_c32 [of "word_of_int t"] length_dec_c32 [of "word_of_int h"]
    length_dec_c32 [of "word_of_int g"] length_dec_c32 [of "word_of_int (z sdiv 10)"] length_dec_c32 [of stray]
  have "length (plain_out line_all (map sint ?n1)) < 100" "length (plain_out line_data (map sint ?n2)) < 100"
    using small by (simp_all add: xs lengths)
  moreover have "plain_format line_all (length ?n1)" "plain_format line_data (length ?n2)"
    using formats(2,4) by (simp_all add: xs eval_nat_numeral)
  ultimately obtain m1 m2 where r:
    "rt_sprintf all_base (dev_sensor_all s) format_all (map VInt ?n1) = Some (int (length (plain_out line_all (map sint ?n1))), m1)"
    "c_str m1 = Some (plain_out line_all (map sint ?n1))" "length m1 = 100"
    "rt_sprintf data_base (dev_sensor_data s) format_data (map VInt ?n2) = Some (int (length (plain_out line_data (map sint ?n2))), m2)"
    "c_str m2 = Some (plain_out line_data (map sint ?n2))" "length m2 = 100"
    using rt_sprintf_plain [of line_all ?n1 "dev_sensor_all s" all_base]
      rt_sprintf_plain [of line_data ?n2 "dev_sensor_data s" data_base] assms(3-6) formats(1,3) by auto
  have va: "map va_of_int ys = map VInt (map word_of_int ys)" for ys by (simp add: va_of_int_def)
  have "print_all fp stray all_base s = Some (s\<lparr>dev_sensor_all := m1\<rparr>)"
    using r(1) assms(2) by (simp only: print_all_def va map_append) simp
  moreover have "print_data fp data_base (s\<lparr>dev_sensor_all := m1\<rparr>) = Some (s\<lparr>dev_sensor_all := m1, dev_sensor_data := m2\<rparr>)"
    using r(4) assms(2) by (simp add: print_data_def va del: map_map)
  ultimately have "dev_sensor_mqtt_buffer fp stray all_base data_base s =
      Some (s\<lparr>dev_sensor_all := m1, dev_sensor_data := m2\<rparr>)"
    using assms(1) by (simp add: dev_sensor_mqtt_buffer_def)
  with r(2,3,5,6) show ?thesis by (intro exI [of _ m1] exI [of _ m2]) (simp add: comp_def)
qed

end
