(* ===== verification/Heap.thy ===== *)
theory Heap
  imports Kstring
begin

text \<open>
  The small-memory allocator of the kernel, \<open>rt-thread/src/mem.c\<close> (32-bit target, no \<open>RT_USING_MEMTRACE\<close>).
  The heap is the list of its bytes from \<open>heap_ptr\<close> on: headers are stored in these bytes as
  \<open>struct heap_mem\<close> is, twelve bytes, little-endian, and so is the user's data. \<open>lfree\<close> and \<open>heap_end\<close>
  are offsets from \<open>heap_ptr\<close>; pointers passed in and out are addresses, 0 the null pointer.

  The semaphore \<open>heap_sem\<close> makes every operation atomic; a call is one step here. \<^const>\<open>None\<close> is an access
  outside the heap, a failed assertion or a loop that does not end.
\<close>

subsection \<open>Headers\<close>

record heap_mem =
  magic :: u16
  used :: u16
  hnext :: u32
  hprev :: u32

abbreviation (input) "HEAP_MAGIC \<equiv> 0x1EA0 :: u16"
abbreviation (input) "MIN_SIZE_ALIGNED \<equiv> 12 :: u32"
abbreviation (input) "SIZEOF_STRUCT_MEM \<equiv> 12 :: u32"

definition hdr_bytes :: "heap_mem \<Rightarrow> u8 list" where
  "hdr_bytes h = half_bytes (magic h) @ half_bytes (used h) @ word_bytes (hnext h) @ word_bytes (hprev h)"

definition bytes_hdr :: "u8 list \<Rightarrow> heap_mem" where
  "bytes_hdr bs = \<lparr>magic = bytes_half bs, used = bytes_half (drop 2 bs), hnext = bytes_word (drop 4 bs),
     hprev = bytes_word (drop 8 bs)\<rparr>"

definition get_hdr :: "u8 list \<Rightarrow> u32 \<Rightarrow> heap_mem option" where
  "get_hdr m p = map_option bytes_hdr (mem_read m (unat p) 12)"

definition put_hdr :: "u8 list \<Rightarrow> u32 \<Rightarrow> heap_mem \<Rightarrow> u8 list option" where
  "put_hdr m p h = mem_write m (unat p) (hdr_bytes h)"

text \<open>An assignment to fields of the header at \<open>p\<close>.\<close>

definition upd_hdr :: "u8 list \<Rightarrow> u32 \<Rightarrow> (heap_mem \<Rightarrow> heap_mem) \<Rightarrow> u8 list option" where
  "upd_hdr m p f = do { h \<leftarrow> get_hdr m p; put_hdr m p (f h) }"

subsection \<open>The allocator\<close>

record heap =
  hbytes :: "u8 list"
  heap_ptr :: u32
  heap_end :: u32
  lfree :: u32
  mem_size_aligned :: u32
  used_mem :: u32
  max_mem :: u32

definition RT_ALIGN :: "u32 \<Rightarrow> u32" where
  "RT_ALIGN sz = (sz + 3) AND NOT 3"

definition RT_ALIGN_DOWN :: "u32 \<Rightarrow> u32" where
  "RT_ALIGN_DOWN sz = sz AND NOT 3"

definition plug_forward :: "heap \<Rightarrow> u32 \<Rightarrow> heap option" where
  "plug_forward s ptr = do {
     mem \<leftarrow> get_hdr (hbytes s) ptr;
     if ptr \<noteq> hnext mem then do {
       nmem \<leftarrow> get_hdr (hbytes s) (hnext mem);
       if used nmem = 0 \<and> hnext mem \<noteq> heap_end s then do {
         let s = (if lfree s = hnext mem then s\<lparr>lfree := ptr\<rparr> else s);
         m \<leftarrow> upd_hdr (hbytes s) ptr (hnext_update (\<lambda>_. hnext nmem));
         m \<leftarrow> upd_hdr m (hnext nmem) (hprev_update (\<lambda>_. ptr));
         Some (s\<lparr>hbytes := m\<rparr>) }
       else Some s }
     else Some s }"

definition plug_backward :: "heap \<Rightarrow> u32 \<Rightarrow> heap option" where
  "plug_backward s ptr = do {
     mem \<leftarrow> get_hdr (hbytes s) ptr;
     if hprev mem \<noteq> ptr then do {
       pmem \<leftarrow> get_hdr (hbytes s) (hprev mem);
       if used pmem = 0 then do {
         let s = (if lfree s = ptr then s\<lparr>lfree := hprev mem\<rparr> else s);
         m \<leftarrow> upd_hdr (hbytes s) (hprev mem) (hnext_update (\<lambda>_. hnext mem));
         m \<leftarrow> upd_hdr m (hnext mem) (hprev_update (\<lambda>_. hprev mem));
         Some (s\<lparr>hbytes := m\<rparr>) }
       else Some s }
     else Some s }"

definition plug_holes :: "heap \<Rightarrow> u32 \<Rightarrow> heap option" where
  "plug_holes s ptr = do {
     rt_assert (heap_ptr s + ptr \<ge> heap_ptr s);
     rt_assert (heap_ptr s + ptr < heap_ptr s + heap_end s);
     mem \<leftarrow> get_hdr (hbytes s) ptr;
     rt_assert (used mem = 0);
     s \<leftarrow> plug_forward s ptr;
     plug_backward s ptr }"

text \<open>\<open>ram\<close> is the memory from the aligned beginning to the aligned end, whatever it holds.\<close>

definition rt_system_heap_init :: "u8 list \<Rightarrow> u32 \<Rightarrow> u32 \<Rightarrow> heap \<Rightarrow> heap option" where
  "rt_system_heap_init ram begin_addr end_addr s = (
     let begin_align = RT_ALIGN begin_addr; end_align = RT_ALIGN_DOWN end_addr in
     if end_align > 2 * SIZEOF_STRUCT_MEM \<and> end_align - 2 * SIZEOF_STRUCT_MEM \<ge> begin_align then do {
       let sz = end_align - begin_align - 2 * SIZEOF_STRUCT_MEM;
       let heap_end = sz + SIZEOF_STRUCT_MEM;
       m \<leftarrow> put_hdr ram 0 \<lparr>magic = HEAP_MAGIC, used = 0, hnext = sz + SIZEOF_STRUCT_MEM, hprev = 0\<rparr>;
       m \<leftarrow> put_hdr m heap_end \<lparr>magic = HEAP_MAGIC, used = 1, hnext = sz + SIZEOF_STRUCT_MEM,
              hprev = sz + SIZEOF_STRUCT_MEM\<rparr>;
       Some (s\<lparr>hbytes := m, heap_ptr := begin_align, heap_end := heap_end, lfree := 0,
              mem_size_aligned := sz\<rparr>) }
     else Some s)"

text \<open>The search of \<open>rt_malloc\<close>, from \<open>ptr\<close> on; the result is the block taken.\<close>

partial_function (option) malloc_find :: "heap \<Rightarrow> u32 \<Rightarrow> u32 \<Rightarrow> u32 option option" where
  "malloc_find s sz ptr =
     (if ptr < mem_size_aligned s - sz then
        Option.bind (get_hdr (hbytes s) ptr) (\<lambda>mem.
          if used mem = 0 \<and> hnext mem - (ptr + SIZEOF_STRUCT_MEM) \<ge> sz then Some (Some ptr)
          else malloc_find s sz (hnext mem))
      else Some None)"

text \<open>The loop that moves \<open>lfree\<close> to the next free block.\<close>

partial_function (option) lfree_loop :: "heap \<Rightarrow> u32 \<Rightarrow> u32 option" where
  "lfree_loop s q =
     Option.bind (get_hdr (hbytes s) q) (\<lambda>mem.
       if used mem \<noteq> 0 \<and> q \<noteq> heap_end s then lfree_loop s (hnext mem) else Some q)"

definition add_used :: "u32 \<Rightarrow> heap \<Rightarrow> heap" where
  "add_used n s =
     (let s = s\<lparr>used_mem := used_mem s + n\<rparr> in
      if max_mem s < used_mem s then s\<lparr>max_mem := used_mem s\<rparr> else s)"

text \<open>The header of the remainder behind a block of \<open>sz\<close> bytes at \<open>ptr\<close>.\<close>

definition split_block :: "heap \<Rightarrow> u32 \<Rightarrow> u32 \<Rightarrow> (heap_mem \<Rightarrow> heap_mem) \<Rightarrow> heap option" where
  "split_block s ptr sz mark = do {
     mem \<leftarrow> get_hdr (hbytes s) ptr;
     let ptr2 = ptr + SIZEOF_STRUCT_MEM + sz;
     m \<leftarrow> put_hdr (hbytes s) ptr2 \<lparr>magic = HEAP_MAGIC, used = 0, hnext = hnext mem, hprev = ptr\<rparr>;
     m \<leftarrow> upd_hdr m ptr (mark \<circ> hnext_update (\<lambda>_. ptr2));
     m \<leftarrow> (if hnext mem \<noteq> mem_size_aligned s + SIZEOF_STRUCT_MEM
           then upd_hdr m (hnext mem) (hprev_update (\<lambda>_. ptr2)) else Some m);
     Some (s\<lparr>hbytes := m\<rparr>) }"

definition malloc_take :: "heap \<Rightarrow> u32 \<Rightarrow> u32 \<Rightarrow> (u32 \<times> heap) option" where
  "malloc_take s sz ptr = do {
     mem \<leftarrow> get_hdr (hbytes s) ptr;
     s \<leftarrow> (if hnext mem - (ptr + SIZEOF_STRUCT_MEM) \<ge> sz + SIZEOF_STRUCT_MEM + MIN_SIZE_ALIGNED then do {
             s \<leftarrow> split_block s ptr sz (used_update (\<lambda>_. 1));
             Some (add_used (sz + SIZEOF_STRUCT_MEM) s) }
           else do {
             m \<leftarrow> upd_hdr (hbytes s) ptr (used_update (\<lambda>_. 1));
             Some (add_used (hnext mem - ptr) (s\<lparr>hbytes := m\<rparr>)) });
     m \<leftarrow> upd_hdr (hbytes s) ptr (magic_update (\<lambda>_. HEAP_MAGIC));
     let s = s\<lparr>hbytes := m\<rparr>;
     s \<leftarrow> (if ptr = lfree s then do {
             q \<leftarrow> lfree_loop s (lfree s);
             mem \<leftarrow> get_hdr (hbytes s) q;
             rt_assert (q = heap_end s \<or> used mem = 0);
             Some (s\<lparr>lfree := q\<rparr>) }
           else Some s);
     rt_assert (heap_ptr s + ptr + SIZEOF_STRUCT_MEM + sz \<le> heap_ptr s + heap_end s);
     rt_assert ((heap_ptr s + ptr + SIZEOF_STRUCT_MEM) mod 4 = 0);
     rt_assert ((heap_ptr s + ptr) AND 3 = 0);
     Some (heap_ptr s + ptr + SIZEOF_STRUCT_MEM, s) }"

definition rt_malloc :: "heap \<Rightarrow> u32 \<Rightarrow> (u32 \<times> heap) option" where
  "rt_malloc s sz =
     (if sz = 0 then Some (0, s)
      else
       let sz = RT_ALIGN sz in
       if sz > mem_size_aligned s then Some (0, s)
       else do {
         let sz = (if sz < MIN_SIZE_ALIGNED then MIN_SIZE_ALIGNED else sz);
         r \<leftarrow> malloc_find s sz (lfree s);
         (case r of None \<Rightarrow> Some (0, s) | Some ptr \<Rightarrow> malloc_take s sz ptr) })"

definition rt_free :: "heap \<Rightarrow> u32 \<Rightarrow> heap option" where
  "rt_free s rmem =
     (if rmem = 0 then Some s
      else do {
        rt_assert (rmem AND 3 = 0);
        rt_assert (rmem \<ge> heap_ptr s \<and> rmem < heap_ptr s + heap_end s);
        let ptr = rmem - SIZEOF_STRUCT_MEM - heap_ptr s;
        mem \<leftarrow> get_hdr (hbytes s) ptr;
        rt_assert (used mem \<noteq> 0);
        rt_assert (magic mem = HEAP_MAGIC);
        m \<leftarrow> upd_hdr (hbytes s) ptr (used_update (\<lambda>_. 0) \<circ> magic_update (\<lambda>_. HEAP_MAGIC));
        let s = s\<lparr>hbytes := m\<rparr>;
        let s = (if heap_ptr s + ptr < heap_ptr s + lfree s then s\<lparr>lfree := ptr\<rparr> else s);
        let s = s\<lparr>used_mem := used_mem s - (hnext mem - ptr)\<rparr>;
        plug_holes s ptr })"

definition rt_realloc :: "heap \<Rightarrow> u32 \<Rightarrow> u32 \<Rightarrow> (u32 \<times> heap) option" where
  "rt_realloc s rmem newsz = (
     let newsz = RT_ALIGN newsz in
     if newsz > mem_size_aligned s then Some (0, s)
     else if newsz = 0 then map_option (Pair 0) (rt_free s rmem)
     else if rmem = 0 then rt_malloc s newsz
     else if rmem < heap_ptr s \<or> rmem \<ge> heap_ptr s + heap_end s then Some (rmem, s)
     else do {
       let ptr = rmem - SIZEOF_STRUCT_MEM - heap_ptr s;
       mem \<leftarrow> get_hdr (hbytes s) ptr;
       let sz = hnext mem - ptr - SIZEOF_STRUCT_MEM;
       if sz = newsz then Some (rmem, s)
       else if newsz + SIZEOF_STRUCT_MEM + 12 < sz then do {
         s \<leftarrow> split_block (s\<lparr>used_mem := used_mem s - (sz - newsz)\<rparr>) ptr newsz id;
         s \<leftarrow> plug_holes s (ptr + SIZEOF_STRUCT_MEM + newsz);
         Some (rmem, s) }
       else do {
         (nmem, s) \<leftarrow> rt_malloc s newsz;
         if nmem \<noteq> 0 then do {
           m \<leftarrow> rt_memcpy (unat (heap_ptr s)) (unat (heap_ptr s)) (hbytes s) (unat (nmem - heap_ptr s))
                  (hbytes s) (unat (rmem - heap_ptr s)) (unat (if sz < newsz then sz else newsz));
           s \<leftarrow> rt_free (s\<lparr>hbytes := m\<rparr>) rmem;
           Some (nmem, s) }
         else Some (nmem, s) } })"

definition rt_calloc :: "heap \<Rightarrow> u32 \<Rightarrow> u32 \<Rightarrow> (u32 \<times> heap) option" where
  "rt_calloc s count sz = do {
     (p, s) \<leftarrow> rt_malloc s (count * sz);
     if p \<noteq> 0 then do {
       m \<leftarrow> rt_memset (unat (heap_ptr s)) (hbytes s) (unat (p - heap_ptr s)) 0 (unat (count * sz));
       Some (p, s\<lparr>hbytes := m\<rparr>) }
     else Some (p, s) }"

definition rt_memory_info :: "heap \<Rightarrow> u32 \<times> u32 \<times> u32" where
  "rt_memory_info s = (mem_size_aligned s, used_mem s, max_mem s)"


subsection \<open>Headers in memory\<close>

lemma length_hdr_bytes [simp]: "length (hdr_bytes h) = 12"
  by (simp add: hdr_bytes_def half_bytes_def word_bytes_def)

lemma bytes_hdr_bytes [simp]: "bytes_hdr (hdr_bytes h) = h"
proof -
  have "drop 2 (hdr_bytes h) = half_bytes (used h) @ word_bytes (hnext h) @ word_bytes (hprev h)"
    "drop 4 (hdr_bytes h) = word_bytes (hnext h) @ word_bytes (hprev h)"
    "drop 8 (hdr_bytes h) = word_bytes (hprev h) @ []"
    by (simp_all add: hdr_bytes_def half_bytes_def word_bytes_def)
  then have "bytes_half (hdr_bytes h) = magic h" "bytes_half (drop 2 (hdr_bytes h)) = used h"
    "bytes_word (drop 4 (hdr_bytes h)) = hnext h" "bytes_word (drop 8 (hdr_bytes h)) = hprev h"
    by (simp_all only: bytes_word_bytes bytes_half_bytes hdr_bytes_def)
  then show ?thesis by (simp add: bytes_hdr_def)
qed

text \<open>A change confined to the cells from \<open>a\<close> up to \<open>b\<close>.\<close>

definition framed :: "u8 list \<Rightarrow> u8 list \<Rightarrow> nat \<Rightarrow> nat \<Rightarrow> bool" where
  "framed m m' a b \<longleftrightarrow> length m' = length m \<and> take a m' = take a m \<and> drop b m' = drop b m"

lemma framed_nth:
  "framed m m' a b \<longleftrightarrow> length m' = length m \<and> (\<forall>i < length m. i < a \<or> b \<le> i \<longrightarrow> m' ! i = m ! i)"
proof -
  have "take a m' = take a m \<longleftrightarrow> (\<forall>i < length m. i < a \<longrightarrow> m' ! i = m ! i)"
    "drop b m' = drop b m \<longleftrightarrow> (\<forall>i < length m. b \<le> i \<longrightarrow> m' ! i = m ! i)" if l: "length m' = length m"
  proof -
    show "take a m' = take a m \<longleftrightarrow> (\<forall>i < length m. i < a \<longrightarrow> m' ! i = m ! i)"
      using l by (auto simp: list_eq_iff_nth_eq)
    have "(\<forall>i < length m - b. m' ! (b + i) = m ! (b + i)) \<longleftrightarrow> (\<forall>i < length m. b \<le> i \<longrightarrow> m' ! i = m ! i)"
    proof (intro iffI allI impI)
      fix i assume "\<forall>i < length m - b. m' ! (b + i) = m ! (b + i)" "i < length m" "b \<le> i"
      then have "i - b < length m - b" by simp
      with \<open>\<forall>i < length m - b. m' ! (b + i) = m ! (b + i)\<close> have "m' ! (b + (i - b)) = m ! (b + (i - b))" by blast
      with \<open>b \<le> i\<close> show "m' ! i = m ! i" by simp
    qed simp
    then show "drop b m' = drop b m \<longleftrightarrow> (\<forall>i < length m. b \<le> i \<longrightarrow> m' ! i = m ! i)"
      using l by (auto simp: list_eq_iff_nth_eq)
  qed
  then show ?thesis unfolding framed_def by blast
qed

lemma framed_refl [simp]: "framed m m a b"
  by (simp add: framed_def)

lemma framed_trans: "framed m m' a b \<Longrightarrow> framed m' m'' a b \<Longrightarrow> framed m m'' a b"
  by (simp add: framed_def)

lemma framed_mono: "framed m m' a b \<Longrightarrow> a' \<le> a \<Longrightarrow> b \<le> b' \<Longrightarrow> framed m m' a' b'"
  by (fastforce simp: framed_nth)

lemma framed_length: "framed m m' a b \<Longrightarrow> length m' = length m"
  by (simp add: framed_def)

lemma framed_overwrite: "i + length bs \<le> length m \<Longrightarrow> framed m (overwrite m i bs) i (i + length bs)"
  by (auto simp: framed_nth nth_overwrite)

lemma framed_read: "framed m m' a b \<Longrightarrow> p + n \<le> a \<or> b \<le> p \<Longrightarrow> mem_read m' p n = mem_read m p n"
  by (auto simp: framed_nth mem_read_def list_eq_iff_nth_eq)

lemma get_hdr_framed:
  "framed m m' a b \<Longrightarrow> unat p + 12 \<le> a \<or> b \<le> unat p \<Longrightarrow> get_hdr m' p = get_hdr m p"
  by (simp add: get_hdr_def framed_read)

lemma get_hdr_bound: "get_hdr m p = Some h \<Longrightarrow> unat p + 12 \<le> length m"
  by (auto simp: get_hdr_def mem_read_def split: if_splits)

lemma put_hdrE:
  assumes "unat p + 12 \<le> length m"
  obtains m' where "put_hdr m p h = Some m'" "get_hdr m' p = Some h" "framed m m' (unat p) (unat p + 12)"
proof
  show "put_hdr m p h = Some (overwrite m (unat p) (hdr_bytes h))"
    using assms by (simp add: put_hdr_def mem_write_def)
  show "get_hdr (overwrite m (unat p) (hdr_bytes h)) p = Some h"
    using mem_read_overwrite [of "unat p" "hdr_bytes h" m] assms by (simp add: get_hdr_def)
  show "framed m (overwrite m (unat p) (hdr_bytes h)) (unat p) (unat p + 12)"
    using framed_overwrite [of "unat p" "hdr_bytes h" m] assms by simp
qed

lemma upd_hdrE:
  assumes "get_hdr m p = Some h"
  obtains m' where "upd_hdr m p f = Some m'" "get_hdr m' p = Some (f h)" "framed m m' (unat p) (unat p + 12)"
  using put_hdrE [OF get_hdr_bound [OF assms], of "f h"] assms by (auto simp: upd_hdr_def)

subsection \<open>The list of blocks\<close>

text \<open>
  The heap is a list of blocks, each given by the size of its data and whether it is in use. \<open>seg\<close> says
  that their headers are in memory from \<open>p\<close> on, \<open>pr\<close> being the offset of the block before; \<open>chain\<close>
  adds the header at the end of the heap, whose backward link nobody reads.
\<close>

definition off :: "nat \<Rightarrow> u32" where
  "off n = of_nat n"

lemma unat_off [simp]: "n < 2 ^ 32 \<Longrightarrow> unat (off n) = n"
  by (simp add: off_def)

lemma off_unat [simp]: "off (unat w) = w"
  by (simp add: off_def)

lemma off_0 [simp]: "off 0 = 0"
  by (simp add: off_def)

lemma off_add: "off a + off b = off (a + b)" "off a + 12 = off (a + 12)"
  by (simp_all add: off_def)

lemma off_diff: "b \<le> a \<Longrightarrow> off a - off b = off (a - b)"
  by (simp add: off_def of_nat_diff)

lemma off_eq [simp]: "a < 2 ^ 32 \<Longrightarrow> b < 2 ^ 32 \<Longrightarrow> off a = off b \<longleftrightarrow> a = b"
  by (metis unat_off)

lemma off_less: "a < 2 ^ 32 \<Longrightarrow> off a < w \<longleftrightarrow> a < unat w" "a < 2 ^ 32 \<Longrightarrow> w < off a \<longleftrightarrow> unat w < a"
  by (simp_all add: word_less_nat_alt)

lemma off_le: "a < 2 ^ 32 \<Longrightarrow> off a \<le> w \<longleftrightarrow> a \<le> unat w" "a < 2 ^ 32 \<Longrightarrow> w \<le> off a \<longleftrightarrow> unat w \<le> a"
  by (simp_all add: word_le_nat_alt)

type_synonym block = "nat \<times> bool"

definition extent :: "block list \<Rightarrow> nat" where
  "extent bs = sum_list (map (\<lambda>b. 12 + fst b) bs)"

lemma extent_simps [simp]: "extent [] = 0" "extent (b # bs) = 12 + fst b + extent bs" "extent (bs @ bs') = extent bs + extent bs'"
  by (simp_all add: extent_def)

definition block_hdr :: "nat \<Rightarrow> nat \<Rightarrow> block \<Rightarrow> heap_mem" where
  "block_hdr pr p b = \<lparr>magic = HEAP_MAGIC, used = (if snd b then 1 else 0), hnext = off (p + 12 + fst b),
     hprev = off pr\<rparr>"

fun seg :: "u8 list \<Rightarrow> nat \<Rightarrow> nat \<Rightarrow> block list \<Rightarrow> bool" where
  "seg m pr p [] \<longleftrightarrow> True"
| "seg m pr p (b # bs) \<longleftrightarrow> get_hdr m (off p) = Some (block_hdr pr p b) \<and> fst b mod 4 = 0 \<and> seg m p (p + 12 + fst b) bs"

definition end_hdr :: "u8 list \<Rightarrow> nat \<Rightarrow> bool" where
  "end_hdr m p \<longleftrightarrow> (\<exists>h. get_hdr m (off p) = Some h \<and> used h = 1 \<and> hnext h = off p)"

definition chain :: "u8 list \<Rightarrow> nat \<Rightarrow> nat \<Rightarrow> block list \<Rightarrow> bool" where
  "chain m pr p bs \<longleftrightarrow> seg m pr p bs \<and> end_hdr m (p + extent bs)"

definition last_start :: "nat \<Rightarrow> nat \<Rightarrow> block list \<Rightarrow> nat" where
  "last_start pr p bs = (if bs = [] then pr else p + extent (butlast bs))"

lemma last_start_simps [simp]:
  "last_start pr p [] = pr" "last_start pr p (bs @ [b]) = p + extent bs"
  by (simp_all add: last_start_def)

lemma last_start_Cons [simp]: "last_start pr p (b # bs) = last_start p (p + 12 + fst b) bs"
  by (simp add: last_start_def)

lemma seg_append: "seg m pr p (xs @ ys) \<longleftrightarrow> seg m pr p xs \<and> seg m (last_start pr p xs) (p + extent xs) ys"
  by (induction xs arbitrary: pr p) (auto simp: add.assoc)

lemma chain_append: "chain m pr p (xs @ ys) \<longleftrightarrow> seg m pr p xs \<and> chain m (last_start pr p xs) (p + extent xs) ys"
  by (auto simp: chain_def seg_append add.assoc)

lemma chain_Cons:
  "chain m pr p (b # bs) \<longleftrightarrow>
     get_hdr m (off p) = Some (block_hdr pr p b) \<and> fst b mod 4 = 0 \<and> chain m p (p + 12 + fst b) bs"
  by (auto simp: chain_def add.assoc)

lemma chain_Nil: "chain m pr p [] \<longleftrightarrow> end_hdr m p"
  by (simp add: chain_def)

lemma extent_mod4: "seg m pr p bs \<Longrightarrow> extent bs mod 4 = 0"
proof (induction bs arbitrary: pr p)
  case (Cons b bs)
  then have "fst b mod 4 = 0" "extent bs mod 4 = 0" by auto
  then show ?case by (simp add: mod_eq_0_iff_dvd)
qed simp

text \<open>Everything outside a frame is kept.\<close>

lemma seg_framed_below:
  "framed m m' a e \<Longrightarrow> p + extent bs \<le> a \<Longrightarrow> a < 2 ^ 32 \<Longrightarrow> seg m' pr p bs = seg m pr p bs"
proof (induction bs arbitrary: pr p)
  case (Cons b bs)
  then have "get_hdr m' (off p) = get_hdr m (off p)" by (intro get_hdr_framed) auto
  with Cons show ?case by simp
qed simp

lemma seg_framed_above:
  "framed m m' a e \<Longrightarrow> e \<le> p \<Longrightarrow> p + extent bs < 2 ^ 32 \<Longrightarrow> seg m' pr p bs = seg m pr p bs"
proof (induction bs arbitrary: pr p)
  case (Cons b bs)
  then have "get_hdr m' (off p) = get_hdr m (off p)" by (intro get_hdr_framed) auto
  with Cons show ?case by simp
qed simp

lemma end_hdr_framed: "framed m m' a e \<Longrightarrow> e \<le> p \<Longrightarrow> p < 2 ^ 32 \<Longrightarrow> end_hdr m' p = end_hdr m p"
  by (simp add: end_hdr_def get_hdr_framed)

lemma chain_framed_above:
  "framed m m' a e \<Longrightarrow> e \<le> p \<Longrightarrow> p + extent bs < 2 ^ 32 \<Longrightarrow> chain m' pr p bs = chain m pr p bs"
  using seg_framed_above [of m m' a e p bs pr] end_hdr_framed [of m m' a e "p + extent bs"]
  by (simp add: chain_def)

text \<open>The header at the beginning of a chain has a backward link that can be set.\<close>

lemma chain_head:
  assumes "chain m pr p bs"
  obtains h where "get_hdr m (off p) = Some h" "used h = (case bs of [] \<Rightarrow> 1 | b # _ \<Rightarrow> if snd b then 1 else 0)"
    "hnext h = (case bs of [] \<Rightarrow> off p | b # _ \<Rightarrow> off (p + 12 + fst b))"
  using assms by (cases bs) (auto simp: chain_Nil end_hdr_def chain_Cons block_hdr_def)

lemma chain_set_prev:
  assumes "chain m pr p bs" and "p + extent bs < 2 ^ 32"
  obtains m' where "upd_hdr m (off p) (hprev_update (\<lambda>_. off pr')) = Some m'" "chain m' pr' p bs"
    "framed m m' p (p + 12)"
proof -
  obtain h where h: "get_hdr m (off p) = Some h" using chain_head [OF assms(1)] by metis
  obtain m' where m': "upd_hdr m (off p) (hprev_update (\<lambda>_. off pr')) = Some m'"
    "get_hdr m' (off p) = Some (h\<lparr>hprev := off pr'\<rparr>)" "framed m m' p (p + 12)"
    using upd_hdrE [OF h, of "hprev_update (\<lambda>_. off pr')"] assms(2) by auto
  have "chain m' pr' p bs"
  proof (cases bs)
    case Nil
    then show ?thesis using assms(1) h m'(2) by (auto simp: chain_Nil end_hdr_def)
  next
    case (Cons b cs)
    then have "chain m' p (p + 12 + fst b) cs"
      using assms chain_framed_above [OF m'(3)] by (simp add: chain_Cons)
    then show ?thesis using Cons assms(1) h m'(2) by (auto simp: chain_Cons block_hdr_def)
  qed
  with m' that show ?thesis by blast
qed

text \<open>The offsets of the free blocks, and the data areas of the blocks in use.\<close>

fun free_starts :: "nat \<Rightarrow> block list \<Rightarrow> nat list" where
  "free_starts p [] = []"
| "free_starts p (b # bs) = (if snd b then [] else [p]) @ free_starts (p + 12 + fst b) bs"

fun live :: "nat \<Rightarrow> block list \<Rightarrow> (nat \<times> nat) list" where
  "live p [] = []"
| "live p (b # bs) = (if snd b then [(p + 12, fst b)] else []) @ live (p + 12 + fst b) bs"

lemma free_starts_append: "free_starts p (xs @ ys) = free_starts p xs @ free_starts (p + extent xs) ys"
  by (induction xs arbitrary: p) (auto simp: add.assoc)

lemma live_append: "live p (xs @ ys) = live p xs @ live (p + extent xs) ys"
  by (induction xs arbitrary: p) (auto simp: add.assoc)

lemma free_startsD: "q \<in> set (free_starts p bs) \<Longrightarrow> \<exists>xs n ys. bs = xs @ (n, False) # ys \<and> q = p + extent xs"
proof (induction bs arbitrary: p)
  case (Cons b bs)
  show ?case
  proof (cases "\<not> snd b \<and> q = p")
    case True
    then show ?thesis by (intro exI [of _ "[]"]) (cases b, simp)
  next
    case False
    with Cons.prems have "q \<in> set (free_starts (p + 12 + fst b) bs)" by (auto split: if_splits)
    from Cons.IH [OF this] obtain xs n ys where "bs = xs @ (n, False) # ys" "q = p + 12 + fst b + extent xs" by blast
    then show ?thesis by (intro exI [of _ "b # xs"]) auto
  qed
qed simp

lemma live_bounds: "(a, n) \<in> set (live p bs) \<Longrightarrow> p + 12 \<le> a \<and> a + n \<le> p + extent bs"
  by (induction bs arbitrary: p) (fastforce split: if_splits)+

definition kept :: "u8 list \<Rightarrow> u8 list \<Rightarrow> (nat \<times> nat) list \<Rightarrow> bool" where
  "kept m m' l \<longleftrightarrow> (\<forall>(a, n) \<in> set l. mem_read m' a n = mem_read m a n)"

lemma kept_append [simp]: "kept m m' (l @ l') \<longleftrightarrow> kept m m' l \<and> kept m m' l'"
  by (auto simp: kept_def)

lemma kept_Nil [simp]: "kept m m' []" and kept_refl [simp]: "kept m m l"
  by (simp_all add: kept_def)

lemma kept_trans: "kept m m' l \<Longrightarrow> kept m' m'' l \<Longrightarrow> kept m m'' l"
  by (fastforce simp: kept_def)

lemma kept_below: "framed m m' a e \<Longrightarrow> p + extent bs \<le> a \<Longrightarrow> kept m m' (live p bs)"
  by (auto simp: kept_def dest!: live_bounds intro!: framed_read)

lemma kept_above: "framed m m' a e \<Longrightarrow> e \<le> p + 12 \<Longrightarrow> kept m m' (live p bs)"
  by (auto simp: kept_def dest!: live_bounds intro!: framed_read)

subsection \<open>Joining free blocks\<close>

text \<open>The free block of \<open>n\<close> bytes joined with a free block behind it, and with a free block before it.\<close>

definition join_next :: "nat \<Rightarrow> block list \<Rightarrow> block list" where
  "join_next n ys = (case ys of (k, False) # zs \<Rightarrow> (n + 12 + k, False) # zs | _ \<Rightarrow> (n, False) # ys)"

definition join_prev :: "block list \<Rightarrow> nat \<Rightarrow> block list \<Rightarrow> block list" where
  "join_prev xs n ys = (if xs \<noteq> [] \<and> \<not> snd (last xs) then butlast xs @ (fst (last xs) + 12 + n, False) # ys
     else xs @ (n, False) # ys)"

lemma extent_join_next [simp]: "extent (join_next n ys) = 12 + n + extent ys"
  by (simp add: join_next_def split: list.split prod.split bool.split)

lemma extent_join_prev [simp]: "extent (join_prev xs n ys) = extent xs + 12 + n + extent ys"
  by (cases xs rule: rev_cases) (simp_all add: join_prev_def)

lemma join_next_cases:
  obtains k zs where "ys = (k, False) # zs" "join_next n ys = (n + 12 + k, False) # zs"
  | "join_next n ys = (n, False) # ys" "ys = [] \<or> snd (hd ys)"
  by (cases ys; cases "snd (hd ys)"; cases "hd ys") (auto simp: join_next_def split: prod.splits)

lemma join_prev_cases:
  obtains ws k where "xs = ws @ [(k, False)]" "join_prev xs n ys = ws @ (k + 12 + n, False) # ys"
  | "join_prev xs n ys = xs @ (n, False) # ys" "xs = [] \<or> snd (last xs)"
  by (cases xs rule: rev_cases; cases "snd (last xs)"; cases "last xs") (auto simp: join_prev_def)

lemma plug_forward_ok:
  assumes c: "chain (hbytes s) 0 0 (xs @ (n, False) # ys)" and e: "heap_end s = off (extent (xs @ (n, False) # ys))"
    and l: "extent (xs @ (n, False) # ys) < 2 ^ 32"
  obtains m' where "plug_forward s (off (extent xs)) = Some (s\<lparr>hbytes := m',
      lfree := (if ys \<noteq> [] \<and> \<not> snd (hd ys) \<and> lfree s = off (extent xs + 12 + n) then off (extent xs) else lfree s)\<rparr>)"
    "chain m' 0 0 (xs @ join_next n ys)"
    "framed (hbytes s) m' (extent xs) (extent xs + 12 + fst (hd (join_next n ys)) + 12)"
proof -
  let ?m = "hbytes s" and ?p = "extent xs" and ?pr = "last_start 0 0 xs"
  let ?q = "?p + 12 + n"
  have h: "get_hdr ?m (off ?p) = Some (block_hdr ?pr ?p (n, False))" and x: "seg ?m 0 0 xs" and "n mod 4 = 0"
    and t: "chain ?m ?p ?q ys"
    using c by (simp_all add: chain_append chain_Cons)
  obtain hn where hn: "get_hdr ?m (off ?q) = Some hn"
    "used hn = (case ys of [] \<Rightarrow> 1 | b # _ \<Rightarrow> if snd b then 1 else 0)"
    "hnext hn = (case ys of [] \<Rightarrow> off ?q | b # _ \<Rightarrow> off (?q + 12 + fst b))"
    using chain_head [OF t] by metis
  have ne: "off ?p \<noteq> off ?q" using l by simp
  show ?thesis
  proof (cases rule: join_next_cases [of ys n])
    case (1 k zs)
    let ?r = "?q + 12 + k"
    have lz: "?r + extent zs < 2 ^ 32" using l 1 by simp
    have hn0: "used hn = 0" "hnext hn = off ?r" using hn 1 by simp_all
    have qe: "off ?q \<noteq> heap_end s" using e l 1 by simp
    obtain m1 where m1: "upd_hdr ?m (off ?p) (hnext_update (\<lambda>_. off ?r)) = Some m1"
      "get_hdr m1 (off ?p) = Some (block_hdr ?pr ?p (n + 12 + k, False))" "framed ?m m1 ?p (?p + 12)"
      using upd_hdrE [OF h, of "hnext_update (\<lambda>_. off ?r)"] lz by (auto simp: block_hdr_def add.assoc)
    have "chain m1 ?q ?r zs"
      using t 1 lz chain_framed_above [OF m1(3), of ?r zs] by (simp add: chain_Cons)
    then obtain m2 where m2: "upd_hdr m1 (off ?r) (hprev_update (\<lambda>_. off ?p)) = Some m2" "chain m2 ?p ?r zs"
      "framed m1 m2 ?r (?r + 12)"
      using chain_set_prev [where pr' = ?p] lz by metis
    have f: "framed ?m m2 ?p (?r + 12)"
      by (rule framed_trans [of _ m1]) (auto intro: framed_mono [OF m1(3)] framed_mono [OF m2(3)])
    have "k mod 4 = 0" using t 1 by (simp add: chain_Cons)
    then have "(n + 12 + k) mod 4 = 0" using \<open>n mod 4 = 0\<close> by (simp add: mod_eq_0_iff_dvd)
    moreover have "get_hdr m2 (off ?p) = get_hdr m1 (off ?p)"
      by (rule get_hdr_framed [OF m2(3)]) (use lz in simp)
    moreover have "seg m2 0 0 xs" using x seg_framed_below [OF f, of 0 xs] l by simp
    ultimately have "chain m2 0 0 (xs @ join_next n ys)"
      using m1(2) m2(2) 1 by (simp add: chain_append chain_Cons add.assoc)
    moreover have "plug_forward s (off ?p) = Some (s\<lparr>hbytes := m2,
        lfree := (if ys \<noteq> [] \<and> \<not> snd (hd ys) \<and> lfree s = off ?q then off ?p else lfree s)\<rparr>)"
      using h hn hn0 qe ne m1 m2 1 by (simp add: plug_forward_def block_hdr_def)
    ultimately show ?thesis using that f 1 by (simp add: add.assoc)
  next
    case 2
    have "used hn \<noteq> 0 \<or> off ?q = heap_end s" using hn(2) 2(2) e by (auto split: list.splits)
    then have "plug_forward s (off ?p) = Some s"
      using h hn ne by (auto simp: plug_forward_def block_hdr_def)
    moreover have "(if ys \<noteq> [] \<and> \<not> snd (hd ys) \<and> lfree s = off ?q then off ?p else lfree s) = lfree s"
      using 2(2) by auto
    ultimately show ?thesis using that [of ?m] c 2(1) by simp
  qed
qed

lemma plug_backward_ok:
  assumes c: "chain (hbytes s) 0 0 (xs @ (n, False) # ys)"
    and l: "extent (xs @ (n, False) # ys) < 2 ^ 32"
  obtains m' where "plug_backward s (off (extent xs)) = Some (s\<lparr>hbytes := m',
      lfree := (if xs \<noteq> [] \<and> \<not> snd (last xs) \<and> lfree s = off (extent xs) then off (extent (butlast xs)) else lfree s)\<rparr>)"
    "chain m' 0 0 (join_prev xs n ys)"
    "framed (hbytes s) m' (if xs \<noteq> [] \<and> \<not> snd (last xs) then extent (butlast xs) else extent xs) (extent xs + 12 + n + 12)"
proof -
  let ?m = "hbytes s" and ?p = "extent xs" and ?pr = "last_start 0 0 xs"
  let ?q = "?p + 12 + n"
  have h: "get_hdr ?m (off ?p) = Some (block_hdr ?pr ?p (n, False))" and x: "seg ?m 0 0 xs" and "n mod 4 = 0"
    and t: "chain ?m ?p ?q ys"
    using c by (simp_all add: chain_append chain_Cons)
  have lq: "?q + extent ys < 2 ^ 32" using l by simp
  show ?thesis
  proof (cases rule: join_prev_cases [of xs n ys])
    case (1 ws k)
    let ?w = "extent ws"
    have pr: "?pr = ?w" and p: "?p = ?w + 12 + k" using 1 by simp_all
    have w: "seg ?m 0 0 ws" and hw: "get_hdr ?m (off ?w) = Some (block_hdr (last_start 0 0 ws) ?w (k, False))" and "k mod 4 = 0"
      using x 1 by (simp_all add: seg_append)
    have ne: "off ?w \<noteq> off ?p" using lq p by simp
    obtain m1 where m1: "upd_hdr ?m (off ?w) (hnext_update (\<lambda>_. off ?q)) = Some m1"
      "get_hdr m1 (off ?w) = Some (block_hdr (last_start 0 0 ws) ?w (k + 12 + n, False))" "framed ?m m1 ?w (?w + 12)"
      using upd_hdrE [OF hw, of "hnext_update (\<lambda>_. off ?q)"] lq p by (auto simp: block_hdr_def add.assoc)
    have "chain m1 ?p ?q ys" using t lq p chain_framed_above [OF m1(3), of ?q ys] by simp
    then obtain m2 where m2: "upd_hdr m1 (off ?q) (hprev_update (\<lambda>_. off ?w)) = Some m2" "chain m2 ?w ?q ys"
      "framed m1 m2 ?q (?q + 12)"
      using chain_set_prev [where pr' = ?w] lq by metis
    have f: "framed ?m m2 ?w (?q + 12)"
      by (rule framed_trans [of _ m1]) (use p in \<open>auto intro: framed_mono [OF m1(3)] framed_mono [OF m2(3)]\<close>)
    have "(k + 12 + n) mod 4 = 0" using \<open>n mod 4 = 0\<close> \<open>k mod 4 = 0\<close> by (simp add: mod_eq_0_iff_dvd)
    moreover have "get_hdr m2 (off ?w) = get_hdr m1 (off ?w)"
      by (rule get_hdr_framed [OF m2(3)]) (use lq p in simp)
    moreover have "seg m2 0 0 ws" using w seg_framed_below [OF f, of 0 ws] lq p by simp
    ultimately have "chain m2 0 0 (join_prev xs n ys)"
      using m1(2) m2(2) 1 p by (simp add: chain_append chain_Cons add.assoc)
    moreover have "plug_backward s (off ?p) = Some (s\<lparr>hbytes := m2,
        lfree := (if xs \<noteq> [] \<and> \<not> snd (last xs) \<and> lfree s = off ?p then off (extent (butlast xs)) else lfree s)\<rparr>)"
      using h hw ne m1(1) m2(1) 1(1) pr by (simp add: plug_backward_def block_hdr_def)
    ultimately show ?thesis using that f 1(1) p by simp
  next
    case 2
    have "plug_backward s (off ?p) = Some s"
    proof (cases xs rule: rev_cases)
      case Nil
      then show ?thesis using h by (simp add: plug_backward_def block_hdr_def)
    next
      case (snoc ws b)
      then have "get_hdr ?m (off (extent ws)) = Some (block_hdr (last_start 0 0 ws) (extent ws) b)" "snd b"
        using x 2(2) by (simp_all add: seg_append)
      then show ?thesis using h snoc by (simp add: plug_backward_def block_hdr_def)
    qed
    moreover have "(if xs \<noteq> [] \<and> \<not> snd (last xs) \<and> lfree s = off ?p then off (extent (butlast xs)) else lfree s) = lfree s"
      using 2(2) by auto
    ultimately show ?thesis using that [of ?m] c 2(1) by simp
  qed
qed

text \<open>
  The pointer to the first free block: \<open>lfree_ok\<close> says that it is a free block or the end of the heap,
  \<open>lfree_lowest\<close> that it is the first free block.
\<close>

definition lfree_ok :: "u32 \<Rightarrow> block list \<Rightarrow> bool" where
  "lfree_ok l bs \<longleftrightarrow> (\<exists>q \<in> set (free_starts 0 bs @ [extent bs]). l = off q)"

definition lfree_lowest :: "u32 \<Rightarrow> block list \<Rightarrow> bool" where
  "lfree_lowest l bs \<longleftrightarrow> l = off (hd (free_starts 0 bs @ [extent bs]))"

lemma lfree_lowest_ok: "lfree_lowest l bs \<Longrightarrow> lfree_ok l bs"
  unfolding lfree_lowest_def lfree_ok_def by (metis Nil_is_append_conv hd_in_set not_Cons_self2)

lemma live_join_next: "live p ((n, False) # ys) = live p (join_next n ys)"
  by (cases rule: join_next_cases [of ys n]) (simp_all add: add.assoc)

lemma live_join_prev: "live p (xs @ (n, False) # ys) = live p (join_prev xs n ys)"
  by (cases rule: join_prev_cases [of xs n ys]) (simp_all add: live_append add.assoc)

lemma free_starts_bound: "q \<in> set (free_starts p bs) \<Longrightarrow> p \<le> q \<and> q + 12 \<le> p + extent bs"
  by (induction bs arbitrary: p) (fastforce split: if_splits)+

lemma free_starts_hd_bound: "free_starts 0 bs = q # qs \<Longrightarrow> q + 12 \<le> extent bs"
  using free_starts_bound [of q 0 bs] by simp

lemma lfree_ok_join_next:
  assumes "lfree_ok l (xs @ (n, False) # ys)"
  shows "lfree_ok (if ys \<noteq> [] \<and> \<not> snd (hd ys) \<and> l = off (extent xs + 12 + n) then off (extent xs) else l)
    (xs @ join_next n ys)"
  using assms
  by (cases rule: join_next_cases [of ys n]) (auto simp: lfree_ok_def free_starts_append add.assoc)

lemma lfree_lowest_join_next:
  assumes "lfree_lowest l (xs @ (n, False) # ys)" and "extent (xs @ (n, False) # ys) < 2 ^ 32"
  shows "lfree_lowest (if ys \<noteq> [] \<and> \<not> snd (hd ys) \<and> l = off (extent xs + 12 + n) then off (extent xs) else l)
    (xs @ join_next n ys)"
  using assms
  by (cases rule: join_next_cases [of ys n]; cases "free_starts 0 xs")
    (auto simp: lfree_lowest_def free_starts_append add.assoc dest!: free_starts_hd_bound)

lemma lfree_ok_join_prev:
  assumes "lfree_ok l (xs @ (n, False) # ys)"
  shows "lfree_ok (if xs \<noteq> [] \<and> \<not> snd (last xs) \<and> l = off (extent xs) then off (extent (butlast xs)) else l)
    (join_prev xs n ys)"
  using assms
  by (cases rule: join_prev_cases [of xs n ys]) (auto simp: lfree_ok_def free_starts_append add.assoc)

lemma lfree_lowest_join_prev:
  assumes "lfree_lowest l (xs @ (n, False) # ys)" and "extent (xs @ (n, False) # ys) < 2 ^ 32"
  shows "lfree_lowest (if xs \<noteq> [] \<and> \<not> snd (last xs) \<and> l = off (extent xs) then off (extent (butlast xs)) else l)
    (join_prev xs n ys)"
proof (cases rule: join_prev_cases [of xs n ys])
  case (1 ws k)
  then show ?thesis
    using assms by (cases "free_starts 0 ws")
      (auto simp: lfree_lowest_def free_starts_append add.assoc dest!: free_starts_hd_bound)
next
  case 2
  then show ?thesis using assms by auto
qed

text \<open>The block list after \<open>plug_holes\<close>, and what is left of the state.\<close>

definition joined :: "block list \<Rightarrow> nat \<Rightarrow> block list \<Rightarrow> block list" where
  "joined xs n ys = (let js = join_next n ys in join_prev xs (fst (hd js)) (tl js))"

definition heap_shape :: "heap \<Rightarrow> block list \<Rightarrow> bool" where
  "heap_shape s bs \<longleftrightarrow> chain (hbytes s) 0 0 bs \<and> heap_end s = off (extent bs) \<and>
     mem_size_aligned s = off (extent bs - 12) \<and> 24 \<le> extent bs \<and> length (hbytes s) = extent bs + 12 \<and>
     unat (heap_ptr s) mod 4 = 0 \<and> unat (heap_ptr s) + extent bs + 12 < 2 ^ 32"

lemma join_next_free: "join_next n ys = (fst (hd (join_next n ys)), False) # tl (join_next n ys)"
  by (cases rule: join_next_cases [of ys n]) simp_all

lemma heap_address:
  assumes "heap_shape s bs" and "k \<le> extent bs + 12"
  shows "unat (heap_ptr s + off k) = unat (heap_ptr s) + k"
  using assms by (simp add: heap_shape_def unat_word_ariths)

lemma plug_holes_ok:
  assumes sh: "heap_shape s (xs @ (n, False) # ys)"
  obtains m' l' where "plug_holes s (off (extent xs)) = Some (s\<lparr>hbytes := m', lfree := l'\<rparr>)"
    "heap_shape (s\<lparr>hbytes := m', lfree := l'\<rparr>) (joined xs n ys)"
    "kept (hbytes s) m' (live 0 (xs @ (n, False) # ys))"
    "lfree_ok (lfree s) (xs @ (n, False) # ys) \<Longrightarrow> lfree_ok l' (joined xs n ys)"
    "lfree_lowest (lfree s) (xs @ (n, False) # ys) \<Longrightarrow> lfree_lowest l' (joined xs n ys)"
    "ys = [] \<or> snd (hd ys) \<Longrightarrow> xs = [] \<or> snd (last xs) \<Longrightarrow> l' = lfree s"
proof -
  let ?p = "extent xs" and ?bs = "xs @ (n, False) # ys"
  define j zs where "j = fst (hd (join_next n ys))" and "zs = tl (join_next n ys)"
  have jn: "join_next n ys = (j, False) # zs" unfolding j_def zs_def by (rule join_next_free)
  have l: "extent ?bs < 2 ^ 32" and c: "chain (hbytes s) 0 0 ?bs" and e: "heap_end s = off (extent ?bs)"
    using sh by (simp_all add: heap_shape_def)
  have "get_hdr (hbytes s) (off ?p) = Some (block_hdr (last_start 0 0 xs) ?p (n, False))"
    using c by (simp add: chain_append chain_Cons)
  moreover have "heap_ptr s \<le> heap_ptr s + off ?p" "heap_ptr s + off ?p < heap_ptr s + heap_end s"
    using heap_address [OF sh, of ?p] heap_address [OF sh, of "extent ?bs"] e
    by (simp_all add: word_le_nat_alt word_less_nat_alt)
  ultimately have start: "plug_holes s (off ?p) = do { s \<leftarrow> plug_forward s (off ?p); plug_backward s (off ?p) }"
    by (simp add: plug_holes_def block_hdr_def)
  from plug_forward_ok [OF c e l] obtain m1 where
    f1: "plug_forward s (off ?p) = Some (s\<lparr>hbytes := m1, lfree := (if ys \<noteq> [] \<and> \<not> snd (hd ys) \<and>
      lfree s = off (?p + 12 + n) then off ?p else lfree s)\<rparr>)"
    and c1: "chain m1 0 0 (xs @ (j, False) # zs)" and fr1: "framed (hbytes s) m1 ?p (?p + 12 + j + 12)"
    unfolding jn list.sel fst_conv by blast
  obtain l1 where l1: "l1 = (if ys \<noteq> [] \<and> \<not> snd (hd ys) \<and> lfree s = off (?p + 12 + n) then off ?p else lfree s)" by simp
  obtain s1 where s1: "s1 = s\<lparr>hbytes := m1, lfree := l1\<rparr>" by simp
  then have s1': "hbytes s1 = m1" "lfree s1 = l1" by simp_all
  have ex: "extent (xs @ (j, False) # zs) = extent ?bs" using extent_join_next [of n ys] jn by simp
  have "chain (hbytes s1) 0 0 (xs @ (j, False) # zs)" "extent (xs @ (j, False) # zs) < 2 ^ 32"
    using c1 l ex s1' by simp_all
  from plug_backward_ok [OF this] obtain m2 where
    f2: "plug_backward s1 (off ?p) = Some (s1\<lparr>hbytes := m2, lfree := (if xs \<noteq> [] \<and> \<not> snd (last xs) \<and>
      l1 = off ?p then off (extent (butlast xs)) else l1)\<rparr>)"
    and c2: "chain m2 0 0 (join_prev xs j zs)"
    and fr2: "framed m1 m2 (if xs \<noteq> [] \<and> \<not> snd (last xs) then extent (butlast xs) else ?p) (?p + 12 + j + 12)"
    unfolding s1' by blast
  obtain l2 where l2: "l2 = (if xs \<noteq> [] \<and> \<not> snd (last xs) \<and> l1 = off ?p then off (extent (butlast xs)) else l1)" by simp
  have jd: "joined xs n ys = join_prev xs j zs" by (simp add: joined_def jn)
  show ?thesis
  proof
    show "plug_holes s (off ?p) = Some (s\<lparr>hbytes := m2, lfree := l2\<rparr>)"
      unfolding start f1 l1 [symmetric] s1 [symmetric] using f2 l2 by (simp add: s1)
    show "heap_shape (s\<lparr>hbytes := m2, lfree := l2\<rparr>) (joined xs n ys)"
      using sh c2 ex framed_length [OF fr1] framed_length [OF fr2] unfolding jd heap_shape_def by simp
    show "lfree_ok l2 (joined xs n ys)" if "lfree_ok (lfree s) ?bs"
      using lfree_ok_join_next [OF that] lfree_ok_join_prev [of l1 xs j zs] unfolding jd l2 jn l1 [symmetric] by simp
    show "lfree_lowest l2 (joined xs n ys)" if "lfree_lowest (lfree s) ?bs"
      using lfree_lowest_join_next [OF that l] lfree_lowest_join_prev [of l1 xs j zs] l ex
      unfolding jd l2 jn l1 [symmetric] by simp
    show "l2 = lfree s" if y: "ys = [] \<or> snd (hd ys)" and x: "xs = [] \<or> snd (last xs)"
    proof -
      have "\<not> (ys \<noteq> [] \<and> \<not> snd (hd ys) \<and> lfree s = off (?p + 12 + n))" using y by blast
      then have "l1 = lfree s" unfolding l1 by (rule if_not_P)
      moreover have "\<not> (xs \<noteq> [] \<and> \<not> snd (last xs) \<and> l1 = off ?p)" using x by blast
      then have "l2 = l1" unfolding l2 by (rule if_not_P)
      ultimately show ?thesis by simp
    qed
    have lv: "live 0 ?bs = live 0 xs @ live (?p + 12 + j) zs"
      using live_join_next [of ?p n ys] by (simp add: jn live_append)
    show "kept (hbytes s) m2 (live 0 ?bs)"
    proof (rule kept_trans [of _ m1])
      show "kept (hbytes s) m1 (live 0 ?bs)"
        unfolding lv using kept_below [OF fr1, of 0 xs] kept_above [OF fr1, of "?p + 12 + j" zs] by simp
      show "kept m1 m2 (live 0 ?bs)"
      proof (cases "xs \<noteq> [] \<and> \<not> snd (last xs)")
        case True
        then have "xs = butlast xs @ [last xs]" by simp
        then have "live 0 xs = live 0 (butlast xs)"
          using True live_append [of 0 "butlast xs" "[last xs]"] by simp
        then show ?thesis unfolding lv
          using kept_below [OF fr2, of 0 "butlast xs"] kept_above [OF fr2, of "?p + 12 + j" zs] True by simp
      next
        case False
        then show ?thesis unfolding lv
          using kept_below [OF fr2 [unfolded if_not_P [OF False]], of 0 xs] kept_above [OF fr2, of "?p + 12 + j" zs] by simp
      qed
    qed
  qed
qed

subsection \<open>The invariant, and freeing a block\<close>

definition plugged :: "block list \<Rightarrow> bool" where
  "plugged bs \<longleftrightarrow> successively (\<lambda>a b. snd a \<or> snd b) bs"

definition used_extent :: "block list \<Rightarrow> nat" where
  "used_extent bs = extent (filter snd bs)"

definition heap_ok :: "heap \<Rightarrow> block list \<Rightarrow> bool" where
  "heap_ok s bs \<longleftrightarrow> heap_shape s bs \<and> lfree_ok (lfree s) bs \<and> used_mem s = off (used_extent bs) \<and> plugged bs \<and>
     (\<forall>b \<in> set (filter snd bs). 0 < fst b)"

lemma joinedE:
  obtains j zs where "join_next n ys = (j, False) # zs" "joined xs n ys = join_prev xs j zs"
  using join_next_free [of n ys] by (simp add: joined_def Let_def)

lemma filter_joined [simp]: "filter snd (joined xs n ys) = filter snd xs @ filter snd ys"
proof -
  obtain j zs where j: "join_next n ys = (j, False) # zs" "joined xs n ys = join_prev xs j zs" by (rule joinedE)
  have "filter snd zs = filter snd ys" using j(1) by (cases rule: join_next_cases [of ys n]) auto
  then show ?thesis unfolding j(2) by (cases rule: join_prev_cases [of xs j zs]) simp_all
qed

lemma used_extent_simps [simp]:
  "used_extent [] = 0" "used_extent (b # bs) = (if snd b then 12 + fst b else 0) + used_extent bs"
  "used_extent (bs @ bs') = used_extent bs + used_extent bs'"
  by (simp_all add: used_extent_def)

lemma used_extent_joined [simp]: "used_extent (joined xs n ys) = used_extent xs + used_extent ys"
  by (simp add: used_extent_def)

lemma used_extent_le: "used_extent bs \<le> extent bs"
  by (induction bs) auto

lemma plugged_joined:
  assumes "plugged (xs @ (n, True) # ys)"
  shows "plugged (joined xs k ys)"
proof -
  let ?P = "\<lambda>a b :: block. snd a \<or> snd b"
  have x: "successively ?P xs" and y: "successively ?P ys"
    using assms by (auto simp: plugged_def successively_append_iff successively_Cons)
  obtain j zs where j: "join_next k ys = (j, False) # zs" "successively ?P zs" "zs = [] \<or> snd (hd zs)"
    by (cases rule: join_next_cases [of ys k]) (use y in \<open>auto simp: successively_Cons\<close>)
  show ?thesis
  proof (cases rule: join_prev_cases [of xs j zs])
    case (1 ws i)
    then show ?thesis using x j by (auto simp: joined_def plugged_def successively_append_iff successively_Cons)
  next
    case 2
    then show ?thesis using x j by (auto simp: joined_def plugged_def successively_append_iff successively_Cons)
  qed
qed

lemma and_3_zero: "(w AND 3 = 0) = (unat w mod 4 = 0)" for w :: u32
proof -
  have "w AND 3 = take_bit 2 w" by (simp add: take_bit_eq_mask mask_eq_exp_minus_1)
  then have "unat (w AND 3) = take_bit 2 (unat w)" by (simp only: unsigned_take_bit_eq)
  then show ?thesis by (simp add: unat_eq_zero [symmetric] take_bit_eq_mod)
qed

lemma mod_4_zero: "(w mod 4 = 0) = (unat w mod 4 = 0)" for w :: u32
  by (simp add: unat_eq_zero [symmetric] unat_mod_distrib)

lemma live_joined: "live 0 (joined xs n ys) = live 0 xs @ live (extent xs + 12 + n) ys"
proof -
  obtain j zs where "join_next n ys = (j, False) # zs" "joined xs n ys = join_prev xs j zs" by (rule joinedE)
  then have "live 0 (joined xs n ys) = live 0 (xs @ join_next n ys)"
    using live_join_prev [of 0 xs j zs] by simp
  then show ?thesis using live_join_next [of "extent xs" n ys] by (simp add: live_append)
qed

lemma extent_joined [simp]: "extent (joined xs n ys) = extent (xs @ (n, False) # ys)"
proof -
  obtain j zs where "join_next n ys = (j, False) # zs" "joined xs n ys = join_prev xs j zs" by (rule joinedE)
  then show ?thesis using extent_join_next [of n ys] by simp
qed

text \<open>Addresses of blocks.\<close>

lemma block_address:
  assumes "heap_shape s (xs @ (n, u) # ys)"
  shows "unat (heap_ptr s + off (extent xs + 12)) = unat (heap_ptr s) + extent xs + 12"
    and "heap_ptr s + off (extent xs + 12) - 12 - heap_ptr s = off (extent xs)"
    and "(heap_ptr s + off (extent xs + 12)) AND 3 = 0"
    and "heap_ptr s + off (extent xs + 12) \<noteq> 0"
    and "heap_ptr s + off (extent xs + 12) \<ge> heap_ptr s"
    and "heap_ptr s + off (extent xs + 12) < heap_ptr s + heap_end s \<longleftrightarrow> 0 < n + extent ys"
proof -
  show a: "unat (heap_ptr s + off (extent xs + 12)) = unat (heap_ptr s) + extent xs + 12"
    using heap_address [OF assms, of "extent xs + 12"] by simp
  show "heap_ptr s + off (extent xs + 12) - 12 - heap_ptr s = off (extent xs)"
    by (simp add: off_add(2) [symmetric])
  have "extent xs mod 4 = 0"
    using assms extent_mod4 by (auto simp: heap_shape_def chain_append)
  then have "(unat (heap_ptr s) + extent xs + 12) mod 4 = 0"
    using assms by (simp add: heap_shape_def mod_eq_0_iff_dvd)
  then show "(heap_ptr s + off (extent xs + 12)) AND 3 = 0" unfolding and_3_zero a .
  show "heap_ptr s + off (extent xs + 12) \<noteq> 0" using a by (metis add_is_0 unat_0 zero_neq_numeral)
  show "heap_ptr s + off (extent xs + 12) \<ge> heap_ptr s" unfolding word_le_nat_alt a by simp
  show "heap_ptr s + off (extent xs + 12) < heap_ptr s + heap_end s \<longleftrightarrow> 0 < n + extent ys"
    using heap_address [OF assms, of "extent (xs @ (n, u) # ys)"] assms unfolding word_less_nat_alt a
    by (auto simp: heap_shape_def)
qed

lemma off_minus: "off (a + b) - off a = off b" "off a - (off a + w) = - w" "off (a + 12 + n) - (off a + 12) = off n"
  by (simp_all add: off_def)

lemma heap_shape_split:
  assumes "heap_shape s (xs @ (n, u) # ys)"
  shows "get_hdr (hbytes s) (off (extent xs)) = Some (block_hdr (last_start 0 0 xs) (extent xs) (n, u))"
    and "seg (hbytes s) 0 0 xs" and "n mod 4 = 0" and "chain (hbytes s) (extent xs) (extent xs + 12 + n) ys"
    and "extent xs + 12 + n + extent ys + 12 < 2 ^ 32"
  using assms by (simp_all add: heap_shape_def chain_append chain_Cons)

text \<open>Marking a block as used or free.\<close>

lemma mark_block:
  assumes sh: "heap_shape s (xs @ (n, u) # ys)"
    and f: "f (block_hdr (last_start 0 0 xs) (extent xs) (n, u)) = block_hdr (last_start 0 0 xs) (extent xs) (n, u')"
  obtains m' where "upd_hdr (hbytes s) (off (extent xs)) f = Some m'" "heap_shape (s\<lparr>hbytes := m'\<rparr>) (xs @ (n, u') # ys)"
    "framed (hbytes s) m' (extent xs) (extent xs + 12)"
proof -
  note p = heap_shape_split [OF sh]
  obtain m' where m': "upd_hdr (hbytes s) (off (extent xs)) f = Some m'"
    "get_hdr m' (off (extent xs)) = Some (block_hdr (last_start 0 0 xs) (extent xs) (n, u'))"
    "framed (hbytes s) m' (extent xs) (extent xs + 12)"
    using upd_hdrE [OF p(1), of f] p(5) f by auto
  have "chain m' 0 0 (xs @ (n, u') # ys)"
    using p m'(2) seg_framed_below [OF m'(3), of 0 xs] chain_framed_above [OF m'(3), of "extent xs + 12 + n" ys]
    by (simp add: chain_append chain_Cons)
  then show ?thesis
    using that m' sh framed_length [OF m'(3)] by (simp add: heap_shape_def)
qed

lemma lfree_after_free:
  assumes "lfree_ok l (xs @ (n, True) # ys)" and "extent (xs @ (n, True) # ys) < 2 ^ 32"
  shows "lfree_ok (if off (extent xs) < l then off (extent xs) else l) (xs @ (n, False) # ys)"
    and "lfree_lowest l (xs @ (n, True) # ys) \<Longrightarrow>
      lfree_lowest (if off (extent xs) < l then off (extent xs) else l) (xs @ (n, False) # ys)"
proof -
  show "lfree_ok (if off (extent xs) < l then off (extent xs) else l) (xs @ (n, False) # ys)"
    using assms(1) by (auto simp: lfree_ok_def free_starts_append)
  assume low: "lfree_lowest l (xs @ (n, True) # ys)"
  show "lfree_lowest (if off (extent xs) < l then off (extent xs) else l) (xs @ (n, False) # ys)"
  proof (cases "free_starts 0 xs")
    case Nil
    let ?fs = "free_starts (extent xs + 12 + n) ys @ [extent xs + 12 + n + extent ys]"
    have "hd ?fs \<in> set ?fs" by (rule hd_in_set) simp
    then have "extent xs < hd ?fs \<and> hd ?fs < 2 ^ 32"
      using free_starts_bound [of "hd ?fs" "extent xs + 12 + n" ys] assms(2) by (auto simp del: hd_append2)
    then show ?thesis using low Nil by (simp add: lfree_lowest_def free_starts_append off_less add.assoc)
  next
    case (Cons q qs)
    then show ?thesis using low free_starts_hd_bound [OF Cons] assms(2)
      by (simp add: lfree_lowest_def free_starts_append off_less)
  qed
qed

lemma rt_free_ok:
  assumes ok: "heap_ok s (xs @ (n, True) # ys)"
  obtains s' where "rt_free s (heap_ptr s + off (extent xs + 12)) = Some s'" "heap_ok s' (joined xs n ys)"
    "kept (hbytes s) (hbytes s') (live 0 xs @ live (extent xs + 12 + n) ys)"
    "heap_ptr s' = heap_ptr s" "mem_size_aligned s' = mem_size_aligned s"
    "lfree_lowest (lfree s) (xs @ (n, True) # ys) \<Longrightarrow> lfree_lowest (lfree s') (joined xs n ys)"
proof -
  let ?p = "extent xs" and ?h = "block_hdr (last_start 0 0 xs) (extent xs)"
  have sh: "heap_shape s (xs @ (n, True) # ys)" and lf: "lfree_ok (lfree s) (xs @ (n, True) # ys)"
    and us: "used_mem s = off (used_extent (xs @ (n, True) # ys))" and pl: "plugged (xs @ (n, True) # ys)"
    and pos: "\<forall>b \<in> set (filter snd (xs @ (n, True) # ys)). 0 < fst b" and n: "0 < n"
    using ok by (simp_all add: heap_ok_def)
  note p = heap_shape_split [OF sh] and a = block_address [OF sh]
  let ?f = "used_update (\<lambda>_. 0) \<circ> magic_update (\<lambda>_. HEAP_MAGIC)"
  have "?f (?h (n, True)) = ?h (n, False)" by (simp add: block_hdr_def)
  from mark_block [OF sh, of ?f, OF this] obtain m1 where m1: "upd_hdr (hbytes s) (off ?p) ?f = Some m1"
    "heap_shape (s\<lparr>hbytes := m1\<rparr>) (xs @ (n, False) # ys)" "framed (hbytes s) m1 ?p (?p + 12)"
    by blast
  obtain l1 where l1: "l1 = (if off ?p < lfree s then off ?p else lfree s)" by simp
  obtain u1 where u1: "u1 = used_mem s - (off (?p + 12 + n) - off ?p)" by simp
  obtain s1 where s1: "s1 = s\<lparr>hbytes := m1, lfree := l1, used_mem := u1\<rparr>" by simp
  have sh1: "heap_shape s1 (xs @ (n, False) # ys)" using m1(2) by (simp add: s1 heap_shape_def)
  obtain q where q: "lfree s = off q" "q \<le> extent (xs @ (n, True) # ys) + 12"
    using lf free_starts_bound [of _ 0 "xs @ (n, True) # ys"] unfolding lfree_ok_def by fastforce
  have cmp: "heap_ptr s + off ?p < heap_ptr s + lfree s \<longleftrightarrow> off ?p < lfree s"
    using heap_address [OF sh, of ?p] heap_address [OF sh q(2)] p(5) q by (simp add: word_less_nat_alt)
  have "rt_free s (heap_ptr s + off (?p + 12)) = plug_holes s1 (off ?p)"
    using a n p(1) m1(1) by (simp add: rt_free_def cmp s1 l1 u1 block_hdr_def Let_def)
  moreover from plug_holes_ok [OF sh1] obtain m2 l2 where
    r: "plug_holes s1 (off ?p) = Some (s1\<lparr>hbytes := m2, lfree := l2\<rparr>)"
    "heap_shape (s1\<lparr>hbytes := m2, lfree := l2\<rparr>) (joined xs n ys)" "kept (hbytes s1) m2 (live 0 (xs @ (n, False) # ys))"
    "lfree_ok (lfree s1) (xs @ (n, False) # ys) \<Longrightarrow> lfree_ok l2 (joined xs n ys)"
    "lfree_lowest (lfree s1) (xs @ (n, False) # ys) \<Longrightarrow> lfree_lowest l2 (joined xs n ys)" by blast
  moreover have "kept (hbytes s) m1 (live 0 (xs @ (n, False) # ys))"
    using kept_below [OF m1(3), of 0 xs] kept_above [OF m1(3), of "?p + 12 + n" ys] by (simp add: live_append)
  then have "kept (hbytes s) m2 (live 0 xs @ live (?p + 12 + n) ys)"
    using r(3) kept_trans [of "hbytes s" m1] by (simp add: s1 live_append)
  moreover have "u1 = off (used_extent xs + used_extent ys)"
    unfolding u1 us by (simp add: off_def)
  moreover note lfree_after_free [OF lf]
  moreover have "extent (xs @ (n, True) # ys) < 2 ^ 32" using p(5) by simp
  ultimately show ?thesis
    using that [of "s1\<lparr>hbytes := m2, lfree := l2\<rparr>"] plugged_joined [OF pl, of n] pos
    by (simp add: heap_ok_def s1 l1 ball_Un)
qed

subsection \<open>Allocating a block\<close>

lemma kept_Cons [simp]: "kept m m' ((a, n) # l) \<longleftrightarrow> mem_read m' a n = mem_read m a n \<and> kept m m' l"
  by (simp add: kept_def)

lemma heap_shape_size: "heap_shape s bs \<Longrightarrow> mem_size_aligned s + 12 = off (extent bs)"
  by (simp add: heap_shape_def off_add(2))

lemma split_block_ok:
  assumes sh: "heap_shape s (xs @ (n, u) # ys)" and k: "k mod 4 = 0" "k + 12 \<le> n"
    and mark: "mark (block_hdr (last_start 0 0 xs) (extent xs) (k, u)) = block_hdr (last_start 0 0 xs) (extent xs) (k, u')"
  obtains m' where "split_block s (off (extent xs)) (off k) mark = Some (s\<lparr>hbytes := m'\<rparr>)"
    "heap_shape (s\<lparr>hbytes := m'\<rparr>) (xs @ (k, u') # (n - k - 12, False) # ys)"
    "kept (hbytes s) m' (live 0 xs @ [(extent xs + 12, k)] @ live (extent xs + 12 + n) ys)"
proof -
  let ?m = "hbytes s" and ?p = "extent xs" and ?pr = "last_start 0 0 xs"
  let ?r = "?p + 12 + k" and ?q = "?p + 12 + n"
  note p = heap_shape_split [OF sh]
  have len: "length ?m = ?q + extent ys + 12" using sh by (simp add: heap_shape_def)
  have ms: "mem_size_aligned s + 12 = off (?q + extent ys)" using heap_shape_size [OF sh] by (simp add: add.assoc)
  have w: "off ?p + 12 + off k = off ?r" by (simp add: off_def)
  have bh: "block_hdr ?p ?r (n - k - 12, False) = \<lparr>magic = HEAP_MAGIC, used = 0, hnext = off ?q, hprev = off ?p\<rparr>"
  proof -
    have "?r + 12 + (n - k - 12) = ?q" using k by simp
    then show ?thesis by (simp only: block_hdr_def fst_conv snd_conv if_False)
  qed
  obtain m1 where m1: "put_hdr ?m (off ?r) (block_hdr ?p ?r (n - k - 12, False)) = Some m1"
    "get_hdr m1 (off ?r) = Some (block_hdr ?p ?r (n - k - 12, False))" "framed ?m m1 ?r (?r + 12)"
    using put_hdrE [of "off ?r" ?m "block_hdr ?p ?r (n - k - 12, False)"] p(5) k(2) len by auto
  have "get_hdr m1 (off ?p) = get_hdr ?m (off ?p)" by (rule get_hdr_framed [OF m1(3)]) (use p(5) k in simp)
  then have h1: "get_hdr m1 (off ?p) = Some (block_hdr ?pr ?p (n, u))" using p(1) by simp
  let ?f = "mark \<circ> hnext_update (\<lambda>_. off ?r)"
  have "?f (block_hdr ?pr ?p (n, u)) = block_hdr ?pr ?p (k, u')" using mark by (simp add: block_hdr_def)
  then obtain m2 where m2: "upd_hdr m1 (off ?p) ?f = Some m2"
    "get_hdr m2 (off ?p) = Some (block_hdr ?pr ?p (k, u'))" "framed m1 m2 ?p (?p + 12)"
    using upd_hdrE [OF h1, of ?f] p(5) by auto
  have "chain m2 ?p ?q ys"
    using p(4,5) k chain_framed_above [OF m1(3), of ?q ys] chain_framed_above [OF m2(3), of ?q ys] by simp
  then obtain m3 where m3: "(if off ?q \<noteq> mem_size_aligned s + 12 then upd_hdr m2 (off ?q) (hprev_update (\<lambda>_. off ?r))
      else Some m2) = Some m3" "chain m3 ?r ?q ys" "framed m2 m3 ?q (?q + 12)"
  proof (cases "ys = []")
    case True
    then show ?thesis using that [of m2] \<open>chain m2 ?p ?q ys\<close> ms by (simp add: chain_Nil)
  next
    case False
    then have "0 < extent ys" by (cases ys) simp_all
    then have "off ?q \<noteq> mem_size_aligned s + 12" using ms p(5) by simp
    then show ?thesis using that chain_set_prev [OF \<open>chain m2 ?p ?q ys\<close>, of ?r] p(5) by (metis (full_types) add_lessD1)
  qed
  have hr: "get_hdr m3 (off ?r) = Some (block_hdr ?p ?r (n - k - 12, False))"
    using m1(2) get_hdr_framed [OF m2(3), of "off ?r"] get_hdr_framed [OF m3(3), of "off ?r"] p(5) k by simp
  have hp: "get_hdr m3 (off ?p) = Some (block_hdr ?pr ?p (k, u'))"
    using m2(2) get_hdr_framed [OF m3(3), of "off ?p"] p(5) by simp
  have f: "framed ?m m3 ?p (?q + 12)"
    by (rule framed_trans [OF framed_trans [OF framed_mono [OF m1(3)] framed_mono [OF m2(3)]] framed_mono [OF m3(3)]])
      (use k in simp_all)
  have "(n - k - 12) mod 4 = 0" using p(3) k by presburger
  moreover obtain j where j: "n - k - 12 = j" "?q = ?r + 12 + j" using k that [of "n - k - 12"] by simp
  ultimately have c3: "chain m3 0 0 (xs @ (k, u') # (n - k - 12, False) # ys)"
    using hp hr m3(2) p(2) k(1) seg_framed_below [OF f, of 0 xs] p(5)
    by (simp only: chain_append chain_Cons j fst_conv add_0)
  show ?thesis
  proof
    show "split_block s (off ?p) (off k) mark = Some (s\<lparr>hbytes := m3\<rparr>)"
      using p(1) m1(1) [unfolded bh] m2(1) m3(1) by (simp add: split_block_def w block_hdr_def cong: if_cong)
    show "heap_shape (s\<lparr>hbytes := m3\<rparr>) (xs @ (k, u') # (n - k - 12, False) # ys)"
      using sh c3 k framed_length [OF f] by (simp add: heap_shape_def)
    have "mem_read m3 (?p + 12) k = mem_read ?m (?p + 12) k"
      using framed_read [OF m1(3), of "?p + 12" k] framed_read [OF m2(3), of "?p + 12" k]
        framed_read [OF m3(3), of "?p + 12" k] k by simp
    then show "kept ?m m3 (live 0 xs @ [(?p + 12, k)] @ live ?q ys)"
      using kept_below [OF f, of 0 xs] kept_above [OF f, of ?q ys] by simp
  qed
qed

text \<open>The search as a function on the block list: \<open>lim\<close> bounds the offset of the block.\<close>

fun first_fit :: "nat \<Rightarrow> nat \<Rightarrow> nat \<Rightarrow> block list \<Rightarrow> nat option" where
  "first_fit lim k p [] = None"
| "first_fit lim k p (b # bs) =
     (if p < lim then (if \<not> snd b \<and> k \<le> fst b then Some p else first_fit lim k (p + 12 + fst b) bs) else None)"

lemma malloc_find_ok:
  assumes "chain (hbytes s) pr p bs" and "p + extent bs < 2 ^ 32" and "mem_size_aligned s = off z"
    and "z + 12 = p + extent bs" and "k \<le> z"
  shows "malloc_find s (off k) (off p) = Some (map_option off (first_fit (z - k) k p bs))"
  using assms
proof (induction bs arbitrary: pr p)
  case Nil
  then have "\<not> off p < mem_size_aligned s - off k" by (simp add: off_diff off_less)
  then show ?case by (subst malloc_find.simps) simp
next
  case (Cons b bs)
  have sm: "p < 2 ^ 32" "k < 2 ^ 32" "fst b < 2 ^ 32" "z < 2 ^ 32" using Cons.prems by simp_all
  have h: "get_hdr (hbytes s) (off p) = Some (block_hdr pr p b)" and c: "chain (hbytes s) p (p + 12 + fst b) bs"
    using Cons.prems(1) by (simp_all add: chain_Cons)
  have lim: "off p < mem_size_aligned s - off k \<longleftrightarrow> p < z - k"
    using Cons.prems(3,5) sm by (simp add: off_diff off_less)
  have d: "off (p + 12 + fst b) - (off p + 12) = off (fst b)" by (rule off_minus(3))
  have "malloc_find s (off k) (off (p + 12 + fst b)) = Some (map_option off (first_fit (z - k) k (p + 12 + fst b) bs))"
    by (rule Cons.IH [OF c]) (use Cons.prems in simp_all)
  then show ?case
    by (subst malloc_find.simps) (use h sm in \<open>simp add: lim block_hdr_def d off_le del: off_eq\<close>)
qed

lemma first_fitD:
  "first_fit lim k p bs = Some q \<Longrightarrow> \<exists>xs n ys. bs = xs @ (n, False) # ys \<and> q = p + extent xs \<and> k \<le> n \<and> q < lim"
proof (induction bs arbitrary: p)
  case (Cons b bs)
  show ?case
  proof (cases "\<not> snd b \<and> k \<le> fst b")
    case True
    with Cons.prems show ?thesis by (intro exI [of _ "[]"]) (cases b, auto split: if_splits)
  next
    case False
    with Cons.prems have "first_fit lim k (p + 12 + fst b) bs = Some q" by (auto split: if_splits)
    from Cons.IH [OF this] obtain xs n ys where
      "bs = xs @ (n, False) # ys" "q = p + 12 + fst b + extent xs" "k \<le> n" "q < lim" by blast
    then show ?thesis by (intro exI [of _ "b # xs"]) auto
  qed
qed simp

lemma first_fit_None:
  "first_fit lim k p (xs @ (n, False) # ys) = None \<Longrightarrow> k \<le> n \<Longrightarrow> lim \<le> p + extent xs"
proof (induction xs arbitrary: p)
  case (Cons b xs)
  show ?case
  proof (cases "p < lim")
    case True
    with Cons have "first_fit lim k (p + 12 + fst b) (xs @ (n, False) # ys) = None" by (auto split: if_splits)
    from Cons.IH [OF this Cons.prems(2)] show ?thesis by simp
  qed simp
qed (auto split: if_splits)

lemma lfree_loop_ok:
  assumes "chain (hbytes s) pr p bs" and "p + extent bs < 2 ^ 32" and "heap_end s = off (p + extent bs)"
  shows "lfree_loop s (off p) = Some (off (hd (free_starts p bs @ [p + extent bs])))"
  using assms
proof (induction bs arbitrary: pr p)
  case Nil
  obtain h where "get_hdr (hbytes s) (off p) = Some h" using chain_head [OF Nil(1)] by metis
  then show ?case using Nil by (subst lfree_loop.simps) simp
next
  case (Cons b bs)
  have h: "get_hdr (hbytes s) (off p) = Some (block_hdr pr p b)" and c: "chain (hbytes s) p (p + 12 + fst b) bs"
    using Cons.prems(1) by (simp_all add: chain_Cons)
  have e: "off p \<noteq> heap_end s" using Cons.prems(2,3) by simp
  have "lfree_loop s (off (p + 12 + fst b)) = Some (off (hd (free_starts (p + 12 + fst b) bs @ [p + 12 + fst b + extent bs])))"
    by (rule Cons.IH [OF c]) (use Cons.prems in \<open>simp_all add: add.assoc\<close>)
  then show ?case
    by (subst lfree_loop.simps) (use h e in \<open>simp add: block_hdr_def add.assoc\<close>)
qed

lemma heap_shape_updates [simp]:
  "heap_shape (s\<lparr>used_mem := u\<rparr>) bs = heap_shape s bs"
  "heap_shape (s\<lparr>max_mem := u\<rparr>) bs = heap_shape s bs"
  "heap_shape (s\<lparr>lfree := u\<rparr>) bs = heap_shape s bs"
  "heap_shape (add_used u s) bs = heap_shape s bs"
  by (simp_all add: heap_shape_def add_used_def Let_def)

lemma add_used_simps [simp]:
  "hbytes (add_used u s) = hbytes s" "lfree (add_used u s) = lfree s" "heap_ptr (add_used u s) = heap_ptr s"
  "heap_end (add_used u s) = heap_end s" "mem_size_aligned (add_used u s) = mem_size_aligned s"
  "used_mem (add_used u s) = used_mem s + u"
  by (simp_all add: add_used_def Let_def)

definition carve :: "nat \<Rightarrow> nat \<Rightarrow> block list" where
  "carve k n = (if k + 24 \<le> n then [(k, True), (n - k - 12, False)] else [(n, True)])"

text \<open>The pointer to the first free block after the block at \<open>xs\<close> is taken.\<close>

lemma lfree_after_take:
  assumes ok: "lfree_ok l (xs @ (n, False) # ys)" and l: "extent (xs @ (n, False) # ys) < 2 ^ 32"
    and j: "12 + j + extent zs = 12 + n + extent ys"
      "set (free_starts (extent xs + 12 + n) ys) \<subseteq> set (free_starts (extent xs + 12 + j) zs)"
    and l': "l' = (if l = off (extent xs)
      then off (hd (free_starts (extent xs) ((j, True) # zs) @ [extent xs + extent ((j, True) # zs)])) else l)"
  shows "lfree_ok l' (xs @ (j, True) # zs)"
    and "lfree_lowest l (xs @ (n, False) # ys) \<Longrightarrow> lfree_lowest l' (xs @ (j, True) # zs)"
proof -
  let ?fs = "free_starts (extent xs + 12 + j) zs @ [extent xs + (12 + j + extent zs)]"
  have hd: "hd ?fs \<in> set ?fs" by (rule hd_in_set) simp
  show "lfree_ok l' (xs @ (j, True) # zs)"
  proof (cases "l = off (extent xs)")
    case True
    then show ?thesis using hd by (auto simp: l' lfree_ok_def free_starts_append simp del: hd_append2)
  next
    case False
    then show ?thesis using ok j by (auto simp: l' lfree_ok_def free_starts_append add.assoc)
  qed
  assume low: "lfree_lowest l (xs @ (n, False) # ys)"
  show "lfree_lowest l' (xs @ (j, True) # zs)"
  proof (cases "free_starts 0 xs")
    case Nil
    then show ?thesis using low by (simp add: l' lfree_lowest_def free_starts_append)
  next
    case (Cons q qs)
    then have "l = off q" "q < extent xs" using low free_starts_hd_bound [OF Cons]
      by (simp_all add: lfree_lowest_def free_starts_append)
    then show ?thesis using Cons l by (simp add: l' lfree_lowest_def free_starts_append)
  qed
qed

lemma take_block:
  assumes sh: "heap_shape s (xs @ (n, False) # ys)" and k: "k mod 4 = 0" "0 < k" "k \<le> n"
    and us: "used_mem s = off (used_extent (xs @ (n, False) # ys))"
  obtains s1 j zs where
    "(if off n \<ge> off k + 12 + 12 then do {
        s \<leftarrow> split_block s (off (extent xs)) (off k) (used_update (\<lambda>_. 1));
        Some (add_used (off k + 12) s) }
      else do {
        m \<leftarrow> upd_hdr (hbytes s) (off (extent xs)) (used_update (\<lambda>_. 1));
        Some (add_used (off (extent xs + 12 + n) - off (extent xs)) (s\<lparr>hbytes := m\<rparr>)) }) = Some s1"
    "carve k n @ ys = (j, True) # zs" "heap_shape s1 (xs @ (j, True) # zs)"
    "kept (hbytes s) (hbytes s1) (live 0 (xs @ (n, False) # ys))"
    "used_mem s1 = off (used_extent (xs @ (j, True) # zs))" "lfree s1 = lfree s" "heap_ptr s1 = heap_ptr s"
    "mem_size_aligned s1 = mem_size_aligned s" "k \<le> j" "12 + j + extent zs = 12 + n + extent ys"
    "live (extent xs + 12 + j) zs = live (extent xs + 12 + n) ys"
    "set (free_starts (extent xs + 12 + n) ys) \<subseteq> set (free_starts (extent xs + 12 + j) zs)"
proof (cases "k + 24 \<le> n")
  case True
  have lt: "n < 2 ^ 32" using heap_shape_split(5) [OF sh] by simp
  then have c: "off n \<ge> off k + 12 + 12" using True by (simp add: off_add(2) off_le)
  have "used_update (\<lambda>_. 1) (block_hdr (last_start 0 0 xs) (extent xs) (k, False)) =
      block_hdr (last_start 0 0 xs) (extent xs) (k, True)" by (simp add: block_hdr_def)
  from split_block_ok [where mark = "used_update (\<lambda>_. 1)", OF sh k(1) _ this] True obtain m1 where
    m1: "split_block s (off (extent xs)) (off k) (used_update (\<lambda>_. 1)) = Some (s\<lparr>hbytes := m1\<rparr>)"
    "heap_shape (s\<lparr>hbytes := m1\<rparr>) (xs @ (k, True) # (n - k - 12, False) # ys)"
    "kept (hbytes s) m1 (live 0 xs @ [(extent xs + 12, k)] @ live (extent xs + 12 + n) ys)" by auto
  obtain j where j: "n = k + 12 + j" "n - k - 12 = j" using True that [of "n - k - 12"] by simp
  have u: "used_mem s + (off k + 12) = off (used_extent (xs @ (k, True) # (j, False) # ys))"
    by (simp add: us off_def)
  show ?thesis
    by (rule that [of "add_used (off k + 12) (s\<lparr>hbytes := m1\<rparr>)" k "(j, False) # ys"])
      (use c m1 True u j in \<open>auto simp: carve_def live_append add.assoc\<close>)
next
  case False
  have lt: "n < 2 ^ 32" "k + 24 < 2 ^ 32" using heap_shape_split(5) [OF sh] k by simp_all
  then have c: "\<not> off n \<ge> off k + 12 + 12" using False by (simp add: off_add(2) off_le)
  have "used_update (\<lambda>_. 1) (block_hdr (last_start 0 0 xs) (extent xs) (n, False)) =
      block_hdr (last_start 0 0 xs) (extent xs) (n, True)" by (simp add: block_hdr_def)
  from mark_block [OF sh, of "used_update (\<lambda>_. 1)", OF this] obtain m1 where
    m1: "upd_hdr (hbytes s) (off (extent xs)) (used_update (\<lambda>_. 1)) = Some m1"
    "heap_shape (s\<lparr>hbytes := m1\<rparr>) (xs @ (n, True) # ys)" "framed (hbytes s) m1 (extent xs) (extent xs + 12)" by blast
  have "kept (hbytes s) m1 (live 0 (xs @ (n, False) # ys))"
    using kept_below [OF m1(3), of 0 xs] kept_above [OF m1(3), of "extent xs + 12 + n" ys] by (simp add: live_append)
  then show ?thesis
    by (intro that [of "add_used (off (extent xs + 12 + n) - off (extent xs)) (s\<lparr>hbytes := m1\<rparr>)" n ys])
      (use c m1 False us k in \<open>simp_all add: carve_def off_def\<close>)
qed

lemma plugged_carve: "plugged (xs @ (n, False) # ys) \<Longrightarrow> plugged (xs @ carve k n @ ys)"
  by (auto simp: plugged_def carve_def successively_append_iff successively_Cons)

lemma filter_carve_pos:
  "\<forall>b \<in> set (filter snd (xs @ (n, False) # ys)). 0 < fst b \<Longrightarrow> 0 < k \<Longrightarrow> k \<le> n \<Longrightarrow>
   \<forall>b \<in> set (filter snd (xs @ carve k n @ ys)). 0 < fst b"
  by (auto simp: carve_def)

lemma malloc_take_ok:
  assumes ok: "heap_ok s (xs @ (n, False) # ys)" and k: "k mod 4 = 0" "0 < k" "k \<le> n"
  obtains s' where "malloc_take s (off k) (off (extent xs)) = Some (heap_ptr s + off (extent xs + 12), s')"
    "heap_ok s' (xs @ carve k n @ ys)" "kept (hbytes s) (hbytes s') (live 0 (xs @ (n, False) # ys))"
    "heap_ptr s' = heap_ptr s" "mem_size_aligned s' = mem_size_aligned s"
    "lfree_lowest (lfree s) (xs @ (n, False) # ys) \<Longrightarrow> lfree_lowest (lfree s') (xs @ carve k n @ ys)"
proof -
  let ?p = "extent xs" and ?bs = "xs @ (n, False) # ys"
  have sh: "heap_shape s ?bs" and us: "used_mem s = off (used_extent ?bs)" and lf: "lfree_ok (lfree s) ?bs"
    and pl: "plugged ?bs" and pos: "\<forall>b \<in> set (filter snd ?bs). 0 < fst b"
    using ok by (simp_all add: heap_ok_def)
  have lt: "extent ?bs < 2 ^ 32" using sh by (simp add: heap_shape_def)
  have h: "get_hdr (hbytes s) (off ?p) = Some (block_hdr (last_start 0 0 xs) ?p (n, False))"
    by (rule heap_shape_split(1) [OF sh])
  from take_block [OF sh k us] obtain s1 j zs where
    t: "(if off n \<ge> off k + 12 + 12 then do {
        s \<leftarrow> split_block s (off ?p) (off k) (used_update (\<lambda>_. 1));
        Some (add_used (off k + 12) s) }
      else do {
        m \<leftarrow> upd_hdr (hbytes s) (off ?p) (used_update (\<lambda>_. 1));
        Some (add_used (off (?p + 12 + n) - off ?p) (s\<lparr>hbytes := m\<rparr>)) }) = Some s1"
    and cv: "carve k n @ ys = (j, True) # zs" and sh1: "heap_shape s1 (xs @ (j, True) # zs)"
    and kept1: "kept (hbytes s) (hbytes s1) (live 0 ?bs)"
    and s1: "used_mem s1 = off (used_extent (xs @ (j, True) # zs))" "lfree s1 = lfree s" "heap_ptr s1 = heap_ptr s"
      "mem_size_aligned s1 = mem_size_aligned s"
    and j: "k \<le> j" "12 + j + extent zs = 12 + n + extent ys" "live (?p + 12 + j) zs = live (?p + 12 + n) ys"
      "set (free_starts (?p + 12 + n) ys) \<subseteq> set (free_starts (?p + 12 + j) zs)"
    by blast
  have "magic_update (\<lambda>_. HEAP_MAGIC) (block_hdr (last_start 0 0 xs) ?p (j, True)) = block_hdr (last_start 0 0 xs) ?p (j, True)"
    by (simp add: block_hdr_def)
  from mark_block [OF sh1, of "magic_update (\<lambda>_. HEAP_MAGIC)", OF this] obtain m2 where
    m2: "upd_hdr (hbytes s1) (off ?p) (magic_update (\<lambda>_. HEAP_MAGIC)) = Some m2"
    "heap_shape (s1\<lparr>hbytes := m2\<rparr>) (xs @ (j, True) # zs)" "framed (hbytes s1) m2 ?p (?p + 12)" by blast
  obtain s2 where s2: "s2 = s1\<lparr>hbytes := m2\<rparr>" by simp
  have sh2: "heap_shape s2 (xs @ (j, True) # zs)" using m2(2) s2 by simp
  have c2: "chain (hbytes s2) (last_start 0 0 xs) ?p ((j, True) # zs)"
    and lt2: "?p + extent ((j, True) # zs) < 2 ^ 32" and e2: "heap_end s2 = off (?p + extent ((j, True) # zs))"
    using sh2 by (simp_all add: heap_shape_def chain_append)
  define q where "q = hd (free_starts ?p ((j, True) # zs) @ [?p + extent ((j, True) # zs)])"
  have lp: "lfree_loop s2 (off ?p) = Some (off q)" unfolding q_def by (rule lfree_loop_ok [OF c2 lt2 e2])
  define l' where "l' = (if lfree s = off ?p then off q else lfree s)"
  note lfo = lfree_after_take [OF lf lt j(2,4), of l', OF l'_def [unfolded q_def]]
  have "\<exists>h. get_hdr (hbytes s2) (off q) = Some h \<and> (off q = heap_end s2 \<or> used h = 0)"
  proof (cases "free_starts ?p ((j, True) # zs)")
    case Nil
    then have q: "q = ?p + extent ((j, True) # zs)" unfolding q_def by simp
    have "end_hdr (hbytes s2) q" using c2 q by (simp add: chain_def)
    then show ?thesis using q e2 by (auto simp: end_hdr_def)
  next
    case (Cons q' qs)
    then have "q \<in> set (free_starts ?p ((j, True) # zs))" unfolding q_def by simp
    from free_startsD [OF this] obtain as i bs where "(j, True) # zs = as @ (i, False) # bs" "q = ?p + extent as"
      by blast
    then show ?thesis using c2 by (auto simp: chain_append chain_Cons block_hdr_def)
  qed
  then obtain h2 where h2: "get_hdr (hbytes s2) (off q) = Some h2" "off q = heap_end s2 \<or> used h2 = 0" by blast
  define s3 where "s3 = s2\<lparr>lfree := l'\<rparr>"
  have fin: "(if off ?p = lfree s2 then do {
        q \<leftarrow> lfree_loop s2 (lfree s2);
        mem \<leftarrow> get_hdr (hbytes s2) q;
        rt_assert (q = heap_end s2 \<or> used mem = 0);
        Some (s2\<lparr>lfree := q\<rparr>) } else Some s2) = Some s3"
    using lp h2 s1(2) by (auto simp: s3_def l'_def s2 rt_assert_def)
  have sh3: "heap_shape s3 (xs @ (j, True) # zs)" and hp3: "heap_ptr s3 = heap_ptr s"
    using sh2 s1 by (simp_all add: s3_def s2)
  note a = block_address [OF sh3, unfolded hp3]
  have e3: "heap_end s3 = off (extent (xs @ (j, True) # zs))" using sh3 by (simp add: heap_shape_def)
  have ak: "heap_ptr s3 + off (?p + 12) + off k = heap_ptr s3 + off (?p + 12 + k)" by (simp add: off_def)
  have as1: "rt_assert (heap_ptr s3 + off (?p + 12 + k) \<le> heap_ptr s3 + heap_end s3) = Some ()"
    using heap_address [OF sh3, of "?p + 12 + k"] heap_address [OF sh3, of "extent (xs @ (j, True) # zs)"] j(1) e3
    by (simp add: word_le_nat_alt)
  have al: "heap_ptr s3 + off ?p + 12 = heap_ptr s3 + off (?p + 12)" by (simp add: off_def)
  have as2: "rt_assert ((heap_ptr s3 + off (?p + 12)) mod 4 = 0) = Some ()"
    using a(3) hp3 by (simp add: mod_4_zero and_3_zero)
  have "(heap_ptr s3 + off ?p) AND 3 = 0"
    using a(3) heap_address [OF sh3, of ?p] a(1) unfolding hp3 [symmetric] and_3_zero by (simp, presburger)
  then have as3: "rt_assert ((heap_ptr s3 + off ?p) AND 3 = 0) = Some ()" by simp
  have nx: "hnext (block_hdr (last_start 0 0 xs) ?p (n, False)) = off (?p + 12 + n)" by (simp add: block_hdr_def)
  have "malloc_take s (off k) (off ?p) = Some (heap_ptr s + off (?p + 12), s3)"
    by (simp only: malloc_take_def h Option.bind.simps nx off_minus(3) t m2(1) Let_def s2 [symmetric] fin ak al as1 as2 as3)
      (simp only: hp3)
  moreover have "heap_ok s3 (xs @ carve k n @ ys)"
    using sh3 lfo(1) s1(1) plugged_carve [OF pl, of k] filter_carve_pos [OF pos k(2,3)]
    unfolding heap_ok_def cv by (simp add: s3_def s2)
  moreover have "kept (hbytes s) (hbytes s3) (live 0 ?bs)"
  proof (rule kept_trans [OF kept1])
    show "kept (hbytes s1) (hbytes s3) (live 0 ?bs)"
      using kept_below [OF m2(3), of 0 xs] kept_above [OF m2(3), of "?p + 12 + j" zs] j(3)
      by (simp add: s3_def s2 live_append)
  qed
  moreover have "lfree_lowest (lfree s3) (xs @ carve k n @ ys)" if "lfree_lowest (lfree s) ?bs"
    using lfo(2) [OF that] cv by (simp add: s3_def)
  ultimately show ?thesis using that hp3 s1(4) by (simp add: s3_def s2)
qed

subsection \<open>rt-malloc on the whole heap\<close>

lemma RT_ALIGN_unat: "unat sz + 3 < 2 ^ 32 \<Longrightarrow> unat (RT_ALIGN sz) = 4 * ((unat sz + 3) div 4)"
  by (simp add: RT_ALIGN_def unat_word_ariths)

text \<open>The size of the block that is searched for a request.\<close>

definition request :: "u32 \<Rightarrow> nat" where
  "request sz = max 12 (4 * ((unat sz + 3) div 4))"

lemma request_props: "request sz mod 4 = 0" "12 \<le> request sz" "unat sz \<le> request sz"
  by (auto simp: request_def max_def)

lemma lfree_split:
  assumes "lfree_ok l bs"
  obtains us vs where "bs = us @ vs" "l = off (extent us)" "vs = [] \<or> \<not> snd (hd vs)"
proof -
  from assms obtain q where q: "q \<in> set (free_starts 0 bs @ [extent bs])" "l = off q" by (auto simp: lfree_ok_def)
  show ?thesis
  proof (cases "q \<in> set (free_starts 0 bs)")
    case True
    from free_startsD [OF this] obtain xs n ys where "bs = xs @ (n, False) # ys" "q = extent xs" by auto
    then show ?thesis using that [of xs "(n, False) # ys"] q by simp
  next
    case False
    then show ?thesis using that [of bs "[]"] q by simp
  qed
qed

lemma rt_malloc_search:
  assumes ok: "heap_ok s bs" and sz: "sz \<noteq> 0" "unat sz + 3 < 2 ^ 32" and us: "bs = us @ vs" "lfree s = off (extent us)"
  shows "rt_malloc s sz =
    (if extent bs - 12 < 4 * ((unat sz + 3) div 4) then Some (0, s)
     else case first_fit (extent bs - 12 - request sz) (request sz) (extent us) vs of
       None \<Rightarrow> Some (0, s) | Some p \<Rightarrow> malloc_take s (off (request sz)) (off p))"
proof -
  have sh: "heap_shape s bs" using ok by (simp add: heap_ok_def)
  have ms: "mem_size_aligned s = off (extent bs - 12)" and lt: "extent bs + 12 < 2 ^ 32" and lo: "24 \<le> extent bs"
    and c: "chain (hbytes s) (last_start 0 0 us) (extent us) vs"
    using sh us(1) by (simp_all add: heap_shape_def chain_append)
  have al: "RT_ALIGN sz = off (4 * ((unat sz + 3) div 4))" using RT_ALIGN_unat [OF sz(2)] by (metis off_unat)
  have a4: "4 * ((unat sz + 3) div 4) < 2 ^ 32" using sz(2) by simp
  have rq: "(if RT_ALIGN sz < 12 then 12 else RT_ALIGN sz) = off (request sz)"
    using a4 by (auto simp: al request_def off_less max_def) (simp add: off_def)
  have gt: "RT_ALIGN sz > mem_size_aligned s \<longleftrightarrow> extent bs - 12 < 4 * ((unat sz + 3) div 4)"
    using a4 lt by (simp add: al ms off_less)
  have "malloc_find s (off (request sz)) (off (extent us)) =
      Some (map_option off (first_fit (extent bs - 12 - request sz) (request sz) (extent us) vs))"
    if "\<not> extent bs - 12 < 4 * ((unat sz + 3) div 4)"
    by (rule malloc_find_ok [OF c _ ms]) (use that lt lo us(1) in \<open>auto simp: request_def\<close>)
  then show ?thesis
    using sz(1) us(2) by (simp add: rt_malloc_def gt rq Let_def split: option.split cong: if_cong)
qed

lemma rt_malloc_ok:
  assumes ok: "heap_ok s bs" and sz: "unat sz + 3 < 2 ^ 32"
  obtains "rt_malloc s sz = Some (0, s)"
  | xs n ys s' where "bs = xs @ (n, False) # ys" "request sz \<le> n" "sz \<noteq> 0"
    "rt_malloc s sz = Some (heap_ptr s + off (extent xs + 12), s')" "heap_ok s' (xs @ carve (request sz) n @ ys)"
    "kept (hbytes s) (hbytes s') (live 0 bs)" "heap_ptr s' = heap_ptr s" "mem_size_aligned s' = mem_size_aligned s"
    "lfree_lowest (lfree s) bs \<Longrightarrow> lfree_lowest (lfree s') (xs @ carve (request sz) n @ ys)"
proof (cases "sz = 0")
  case True
  then show ?thesis using that(1) by (simp add: rt_malloc_def)
next
  case False
  from ok have "lfree_ok (lfree s) bs" by (simp add: heap_ok_def)
  then obtain us vs where us: "bs = us @ vs" "lfree s = off (extent us)" by (rule lfree_split)
  note search = rt_malloc_search [OF ok False sz us]
  show ?thesis
  proof (cases "extent bs - 12 < 4 * ((unat sz + 3) div 4) \<or>
      first_fit (extent bs - 12 - request sz) (request sz) (extent us) vs = None")
    case True
    then show ?thesis using that(1) search by auto
  next
    case False
    then obtain p where p: "first_fit (extent bs - 12 - request sz) (request sz) (extent us) vs = Some p" by auto
    from first_fitD [OF p] obtain ws n ys where
      w: "vs = ws @ (n, False) # ys" "p = extent us + extent ws" "request sz \<le> n" by blast
    have bs: "bs = (us @ ws) @ (n, False) # ys" and px: "p = extent (us @ ws)" using us w by simp_all
    have ok': "heap_ok s ((us @ ws) @ (n, False) # ys)" using ok bs by simp
    have k: "request sz mod 4 = 0" "0 < request sz" using request_props [of sz] by simp_all
    obtain s' where "malloc_take s (off (request sz)) (off p) = Some (heap_ptr s + off (p + 12), s')"
      "heap_ok s' ((us @ ws) @ carve (request sz) n @ ys)" "kept (hbytes s) (hbytes s') (live 0 bs)"
      "heap_ptr s' = heap_ptr s" "mem_size_aligned s' = mem_size_aligned s"
      "lfree_lowest (lfree s) bs \<Longrightarrow> lfree_lowest (lfree s') ((us @ ws) @ carve (request sz) n @ ys)"
      unfolding px bs by (rule malloc_take_ok [OF ok' k w(3)]) blast
    then show ?thesis
      using that(2) [OF bs w(3) \<open>sz \<noteq> 0\<close>, of s'] search False p px by simp
  qed
qed

lemma live_iff: "(a, n) \<in> set (live p bs) \<longleftrightarrow> (\<exists>xs ys. bs = xs @ (n, True) # ys \<and> a = p + extent xs + 12)"
proof
  show "(a, n) \<in> set (live p bs) \<Longrightarrow> \<exists>xs ys. bs = xs @ (n, True) # ys \<and> a = p + extent xs + 12"
  proof (induction bs arbitrary: p)
    case (Cons b bs)
    show ?case
    proof (cases "snd b \<and> a = p + 12 \<and> n = fst b")
      case True
      then show ?thesis by (cases b) (rule exI [of _ "[]"], rule exI [of _ bs], simp)
    next
      case False
      with Cons.prems have "(a, n) \<in> set (live (p + 12 + fst b) bs)" by (auto split: if_splits)
      from Cons.IH [OF this] obtain xs ys where "bs = xs @ (n, True) # ys" "a = p + 12 + fst b + extent xs + 12" by blast
      then show ?thesis by (cases b) (rule exI [of _ "b # xs"], rule exI [of _ ys], auto)
    qed
  qed simp
qed (auto simp: live_append)

lemma live_disjoint:
  "(a, n) \<in> set (live p bs) \<Longrightarrow> (b, k) \<in> set (live p bs) \<Longrightarrow> (a, n) = (b, k) \<or> a + n \<le> b \<or> b + k \<le> a"
proof (induction bs arbitrary: p)
  case (Cons c bs)
  then show ?case using live_bounds [of a n "p + 12 + fst c" bs] live_bounds [of b k "p + 12 + fst c" bs]
    by (auto split: if_splits)
qed simp

text \<open>Writing inside the data of a block in use disturbs neither the allocator nor any other block.\<close>

lemma heap_ok_write:
  assumes ok: "heap_ok s bs" and a: "(a, n) \<in> set (live 0 bs)" and f: "framed (hbytes s) m' a (a + n)"
  shows "heap_ok (s\<lparr>hbytes := m'\<rparr>) bs"
    and "(b, k) \<in> set (live 0 bs) \<Longrightarrow> (b, k) \<noteq> (a, n) \<Longrightarrow> mem_read m' b k = mem_read (hbytes s) b k"
proof -
  from a obtain xs ys where bs: "bs = xs @ (n, True) # ys" and ax: "a = extent xs + 12" by (auto simp: live_iff)
  have sh: "heap_shape s (xs @ (n, True) # ys)" using ok bs by (simp add: heap_ok_def)
  note p = heap_shape_split [OF sh]
  have "get_hdr m' (off (extent xs)) = get_hdr (hbytes s) (off (extent xs))"
    by (rule get_hdr_framed [OF f]) (use p(5) ax in simp)
  then have "chain m' 0 0 bs"
    using p seg_framed_below [OF f, of 0 xs] chain_framed_above [OF f, of "extent xs + 12 + n" ys] ax
    by (simp add: bs chain_append chain_Cons)
  then show "heap_ok (s\<lparr>hbytes := m'\<rparr>) bs"
    using ok framed_length [OF f] by (simp add: heap_ok_def heap_shape_def)
  assume "(b, k) \<in> set (live 0 bs)" "(b, k) \<noteq> (a, n)"
  then have "b + k \<le> a \<or> a + n \<le> b" using live_disjoint [OF a] by auto
  then show "mem_read m' b k = mem_read (hbytes s) b k" by (rule framed_read [OF f])
qed

end
