(* ===== verification/HeapAlloc.thy ===== *)
theory HeapAlloc
  imports Heap
begin

text \<open>
  What the allocator of \<open>Heap\<close> promises: the interface \<open>allocator\<close> its clients rely on and its
  interpretation on \<open>rt_malloc\<close> and \<open>rt_free\<close>, \<open>rt_realloc\<close> and \<open>rt_calloc\<close> on top of them, and the
  properties of the whole.
\<close>

subsection \<open>The allocator as an interface\<close>

text \<open>
  What a client relies on: \<open>rep s L\<close> says that in state \<open>s\<close> the areas of \<open>L\<close> (address and size) are
  handed out, \<open>area s\<close> reads an area.
\<close>

locale allocator =
  fixes rep :: "'s \<Rightarrow> (u32 \<times> nat) set \<Rightarrow> bool"
    and area :: "'s \<Rightarrow> u32 \<times> nat \<Rightarrow> u8 list option"
    and alloc :: "'s \<Rightarrow> u32 \<Rightarrow> (u32 \<times> 's) option"
    and release :: "'s \<Rightarrow> u32 \<Rightarrow> 's option"
  assumes apart: "rep s L \<Longrightarrow> (a, n) \<in> L \<Longrightarrow> (b, k) \<in> L \<Longrightarrow> (a, n) \<noteq> (b, k) \<Longrightarrow>
      unat a + n \<le> unat b \<or> unat b + k \<le> unat a"
    and alloc_law: "rep s L \<Longrightarrow> unat sz + 3 < 2 ^ 32 \<Longrightarrow>
      alloc s sz = Some (0, s) \<or>
      (\<exists>p n s'. alloc s sz = Some (p, s') \<and> p \<noteq> 0 \<and> unat p mod 4 = 0 \<and> unat sz \<le> n \<and> (p, n) \<notin> L \<and>
         rep s' (insert (p, n) L) \<and> (\<forall>A \<in> L. area s' A = area s A))"
    and release_law: "rep s L \<Longrightarrow> (p, n) \<in> L \<Longrightarrow>
      \<exists>s'. release s p = Some s' \<and> rep s' (L - {(p, n)}) \<and> (\<forall>A \<in> L - {(p, n)}. area s' A = area s A)"
begin

text \<open>A call of \<open>alloc\<close> always returns, and a new area overlaps none of the old ones.\<close>

lemma alloc_fresh:
  assumes "rep s L" and "unat sz + 3 < 2 ^ 32"
  shows "\<exists>p s'. alloc s sz = Some (p, s') \<and>
    (p = 0 \<and> s' = s \<or> (\<exists>n. unat sz \<le> n \<and> rep s' (insert (p, n) L) \<and>
       (\<forall>(b, k) \<in> L. unat p + n \<le> unat b \<or> unat b + k \<le> unat p) \<and> (\<forall>A \<in> L. area s' A = area s A)))"
  using alloc_law [OF assms]
proof (elim disjE exE conjE)
  fix p n s'
  assume r: "alloc s sz = Some (p, s')" "unat sz \<le> n" "(p, n) \<notin> L" "rep s' (insert (p, n) L)"
    "\<forall>A \<in> L. area s' A = area s A"
  have "\<forall>(b, k) \<in> L. unat p + n \<le> unat b \<or> unat b + k \<le> unat p"
  proof (clarify)
    fix b k assume "(b, k) \<in> L" "\<not> unat b + k \<le> unat p"
    then show "unat p + n \<le> unat b" using apart [OF r(4), of p n b k] r(3) by auto
  qed
  with r show ?thesis by blast
qed blast

text \<open>Taking an area and giving it back leaves the other areas as they were.\<close>

lemma alloc_release:
  assumes "rep s L" and "unat sz + 3 < 2 ^ 32" and "alloc s sz = Some (p, s')" and "p \<noteq> 0"
  shows "\<exists>s''. release s' p = Some s'' \<and> rep s'' L \<and> (\<forall>A \<in> L. area s'' A = area s A)"
proof -
  from alloc_law [OF assms(1,2)] assms(3,4) obtain n where
    n: "(p, n) \<notin> L" "rep s' (insert (p, n) L)" "\<forall>A \<in> L. area s' A = area s A" by auto
  from release_law [OF n(2), of p n] n(1) obtain s'' where
    "release s' p = Some s''" "rep s'' L" "\<forall>A \<in> L. area s'' A = area s' A" by auto
  with n(3) show ?thesis by auto
qed

end

definition heap_rep :: "heap \<Rightarrow> (u32 \<times> nat) set \<Rightarrow> bool" where
  "heap_rep s L \<longleftrightarrow> (\<exists>bs. heap_ok s bs \<and> L = (\<lambda>(a, n). (heap_ptr s + off a, n)) ` set (live 0 bs))"

definition heap_area :: "heap \<Rightarrow> u32 \<times> nat \<Rightarrow> u8 list option" where
  "heap_area s A = mem_read (hbytes s) (unat (fst A - heap_ptr s)) (snd A)"

lemma heap_ok_bound: "heap_ok s bs \<Longrightarrow> unat (heap_ptr s) + extent bs + 12 < 2 ^ 32"
  by (simp add: heap_ok_def heap_shape_def)

lemma live_address:
  assumes "heap_ok s bs" and "(a, n) \<in> set (live 0 bs)"
  shows "unat (heap_ptr s + off a) = unat (heap_ptr s) + a" and "unat (heap_ptr s + off a - heap_ptr s) = a"
    and "a + n \<le> extent bs"
proof -
  show b: "a + n \<le> extent bs" using live_bounds [OF assms(2)] by simp
  show "unat (heap_ptr s + off a) = unat (heap_ptr s) + a"
    using heap_address [of s bs a] assms(1) b by (simp add: heap_ok_def)
  show "unat (heap_ptr s + off a - heap_ptr s) = a" using heap_ok_bound [OF assms(1)] b by simp
qed

lemma heap_area_live:
  "heap_ok s bs \<Longrightarrow> (a, n) \<in> set (live 0 bs) \<Longrightarrow> heap_area s (heap_ptr s + off a, n) = mem_read (hbytes s) a n"
  using live_address(2) [of s bs a n] by (simp add: heap_area_def)

lemma heap_area_kept:
  assumes "heap_ok s bs" and "kept (hbytes s) (hbytes s') l" and "heap_ptr s' = heap_ptr s" and "set l \<subseteq> set (live 0 bs)"
    and "A \<in> (\<lambda>(a, n). (heap_ptr s + off a, n)) ` set l"
  shows "heap_area s' A = heap_area s A"
proof -
  from assms(5) obtain a n where A: "A = (heap_ptr s + off a, n)" "(a, n) \<in> set l" by auto
  then have "mem_read (hbytes s') a n = mem_read (hbytes s) a n" using assms(2) by (auto simp: kept_def)
  then show ?thesis using live_address(2) [of s bs a n] assms(1,3,4) A by (auto simp: heap_area_def)
qed

lemma address_inj:
  assumes "heap_ok s bs" and "(a, n) \<in> set (live 0 bs)" and "(b, k) \<in> set (live 0 bs)"
    and "heap_ptr s + off a = heap_ptr s + off b"
  shows "a = b"
proof -
  have "unat (heap_ptr s) + a = unat (heap_ptr s) + b"
    unfolding live_address(1) [OF assms(1,2), symmetric] live_address(1) [OF assms(1,3), symmetric] assms(4) ..
  then show ?thesis by simp
qed

interpretation heapalloc: allocator heap_rep heap_area rt_malloc rt_free
proof
  fix s L a n b k
  assume "heap_rep s L" "(a, n) \<in> L" "(b, k) \<in> L" and ne: "(a, n) \<noteq> (b, k)"
  then obtain bs a' b' where ok: "heap_ok s bs" and l: "(a', n) \<in> set (live 0 bs)" "(b', k) \<in> set (live 0 bs)"
    and ab: "a = heap_ptr s + off a'" "b = heap_ptr s + off b'"
    by (auto simp: heap_rep_def)
  have "a' + n \<le> b' \<or> b' + k \<le> a'" using live_disjoint [OF l] ne ab by auto
  then show "unat a + n \<le> unat b \<or> unat b + k \<le> unat a"
    unfolding ab live_address(1) [OF ok l(1)] live_address(1) [OF ok l(2)] by simp
next
  fix s L and sz :: u32
  assume "heap_rep s L" and sz: "unat sz + 3 < 2 ^ 32"
  then obtain bs where ok: "heap_ok s bs" and L: "L = (\<lambda>(a, n). (heap_ptr s + off a, n)) ` set (live 0 bs)"
    by (auto simp: heap_rep_def)
  show "rt_malloc s sz = Some (0, s) \<or>
      (\<exists>p n s'. rt_malloc s sz = Some (p, s') \<and> p \<noteq> 0 \<and> unat p mod 4 = 0 \<and> unat sz \<le> n \<and> (p, n) \<notin> L \<and>
         heap_rep s' (insert (p, n) L) \<and> (\<forall>A \<in> L. heap_area s' A = heap_area s A))"
  proof (cases rule: rt_malloc_ok [OF ok sz])
    case (2 xs n ys s')
    let ?p = "heap_ptr s + off (extent xs + 12)"
    obtain j zs where j: "carve (request sz) n @ ys = (j, True) # zs" "request sz \<le> j"
      "live (extent xs + 12 + j) zs = live (extent xs + 12 + n) ys"
    proof (cases "request sz + 24 \<le> n")
      case True
      show ?thesis by (rule that [of "request sz" "(n - request sz - 12, False) # ys"]) (use True in \<open>simp_all add: carve_def add.assoc add.left_commute\<close>)
    next
      case False
      then show ?thesis using that [of n ys] 2(2) by (simp add: carve_def)
    qed
    have ok': "heap_ok s' (xs @ (j, True) # zs)" using 2(5) j(1) by simp
    have lv: "set (live 0 (xs @ (j, True) # zs)) = insert (extent xs + 12, j) (set (live 0 bs))"
      using 2(1) j(3) by (auto simp: live_append)
    have sh': "heap_shape s' (xs @ (j, True) # zs)" using ok' by (simp add: heap_ok_def)
    note a = block_address [OF sh', unfolded 2(7)]
    have "heap_rep s' (insert (?p, j) L)"
      unfolding heap_rep_def using ok' lv L 2(7) by (intro exI [of _ "xs @ (j, True) # zs"]) auto
    moreover have "(?p, j) \<notin> L"
    proof
      assume "(?p, j) \<in> L"
      then obtain b where b: "(b, j) \<in> set (live 0 bs)" "?p = heap_ptr s + off b" using L by auto
      have "b = extent xs + 12" using address_inj [OF ok', of b j "extent xs + 12" j] b lv 2(7) by simp
      with b(1) 2(1) show False
        using live_bounds [of b j 0 xs] live_bounds [of b j "extent xs + 12 + n" ys] by (auto simp: live_append)
    qed
    moreover have "\<forall>A \<in> L. heap_area s' A = heap_area s A"
      using heap_area_kept [OF ok 2(6,7)] L by blast
    ultimately show ?thesis
      using 2(4) a(3,4) j(2) request_props(3) [of sz] by (auto simp: and_3_zero intro!: exI [of _ j])
  qed simp
next
  fix s L p n
  assume "heap_rep s L" "(p, n) \<in> L"
  then obtain bs a where ok: "heap_ok s bs" and L: "L = (\<lambda>(a, n). (heap_ptr s + off a, n)) ` set (live 0 bs)"
    and a: "(a, n) \<in> set (live 0 bs)" "p = heap_ptr s + off a"
    by (auto simp: heap_rep_def)
  then obtain xs ys where bs: "bs = xs @ (n, True) # ys" and ax: "a = extent xs + 12" by (auto simp: live_iff)
  let ?l = "live 0 xs @ live (extent xs + 12 + n) ys"
  from rt_free_ok [OF ok [unfolded bs]] obtain s' where
    s': "rt_free s (heap_ptr s + off (extent xs + 12)) = Some s'" "heap_ok s' (joined xs n ys)"
    "kept (hbytes s) (hbytes s') ?l" "heap_ptr s' = heap_ptr s" by blast
  have lv: "set (live 0 bs) = insert (a, n) (set ?l)" using bs ax by (auto simp: live_append)
  have "(a, n) \<notin> set ?l"
    using live_bounds [of a n 0 xs] live_bounds [of a n "extent xs + 12 + n" ys] ax by auto
  have "(\<lambda>(a, n). (heap_ptr s + off a, n)) ` set ?l = L - {(p, n)}"
  proof -
    have "(p, n) \<notin> (\<lambda>(a, n). (heap_ptr s + off a, n)) ` set ?l"
    proof
      assume "(p, n) \<in> (\<lambda>(a, n). (heap_ptr s + off a, n)) ` set ?l"
      then obtain b where b: "(b, n) \<in> set ?l" "p = heap_ptr s + off b" by auto
      then have "a = b" using address_inj [OF ok a(1), of b n] a(2) lv by auto
      with b(1) \<open>(a, n) \<notin> set ?l\<close> show False by simp
    qed
    then show ?thesis using L lv a(2) by auto
  qed
  then show "\<exists>s'. rt_free s p = Some s' \<and> heap_rep s' (L - {(p, n)}) \<and> (\<forall>A \<in> L - {(p, n)}. heap_area s' A = heap_area s A)"
    using s' heap_area_kept [OF ok s'(3,4)] lv a(2) ax live_joined [of xs n ys]
    unfolding heap_rep_def by (intro exI [of _ s'] conjI exI [of _ "joined xs n ys"]) auto
qed

subsection \<open>Reallocation\<close>

lemma heap_rep_live:
  assumes "heap_rep s L" and "(p, n) \<in> L"
  obtains xs ys where "heap_ok s (xs @ (n, True) # ys)" "p = heap_ptr s + off (extent xs + 12)"
    "L = (\<lambda>(a, n). (heap_ptr s + off a, n)) ` set (live 0 (xs @ (n, True) # ys))"
    "unat (p - heap_ptr s) = extent xs + 12" "0 < n" "extent xs + 12 + n \<le> length (hbytes s)"
proof -
  from assms obtain bs a where ok: "heap_ok s bs" and L: "L = (\<lambda>(a, n). (heap_ptr s + off a, n)) ` set (live 0 bs)"
    and a: "(a, n) \<in> set (live 0 bs)" "p = heap_ptr s + off a"
    by (auto simp: heap_rep_def)
  then obtain xs ys where bs: "bs = xs @ (n, True) # ys" and ax: "a = extent xs + 12" by (auto simp: live_iff)
  have "0 < n" "length (hbytes s) = extent bs + 12" using ok bs by (simp_all add: heap_ok_def heap_shape_def)
  then show ?thesis using that [of xs ys] ok L a bs ax live_address(2) [OF ok a(1)] by simp
qed

lemma heap_rep_write:
  assumes "heap_rep s L" and "(p, n) \<in> L"
    and f: "framed (hbytes s) m' (unat (p - heap_ptr s)) (unat (p - heap_ptr s) + n)"
  shows "heap_rep (s\<lparr>hbytes := m'\<rparr>) L" and "\<forall>A \<in> L - {(p, n)}. heap_area (s\<lparr>hbytes := m'\<rparr>) A = heap_area s A"
proof -
  from heap_rep_live [OF assms(1,2)] obtain xs ys where ok: "heap_ok s (xs @ (n, True) # ys)"
    and p: "p = heap_ptr s + off (extent xs + 12)" "unat (p - heap_ptr s) = extent xs + 12"
    and L: "L = (\<lambda>(a, n). (heap_ptr s + off a, n)) ` set (live 0 (xs @ (n, True) # ys))" by metis
  have a: "(extent xs + 12, n) \<in> set (live 0 (xs @ (n, True) # ys))" by (auto simp: live_append)
  note w = heap_ok_write [OF ok a f [unfolded p(2)]]
  show "heap_rep (s\<lparr>hbytes := m'\<rparr>) L" using w(1) L by (auto simp: heap_rep_def)
  show "\<forall>A \<in> L - {(p, n)}. heap_area (s\<lparr>hbytes := m'\<rparr>) A = heap_area s A"
  proof
    fix A assume "A \<in> L - {(p, n)}"
    then obtain b k where A: "A = (heap_ptr s + off b, k)" "(b, k) \<in> set (live 0 (xs @ (n, True) # ys))"
      "(b, k) \<noteq> (extent xs + 12, n)" using L p(1) by auto
    show "heap_area (s\<lparr>hbytes := m'\<rparr>) A = heap_area s A"
      using w(2) [OF A(2,3)] live_address(2) [OF ok A(2)] A(1) by (simp add: heap_area_def)
  qed
qed

text \<open>Shrinking a block in place.\<close>

lemma realloc_shrink:
  assumes ok: "heap_ok s (xs @ (n, True) # ys)" and k: "k mod 4 = 0" "0 < k" "k + 24 < n"
  obtains s1 s' where
    "split_block (s\<lparr>used_mem := used_mem s - (off n - off k)\<rparr>) (off (extent xs)) (off k) id = Some s1"
    "plug_holes s1 (off (extent xs + 12 + k)) = Some s'" "heap_ptr s' = heap_ptr s"
    "heap_ok s' (joined (xs @ [(k, True)]) (n - k - 12) ys)"
    "kept (hbytes s) (hbytes s') (live 0 xs @ [(extent xs + 12, k)] @ live (extent xs + 12 + n) ys)"
    "ys = [] \<or> snd (hd ys) \<Longrightarrow> lfree s' = lfree s"
proof -
  let ?xs = "xs @ [(k, True)]" and ?l = "live 0 xs @ [(extent xs + 12, k)] @ live (extent xs + 12 + n) ys"
  have sh: "heap_shape s (xs @ (n, True) # ys)" and us: "used_mem s = off (used_extent (xs @ (n, True) # ys))"
    and lf: "lfree_ok (lfree s) (xs @ (n, True) # ys)" and pl: "plugged (xs @ (n, True) # ys)"
    and pos: "\<forall>b \<in> set (filter snd (xs @ (n, True) # ys)). 0 < fst b"
    using ok by (simp_all add: heap_ok_def)
  obtain j where j: "n = k + 12 + j" "n - k - 12 = j" using k that [of "n - k - 12"] by simp
  obtain s0 where s0: "s0 = s\<lparr>used_mem := used_mem s - (off n - off k)\<rparr>" by simp
  have sh0: "heap_shape s0 (xs @ (n, True) # ys)" using sh s0 by simp
  from split_block_ok [where mark = id and u' = True, OF sh0 k(1)] k(3) obtain m1 where
    m1: "split_block s0 (off (extent xs)) (off k) id = Some (s0\<lparr>hbytes := m1\<rparr>)"
    "heap_shape (s0\<lparr>hbytes := m1\<rparr>) (xs @ (k, True) # (j, False) # ys)" "kept (hbytes s0) m1 ?l"
    using j(2) by auto
  obtain s1 where s1: "s1 = s0\<lparr>hbytes := m1\<rparr>" by simp
  have sh1: "heap_shape s1 (?xs @ (j, False) # ys)" using m1(2) s1 by simp
  from plug_holes_ok [OF sh1] obtain m2 l2 where
    r: "plug_holes s1 (off (extent ?xs)) = Some (s1\<lparr>hbytes := m2, lfree := l2\<rparr>)"
    "heap_shape (s1\<lparr>hbytes := m2, lfree := l2\<rparr>) (joined ?xs j ys)" "kept (hbytes s1) m2 (live 0 (?xs @ (j, False) # ys))"
    "lfree_ok (lfree s1) (?xs @ (j, False) # ys) \<Longrightarrow> lfree_ok l2 (joined ?xs j ys)"
    "ys = [] \<or> snd (hd ys) \<Longrightarrow> ?xs = [] \<or> snd (last ?xs) \<Longrightarrow> l2 = lfree s1" by blast
  have "lfree_ok (lfree s1) (?xs @ (j, False) # ys)"
    using lf j(1) by (auto simp: s1 s0 lfree_ok_def free_starts_append add.assoc)
  moreover have "plugged (?xs @ (k, True) # ys)"
    using pl by (auto simp: plugged_def successively_append_iff successively_Cons)
  then have "plugged (joined ?xs j ys)" by (rule plugged_joined)
  moreover have "used_mem s1 = off (used_extent (joined ?xs j ys))"
    unfolding s1 s0 using us j(1) by (simp add: off_def)
  moreover have "\<forall>b \<in> set (filter snd (joined ?xs j ys)). 0 < fst b" using pos k(2) by auto
  ultimately have ok': "heap_ok (s1\<lparr>hbytes := m2, lfree := l2\<rparr>) (joined ?xs j ys)"
    using r(2,4) by (simp add: heap_ok_def)
  have "live 0 (?xs @ (j, False) # ys) = ?l" using j(1) by (simp add: live_append add.assoc)
  then have "kept (hbytes s) m2 ?l" using m1(3) r(3) kept_trans [of "hbytes s" m1 ?l m2] s1 s0 by simp
  then show ?thesis
    using that [of s1 "s1\<lparr>hbytes := m2, lfree := l2\<rparr>"] m1(1) r(1,5) ok' j(2) s1 s0 by (simp add: add.assoc)
qed

lemma take_mem_read: "mem_read m a n = Some bs \<Longrightarrow> k \<le> n \<Longrightarrow> mem_read m a k = Some (take k bs)"
  by (auto simp: mem_read_def min_def split: if_splits)

lemma heap_area_Some:
  assumes "heap_rep s L" and "(p, n) \<in> L"
  obtains bs where "heap_area s (p, n) = Some bs" "length bs = n"
proof -
  obtain xs where "unat (p - heap_ptr s) = extent xs + 12" "extent xs + 12 + n \<le> length (hbytes s)"
    using heap_rep_live [OF assms] by metis
  then show ?thesis using that by (simp add: heap_area_def mem_read_def)
qed

text \<open>What \<open>rt_realloc\<close> leaves when it moves a block.\<close>

lemma realloc_move:
  assumes rep: "heap_rep s L" "(p, n) \<in> L" and k: "unat w + 3 < 2 ^ 32" and c: "c \<le> n" "c \<le> unat w"
    and al: "rt_malloc s w = Some (q, s1)" and q: "q \<noteq> 0"
  shows "\<exists>m s' j. rt_memcpy (unat (heap_ptr s1)) (unat (heap_ptr s1)) (hbytes s1) (unat (q - heap_ptr s1))
      (hbytes s1) (unat (p - heap_ptr s1)) c = Some m \<and> rt_free (s1\<lparr>hbytes := m\<rparr>) p = Some s' \<and> unat w \<le> j \<and>
    heap_rep s' (insert (q, j) (L - {(p, n)})) \<and> (\<forall>A \<in> L - {(p, n)}. heap_area s' A = heap_area s A) \<and>
    map_option (take c) (heap_area s' (q, j)) = map_option (take c) (heap_area s (p, n)) \<and> (q, j) \<notin> L"
proof -
  from heapalloc.alloc_law [OF rep(1) k] al q obtain j where
    j: "unat w \<le> j" "(q, j) \<notin> L" "heap_rep s1 (insert (q, j) L)" "\<forall>A \<in> L. heap_area s1 A = heap_area s A" by auto
  let ?d = "unat (q - heap_ptr s1)" and ?o = "unat (p - heap_ptr s1)" and ?L1 = "insert (q, j) L"
  from heap_rep_live [OF j(3), of q j] have d: "?d + j \<le> length (hbytes s1)" by (metis insertI1)
  from heap_rep_live [OF j(3), of p n] rep(2) have o: "?o + n \<le> length (hbytes s1)" by (metis insertI2)
  obtain m where m: "m = overwrite (hbytes s1) ?d (take c (drop ?o (hbytes s1)))" by simp
  have cp: "rt_memcpy (unat (heap_ptr s1)) (unat (heap_ptr s1)) (hbytes s1) ?d (hbytes s1) ?o c = Some m"
    using d o c j(1) by (simp add: rt_memcpy_copy mem_copy_Some m)
  have len: "length (take c (drop ?o (hbytes s1))) = c" using o c by simp
  have f: "framed (hbytes s1) m ?d (?d + j)" unfolding m
    by (rule framed_mono [OF framed_overwrite]) (use d len c j(1) in simp_all)
  note w = heap_rep_write [OF j(3) insertI1 f]
  have p2: "(p, n) \<in> ?L1" "(p, n) \<noteq> (q, j)" using rep(2) j(2) by auto
  from heapalloc.release_law [OF w(1) p2(1)] obtain s' where
    s': "rt_free (s1\<lparr>hbytes := m\<rparr>) p = Some s'" "heap_rep s' (?L1 - {(p, n)})"
    "\<forall>A \<in> ?L1 - {(p, n)}. heap_area s' A = heap_area (s1\<lparr>hbytes := m\<rparr>) A" by blast
  have L': "?L1 - {(p, n)} = insert (q, j) (L - {(p, n)})" using p2(2) by auto
  have same: "\<forall>A \<in> L - {(p, n)}. heap_area s' A = heap_area s A"
    using s'(3) w(2) j(2,4) by auto
  obtain old where old: "heap_area s (p, n) = Some old" "length old = n" by (rule heap_area_Some [OF rep])
  then have rd: "mem_read (hbytes s1) ?o n = Some old" using j(4) rep(2) by (auto simp: heap_area_def)
  have old': "take c (drop ?o (hbytes s1)) = take c old"
    using rd c o by (auto simp: mem_read_def min_def split: if_splits)
  have "heap_area s' (q, j) = heap_area (s1\<lparr>hbytes := m\<rparr>) (q, j)" using s'(3) p2(2) by blast
  also have "\<dots> = Some (take j (drop ?d m))"
    using d framed_length [OF f] by (simp add: heap_area_def mem_read_def)
  finally have "heap_area s' (q, j) = Some (take j (drop ?d m))" .
  moreover have "take c (take j (drop ?d m)) = take c old"
  proof -
    obtain X where X: "X = take c (drop ?o (hbytes s1))" by simp
    have "drop ?d m = X @ drop (?d + length X) (hbytes s1)" unfolding m X [symmetric] overwrite_def using d by simp
    then show ?thesis using len c j(1) X old' by simp
  qed
  ultimately have "map_option (take c) (heap_area s' (q, j)) = map_option (take c) (heap_area s (p, n))"
    using old by simp
  then show ?thesis using cp s' j(1,2) L' same by auto
qed

lemma RT_ALIGN_off: "unat sz + 3 < 2 ^ 32 \<Longrightarrow> RT_ALIGN sz = off (4 * ((unat sz + 3) div 4))"
  by (metis RT_ALIGN_unat off_unat)

text \<open>The tests \<open>rt_realloc\<close> makes on a block in use.\<close>

lemma rt_realloc_block:
  assumes ok: "heap_ok s (xs @ (n, True) # ys)" and p: "p = heap_ptr s + off (extent xs + 12)" and n: "0 < n"
    and sz: "unat sz + 3 < 2 ^ 32" and k: "k = 4 * ((unat sz + 3) div 4)" and msa: "k \<le> extent (xs @ (n, True) # ys) - 12"
    and k0: "k \<noteq> 0"
  shows "rt_realloc s p sz =
    (if n = k then Some (p, s)
     else if k + 24 < n then do {
       s1 \<leftarrow> split_block (s\<lparr>used_mem := used_mem s - (off n - off k)\<rparr>) (off (extent xs)) (off k) id;
       s2 \<leftarrow> plug_holes s1 (off (extent xs + 12 + k));
       Some (p, s2) }
     else do {
       (q, s1) \<leftarrow> rt_malloc s (off k);
       if q \<noteq> 0 then do {
         m \<leftarrow> rt_memcpy (unat (heap_ptr s1)) (unat (heap_ptr s1)) (hbytes s1) (unat (q - heap_ptr s1))
                (hbytes s1) (unat (p - heap_ptr s1)) (min n k);
         s2 \<leftarrow> rt_free (s1\<lparr>hbytes := m\<rparr>) p;
         Some (q, s2) }
       else Some (q, s1) })"
proof -
  have sh: "heap_shape s (xs @ (n, True) # ys)" using ok by (simp add: heap_ok_def)
  note a = block_address [OF sh, folded p] and b = heap_shape_split [OF sh]
  have al: "RT_ALIGN sz = off k" unfolding k by (rule RT_ALIGN_off [OF sz])
  have lt: "k < 2 ^ 32" "n < 2 ^ 32" "k + 24 < 2 ^ 32" using msa b(5) by simp_all
  have ms: "mem_size_aligned s = off (extent (xs @ (n, True) # ys) - 12)" using sh by (simp add: heap_shape_def)
  have c1: "\<not> off k > mem_size_aligned s" using msa lt b(5) unfolding ms by (simp add: off_less)
  have c2: "off k \<noteq> 0" using k0 lt off_eq [of k 0] by simp
  have c3: "\<not> (p < heap_ptr s \<or> p \<ge> heap_ptr s + heap_end s)" using a(5,6) n by auto
  have ptr: "p - 12 - heap_ptr s = off (extent xs)" by (rule a(2))
  have size: "off (extent xs + 12 + n) - off (extent xs) - 12 = off n" by (simp add: off_def)
  have nx: "hnext (block_hdr (last_start 0 0 xs) (extent xs) (n, True)) = off (extent xs + 12 + n)"
    by (simp add: block_hdr_def)
  have c4: "off k + 12 + 12 < off n \<longleftrightarrow> k + 24 < n" using lt by (auto simp: off_add(2) off_less)
  have mn: "unat (if off n < off k then off n else off k) = min n k" using lt by (simp add: off_less)
  have r: "off (extent xs) + 12 + off k = off (extent xs + 12 + k)" by (simp add: off_def)
  have eq: "off n = off k \<longleftrightarrow> n = k" using lt by simp
  show ?thesis
    by (simp only: rt_realloc_def Let_def al c1 c2 a(4) c3 if_False ptr b(1) Option.bind.simps nx size c4 mn r eq)
qed

lemma take_map_mono: "map_option (take c) x = map_option (take c) y \<Longrightarrow> b \<le> c \<Longrightarrow> map_option (take b) x = map_option (take b) y"
  by (cases x; cases y) (auto simp: min_def dest: arg_cong [where f = "take b"])

lemma shrunk_rep:
  assumes rep: "heap_rep s L" and ok: "heap_ok s (xs @ (n, True) # ys)" and k: "k mod 4 = 0" "0 < k" "k + 24 < n"
    and p: "p = heap_ptr s + off (extent xs + 12)"
    and L: "L = (\<lambda>(a, n). (heap_ptr s + off a, n)) ` set (live 0 (xs @ (n, True) # ys))"
  shows "\<exists>s1 s'. split_block (s\<lparr>used_mem := used_mem s - (off n - off k)\<rparr>) (off (extent xs)) (off k) id = Some s1 \<and>
    plug_holes s1 (off (extent xs + 12 + k)) = Some s' \<and> heap_rep s' (insert (p, k) (L - {(p, n)})) \<and>
    (\<forall>A \<in> L - {(p, n)}. heap_area s' A = heap_area s A) \<and>
    map_option (take k) (heap_area s' (p, k)) = map_option (take k) (heap_area s (p, n))"
proof -
  let ?adr = "\<lambda>(a, n). (heap_ptr s + off a, n)"
  let ?l = "live 0 xs @ live (extent xs + 12 + n) ys"
  from realloc_shrink [OF ok k] obtain s1 s' where
    r: "split_block (s\<lparr>used_mem := used_mem s - (off n - off k)\<rparr>) (off (extent xs)) (off k) id = Some s1"
    "plug_holes s1 (off (extent xs + 12 + k)) = Some s'" "heap_ptr s' = heap_ptr s"
    "heap_ok s' (joined (xs @ [(k, True)]) (n - k - 12) ys)"
    "kept (hbytes s) (hbytes s') (live 0 xs @ [(extent xs + 12, k)] @ live (extent xs + 12 + n) ys)" by blast
  have a: "(extent xs + 12, n) \<in> set (live 0 (xs @ (n, True) # ys))" by (auto simp: live_append)
  have e: "extent xs + 12 + k + (12 + (n - k - 12)) = extent xs + 12 + n" using k by simp
  have lv: "set (live 0 (joined (xs @ [(k, True)]) (n - k - 12) ys)) = insert (extent xs + 12, k) (set ?l)"
    using e by (auto simp: live_joined live_append add.assoc)
  have "(extent xs + 12, n) \<notin> set ?l"
    using live_bounds [of "extent xs + 12" n 0 xs] live_bounds [of "extent xs + 12" n "extent xs + 12 + n" ys] k by auto
  then have L': "L - {(p, n)} = ?adr ` set ?l"
  proof -
    assume nl: "(extent xs + 12, n) \<notin> set ?l"
    have ins: "set (live 0 (xs @ (n, True) # ys)) = insert (extent xs + 12, n) (set ?l)" by (auto simp: live_append)
    have "(p, n) \<notin> ?adr ` set ?l"
    proof
      assume "(p, n) \<in> ?adr ` set ?l"
      then obtain b where b: "(b, n) \<in> set ?l" "p = heap_ptr s + off b" by auto
      then have "extent xs + 12 = b" using address_inj [OF ok a, of b n] p ins by auto
      with b(1) nl show False by simp
    qed
    then show ?thesis unfolding L ins using p by auto
  qed
  have "heap_rep s' (insert (p, k) (L - {(p, n)}))"
    unfolding heap_rep_def L' using r(3,4) lv p by (intro exI [of _ "joined (xs @ [(k, True)]) (n - k - 12) ys"]) auto
  moreover have "\<forall>A \<in> L - {(p, n)}. heap_area s' A = heap_area s A"
  proof
    fix A assume A: "A \<in> L - {(p, n)}"
    have "kept (hbytes s) (hbytes s') ?l" "set ?l \<subseteq> set (live 0 (xs @ (n, True) # ys))"
      using r(5) by (auto simp: live_append)
    from heap_area_kept [OF ok this(1) r(3) this(2) A [unfolded L']] show "heap_area s' A = heap_area s A" .
  qed
  moreover have "map_option (take k) (heap_area s' (p, k)) = map_option (take k) (heap_area s (p, n))"
  proof -
    have "(p, n) \<in> L" using L p a by force
    then obtain bs where bs: "mem_read (hbytes s) (extent xs + 12) n = Some bs"
      using heap_area_live [OF ok a] heap_area_Some [OF rep, of p n] p by metis
    have "unat (p - heap_ptr s) = extent xs + 12" using live_address(2) [OF ok a] p by simp
    then show ?thesis using bs r(3,5) take_mem_read [OF bs, of k] k by (simp add: heap_area_def)
  qed
  ultimately show ?thesis using r(1,2) by blast
qed

lemma rt_realloc_cases:
  assumes rep: "heap_rep s L" "(p, n) \<in> L" and sz: "unat sz + 3 < 2 ^ 32"
  shows "\<exists>q s'. rt_realloc s p sz = Some (q, s') \<and>
    (if sz = 0 then q = 0 \<and> heap_rep s' (L - {(p, n)}) \<and> (\<forall>A \<in> L - {(p, n)}. heap_area s' A = heap_area s A)
     else q = 0 \<and> s' = s \<or>
       (\<exists>j. unat sz \<le> j \<and> heap_rep s' (insert (q, j) (L - {(p, n)})) \<and>
         (\<forall>A \<in> L - {(p, n)}. heap_area s' A = heap_area s A) \<and>
         map_option (take (min n (unat sz))) (heap_area s' (q, j)) = map_option (take (min n (unat sz))) (heap_area s (p, n))))"
proof -
  from heap_rep_live [OF rep] obtain xs ys where ok: "heap_ok s (xs @ (n, True) # ys)"
    and p: "p = heap_ptr s + off (extent xs + 12)" and n: "0 < n"
    and L: "L = (\<lambda>(a, n). (heap_ptr s + off a, n)) ` set (live 0 (xs @ (n, True) # ys))" by metis
  have sh: "heap_shape s (xs @ (n, True) # ys)" using ok by (simp add: heap_ok_def)
  define k where "k = 4 * ((unat sz + 3) div 4)"
  have al: "RT_ALIGN sz = off k" unfolding k_def by (rule RT_ALIGN_off [OF sz])
  have k: "k mod 4 = 0" "unat sz \<le> k" "k < 2 ^ 32" using sz by (auto simp: k_def)
  have ms: "mem_size_aligned s = off (extent (xs @ (n, True) # ys) - 12)" using sh by (simp add: heap_shape_def)
  have lt: "extent (xs @ (n, True) # ys) < 2 ^ 32" using sh by (simp add: heap_shape_def)
  show ?thesis
  proof (cases "k \<le> extent (xs @ (n, True) # ys) - 12")
    case False
    then have "off k > mem_size_aligned s" using k(3) lt unfolding ms by (simp add: off_less)
    moreover have "sz \<noteq> 0"
    proof
      assume "sz = 0"
      then have "k = 0" by (simp add: k_def)
      with False show False by simp
    qed
    ultimately show ?thesis by (simp add: rt_realloc_def al)
  next
    case True
    show ?thesis
    proof (cases "k = 0")
      case True
      then have "RT_ALIGN sz = 0" "sz = 0" using al by (simp_all add: k_def unat_eq_zero [symmetric])
      then have "rt_realloc s p sz = map_option (Pair 0) (rt_free s p)" "sz = 0" by (simp_all add: rt_realloc_def)
      then show ?thesis using heapalloc.release_law [OF rep] by auto
    next
      case False
      then have sz0: "sz \<noteq> 0" by (auto simp: k_def)
      note step = rt_realloc_block [OF ok p n sz k_def True False]
      consider "n = k" | "k + 24 < n" | "n \<noteq> k" "\<not> k + 24 < n" by blast
      then show ?thesis
      proof cases
        case 1
        have "insert (p, n) (L - {(p, n)}) = L" using rep(2) by auto
        then show ?thesis using step 1 sz0 k(2) rep(1) by (auto intro!: exI [of _ n])
      next
        case 2
        from shrunk_rep [OF rep(1) ok k(1) _ 2 p L] False obtain s1 s' where
          r: "split_block (s\<lparr>used_mem := used_mem s - (off n - off k)\<rparr>) (off (extent xs)) (off k) id = Some s1"
          "plug_holes s1 (off (extent xs + 12 + k)) = Some s'" "heap_rep s' (insert (p, k) (L - {(p, n)}))"
          "\<forall>A \<in> L - {(p, n)}. heap_area s' A = heap_area s A"
          "map_option (take k) (heap_area s' (p, k)) = map_option (take k) (heap_area s (p, n))" by auto
        have "rt_realloc s p sz = Some (p, s')" using step 2 r by simp
        moreover have "map_option (take (min n (unat sz))) (heap_area s' (p, k)) =
            map_option (take (min n (unat sz))) (heap_area s (p, n))"
          by (rule take_map_mono [OF r(5)]) (use 2 k in simp)
        ultimately show ?thesis using sz0 r k by auto
      next
        case 3
        have w: "unat (off k) + 3 < 2 ^ 32" using True lt k(3) sh by (simp add: heap_shape_def)
        from heapalloc.alloc_fresh [OF rep(1) w] obtain q s1 where q: "rt_malloc s (off k) = Some (q, s1)" "q = 0 \<Longrightarrow> s1 = s"
          using heapalloc.alloc_law [OF rep(1) w] by auto
        show ?thesis
        proof (cases "q = 0")
          case True
          then show ?thesis using step 3 q sz0 by simp
        next
          case False
          have kk: "unat (off k) = k" using k(3) by simp
          from realloc_move [OF rep w _ _ q(1) False, of "min n k"] kk obtain m s' j where
            r: "rt_memcpy (unat (heap_ptr s1)) (unat (heap_ptr s1)) (hbytes s1) (unat (q - heap_ptr s1))
              (hbytes s1) (unat (p - heap_ptr s1)) (min n k) = Some m" "rt_free (s1\<lparr>hbytes := m\<rparr>) p = Some s'" "k \<le> j"
            "heap_rep s' (insert (q, j) (L - {(p, n)}))" "\<forall>A \<in> L - {(p, n)}. heap_area s' A = heap_area s A"
            "map_option (take (min n k)) (heap_area s' (q, j)) = map_option (take (min n k)) (heap_area s (p, n))"
            by auto
          have "rt_realloc s p sz = Some (q, s')" using step 3 q(1) False r(1,2) by simp
          moreover have "map_option (take (min n (unat sz))) (heap_area s' (q, j)) =
              map_option (take (min n (unat sz))) (heap_area s (p, n))"
            by (rule take_map_mono [OF r(6)]) (use k in simp)
          ultimately show ?thesis using sz0 r k by auto
        qed
      qed
    qed
  qed
qed

text \<open>
  C30. \<open>rt_realloc\<close> on an area in use always returns (for a size that does not wrap around when aligned).
  Size 0 frees the area. Otherwise it either fails, leaving the heap as it was, or returns an area
  of at least the new size that replaces the old one, with the old contents up to the smaller of the
  two sizes; no other area in use changes.
\<close>

theorem rt_realloc_contract:
  assumes rep: "heap_rep s L" "(p, n) \<in> L" and sz: "unat sz + 3 < 2 ^ 32"
  shows "\<exists>q s'. rt_realloc s p sz = Some (q, s') \<and>
    (if sz = 0 then q = 0 \<and> heap_rep s' (L - {(p, n)}) \<and> (\<forall>A \<in> L - {(p, n)}. heap_area s' A = heap_area s A)
     else q = 0 \<and> s' = s \<or>
       (\<exists>j. unat sz \<le> j \<and> heap_rep s' (insert (q, j) (L - {(p, n)})) \<and>
         (\<forall>A \<in> L - {(p, n)}. heap_area s' A = heap_area s A) \<and>
         map_option (take (min n (unat sz))) (heap_area s' (q, j)) = map_option (take (min n (unat sz))) (heap_area s (p, n))))"
  by (rule rt_realloc_cases [OF assms])

subsection \<open>Initialisation and zeroed areas\<close>

lemma heap_init_ok:
  assumes b: "unat (RT_ALIGN begin_addr) + 36 \<le> unat (RT_ALIGN_DOWN end_addr)"
    and ram: "length ram = unat (RT_ALIGN_DOWN end_addr) - unat (RT_ALIGN begin_addr)" and u: "used_mem s = 0"
  obtains s' n where "rt_system_heap_init ram begin_addr end_addr s = Some s'" "heap_ok s' [(n, False)]"
    "lfree_lowest (lfree s') [(n, False)]" "n + 24 = length ram" "heap_ptr s' = RT_ALIGN begin_addr"
proof -
  let ?b = "RT_ALIGN begin_addr" and ?e = "RT_ALIGN_DOWN end_addr"
  obtain n where n: "unat ?e = unat ?b + n + 24" "12 \<le> n" using b that [of "unat ?e - unat ?b - 24"] by simp
  have lt: "unat ?b + n + 24 < 2 ^ 32" using n(1) unsigned_less [of ?e, where ?'a = nat] by simp
  have m4: "unat ?b mod 4 = 0" "unat ?e mod 4 = 0" by (simp_all add: RT_ALIGN_def RT_ALIGN_DOWN_def)
  then have n4: "n mod 4 = 0" using n(1) by presburger
  have e: "?e = off (unat ?b + n + 24)" using n(1) by (metis off_unat)
  have size: "?e - ?b - 2 * 12 = off n" using e by (simp add: off_def)
  have e12: "off n + 12 = off (n + 12)" by (rule off_add(2))
  have c: "?e > 2 * 12 \<and> ?e - 2 * 12 \<ge> ?b"
  proof
    show "?e > 2 * 12" using n by (simp add: word_less_nat_alt)
    have "?e - 2 * 12 = off (unat ?b + n)" using e by (simp add: off_def)
    then show "?e - 2 * 12 \<ge> ?b" using lt by (simp add: word_le_nat_alt)
  qed
  have lr: "length ram = n + 24" using ram n(1) by simp
  let ?h0 = "\<lparr>magic = HEAP_MAGIC, used = 0, hnext = off (n + 12), hprev = 0\<rparr>"
  let ?h1 = "\<lparr>magic = HEAP_MAGIC, used = 1, hnext = off (n + 12), hprev = off (n + 12)\<rparr>"
  obtain m1 where m1: "put_hdr ram 0 ?h0 = Some m1" "get_hdr m1 0 = Some ?h0" "framed ram m1 0 12"
    using put_hdrE [of 0 ram ?h0] lr by auto
  obtain m2 where m2: "put_hdr m1 (off (n + 12)) ?h1 = Some m2" "get_hdr m2 (off (n + 12)) = Some ?h1"
    "framed m1 m2 (n + 12) (n + 24)"
    using put_hdrE [of "off (n + 12)" m1 ?h1] lr framed_length [OF m1(3)] lt by (auto simp: add.assoc)
  have "get_hdr m2 0 = Some ?h0" using get_hdr_framed [OF m2(3), of 0] m1(2) by simp
  then have "get_hdr m2 (off 0) = Some (block_hdr 0 0 (n, False))" by (simp add: block_hdr_def add.commute)
  then have ch: "chain m2 0 0 [(n, False)]"
    using n4 m2(2) unfolding chain_Cons chain_Nil end_hdr_def by (simp add: add.commute)
  obtain s' where s': "s' = s\<lparr>hbytes := m2, heap_ptr := ?b, heap_end := off (n + 12), lfree := 0, mem_size_aligned := off n\<rparr>"
    by simp
  have "rt_system_heap_init ram begin_addr end_addr s = Some s'"
    using c m1(1) m2(1) by (simp only: rt_system_heap_init_def Let_def size e12 if_True simp_thms Option.bind.simps s')
  moreover have "heap_ok s' [(n, False)]"
    using ch m4 lt u n(2) lr framed_length [OF m1(3)] framed_length [OF m2(3)]
    by (simp add: heap_ok_def heap_shape_def s' lfree_ok_def plugged_def add.commute)
  moreover have "lfree_lowest (lfree s') [(n, False)]" by (simp add: s' lfree_lowest_def)
  ultimately show ?thesis using that lr s' by simp
qed

lemma rt_calloc_cases:
  assumes rep: "heap_rep s L" and sz: "unat (count * sz) + 3 < 2 ^ 32"
  shows "\<exists>p s'. rt_calloc s count sz = Some (p, s') \<and>
    (p = 0 \<and> s' = s \<or>
     (\<exists>n. unat (count * sz) \<le> n \<and> (p, n) \<notin> L \<and> heap_rep s' (insert (p, n) L) \<and>
       (\<forall>A \<in> L. heap_area s' A = heap_area s A) \<and>
       map_option (take (unat (count * sz))) (heap_area s' (p, n)) = Some (replicate (unat (count * sz)) 0)))"
  using heapalloc.alloc_law [OF rep sz]
proof (elim disjE exE conjE)
  assume "rt_malloc s (count * sz) = Some (0, s)"
  then show ?thesis by (simp add: rt_calloc_def)
next
  fix p n s1
  let ?c = "unat (count * sz)"
  assume r: "rt_malloc s (count * sz) = Some (p, s1)" "p \<noteq> 0" "?c \<le> n" "(p, n) \<notin> L" "heap_rep s1 (insert (p, n) L)"
    "\<forall>A \<in> L. heap_area s1 A = heap_area s A"
  let ?d = "unat (p - heap_ptr s1)" and ?zs = "replicate ?c (0 :: u8)"
  from heap_rep_live [OF r(5), of p n] have d: "?d + n \<le> length (hbytes s1)" by (metis insertI1)
  obtain m where m: "m = overwrite (hbytes s1) ?d ?zs" by simp
  have "rt_memset (unat (heap_ptr s1)) (hbytes s1) ?d 0 ?c = Some m"
    using rt_memset_write [of ?d "hbytes s1" "unat (heap_ptr s1)" 0 ?c] d r(3) by (simp add: mem_write_def m)
  then have "rt_calloc s count sz = Some (p, s1\<lparr>hbytes := m\<rparr>)" using r(1,2) by (simp add: rt_calloc_def)
  moreover have f: "framed (hbytes s1) m ?d (?d + n)" unfolding m
    by (rule framed_mono [OF framed_overwrite]) (use d r(3) in simp_all)
  note w = heap_rep_write [OF r(5) insertI1 f]
  moreover have "\<forall>A \<in> L. heap_area (s1\<lparr>hbytes := m\<rparr>) A = heap_area s A" using w(2) r(4,6) by auto
  moreover have "drop ?d m = ?zs @ drop (?d + ?c) (hbytes s1)" unfolding m overwrite_def using d by simp
  then have "map_option (take ?c) (heap_area (s1\<lparr>hbytes := m\<rparr>) (p, n)) = Some ?zs"
    using d r(3) framed_length [OF f] by (simp add: heap_area_def mem_read_def)
  ultimately show ?thesis using r(3,4) by blast
qed

text \<open>
  \<open>rt_calloc\<close> always returns. It fails without a change, or hands out a fresh area whose first
  \<open>count * size\<close> bytes are 0 and leaves all other areas alone. The product is the one modulo
  2 to the 32: when it wraps around, the area is that much too small.
\<close>

lemma rt_calloc_contract:
  assumes rep: "heap_rep s L" and sz: "unat (count * sz) + 3 < 2 ^ 32"
  shows "\<exists>p s'. rt_calloc s count sz = Some (p, s') \<and>
    (p = 0 \<and> s' = s \<or>
     (\<exists>n. unat (count * sz) \<le> n \<and> (p, n) \<notin> L \<and> heap_rep s' (insert (p, n) L) \<and>
       (\<forall>A \<in> L. heap_area s' A = heap_area s A) \<and>
       map_option (take (unat (count * sz))) (heap_area s' (p, n)) = Some (replicate (unat (count * sz)) 0)))"
  by (rule rt_calloc_cases [OF assms])

text \<open>A small heap of 184 bytes, with nothing in use and with one area in use.\<close>

definition heap0 :: heap where
  "heap0 = \<lparr>hbytes = [], heap_ptr = 0, heap_end = 0, lfree = 0, mem_size_aligned = 0, used_mem = 0, max_mem = 0\<rparr>"

lemma demo_heap:
  obtains s where "rt_system_heap_init (replicate 184 0) 0x20000000 0x200000B8 heap0 = Some s" "heap_ok s [(160, False)]"
    "lfree_lowest (lfree s) [(160, False)]"
proof -
  have a: "unat (RT_ALIGN 0x20000000) = 0x20000000" "unat (RT_ALIGN_DOWN 0x200000B8) = 0x200000B8"
    by (simp_all add: RT_ALIGN_def RT_ALIGN_DOWN_def)
  have "unat (RT_ALIGN 0x20000000) + 36 \<le> unat (RT_ALIGN_DOWN 0x200000B8)"
    "length (replicate 184 (0 :: u8)) = unat (RT_ALIGN_DOWN 0x200000B8) - unat (RT_ALIGN 0x20000000)" "used_mem heap0 = 0"
    using a by (simp_all add: heap0_def)
  from heap_init_ok [OF this] obtain s' n where
    "rt_system_heap_init (replicate 184 0) 0x20000000 0x200000B8 heap0 = Some s'" "heap_ok s' [(n, False)]"
    "lfree_lowest (lfree s') [(n, False)]" "n + 24 = length (replicate 184 (0 :: u8))" by metis
  moreover from this(4) have "n = 160" by simp
  ultimately show ?thesis using that by blast
qed

lemma heap_rep_empty: "heap_ok s [(n, False)] \<Longrightarrow> heap_rep s {}"
  by (auto simp: heap_rep_def intro!: exI [of _ "[(n, False)]"])

lemma demo_heap_used:
  obtains s p where "heap_rep s {(p, 16)}"
proof -
  obtain s where ok: "heap_ok s ([] @ (160, False) # [])" using demo_heap by (metis append_Nil)
  from malloc_take_ok [OF ok, of 16] obtain s' where s': "heap_ok s' ([] @ carve 16 160 @ [])" by auto
  have "heap_rep s' {(heap_ptr s' + off 12, 16)}"
    unfolding heap_rep_def by (rule exI [of _ "carve 16 160"]) (use s' in \<open>simp add: carve_def\<close>)
  then show ?thesis by (rule that)
qed

theorem rt_realloc_contract_witness:
  "\<exists>s p q s'. heap_rep s {(p, 16)} \<and> rt_realloc s p 20 = Some (q, s') \<and>
    (q = 0 \<and> s' = s \<or> (\<exists>j. 20 \<le> j \<and> heap_rep s' {(q, j)} \<and>
       map_option (take 16) (heap_area s' (q, j)) = map_option (take 16) (heap_area s (p, 16))))"
proof -
  obtain s p where rep: "heap_rep s {(p, 16)}" by (rule demo_heap_used)
  from rt_realloc_contract [OF rep, of p 16 20] rep show ?thesis by simp blast
qed

subsection \<open>The heap in use\<close>

text \<open>Steps of the program on the heap: calls, and writes inside an area in use.\<close>

inductive heap_step :: "heap \<Rightarrow> heap \<Rightarrow> bool" where
  malloc: "unat sz + 3 < 2 ^ 32 \<Longrightarrow> rt_malloc s sz = Some (p, s') \<Longrightarrow> heap_step s s'"
| calloc: "unat (count * sz) + 3 < 2 ^ 32 \<Longrightarrow> rt_calloc s count sz = Some (p, s') \<Longrightarrow> heap_step s s'"
| realloc: "heap_rep s L \<Longrightarrow> (p, n) \<in> L \<Longrightarrow> unat sz + 3 < 2 ^ 32 \<Longrightarrow> rt_realloc s p sz = Some (q, s') \<Longrightarrow> heap_step s s'"
| free: "heap_rep s L \<Longrightarrow> (p, n) \<in> L \<Longrightarrow> rt_free s p = Some s' \<Longrightarrow> heap_step s s'"
| store: "heap_rep s L \<Longrightarrow> (p, n) \<in> L \<Longrightarrow> i + length bs \<le> n \<Longrightarrow>
    heap_step s (s\<lparr>hbytes := overwrite (hbytes s) (unat (p - heap_ptr s) + i) bs\<rparr>)"

inductive heap_reach :: "heap \<Rightarrow> heap \<Rightarrow> bool" for s where
  start: "heap_reach s s"
| more: "heap_reach s s' \<Longrightarrow> heap_step s' s'' \<Longrightarrow> heap_reach s s''"

lemma heap_step_rep:
  assumes "heap_step s s'" and "heap_rep s L0"
  shows "\<exists>L. heap_rep s' L"
  using assms
proof (induction rule: heap_step.induct)
  case (malloc sz s p s')
  then show ?case using heapalloc.alloc_law [of s L0 sz] by auto
next
  case (calloc count sz s p s')
  then show ?case using rt_calloc_cases [of s L0 count sz] by auto
next
  case (free s L p n s')
  then show ?case using heapalloc.release_law [of s L p n] by auto
next
  case (store s L p n i bs)
  let ?d = "unat (p - heap_ptr s)"
  from heap_rep_live [OF store(1,2)] have d: "?d + n \<le> length (hbytes s)" by metis
  have "framed (hbytes s) (overwrite (hbytes s) (?d + i) bs) ?d (?d + n)"
    by (rule framed_mono [OF framed_overwrite]) (use d store(3) in simp_all)
  then show ?case using heap_rep_write(1) [OF store(1,2)] by blast
next
  case (realloc s L p n sz q s')
  from rt_realloc_cases [OF realloc(1-3)] realloc(4) have "s' = s \<or> (\<exists>L. heap_rep s' L)"
    by (auto split: if_split_asm)
  then show ?case using realloc(1) by auto
qed

lemma heap_reach_rep: "heap_reach s s' \<Longrightarrow> heap_rep s L0 \<Longrightarrow> \<exists>L. heap_rep s' L"
  by (induction rule: heap_reach.induct) (blast intro: heap_step_rep)+

lemma used_extent_live: "used_extent bs = sum_list (map (\<lambda>(a, n). 12 + n) (live p bs))"
  by (induction bs arbitrary: p) (simp_all add: add.assoc)

lemma live_distinct: "distinct (live p bs)"
proof (induction bs arbitrary: p)
  case (Cons b bs)
  have "(p + 12, fst b) \<notin> set (live (p + 12 + fst b) bs)"
    using live_bounds [of "p + 12" "fst b" "p + 12 + fst b" bs] by auto
  then show ?case using Cons by simp
qed simp

lemma heap_rep_accounting:
  assumes "heap_rep s L"
  shows "unat (used_mem s) = (\<Sum>(a, n) \<in> L. 12 + n)"
proof -
  from assms obtain bs where ok: "heap_ok s bs" and L: "L = (\<lambda>(a, n). (heap_ptr s + off a, n)) ` set (live 0 bs)"
    by (auto simp: heap_rep_def)
  have "inj_on (\<lambda>(a, n). (heap_ptr s + off a, n)) (set (live 0 bs))"
    using address_inj [OF ok] by (auto simp: inj_on_def)
  then have "(\<Sum>(a, n) \<in> L. 12 + n) = (\<Sum>(a, n) \<in> set (live 0 bs). 12 + n)"
    unfolding L by (subst sum.reindex) (simp_all add: case_prod_unfold comp_def)
  also have "\<dots> = used_extent bs"
    unfolding used_extent_live [of bs 0] sum_list_distinct_conv_sum_set [OF live_distinct [of 0 bs]] ..
  moreover have "used_mem s = off (used_extent bs)" "used_extent bs < 2 ^ 32"
    using ok used_extent_le [of bs] by (auto simp: heap_ok_def heap_shape_def)
  ultimately show ?thesis by simp
qed

lemma heap_rep_area:
  assumes "heap_rep s L" and "(a, n) \<in> L"
  shows "unat a mod 4 = 0" and "unat (heap_ptr s) + 12 \<le> unat a" and "unat a + n \<le> unat (heap_ptr s) + unat (heap_end s)"
proof -
  from heap_rep_live [OF assms] obtain xs ys where ok: "heap_ok s (xs @ (n, True) # ys)"
    and a: "a = heap_ptr s + off (extent xs + 12)" by metis
  have sh: "heap_shape s (xs @ (n, True) # ys)" using ok by (simp add: heap_ok_def)
  note b = block_address [OF sh, folded a]
  show "unat a mod 4 = 0" using b(3) by (simp add: and_3_zero)
  show "unat (heap_ptr s) + 12 \<le> unat a" using b(1) by simp
  show "unat a + n \<le> unat (heap_ptr s) + unat (heap_end s)" using b(1) sh by (simp add: heap_shape_def)
qed

text \<open>
  C4. From initialisation on, whatever sequence of allocations, reallocations, frees of areas in use and
  writes inside areas in use the program performs: the areas in use are aligned, lie inside the heap
  and never overlap, and \<open>used_mem\<close> is exactly the memory they take, headers included.
\<close>

theorem heap_reach_safe:
  assumes "unat (RT_ALIGN begin_addr) + 36 \<le> unat (RT_ALIGN_DOWN end_addr)"
    and "length ram = unat (RT_ALIGN_DOWN end_addr) - unat (RT_ALIGN begin_addr)"
    and "rt_system_heap_init ram begin_addr end_addr heap0 = Some s0" and "heap_reach s0 s"
  shows "\<exists>L. heap_rep s L \<and> unat (used_mem s) = (\<Sum>(a, n) \<in> L. 12 + n) \<and>
    (\<forall>(a, n) \<in> L. unat a mod 4 = 0 \<and> unat (heap_ptr s) + 12 \<le> unat a \<and>
       unat a + n \<le> unat (heap_ptr s) + unat (heap_end s)) \<and>
    (\<forall>(a, n) \<in> L. \<forall>(b, k) \<in> L. (a, n) = (b, k) \<or> unat a + n \<le> unat b \<or> unat b + k \<le> unat a)"
proof -
  have "used_mem heap0 = 0" by (simp add: heap0_def)
  from heap_init_ok [OF assms(1,2) this] assms(3) have "heap_rep s0 {}" using heap_rep_empty by (metis option.inject)
  from heap_reach_rep [OF assms(4) this] obtain L where L: "heap_rep s L" by blast
  have disj: "(a, n) = (b, k) \<or> unat a + n \<le> unat b \<or> unat b + k \<le> unat a" if "(a, n) \<in> L" "(b, k) \<in> L" for a n b k
    using heapalloc.apart [OF L that] by blast
  show ?thesis
  proof (intro exI conjI)
    show "\<forall>(a, n) \<in> L. \<forall>(b, k) \<in> L. (a, n) = (b, k) \<or> unat a + n \<le> unat b \<or> unat b + k \<le> unat a"
      using disj by blast
  qed (use L heap_rep_accounting [OF L] heap_rep_area [OF L] in auto)
qed

theorem heap_reach_safe_witness:
  "\<exists>s. rt_system_heap_init (replicate 184 0) 0x20000000 0x200000B8 heap0 = Some s \<and>
    (\<exists>L. heap_rep s L \<and> unat (used_mem s) = (\<Sum>(a, n) \<in> L. 12 + n))"
proof -
  obtain s where s: "rt_system_heap_init (replicate 184 0) 0x20000000 0x200000B8 heap0 = Some s" by (rule demo_heap)
  have "unat (RT_ALIGN 0x20000000) + 36 \<le> unat (RT_ALIGN_DOWN 0x200000B8)"
    "length (replicate 184 (0 :: u8)) = unat (RT_ALIGN_DOWN 0x200000B8) - unat (RT_ALIGN 0x20000000)"
    by (simp_all add: RT_ALIGN_def RT_ALIGN_DOWN_def)
  from heap_reach_safe [OF this s heap_reach.start] s show ?thesis by blast
qed

subsection \<open>What allocation promises\<close>

text \<open>
  C23. \<open>rt_malloc\<close> always returns (for a size that does not wrap around when aligned). It fails
  without a change, or hands out an area of at least the requested size that overlaps no area
  in use; no area in use changes its contents.
\<close>

theorem rt_malloc_contract:
  assumes "heap_rep s L" and "unat sz + 3 < 2 ^ 32"
  shows "\<exists>p s'. rt_malloc s sz = Some (p, s') \<and>
    (p = 0 \<and> s' = s \<or> (\<exists>n. unat sz \<le> n \<and> heap_rep s' (insert (p, n) L) \<and>
       (\<forall>(b, k) \<in> L. unat p + n \<le> unat b \<or> unat b + k \<le> unat p) \<and> (\<forall>A \<in> L. heap_area s' A = heap_area s A)))"
  by (rule heapalloc.alloc_fresh [OF assms])

theorem rt_malloc_contract_witness:
  "\<exists>s p s'. heap_rep s {} \<and> rt_malloc s 10 = Some (p, s') \<and>
    (p = 0 \<and> s' = s \<or> (\<exists>n. 10 \<le> n \<and> heap_rep s' {(p, n)}))"
proof -
  obtain s where rep: "heap_rep s {}" using demo_heap heap_rep_empty by metis
  from rt_malloc_contract [OF rep, of 10] rep show ?thesis by simp blast
qed

lemma joined_used:
  assumes "xs = [] \<or> snd (last xs)" and "ys = [] \<or> snd (hd ys)"
  shows "joined xs n ys = xs @ (n, False) # ys"
  using assms by (cases rule: join_next_cases [of ys n]; cases rule: join_prev_cases [of xs n ys])
    (auto simp: joined_def)

lemma joined_split:
  assumes "xs = [] \<or> snd (last xs)"
  shows "joined xs k ((j, False) # ys) = xs @ (k + 12 + j, False) # ys"
  using assms by (cases rule: join_prev_cases [of xs "k + 12 + j" ys]) (auto simp: joined_def join_next_def)

lemma plugged_neighbours:
  assumes "plugged (xs @ (n, False) # ys)"
  shows "xs = [] \<or> snd (last xs)" and "ys = [] \<or> snd (hd ys)"
  using assms by (auto simp: plugged_def successively_append_iff successively_Cons)

text \<open>
  Taking an area and freeing it restores the heap: the list of blocks, the accounting and the
  contents of the areas in use are as before, and so is \<open>lfree\<close> when it was the first free block.
\<close>

lemma rt_malloc_free_restores:
  assumes ok: "heap_ok s bs" and sz: "unat sz + 3 < 2 ^ 32" and al: "rt_malloc s sz = Some (p, s1)" and p: "p \<noteq> 0"
  shows "\<exists>s2. rt_free s1 p = Some s2 \<and> heap_ok s2 bs \<and> used_mem s2 = used_mem s \<and>
    kept (hbytes s) (hbytes s2) (live 0 bs) \<and> (lfree_lowest (lfree s) bs \<longrightarrow> lfree s2 = lfree s)"
proof (cases rule: rt_malloc_ok [OF ok sz])
  case 1
  then show ?thesis using al p by simp
next
  case (2 xs n ys s')
  have s1: "s' = s1" and pp: "p = heap_ptr s1 + off (extent xs + 12)" using al 2(4,7) by auto
  have pl: "plugged (xs @ (n, False) # ys)" using ok 2(1) by (simp add: heap_ok_def)
  obtain j zs where j: "carve (request sz) n @ ys = (j, True) # zs" "joined xs j zs = bs"
    "live 0 xs @ live (extent xs + 12 + j) zs = live 0 bs"
  proof (cases "request sz + 24 \<le> n")
    case True
    have "request sz + 12 + (n - request sz - 12) = n" using True by simp
    then have jd: "joined xs (request sz) ((n - request sz - 12, False) # ys) = bs"
      using joined_split [OF plugged_neighbours(1) [OF pl]] 2(1) by simp
    show ?thesis
      by (rule that [of "request sz" "(n - request sz - 12, False) # ys"])
        (use True jd live_joined [of xs "request sz" "(n - request sz - 12, False) # ys"] in \<open>simp_all add: carve_def\<close>)
  next
    case False
    have jd: "joined xs n ys = bs" using joined_used [OF plugged_neighbours [OF pl]] 2(1) by simp
    show ?thesis
      by (rule that [of n ys]) (use False jd live_joined [of xs n ys] in \<open>simp_all add: carve_def\<close>)
  qed
  have ok1: "heap_ok s1 (xs @ (j, True) # zs)" using 2(5) j(1) s1 by simp
  from rt_free_ok [OF ok1] obtain s2 where s2: "rt_free s1 p = Some s2" "heap_ok s2 bs"
    "kept (hbytes s1) (hbytes s2) (live 0 bs)" "lfree_lowest (lfree s1) (xs @ (j, True) # zs) \<Longrightarrow> lfree_lowest (lfree s2) bs"
    unfolding pp j(2,3) by blast
  have "used_mem s2 = used_mem s" using ok s2(2) by (simp add: heap_ok_def)
  moreover have "kept (hbytes s) (hbytes s2) (live 0 bs)" using kept_trans [OF 2(6)] s2(3) s1 by simp
  moreover have "lfree s2 = lfree s" if "lfree_lowest (lfree s) bs"
    using s2(4) 2(9) [OF that] that j(1) s1 by (simp add: lfree_lowest_def)
  ultimately show ?thesis using s2(1,2) by blast
qed

lemma lowest_takeWhile: "hd (free_starts p bs @ [p + extent bs]) = p + extent (takeWhile snd bs)"
proof (induction bs arbitrary: p)
  case (Cons b bs)
  then show ?case using Cons.IH [of "p + 12 + fst b"] by (simp add: add.assoc)
qed simp

text \<open>
  When \<open>lfree\<close> is the first free block, \<open>rt_malloc\<close> finds memory whenever a free block is large
  enough, with one exception: it never takes the last block of the heap when it fits exactly.
\<close>

lemma rt_malloc_fails_iff:
  assumes ok: "heap_ok s bs" and low: "lfree_lowest (lfree s) bs" and sz: "sz \<noteq> 0" "unat sz + 3 < 2 ^ 32"
  shows "rt_malloc s sz = Some (0, s) \<longleftrightarrow>
    (\<forall>xs n ys. bs = xs @ (n, False) # ys \<longrightarrow> n < request sz \<or> ys = [] \<and> n = request sz)"
proof -
  let ?us = "takeWhile snd bs" and ?vs = "dropWhile snd bs" and ?k = "request sz" and ?z = "extent bs - 12"
  have us: "bs = ?us @ ?vs" by simp
  have lf: "lfree s = off (extent ?us)" using low lowest_takeWhile [of 0 bs] by (simp add: lfree_lowest_def)
  have lo: "24 \<le> extent bs" using ok by (simp add: heap_ok_def heap_shape_def)
  note search = rt_malloc_search [OF ok sz us lf]
  have z: "extent xs + 12 + n + extent ys = ?z + 12" if "bs = xs @ (n, False) # ys" for xs n ys using that lo by simp
  have big: "?z < ?k" if "?z < 4 * ((unat sz + 3) div 4)" using that by (simp add: request_def)
  show ?thesis
  proof (cases "?z < 4 * ((unat sz + 3) div 4)")
    case True
    have "n < ?k" if "bs = xs @ (n, False) # ys" for xs n ys using big [OF True] z [OF that] by simp
    then show ?thesis using search True by auto
  next
    case False
    show ?thesis
    proof (cases "first_fit (?z - ?k) ?k (extent ?us) ?vs")
      case None
      have "n < ?k \<or> ys = [] \<and> n = ?k" if b: "bs = xs @ (n, False) # ys" for xs n ys
      proof (rule disjCI)
        assume ne: "\<not> (ys = [] \<and> n = ?k)"
        show "n < ?k"
        proof (rule ccontr)
          assume "\<not> n < ?k"
          have "\<exists>ws. xs = ?us @ ws" using b by (induction xs arbitrary: bs) auto
          then obtain ws where ws: "xs = ?us @ ws" by blast
          then have "?vs = ws @ (n, False) # ys" using b us by (metis append.assoc same_append_eq)
          with first_fit_None [of "?z - ?k" ?k "extent ?us" ws n ys] None \<open>\<not> n < ?k\<close>
          have "?z - ?k \<le> extent xs" using ws by simp
          then have "n + extent ys \<le> ?k" using z [OF b] \<open>\<not> n < ?k\<close> by simp
          then have "extent ys = 0 \<and> n = ?k" using \<open>\<not> n < ?k\<close> by simp
          then show False using ne by (cases ys) simp_all
        qed
      qed
      then show ?thesis using search False None by auto
    next
      case (Some p)
      from first_fitD [OF Some] obtain ws n ys where
        w: "?vs = ws @ (n, False) # ys" "p = extent ?us + extent ws" "?k \<le> n" "p < ?z - ?k" by blast
      have b: "bs = (?us @ ws) @ (n, False) # ys" using us w(1) by (metis append.assoc)
      have "\<not> (n < ?k \<or> ys = [] \<and> n = ?k)" using z [OF b] w by auto
      moreover have "rt_malloc s sz \<noteq> Some (0, s)"
      proof -
        have ok': "heap_ok s ((?us @ ws) @ (n, False) # ys)" using ok b by simp
        then have sh: "heap_shape s ((?us @ ws) @ (n, False) # ys)" by (simp add: heap_ok_def)
        from malloc_take_ok [OF ok', of ?k] request_props [of sz] w(3) obtain s' where
          "malloc_take s (off ?k) (off p) = Some (heap_ptr s + off (extent (?us @ ws) + 12), s')" using w(2) by auto
        then show ?thesis using search False Some block_address(4) [OF sh] by auto
      qed
      ultimately show ?thesis using b by blast
    qed
  qed
qed

lemma free_starts_used: "list_all snd bs \<Longrightarrow> free_starts p bs = []"
  by (induction bs arbitrary: p) simp_all

text \<open>
  But \<open>rt_realloc\<close> does not keep \<open>lfree\<close> the first free block: when it shrinks a block in front of
  every free block and the next block is in use, the remainder becomes a free block below
  \<open>lfree\<close>, which stays where it was. \<open>rt_malloc\<close> does not look there until a block further down
  is freed.
\<close>

lemma rt_realloc_stale_lfree:
  assumes ok: "heap_ok s (xs @ (n, True) # (i, True) # ys)" and used: "list_all snd xs"
    and p: "p = heap_ptr s + off (extent xs + 12)" and sz: "sz \<noteq> 0" "unat sz + 3 < 2 ^ 32"
    and k: "k = 4 * ((unat sz + 3) div 4)" "k + 24 < n"
  shows "\<exists>s'. rt_realloc s p sz = Some (p, s') \<and> lfree s' = lfree s \<and>
    heap_ok s' (xs @ (k, True) # (n - k - 12, False) # (i, True) # ys) \<and>
    \<not> lfree_lowest (lfree s') (xs @ (k, True) # (n - k - 12, False) # (i, True) # ys)"
proof -
  let ?bs = "xs @ (n, True) # (i, True) # ys" and ?bs' = "xs @ (k, True) # (n - k - 12, False) # (i, True) # ys"
  have n: "0 < n" using k by simp
  have "0 < unat sz" using sz(1) by (simp add: unat_gt_0)
  then have k0: "k \<noteq> 0" "0 < k" "k mod 4 = 0" using k(1) by auto
  have sh: "heap_shape s ?bs" using ok by (simp add: heap_ok_def)
  have lt: "extent ?bs < 2 ^ 32" using sh by (simp add: heap_shape_def)
  have msa: "k \<le> extent ?bs - 12" using k(2) by simp
  note step = rt_realloc_block [OF ok p n sz(2) k(1) msa k0(1)]
  from realloc_shrink [OF ok k0(3,2) k(2)] obtain s1 s' where
    r: "split_block (s\<lparr>used_mem := used_mem s - (off n - off k)\<rparr>) (off (extent xs)) (off k) id = Some s1"
    "plug_holes s1 (off (extent xs + 12 + k)) = Some s'"
    "heap_ok s' (joined (xs @ [(k, True)]) (n - k - 12) ((i, True) # ys))" "lfree s' = lfree s" by (metis list.sel(1) snd_conv)
  have "joined (xs @ [(k, True)]) (n - k - 12) ((i, True) # ys) = ?bs'"
    by (subst joined_used) simp_all
  with r(3) have ok': "heap_ok s' ?bs'" by simp
  have "rt_realloc s p sz = Some (p, s')" using step k(2) r by simp
  moreover have "\<not> lfree_lowest (lfree s') ?bs'"
  proof
    assume "lfree_lowest (lfree s') ?bs'"
    moreover have "free_starts 0 xs = []" by (rule free_starts_used [OF used])
    ultimately have "lfree s = off (extent xs + 12 + k)"
      using r(4) by (simp add: lfree_lowest_def free_starts_append)
    moreover have "lfree_ok (lfree s) ?bs" using ok by (simp add: heap_ok_def)
    ultimately obtain q where q: "q \<in> set (free_starts 0 ?bs @ [extent ?bs])" "off q = off (extent xs + 12 + k)"
      unfolding lfree_ok_def by metis
    have "q \<in> set (free_starts (extent xs + 12 + n) ((i, True) # ys)) \<or> q = extent ?bs"
      using q(1) \<open>free_starts 0 xs = []\<close> by (auto simp: free_starts_append)
    then have "extent xs + 12 + n \<le> q \<and> q \<le> extent ?bs"
      using free_starts_bound [of q "extent xs + 12 + n" "(i, True) # ys"] by auto
    then show False using q(2) lt k(2) by simp
  qed
  ultimately show ?thesis using r(4) ok' by blast
qed

text \<open>
  A size close to 2 to the 32 wraps around to 0 when it is aligned, and is then raised to the
  minimum of twelve bytes: the request is served as one for twelve bytes, although the caller may
  write up to the size it asked for.
\<close>

lemma rt_malloc_size_wraps:
  assumes "heap_ok s bs" and "unat sz + 3 \<ge> 2 ^ 32"
  shows "RT_ALIGN sz = 0 \<and> rt_malloc s sz = rt_malloc s 12"
proof -
  have "unat (sz + 3) = unat sz + 3 - 2 ^ 32"
    using assms(2) unsigned_less [of sz, where ?'a = nat] by (simp add: unat_word_ariths mod_if)
  then have "unat (sz + 3) < 3" using unsigned_less [of sz, where ?'a = nat] by simp
  then have "unat (RT_ALIGN sz) = 0" by (simp add: RT_ALIGN_def)
  then have al: "RT_ALIGN sz = 0" by (simp add: unat_eq_zero)
  have al12: "RT_ALIGN 12 = 12" using RT_ALIGN_off [of 12] by (simp add: off_def)
  have "\<not> mem_size_aligned s < 12"
    using assms(1) by (auto simp: heap_ok_def heap_shape_def word_less_nat_alt)
  moreover have "sz \<noteq> 0" using assms(2) by auto
  ultimately show ?thesis using al al12 by (simp add: rt_malloc_def)
qed

end
