(* ===== verification/Pipe.thy ===== *)
theory Pipe
  imports Ringbuffer
begin

text \<open>
  The pipe device, \<open>components/drivers/src/pipe.c\<close>: a ring buffer behind file operations.

  A reader or writer that has to wait releases the lock, wakes the other side and suspends itself; the
  model returns \<open>Waiting\<close> then, with the number of bytes moved so far, and the next turn of that
  thread is another call of the loop body. What \<open>rt_malloc\<close> and \<open>rt_device_register\<close> return are
  arguments. The lock, which makes every pass through a loop atomic, and the wait queues are not part
  of the state.
\<close>

subsection \<open>The device\<close>

record rt_pipe_device =
  is_named :: bool
  fifo :: "rt_ringbuffer option"
  bufsz :: u16
  readers :: u8
  writers :: u8
  ref_count :: u8

text \<open>The flags of a file descriptor.\<close>

abbreviation (input) "O_ACCMODE \<equiv> 3 :: u32"
abbreviation (input) "O_RDONLY \<equiv> 0 :: u32"
abbreviation (input) "O_WRONLY \<equiv> 1 :: u32"
abbreviation (input) "O_RDWR \<equiv> 2 :: u32"
abbreviation (input) "O_NONBLOCK \<equiv> 0x4000 :: u32"

abbreviation (input) "EPIPE \<equiv> 32 :: int"
abbreviation (input) "EAGAIN \<equiv> 11 :: int"
abbreviation (input) "EINVAL \<equiv> 22 :: int"
abbreviation (input) "ENODEV \<equiv> 19 :: int"
abbreviation (input) "RT_ENOMEM \<equiv> 5 :: int"
abbreviation (input) "RT_EBUSY \<equiv> 7 :: int"

definition rt_pipe_create :: "bool \<Rightarrow> bool \<Rightarrow> int \<Rightarrow> rt_pipe_device option option" where
  "rt_pipe_create allocated registered sz =
     (if \<not> allocated then Some None
      else do {
        rt_assert (sz < 0xFFFF);
        Some (if registered
          then Some \<lparr>is_named = True, fifo = None, bufsz = word_of_int sz, readers = 0, writers = 0, ref_count = 0\<rparr>
          else None) })"

text \<open>What \<open>rt_device_find\<close> finds under a name.\<close>

datatype found_device = NoDevice | OtherDevice | PipeDevice rt_pipe_device

definition rt_pipe_delete :: "found_device \<Rightarrow> int \<times> found_device" where
  "rt_pipe_delete device =
     (case device of
        PipeDevice pipe \<Rightarrow> if ref_count pipe \<noteq> 0 then (- RT_EBUSY, device) else (0, NoDevice)
      | OtherDevice \<Rightarrow> (- ENODEV, device)
      | NoDevice \<Rightarrow> (- ENODEV, device))"

definition count_open :: "u32 \<Rightarrow> u8 \<Rightarrow> rt_pipe_device \<Rightarrow> rt_pipe_device" where
  "count_open flags d pipe =
     (let m = flags AND O_ACCMODE in
      if m = O_RDONLY then pipe\<lparr>readers := readers pipe + d\<rparr>
      else if m = O_WRONLY then pipe\<lparr>writers := writers pipe + d\<rparr>
      else if m = O_RDWR then pipe\<lparr>readers := readers pipe + d, writers := writers pipe + d\<rparr>
      else pipe)"

definition pipe_fops_open ::
    "rt_ringbuffer option \<Rightarrow> u8 list option \<Rightarrow> u32 \<Rightarrow> rt_pipe_device \<Rightarrow> (int \<times> rt_pipe_device) option" where
  "pipe_fops_open rb pool flags pipe = do {
     pipe \<leftarrow> (if ref_count pipe = 0 then do {
         f \<leftarrow> rt_ringbuffer_create (bufsz pipe) rb pool;
         Some (pipe\<lparr>fifo := f\<rparr>) }
       else Some pipe);
     if ref_count pipe = 0 \<and> fifo pipe = None then Some (- RT_ENOMEM, pipe)
     else
       let pipe = count_open flags 1 pipe in
       Some (0, pipe\<lparr>ref_count := ref_count pipe + 1\<rparr>) }"

text \<open>Closing the last descriptor of an unnamed pipe deletes it.\<close>

definition pipe_fops_close :: "u32 \<Rightarrow> rt_pipe_device \<Rightarrow> int \<times> found_device" where
  "pipe_fops_close flags pipe =
     (let pipe = count_open flags (- 1) pipe;
          pipe = (if ref_count pipe = 1 then pipe\<lparr>fifo := None\<rparr> else pipe);
          pipe = pipe\<lparr>ref_count := ref_count pipe - 1\<rparr> in
      (0, if ref_count pipe = 0 \<and> \<not> is_named pipe then snd (rt_pipe_delete (PipeDevice pipe)) else PipeDevice pipe))"

datatype pipe_ioctl_cmd = FIONREAD | FIONWRITE | OtherCmd

definition pipe_fops_ioctl :: "pipe_ioctl_cmd \<Rightarrow> u32 \<Rightarrow> rt_pipe_device \<Rightarrow> (int \<times> u32) option" where
  "pipe_fops_ioctl cmd args pipe =
     (case cmd of
        FIONREAD \<Rightarrow> do { rb \<leftarrow> fifo pipe; Some (0, rt_ringbuffer_data_len rb) }
      | FIONWRITE \<Rightarrow> do { rb \<leftarrow> fifo pipe; Some (0, rt_ringbuffer_space_len rb) }
      | OtherCmd \<Rightarrow> Some (- EINVAL, args))"

datatype io_result = Returned int | Waiting u32

text \<open>
  Reading: one pass through the loop. A reader that has waited starts over at the top of the loop,
  with no byte read. The ring buffer takes a 16-bit count.
\<close>

definition pipe_fops_read ::
    "u32 \<Rightarrow> rt_pipe_device \<Rightarrow> u8 list \<Rightarrow> u32 \<Rightarrow> (io_result \<times> u8 list \<times> rt_pipe_device) option" where
  "pipe_fops_read flags pipe buf count =
     (if writers pipe = 0 then Some (Returned 0, buf, pipe)
      else do {
        rb \<leftarrow> fifo pipe;
        (rb, buf, len) \<leftarrow> rt_ringbuffer_get rb buf (ucast count);
        let pipe = pipe\<lparr>fifo := Some rb\<rparr>;
        Some (if sint len > 0 then Returned (sint len)
              else if flags AND O_NONBLOCK \<noteq> 0 then Returned (- EAGAIN)
              else Waiting 0, buf, pipe) })"

text \<open>Writing: one pass through the loop with \<open>ret\<close> bytes written before, and the first pass.\<close>

definition pipe_write_pass ::
    "u32 \<Rightarrow> rt_pipe_device \<Rightarrow> u8 list \<Rightarrow> u32 \<Rightarrow> u32 \<Rightarrow> (io_result \<times> rt_pipe_device) option" where
  "pipe_write_pass flags pipe buf count ret =
     (if readers pipe = 0 then Some (Returned (if ret = 0 then - EPIPE else sint ret), pipe)
      else do {
        rb \<leftarrow> fifo pipe;
        (rb, len) \<leftarrow> rt_ringbuffer_put rb (drop (unat ret) buf) (ucast (count - ret));
        let ret = ret + len;
        let pipe = pipe\<lparr>fifo := Some rb\<rparr>;
        Some (if ret = count then Returned (sint ret)
              else if flags AND O_NONBLOCK \<noteq> 0 then Returned (if ret = 0 then - EAGAIN else sint ret)
              else Waiting ret, pipe) })"

definition pipe_fops_write ::
    "u32 \<Rightarrow> rt_pipe_device \<Rightarrow> u8 list \<Rightarrow> u32 \<Rightarrow> (io_result \<times> rt_pipe_device) option" where
  "pipe_fops_write flags pipe buf count =
     (if readers pipe = 0 then Some (Returned (- EPIPE), pipe)
      else if count = 0 then Some (Returned 0, pipe)
      else pipe_write_pass flags pipe buf count 0)"

abbreviation (input) "POLLIN \<equiv> 1 :: u32"
abbreviation (input) "POLLOUT \<equiv> 2 :: u32"
abbreviation (input) "POLLERR \<equiv> 4 :: u32"
abbreviation (input) "POLLHUP \<equiv> 8 :: u32"

definition pipe_fops_poll :: "u32 \<Rightarrow> rt_pipe_device \<Rightarrow> u32 option" where
  "pipe_fops_poll flags pipe = do {
     let m = flags AND O_ACCMODE;
     let mode = ((if m = O_RDONLY then 1 else if m = O_WRONLY then 2 else if m = O_RDWR then 3 else 0) :: u32);
     r \<leftarrow> (if mode AND 1 \<noteq> 0 then do {
         rb \<leftarrow> fifo pipe;
         Some ((if rt_ringbuffer_data_len rb \<noteq> 0 then POLLIN else 0) OR (if writers pipe = 0 then POLLHUP else 0)) }
       else Some 0);
     w \<leftarrow> (if mode AND 2 \<noteq> 0 then do {
         rb \<leftarrow> fifo pipe;
         Some ((if rt_ringbuffer_space_len rb \<noteq> 0 then POLLOUT else 0) OR (if readers pipe = 0 then POLLERR else 0)) }
       else Some 0);
     Some (r OR w) }"

text \<open>The device interface, which never waits.\<close>

definition rt_pipe_open ::
    "rt_ringbuffer option \<Rightarrow> u8 list option \<Rightarrow> rt_pipe_device \<Rightarrow> (int \<times> rt_pipe_device) option" where
  "rt_pipe_open rb pool pipe =
     (case fifo pipe of
        None \<Rightarrow> do { f \<leftarrow> rt_ringbuffer_create (bufsz pipe) rb pool; Some (0, pipe\<lparr>fifo := f\<rparr>) }
      | Some _ \<Rightarrow> Some (0, pipe))"

definition rt_pipe_close :: "rt_pipe_device \<Rightarrow> (int \<times> rt_pipe_device) option" where
  "rt_pipe_close pipe =
     (if ref_count pipe = 1
      then (case fifo pipe of None \<Rightarrow> None | Some _ \<Rightarrow> Some (0, pipe\<lparr>fifo := None\<rparr>))
      else Some (0, pipe))"

partial_function (option) pipe_read_loop ::
    "rt_ringbuffer \<Rightarrow> u8 list \<Rightarrow> u32 \<Rightarrow> u32 \<Rightarrow> (u32 \<times> u8 list \<times> rt_ringbuffer) option" where
  "pipe_read_loop rb pbuf read_bytes count =
     (if read_bytes < count then
        (case rt_ringbuffer_get rb (drop (unat read_bytes) pbuf) (ucast (count - read_bytes)) of
           None \<Rightarrow> None
         | Some (rb, bs, len) \<Rightarrow>
             if sint len \<le> 0 then Some (read_bytes, pbuf, rb)
             else pipe_read_loop rb (take (unat read_bytes) pbuf @ bs) (read_bytes + len) count)
      else Some (read_bytes, pbuf, rb))"

definition rt_pipe_read :: "rt_pipe_device \<Rightarrow> u8 list \<Rightarrow> u32 \<Rightarrow> (u32 \<times> u8 list \<times> rt_pipe_device) option" where
  "rt_pipe_read pipe pbuf count =
     (if count = 0 then Some (0, pbuf, pipe)
      else do {
        rb \<leftarrow> fifo pipe;
        (n, pbuf, rb) \<leftarrow> pipe_read_loop rb pbuf 0 count;
        Some (n, pbuf, pipe\<lparr>fifo := Some rb\<rparr>) })"

partial_function (option) pipe_write_loop ::
    "rt_ringbuffer \<Rightarrow> u8 list \<Rightarrow> u32 \<Rightarrow> u32 \<Rightarrow> (u32 \<times> rt_ringbuffer) option" where
  "pipe_write_loop rb pbuf write_bytes count =
     (if write_bytes < count then
        (case rt_ringbuffer_put rb (drop (unat write_bytes) pbuf) (ucast (count - write_bytes)) of
           None \<Rightarrow> None
         | Some (rb, len) \<Rightarrow>
             if sint len \<le> 0 then Some (write_bytes, rb)
             else pipe_write_loop rb pbuf (write_bytes + len) count)
      else Some (write_bytes, rb))"

definition rt_pipe_write :: "rt_pipe_device \<Rightarrow> u8 list \<Rightarrow> u32 \<Rightarrow> (u32 \<times> rt_pipe_device) option" where
  "rt_pipe_write pipe pbuf count =
     (if count = 0 then Some (0, pipe)
      else do {
        rb \<leftarrow> fifo pipe;
        (n, rb) \<leftarrow> pipe_write_loop rb pbuf 0 count;
        Some (n, pipe\<lparr>fifo := Some rb\<rparr>) })"

text \<open>
  \<open>pipe\<close> makes an unnamed pipe and opens both its ends, \<open>mkfifo\<close> a named one. \<open>opens\<close> says which
  descriptors could be had.
\<close>

definition posix_pipe ::
    "bool \<Rightarrow> bool \<Rightarrow> rt_ringbuffer option \<Rightarrow> u8 list option \<Rightarrow> bool \<times> bool \<Rightarrow> (int \<times> found_device) option" where
  "posix_pipe allocated registered rb pool opens = do {
     dev \<leftarrow> rt_pipe_create allocated registered 512;
     case dev of
       None \<Rightarrow> Some (- 1, NoDevice)
     | Some pipe \<Rightarrow> do {
         let pipe = pipe\<lparr>is_named := False\<rparr>;
         (r0, pipe) \<leftarrow> (if fst opens then pipe_fops_open rb pool O_RDONLY pipe else Some (- 1, pipe));
         if r0 \<noteq> 0 then Some (- 1, PipeDevice pipe)
         else do {
           (r1, pipe) \<leftarrow> (if snd opens then pipe_fops_open rb pool O_WRONLY pipe else Some (- 1, pipe));
           Some (if r1 \<noteq> 0 then (- 1, snd (pipe_fops_close O_RDONLY pipe)) else (0, PipeDevice pipe)) } } }"

definition mkfifo :: "bool \<Rightarrow> bool \<Rightarrow> (int \<times> rt_pipe_device option) option" where
  "mkfifo allocated registered = do {
     dev \<leftarrow> rt_pipe_create allocated registered 512;
     Some (if dev = None then - 1 else 0, dev) }"

subsection \<open>What a pass does\<close>

definition pipe_ok :: "rt_pipe_device \<Rightarrow> bool" where
  "pipe_ok pipe = (case fifo pipe of None \<Rightarrow> False | Some rb \<Rightarrow> rb_inv rb)"

definition pipe_bytes :: "rt_pipe_device \<Rightarrow> u8 list" where
  "pipe_bytes pipe = rb_list (the (fifo pipe))"

definition pipe_cap :: "rt_pipe_device \<Rightarrow> nat" where
  "pipe_cap pipe = rb_cap (the (fifo pipe))"

text \<open>The pipe with other bytes in it.\<close>

definition same_pipe :: "rt_pipe_device \<Rightarrow> rt_pipe_device \<Rightarrow> bool" where
  "same_pipe p p' \<longleftrightarrow> pipe_ok p' \<and> pipe_cap p' = pipe_cap p \<and> readers p' = readers p \<and> writers p' = writers p \<and>
     ref_count p' = ref_count p \<and> is_named p' = is_named p \<and> bufsz p' = bufsz p"

lemma pipe_okE:
  assumes "pipe_ok pipe"
  obtains rb where "fifo pipe = Some rb" "rb_inv rb" "pipe_bytes pipe = rb_list rb" "pipe_cap pipe = rb_cap rb"
  using assms by (auto simp: pipe_ok_def pipe_bytes_def pipe_cap_def split: option.splits)

lemma pipe_room: "pipe_ok pipe \<Longrightarrow> length (pipe_bytes pipe) \<le> pipe_cap pipe \<and> 0 < pipe_cap pipe"
  by (auto elim!: pipe_okE simp: rb_invD)

lemma same_pipe_fifo:
  assumes "pipe_ok pipe" and "rb_inv rb'" and "rb_cap rb' = pipe_cap pipe"
  shows "same_pipe pipe (pipe\<lparr>fifo := Some rb'\<rparr>)" "pipe_bytes (pipe\<lparr>fifo := Some rb'\<rparr>) = rb_list rb'"
  using assms by (simp_all add: same_pipe_def pipe_ok_def pipe_bytes_def pipe_cap_def)

lemma same_pipe_trans: "same_pipe p q \<Longrightarrow> same_pipe q r \<Longrightarrow> same_pipe p r"
  by (simp add: same_pipe_def)

lemma same_pipeD: "same_pipe p q \<Longrightarrow> pipe_ok q" "same_pipe p q \<Longrightarrow> pipe_cap q = pipe_cap p"
  "same_pipe p q \<Longrightarrow> readers q = readers p" "same_pipe p q \<Longrightarrow> writers q = writers p"
  by (simp_all add: same_pipe_def)

text \<open>
  Two opened ends: the reader's descriptor makes the ring buffer, and the pipe is empty and ready. This is
  how \<open>pipe\<close> and the MQTT client set it up.
\<close>

lemma pipe_opened:
  assumes "ref_count pipe = 0" and "length pool = 512" and "bufsz pipe = 512" and "readers pipe = 0" and "writers pipe = 0"
  obtains pipe1 pipe2 where "pipe_fops_open (Some rb) (Some pool) O_RDONLY pipe = Some (0, pipe1)"
    "ref_count pipe1 = 1" "pipe_fops_open rb' pool' O_WRONLY pipe1 = Some (0, pipe2)"
    "pipe_ok pipe2" "pipe_bytes pipe2 = []" "pipe_cap pipe2 = 512" "readers pipe2 = 1" "writers pipe2 = 1"
    "is_named pipe2 = is_named pipe"
    "snd (pipe_fops_close O_RDONLY pipe1) =
      (if is_named pipe then PipeDevice (pipe\<lparr>fifo := None\<rparr>) else NoDevice)"
proof -
  obtain f where f: "rt_ringbuffer_create 512 (Some rb) (Some pool) = Some (Some f)" "rb_inv f" "rb_list f = []" "rb_cap f = 512"
    using rb_init [of 512 pool rb] assms(2) by (auto simp: rt_ringbuffer_create_def)
  obtain n g where "pipe = \<lparr>is_named = n, fifo = g, bufsz = 512, readers = 0, writers = 0, ref_count = 0\<rparr>"
    using assms by (cases pipe) simp
  then show thesis
    by (intro that [of "\<lparr>is_named = n, fifo = Some f, bufsz = 512, readers = 1, writers = 0, ref_count = 1\<rparr>"
      "\<lparr>is_named = n, fifo = Some f, bufsz = 512, readers = 1, writers = 1, ref_count = 2\<rparr>"]) (use f in \<open>simp_all add: pipe_fops_open_def count_open_def pipe_ok_def pipe_bytes_def
      pipe_cap_def pipe_fops_close_def rt_pipe_delete_def Let_def\<close>)
qed

lemma posix_pipe_cases:
  assumes "length pool = 512"
  shows "\<exists>pipe. posix_pipe True True (Some rb) (Some pool) (True, True) = Some (0, PipeDevice pipe) \<and>
      pipe_ok pipe \<and> pipe_bytes pipe = [] \<and> pipe_cap pipe = 512 \<and> readers pipe = 1 \<and> writers pipe = 1"
    and "posix_pipe True True (Some rb) (Some pool) (True, False) = Some (- 1, NoDevice)"
    and "\<exists>pipe. posix_pipe True True (Some rb) (Some pool) (False, b) = Some (- 1, PipeDevice pipe) \<and> ref_count pipe = 0"
proof -
  let ?new = "\<lparr>is_named = False, fifo = None, bufsz = 512, readers = 0, writers = 0, ref_count = 0\<rparr>"
  obtain p1 p2 where "pipe_fops_open (Some rb) (Some pool) O_RDONLY ?new = Some (0, p1)"
    "pipe_fops_open (Some rb) (Some pool) O_WRONLY p1 = Some (0, p2)"
    "pipe_ok p2" "pipe_bytes p2 = []" "pipe_cap p2 = 512" "readers p2 = 1" "writers p2 = 1"
    "snd (pipe_fops_close O_RDONLY p1) = NoDevice"
    by (rule pipe_opened [of ?new pool rb "Some rb" "Some pool"]) (use assms in simp_all)
  then show "\<exists>pipe. posix_pipe True True (Some rb) (Some pool) (True, True) = Some (0, PipeDevice pipe) \<and>
      pipe_ok pipe \<and> pipe_bytes pipe = [] \<and> pipe_cap pipe = 512 \<and> readers pipe = 1 \<and> writers pipe = 1"
    and "posix_pipe True True (Some rb) (Some pool) (True, False) = Some (- 1, NoDevice)"
    by (simp_all add: posix_pipe_def rt_pipe_create_def rt_assert_def)
qed (simp add: posix_pipe_def rt_pipe_create_def rt_assert_def)

lemma pipe_write_pass_ok:
  assumes ok: "pipe_ok pipe" "readers pipe \<noteq> 0" and fl: "flags AND O_NONBLOCK = 0"
    and len: "r \<le> length msg" "length msg < 2 ^ 16"
    and n: "n = min (length msg - r) (pipe_cap pipe - length (pipe_bytes pipe))"
  shows "\<exists>pipe'. pipe_write_pass flags pipe msg (of_nat (length msg)) (of_nat r) =
      Some (if r + n = length msg then Returned (int (length msg)) else Waiting (of_nat (r + n)), pipe') \<and>
    same_pipe pipe pipe' \<and> pipe_bytes pipe' = pipe_bytes pipe @ take n (drop r msg)"
proof -
  from ok(1) obtain rb where rb: "fifo pipe = Some rb" "rb_inv rb" "pipe_bytes pipe = rb_list rb" "pipe_cap pipe = rb_cap rb"
    by (rule pipe_okE)
  have d: "ucast (of_nat (length msg) - of_nat r :: u32) = (of_nat (length msg - r) :: u16)"
  proof -
    obtain d where d: "length msg = r + d" using len(1) le_Suc_ex by blast
    then have "unat (ucast (of_nat d :: u32) :: u16) = d" using len(2) by (subst unat_ucast_small) simp_all
    then show ?thesis using d len(2) by (intro unsigned_word_eqI [where 'a = nat]) simp
  qed
  have u: "unat (of_nat (length msg - r) :: u16) = length msg - r" "unat (of_nat r :: u32) = r"
    using len by (auto intro!: unat_of_nat_small simp del: of_nat_diff)
  obtain rb' where p: "rt_ringbuffer_put rb (drop r msg) (of_nat (length msg - r)) = Some (rb', of_nat n)"
      "rb_inv rb'" "rb_list rb' = rb_list rb @ take n (drop r msg)" "rb_cap rb' = rb_cap rb"
    using rbq.put_spec [OF rb(2), of "of_nat (length msg - r)" "drop r msg" n] u n rb by auto
  have e: "(of_nat r + of_nat n = (of_nat (length msg) :: u32)) = (r + n = length msg)"
  proof -
    have "r + n < 2 ^ 32" "length msg < 2 ^ 32" using len n by auto
    then have "unat (of_nat (r + n) :: u32) = r + n" "unat (of_nat (length msg) :: u32) = length msg"
      by (simp_all del: of_nat_add)
    then show ?thesis by (metis of_nat_add)
  qed
  have "sint (of_nat (length msg) :: u32) = int (length msg)"
    using len by (subst sint_small) simp_all
  then have s: "r + n = length msg \<Longrightarrow> sint (of_nat r + of_nat n :: u32) = int (length msg)"
    by (metis of_nat_add)
  show ?thesis
    using ok fl rb p s
    by (simp add: pipe_write_pass_def d u e same_pipe_fifo [OF ok(1) p(2)])
qed

lemma pipe_read_ok:
  assumes ok: "pipe_ok pipe" "writers pipe \<noteq> 0" and fl: "flags AND O_NONBLOCK = 0"
    and len: "unat count \<le> length buf" "unat count < 2 ^ 16"
    and n: "n = min (unat count) (length (pipe_bytes pipe))"
  shows "\<exists>pipe'. pipe_fops_read flags pipe buf count =
      Some (if n = 0 then Waiting 0 else Returned (int n), overwrite buf 0 (take n (pipe_bytes pipe)), pipe') \<and>
    same_pipe pipe pipe' \<and> pipe_bytes pipe' = drop n (pipe_bytes pipe)"
proof -
  from ok(1) obtain rb where rb: "fifo pipe = Some rb" "rb_inv rb" "pipe_bytes pipe = rb_list rb" "pipe_cap pipe = rb_cap rb"
    by (rule pipe_okE)
  have u: "unat (ucast count :: u16) = unat count" "n \<le> length buf" using len n by simp_all
  obtain rb' where p: "rt_ringbuffer_get rb buf (ucast count) = Some (rb', overwrite buf 0 (take n (rb_list rb)), of_nat n)"
      "rb_inv rb'" "rb_list rb' = drop n (rb_list rb)" "rb_cap rb' = rb_cap rb"
    using rbq.get_spec [OF rb(2), of n "ucast count" buf] u n rb len by auto
  have s: "sint (of_nat n :: u32) = int n"
    using len n by (subst sint_small) (simp_all add: min_def)
  show ?thesis
    using ok fl rb p s
    by (simp add: pipe_fops_read_def same_pipe_fifo [OF ok(1) p(2)])
qed

subsection \<open>A writer and a reader\<close>

text \<open>
  A thread that writes a message to the pipe and one that reads from it, in any order of their turns. A
  turn is what happens while the thread holds the lock: a pass of the writer, or a call of \<open>read\<close>
  with a buffer of the given size. The state is the result of the writer's last pass, the pipe and the
  bytes the reader has got.
\<close>

datatype turn = WriterTurn | ReaderTurn u32

type_synonym pipe_state = "io_result \<times> rt_pipe_device \<times> u8 list"

fun pipe_turn :: "u8 list \<Rightarrow> turn \<Rightarrow> pipe_state \<Rightarrow> pipe_state option" where
  "pipe_turn msg WriterTurn (w, pipe, got) =
     (case w of
        Returned _ \<Rightarrow> Some (w, pipe, got)
      | Waiting ret \<Rightarrow> do {
          (w, pipe) \<leftarrow> pipe_write_pass O_WRONLY pipe msg (of_nat (length msg)) ret;
          Some (w, pipe, got) })"
| "pipe_turn msg (ReaderTurn k) (w, pipe, got) = do {
     (r, bs, pipe) \<leftarrow> pipe_fops_read O_RDONLY pipe (replicate (unat k) 0) k;
     Some (w, pipe, got @ (case r of Returned n \<Rightarrow> take (nat n) bs | Waiting _ \<Rightarrow> [])) }"

fun pipe_run :: "u8 list \<Rightarrow> turn list \<Rightarrow> pipe_state \<Rightarrow> pipe_state option" where
  "pipe_run msg [] st = Some st"
| "pipe_run msg (t # ts) st = do { st \<leftarrow> pipe_turn msg t st; pipe_run msg ts st }"

text \<open>The number of bytes the writer has handed over.\<close>

fun written :: "io_result \<Rightarrow> nat" where
  "written (Returned n) = nat n"
| "written (Waiting r) = unat r"

definition turn_ok :: "turn \<Rightarrow> bool" where
  "turn_ok t = (case t of WriterTurn \<Rightarrow> True | ReaderTurn k \<Rightarrow> unat k < 2 ^ 16)"

definition stream_inv :: "rt_pipe_device \<Rightarrow> u8 list \<Rightarrow> pipe_state \<Rightarrow> bool" where
  "stream_inv p0 msg st = (case st of (w, pipe, got) \<Rightarrow>
     same_pipe p0 pipe \<and> written w \<le> length msg \<and>
     got @ pipe_bytes pipe = pipe_bytes p0 @ take (written w) msg \<and>
     (\<forall>n. w = Returned n \<longrightarrow> n = int (length msg)))"

text \<open>Both ends are open and the message is short enough for the 16-bit counts of the ring buffer.\<close>

definition pipe_pair :: "rt_pipe_device \<Rightarrow> u8 list \<Rightarrow> bool" where
  "pipe_pair p0 msg \<longleftrightarrow> readers p0 \<noteq> 0 \<and> writers p0 \<noteq> 0 \<and> length msg < 2 ^ 16"

lemma writer_turn:
  assumes pp: "pipe_pair p0 msg" and inv: "stream_inv p0 msg (Waiting r, pipe, got)"
    and n: "n = min (length msg - unat r) (pipe_cap pipe - length (pipe_bytes pipe))"
  shows "\<exists>w pipe'. pipe_turn msg WriterTurn (Waiting r, pipe, got) = Some (w, pipe', got) \<and>
    stream_inv p0 msg (w, pipe', got) \<and> written w = unat r + n \<and> (written w = length msg \<longrightarrow> w = Returned (int (length msg)))"
proof -
  have i: "same_pipe p0 pipe" "unat r \<le> length msg" "got @ pipe_bytes pipe = pipe_bytes p0 @ take (unat r) msg"
    using inv by (simp_all add: stream_inv_def)
  obtain pipe' where p: "pipe_write_pass O_WRONLY pipe msg (of_nat (length msg)) (of_nat (unat r)) =
      Some (if unat r + n = length msg then Returned (int (length msg)) else Waiting (of_nat (unat r + n)), pipe')"
      "same_pipe pipe pipe'" "pipe_bytes pipe' = pipe_bytes pipe @ take n (drop (unat r) msg)"
    using pipe_write_pass_ok [OF _ _ _ i(2) _ n, of O_WRONLY] i pp by (auto simp: same_pipeD pipe_pair_def)
  let ?w = "if unat r + n = length msg then Returned (int (length msg)) else Waiting (of_nat (unat r + n))"
  have "unat r + n < 2 ^ 32" using i(2) pp n by (auto simp: pipe_pair_def)
  then have w: "written ?w = unat r + n" by (simp del: of_nat_add)
  have "stream_inv p0 msg (?w, pipe', got)"
    unfolding stream_inv_def prod.case w
    using i p same_pipe_trans [OF i(1) p(2)] n by (auto simp: take_add)
  with p(1) w show ?thesis by (intro exI [of _ ?w] exI [of _ pipe']) auto
qed

lemma reader_turn:
  assumes pp: "pipe_pair p0 msg" and inv: "stream_inv p0 msg (w, pipe, got)" and k: "unat k < 2 ^ 16"
  shows "\<exists>pipe' got'. pipe_turn msg (ReaderTurn k) (w, pipe, got) = Some (w, pipe', got') \<and>
    stream_inv p0 msg (w, pipe', got') \<and> length (pipe_bytes pipe') = length (pipe_bytes pipe) - unat k"
proof -
  have i: "same_pipe p0 pipe" "got @ pipe_bytes pipe = pipe_bytes p0 @ take (written w) msg"
    using inv by (simp_all add: stream_inv_def)
  obtain n where n: "n = min (unat k) (length (pipe_bytes pipe))" by simp
  obtain pipe' where p: "pipe_fops_read O_RDONLY pipe (replicate (unat k) 0) k =
      Some (if n = 0 then Waiting 0 else Returned (int n), overwrite (replicate (unat k) 0) 0 (take n (pipe_bytes pipe)), pipe')"
      "same_pipe pipe pipe'" "pipe_bytes pipe' = drop n (pipe_bytes pipe)"
    using pipe_read_ok [OF _ _ _ _ k n, of O_RDONLY "replicate (unat k) 0"] i pp by (auto simp: same_pipeD pipe_pair_def)
  have t: "take n (overwrite (replicate (unat k) 0) 0 (take n (pipe_bytes pipe))) = take n (pipe_bytes pipe)"
    by (simp add: overwrite_def n)
  have "pipe_turn msg (ReaderTurn k) (w, pipe, got) = Some (w, pipe', got @ take n (pipe_bytes pipe))"
    using p(1) t by simp
  moreover have "stream_inv p0 msg (w, pipe', got @ take n (pipe_bytes pipe))"
    using inv p same_pipe_trans [OF i(1) p(2)] by (simp add: stream_inv_def)
  ultimately show ?thesis using p(3) n by auto
qed

lemma turn_inv:
  assumes "pipe_pair p0 msg" and "stream_inv p0 msg st" and "turn_ok t"
  shows "\<exists>st'. pipe_turn msg t st = Some st' \<and> stream_inv p0 msg st'"
proof (cases t)
  case WriterTurn
  obtain w pipe got where st: "st = (w, pipe, got)" by (cases st)
  show ?thesis
  proof (cases w)
    case (Waiting r)
    have "stream_inv p0 msg (Waiting r, pipe, got)" using assms(2) st Waiting by simp
    from writer_turn [OF assms(1) this refl] show ?thesis unfolding st Waiting WriterTurn by blast
  qed (use assms(2) st WriterTurn in simp)
next
  case (ReaderTurn k)
  obtain w pipe got where st: "st = (w, pipe, got)" by (cases st)
  have "unat k < 2 ^ 16" using assms(3) ReaderTurn by (simp add: turn_ok_def)
  from reader_turn [OF assms(1) assms(2) [unfolded st] this] show ?thesis unfolding st ReaderTurn by blast
qed

lemma run_inv:
  "pipe_pair p0 msg \<Longrightarrow> stream_inv p0 msg st \<Longrightarrow> list_all turn_ok ts \<Longrightarrow> \<exists>st'. pipe_run msg ts st = Some st' \<and> stream_inv p0 msg st'"
proof (induction ts arbitrary: st)
  case (Cons t ts)
  have "turn_ok t" "list_all turn_ok ts" using Cons.prems(3) by simp_all
  with turn_inv [OF Cons.prems(1,2)] obtain st' where "pipe_turn msg t st = Some st'" "stream_inv p0 msg st'"
    by blast
  with Cons.IH [OF Cons.prems(1)] \<open>list_all turn_ok ts\<close> show ?case by simp
qed simp

text \<open>
  Progress: when the pipe has room, the writer hands over at least one byte, and after a read of at least
  one byte the pipe has room.
\<close>

definition has_room :: "pipe_state \<Rightarrow> bool" where
  "has_room st = (case st of (w, pipe, got) \<Rightarrow> length (pipe_bytes pipe) < pipe_cap pipe)"

lemma round_progress:
  assumes pp: "pipe_pair p0 msg" and inv: "stream_inv p0 msg st" and k: "0 < unat k" "unat k < 2 ^ 16"
  shows "\<exists>st'. pipe_run msg [WriterTurn, ReaderTurn k] st = Some st' \<and> stream_inv p0 msg st' \<and> has_room st' \<and>
    (written (fst st) < written (fst st') \<or> \<not> has_room st \<and> written (fst st) \<le> written (fst st') \<or>
     fst st' = Returned (int (length msg)))"
proof -
  obtain w pipe got where st: "st = (w, pipe, got)" by (cases st)
  have "\<exists>w' pipe'. pipe_turn msg WriterTurn st = Some (w', pipe', got) \<and> stream_inv p0 msg (w', pipe', got) \<and>
      (written w < written w' \<or> \<not> has_room st \<and> written w \<le> written w' \<or> w' = Returned (int (length msg)))"
  proof (cases w)
    case (Returned n)
    then show ?thesis using inv st by (simp add: stream_inv_def)
  next
    case (Waiting r)
    obtain w' pipe' where p: "pipe_turn msg WriterTurn st = Some (w', pipe', got)" "stream_inv p0 msg (w', pipe', got)"
        "written w' = unat r + min (length msg - unat r) (pipe_cap pipe - length (pipe_bytes pipe))"
        "written w' = length msg \<longrightarrow> w' = Returned (int (length msg))"
      using writer_turn [OF pp, of r pipe got, OF _ refl] inv st Waiting by blast
    moreover have "unat r \<le> length msg" using inv st Waiting by (simp add: stream_inv_def)
    ultimately show ?thesis using st Waiting by (auto simp: has_room_def min_def split: if_splits)
  qed
  then obtain w' pipe' where p: "pipe_turn msg WriterTurn st = Some (w', pipe', got)" "stream_inv p0 msg (w', pipe', got)"
      "written w < written w' \<or> \<not> has_room st \<and> written w \<le> written w' \<or> w' = Returned (int (length msg))"
    by blast
  obtain q got' where q: "pipe_turn msg (ReaderTurn k) (w', pipe', got) = Some (w', q, got')"
      "stream_inv p0 msg (w', q, got')" "length (pipe_bytes q) = length (pipe_bytes pipe') - unat k"
    using reader_turn [OF pp p(2) k(2)] by blast
  have "pipe_ok pipe'" "pipe_cap q = pipe_cap pipe'"
    using p(2) q(2) by (auto simp: stream_inv_def same_pipe_def)
  then have "has_room (w', q, got')"
    using q(3) k(1) pipe_room [of pipe'] by (auto simp: has_room_def)
  then show ?thesis using p q st by auto
qed

lemma pipe_run_append: "pipe_run msg (ts @ us) st = do { st \<leftarrow> pipe_run msg ts st; pipe_run msg us st }"
proof (induction ts arbitrary: st)
  case (Cons t ts)
  then show ?case by (cases "pipe_turn msg t st") simp_all
qed simp

lemma rounds_progress:
  assumes "pipe_pair p0 msg" and "stream_inv p0 msg st" and "has_room st" and "0 < unat k" "unat k < 2 ^ 16"
    and "length msg < written (fst st) + j"
  shows "\<exists>st'. pipe_run msg (concat (replicate j [WriterTurn, ReaderTurn k])) st = Some st' \<and>
    stream_inv p0 msg st' \<and> fst st' = Returned (int (length msg))"
  using assms
proof (induction j arbitrary: st)
  case 0
  then show ?case by (auto simp: stream_inv_def)
next
  case (Suc j)
  obtain st' where s: "pipe_run msg [WriterTurn, ReaderTurn k] st = Some st'" "stream_inv p0 msg st'" "has_room st'"
      "written (fst st) < written (fst st') \<or> fst st' = Returned (int (length msg))"
    using round_progress [OF Suc.prems(1,2,4,5)] Suc.prems(3) by blast
  show ?case
  proof (cases "j = 0")
    case True
    then show ?thesis using s Suc.prems by (auto simp: stream_inv_def)
  next
    case False
    have "length msg < written (fst st') + j" using s(4) Suc.prems(6) False by auto
    from Suc.IH [OF Suc.prems(1) s(2,3) Suc.prems(4,5) this] s(1) show ?thesis
      using pipe_run_append [of msg "[WriterTurn, ReaderTurn k]" _ st] by simp
  qed
qed

subsection \<open>Opening\<close>

lemma rt_ringbuffer_create_ok:
  assumes sz: "4 \<le> sint sz" and pool: "nat (sint sz) \<le> length pool"
  shows "\<exists>rb'. rt_ringbuffer_create sz (Some rb) (Some pool) = Some (Some rb') \<and> rb_inv rb' \<and> rb_list rb' = [] \<and>
    rb_cap rb' = 4 * (nat (sint sz) div 4)"
proof -
  have s: "sint sz = int (unat sz)" using sz by (intro sint_nonneg) simp
  have b: "unat sz < 2 ^ 15" "4 \<le> unat sz" using sint_lt [of sz] sz s by (simp_all del: of_nat_unat)
  have al: "sint (sz AND - 4) = int (4 * (unat sz div 4))"
    using b by (subst sint_small) auto
  have "4 \<le> 4 * (unat sz div 4)" "4 * (unat sz div 4) \<le> unat sz" using b by presburger+
  moreover from this(2) have "4 * (unat sz div 4) \<le> length pool" using pool s by simp
  moreover have "nat (sint (sz AND - 4)) = 4 * (unat sz div 4)" unfolding al by (rule nat_int)
  ultimately obtain rb' where "rt_ringbuffer_init rb pool (sz AND - 4) = Some rb'" "rb_inv rb'" "rb_list rb' = []"
      "rb_cap rb' = 4 * (unat sz div 4)"
    using rb_init [of "sz AND - 4" pool rb] al pool s by auto
  moreover have "0 < sz" using b(2) by (simp add: word_less_nat_alt)
  ultimately show ?thesis using s by (simp add: rt_ringbuffer_create_def)
qed

text \<open>A pipe that is created and opened for reading and for writing is empty and has both ends.\<close>

lemma pipe_open_both:
  assumes sz: "4 \<le> sz" "sz < 2 ^ 15" and pool: "nat sz \<le> length pool"
  shows "\<exists>p p1 p2. rt_pipe_create True True sz = Some (Some p) \<and>
    pipe_fops_open (Some rb) (Some pool) O_RDONLY p = Some (0, p1) \<and>
    pipe_fops_open rb2 pool2 O_WRONLY p1 = Some (0, p2) \<and>
    pipe_ok p2 \<and> pipe_bytes p2 = [] \<and> pipe_cap p2 = 4 * (nat sz div 4) \<and> readers p2 = 1 \<and> writers p2 = 1"
proof -
  have u: "unat (word_of_int sz :: u16) = nat sz" using sz by (intro unat_word_of_int_small) simp_all
  then have s: "sint (word_of_int sz :: u16) = sz" using sz by (subst sint_small) simp_all
  obtain rb' where "rt_ringbuffer_create (word_of_int sz) (Some rb) (Some pool) = Some (Some rb')" "rb_inv rb'"
      "rb_list rb' = []" "rb_cap rb' = 4 * (nat sz div 4)"
    using rt_ringbuffer_create_ok [of "word_of_int sz" pool rb] s sz pool by auto
  then show ?thesis
    using sz by (simp add: rt_pipe_create_def pipe_fops_open_def count_open_def pipe_ok_def pipe_bytes_def pipe_cap_def Let_def)
qed

lemma pipe_poll_readable:
  assumes "pipe_ok pipe" and "writers pipe \<noteq> 0"
  shows "pipe_fops_poll O_RDONLY pipe = Some (if pipe_bytes pipe = [] then 0 else POLLIN)"
proof -
  from assms(1) obtain rb where rb: "fifo pipe = Some rb" "rb_inv rb" "pipe_bytes pipe = rb_list rb"
    by (rule pipe_okE)
  have "rt_ringbuffer_data_len rb = 0 \<longleftrightarrow> rb_list rb = []"
    using rb_data_len [OF rb(2)] by (metis length_0_conv length_rb_list unat_eq_zero)
  then show ?thesis using assms rb by (simp add: pipe_fops_poll_def Let_def)
qed

subsection \<open>Properties\<close>

text \<open>
  C14. A pipe is a FIFO byte stream between a thread that writes a message of less than 65536 bytes and
  one that reads with buffers of any such sizes, whatever the order of their turns: no access leaves
  a buffer, and what the reader has got followed by what is still in the pipe is what was in the
  pipe at first followed by the part of the message the writer has handed over. A writer that has
  returned has handed over all of it.
\<close>

theorem pipe_stream_fifo:
  assumes "pipe_ok p0" and "readers p0 \<noteq> 0" and "writers p0 \<noteq> 0" and "length msg < 2 ^ 16" and "list_all turn_ok ts"
  shows "\<exists>w pipe got. pipe_run msg ts (Waiting 0, p0, []) = Some (w, pipe, got) \<and> pipe_ok pipe \<and>
    got @ pipe_bytes pipe = pipe_bytes p0 @ take (written w) msg \<and>
    ((\<exists>r. w = Waiting r) \<or> w = Returned (int (length msg)))"
proof -
  have "stream_inv p0 msg (Waiting 0, p0, [])" using assms(1) by (simp add: stream_inv_def same_pipe_def)
  then obtain w pipe got where "pipe_run msg ts (Waiting 0, p0, []) = Some (w, pipe, got)" "stream_inv p0 msg (w, pipe, got)"
    using run_inv [of p0 msg _ ts] assms by (fastforce simp: pipe_pair_def)
  then show ?thesis by (cases w) (auto simp: stream_inv_def same_pipe_def)
qed

definition small_pipe :: rt_pipe_device where
  "small_pipe = \<lparr>is_named = True, fifo = Some \<lparr>buffer_ptr = [0, 0, 0, 0], read_mirror = 0, read_index = 0,
     write_mirror = 0, write_index = 0, buffer_size = 4\<rparr>, bufsz = 4, readers = 1, writers = 1, ref_count = 2\<rparr>"

lemma small_pipe_ok: "pipe_ok small_pipe"
  by (simp add: small_pipe_def pipe_ok_def rb_inv_def rb_cap_def)

lemma small_pipe_bytes: "pipe_bytes small_pipe = []"
  by (simp add: small_pipe_def pipe_bytes_def rb_list_def rb_cnt_def)

theorem pipe_stream_fifo_witness:
  "\<exists>w pipe got. pipe_run [1, 2, 3, 4, 5, 6] [WriterTurn, ReaderTurn 3, WriterTurn] (Waiting 0, small_pipe, []) = Some (w, pipe, got) \<and>
    pipe_ok pipe \<and> got @ pipe_bytes pipe = pipe_bytes small_pipe @ take (written w) [1, 2, 3, 4, 5, 6] \<and>
    ((\<exists>r. w = Waiting r) \<or> w = Returned (int (length [1, 2, 3, 4, 5, 6 :: u8])))"
  by (rule pipe_stream_fifo [OF small_pipe_ok]) (simp_all add: small_pipe_def turn_ok_def)



end
