(* ===== verification/MqttClient.thy ===== *)
theory MqttClient
  imports MqttConnect MqttSubscribe MqttPublish Kprintf Pipe
begin

text \<open>
  The MQTT client, \<open>packages/pahomqtt-v1.1.0/MQTTClient-RT/paho_mqtt_pipe.c\<close> (built without TLS, with one
  message handler): reading packets from the socket, connecting, subscribing, dispatching received
  packets, publishing through the pipe, and the worker thread.

  The sockets are a script of answers in the state of the client: \<open>rx\<close> what \<open>recv\<close> delivers, \<open>sends\<close> and
  \<open>selects\<close> what \<open>send\<close> and \<open>select\<close> return, \<open>tx\<close> the packets that were sent. Variables the code
  leaves uninitialised are arguments. \<^const>\<open>None\<close> is an access outside a buffer.
\<close>

subsection \<open>The network\<close>

text \<open>
  What a call of \<open>recv\<close> finds: data (of which it takes at most what it asked for; no data means that
  the peer has closed the connection), or an error, of one of the two kinds that \<open>net_read\<close> tolerates
  or another. With nothing left it fails with \<open>EAGAIN\<close>.
\<close>

datatype rx_event = Chunk "u8 list" | NotConnected | RxError

type_synonym rx_script = "rx_event list"

datatype recv_result = RData "u8 list" | RNotConnected | RError

fun recv :: "rx_script \<Rightarrow> nat \<Rightarrow> recv_result \<times> rx_script" where
  "recv [] n = (RError, [])"
| "recv (Chunk bs # r) n = (RData (take n bs), if n < length bs then Chunk (drop n bs) # r else r)"
| "recv (NotConnected # r) n = (RNotConnected, r)"
| "recv (RxError # r) n = (RError, r)"

text \<open>
  The loop of \<open>net_read\<close>. \<open>acc\<close> are the bytes stored so far. A wait for more data happens once, when a
  timeout was given.
\<close>

function net_read_loop :: "rx_script \<Rightarrow> u8 list \<Rightarrow> int \<Rightarrow> int \<Rightarrow> int \<times> u8 list \<times> rx_script" where
  "net_read_loop s acc len timeout =
     (if int (length acc) < len then
        (case recv s (nat len - length acc) of
           (RError, s) \<Rightarrow> (- 1, acc, s)
         | (r, s) \<Rightarrow>
             (let acc = (case r of RData bs \<Rightarrow> acc @ bs | _ \<Rightarrow> acc) in
              if int (length acc) \<ge> len then (int (length acc), acc, s)
              else if timeout > 0 then net_read_loop s acc len 0
              else (int (length acc), acc, s)))
      else (int (length acc), acc, s))"
  by pat_completeness auto
termination by (relation "measure (\<lambda>(s, acc, len, timeout). if timeout > 0 then 1 else 0)") auto

declare net_read_loop.simps [simp del]

definition net_read :: "int \<Rightarrow> rx_script getfn" where
  "net_read timeout s len = Some (net_read_loop s [] len timeout)"

text \<open>\<open>decodePacket\<close> is the loop of \<open>MQTTPacket_decode\<close> with \<open>net_read\<close> as the character function.\<close>

definition decodePacket :: "rx_script \<Rightarrow> int \<Rightarrow> (int \<times> int \<times> rx_script) option" where
  "decodePacket s timeout = MQTTPacket_decode (net_read timeout) s"

subsection \<open>The client\<close>

text \<open>
  The part of the client that publishing uses: the pipe to the worker thread, \<open>pub_mutex\<close> by its
  presence, and the scripts of what \<open>rt_malloc\<close> (successful unless the script says otherwise) and
  \<open>rt_mutex_take\<close> return. \<open>blocked\<close> records that the calling thread waits in the pipe for the reader.
\<close>

record pub_side =
  isconnected :: bool
  isblocking :: int
  pub_mutex :: bool
  pub_pipe :: "rt_pipe_device option"
  mallocs :: "bool list"
  mutex_takes :: "int list"
  blocked :: bool

text \<open>
  A callback gets the message (as the output parameters of \<open>MQTTDeserialize_publish\<close> describe it), the
  read buffer the message lies in, the publishing side of the client and the state of the user.
\<close>

type_synonym 'u callback = "publish_out \<Rightarrow> u8 list \<times> pub_side \<times> 'u \<Rightarrow> (u8 list \<times> pub_side \<times> 'u) option"

type_synonym 'u event_callback = "pub_side \<times> 'u \<Rightarrow> (pub_side \<times> 'u) option"

record 'u message_handler =
  topicFilter :: "u8 list option"
  mh_callback :: "'u callback option"
  mh_qos :: int

record 'u MQTTClient =
  uri :: "u8 list"
  sock :: int
  next_packetid :: u32
  buf_size :: u32
  readbuf_size :: u32
  cbuf :: "u8 list"
  readbuf :: "u8 list"
  c_keepAlive :: u32
  condata :: MQTTPacket_connectData
  connect_timeout :: int
  reconnect_interval :: int
  tick_ping :: u32
  messageHandlers :: "'u message_handler list"
  defaultMessageHandler :: "'u callback option"
  connect_callback :: "'u event_callback option"
  online_callback :: "'u event_callback option"
  offline_callback :: "'u event_callback option"
  pub :: pub_side
  user :: 'u
  rx :: rx_script
  sends :: "int list"
  selects :: "(int \<times> bool \<times> bool) list"
  tx :: "u8 list list"

abbreviation connected :: "'u MQTTClient \<Rightarrow> bool" where
  "connected c \<equiv> isconnected (pub c)"

definition set_connected :: "bool \<Rightarrow> 'u MQTTClient \<Rightarrow> 'u MQTTClient" where
  "set_connected b c = c\<lparr>pub := (pub c)\<lparr>isconnected := b\<rparr>\<rparr>"

text \<open>\<open>select\<close>: its result and whether the socket and the pipe are in the set it leaves.\<close>

definition select :: "'u MQTTClient \<Rightarrow> (int \<times> bool \<times> bool) \<times> 'u MQTTClient" where
  "select c = (case selects c of [] \<Rightarrow> ((0, False, False), c) | r # rs \<Rightarrow> (r, c\<lparr>selects := rs\<rparr>))"

text \<open>\<open>send\<close> takes the whole packet unless the script says otherwise.\<close>

definition sendPacket :: "'u MQTTClient \<Rightarrow> int \<Rightarrow> (int \<times> 'u MQTTClient) option" where
  "sendPacket c len = do {
     bs \<leftarrow> mem_read (cbuf c) 0 (csize len);
     let rc = (case sends c of [] \<Rightarrow> len | r # rs \<Rightarrow> r);
     let c = c\<lparr>sends := tl (sends c), tx := (if rc > 0 then tx c @ [take (nat rc) bs] else tx c)\<rparr>;
     Some (if rc = len then 0 else - 1, c) }"

definition MQTTPacket_readPacket :: "'u MQTTClient \<Rightarrow> (int \<times> 'u MQTTClient) option" where
  "MQTTPacket_readPacket c = do {
     (rc, m, s) \<leftarrow> get_into (net_read 0) (rx c) (readbuf c) 0 1;
     if rc \<noteq> 1 then Some (- 1, c\<lparr>readbuf := m, rx := s\<rparr>)
     else do {
       (_, rem_len, s) \<leftarrow> decodePacket s 50;
       (m, n) \<leftarrow> MQTTPacket_encode (m, 1) rem_len;
       let len = 1 + n;
       (rc, m, s) \<leftarrow> (if rem_len > 0 then get_into (net_read 300) s m (nat len) rem_len else Some (rem_len, m, s));
       let c = c\<lparr>readbuf := m, rx := s\<rparr>;
       if rc \<noteq> rem_len then Some (- 1, c)
       else do {
         b \<leftarrow> mem_get m 0;
         Some (uint (h_type (byte_header b)), c) } } }"

abbreviation (input) "MAX_PACKET_ID \<equiv> 65535 :: u32"

definition getNextPacketId :: "'u MQTTClient \<Rightarrow> u32 \<times> 'u MQTTClient" where
  "getNextPacketId c =
     (let i = (if next_packetid c = MAX_PACKET_ID then 1 else next_packetid c + 1) in (i, c\<lparr>next_packetid := i\<rparr>))"

subsection \<open>Connecting\<close>

text \<open>
  \<open>mqtt_resolve_uri\<close>, up to the call of \<open>getaddrinfo\<close>: the host and port strings it is called with, or
  nothing when the address is refused before (without TLS, every scheme but \<open>tcp\<close> is). \<open>allocated\<close> is the success of \<open>rt_malloc\<close>.
\<close>

definition find_char :: "u8 \<Rightarrow> u8 list \<Rightarrow> nat option" where
  "find_char ch m =
     (let n = length (takeWhile (\<lambda>c. c \<noteq> ch \<and> c \<noteq> 0) m) in
      if n < length m \<and> m ! n = ch then Some n else None)"

definition copy_port :: "u8 list \<Rightarrow> nat \<Rightarrow> int \<Rightarrow> u8 list option" where
  "copy_port host_addr at port_len = do {
     bs \<leftarrow> mem_read (host_addr) at (nat port_len);
     Some (takeWhile (\<lambda>c. c \<noteq> 0) bs @ [0]) }"

definition mqtt_resolve_uri :: "bool \<Rightarrow> u8 list \<Rightarrow> (u8 list \<times> u8 list) option option" where
  "mqtt_resolve_uri allocated u = do {
     n \<leftarrow> c_strlen u;
     tcp \<leftarrow> c_strncmp u (lit ''tcp://'') 6;
     if tcp \<noteq> 0 then Some None
     else do {
       let host_addr = drop 6 u;
       b \<leftarrow> mem_get host_addr 0;
       let (host_addr, stop, skip) = (if b = 0x5B then (drop 1 host_addr, 0x5D, 2) else (host_addr, 0x3A, 1));
       case find_char stop host_addr of
         None \<Rightarrow> Some None
       | Some host_addr_len \<Rightarrow> do {
           let port_len = int n - 6 - int host_addr_len - (if skip = 2 then 3 else 1);
           if host_addr_len < 1 \<or> host_addr_len > n \<or> port_len \<ge> 6 \<or> port_len < 1 then Some None
           else do {
             port \<leftarrow> copy_port host_addr (host_addr_len + skip) port_len;
             if \<not> allocated then Some None
             else do {
               host \<leftarrow> mem_read host_addr 0 host_addr_len;
               Some (Some (host @ [0], port)) } } } } }"

text \<open>
  What the network answers to one attempt: \<open>getaddrinfo\<close> its code and whether an address came back,
  \<open>socket\<close> and \<open>connect\<close> their results.
\<close>

record net_env =
  ne_malloc :: bool
  ne_getaddrinfo :: "u8 list \<Rightarrow> u8 list \<Rightarrow> int \<times> bool"
  ne_socket :: int
  ne_connect :: int

definition net_connect :: "net_env \<Rightarrow> 'u MQTTClient \<Rightarrow> (int \<times> 'u MQTTClient) option" where
  "net_connect e c = do {
     let c = c\<lparr>sock := - 1, next_packetid := 0\<rparr>;
     r \<leftarrow> mqtt_resolve_uri (ne_malloc e) (uri c);
     case r of
       None \<Rightarrow> Some (- 1, c)
     | Some (host, port) \<Rightarrow>
         let (ret, addr_res) = ne_getaddrinfo e host port; rc = (if ret \<noteq> 0 then - 1 else 0) in
         if rc < 0 \<or> \<not> addr_res then Some (rc, c)
         else
           let c = c\<lparr>sock := ne_socket e\<rparr> in
           if sock c = - 1 then Some (rc, c)
           else if ne_connect e = - 1 then Some (- 2, c\<lparr>sock := - 1\<rparr>)
           else Some (ne_connect e, c) }"

definition net_disconnect :: "'u MQTTClient \<Rightarrow> 'u MQTTClient" where
  "net_disconnect c = (if sock c \<ge> 0 then c\<lparr>sock := - 1\<rparr> else c)"

text \<open>
  \<open>net_disconnect_exit\<close>: the buffers and the pipe are given back. The freed memory is not reused in
  this model; the pipe is gone for everybody.
\<close>

definition net_disconnect_exit :: "'u MQTTClient \<Rightarrow> 'u MQTTClient" where
  "net_disconnect_exit c =
     (let c = net_disconnect c;
          c = c\<lparr>pub := (pub c)\<lparr>pub_pipe := None\<rparr>\<rparr>;
          c = c\<lparr>messageHandlers := map (\<lambda>h. if topicFilter h \<noteq> None
                 then h\<lparr>topicFilter := None, mh_callback := None\<rparr> else h) (messageHandlers c)\<rparr> in
      set_connected False c)"

text \<open>\<open>out\<close> are the uninitialised variables \<open>sessionPresent\<close> and \<open>connack_rc\<close>.\<close>

definition MQTTConnect :: "u8 \<times> u8 \<Rightarrow> 'u MQTTClient \<Rightarrow> (int \<times> 'u MQTTClient) option" where
  "MQTTConnect out c =
     (if connected c then Some (- 1, c)
      else do {
        let c = c\<lparr>c_keepAlive := ucast (keepAliveInterval (condata c))\<rparr>;
        (len, m) \<leftarrow> MQTTSerialize_connect (cbuf c) (sint (buf_size c)) (condata c);
        let c = c\<lparr>cbuf := m\<rparr>;
        if len \<le> 0 then Some (- 1, c)
        else do {
          (rc, c) \<leftarrow> sendPacket c len;
          if rc \<noteq> 0 then Some (rc, c)
          else do {
            let ((res, _), c) = select c;
            if res \<le> 0 then Some (- 1, c)
            else do {
              (rc, c) \<leftarrow> MQTTPacket_readPacket c;
              if rc < 0 then Some (rc, c)
              else if rc = uint (msg_num CONNACK) then do {
                (r, _, connack_rc) \<leftarrow> MQTTDeserialize_connack out (readbuf c) (sint (readbuf_size c));
                let rc = (if r = 1 then uint connack_rc else - 1);
                Some (rc, if rc = 0 then set_connected True c else c) }
              else Some (- 1, c) } } } })"

definition MQTTDisconnect :: "'u MQTTClient \<Rightarrow> (int \<times> 'u MQTTClient) option" where
  "MQTTDisconnect c = do {
     (len, m) \<leftarrow> MQTTSerialize_disconnect (cbuf c) (sint (buf_size c));
     let c = c\<lparr>cbuf := m\<rparr>;
     (rc, c) \<leftarrow> (if len > 0 then sendPacket c len else Some (- 1, c));
     Some (rc, set_connected False c) }"

subsection \<open>Subscribing\<close>

definition cstring_topic :: "u8 list \<Rightarrow> MQTTString" where
  "cstring_topic s = MQTTString_initializer\<lparr>cstring := Some s\<rparr>"

text \<open>What a received SUBACK means: the first granted quality of service; \<open>rc\<close> stays when it cannot be read.\<close>

definition granted :: "u16 \<Rightarrow> int \<Rightarrow> 'u MQTTClient \<Rightarrow> int option" where
  "granted packetid rc c = do {
     (r, out) \<leftarrow> MQTTDeserialize_suback 1 \<lparr>s_packetid = packetid, s_count = 0, s_grantedQoSs = [- 1]\<rparr>
                  (readbuf c) (sint (readbuf_size c));
     rc \<leftarrow> (if r = 1 then mem_get (s_grantedQoSs out) 0 else Some rc);
     Some (if rc \<noteq> 0x80 then 0 else rc) }"

definition MQTTSubscribe :: "u16 \<Rightarrow> 'u MQTTClient \<Rightarrow> u8 list \<Rightarrow> int \<Rightarrow> (int \<times> 'u MQTTClient) option" where
  "MQTTSubscribe mypacketid c topic qos =
     (if \<not> connected c then Some (- 1, c)
      else do {
        let (i, c) = getNextPacketId c;
        (len, m) \<leftarrow> MQTTSerialize_subscribe (cbuf c) (sint (buf_size c)) 0 (ucast i) 1 [cstring_topic topic] [qos];
        let c = c\<lparr>cbuf := m\<rparr>;
        if len \<le> 0 then Some (- 1, c)
        else do {
          (rc, c) \<leftarrow> sendPacket c len;
          if rc \<noteq> 0 then Some (rc, c)
          else do {
            let ((res, _), c) = select c;
            if res \<le> 0 then Some (- 1, c)
            else do {
              (rc, c) \<leftarrow> MQTTPacket_readPacket c;
              if rc < 0 then Some (rc, c)
              else if rc = uint (msg_num SUBACK) then do {
                rc \<leftarrow> granted mypacketid rc c;
                Some (rc, c) }
              else Some (- 1, c) } } } })"

subsection \<open>Receiving\<close>

text \<open>
  \<open>isTopicMatched\<close>: the filter from \<open>curf\<close> on, with its terminator, and the topic name from \<open>curn\<close> to
  its end.
\<close>

abbreviation (input) "SLASH_SIGN \<equiv> 0x2F :: u8"
abbreviation (input) "PLUS_SIGN \<equiv> 0x2B :: u8"
abbreviation (input) "HASH_SIGN \<equiv> 0x23 :: u8"

fun isTopicMatched_loop :: "u8 list \<Rightarrow> u8 list \<Rightarrow> bool option" where
  "isTopicMatched_loop [] n = None"
| "isTopicMatched_loop (x # f) [] = Some (x = 0)"
| "isTopicMatched_loop (x # f) (y # n) =
     (if x = 0 then Some False
      else if y = SLASH_SIGN \<and> x \<noteq> SLASH_SIGN then Some False
      else if x \<noteq> PLUS_SIGN \<and> x \<noteq> HASH_SIGN \<and> x \<noteq> y then Some False
      else if x = PLUS_SIGN then isTopicMatched_loop f (dropWhile (\<lambda>c. c \<noteq> SLASH_SIGN) n)
      else if x = HASH_SIGN then isTopicMatched_loop f []
      else isTopicMatched_loop f n)"

definition isTopicMatched :: "u8 list \<Rightarrow> MQTTString \<Rightarrow> bool option" where
  "isTopicMatched filter_str topicName =
     (if ls_len topicName = 0 then isTopicMatched_loop filter_str []
      else do {
        d \<leftarrow> ls_data topicName;
        n \<leftarrow> mem_read d 0 (nat (ls_len topicName));
        isTopicMatched_loop filter_str n })"

text \<open>
  \<open>deliverMessage\<close>. A callback whose publication waits for the pipe never comes back: it runs in the thread
  that empties the pipe.
\<close>

fun deliver_loop ::
    "publish_out \<Rightarrow> 'u message_handler list \<Rightarrow> int \<Rightarrow> u8 list \<times> pub_side \<times> 'u \<Rightarrow> (int \<times> u8 list \<times> pub_side \<times> 'u) option" where
  "deliver_loop msg [] rc st = Some (rc, st)"
| "deliver_loop msg (h # hs) rc st = do {
     hit \<leftarrow> (case topicFilter h of
        None \<Rightarrow> Some False
      | Some f \<Rightarrow> do {
          eq \<leftarrow> MQTTPacket_equals (p_topicName msg) f;
          if eq then Some True else isTopicMatched f (p_topicName msg) });
     case mh_callback h of
       Some cb \<Rightarrow>
         if hit then do {
           st \<leftarrow> cb msg st;
           if blocked (fst (snd st)) then Some (0, st) else deliver_loop msg hs 0 st }
         else deliver_loop msg hs rc st
     | None \<Rightarrow> deliver_loop msg hs rc st }"

definition deliverMessage :: "publish_out \<Rightarrow> 'u MQTTClient \<Rightarrow> (int \<times> 'u MQTTClient) option" where
  "deliverMessage msg c = do {
     (rc, st) \<leftarrow> deliver_loop msg (messageHandlers c) (- 1) (readbuf c, pub c, user c);
     (rc, m, p, u) \<leftarrow> (case defaultMessageHandler c of
        Some cb \<Rightarrow> if rc = - 1 then do { st \<leftarrow> cb msg st; Some (0, st) } else Some (rc, st)
      | None \<Rightarrow> Some (rc, st));
     Some (rc, c\<lparr>readbuf := m, pub := p, user := u\<rparr>) }"

text \<open>The uninitialised variables of \<open>MQTT_cycle\<close> and the time.\<close>

record cycle_env =
  ce_msg :: publish_out
  ce_packetid :: u16
  ce_ack :: ack_out
  ce_tick :: u32

definition send_ack :: "msgTypes \<Rightarrow> u16 \<Rightarrow> 'u MQTTClient \<Rightarrow> (int \<times> 'u MQTTClient) option" where
  "send_ack t packetid c = do {
     (len, m) \<leftarrow> MQTTSerialize_ack (cbuf c) (sint (buf_size c)) (ucast (msg_num t)) 0 packetid;
     let c = c\<lparr>cbuf := m\<rparr>;
     if len \<le> 0 then Some (- 1, c) else sendPacket c len }"

definition cycle_publish :: "cycle_env \<Rightarrow> 'u MQTTClient \<Rightarrow> (int \<times> 'u MQTTClient) option" where
  "cycle_publish e c = do {
     (r, msg) \<leftarrow> MQTTDeserialize_publish (ce_msg e) (readbuf c) (sint (readbuf_size c));
     if r \<noteq> 1 then Some (0, c)
     else do {
       (_, c) \<leftarrow> deliverMessage msg c;
       if blocked (pub c) then Some (0, c)
       else if p_qos msg = 0 then Some (0, c)
       else if p_qos msg = 1 then send_ack PUBACK (p_packetid msg) c
       else if p_qos msg = 2 then send_ack PUBREC (p_packetid msg) c
       else Some (- 1, c) } }"

definition cycle_pubrec :: "cycle_env \<Rightarrow> 'u MQTTClient \<Rightarrow> (int \<times> 'u MQTTClient) option" where
  "cycle_pubrec e c = do {
     (r, ack) \<leftarrow> MQTTDeserialize_ack (ce_ack e) (readbuf c) (sint (readbuf_size c));
     if r \<noteq> 1 then Some (- 1, c) else send_ack PUBREL (a_packetid ack) c }"

definition MQTT_cycle :: "cycle_env \<Rightarrow> 'u MQTTClient \<Rightarrow> (int \<times> 'u MQTTClient) option" where
  "MQTT_cycle e c = do {
     (packet_type, c) \<leftarrow> MQTTPacket_readPacket c;
     if packet_type = - 1 then Some (- 1, c)
     else if packet_type = uint (msg_num CONNACK) \<or> packet_type = uint (msg_num PUBACK) \<or>
             packet_type = uint (msg_num SUBACK)
     then do { rc \<leftarrow> granted (ce_packetid e) 0 c; Some (rc, c) }
     else if packet_type = uint (msg_num UNSUBACK) then do {
       (r, _) \<leftarrow> MQTTDeserialize_unsuback (ce_packetid e) (readbuf c) (sint (readbuf_size c));
       Some (if r = 1 then 0 else - 1, c) }
     else if packet_type = uint (msg_num PUBLISH) then cycle_publish e c
     else if packet_type = uint (msg_num PUBREC) then cycle_pubrec e c
     else if packet_type = uint (msg_num PINGRESP) then Some (0, c\<lparr>tick_ping := ce_tick e\<rparr>)
     else Some (0, c) }"

subsection \<open>Publishing\<close>

text \<open>\<open>struct MQTTMessage\<close>, 16 bytes; the pointer it contains is a number that nobody uses.\<close>

record MQTTMessage =
  m_qos :: u32
  m_retained :: u8
  m_dup :: u8
  m_id :: u16
  m_payload :: u32
  m_payloadlen :: u32

definition message_bytes :: "MQTTMessage \<Rightarrow> u8 list" where
  "message_bytes m = word_bytes (m_qos m) @ [m_retained m, m_dup m] @ half_bytes (m_id m) @
     word_bytes (m_payload m) @ word_bytes (m_payloadlen m)"

definition bytes_message :: "u8 list \<Rightarrow> MQTTMessage" where
  "bytes_message bs = \<lparr>m_qos = bytes_word bs, m_retained = bs ! 4, m_dup = bs ! 5, m_id = bytes_half (drop 6 bs),
     m_payload = bytes_word (drop 8 bs), m_payloadlen = bytes_word (drop 12 bs)\<rparr>"

definition alloc :: "pub_side \<Rightarrow> bool \<times> pub_side" where
  "alloc p = (case mallocs p of [] \<Rightarrow> (True, p) | b # bs \<Rightarrow> (b, p\<lparr>mallocs := bs\<rparr>))"

text \<open>A write to a descriptor that is closed fails.\<close>

definition MQTT_local_send :: "pub_side \<Rightarrow> u8 list \<Rightarrow> int \<Rightarrow> (int \<times> pub_side) option" where
  "MQTT_local_send p data len =
     (case pub_pipe p of
        None \<Rightarrow> Some (- 1, p)
      | Some pipe \<Rightarrow> do {
          (r, pipe) \<leftarrow> pipe_fops_write O_WRONLY pipe data (word_of_int len);
          let p = p\<lparr>pub_pipe := Some pipe\<rparr>;
          Some (case r of Returned n \<Rightarrow> (if n < 0 then - 1 else n, p) | Waiting _ \<Rightarrow> (- 1, p\<lparr>blocked := True\<rparr>)) })"

definition MQTT_CMD :: "pub_side \<Rightarrow> u8 list \<Rightarrow> (int \<times> pub_side) option" where
  "MQTT_CMD p cmd =
     (if \<not> isconnected p then Some (- 1, p)
      else do {
        n \<leftarrow> c_strlen cmd;
        let cmd_len = n + 1;
        if cmd_len \<ge> 16 then Some (- 1, p)
        else
          let (ok, p) = alloc p in
          if \<not> ok then Some (- 1, p)
          else do {
            (len, p) \<leftarrow> MQTT_local_send p (take cmd_len cmd) (int cmd_len);
            Some (if len = int cmd_len then 0 else - 1, p) } })"

text \<open>
  \<open>payload\<close> is the memory \<open>message->payload\<close> points to. An allocation of 2 GB or more, whose size is no
  \<open>int\<close>, has no result.
\<close>

definition MQTTPublish :: "pub_side \<Rightarrow> u8 list \<Rightarrow> MQTTMessage \<Rightarrow> u8 list \<Rightarrow> (int \<times> pub_side) option" where
  "MQTTPublish p topicName message payload =
     (if \<not> isconnected p then Some (- 1, p)
      else do {
        topic \<leftarrow> c_str topicName;
        let msg_len = 16 + unat (m_payloadlen message) + length topic + 1;
        let (ok, p) = alloc p;
        if \<not> ok then Some (- 1, p)
        else if msg_len \<ge> 2 ^ 31 then None
        else do {
          body \<leftarrow> mem_read payload 0 (unat (m_payloadlen message));
          (len, p) \<leftarrow> MQTT_local_send p (message_bytes message @ body @ topic @ [0]) (int msg_len);
          if blocked p then Some (- 1, p)
          else
            let rc = (if len = int msg_len then 0 else - 1) in
            Some (if isblocking p \<noteq> 0 \<and> pub_mutex p
                  then (if hd (mutex_takes p @ [0]) < 0 then - 1 else rc, p\<lparr>mutex_takes := tl (mutex_takes p)\<rparr>)
                  else (rc, p)) } })"

definition paho_mqtt_publish ::
    "pub_side \<Rightarrow> MQTTMessage \<Rightarrow> int \<Rightarrow> u8 list \<Rightarrow> u8 list \<Rightarrow> (int \<times> pub_side) option" where
  "paho_mqtt_publish p junk qos topic msg_str =
     (if qos \<noteq> 1 then Some (- 1, p)
      else do {
        n \<leftarrow> rt_strlen msg_str;
        MQTTPublish p topic (junk\<lparr>m_qos := word_of_int qos, m_retained := 0, m_payloadlen := of_nat n\<rparr>) msg_str })"

definition paho_mqtt_stop :: "pub_side \<Rightarrow> (int \<times> pub_side) option" where
  "paho_mqtt_stop p = MQTT_CMD p (lit ''DISCONNECT'')"

subsection \<open>Changing subscriptions and settings\<close>

text \<open>
  \<open>paho_mqtt_subscribe\<close> and \<open>paho_mqtt_unsubscribe\<close> run in the caller's thread. The loops over the handlers are
  one search each: \<open>same_topic\<close> is the comparison with \<open>rt_strncmp\<close> over the length of the topic, a prefix test.
  \<open>dup\<close> is what \<open>rt_strdup\<close> returns.
\<close>

definition same_topic :: "'u message_handler \<Rightarrow> u8 list \<Rightarrow> bool option" where
  "same_topic h topic =
     (case topicFilter h of
        None \<Rightarrow> Some False
      | Some f \<Rightarrow> do { n \<leftarrow> rt_strlen topic; r \<leftarrow> rt_strncmp f topic n; Some (r = 0) })"

fun find_topic :: "'u message_handler list \<Rightarrow> u8 list \<Rightarrow> nat \<Rightarrow> nat option option" where
  "find_topic [] topic i = Some None"
| "find_topic (h # hs) topic i = do {
     b \<leftarrow> same_topic h topic;
     if b then Some (Some i) else find_topic hs topic (Suc i) }"

fun find_free :: "'u message_handler list \<Rightarrow> nat \<Rightarrow> nat option" where
  "find_free [] i = None"
| "find_free (h # hs) i = (if topicFilter h = None then Some i else find_free hs (Suc i))"

definition paho_mqtt_subscribe ::
    "u8 list option \<Rightarrow> int \<Rightarrow> u8 list \<Rightarrow> 'u callback option \<Rightarrow> 'u MQTTClient \<Rightarrow> (int \<times> 'u MQTTClient) option" where
  "paho_mqtt_subscribe dup qos topic cb c =
     (if qos \<noteq> 1 then Some (- 1, c)
      else do {
        old \<leftarrow> find_topic (messageHandlers c) topic 0;
        case old of
          Some _ \<Rightarrow> Some (0, c)
        | None \<Rightarrow>
            (case find_free (messageHandlers c) 0 of
               None \<Rightarrow> Some (- 1, c)
             | Some i \<Rightarrow> do {
                 let (pid, c) = getNextPacketId c;
                 (len, m) \<leftarrow> MQTTSerialize_subscribe (cbuf c) (sint (buf_size c)) 0 (ucast pid) 1 [cstring_topic topic] [qos];
                 let c = c\<lparr>cbuf := m\<rparr>;
                 if len \<le> 0 then Some (0, set_connected False c)
                 else do {
                   (rc, c) \<leftarrow> sendPacket c len;
                   if rc \<noteq> 0 then Some (rc, set_connected False c)
                   else
                     let h = messageHandlers c ! i;
                         h = h\<lparr>mh_qos := qos, topicFilter := dup\<rparr>;
                         h = (if cb \<noteq> None then h\<lparr>mh_callback := cb\<rparr> else h) in
                     Some (rc, c\<lparr>messageHandlers := (messageHandlers c)[i := h]\<rparr>) } }) })"

definition paho_mqtt_unsubscribe :: "u8 list \<Rightarrow> 'u MQTTClient \<Rightarrow> (int \<times> 'u MQTTClient) option" where
  "paho_mqtt_unsubscribe topic c = do {
     old \<leftarrow> find_topic (messageHandlers c) topic 0;
     case old of
       None \<Rightarrow> Some (- 1, c)
     | Some i \<Rightarrow> do {
         let (pid, c) = getNextPacketId c;
         (len, m) \<leftarrow> MQTTSerialize_unsubscribe (cbuf c) (sint (buf_size c)) 0 (ucast pid) 1 [cstring_topic topic];
         let c = c\<lparr>cbuf := m\<rparr>;
         if len \<le> 0 then Some (0, set_connected False c)
         else do {
           (rc, c) \<leftarrow> sendPacket c len;
           if rc \<noteq> 0 then Some (rc, set_connected False c)
           else
             let h = (messageHandlers c ! i)\<lparr>topicFilter := None, mh_callback := None\<rparr> in
             Some (rc, c\<lparr>messageHandlers := (messageHandlers c)[i := h]\<rparr>) } } }"

datatype mqttControl = MQTT_CTRL_SET_CONN_TIMEO | MQTT_CTRL_SET_RECONN_INTERVAL | MQTT_CTRL_SET_KEEPALIVE_INTERVAL
  | MQTT_CTRL_PUBLISH_BLOCK | MQTT_CTRL_OTHER

definition paho_mqtt_control :: "mqttControl \<Rightarrow> u32 \<Rightarrow> 'u MQTTClient \<Rightarrow> int \<times> 'u MQTTClient" where
  "paho_mqtt_control cmd arg c =
     (case cmd of
        MQTT_CTRL_SET_CONN_TIMEO \<Rightarrow> (0, c\<lparr>connect_timeout := sint arg\<rparr>)
      | MQTT_CTRL_SET_RECONN_INTERVAL \<Rightarrow> (0, c\<lparr>reconnect_interval := sint arg\<rparr>)
      | MQTT_CTRL_SET_KEEPALIVE_INTERVAL \<Rightarrow> (0, c\<lparr>c_keepAlive := arg\<rparr>)
      | MQTT_CTRL_PUBLISH_BLOCK \<Rightarrow> (0, c\<lparr>pub := (pub c)\<lparr>isblocking := sint arg\<rparr>\<rparr>)
      | MQTT_CTRL_OTHER \<Rightarrow> (0, c))"

subsection \<open>The worker thread\<close>

text \<open>
  The labels of \<open>paho_mqtt_thread\<close>, and \<open>MStuck\<close> for the thread waiting in its own pipe. A step runs from one
  label to the next, in the loop one iteration.
\<close>

datatype mpoint = MCreate | MStart | MLoop | MDisconnect | MRestart | MDisconnectExit | MExit | MStuck

definition event :: "'u event_callback option \<Rightarrow> 'u MQTTClient \<Rightarrow> 'u MQTTClient option" where
  "event cb c = (case cb of
      None \<Rightarrow> Some c
    | Some f \<Rightarrow> do { (p, u) \<leftarrow> f (pub c, user c); Some (c\<lparr>pub := p, user := u\<rparr>) })"

text \<open>
  \<open>mqtt_pipe_init\<close>: creating the pipe and opening both ends. \<open>opens\<close> says which descriptors could be had; a
  failure leaves the pipe behind.
\<close>

definition mqtt_pipe_init ::
    "bool \<Rightarrow> rt_ringbuffer option \<Rightarrow> u8 list option \<Rightarrow> bool \<times> bool \<Rightarrow> rt_pipe_device option option" where
  "mqtt_pipe_init created rb pool opens = do {
     dev \<leftarrow> rt_pipe_create created created 512;
     case dev of
       None \<Rightarrow> Some None
     | Some pipe \<Rightarrow> do {
         (r0, pipe) \<leftarrow> pipe_fops_open rb pool O_RDONLY pipe;
         if r0 \<noteq> 0 \<or> \<not> fst opens then Some None
         else do {
           (r1, pipe) \<leftarrow> pipe_fops_open rb pool O_WRONLY pipe;
           Some (if r1 \<noteq> 0 \<or> \<not> snd opens then None else Some pipe) } } }"

fun subscribe_all :: "u16 \<Rightarrow> 'u message_handler list \<Rightarrow> 'u MQTTClient \<Rightarrow> (int \<times> 'u MQTTClient) option" where
  "subscribe_all pid [] c = Some (0, c)"
| "subscribe_all pid (h # hs) c =
     (case topicFilter h of
        None \<Rightarrow> subscribe_all pid hs c
      | Some topic \<Rightarrow> do {
          (rc, c) \<leftarrow> MQTTSubscribe pid c topic (mh_qos h);
          if rc \<noteq> 0 then Some (rc, c) else subscribe_all pid hs c })"

record thread_env = cycle_env +
  te_net :: net_env
  te_connack :: "u8 \<times> u8"
  te_pipe :: "bool \<times> rt_ringbuffer option \<times> u8 list option \<times> bool \<times> bool"

text \<open>
  \<open>te_pipe\<close> are the arguments of \<open>mqtt_pipe_init\<close>. From \<open>_mqtt_start\<close> to the loop: first the part behind a successful MQTT connection.
\<close>

definition thread_online :: "thread_env \<Rightarrow> 'u MQTTClient \<Rightarrow> (mpoint \<times> 'u MQTTClient) option" where
  "thread_online e c = do {
     (rc, c) \<leftarrow> subscribe_all (ce_packetid e) (messageHandlers c) c;
     if rc \<noteq> 0 then Some (MDisconnect, c)
     else do {
       c \<leftarrow> event (online_callback c) c;
       if blocked (pub c) then Some (MStuck, c)
       else Some (MLoop, c\<lparr>tick_ping := ce_tick e\<rparr>) } }"

definition thread_start :: "thread_env \<Rightarrow> 'u MQTTClient \<Rightarrow> (mpoint \<times> 'u MQTTClient) option" where
  "thread_start e c = do {
     c \<leftarrow> event (connect_callback c) c;
     if blocked (pub c) then Some (MStuck, c)
     else do {
       (rc, c) \<leftarrow> net_connect (te_net e) c;
       if rc \<noteq> 0 then Some (MRestart, c)
       else do {
         (rc, c) \<leftarrow> MQTTConnect (te_connack e) c;
         if rc \<noteq> 0 then Some (MRestart, c) else thread_online e c } } }"

text \<open>The time until the next ping, in seconds.\<close>

definition ping_timeout :: "u32 \<Rightarrow> u32 \<Rightarrow> u32 \<Rightarrow> int" where
  "ping_timeout tick_now tick keepAlive =
     (if (tick_now - tick) div 1000 > keepAlive - 5 then 1
      else sint (keepAlive - 10 - (tick_now - tick) div 1000))"

text \<open>
  The branch of the loop that sends a message from the pipe. Releasing \<open>pub_mutex\<close> afterwards is not
  modelled, since what the other side gets from \<open>rt_mutex_take\<close> is a script.
\<close>

definition thread_publish :: "'u MQTTClient \<Rightarrow> (mpoint \<times> 'u MQTTClient) option" where
  "thread_publish c =
     (case pub_pipe (pub c) of
        None \<Rightarrow> None
      | Some pipe \<Rightarrow> do {
          (r, m, pipe) \<leftarrow> pipe_fops_read O_RDONLY pipe (readbuf c) (readbuf_size c);
          let c = c\<lparr>readbuf := m, pub := (pub c)\<lparr>pub_pipe := Some pipe\<rparr>\<rparr>;
          case r of
            Waiting _ \<Rightarrow> Some (MStuck, c\<lparr>pub := (pub c)\<lparr>blocked := True\<rparr>\<rparr>)
          | Returned len \<Rightarrow>
              if 0 \<le> len \<and> len < 16 then do {
                m \<leftarrow> mem_set (readbuf c) (nat len) 0;
                let c = c\<lparr>readbuf := m\<rparr>;
                d \<leftarrow> c_strcmp m (lit ''DISCONNECT'');
                Some (if d = 0 then MDisconnectExit else MLoop, c) }
              else do {
                hdr \<leftarrow> mem_read (readbuf c) 0 16;
                let message = bytes_message hdr;
                rest \<leftarrow> mem_read (readbuf c) 16 (length (readbuf c) - 16);
                let topic = cstring_topic (drop (unat (m_payloadlen message)) rest);
                (len, m) \<leftarrow> MQTTSerialize_publish (cbuf c) (sint (buf_size c)) 0 (sint (m_qos message)) (m_retained message)
                   (m_id message) topic rest (sint (m_payloadlen message));
                let c = c\<lparr>cbuf := m\<rparr>;
                if len \<le> 0 then Some (MDisconnect, c)
                else do {
                  (rc, c) \<leftarrow> sendPacket c len;
                  Some (if rc \<noteq> 0 then MDisconnect else MLoop, c) } } })"

definition thread_loop :: "thread_env \<Rightarrow> 'u MQTTClient \<Rightarrow> (mpoint \<times> 'u MQTTClient) option" where
  "thread_loop e c = do {
     let ((res, on_sock, on_pipe), c) = select c;
     (next, on_sock, on_pipe, c) \<leftarrow> (if res = 0 then do {
          (len, m) \<leftarrow> MQTTSerialize_pingreq (cbuf c) (sint (buf_size c));
          let c = c\<lparr>cbuf := m\<rparr>;
          (rc, c) \<leftarrow> sendPacket c len;
          if rc \<noteq> 0 then Some (MDisconnect, False, False, c)
          else
            let ((res, on_sock, _), c) = select c in
            Some (if res \<le> 0 then MDisconnect else MLoop, on_sock, False, c) }
        else Some (if res < 0 then MDisconnect else MLoop, on_sock, on_pipe, c));
     if next = MDisconnect then Some (MDisconnect, c)
     else if on_sock then do {
       (rc_t, c) \<leftarrow> MQTT_cycle (cycle_env.truncate e) c;
       Some (if blocked (pub c) then MStuck else if rc_t < 0 then MDisconnect else MLoop, c) }
     else if on_pipe then thread_publish c
     else Some (MLoop, c) }"

definition thread_step :: "thread_env \<Rightarrow> mpoint \<Rightarrow> 'u MQTTClient \<Rightarrow> (mpoint \<times> 'u MQTTClient) option" where
  "thread_step e pt c =
     (case pt of
        MCreate \<Rightarrow> (case te_pipe e of (created, rb, pool, opens) \<Rightarrow> do {
          pipe \<leftarrow> mqtt_pipe_init created rb pool opens;
          Some (if pipe = None then (MExit, c) else (MStart, c\<lparr>pub := (pub c)\<lparr>pub_pipe := pipe\<rparr>\<rparr>)) })
      | MStart \<Rightarrow> thread_start e c
      | MLoop \<Rightarrow> thread_loop e c
      | MDisconnect \<Rightarrow> do { (_, c) \<leftarrow> MQTTDisconnect c; Some (MRestart, c) }
      | MRestart \<Rightarrow> do { c \<leftarrow> event (offline_callback c) c;
                        Some (if blocked (pub c) then (MStuck, c) else (MStart, net_disconnect c)) }
      | MDisconnectExit \<Rightarrow> do { (_, c) \<leftarrow> MQTTDisconnect c; Some (MExit, net_disconnect_exit c) }
      | MExit \<Rightarrow> Some (MExit, c)
      | MStuck \<Rightarrow> Some (MStuck, c))"

end
