(* ===== verification/MqttReceive.thy ===== *)
theory MqttReceive
  imports MqttClient
begin

text \<open>
  What the receiving side of the MQTT client does: reading a packet from the socket, matching a topic
  against a filter, and handling one packet.
\<close>

subsection \<open>Reading a packet\<close>

text \<open>The socket as a byte source: the bytes of the first chunk, before the events \<open>r\<close>.\<close>

definition net_gives :: "rx_script \<Rightarrow> rx_script \<Rightarrow> u8 list \<Rightarrow> bool" where
  "net_gives r s bs \<longleftrightarrow> s = (if bs = [] then r else Chunk bs # r)"

lemma net_read_block:
  assumes "net_gives r s (bs @ x)"
  shows "\<exists>s'. net_read t s (int (length bs)) = Some (int (length bs), bs, s') \<and> net_gives r s' x"
  using assms
  by (cases "bs = []") (simp_all add: net_read_def net_gives_def net_read_loop.simps [of _ "[]"] Let_def)

interpretation net: byte_source "net_read t" "net_gives r" for t r
proof
  fix s b x
  assume "net_gives r s (b # x)"
  then show "\<exists>s'. net_read t s 1 = Some (1, [b], s') \<and> net_gives r s' x"
    using net_read_block [of r s "[b]" x t] by simp
next
  fix s bs x
  assume "net_gives r s (bs @ x)"
  then show "\<exists>s'. net_read t s (int (length bs)) = Some (int (length bs), bs, s') \<and> net_gives r s' x"
    by (rule net_read_block)
qed

lemma net_gives_state: "net_gives r s x \<longleftrightarrow> s = (if x = [] then r else Chunk x # r)"
  by (simp add: net_gives_def)

lemma readPacket_gives:
  assumes g: "net_gives r (rx c) (mqtt_packet h body @ x)" and small: "length body < 268435456"
  shows "MQTTPacket_readPacket c = do {
      m \<leftarrow> mem_write (readbuf c) 0 (mqtt_packet h body);
      Some (uint (h_type h), c\<lparr>readbuf := m, rx := (if x = [] then r else Chunk x # r)\<rparr>) }"
proof -
  let ?n = "length body" and ?e = "enc_bytes (length body)"
  have "net_gives r (rx c) (header_byte h # ?e @ body @ x)" using g by (simp add: mqtt_packet_def)
  from net.get_char [OF this] obtain s1 where
    s1: "net_read 0 (rx c) 1 = Some (1, [header_byte h], s1)" "net_gives r s1 (?e @ body @ x)" by blast
  from net.decode [OF s1(2) small] obtain s2 where
    s2: "decodePacket s1 50 = Some (int (length ?e), int ?n, s2)" "net_gives r s2 (body @ x)"
    unfolding decodePacket_def by blast
  from net.get_block [OF s2(2)] obtain s3 where
    s3: "net_read 300 s2 (int ?n) = Some (int ?n, body, s3)" "net_gives r s3 x" by blast
  have empty: "body = [] \<Longrightarrow> s3 = s2" using s2(2) s3(2) by (simp add: net_gives_def)
  have w: "mem_write (readbuf c) 0 (mqtt_packet h body) = do {
      m \<leftarrow> mem_write (readbuf c) 0 [header_byte h];
      m \<leftarrow> mem_write m 1 ?e;
      mem_write m (1 + length ?e) body }"
    using mem_write_append [of "readbuf c" 0 "[header_byte h]" "?e @ body"]
      mem_write_append [of _ "1" ?e body] by (simp add: mqtt_packet_def)
  have read: "(if int ?n > 0 then get_into (net_read 300) s2 m (nat (1 + int (length ?e))) (int ?n) else Some (int ?n, m, s2)) =
      do { m \<leftarrow> mem_write m (1 + length ?e) body; Some (int ?n, m, s3) }" if "1 + length ?e \<le> length m" for m
    using s3(1) empty that by (cases "body = []") (simp_all add: get_into_def nat_add_distrib)
  show ?thesis
  proof (cases "mem_write (readbuf c) 0 [header_byte h]")
    case None
    then show ?thesis by (simp add: MQTTPacket_readPacket_def get_into_def s1(1) w)
  next
    case (Some m1)
    show ?thesis
    proof (cases "mem_write m1 1 ?e")
      case None
      then show ?thesis using Some s1(1) s2(1) by (simp add: MQTTPacket_readPacket_def get_into_def w MQTTPacket_encode_eq)
    next
      case m2: (Some m2)
      then have l: "1 + length ?e \<le> length m2" by (auto simp: mem_write_def split: if_splits)
      have "mem_get m3 0 = Some (header_byte h)" if "mem_write m2 (1 + length ?e) body = Some m3" for m3
      proof -
        have "mem_write (readbuf c) 0 (mqtt_packet h body) = Some m3" unfolding w using that Some m2 by simp
        then show ?thesis by (auto simp: mem_write_def overwrite_def mqtt_packet_def mem_get_def split: if_splits)
      qed
      then show ?thesis
        unfolding MQTTPacket_readPacket_def get_into_def [of "net_read 0"] s1(1) w
        using Some m2 s2(1) s3(2) read [OF l]
        by (cases "mem_write m2 (1 + length ?e) body") (simp_all add: MQTTPacket_encode_eq net_gives_state Let_def)
    qed
  qed
qed

text \<open>
  C32. \<open>MQTTPacket_readPacket\<close> on a packet that has arrived in full, with whatever arrived behind it: the type
  of the packet is returned, exactly the packet is in the read buffer and exactly the packet is taken
  from the socket, provided the buffer is large enough. There is no check that it is: a packet longer
  than the buffer is written past its end (no result).
\<close>

theorem readPacket_whole:
  assumes "rx c = Chunk (mqtt_packet h body @ x) # r" and "length body < 268435456"
  shows "MQTTPacket_readPacket c =
    (if length (mqtt_packet h body) \<le> length (readbuf c)
     then Some (uint (h_type h), c\<lparr>readbuf := mqtt_packet h body @ drop (length (mqtt_packet h body)) (readbuf c),
                                rx := (if x = [] then r else Chunk x # r)\<rparr>)
     else None)"
  using readPacket_gives [of r c h body x] assms
  by (simp add: net_gives_def mem_write_def overwrite_def del: length_mqtt_packet)

definition pub0 :: pub_side where
  "pub0 = \<lparr>isconnected = False, isblocking = 0, pub_mutex = True, pub_pipe = None, mallocs = [], mutex_takes = [], blocked = False\<rparr>"

definition client0 :: "nat \<Rightarrow> 'u \<Rightarrow> 'u MQTTClient" where
  "client0 n u = \<lparr>uri = lit ''tcp://h:1'', sock = 0, next_packetid = 0, buf_size = of_nat n, readbuf_size = of_nat n,
     cbuf = replicate n 0, readbuf = replicate n 0, c_keepAlive = 0, condata = MQTTPacket_connectData_initializer,
     connect_timeout = 0, reconnect_interval = 0, tick_ping = 0, messageHandlers = [\<lparr>topicFilter = None, mh_callback = None, mh_qos = 0\<rparr>],
     defaultMessageHandler = None, connect_callback = None, online_callback = None, offline_callback = None,
     pub = pub0, user = u, rx = [], sends = [], selects = [], tx = []\<rparr>"

theorem readPacket_whole_witness:
  "MQTTPacket_readPacket ((client0 8 ())\<lparr>rx := [Chunk (mqtt_packet (ack_header 4 0) [0, 7] @ [0xD0])]\<rparr>) =
    (if length (mqtt_packet (ack_header 4 0) [0, 7]) \<le> length (readbuf ((client0 8 ())\<lparr>rx := [Chunk (mqtt_packet (ack_header 4 0) [0, 7] @ [0xD0])]\<rparr>))
     then Some (uint (h_type (ack_header 4 0)), ((client0 8 ())\<lparr>rx := [Chunk (mqtt_packet (ack_header 4 0) [0, 7] @ [0xD0])]\<rparr>)
       \<lparr>readbuf := mqtt_packet (ack_header 4 0) [0, 7] @ drop (length (mqtt_packet (ack_header 4 0) [0, 7]))
          (readbuf ((client0 8 ())\<lparr>rx := [Chunk (mqtt_packet (ack_header 4 0) [0, 7] @ [0xD0])]\<rparr>)),
        rx := (if [0xD0 :: u8] = [] then [] else [Chunk [0xD0]])\<rparr>)
     else None)"
  by (rule readPacket_whole) simp_all

text \<open>
  A packet whose first byte arrives on its own is lost: the result of \<open>decodePacket\<close> is not looked at, so
  the byte counts as a complete packet with nothing behind it, and the next call takes the length byte
  for the type of a packet.
\<close>

lemma readPacket_split_header:
  assumes "rx c = Chunk [b] # RxError # r" and "2 \<le> length (readbuf c)"
  shows "MQTTPacket_readPacket c =
    Some (uint (h_type (byte_header b)), c\<lparr>readbuf := [b, 0] @ drop 2 (readbuf c), rx := r\<rparr>)"
proof -
  have r: "net_read 0 (rx c) 1 = Some (1, [b], RxError # r)"
    using assms(1) by (simp add: net_read_def net_read_loop.simps)
  have d: "decodePacket (RxError # r) 50 = Some (1, 0, r)"
    by (simp add: decodePacket_def MQTTPacket_decode_def MQTTPacket_decode_loop.simps net_read_def net_read_loop.simps)
  have e: "MQTTPacket_encode (m, p) 0 = do { m \<leftarrow> mem_write m p [0]; Some (m, 1) }" for m p
    using MQTTPacket_encode_eq [of m p 0] by (simp add: enc_bytes.simps)
  obtain x y m where "readbuf c = x # y # m"
    using assms(2) by (cases "readbuf c"; cases "tl (readbuf c)") auto
  then show ?thesis
    by (simp add: MQTTPacket_readPacket_def get_into_def r d e mem_write_def overwrite_def mem_get_def)
qed

subsection \<open>Topic filters\<close>

text \<open>
  The meaning of a topic filter in the MQTT specification: level by level, \<open>+\<close> for any one level and \<open>#\<close>
  for all remaining levels, the parent level included.
\<close>

fun filter_matches :: "u8 list list \<Rightarrow> u8 list list \<Rightarrow> bool" where
  "filter_matches [] ns = (ns = [])"
| "filter_matches (f # fs) ns =
     (if f = [HASH_SIGN] then True
      else case ns of
        [] \<Rightarrow> False
      | n # ns \<Rightarrow> (f = [PLUS_SIGN] \<or> f = n) \<and> filter_matches fs ns)"

text \<open>A topic or filter from its levels.\<close>

fun join :: "u8 list list \<Rightarrow> u8 list" where
  "join [] = []"
| "join [l] = l"
| "join (l # ls) = l @ SLASH_SIGN # join ls"

text \<open>
  The format the code assumes: levels are not empty, \<open>+\<close> and \<open>#\<close> stand alone in their level and \<open>#\<close> only
  in the last one.
\<close>

definition plain_level :: "u8 list \<Rightarrow> bool" where
  "plain_level l \<longleftrightarrow> l \<noteq> [] \<and> set l \<inter> {0, SLASH_SIGN, PLUS_SIGN, HASH_SIGN} = {}"

fun filter_ok :: "u8 list list \<Rightarrow> bool" where
  "filter_ok [] = False"
| "filter_ok [l] = (plain_level l \<or> l = [PLUS_SIGN] \<or> l = [HASH_SIGN])"
| "filter_ok (l # ls) = ((plain_level l \<or> l = [PLUS_SIGN]) \<and> filter_ok ls)"

definition topic_ok :: "u8 list list \<Rightarrow> bool" where
  "topic_ok ns \<longleftrightarrow> ns \<noteq> [] \<and> list_all (\<lambda>l. l \<noteq> [] \<and> SLASH_SIGN \<notin> set l) ns"

text \<open>What follows a level: the end or a separator.\<close>

definition at_end :: "u8 list \<Rightarrow> bool" where
  "at_end n \<longleftrightarrow> n = [] \<or> hd n = SLASH_SIGN"

lemma match_plain:
  assumes "set l \<inter> {0, SLASH_SIGN, PLUS_SIGN, HASH_SIGN} = {}" and "SLASH_SIGN \<notin> set k" and "at_end n"
    and "x = 0 \<or> x = SLASH_SIGN"
  shows "isTopicMatched_loop (l @ x # f) (k @ n) = (if l = k then isTopicMatched_loop (x # f) n else Some False)"
  using assms
proof (induction l arbitrary: k)
  case Nil
  show ?case
  proof (cases k)
    case (Cons y k')
    then have "y \<noteq> SLASH_SIGN" using Nil by auto
    with Cons Nil show ?thesis by auto
  qed simp
next
  case (Cons a l)
  show ?case
  proof (cases k)
    case Nil
    then show ?thesis using Cons.prems by (cases n) (auto simp: at_end_def)
  next
    case k: (Cons y k')
    then show ?thesis using Cons.IH [of k'] Cons.prems by auto
  qed
qed

lemma match_plus:
  assumes "k \<noteq> []" and "SLASH_SIGN \<notin> set k" and "at_end n"
  shows "isTopicMatched_loop (PLUS_SIGN # f) (k @ n) = isTopicMatched_loop f n"
proof -
  obtain y k' where k: "k = y # k'" using assms(1) by (cases k) auto
  have "dropWhile (\<lambda>c. c \<noteq> SLASH_SIGN) (k' @ n) = dropWhile (\<lambda>c. c \<noteq> SLASH_SIGN) n"
    using assms(2) k by (intro dropWhile_append2) auto
  also have "\<dots> = n" using assms(3) by (cases n) (auto simp: at_end_def)
  finally show ?thesis using assms(2) k by auto
qed

lemma join_Cons: "ls \<noteq> [] \<Longrightarrow> join (l # ls) = l @ SLASH_SIGN # join ls"
  by (cases ls) simp_all

lemma topic_rest:
  assumes "topic_ok (n # ns)"
  obtains m where "join (n # ns) = n @ m" "at_end m" "m = [] \<longleftrightarrow> ns = []" "ns \<noteq> [] \<Longrightarrow> m = SLASH_SIGN # join ns \<and> topic_ok ns"
    "n \<noteq> []" "SLASH_SIGN \<notin> set n"
  using assms by (cases ns) (auto simp: topic_ok_def at_end_def join_Cons)

lemma match_level:
  assumes "plain_level l \<or> l = [PLUS_SIGN]" and "n \<noteq> []" "SLASH_SIGN \<notin> set n" "at_end m" and "x = 0 \<or> x = SLASH_SIGN"
  shows "isTopicMatched_loop (l @ x # f) (n @ m) =
    (if l = [PLUS_SIGN] \<or> l = n then isTopicMatched_loop (x # f) m else Some False)"
  using assms match_plain [of l n m x f] match_plus [of n m "x # f"] by (auto simp: plain_level_def)

lemma match_hash: "SLASH_SIGN \<notin> set n \<Longrightarrow> n \<noteq> [] \<Longrightarrow> isTopicMatched_loop ([HASH_SIGN] @ 0 # r) (n @ m) = Some True"
  by (cases n) auto

lemma filter_matches_Nil: "filter_ok fs \<Longrightarrow> filter_matches fs [] \<longleftrightarrow> fs = [[HASH_SIGN]]"
  by (induction fs rule: filter_ok.induct) (auto simp: plain_level_def)

lemma match_levels:
  assumes "filter_ok fs" and "topic_ok ns"
  shows "isTopicMatched_loop (join fs @ 0 # r) (join ns) =
    Some (filter_matches fs ns \<and> (last fs = [HASH_SIGN] \<longrightarrow> length fs \<le> length ns))"
  using assms
proof (induction fs arbitrary: ns rule: filter_ok.induct)
  case (2 l)
  obtain n ns' where ns: "ns = n # ns'" using 2(2) by (cases ns) (auto simp: topic_ok_def)
  obtain m where m: "join ns = n @ m" "at_end m" "m = [] \<longleftrightarrow> ns' = []" "n \<noteq> []" "SLASH_SIGN \<notin> set n"
    using topic_rest [of n ns'] 2(2) ns by blast
  have z: "isTopicMatched_loop (0 # r) m = Some (ns' = [])" using m(3) by (cases m) auto
  show ?case
  proof (cases "l = [HASH_SIGN]")
    case True
    then show ?thesis using match_hash [OF m(5,4), of r m] m(1) ns by simp
  next
    case False
    then show ?thesis using match_level [of l n m 0 r] 2(1) m z ns by auto
  qed
next
  case (3 l l2 ls)
  obtain n ns' where ns: "ns = n # ns'" using 3(3) by (cases ns) (auto simp: topic_ok_def)
  obtain m where m: "join ns = n @ m" "at_end m" "m = [] \<longleftrightarrow> ns' = []" "n \<noteq> []" "SLASH_SIGN \<notin> set n"
      "ns' \<noteq> [] \<Longrightarrow> m = SLASH_SIGN # join ns' \<and> topic_ok ns'"
    using topic_rest [of n ns'] 3(3) ns by blast
  have l: "plain_level l \<or> l = [PLUS_SIGN]" "filter_ok (l2 # ls)" using 3(2) by auto
  then have nh: "l \<noteq> [HASH_SIGN]" by (auto simp: plain_level_def)
  have lv: "isTopicMatched_loop (join (l # l2 # ls) @ 0 # r) (join ns) =
      (if l = [PLUS_SIGN] \<or> l = n then isTopicMatched_loop (SLASH_SIGN # join (l2 # ls) @ 0 # r) m else Some False)"
    using match_level [OF l(1) m(4,5,2), of SLASH_SIGN "join (l2 # ls) @ 0 # r"] m(1) by simp
  show ?case
  proof (cases "ns' = []")
    case True
    then have "isTopicMatched_loop (SLASH_SIGN # join (l2 # ls) @ 0 # r) m = Some False" using m(3) by simp
    then show ?thesis using lv nh ns True filter_matches_Nil [OF l(2)] by auto
  next
    case False
    with m(6) have m': "m = SLASH_SIGN # join ns'" "topic_ok ns'" by auto
    then have "isTopicMatched_loop (SLASH_SIGN # join (l2 # ls) @ 0 # r) m = isTopicMatched_loop (join (l2 # ls) @ 0 # r) (join ns')"
      by simp
    then show ?thesis using lv nh ns 3(1) [OF l(2) m'(2)] by auto
  qed
qed simp



end
