(* ===== verification/MqttSession.thy ===== *)
theory MqttSession
  imports MqttReceive DevSensor
begin

text \<open>
  The MQTT client with the application on top: the callbacks and the start of \<open>modules/src/wifi_mqtt.c\<close>, the way
  of a command from the broker to the device and of a message from the device to the broker, and the
  connection state of the worker thread.
\<close>

subsection \<open>The application's side of the client\<close>

text \<open>
  The publications of a callback: in the application model they are appended to \<open>outbox\<close>; here they go through
  \<open>MQTTPublish\<close>, in order, as the last thing the callback does. \<open>junk\<close> are the fields of the message that
  \<open>mqtt_publish\<close> leaves uninitialised.
\<close>

definition outgoing_message :: "MQTTMessage \<Rightarrow> outgoing \<Rightarrow> MQTTMessage" where
  "outgoing_message junk x = (case x of (qos, retained, topic, payload) \<Rightarrow>
     junk\<lparr>m_qos := word_of_int qos, m_retained := word_of_int retained, m_payloadlen := of_nat (length payload)\<rparr>)"

fun publish_all :: "MQTTMessage \<Rightarrow> pub_side \<Rightarrow> outgoing list \<Rightarrow> pub_side option" where
  "publish_all junk p [] = Some p"
| "publish_all junk p (x # xs) =
     (if blocked p then Some p
      else case x of (qos, retained, topic, payload) \<Rightarrow> do {
        (_, p) \<leftarrow> MQTTPublish p topic (outgoing_message junk x) payload;
        publish_all junk p xs })"

definition new_outgoing :: "'f app \<Rightarrow> 'f app \<Rightarrow> outgoing list" where
  "new_outgoing s s' = drop (length (outbox s)) (outbox s')"

definition app_sub_callback :: "MQTTMessage \<Rightarrow> 'f app callback" where
  "app_sub_callback junk md st = (case st of (buf, p, s) \<Rightarrow> do {
     (buf, s') \<leftarrow> mqtt_sub_callback (p_payload md) (p_payloadlen md) (buf, s);
     p \<leftarrow> publish_all junk p (new_outgoing s s');
     Some (buf, p, s') })"

definition app_default_callback :: "'f app callback" where
  "app_default_callback md st = (case st of (buf, p, s) \<Rightarrow> do {
     (buf, s') \<leftarrow> mqtt_sub_default_callback (p_payload md) (p_payloadlen md) (buf, s);
     Some (buf, p, s') })"

definition app_online_callback :: "MQTTMessage \<Rightarrow> 'f app event_callback" where
  "app_online_callback junk st = (case st of (p, s) \<Rightarrow> do {
     s' \<leftarrow> mqtt_online_callback s;
     p \<leftarrow> publish_all junk p (new_outgoing s s');
     Some (p, s') })"

text \<open>\<open>mqtt_connect_callback\<close> and \<open>mqtt_offline_callback\<close> only print.\<close>

definition app_quiet_callback :: "'f app event_callback" where
  "app_quiet_callback st = Some st"

text \<open>
  \<open>mqtt_start\<close>: the configuration of the client. \<open>buf\<close> and \<open>rbuf\<close> are what the two calls of \<open>rt_calloc\<close> return,
  \<open>dup\<close> what \<open>rt_strdup\<close> returns, \<open>mutex\<close> whether \<open>paho_mqtt_start\<close> could create its mutex.
\<close>

definition app_condata :: MQTTPacket_connectData where
  "app_condata = MQTTPacket_connectData_initializer
     \<lparr>clientID := cstring_topic (lit ''Device'' @ replicate 13 0), keepAliveInterval := 60, cleansession := 1,
      username := cstring_topic (lit ''Device''), password := cstring_topic (lit ''Device''), willFlag := 1,
      will := (will MQTTPacket_connectData_initializer)
        \<lparr>w_topicName := cstring_topic (lit ''Device''), w_message := cstring_topic (lit ''DEVICE_ONLINE!''),
         w_retained := 0, w_qos := 1\<rparr>\<rparr>"

definition app_handlers :: "MQTTMessage \<Rightarrow> u8 list option \<Rightarrow> 'f app message_handler list" where
  "app_handlers junk dup = [\<lparr>topicFilter = dup, mh_callback = Some (app_sub_callback junk), mh_qos = 1\<rparr>]"

text \<open>\<open>paho_mqtt_start\<close>, and whether the worker thread runs.\<close>

definition paho_mqtt_start :: "bool \<Rightarrow> bool \<Rightarrow> 'u MQTTClient \<Rightarrow> int \<times> bool \<times> 'u MQTTClient" where
  "paho_mqtt_start mutex thread c =
     (let c = c\<lparr>pub := (pub c)\<lparr>pub_mutex := mutex\<rparr>\<rparr> in
      if \<not> mutex then (- 1, False, c) else (0, thread, c))"

definition mqtt_start_client ::
    "MQTTMessage \<Rightarrow> u8 list option \<Rightarrow> u8 list option \<Rightarrow> u8 list option \<Rightarrow> bool \<Rightarrow> bool \<Rightarrow> 'f app MQTTClient \<Rightarrow>
     int \<times> bool \<times> 'f app MQTTClient" where
  "mqtt_start_client junk bufp rbufp dup mutex thread c =
     (if mqtt_is_started (user c) then (- 1, False, c)
      else
        let c = set_connected False c;
            c = c\<lparr>uri := lit ''tcp://www.wenruihao.com:1883'', condata := app_condata, buf_size := 1024, readbuf_size := 1024\<rparr> in
        case (bufp, rbufp) of
          (Some b, Some r) \<Rightarrow>
            (let c = c\<lparr>cbuf := b, readbuf := r, connect_callback := Some app_quiet_callback,
                      online_callback := Some (app_online_callback junk), offline_callback := Some app_quiet_callback,
                      messageHandlers := app_handlers junk dup, defaultMessageHandler := Some app_default_callback\<rparr>;
                 (_, running, c) = paho_mqtt_start mutex thread c in
             (0, running, c\<lparr>user := (user c)\<lparr>mqtt_is_started := True\<rparr>\<rparr>))
        | _ \<Rightarrow> (- 1, False, c))"

definition mqtt_stop :: "'f app MQTTClient \<Rightarrow> (int \<times> 'f app MQTTClient) option" where
  "mqtt_stop c = do {
     let c = c\<lparr>user := (user c)\<lparr>mqtt_is_started := False\<rparr>\<rparr>;
     (rc, p) \<leftarrow> paho_mqtt_stop (pub c);
     Some (rc, c\<lparr>pub := p\<rparr>) }"

subsection \<open>A message through the pipe\<close>

text \<open>The bytes a message occupies in the pipe.\<close>

definition queued :: "MQTTMessage \<Rightarrow> u8 list \<Rightarrow> u8 list \<Rightarrow> u8 list" where
  "queued m payload topic = message_bytes m @ payload @ topic @ [0]"

lemma length_message_bytes [simp]: "length (message_bytes m) = 16"
  by (simp add: message_bytes_def word_bytes_def half_bytes_def)

lemma length_queued: "length (queued m payload topic) = 17 + length payload + length topic"
  by (simp add: queued_def)

text \<open>The publishing side of a connected client with its pipe.\<close>

definition can_publish :: "pub_side \<Rightarrow> rt_pipe_device \<Rightarrow> bool" where
  "can_publish p pipe \<longleftrightarrow> isconnected p \<and> isblocking p = 0 \<and> mallocs p = [] \<and> \<not> blocked p \<and>
     pub_pipe p = Some pipe \<and> pipe_ok pipe \<and> readers pipe \<noteq> 0 \<and> writers pipe \<noteq> 0"

lemma pipe_write_ok:
  assumes "pipe_ok pipe" "readers pipe \<noteq> 0" and "0 < length msg" "length msg < 2 ^ 16"
    and n: "n = min (length msg) (pipe_cap pipe - length (pipe_bytes pipe))"
  shows "\<exists>pipe'. pipe_fops_write O_WRONLY pipe msg (of_nat (length msg)) =
      Some (if n = length msg then Returned (int (length msg)) else Waiting (of_nat n), pipe') \<and>
    same_pipe pipe pipe' \<and> pipe_bytes pipe' = pipe_bytes pipe @ take n msg"
proof -
  have "unat (of_nat (length msg) :: u32) = length msg" using assms(4) by (intro unat_of_nat_small) simp
  then have "(of_nat (length msg) :: u32) \<noteq> 0" using assms(3) by fastforce
  moreover have "n = min (length msg - 0) (pipe_cap pipe - length (pipe_bytes pipe))" using n by simp
  from pipe_write_pass_ok [OF assms(1,2) _ _ assms(4) this, of O_WRONLY]
  have "\<exists>pipe'. pipe_write_pass O_WRONLY pipe msg (of_nat (length msg)) 0 =
      Some (if n = length msg then Returned (int (length msg)) else Waiting (of_nat n), pipe') \<and>
    same_pipe pipe pipe' \<and> pipe_bytes pipe' = pipe_bytes pipe @ take n msg" by (simp cong: if_cong)
  ultimately show ?thesis using assms(2) by (simp add: pipe_fops_write_def)
qed

lemma MQTTPublish_ok:
  assumes can: "can_publish p pipe" and topic: "c_str topicName = Some topic" and m: "unat (m_payloadlen m) = length payload"
    and short: "length (queued m payload topic) < 2 ^ 16"
    and n: "n = min (length (queued m payload topic)) (pipe_cap pipe - length (pipe_bytes pipe))"
  shows "\<exists>rc pipe'. MQTTPublish p topicName m payload = Some (rc, p\<lparr>pub_pipe := Some pipe', blocked := n \<noteq> length (queued m payload topic)\<rparr>) \<and>
    same_pipe pipe pipe' \<and> pipe_bytes pipe' = pipe_bytes pipe @ take n (queued m payload topic) \<and>
    rc = (if n = length (queued m payload topic) then 0 else - 1)"
proof -
  let ?q = "queued m payload topic"
  have c: "isconnected p" "isblocking p = 0" "mallocs p = []" "\<not> blocked p" "pub_pipe p = Some pipe"
    using can by (simp_all add: can_publish_def)
  obtain pipe' where w: "pipe_fops_write O_WRONLY pipe ?q (of_nat (length ?q)) =
      Some (if n = length ?q then Returned (int (length ?q)) else Waiting (of_nat n), pipe')"
      "same_pipe pipe pipe'" "pipe_bytes pipe' = pipe_bytes pipe @ take n ?q"
    using pipe_write_ok [of pipe ?q n] can short n by (auto simp: can_publish_def length_queued)
  have l: "16 + unat (m_payloadlen m) + length topic + 1 = length ?q" by (simp add: length_queued m)
  have len: "(word_of_int (int (length ?q)) :: u32) = of_nat (length ?q)" by simp
  have s: "MQTT_local_send p ?q (int (length ?q)) =
      Some (if n = length ?q then int (length ?q) else - 1, p\<lparr>pub_pipe := Some pipe', blocked := n \<noteq> length ?q\<rparr>)"
    unfolding MQTT_local_send_def c(5) len using w(1) c(4) by simp
  have r: "mem_read payload 0 (unat (m_payloadlen m)) = Some payload" using m by (simp add: mem_read_def)
  have a: "alloc p = (True, p)" using c(3) by (simp add: alloc_def)
  have q: "message_bytes m @ payload @ topic @ [0] = ?q" by (simp add: queued_def)
  have "MQTTPublish p topicName m payload =
      Some (if n = length ?q then 0 else - 1, p\<lparr>pub_pipe := Some pipe', blocked := n \<noteq> length ?q\<rparr>)"
    unfolding MQTTPublish_def topic bind.bind_lunit Let_def a prod.case l
    using c short by (simp add: r q s)
  then show ?thesis using w(2,3) by blast
qed

text \<open>What a command makes the application publish: nothing, or one message on the topic \<open>Device\<close>.\<close>

lemma mqtt_publish_outbox:
  assumes "mqtt_publish str s = Some (r, s')"
  shows "outbox s' = outbox s \<or> (\<exists>payload. outbox s' = outbox s @ [(1, 0, lit ''Device'', payload)])"
  using assms by (auto simp: mqtt_publish_def bind_eq_Some_conv split: if_splits)

lemma message_effect_outbox:
  assumes "message_effect cmd s = Some s'"
  shows "outbox s' = outbox s \<or> (\<exists>payload. outbox s' = outbox s @ [(1, 0, lit ''Device'', payload)])"
  using assms mqtt_publish_outbox
  by (cases cmd) (fastforce simp: message_effect_def dev_sensor_relay1_ctl_def dev_sensor_relay2_ctl_def
      rt_pin_write_def rt_pin_mode_output_def)+

lemma message_effect_new:
  assumes "message_effect cmd s = Some s'"
  obtains (quiet) "new_outgoing s s' = []" | (one) payload where "new_outgoing s s' = [(1, 0, lit ''Device'', payload)]"
  using message_effect_outbox [OF assms] by (auto simp: new_outgoing_def)

definition queue_of :: "MQTTMessage \<Rightarrow> outgoing list \<Rightarrow> u8 list" where
  "queue_of junk xs = concat (map (\<lambda>x. queued (outgoing_message junk x) (snd (snd (snd x))) (map of_char ''Device'')) xs)"

lemma publish_new:
  assumes can: "can_publish p pipe" and eff: "message_effect cmd s = Some s'"
    and short: "length (queue_of junk (new_outgoing s s')) < 2 ^ 16"
  shows "\<exists>p' pipe'. publish_all junk p (new_outgoing s s') = Some p' \<and> pub_pipe p' = Some pipe' \<and> isconnected p' = isconnected p \<and>
    same_pipe pipe pipe' \<and>
    (if length (pipe_bytes pipe) + length (queue_of junk (new_outgoing s s')) \<le> pipe_cap pipe
     then \<not> blocked p' \<and> pipe_bytes pipe' = pipe_bytes pipe @ queue_of junk (new_outgoing s s')
     else blocked p' \<and> length (pipe_bytes pipe') = pipe_cap pipe)"
  using eff
proof (cases rule: message_effect_new)
  case quiet
  then show ?thesis
    using can pipe_room [of pipe] by (auto simp: can_publish_def queue_of_def same_pipe_def)
next
  case (one payload)
  let ?m = "outgoing_message junk (1, 0, lit ''Device'', payload)"
  let ?q = "queued ?m payload (map of_char ''Device'')"
  have q: "queue_of junk (new_outgoing s s') = ?q" using one by (simp add: queue_of_def)
  have t: "c_str (lit ''Device'') = Some (map of_char ''Device'')" by (rule c_str_lit) simp
  have "length payload < 2 ^ 32" using short q by (simp add: length_queued)
  then have m: "unat (m_payloadlen ?m) = length payload" by (simp add: outgoing_message_def)
  obtain n where n: "n = min (length ?q) (pipe_cap pipe - length (pipe_bytes pipe))" by simp
  obtain rc pipe' where w: "MQTTPublish p (lit ''Device'') ?m payload = Some (rc, p\<lparr>pub_pipe := Some pipe', blocked := n \<noteq> length ?q\<rparr>)"
      "same_pipe pipe pipe'" "pipe_bytes pipe' = pipe_bytes pipe @ take n ?q"
    using MQTTPublish_ok [OF can t m _ n] short q by (auto simp only:)
  have "publish_all junk p (new_outgoing s s') = Some (p\<lparr>pub_pipe := Some pipe', blocked := n \<noteq> length ?q\<rparr>)"
    using one w(1) can by (simp add: can_publish_def)
  moreover have "n = length ?q \<longleftrightarrow> length (pipe_bytes pipe) + length ?q \<le> pipe_cap pipe"
    and "n \<noteq> length ?q \<Longrightarrow> length (pipe_bytes pipe) + n = pipe_cap pipe" and "n \<le> length ?q"
    using n pipe_room [of pipe] can by (auto simp: can_publish_def min_def)
  ultimately show ?thesis using w(2,3) by (auto simp: q)
qed

subsection \<open>A command from the broker\<close>

text \<open>The PUBLISH packet with which a command arrives: quality of service 1, topic \<open>Applets\<close>.\<close>

definition applets :: "u8 list" where
  "applets = map of_char ''Applets''"

lemma length_applets [simp]: "length applets = 7"
  by (simp add: applets_def)

definition command_packet :: "u8 \<Rightarrow> u8 \<Rightarrow> u16 \<Rightarrow> iotb_mqtt_message_t \<Rightarrow> u8 list" where
  "command_packet dup retained packetid cmd =
     mqtt_packet (pub_header dup 1 retained) (pub_body 1 packetid applets (map of_char (message_name cmd)))"

definition command_prefix :: "u8 \<Rightarrow> u8 \<Rightarrow> u16 \<Rightarrow> iotb_mqtt_message_t \<Rightarrow> u8 list" where
  "command_prefix dup retained packetid cmd =
     header_byte (pub_header dup 1 retained) # enc_bytes (length (pub_body 1 packetid applets (map of_char (message_name cmd)))) @ utf applets @ be16 (uint packetid)"

lemma command_packet_split:
  "command_packet dup retained packetid cmd =
     command_prefix dup retained packetid cmd @ map of_char (message_name cmd)"
  by (simp add: command_packet_def command_prefix_def mqtt_packet_def) (simp add: pub_body_def)

lemma length_message_name: "length (message_name cmd) \<le> 18"
  by (cases cmd) simp_all

lemma deserialize_command:
  "\<exists>msg. MQTTDeserialize_publish out (command_packet dup retained packetid cmd @ D) len = Some (1, msg) \<and>
    p_qos msg = 1 \<and> p_packetid msg = packetid \<and> p_payload msg = length (command_prefix dup retained packetid cmd) \<and>
    p_payloadlen msg = int (length (message_name cmd)) \<and>
    (\<exists>x. p_topicName msg = \<lparr>cstring = None, ls_len = 7, ls_data = Some (applets @ x)\<rparr>)"
proof -
  let ?body = "pub_body 1 packetid applets (map of_char (message_name cmd))"
  let ?m = "command_packet dup retained packetid cmd @ D"
  have l: "length ?body = 11 + length (message_name cmd)" by (simp add: length_pub_body)
  have s: "sees (?m, 0) (mqtt_packet (pub_header dup 1 retained) ?body)"
    by (simp add: sees_def command_packet_def)
  obtain p where p: "p = 1 + length (enc_bytes (length ?body))" by simp
  have "sees (?m, p) ?body" using sees_packet(3) [OF s] l length_message_name [of cmd] p by simp
  then have "sees (?m, p + 2) applets" by (simp add: pub_body_def utf_def)
  then obtain x where "drop (p + 2) ?m = applets @ x" using sees_drop by blast
  moreover have "length ?body < 268435456" using l length_message_name [of cmd] by simp
  ultimately show ?thesis
    using MQTTDeserialize_publish_sees [OF s _ _ _ _ p, of out len] l p
    by (auto simp: mqs_view_def command_prefix_def length_pub_body)
qed

lemma MQTTPacket_equals_applets:
  "MQTTPacket_equals \<lparr>cstring = None, ls_len = 7, ls_data = Some (applets @ x)\<rparr> (lit ''Applets'') = Some True"
  by (simp add: MQTTPacket_equals_def c_strlen_def c_str_lit) (simp add: applets_def lit_def numeral_eq_Suc)

text \<open>A client of the application that is ready to send.\<close>

definition app_ready :: "MQTTMessage \<Rightarrow> 'f app MQTTClient \<Rightarrow> bool" where
  "app_ready junk c \<longleftrightarrow> messageHandlers c = app_handlers junk (Some (lit ''Applets'')) \<and> sends c = [] \<and>
     4 \<le> sint (buf_size c) \<and> sint (buf_size c) \<le> int (length (cbuf c))"

lemma sendPacket_ok:
  assumes "sends c = []" and "0 < n" "n \<le> length (cbuf c)" "n < 2 ^ 31"
  shows "sendPacket c (int n) = Some (0, c\<lparr>tx := tx c @ [take n (cbuf c)]\<rparr>)"
proof -
  have "csize (int n) = n" using assms(4) by (simp add: csize_def)
  moreover have "c\<lparr>sends := tl (sends c), tx := t\<rparr> = c\<lparr>tx := t\<rparr>" for t using assms(1) by simp
  ultimately show ?thesis using assms by (simp add: sendPacket_def mem_read_def)
qed

lemma send_ack_ok:
  assumes "sends c = []" and "4 \<le> sint (buf_size c)" "sint (buf_size c) \<le> int (length (cbuf c))"
  shows "\<exists>m. send_ack t packetid c = Some (0, c\<lparr>cbuf := m,
      tx := tx c @ [mqtt_packet (ack_header (ucast (msg_num t)) 0) (be16 (uint packetid))]\<rparr>) \<and> length m = length (cbuf c)"
proof -
  let ?p = "mqtt_packet (ack_header (ucast (msg_num t)) 0) (be16 (uint packetid))"
  let ?c = "c\<lparr>cbuf := overwrite (cbuf c) 0 ?p\<rparr>"
  have l: "length ?p = 4" by (simp add: enc_bytes.simps)
  have f: "4 \<le> length (cbuf c)" using assms by linarith
  have "take 4 (overwrite (cbuf c) 0 ?p) = ?p" using l by (simp add: overwrite_def)
  then have "sendPacket ?c 4 = Some (0, ?c\<lparr>tx := tx c @ [?p]\<rparr>)"
    using sendPacket_ok [of ?c 4] assms(1) f l by simp
  then show ?thesis
    using MQTTSerialize_ack_emit [OF assms(2,3), of "ucast (msg_num t)" 0 packetid] f l
    by (intro exI [of _ "overwrite (cbuf c) 0 ?p"]) (simp add: send_ack_def)
qed

text \<open>The callback on a command that lies in the read buffer.\<close>

lemma app_sub_callback_command:
  assumes eff: "message_effect cmd s = Some s'" and pay: "p_payload md = length pre" "p_payloadlen md = int (length (message_name cmd))"
    and p': "publish_all junk p (new_outgoing s s') = Some p'" and D: "D = x # r"
  shows "app_sub_callback junk md (pre @ map of_char (message_name cmd) @ D, p, s) =
    Some (pre @ map of_char (message_name cmd) @ 0 # r, p', s')"
  using mqtt_sub_callback_name [of pre cmd D s] assms by (simp add: app_sub_callback_def)

lemma deliver_command:
  assumes h: "messageHandlers c = app_handlers junk (Some (lit ''Applets''))"
    and t: "p_topicName md = \<lparr>cstring = None, ls_len = 7, ls_data = Some (applets @ y)\<rparr>"
    and cb: "app_sub_callback junk md (readbuf c, pub c, user c) = Some (m, p', s')"
  shows "deliverMessage md c = Some (0, c\<lparr>readbuf := m, pub := p', user := s'\<rparr>)"
  using assms
  by (cases "defaultMessageHandler c") (simp_all add: deliverMessage_def app_handlers_def MQTTPacket_equals_applets)

lemma cycle_publish_eq:
  assumes "MQTTDeserialize_publish (ce_msg e) (readbuf c) (sint (readbuf_size c)) = Some (1, msg)"
    and "deliverMessage msg c = Some (rc, d)" and "p_qos msg = 1"
  shows "cycle_publish e c = (if blocked (pub d) then Some (0, d) else send_ack PUBACK (p_packetid msg) d)"
  using assms by (simp add: cycle_publish_def)

text \<open>One cycle on a command: the callback runs, then, unless it is stuck, the acknowledgement is sent.\<close>

lemma MQTT_cycle_command:
  assumes ready: "app_ready junk c" and rx: "rx c = Chunk (command_packet dup retained packetid cmd @ x) # r"
    and room: "length (command_packet dup retained packetid cmd) < length (readbuf c)"
    and eff: "message_effect cmd (user c) = Some s'"
    and p': "publish_all junk (pub c) (new_outgoing (user c) s') = Some p'"
  shows "\<exists>c'. MQTT_cycle e c = Some (0, c') \<and> user c' = s' \<and> pub c' = p' \<and> rx c' = (if x = [] then r else Chunk x # r) \<and>
    length (readbuf c') = length (readbuf c) \<and> app_ready junk c' \<and>
    tx c' = tx c @ (if blocked p' then [] else [mqtt_packet (ack_header 4 0) (be16 (uint packetid))])"
proof -
  let ?P = "command_packet dup retained packetid cmd"
  let ?c = "c\<lparr>readbuf := ?P @ drop (length ?P) (readbuf c), rx := (if x = [] then r else Chunk x # r)\<rparr>"
  let ?body = "pub_body 1 packetid applets (map of_char (message_name cmd))"
  have "length ?body < 268435456" using length_message_name [of cmd] by (simp add: length_pub_body)
  then have read: "MQTTPacket_readPacket c = Some (3, ?c)"
    using readPacket_gives [of r c "pub_header dup 1 retained" ?body x] rx room
    by (simp add: net_gives_def command_packet_def mem_write_def overwrite_def pub_header_def del: length_mqtt_packet)
  obtain z D where D: "drop (length ?P) (readbuf c) = z # D" using room by (cases "drop (length ?P) (readbuf c)") auto
  obtain msg y where msg: "MQTTDeserialize_publish (ce_msg e) (readbuf ?c) (sint (readbuf_size ?c)) = Some (1, msg)"
      "p_qos msg = 1" "p_packetid msg = packetid" "p_payload msg = length (command_prefix dup retained packetid cmd)"
      "p_payloadlen msg = int (length (message_name cmd))"
      "p_topicName msg = \<lparr>cstring = None, ls_len = 7, ls_data = Some (applets @ y)\<rparr>"
    using deserialize_command [of "ce_msg e" dup retained packetid cmd "drop (length ?P) (readbuf c)" "sint (readbuf_size ?c)"]
    by auto
  let ?m = "command_prefix dup retained packetid cmd @ map of_char (message_name cmd) @ 0 # D"
  let ?d = "?c\<lparr>readbuf := ?m, pub := p', user := s'\<rparr>"
  have "app_sub_callback junk msg (readbuf ?c, pub ?c, user ?c) = Some (?m, p', s')"
    using app_sub_callback_command [OF eff msg(4,5) p' D] by (simp add: command_packet_split)
  then have del: "deliverMessage msg ?c = Some (0, ?d)"
    using deliver_command [of ?c junk msg y] ready msg(6) by (simp add: app_ready_def)
  have ty: "uint (msg_num CONNACK) = 2" "uint (msg_num PUBACK) = 4" "uint (msg_num SUBACK) = 9" "uint (msg_num UNSUBACK) = 11"
      "uint (msg_num PUBLISH) = 3" by simp_all
  have cyc: "MQTT_cycle e c = cycle_publish e ?c"
    by (simp only: MQTT_cycle_def read bind.bind_lunit prod.case ty) simp
  have l: "length ?m = length (readbuf c)" using D room by (auto simp: command_packet_split dest: arg_cong [of _ _ length])
  have rd: "app_ready junk ?d" using ready by (simp add: app_ready_def)
  show ?thesis
  proof (cases "blocked p'")
    case True
    then have "MQTT_cycle e c = Some (0, ?d)" unfolding cyc cycle_publish_eq [OF msg(1) del msg(2)] by simp
    then show ?thesis using True l rd by simp
  next
    case False
    obtain b where b: "send_ack PUBACK packetid ?d = Some (0, ?d\<lparr>cbuf := b,
        tx := tx ?d @ [mqtt_packet (ack_header (ucast (msg_num PUBACK)) 0) (be16 (uint packetid))]\<rparr>)" "length b = length (cbuf ?d)"
      using send_ack_ok [of ?d PUBACK packetid] ready by (auto simp: app_ready_def)
    have "MQTT_cycle e c = send_ack PUBACK packetid ?d"
      unfolding cyc cycle_publish_eq [OF msg(1) del msg(2)] msg(3) using False by simp
    then show ?thesis using b False l rd by (simp add: app_ready_def)
  qed
qed

lemma pipe_cap_bound: "pipe_cap pipe < 2 ^ 15"
  unfolding pipe_cap_def by (rule rb_cap_bound)

lemma puback_bytes: "mqtt_packet (ack_header 4 0) (be16 i) = [0x40, 2] @ be16 i"
  by (simp add: mqtt_packet_def ack_header_def header_byte_def enc_bytes.simps)

text \<open>
  C1. From the broker to the device: when the PUBLISH packet of a command has arrived, with whatever
  behind it, one \<open>MQTT_cycle\<close> has exactly the effect of that command on the application, queues what
  the command makes the device publish in the pipe, behind what is queued already, answers with a
  PUBACK that carries the identifier of the packet, and leaves the rest of the input in place. The
  pipe must have room for the publication and the read buffer for the packet and one byte more.
\<close>

theorem command_executed_and_acknowledged:
  assumes "app_ready junk c" and "can_publish (pub c) pipe" and "rx c = Chunk (command_packet dup retained packetid cmd @ x) # r"
    and "length (command_packet dup retained packetid cmd) < length (readbuf c)" and "message_effect cmd (user c) = Some s'"
    and fit: "length (pipe_bytes pipe) + length (queue_of junk (new_outgoing (user c) s')) \<le> pipe_cap pipe"
  shows "\<exists>c' pipe'. MQTT_cycle e c = Some (0, c') \<and> user c' = s' \<and>
    pub_pipe (pub c') = Some pipe' \<and> pipe_bytes pipe' = pipe_bytes pipe @ queue_of junk (new_outgoing (user c) s') \<and>
    tx c' = tx c @ [[0x40, 2] @ be16 (uint packetid)] \<and> rx c' = (if x = [] then r else Chunk x # r)"
proof -
  have "length (queue_of junk (new_outgoing (user c) s')) < 2 ^ 16" using fit pipe_cap_bound [of pipe] by simp
  from publish_new [OF assms(2,5) this] fit obtain p' pipe' where
    p: "publish_all junk (pub c) (new_outgoing (user c) s') = Some p'" "pub_pipe p' = Some pipe'" "\<not> blocked p'"
      "pipe_bytes pipe' = pipe_bytes pipe @ queue_of junk (new_outgoing (user c) s')" by auto
  from MQTT_cycle_command [OF assms(1,3-5) p(1), of e] p show ?thesis by (auto simp: puback_bytes)
qed

definition junk0 :: MQTTMessage where
  "junk0 = \<lparr>m_qos = 0, m_retained = 0, m_dup = 0, m_id = 0, m_payload = 0, m_payloadlen = 0\<rparr>"

definition demo_pipe :: "u16 \<Rightarrow> rt_pipe_device" where
  "demo_pipe sz = \<lparr>is_named = True, fifo = Some \<lparr>buffer_ptr = replicate (unat sz) 0, read_mirror = 0, read_index = 0,
     write_mirror = 0, write_index = 0, buffer_size = sz\<rparr>, bufsz = sz, readers = 1, writers = 1, ref_count = 2\<rparr>"

definition demo_client :: "u16 \<Rightarrow> u8 list \<Rightarrow> int app MQTTClient" where
  "demo_client sz input = (client0 64 (app_idle\<lparr>mqtt_is_started := True\<rparr>))
     \<lparr>pub := pub0\<lparr>isconnected := True, pub_pipe := Some (demo_pipe sz)\<rparr>,
      messageHandlers := app_handlers junk0 (Some (lit ''Applets'')), rx := [Chunk input], selects := [(1, True, False)]\<rparr>"

definition env0 :: thread_env where
  "env0 = \<lparr>ce_msg = publish_out0, ce_packetid = 0, ce_ack = \<lparr>a_packettype = 0, a_dup = 0, a_packetid = 0\<rparr>, ce_tick = 0,
     te_net = \<lparr>ne_malloc = True, ne_getaddrinfo = (\<lambda>_ _. (0, True)), ne_socket = 3, ne_connect = 0\<rparr>,
     te_connack = (0, 0), te_pipe = (False, None, None, False, False)\<rparr>"

lemma demo_pipe_ok: "pipe_ok (demo_pipe 64)" "pipe_ok (demo_pipe 8)"
  by (simp_all add: demo_pipe_def pipe_ok_def rb_inv_def rb_cap_def)

lemma demo_ready: "app_ready junk0 (demo_client sz input)"
  by (simp add: demo_client_def client0_def app_ready_def)

lemma demo_can: "sz = 64 \<or> sz = 8 \<Longrightarrow> can_publish (pub (demo_client sz input)) (demo_pipe sz)"
  using demo_pipe_ok by (auto simp: demo_client_def can_publish_def pub0_def) (simp_all add: demo_pipe_def)

lemma demo_pipe_room: "pipe_bytes (demo_pipe sz) = []" "pipe_cap (demo_pipe 64) = 64" "pipe_cap (demo_pipe 8) = 8"
  by (simp_all add: demo_pipe_def pipe_bytes_def pipe_cap_def rb_list_def rb_cnt_def rb_cap_def)

lemma demo_effect:
  "\<exists>s'. message_effect RELAY_1_ON (user (demo_client sz input)) = Some s' \<and>
     length (queue_of junk0 (new_outgoing (user (demo_client sz input)) s')) = 33"
  by (simp add: demo_client_def client0_def message_effect_def dev_sensor_relay1_ctl_def mqtt_publish_def app_idle_def
      rt_pin_write_def mqtt_message_buffer_def c_strlen_def c_str_def new_outgoing_def queue_of_def length_queued mem_read_def lit_def)

theorem command_executed_and_acknowledged_witness:
  "\<exists>s' c' pipe'. message_effect RELAY_1_ON (user (demo_client 64 (command_packet 0 0 7 RELAY_1_ON @ [0xD0, 0]))) = Some s' \<and>
    MQTT_cycle (cycle_env.truncate env0) (demo_client 64 (command_packet 0 0 7 RELAY_1_ON @ [0xD0, 0])) = Some (0, c') \<and> user c' = s' \<and>
    pub_pipe (pub c') = Some pipe' \<and>
    pipe_bytes pipe' = pipe_bytes (demo_pipe 64) @ queue_of junk0 (new_outgoing (user (demo_client 64 (command_packet 0 0 7 RELAY_1_ON @ [0xD0, 0]))) s') \<and>
    tx c' = tx (demo_client 64 (command_packet 0 0 7 RELAY_1_ON @ [0xD0, 0])) @ [[0x40, 2] @ be16 (uint (7 :: u16))] \<and>
    rx c' = (if [0xD0 :: u8, 0] = [] then [] else [Chunk [0xD0, 0]])"
proof -
  let ?c = "demo_client 64 (command_packet 0 0 7 RELAY_1_ON @ [0xD0, 0])"
  obtain s' where s': "message_effect RELAY_1_ON (user ?c) = Some s'" "length (queue_of junk0 (new_outgoing (user ?c) s')) = 33"
    using demo_effect by blast
  have r: "rx ?c = Chunk (command_packet 0 0 7 RELAY_1_ON @ [0xD0, 0]) # []" by (simp add: demo_client_def)
  have l: "length (command_packet 0 0 7 RELAY_1_ON) < length (readbuf ?c)"
    by (simp add: command_packet_def length_pub_body enc_bytes.simps demo_client_def client0_def)
  have f: "length (pipe_bytes (demo_pipe 64)) + length (queue_of junk0 (new_outgoing (user ?c) s')) \<le> pipe_cap (demo_pipe 64)"
    unfolding s'(2) demo_pipe_room by simp
  show ?thesis
    using command_executed_and_acknowledged [OF demo_ready demo_can r l s'(1) f, of "cycle_env.truncate env0"] s'(1) by auto
qed

text \<open>
  C37. The worker thread can lock itself out. A callback runs in the thread that empties the pipe, and a
  publication blocks until the pipe has taken all of it. So a command that makes the device publish
  while the pipe lacks the room stops the thread for good: it waits for space in a full pipe, which
  only the thread itself could empty, and the command is never acknowledged.
\<close>

theorem callback_blocks_its_own_thread:
  assumes "app_ready junk c" and "can_publish (pub c) pipe" and "rx c = Chunk (command_packet dup retained packetid cmd @ x) # r"
    and "length (command_packet dup retained packetid cmd) < length (readbuf c)" and "message_effect cmd (user c) = Some s'"
    and full: "pipe_cap pipe < length (pipe_bytes pipe) + length (queue_of junk (new_outgoing (user c) s'))"
    and short: "length (queue_of junk (new_outgoing (user c) s')) < 2 ^ 16" and "selects c = (1, True, on_pipe) # ss"
  shows "\<exists>c' pipe'. thread_step e MLoop c = Some (MStuck, c') \<and> pub_pipe (pub c') = Some pipe' \<and>
    length (pipe_bytes pipe') = pipe_cap pipe' \<and> user c' = s' \<and> tx c' = tx c"
proof -
  let ?c = "c\<lparr>selects := ss\<rparr>"
  from publish_new [OF assms(2,5) short] full obtain p' pipe' where
    p: "publish_all junk (pub c) (new_outgoing (user c) s') = Some p'" "pub_pipe p' = Some pipe'" "blocked p'"
      "same_pipe pipe pipe'" "length (pipe_bytes pipe') = pipe_cap pipe" by auto
  have "app_ready junk ?c" using assms(1) by (simp add: app_ready_def)
  then obtain c' where c': "MQTT_cycle (cycle_env.truncate e) ?c = Some (0, c')" "user c' = s'" "pub c' = p'" "tx c' = tx c"
    using MQTT_cycle_command [of junk ?c dup retained packetid cmd x r s' p' "cycle_env.truncate e"] assms(3-5) p by auto
  have "thread_step e MLoop c = Some (MStuck, c')"
    using c' p(3) assms(8) by (simp add: thread_step_def thread_loop_def select_def)
  then show ?thesis using c' p by (auto simp: same_pipe_def)
qed

theorem callback_blocks_its_own_thread_witness:
  "\<exists>s' c' pipe'. message_effect RELAY_1_ON (user (demo_client 8 (command_packet 0 0 7 RELAY_1_ON))) = Some s' \<and>
    thread_step env0 MLoop (demo_client 8 (command_packet 0 0 7 RELAY_1_ON)) = Some (MStuck, c') \<and>
    pub_pipe (pub c') = Some pipe' \<and> length (pipe_bytes pipe') = pipe_cap pipe' \<and> user c' = s' \<and>
    tx c' = tx (demo_client 8 (command_packet 0 0 7 RELAY_1_ON))"
proof -
  let ?c = "demo_client 8 (command_packet 0 0 7 RELAY_1_ON)"
  obtain s' where s': "message_effect RELAY_1_ON (user ?c) = Some s'" "length (queue_of junk0 (new_outgoing (user ?c) s')) = 33"
    using demo_effect by blast
  have r: "rx ?c = Chunk (command_packet 0 0 7 RELAY_1_ON @ []) # []" by (simp add: demo_client_def)
  have l: "length (command_packet 0 0 7 RELAY_1_ON) < length (readbuf ?c)"
    by (simp add: command_packet_def length_pub_body enc_bytes.simps demo_client_def client0_def)
  have f: "pipe_cap (demo_pipe 8) < length (pipe_bytes (demo_pipe 8)) + length (queue_of junk0 (new_outgoing (user ?c) s'))"
      "length (queue_of junk0 (new_outgoing (user ?c) s')) < 2 ^ 16"
    unfolding s'(2) demo_pipe_room by simp_all
  have "selects ?c = (1, True, False) # []" by (simp add: demo_client_def)
  from callback_blocks_its_own_thread [OF demo_ready demo_can r l s'(1) f this, of env0] s'(1) show ?thesis by auto
qed

subsection \<open>A message to the broker\<close>

lemma bytes_message_bytes: "bytes_message (message_bytes m @ r) = m"
proof -
  have d: "drop 6 (message_bytes m @ r) = half_bytes (m_id m) @ word_bytes (m_payload m) @ word_bytes (m_payloadlen m) @ r"
    "drop 8 (message_bytes m @ r) = word_bytes (m_payload m) @ word_bytes (m_payloadlen m) @ r"
    "drop 12 (message_bytes m @ r) = word_bytes (m_payloadlen m) @ r"
    "message_bytes m @ r = word_bytes (m_qos m) @ [m_retained m, m_dup m] @ half_bytes (m_id m) @
      word_bytes (m_payload m) @ word_bytes (m_payloadlen m) @ r"
    by (simp_all add: message_bytes_def half_bytes_def word_bytes_def)
  have n: "(message_bytes m @ r) ! 4 = m_retained m" "(message_bytes m @ r) ! 5 = m_dup m"
    by (simp_all add: message_bytes_def half_bytes_def word_bytes_def)
  have q: "bytes_word (message_bytes m @ r) = m_qos m" unfolding d(4) by (rule bytes_word_bytes)
  show ?thesis unfolding bytes_message_def n q d(1,2,3) bytes_word_bytes bytes_half_bytes by simp
qed

text \<open>The branch of the loop that reads from the pipe, on a message at its head and whatever is queued behind it.\<close>

lemma thread_publish_message:
  assumes pipe: "pub_pipe (pub c) = Some pipe" "pipe_ok pipe" "writers pipe \<noteq> 0"
    and q: "pipe_bytes pipe = queued m payload topic @ z" "0 \<notin> set topic" "unat (m_payloadlen m) = length payload"
    and rb: "length (pipe_bytes pipe) \<le> unat (readbuf_size c)" "unat (readbuf_size c) \<le> length (readbuf c)"
      "unat (readbuf_size c) < 2 ^ 16"
    and buf: "sends c = []" "int (length topic + length payload + 9) \<le> sint (buf_size c)" "sint (buf_size c) \<le> int (length (cbuf c))"
  shows "\<exists>c' pipe'. thread_publish c = Some (MLoop, c') \<and> pub_pipe (pub c') = Some pipe' \<and> pipe_bytes pipe' = [] \<and>
    tx c' = tx c @ [mqtt_packet (pub_header 0 (sint (m_qos m)) (m_retained m))
                      (pub_body (sint (m_qos m)) (m_id m) topic payload)]"
proof -
  obtain n where n: "n = min (unat (readbuf_size c)) (length (pipe_bytes pipe))" by simp
  then have nl: "n = length (pipe_bytes pipe)" "17 \<le> n" using rb q(1) by (simp_all add: length_queued)
  let ?B = "overwrite (readbuf c) 0 (pipe_bytes pipe)"
  obtain y where B: "?B = queued m payload topic @ y" using q(1) by (simp add: overwrite_def)
  obtain pipe' where rd: "pipe_fops_read O_RDONLY pipe (readbuf c) (readbuf_size c) = Some (Returned (int n), ?B, pipe')"
      "pipe_bytes pipe' = []"
    using pipe_read_ok [OF pipe(2,3) _ rb(2,3) n, of O_RDONLY] nl by (fastforce split: if_splits)
  let ?c = "c\<lparr>readbuf := ?B, pub := (pub c)\<lparr>pub_pipe := Some pipe'\<rparr>\<rparr>"
  let ?rest = "payload @ topic @ 0 # y"
  have h: "mem_read ?B 0 16 = Some (message_bytes m)" "mem_read ?B 16 (length ?B - 16) = Some ?rest"
    unfolding B by (simp_all add: queued_def mem_read_def)
  let ?topic = "cstring_topic (topic @ 0 # y)"
  have t: "mqs_bytes ?topic = Some topic"
    using q(2,3) by (simp add: cstring_topic_def mqs_bytes_def MQTTString_initializer_def)
  have "length payload < 2 ^ 31" using nl q(1) rb by (simp add: length_queued)
  then have pl: "sint (m_payloadlen m) = int (length payload)" using q(3) by (subst sint_small) simp_all
  let ?q = "sint (m_qos m)" and ?body = "pub_body (sint (m_qos m)) (m_id m) topic payload"
  let ?P = "mqtt_packet (pub_header 0 ?q (m_retained m)) ?body"
  have bl: "length ?body < 268435456" "int (length ?body) + 5 \<le> sint (buf_size c)"
    using nl q(1) rb buf(2) by (auto simp: length_pub_body length_queued)
  note fits = put_packet_fits [OF bl buf(3), of "pub_header 0 ?q (m_retained m)"]
  have ser: "MQTTSerialize_publish (cbuf c) (sint (buf_size c)) 0 ?q (m_retained m) (m_id m) ?topic ?rest (sint (m_payloadlen m)) =
      Some (int (length ?P), overwrite (cbuf c) 0 ?P)"
    using MQTTSerialize_publish_put [OF t, of "length payload" ?rest ?q "m_id m" "cbuf c" "sint (buf_size c)" 0 "m_retained m"]
      bl(1) fits(1) pl by simp
  let ?d = "?c\<lparr>cbuf := overwrite (cbuf c) 0 ?P\<rparr>"
  have lP: "length ?P \<le> length (cbuf c)" using fits(2) buf(3) by linarith
  have "take (length ?P) (overwrite (cbuf c) 0 ?P) = ?P" by (simp add: overwrite_def del: length_mqtt_packet)
  moreover have "length ?P < 2 ^ 31" using fits(2) sint_lt [of "buf_size c"] by simp
  moreover have "0 < length ?P" by simp
  ultimately have send: "sendPacket ?d (int (length ?P)) = Some (0, ?d\<lparr>tx := tx c @ [?P]\<rparr>)"
    using sendPacket_ok [of ?d "length ?P"] buf(1) lP by (simp del: length_mqtt_packet)
  have m: "bytes_message (message_bytes m) = m" using bytes_message_bytes [of m "[]"] by simp
  have "thread_publish c = Some (MLoop, ?d\<lparr>tx := tx c @ [?P]\<rparr>)"
    unfolding thread_publish_def pipe(1) option.case rd(1) bind.bind_lunit prod.case Let_def io_result.case
    using nl(2) \<open>0 < length ?P\<close> by (simp add: h m q(3) ser send del: length_mqtt_packet)
  then show ?thesis using rd(2) by simp
qed

text \<open>Publishing with room in the pipe.\<close>

lemma MQTTPublish_room:
  assumes can: "can_publish p pipe" and "c_str topicName = Some topic" and "unat (m_payloadlen m) = length payload"
    and fit: "length (pipe_bytes pipe) + length (queued m payload topic) \<le> pipe_cap pipe"
  shows "\<exists>p' pipe'. MQTTPublish p topicName m payload = Some (0, p') \<and> can_publish p' pipe' \<and> pipe_cap pipe' = pipe_cap pipe \<and>
    pipe_bytes pipe' = pipe_bytes pipe @ queued m payload topic"
proof -
  let ?q = "queued m payload topic"
  have n: "length ?q = min (length ?q) (pipe_cap pipe - length (pipe_bytes pipe))" "length ?q < 2 ^ 16"
    using fit pipe_cap_bound [of pipe] by auto
  from MQTTPublish_ok [OF assms(1-3) n(2,1)] obtain pipe' where
    "MQTTPublish p topicName m payload = Some (0, p\<lparr>pub_pipe := Some pipe', blocked := False\<rparr>)" "same_pipe pipe pipe'"
    "pipe_bytes pipe' = pipe_bytes pipe @ ?q" by auto
  then show ?thesis using can by (auto simp: can_publish_def same_pipe_def)
qed

lemma thread_step_pipe:
  "thread_step e MLoop (c\<lparr>selects := (1, False, True) # ss\<rparr>) = thread_publish (c\<lparr>selects := ss\<rparr>)"
  by (simp add: thread_step_def thread_loop_def select_def)

text \<open>The buffers can take what is in the pipe and a PUBLISH packet of the given size.\<close>

definition buffers_for :: "'u MQTTClient \<Rightarrow> rt_pipe_device \<Rightarrow> nat \<Rightarrow> bool" where
  "buffers_for c pipe n \<longleftrightarrow> sends c = [] \<and> pipe_cap pipe \<le> unat (readbuf_size c) \<and>
     unat (readbuf_size c) \<le> length (readbuf c) \<and> unat (readbuf_size c) < 2 ^ 16 \<and>
     int (n + 9) \<le> sint (buf_size c) \<and> sint (buf_size c) \<le> int (length (cbuf c))"

lemma thread_sends_head:
  assumes "can_publish p pipe" and "pipe_bytes pipe = queued m payload topic @ z" and "c_str topicName = Some topic"
    and "unat (m_payloadlen m) = length payload" and "buffers_for c pipe (length topic + length payload)"
  shows "\<exists>c' pipe'. thread_step e MLoop (c\<lparr>pub := p, selects := (1, False, True) # ss\<rparr>) = Some (MLoop, c') \<and>
    pub_pipe (pub c') = Some pipe' \<and> pipe_bytes pipe' = [] \<and>
    tx c' = tx c @ [mqtt_packet (pub_header 0 (sint (m_qos m)) (m_retained m))
                      (pub_body (sint (m_qos m)) (m_id m) topic payload)]"
proof -
  let ?c = "c\<lparr>pub := p, selects := ss\<rparr>"
  have t: "0 \<notin> set topic" using assms(3) by (auto elim!: c_strD)
  have p: "pub_pipe (pub ?c) = Some pipe" "pipe_ok pipe" "writers pipe \<noteq> 0" using assms(1) by (simp_all add: can_publish_def)
  have b: "length (pipe_bytes pipe) \<le> unat (readbuf_size ?c)" "unat (readbuf_size ?c) \<le> length (readbuf ?c)"
      "unat (readbuf_size ?c) < 2 ^ 16" "sends ?c = []" "int (length topic + length payload + 9) \<le> sint (buf_size ?c)"
      "sint (buf_size ?c) \<le> int (length (cbuf ?c))"
    using assms(5) pipe_room [OF p(2)] by (auto simp: buffers_for_def)
  have "thread_step e MLoop (c\<lparr>pub := p, selects := (1, False, True) # ss\<rparr>) = thread_publish ?c"
    using thread_step_pipe [where c = "c\<lparr>pub := p\<rparr>"] by simp
  with thread_publish_message [OF p assms(2) t assms(4) b] show ?thesis by simp
qed

text \<open>
  C21. From the device to the broker: a message that \<open>MQTTPublish\<close> accepts into the empty pipe goes out, when the
  worker thread finds the pipe readable, as the PUBLISH packet with its quality of service, retained
  flag, identifier, topic and payload; the pipe is empty again and the thread stays in its loop.
\<close>

theorem published_message_sent:
  assumes "can_publish (pub c) pipe" and "pipe_bytes pipe = []" and "c_str topicName = Some topic"
    and "unat (m_payloadlen m) = length payload" and "length (queued m payload topic) \<le> pipe_cap pipe"
    and "buffers_for c pipe (length topic + length payload)"
  shows "\<exists>p' c' pipe'. MQTTPublish (pub c) topicName m payload = Some (0, p') \<and>
    thread_step e MLoop (c\<lparr>pub := p', selects := (1, False, True) # ss\<rparr>) = Some (MLoop, c') \<and>
    pub_pipe (pub c') = Some pipe' \<and> pipe_bytes pipe' = [] \<and>
    tx c' = tx c @ [mqtt_packet (pub_header 0 (sint (m_qos m)) (m_retained m))
                      (pub_body (sint (m_qos m)) (m_id m) topic payload)]"
proof -
  obtain p' pipe' where p: "MQTTPublish (pub c) topicName m payload = Some (0, p')" "can_publish p' pipe'"
      "pipe_cap pipe' = pipe_cap pipe" "pipe_bytes pipe' = queued m payload topic @ []"
    using MQTTPublish_room [OF assms(1,3,4)] assms(2,5) by auto
  have "buffers_for c pipe' (length topic + length payload)" using assms(6) p(3) by (simp add: buffers_for_def)
  from thread_sends_head [OF p(2,4) assms(3,4) this] p(1) show ?thesis by blast
qed

theorem published_message_sent_witness:
  "\<exists>p' c' pipe'. MQTTPublish (pub (demo_client 64 [])) (lit ''Device'') (junk0\<lparr>m_qos := 1, m_payloadlen := 2\<rparr>) [0x68, 0x69] = Some (0, p') \<and>
    thread_step env0 MLoop ((demo_client 64 [])\<lparr>pub := p', selects := (1, False, True) # []\<rparr>) = Some (MLoop, c') \<and>
    pub_pipe (pub c') = Some pipe' \<and> pipe_bytes pipe' = [] \<and>
    tx c' = tx (demo_client 64 []) @ [mqtt_packet (pub_header 0 (sint (m_qos (junk0\<lparr>m_qos := 1, m_payloadlen := 2\<rparr>)))
        (m_retained (junk0\<lparr>m_qos := 1, m_payloadlen := 2\<rparr>)))
      (pub_body (sint (m_qos (junk0\<lparr>m_qos := 1, m_payloadlen := 2\<rparr>))) (m_id (junk0\<lparr>m_qos := 1, m_payloadlen := 2\<rparr>))
        (map of_char ''Device'') [0x68, 0x69])]"
proof (rule published_message_sent [of _ "demo_pipe 64"])
  show "buffers_for (demo_client 64 []) (demo_pipe 64) (length (map of_char ''Device'' :: u8 list) + length [0x68, 0x69 :: u8])"
    unfolding buffers_for_def demo_pipe_room by (simp add: demo_client_def client0_def)
qed (simp_all add: demo_can demo_pipe_room c_str_lit length_queued junk0_def)

text \<open>
  C38. Two messages that are both in the pipe when the worker thread reads it do not both arrive: the thread
  reads all that is there, sends the first message and drops the rest. \<open>MQTTPublish\<close> has reported
  success for both.
\<close>

theorem second_message_lost:
  assumes "can_publish (pub c) pipe" and "pipe_bytes pipe = []"
    and "c_str topicName1 = Some topic1" and "unat (m_payloadlen m1) = length payload1"
    and "c_str topicName2 = Some topic2" and "unat (m_payloadlen m2) = length payload2"
    and "length (queued m1 payload1 topic1) + length (queued m2 payload2 topic2) \<le> pipe_cap pipe"
    and "buffers_for c pipe (length topic1 + length payload1)"
  shows "\<exists>p1 p2 c' pipe'. MQTTPublish (pub c) topicName1 m1 payload1 = Some (0, p1) \<and>
    MQTTPublish p1 topicName2 m2 payload2 = Some (0, p2) \<and>
    thread_step e MLoop (c\<lparr>pub := p2, selects := (1, False, True) # ss\<rparr>) = Some (MLoop, c') \<and>
    pub_pipe (pub c') = Some pipe' \<and> pipe_bytes pipe' = [] \<and>
    tx c' = tx c @ [mqtt_packet (pub_header 0 (sint (m_qos m1)) (m_retained m1))
                      (pub_body (sint (m_qos m1)) (m_id m1) topic1 payload1)]"
proof -
  obtain p1 pipe1 where p1: "MQTTPublish (pub c) topicName1 m1 payload1 = Some (0, p1)" "can_publish p1 pipe1"
      "pipe_cap pipe1 = pipe_cap pipe" "pipe_bytes pipe1 = queued m1 payload1 topic1"
    using MQTTPublish_room [OF assms(1,3,4)] assms(2,7) by auto
  obtain p2 pipe2 where p2: "MQTTPublish p1 topicName2 m2 payload2 = Some (0, p2)" "can_publish p2 pipe2"
      "pipe_cap pipe2 = pipe_cap pipe" "pipe_bytes pipe2 = queued m1 payload1 topic1 @ queued m2 payload2 topic2"
    using MQTTPublish_room [OF p1(2) assms(5,6)] p1(3,4) assms(7) by auto
  have "buffers_for c pipe2 (length topic1 + length payload1)" using assms(8) p2(3) by (simp add: buffers_for_def)
  from thread_sends_head [OF p2(2,4) assms(3,4) this] p1(1) p2(1) show ?thesis by blast
qed

theorem second_message_lost_witness:
  "\<exists>p1 p2 c' pipe'. MQTTPublish (pub (demo_client 64 [])) (lit ''Device'') (junk0\<lparr>m_payloadlen := 1\<rparr>) [0x41] = Some (0, p1) \<and>
    MQTTPublish p1 (lit ''Device'') (junk0\<lparr>m_payloadlen := 1\<rparr>) [0x42] = Some (0, p2) \<and>
    thread_step env0 MLoop ((demo_client 64 [])\<lparr>pub := p2, selects := (1, False, True) # []\<rparr>) = Some (MLoop, c') \<and>
    pub_pipe (pub c') = Some pipe' \<and> pipe_bytes pipe' = [] \<and>
    tx c' = tx (demo_client 64 []) @ [mqtt_packet (pub_header 0 (sint (m_qos (junk0\<lparr>m_payloadlen := 1\<rparr>))) (m_retained (junk0\<lparr>m_payloadlen := 1\<rparr>)))
      (pub_body (sint (m_qos (junk0\<lparr>m_payloadlen := 1\<rparr>))) (m_id (junk0\<lparr>m_payloadlen := 1\<rparr>)) (map of_char ''Device'') [0x41])]"
proof (rule second_message_lost [of _ "demo_pipe 64" _ _ _ _ _ "map of_char ''Device''"])
  show "buffers_for (demo_client 64 []) (demo_pipe 64) (length (map of_char ''Device'' :: u8 list) + length [0x41 :: u8])"
    unfolding buffers_for_def demo_pipe_room by (simp add: demo_client_def client0_def)
qed (simp_all add: demo_can demo_pipe_room c_str_lit length_queued junk0_def)

end
