(* ===== verification/MqttThread.thy ===== *)
theory MqttThread
  imports MqttSession
begin

text \<open>
  The worker thread of the MQTT client together with the threads that call its interface, as a step relation,
  and the invariant of its connection state.
\<close>

subsection \<open>What the operations keep\<close>

text \<open>A callback must not touch the connection state of the client.\<close>

definition cb_ok :: "'u callback \<Rightarrow> bool" where
  "cb_ok cb \<longleftrightarrow> (\<forall>md m p u m' p' u'. cb md (m, p, u) = Some (m', p', u') \<longrightarrow> isconnected p' = isconnected p)"

definition ev_ok :: "'u event_callback \<Rightarrow> bool" where
  "ev_ok f \<longleftrightarrow> (\<forall>p u p' u'. f (p, u) = Some (p', u') \<longrightarrow> isconnected p' = isconnected p)"

definition handler_ok :: "'u message_handler \<Rightarrow> bool" where
  "handler_ok h \<longleftrightarrow> pred_option cb_ok (mh_callback h)"

definition callbacks_ok :: "'u MQTTClient \<Rightarrow> bool" where
  "callbacks_ok c \<longleftrightarrow> list_all handler_ok (messageHandlers c) \<and> pred_option cb_ok (defaultMessageHandler c) \<and>
     pred_option ev_ok (connect_callback c) \<and> pred_option ev_ok (online_callback c) \<and> pred_option ev_ok (offline_callback c)"

text \<open>A property of the result of a computation, if it has one.\<close>

definition post :: "('a \<Rightarrow> bool) \<Rightarrow> 'a option \<Rightarrow> bool" where
  "post Q r = (case r of None \<Rightarrow> True | Some x \<Rightarrow> Q x)"

lemma post_simps [simp]:
  "post Q None" "post Q (Some x) = Q x" "post Q (m \<bind> f) = post (\<lambda>x. post Q (f x)) m"
  "post Q (if b then m1 else m2) = (if b then post Q m1 else post Q m2)"
  "post Q (case_prod g p) = case_prod (\<lambda>a b. post Q (g a b)) p"
  by (simp_all add: post_def split: prod.split) (cases m; simp add: post_def)

lemma post_mono: "post P m \<Longrightarrow> (\<And>x. P x \<Longrightarrow> Q x) \<Longrightarrow> post Q m"
  by (cases m) simp_all

lemma post_all: "(\<And>x. Q x) \<Longrightarrow> post Q m"
  by (cases m) simp_all

lemma postD: "post Q m \<Longrightarrow> m = Some x \<Longrightarrow> Q x"
  by simp

lemma post_option_case: "post Q (case v of None \<Rightarrow> a | Some x \<Rightarrow> f x) = (case v of None \<Rightarrow> post Q a | Some x \<Rightarrow> post Q (f x))"
  by (cases v) simp_all

text \<open>The fields that only connecting and subscribing change.\<close>

definition core :: "'u MQTTClient \<Rightarrow> bool \<times> u32 \<times> bool" where
  "core c = (connected c, next_packetid c, callbacks_ok c)"



lemma core_simps [simp]:
  "core (c\<lparr>readbuf := m\<rparr>) = core c" "core (c\<lparr>cbuf := m\<rparr>) = core c" "core (c\<lparr>rx := s\<rparr>) = core c"
  "core (c\<lparr>sends := x\<rparr>) = core c" "core (c\<lparr>selects := y\<rparr>) = core c" "core (c\<lparr>tx := t\<rparr>) = core c"
  "core (c\<lparr>tick_ping := k\<rparr>) = core c" "core (c\<lparr>c_keepAlive := ka\<rparr>) = core c" "core (c\<lparr>user := u\<rparr>) = core c"
  "core (c\<lparr>connect_timeout := i\<rparr>) = core c" "core (c\<lparr>reconnect_interval := i\<rparr>) = core c" "core (c\<lparr>sock := i\<rparr>) = core c"
  by (simp_all add: core_def callbacks_ok_def)

lemma core_pub: "core (c\<lparr>pub := p\<rparr>) = (isconnected p, next_packetid c, callbacks_ok c)"
  by (simp add: core_def callbacks_ok_def)

lemma core_connected: "core (set_connected b c) = (b, next_packetid c, callbacks_ok c)"
  by (simp add: core_def set_connected_def callbacks_ok_def)

lemma core_select [simp]: "core (snd (select c)) = core c"
  by (simp add: select_def split: list.splits)

text \<open>The operation keeps the core of the client it starts from.\<close>

abbreviation keeps :: "'u MQTTClient \<Rightarrow> ('a \<times> 'u MQTTClient) option \<Rightarrow> bool" where
  "keeps c \<equiv> post (\<lambda>r. core (snd r) = core c)"

lemma keeps_then: "keeps c m \<Longrightarrow> (\<And>x d. core d = core c \<Longrightarrow> Q (x, d)) \<Longrightarrow> post Q m"
  by (erule post_mono) auto

lemma keeps_sendPacket: "core c = core c0 \<Longrightarrow> keeps c0 (sendPacket c n)"
  by (auto simp: sendPacket_def Let_def intro!: post_all)

lemma keeps_readPacket: "core c = core c0 \<Longrightarrow> keeps c0 (MQTTPacket_readPacket c)"
  by (auto simp: MQTTPacket_readPacket_def Let_def intro!: post_all)

lemma keeps_send_ack: "core c = core c0 \<Longrightarrow> keeps c0 (send_ack t i c)"
  by (auto simp: send_ack_def Let_def intro!: post_all keeps_sendPacket)

lemma deliver_loop_keeps:
  "list_all handler_ok hs \<Longrightarrow> isconnected (fst (snd st)) = k \<Longrightarrow>
   post (\<lambda>r. isconnected (fst (snd (snd r))) = k) (deliver_loop msg hs rc st)"
proof (induction hs arbitrary: rc st)
  case (Cons h hs)
  obtain m p u where st: "st = (m, p, u)" by (cases st)
  have k: "isconnected p' = k" if "cb msg (m, p, u) = Some (m', p', u')" "mh_callback h = Some cb" for cb m' p' u'
    using that Cons.prems st unfolding handler_ok_def cb_ok_def by fastforce
  have "post (\<lambda>st. post (\<lambda>r. isconnected (fst (snd (snd r))) = k)
      (if blocked (fst (snd st)) then Some (0, st) else deliver_loop msg hs 0 st)) (cb msg (m, p, u))"
    if "mh_callback h = Some cb" for cb
    using Cons k that by (cases "cb msg (m, p, u)") auto
  then show ?case
    using Cons st by (cases "mh_callback h") (auto intro!: post_all)
qed simp

lemma keeps_deliverMessage:
  assumes "core c = core c0" and ok: "callbacks_ok c0"
  shows "keeps c0 (deliverMessage msg c)"
proof -
  have h: "list_all handler_ok (messageHandlers c)" "pred_option cb_ok (defaultMessageHandler c)" "connected c = connected c0"
      "next_packetid c = next_packetid c0" "callbacks_ok c"
    using assms by (auto simp: core_def callbacks_ok_def)
  have "post (\<lambda>(rc, m, p, u). isconnected p = connected c0) (do {
     (rc, st) \<leftarrow> deliver_loop msg (messageHandlers c) (- 1) (readbuf c, pub c, user c);
     (case defaultMessageHandler c of
        Some cb \<Rightarrow> if rc = - 1 then do { st \<leftarrow> cb msg st; Some (0, st) } else Some (rc, st)
      | None \<Rightarrow> Some (rc, st)) })"
    using deliver_loop_keeps [OF h(1), of "(readbuf c, pub c, user c)" "connected c0" msg "- 1"] h(2,3)
    apply (cases "defaultMessageHandler c")
     apply (auto elim!: post_mono simp: cb_ok_def)
    subgoal for cb m p u by (cases "cb msg (m, p, u)") (simp, force)
    subgoal for cb m p u by (cases "cb msg (m, p, u)") (simp, force)
    done
  then show ?thesis
    using h ok by (auto simp: deliverMessage_def core_def elim!: post_mono) (simp_all add: callbacks_ok_def)
qed

lemma keeps_cycle_publish:
  assumes "core c = core c0" and "callbacks_ok c0"
  shows "keeps c0 (cycle_publish e c)"
  using assms
  by (auto simp: cycle_publish_def intro!: post_all keeps_send_ack keeps_then [OF keeps_deliverMessage [OF assms]])

lemma keeps_MQTT_cycle:
  assumes "core c = core c0" and "callbacks_ok c0"
  shows "keeps c0 (MQTT_cycle e c)"
  unfolding MQTT_cycle_def
  using assms(2)
  by (auto intro!: keeps_then [OF keeps_readPacket [OF assms(1)]] keeps_cycle_publish keeps_send_ack
      intro: post_all simp: cycle_pubrec_def)

subsection \<open>Connecting and subscribing\<close>

text \<open>
  The invariant in a form that only depends on the core: connected only if allowed, packet identifiers in
  their range, callbacks that leave the connection state alone.
\<close>

definition fine :: "bool \<Rightarrow> bool \<times> u32 \<times> bool \<Rightarrow> bool" where
  "fine k q = (case q of (con, i, cbs) \<Rightarrow> (con \<longrightarrow> k) \<and> unat i \<le> 65535 \<and> cbs)"

lemma fine_core: "fine k (core c) \<longleftrightarrow> (connected c \<longrightarrow> k) \<and> unat (next_packetid c) \<le> 65535 \<and> callbacks_ok c"
  by (simp add: fine_def core_def)

lemma fine_weaken: "fine False q \<Longrightarrow> fine k q" "fine k q \<Longrightarrow> fine True q"
  by (auto simp: fine_def)

lemma fine_disconnected [simp]: "fine k (core (set_connected False c)) \<longleftrightarrow> fine True (core c)"
  unfolding core_connected by (simp add: fine_def core_def)

lemma core_next_id: "core (snd (getNextPacketId c)) = (connected c, fst (getNextPacketId c), callbacks_ok c)"
  by (simp add: getNextPacketId_def core_def callbacks_ok_def Let_def)

lemma next_id_range:
  assumes "unat (next_packetid c) \<le> 65535"
  shows "1 \<le> unat (fst (getNextPacketId c)) \<and> unat (fst (getNextPacketId c)) \<le> 65535"
proof (cases "next_packetid c = 65535")
  case False
  then have "unat (next_packetid c) \<noteq> unat (65535 :: u32)" by (metis unsigned_word_eqI)
  with assms have "unat (next_packetid c) + 1 \<le> 65535" by simp
  then have "unat (next_packetid c + 1) = unat (next_packetid c) + 1" by (simp add: unat_word_ariths)
  with False \<open>unat (next_packetid c) + 1 \<le> 65535\<close> show ?thesis by (simp add: getNextPacketId_def Let_def)
qed (simp add: getNextPacketId_def)

lemma fine_next_id: "fine k (core c) \<Longrightarrow> fine k (core (snd (getNextPacketId c)))"
  unfolding core_next_id using next_id_range [of c] by (auto simp: fine_def core_def)

lemma fine_keeps: "fine k (core c) \<Longrightarrow> keeps c m \<Longrightarrow> post (\<lambda>r. fine k (core (snd r))) m"
  by (erule post_mono) simp

lemma fine_MQTTConnect:
  assumes "fine False (core c)"
  shows "post (\<lambda>r. fine (fst r = 0) (core (snd r))) (MQTTConnect out c)"
proof -
  have f: "fine False (core d)" "fine (rc = 0) (core d)" if "core d = core c" for d and rc :: int
    using assms fine_weaken that by metis+
  have s: "fine True (core (set_connected True d))" if "core d = core c" for d
    using f(1) [OF that] unfolding core_connected by (simp add: fine_def core_def)
  have sp: "core (snd (select d)) = core c" if "core d = core c" for d using that by simp
  have "\<not> connected c" using assms by (simp add: fine_core)
  then show ?thesis
    unfolding MQTTConnect_def Let_def
    apply (simp add: case_prod_beta)
    apply (rule post_all)
    apply (simp add: case_prod_beta f)
    apply (intro impI)
    apply (rule keeps_then [OF keeps_sendPacket])
     apply simp
    apply (simp add: case_prod_beta f)
    apply (intro impI)
    apply (rule keeps_then [OF keeps_readPacket])
     apply (erule sp)
    apply (simp add: case_prod_beta f)
    apply (intro impI)
    apply (rule post_all)
    apply (simp add: case_prod_beta f s)
    done
qed

text \<open>The rules that carry the invariant through the operations, for a program in normal form.\<close>

lemma fine_send: "fine k (core c) \<Longrightarrow> (\<And>x d. fine k (core d) \<Longrightarrow> Q (x, d)) \<Longrightarrow> post Q (sendPacket c n)"
  by (rule keeps_then [OF keeps_sendPacket [OF refl]]) simp

lemma fine_read: "fine k (core c) \<Longrightarrow> (\<And>x d. fine k (core d) \<Longrightarrow> Q (x, d)) \<Longrightarrow> post Q (MQTTPacket_readPacket c)"
  by (rule keeps_then [OF keeps_readPacket [OF refl]]) simp

lemma fine_MQTTSubscribe:
  assumes "fine k (core c)"
  shows "post (\<lambda>r. fine k (core (snd r))) (MQTTSubscribe pid c topic qos)"
  using fine_next_id [OF assms] assms
  unfolding MQTTSubscribe_def Let_def
  apply (simp add: case_prod_beta)
  apply (rule impI, rule post_all)
  apply (auto simp: case_prod_beta intro!: fine_send [where k = k] fine_read [where k = k] intro: post_all)
  done

lemma fine_subscribe_all:
  "fine k (core c) \<Longrightarrow> post (\<lambda>r. fine k (core (snd r))) (subscribe_all pid hs c)"
proof (induction hs arbitrary: c)
  case (Cons h hs)
  show ?case
  proof (cases "topicFilter h")
    case (Some topic)
    show ?thesis
      using fine_MQTTSubscribe [OF Cons.prems, of pid topic "mh_qos h"] Cons.IH Some
      by (auto simp: case_prod_beta elim!: post_mono)
  qed (use Cons in simp)
qed simp

lemma fine_MQTTDisconnect:
  assumes "fine True (core c)"
  shows "post (\<lambda>r. fine k (core (snd r))) (MQTTDisconnect c)"
  unfolding MQTTDisconnect_def Let_def
  using assms
  by (auto simp: case_prod_beta intro!: fine_send [where k = True] intro: post_all)

lemma fine_net_connect:
  assumes "fine k (core c)"
  shows "post (\<lambda>r. fine k (core (snd r))) (net_connect e c)"
proof -
  have "fine k (core (c\<lparr>next_packetid := 0\<rparr>))" "fine k (core (c\<lparr>sock := - 1, next_packetid := 0\<rparr>))"
    using assms by (simp_all add: fine_def core_def callbacks_ok_def)
  then show ?thesis
    unfolding net_connect_def Let_def
    by (auto simp: case_prod_beta post_option_case split: option.splits intro!: post_all)
qed

lemma fine_event:
  assumes "fine k (core c)" and "pred_option ev_ok f"
  shows "post (\<lambda>d. fine k (core d)) (event f c)"
proof (cases f)
  case (Some g)
  have "isconnected p' = connected c" if "g (pub c, user c) = Some (p', u')" for p' u'
    using that assms(2) Some by (auto simp: ev_ok_def)
  then show ?thesis
    using Some assms(1) [unfolded fine_core] by (cases "g (pub c, user c)") (auto simp: event_def fine_def core_pub)
qed (use assms in \<open>simp add: event_def\<close>)

subsection \<open>The thread\<close>

text \<open>The places at which the client may be connected.\<close>

definition may_connect :: "mpoint \<Rightarrow> bool" where
  "may_connect pt \<longleftrightarrow> pt = MLoop \<or> pt = MDisconnect \<or> pt = MDisconnectExit \<or> pt = MStuck"

lemma may_connect_simps [simp]:
  "may_connect MLoop" "may_connect MDisconnect" "may_connect MDisconnectExit" "may_connect MStuck"
  "\<not> may_connect MCreate" "\<not> may_connect MStart" "\<not> may_connect MRestart" "\<not> may_connect MExit"
  by (simp_all add: may_connect_def)

definition conn_inv :: "mpoint \<times> 'u MQTTClient \<Rightarrow> bool" where
  "conn_inv st = fine (may_connect (fst st)) (core (snd st))"

lemma fine_callbacks:
  assumes "fine k (core c)"
  shows "pred_option ev_ok (connect_callback c)" "pred_option ev_ok (online_callback c)" "pred_option ev_ok (offline_callback c)"
    "callbacks_ok c"
  using assms by (simp_all add: fine_core callbacks_ok_def)

lemma conn_thread_online:
  assumes "fine True (core c)"
  shows "post conn_inv (thread_online e c)"
proof -
  have "post (\<lambda>x. fine True (core x)) (event (online_callback d) d)" if "fine True (core d)" for d :: "'a MQTTClient"
    by (rule fine_event [OF that fine_callbacks(2) [OF that]])
  then show ?thesis
    using fine_subscribe_all [OF assms, of "ce_packetid e" "messageHandlers c"]
    unfolding thread_online_def by (simp add: case_prod_beta conn_inv_def) (erule post_mono, simp)
qed

lemma conn_thread_start:
  assumes "fine False (core c)"
  shows "post conn_inv (thread_start e c)"
proof -
  have c: "post (\<lambda>r. (fst r \<noteq> 0 \<longrightarrow> fine False (core (snd r))) \<and> (fst r = 0 \<longrightarrow> post conn_inv (thread_online e (snd r))))
      (MQTTConnect (te_connack e) d)" if "fine False (core d)" for d :: "'a MQTTClient"
    using fine_MQTTConnect [OF that, of "te_connack e"]
    by (rule post_mono) (auto intro: conn_thread_online)
  have n: "post (\<lambda>r. (fst r \<noteq> 0 \<longrightarrow> fine False (core (snd r))) \<and> (fst r = 0 \<longrightarrow>
        post (\<lambda>r. (fst r \<noteq> 0 \<longrightarrow> fine False (core (snd r))) \<and> (fst r = 0 \<longrightarrow> post conn_inv (thread_online e (snd r))))
          (MQTTConnect (te_connack e) (snd r)))) (net_connect (te_net e) d)"
    if "fine False (core d)" for d :: "'a MQTTClient"
    using fine_net_connect [OF that, of "te_net e"] by (rule post_mono) (auto intro: c)
  have i: "conn_inv (MRestart, d) \<longleftrightarrow> fine False (core d)" "conn_inv (MStuck, d) \<longleftrightarrow> fine True (core d)" for d :: "'a MQTTClient"
    by (simp_all add: conn_inv_def)
  show ?thesis
    unfolding thread_start_def
    using fine_event [OF assms fine_callbacks(1) [OF assms]] n
    by (simp add: case_prod_beta i) (erule post_mono, simp add: fine_weaken(1))
qed

text \<open>Computations that do not touch the client.\<close>

lemmas pure_ops =
  post_all [where m = "mem_read a b d" for a b d] post_all [where m = "mem_set a b d" for a b d]
  post_all [where m = "c_strcmp a b" for a b] post_all [where m = "pipe_fops_read a b d n" for a b d n]
  post_all [where m = "MQTTSerialize_publish a b d f g h i j k" for a b d f g h i j k]
  post_all [where m = "MQTTSerialize_pingreq a b" for a b] post_all [where m = "pipe_fops_write a b d n" for a b d n]
  post_all [where m = "c_strlen a" for a] post_all [where m = "c_str a" for a] post_all [where m = "find_topic a b n" for a b n]
  post_all [where m = "MQTTSerialize_subscribe a b d f g h i" for a b d f g h i]
  post_all [where m = "MQTTSerialize_unsubscribe a b d f g h" for a b d f g h]

lemma conn_thread_publish:
  assumes "fine True (core c)"
  shows "post conn_inv (thread_publish c)"
proof (cases "pub_pipe (pub c)")
  case (Some pipe)
  have p: "fine True (core (c\<lparr>pub := (pub c)\<lparr>pub_pipe := q\<rparr>\<rparr>))"
      "fine True (core (c\<lparr>pub := (pub c)\<lparr>pub_pipe := q, blocked := b\<rparr>\<rparr>))"
      "fine True (core (c\<lparr>readbuf := m, pub := (pub c)\<lparr>pub_pipe := q\<rparr>\<rparr>))"
      "fine True (core (c\<lparr>readbuf := m, pub := (pub c)\<lparr>pub_pipe := q, blocked := b\<rparr>\<rparr>))" for q b m
    unfolding core_pub using assms by (simp_all add: fine_def core_def) (simp_all add: callbacks_ok_def)
  show ?thesis
    unfolding thread_publish_def Some option.case Let_def
    using p
    by (auto simp: case_prod_beta conn_inv_def split: io_result.splits
        intro!: pure_ops fine_send [where k = True])
qed (simp add: thread_publish_def)

lemma conn_thread_loop:
  assumes "fine True (core c)"
  shows "post conn_inv (thread_loop e c)"
proof -
  have fc: "post conn_inv (do { (rc_t, c) \<leftarrow> MQTT_cycle (cycle_env.truncate e) d;
      Some (if blocked (pub c) then MStuck else if rc_t < 0 then MDisconnect else MLoop, c) })"
    if "fine True (core d)" for d :: "'a MQTTClient"
  proof -
    have "callbacks_ok d" using that by (simp add: fine_core)
    from keeps_MQTT_cycle [OF refl this] have "post (\<lambda>r. fine True (core (snd r))) (MQTT_cycle (cycle_env.truncate e) d)"
      by (rule fine_keeps [OF that])
    then show ?thesis by (auto simp: case_prod_beta conn_inv_def elim!: post_mono)
  qed
  have tail: "post conn_inv (if nx = MDisconnect then Some (MDisconnect, d)
     else if on_sock then do {
       (rc_t, c) \<leftarrow> MQTT_cycle (cycle_env.truncate e) d;
       Some (if blocked (pub c) then MStuck else if rc_t < 0 then MDisconnect else MLoop, c) }
     else if on_pipe then thread_publish d
     else Some (MLoop, d))" if "fine True (core d)" for nx on_sock on_pipe and d :: "'a MQTTClient"
    using fc [OF that] conn_thread_publish [OF that] that by (auto simp: conn_inv_def)
  obtain res os op d where s: "select c = ((res, os, op), d)" by (metis surj_pair)
  then have d: "fine True (core d)" using assms core_select [of c] by simp
  have "post (\<lambda>(next, on_sock, on_pipe, d). fine True (core d)) (if res = 0 then do {
          (len, m) \<leftarrow> MQTTSerialize_pingreq (cbuf d) (sint (buf_size d));
          let c = d\<lparr>cbuf := m\<rparr>;
          (rc, c) \<leftarrow> sendPacket c len;
          if rc \<noteq> 0 then Some (MDisconnect, False, False, c)
          else
            let ((res, on_sock, _), c) = select c in
            Some (if res \<le> 0 then MDisconnect else MLoop, on_sock, False, c) }
        else Some (if res < 0 then MDisconnect else MLoop, os, op, d))"
    using d by (auto simp: Let_def case_prod_beta intro!: pure_ops fine_send [where k = True])
  then show ?thesis
    unfolding thread_loop_def s Let_def prod.case post_simps(3)
  proof (rule post_mono, goal_cases)
    case (1 x)
    then show ?case by (cases x rule: prod_cases4) (simp only: prod.case, rule tail)
  qed
qed

lemma conn_thread_step:
  assumes "conn_inv (pt, c)"
  shows "post conn_inv (thread_step e pt c)"
proof -
  have d: "post (\<lambda>r. fine False (core (snd r))) (MQTTDisconnect c)" if "fine True (core c)"
    by (rule fine_MQTTDisconnect [OF that])
  have x: "fine False (core (net_disconnect_exit d))" if "fine True (core d)" for d :: "'a MQTTClient"
    using that
    by (auto simp: net_disconnect_exit_def net_disconnect_def set_connected_def Let_def fine_core callbacks_ok_def handler_ok_def list_all_iff)
  have n: "core (net_disconnect d) = core d" for d :: "'a MQTTClient" by (simp add: net_disconnect_def)
  have p: "fine False (core (c\<lparr>pub := (pub c)\<lparr>pub_pipe := q\<rparr>\<rparr>))" if "fine False (core c)" for q
    unfolding core_pub using that by (simp add: fine_def core_def)
  note pipe_init = post_all [where m = "mqtt_pipe_init a b d f" for a b d f]
  have i: "conn_inv (pt', d) \<longleftrightarrow> fine (may_connect pt') (core d)" for pt' and d :: "'a MQTTClient"
    by (simp add: conn_inv_def)
  show ?thesis
  proof (cases pt)
    case MRestart
    then have f: "fine False (core c)" using assms by (simp add: i)
    have "post conn_inv (do { c \<leftarrow> event (offline_callback c) c;
        Some (if blocked (pub c) then (MStuck, c) else (MStart, net_disconnect c)) })"
      unfolding post_simps(3)
      by (rule post_mono [OF fine_event [OF f fine_callbacks(3) [OF f]]]) (auto simp: i n fine_weaken)
    then show ?thesis using MRestart by (simp add: thread_step_def)
  next
    case MDisconnect
    then show ?thesis using assms d by (auto simp: thread_step_def i case_prod_beta elim!: post_mono)
  next
    case MDisconnectExit
    then show ?thesis using assms d x by (auto simp: thread_step_def i case_prod_beta fine_weaken elim!: post_mono)
  next
    case MCreate
    then show ?thesis using assms p by (auto simp: thread_step_def i fine_weaken intro!: pipe_init split: prod.split)
  next
    case MStart
    then show ?thesis using assms conn_thread_start by (simp add: thread_step_def i)
  next
    case MLoop
    then show ?thesis using assms conn_thread_loop by (simp add: thread_step_def i)
  qed (use assms in \<open>simp_all add: thread_step_def\<close>)
qed

subsection \<open>All threads\<close>

text \<open>
  The worker thread, the threads that call the interface of the client, and the network. A thread that
  waits in the pipe for the worker is not the worker: its waiting does not block the worker.
\<close>

inductive client_step :: "mpoint \<times> 'u MQTTClient \<Rightarrow> mpoint \<times> 'u MQTTClient \<Rightarrow> bool" where
  worker: "thread_step e pt c = Some st \<Longrightarrow> client_step (pt, c) st"
| publish: "MQTTPublish (pub c) topic m payload = Some (rc, p) \<Longrightarrow>
    client_step (pt, c) (pt, c\<lparr>pub := p\<lparr>blocked := blocked (pub c)\<rparr>\<rparr>)"
| stop: "paho_mqtt_stop (pub c) = Some (rc, p) \<Longrightarrow> client_step (pt, c) (pt, c\<lparr>pub := p\<lparr>blocked := blocked (pub c)\<rparr>\<rparr>)"
| subscribe: "paho_mqtt_subscribe dup qos topic cb c = Some (rc, c') \<Longrightarrow> pred_option cb_ok cb \<Longrightarrow> client_step (pt, c) (pt, c')"
| unsubscribe: "paho_mqtt_unsubscribe topic c = Some (rc, c') \<Longrightarrow> client_step (pt, c) (pt, c')"
| control: "client_step (pt, c) (pt, snd (paho_mqtt_control cmd arg c))"
| network: "client_step (pt, c) (pt, c\<lparr>rx := s, sends := x, selects := y, user := u\<rparr>)"

inductive_cases client_stepE: "client_step st st'"

lemma MQTT_local_send_keeps: "post (\<lambda>r. isconnected (snd r) = isconnected p) (MQTT_local_send p data n)"
  by (auto simp: MQTT_local_send_def Let_def case_prod_beta post_option_case split: option.splits io_result.splits intro!: pure_ops)

lemma alloc_keeps: "isconnected (snd (alloc p)) = isconnected p"
  by (simp add: alloc_def split: list.splits)

lemma MQTTPublish_keeps: "post (\<lambda>r. isconnected (snd r) = isconnected p) (MQTTPublish p topic m payload)"
  unfolding MQTTPublish_def Let_def
  using alloc_keeps [of p]
  by (auto simp: case_prod_beta intro!: pure_ops post_mono [OF MQTT_local_send_keeps])

lemma MQTT_CMD_keeps: "post (\<lambda>r. isconnected (snd r) = isconnected p) (MQTT_CMD p cmd)"
  unfolding MQTT_CMD_def Let_def
  using alloc_keeps [of p]
  by (auto simp: case_prod_beta intro!: pure_ops post_mono [OF MQTT_local_send_keeps])

lemma fine_handlers:
  assumes "fine k (core c)" and "i < length (messageHandlers c) \<Longrightarrow> handler_ok h"
  shows "fine k (core (c\<lparr>messageHandlers := (messageHandlers c)[i := h]\<rparr>))"
proof (cases "i < length (messageHandlers c)")
  case True
  then show ?thesis
    using assms by (auto simp: fine_core callbacks_ok_def list_all_iff dest!: subsetD [OF set_update_subset_insert])
qed (use assms in \<open>simp add: fine_core callbacks_ok_def list_update_beyond\<close>)

lemma handler_nth: "fine k (core c) \<Longrightarrow> i < length (messageHandlers c) \<Longrightarrow> pred_option cb_ok (mh_callback (messageHandlers c ! i))"
  by (simp add: fine_core callbacks_ok_def list_all_length handler_ok_def)

lemma fine_subscribe:
  assumes "fine k (core c)" and "pred_option cb_ok cb"
  shows "post (\<lambda>r. fine k (core (snd r))) (paho_mqtt_subscribe dup qos topic cb c)"
proof -
  have w: "fine True q" if "fine k q" for q using that by (rule fine_weaken(2))
  show ?thesis
    unfolding paho_mqtt_subscribe_def Let_def
    using fine_next_id [OF assms(1)] assms
    by (auto simp: case_prod_beta post_option_case handler_ok_def w handler_nth [where k = k] split: option.splits
        intro!: pure_ops fine_send [where k = k] fine_handlers)
qed

lemma fine_unsubscribe:
  assumes "fine k (core c)"
  shows "post (\<lambda>r. fine k (core (snd r))) (paho_mqtt_unsubscribe topic c)"
  unfolding paho_mqtt_unsubscribe_def Let_def
  using fine_next_id [OF assms(1)] assms
  by (auto simp: case_prod_beta post_option_case handler_ok_def split: option.splits
      intro!: pure_ops fine_send [where k = k] fine_handlers intro: fine_weaken(2) [where k = k] handler_nth [where k = k])

lemma conn_step:
  assumes "client_step st st'" and "conn_inv st"
  shows "conn_inv st'"
  using assms
proof (cases rule: client_step.cases)
  case (worker e pt c)
  then show ?thesis using conn_thread_step [of pt c e] assms(2) by simp
next
  case (publish c topic m payload rc p pt)
  have "isconnected p = connected c" using postD [OF MQTTPublish_keeps publish(3)] by simp
  then show ?thesis using publish assms(2) by (auto simp: conn_inv_def fine_core callbacks_ok_def)
next
  case (stop c rc p pt)
  have "isconnected p = connected c" using postD [OF MQTT_CMD_keeps stop(3) [unfolded paho_mqtt_stop_def]] by simp
  then show ?thesis using stop assms(2) by (auto simp: conn_inv_def fine_core callbacks_ok_def)
next
  case (subscribe dup qos topic cb c rc c' pt)
  then show ?thesis using postD [OF fine_subscribe [OF _ subscribe(4)] subscribe(3)] assms(2) by (simp add: conn_inv_def)
next
  case (unsubscribe topic c rc c' pt)
  then show ?thesis using postD [OF fine_unsubscribe unsubscribe(3)] assms(2) by (simp add: conn_inv_def)
next
  case (control pt c cmd arg)
  then show ?thesis using assms(2)
    by (cases cmd) (auto simp: conn_inv_def paho_mqtt_control_def core_pub fine_def core_def callbacks_ok_def)
next
  case (network pt c s x y u)
  then show ?thesis using assms(2) by (simp add: conn_inv_def)
qed

text \<open>The callbacks of the application leave the connection state alone.\<close>

lemma publish_all_keeps: "post (\<lambda>p'. isconnected p' = isconnected p) (publish_all junk p xs)"
proof (induction xs arbitrary: p)
  case (Cons x xs)
  obtain q r t pl where x: "x = (q, r, t, pl)" by (cases x)
  have "post (\<lambda>r. post (\<lambda>p'. isconnected p' = isconnected p) (publish_all junk (snd r) xs))
      (MQTTPublish p t (outgoing_message junk x) pl)"
  proof (rule post_mono [OF MQTTPublish_keeps])
    fix r :: "int \<times> pub_side"
    assume "isconnected (snd r) = isconnected p"
    then show "post (\<lambda>p'. isconnected p' = isconnected p) (publish_all junk (snd r) xs)"
      using Cons.IH [of "snd r"] by (simp only:)
  qed
  then show ?case by (simp add: x case_prod_beta)
qed simp

lemma app_callbacks_ok:
  "cb_ok (app_sub_callback junk)" "cb_ok app_default_callback" "ev_ok (app_online_callback junk)" "ev_ok app_quiet_callback"
  by (auto simp: cb_ok_def ev_ok_def app_sub_callback_def app_default_callback_def app_online_callback_def
      app_quiet_callback_def bind_eq_Some_conv dest!: postD [OF publish_all_keeps])

lemma conn_started:
  assumes "mqtt_start_client junk bufp rbufp dup mutex thread c0 = (0, True, c)" and "unat (next_packetid c0) \<le> 65535"
  shows "conn_inv (MCreate, c)"
  using assms app_callbacks_ok
  by (auto simp: mqtt_start_client_def paho_mqtt_start_def set_connected_def app_handlers_def handler_ok_def conn_inv_def fine_core
      callbacks_ok_def Let_def split: if_splits option.splits)


definition demo_mqtt_pipe :: rt_pipe_device where
  "demo_mqtt_pipe = the (the (mqtt_pipe_init True (Some rb_raw) (Some (replicate 512 0)) (True, True)))"

lemma mqtt_pipe_ready:
  assumes "length pool = 512"
  shows "\<exists>pipe. mqtt_pipe_init True (Some rb) (Some pool) (True, True) = Some (Some pipe) \<and> pipe_ok pipe \<and>
    pipe_bytes pipe = [] \<and> pipe_cap pipe = 512 \<and> readers pipe = 1 \<and> writers pipe = 1"
proof -
  let ?new = "\<lparr>is_named = True, fifo = None, bufsz = 512, readers = 0, writers = 0, ref_count = 0\<rparr>"
  obtain p1 p2 where "pipe_fops_open (Some rb) (Some pool) O_RDONLY ?new = Some (0, p1)"
    "pipe_fops_open (Some rb) (Some pool) O_WRONLY p1 = Some (0, p2)"
    "pipe_ok p2" "pipe_bytes p2 = []" "pipe_cap p2 = 512" "readers p2 = 1" "writers p2 = 1"
    by (rule pipe_opened [of ?new pool rb "Some rb" "Some pool"]) (use assms in simp_all)
  then show ?thesis by (simp add: mqtt_pipe_init_def rt_pipe_create_def)
qed

lemma demo_mqtt_pipe: "mqtt_pipe_init True (Some rb_raw) (Some (replicate 512 0)) (True, True) = Some (Some demo_mqtt_pipe)"
  using mqtt_pipe_ready [of "replicate 512 0" rb_raw] by (auto simp: demo_mqtt_pipe_def)

definition demo_started :: "int app MQTTClient" where
  "demo_started = snd (snd (mqtt_start_client junk0 (Some (replicate 1024 0)) (Some (replicate 1024 0)) (Some (lit ''Applets'')) True True
     (client0 0 app_idle)))"

lemma demo_started_eq:
  "mqtt_start_client junk0 (Some (replicate 1024 0)) (Some (replicate 1024 0)) (Some (lit ''Applets'')) True True (client0 0 app_idle)
   = (0, True, demo_started)"
  by (simp add: demo_started_def mqtt_start_client_def paho_mqtt_start_def client0_def app_idle_def app0_def Let_def)


end
