(* ===== verification/Klist.thy ===== *)
theory Klist
  imports Prelude
begin

text \<open>
  The doubly linked lists of the kernel, \<open>rt_list_t\<close> of \<open>rt-thread/include/rtservice.h\<close>. The nodes are in a
  store from addresses to nodes; an address is whatever the client uses to name its nodes. The predicate
  \<open>dlist\<close> says that the nodes of a list, with its head, form a ring.
\<close>

subsection \<open>The operations\<close>

record 'p rt_list_node =
  l_next :: 'p
  l_prev :: 'p

type_synonym 'p links = "'p \<Rightarrow> 'p rt_list_node"

definition set_next :: "'p \<Rightarrow> 'p \<Rightarrow> 'p links \<Rightarrow> 'p links" where
  "set_next p q s = s(p := (s p)\<lparr>l_next := q\<rparr>)"

definition set_prev :: "'p \<Rightarrow> 'p \<Rightarrow> 'p links \<Rightarrow> 'p links" where
  "set_prev p q s = s(p := (s p)\<lparr>l_prev := q\<rparr>)"

definition rt_list_init :: "'p \<Rightarrow> 'p links \<Rightarrow> 'p links" where
  "rt_list_init l s = set_next l l (set_prev l l s)"

definition rt_list_insert_after :: "'p \<Rightarrow> 'p \<Rightarrow> 'p links \<Rightarrow> 'p links" where
  "rt_list_insert_after l n s =
     (let s = set_prev (l_next (s l)) n s;
          s = set_next n (l_next (s l)) s;
          s = set_next l n s in
      set_prev n l s)"

definition rt_list_insert_before :: "'p \<Rightarrow> 'p \<Rightarrow> 'p links \<Rightarrow> 'p links" where
  "rt_list_insert_before l n s =
     (let s = set_next (l_prev (s l)) n s;
          s = set_prev n (l_prev (s l)) s;
          s = set_prev l n s in
      set_next n l s)"

definition rt_list_remove :: "'p \<Rightarrow> 'p links \<Rightarrow> 'p links" where
  "rt_list_remove n s =
     (let s = set_prev (l_next (s n)) (l_prev (s n)) s;
          s = set_next (l_prev (s n)) (l_next (s n)) s in
      set_next n n (set_prev n n s))"

definition rt_list_isempty :: "'p \<Rightarrow> 'p links \<Rightarrow> bool" where
  "rt_list_isempty l s \<longleftrightarrow> l_next (s l) = l"

partial_function (option) list_len_loop :: "'p links \<Rightarrow> 'p \<Rightarrow> 'p \<Rightarrow> u32 \<Rightarrow> u32 option" where
  "list_len_loop s l p len =
     (if l_next (s p) \<noteq> l then list_len_loop s l (l_next (s p)) (len + 1) else Some len)"

definition rt_list_len :: "'p \<Rightarrow> 'p links \<Rightarrow> u32 option" where
  "rt_list_len l s = list_len_loop s l l 0"

subsection \<open>Rings\<close>

text \<open>\<open>path s a xs b\<close>: the links lead from \<open>a\<close> through \<open>xs\<close> to \<open>b\<close>, and back.\<close>

fun path :: "'p links \<Rightarrow> 'p \<Rightarrow> 'p list \<Rightarrow> 'p \<Rightarrow> bool" where
  "path s a [] b \<longleftrightarrow> l_next (s a) = b \<and> l_prev (s b) = a"
| "path s a (x # xs) b \<longleftrightarrow> l_next (s a) = x \<and> l_prev (s x) = a \<and> path s x xs b"

definition dlist :: "'p links \<Rightarrow> 'p \<Rightarrow> 'p list \<Rightarrow> bool" where
  "dlist s l xs \<longleftrightarrow> path s l xs l \<and> distinct (l # xs)"

lemma path_append: "path s a (xs @ x # ys) b \<longleftrightarrow> path s a xs x \<and> path s x ys b"
  by (induction xs arbitrary: a) auto

lemma path_ends: "path s a xs b \<Longrightarrow> l_next (s a) = hd (xs @ [b]) \<and> l_prev (s b) = last (a # xs)"
  by (induction xs arbitrary: a) auto

text \<open>A path survives changes elsewhere, and can be led to another end.\<close>

lemma path_retarget:
  assumes "path s a xs b" and "\<forall>p \<in> set (butlast (a # xs)). l_next (s' p) = l_next (s p)"
    and "\<forall>p \<in> set xs. l_prev (s' p) = l_prev (s p)" and "l_next (s' (last (a # xs))) = c" and "l_prev (s' c) = last (a # xs)"
  shows "path s' a xs c"
  using assms by (induction xs arbitrary: a) auto

lemma path_frame:
  assumes "path s a xs b" and "\<forall>p \<in> set (a # xs). l_next (s' p) = l_next (s p)"
    and "\<forall>p \<in> set (xs @ [b]). l_prev (s' p) = l_prev (s p)"
  shows "path s' a xs b"
  using assms by (induction xs arbitrary: a) auto

lemma dlist_frame:
  assumes "dlist s l xs" and "\<forall>p \<in> set (l # xs). s' p = s p"
  shows "dlist s' l xs"
  using assms path_frame [of s l xs l s'] by (auto simp: dlist_def)

lemma dlist_init: "dlist (rt_list_init l s) l []"
  by (simp add: dlist_def rt_list_init_def set_next_def set_prev_def)

lemma dlist_isempty: "dlist s l xs \<Longrightarrow> rt_list_isempty l s \<longleftrightarrow> xs = []"
  by (cases xs) (auto simp: dlist_def rt_list_isempty_def)

lemma dlist_next: "dlist s l (xs @ ys) \<Longrightarrow> l_next (s (last (l # xs))) = hd (ys @ [l])"
  by (cases ys; cases xs rule: rev_cases) (auto simp: dlist_def path_append dest: path_ends)

lemma dlist_prev: "dlist s l xs \<Longrightarrow> l_prev (s l) = last (l # xs)"
  by (auto simp: dlist_def dest: path_ends)

text \<open>What the operations do to the links.\<close>

lemma insert_after_links:
  assumes "n \<noteq> p" and "l_next (s p) \<noteq> n"
  shows "l_next (rt_list_insert_after p n s x) = (if x = n then l_next (s p) else if x = p then n else l_next (s x))"
    and "l_prev (rt_list_insert_after p n s x) = (if x = n then p else if x = l_next (s p) then n else l_prev (s x))"
  using assms by (auto simp: rt_list_insert_after_def set_next_def set_prev_def Let_def)

lemma insert_before_links:
  assumes "n \<noteq> p" and "l_prev (s p) \<noteq> n"
  shows "l_prev (rt_list_insert_before p n s x) = (if x = n then l_prev (s p) else if x = p then n else l_prev (s x))"
    and "l_next (rt_list_insert_before p n s x) = (if x = n then p else if x = l_prev (s p) then n else l_next (s x))"
  using assms by (auto simp: rt_list_insert_before_def set_next_def set_prev_def Let_def)

lemma remove_links:
  "l_next (rt_list_remove n s x) = (if x = n then n else if x = l_prev (s n) then l_next (s n) else l_next (s x))"
  "l_prev (rt_list_remove n s x) = (if x = n then n else if x = l_next (s n) then l_prev (s n) else l_prev (s x))"
  by (auto simp: rt_list_remove_def set_next_def set_prev_def Let_def)

lemma last_notin_butlast: "distinct xs \<Longrightarrow> xs \<noteq> [] \<Longrightarrow> last xs \<notin> set (butlast xs)"
  by (induction xs) auto

text \<open>A list seen at a place between two nodes: the links before and behind it.\<close>

lemma dlist_split:
  assumes "dlist s l (xs @ ys)"
  shows "path s l xs (hd (ys @ [l]))" and "ys \<noteq> [] \<Longrightarrow> path s (hd ys) (tl ys) l"
  using assms by (cases ys; simp add: dlist_def path_append)+

text \<open>Inserting behind a node of the list, the head included.\<close>

lemma dlist_insert_after:
  assumes d: "dlist s l (xs @ ys)" and n: "n \<notin> set (l # xs @ ys)"
  shows "dlist (rt_list_insert_after (last (l # xs)) n s) l (xs @ n # ys)"
proof -
  define p where p: "p = last (l # xs)"
  let ?s = "rt_list_insert_after p n s"
  have dis: "distinct (l # xs @ ys)" using d by (simp add: dlist_def)
  have pin: "p \<in> set (l # xs)" unfolding p by (rule last_in_set) simp
  have q: "l_next (s p) = hd (ys @ [l])" using dlist_next [OF d] p by simp
  have np: "n \<noteq> p" "l_next (s p) \<noteq> n" using n pin q by (auto simp: hd_append)
  note lk = insert_after_links [of n p s, OF np]
  have pb: "p \<notin> set (butlast (l # xs))" unfolding p using dis by (intro last_notin_butlast) auto
  have nb: "n \<notin> set (butlast (l # xs))" using n by (auto dest: in_set_butlastD)
  have qx: "hd (ys @ [l]) \<notin> set xs" using dis by (cases ys) auto
  have "path ?s l xs n"
  proof (rule path_retarget [OF dlist_split(1) [OF d]])
    show "\<forall>p \<in> set (butlast (l # xs)). l_next (?s p) = l_next (s p)" using pb nb by (auto simp: lk)
    show "\<forall>p \<in> set xs. l_prev (?s p) = l_prev (s p)" using qx n by (auto simp: lk q)
  qed (use np in \<open>simp_all only: p [symmetric] lk\<close>, simp_all)
  moreover have "path ?s n ys l"
  proof (cases ys)
    case Nil
    then show ?thesis using q n by (auto simp: lk)
  next
    case (Cons y zs)
    have "path ?s y zs l"
      by (rule path_frame [OF dlist_split(2) [OF d, unfolded Cons, simplified]])
        (use dis n pin Cons q in \<open>auto simp: lk\<close>)
    then show ?thesis using Cons q n by (auto simp: lk)
  qed
  ultimately show ?thesis using dis n unfolding p [symmetric] by (auto simp: dlist_def path_append)
qed

lemma dlist_remove:
  assumes d: "dlist s l (xs @ n # ys)"
  shows "dlist (rt_list_remove n s) l (xs @ ys)"
proof -
  define z where z: "z = last (l # xs)"
  let ?s = "rt_list_remove n s"
  have dis: "distinct (l # xs @ n # ys)" using d by (simp add: dlist_def)
  have pa: "path s l xs n" "path s n ys l" using d by (simp_all add: dlist_def path_append)
  have p: "l_prev (s n) = z" "l_next (s n) = hd (ys @ [l])" using path_ends [OF pa(1)] path_ends [OF pa(2)] z by simp_all
  have pin: "z \<in> set (l # xs)" unfolding z by (rule last_in_set) simp
  have pb: "z \<notin> set (butlast (l # xs))" unfolding z using dis by (intro last_notin_butlast) auto
  have nb: "n \<notin> set (butlast (l # xs))" using dis by (auto dest: in_set_butlastD)
  have np: "z \<noteq> n" "hd (ys @ [l]) \<noteq> n" "hd (ys @ [l]) \<notin> set xs" using dis pin by (auto simp: hd_append)
  have "path ?s l xs (hd (ys @ [l]))"
  proof (rule path_retarget [OF pa(1)])
    show "\<forall>q \<in> set (butlast (l # xs)). l_next (?s q) = l_next (s q)" using pb nb by (auto simp: remove_links p)
    show "\<forall>q \<in> set xs. l_prev (?s q) = l_prev (s q)" using np dis by (auto simp: remove_links p)
  qed (use np in \<open>simp_all only: z [symmetric] remove_links p\<close>, simp_all)
  moreover have "path ?s y zs l" if "ys = y # zs" for y zs
    by (rule path_frame [of s]) (use pa(2) that dis pin p in \<open>auto simp: remove_links\<close>)
  ultimately show ?thesis using dis by (cases ys) (auto simp: dlist_def path_append)
qed

text \<open>Inserting before a node is inserting behind the one before it.\<close>

lemma insert_before_after:
  assumes "l_next (s (l_prev (s p))) = p" and "n \<noteq> p" and "n \<noteq> l_prev (s p)"
  shows "rt_list_insert_before p n s = rt_list_insert_after (l_prev (s p)) n s"
proof (rule ext)
  fix x
  have "l_next (s (l_prev (s p))) \<noteq> n" "l_prev (s p) \<noteq> n" using assms by auto
  with assms show "rt_list_insert_before p n s x = rt_list_insert_after (l_prev (s p)) n s x"
    by (intro rt_list_node.equality) (auto simp: insert_before_links insert_after_links)
qed

lemma insert_before_is_after:
  assumes d: "dlist s l (xs @ ys)" and n: "n \<notin> set (l # xs @ ys)"
  shows "rt_list_insert_before (hd (ys @ [l])) n s = rt_list_insert_after (last (l # xs)) n s"
proof -
  define z where z: "z = last (l # xs)"
  have "z \<in> set (l # xs)" unfolding z by (rule last_in_set) simp
  moreover have "l_next (s z) = hd (ys @ [l])" using dlist_next [OF d] z by simp
  moreover have "l_prev (s (hd (ys @ [l]))) = z" using path_ends [OF dlist_split(1) [OF d]] z by simp
  moreover have "hd (ys @ [l]) \<noteq> n" using n by (cases ys) auto
  ultimately show ?thesis
    unfolding z [symmetric] using insert_before_after [of s "hd (ys @ [l])" n] n by auto
qed

lemma dlist_insert_before:
  assumes "dlist s l (xs @ ys)" and "n \<notin> set (l # xs @ ys)"
  shows "dlist (rt_list_insert_before (hd (ys @ [l])) n s) l (xs @ n # ys)"
  using dlist_insert_after [OF assms] by (simp only: insert_before_is_after [OF assms])

text \<open>Nodes that are in no list, and lists that an operation does not touch.\<close>

lemma dlist_alone: "dlist (rt_list_remove n s) n []"
  by (simp add: dlist_def remove_links)

lemma remove_alone: "dlist s n [] \<Longrightarrow> rt_list_remove n s = s"
  by (intro ext rt_list_node.equality) (auto simp: dlist_def remove_links)

lemma dlist_disjoint_nodes: "dlist s l (xs @ ys) \<Longrightarrow> l_next (s (last (l # xs))) \<in> set (l # xs @ ys)"
  using dlist_next [of s l xs ys] by (cases ys) auto

lemma insert_after_other:
  assumes "dlist s l (xs @ ys)" and "n \<notin> set (l # xs @ ys)" and "x \<notin> set (l # n # xs @ ys)"
  shows "rt_list_insert_after (last (l # xs)) n s x = s x"
proof -
  define z where z: "z = last (l # xs)"
  have "z \<in> set (l # xs)" unfolding z by (rule last_in_set) simp
  moreover have "l_next (s z) \<in> set (l # xs @ ys)" using dlist_disjoint_nodes [OF assms(1)] z by simp
  ultimately have "x \<noteq> n" "x \<noteq> z" "x \<noteq> l_next (s z)" "n \<noteq> z" "l_next (s z) \<noteq> n" using assms by auto
  then show ?thesis unfolding z [symmetric] by (intro rt_list_node.equality) (simp_all add: insert_after_links)
qed

lemma remove_other:
  assumes "dlist s l (xs @ n # ys)" and "x \<notin> set (l # xs @ n # ys)"
  shows "rt_list_remove n s x = s x"
proof -
  have pa: "path s l xs n" "path s n ys l" using assms(1) by (simp_all add: dlist_def path_append)
  have "l_prev (s n) \<in> set (l # xs)" using path_ends [OF pa(1)] by (metis last_in_set list.distinct(1))
  moreover have "l_next (s n) \<in> set (l # ys)" using path_ends [OF pa(2)] by (cases ys) auto
  ultimately show ?thesis using assms(2) by (intro rt_list_node.equality) (auto simp: remove_links)
qed

text \<open>The length is counted to the end of the list.\<close>

lemma list_len_loop_path:
  "path s p xs l \<Longrightarrow> l \<notin> set xs \<Longrightarrow> list_len_loop s l p n = Some (n + of_nat (length xs))"
proof (induction xs arbitrary: p n)
  case Nil
  then show ?case by (subst list_len_loop.simps) simp
next
  case (Cons x xs)
  then have "list_len_loop s l x (n + 1) = Some (n + 1 + of_nat (length xs))" by simp
  then show ?case using Cons.prems by (subst list_len_loop.simps) (auto simp: ac_simps)
qed

lemma dlist_len: "dlist s l xs \<Longrightarrow> rt_list_len l s = Some (of_nat (length xs))"
  using list_len_loop_path [of s l xs l 0] by (simp add: rt_list_len_def dlist_def)

subsection \<open>The interface\<close>

text \<open>
  What the users of the lists rely on: a store holds lists, each with a head, that the operations
  change as lists change, and changing one list leaves the others alone.
\<close>

locale node_list =
  fixes rep :: "'s \<Rightarrow> 'p \<Rightarrow> 'p list \<Rightarrow> bool"
    and init :: "'p \<Rightarrow> 's \<Rightarrow> 's"
    and insert_after :: "'p \<Rightarrow> 'p \<Rightarrow> 's \<Rightarrow> 's"
    and insert_before :: "'p \<Rightarrow> 'p \<Rightarrow> 's \<Rightarrow> 's"
    and remove :: "'p \<Rightarrow> 's \<Rightarrow> 's"
    and isempty :: "'p \<Rightarrow> 's \<Rightarrow> bool"
  assumes rep_distinct: "rep s l xs \<Longrightarrow> distinct (l # xs)"
    and rep_init: "rep (init l s) l []"
    and rep_isempty: "rep s l xs \<Longrightarrow> isempty l s \<longleftrightarrow> xs = []"
    and rep_insert_after: "rep s l (xs @ ys) \<Longrightarrow> n \<notin> set (l # xs @ ys) \<Longrightarrow> rep (insert_after (last (l # xs)) n s) l (xs @ n # ys)"
    and rep_insert_before: "rep s l (xs @ ys) \<Longrightarrow> n \<notin> set (l # xs @ ys) \<Longrightarrow> rep (insert_before (hd (ys @ [l])) n s) l (xs @ n # ys)"
    and rep_remove: "rep s l (xs @ n # ys) \<Longrightarrow> rep (remove n s) l (xs @ ys)"
    and rep_removed: "rep (remove n s) n []"
    and remove_lone: "rep s n [] \<Longrightarrow> remove n s = s"
    and insert_after_keeps: "rep s l (xs @ ys) \<Longrightarrow> n \<notin> set (l # xs @ ys) \<Longrightarrow> rep s k zs \<Longrightarrow>
      set (k # zs) \<inter> set (l # n # xs @ ys) = {} \<Longrightarrow> rep (insert_after (last (l # xs)) n s) k zs"
    and insert_before_keeps: "rep s l (xs @ ys) \<Longrightarrow> n \<notin> set (l # xs @ ys) \<Longrightarrow> rep s k zs \<Longrightarrow>
      set (k # zs) \<inter> set (l # n # xs @ ys) = {} \<Longrightarrow> rep (insert_before (hd (ys @ [l])) n s) k zs"
    and init_keeps: "rep s k zs \<Longrightarrow> l \<notin> set (k # zs) \<Longrightarrow> rep (init l s) k zs"
    and remove_keeps: "rep s l (xs @ n # ys) \<Longrightarrow> rep s k zs \<Longrightarrow> set (k # zs) \<inter> set (l # xs @ n # ys) = {} \<Longrightarrow> rep (remove n s) k zs"
begin

text \<open>Appending at the end, and moving a node to the end of its list.\<close>

lemma rep_append: "rep s l xs \<Longrightarrow> n \<notin> set (l # xs) \<Longrightarrow> rep (insert_before l n s) l (xs @ [n])"
  using rep_insert_before [of s l xs "[]" n] by simp

lemma rep_rotate:
  assumes "rep s l (xs @ n # ys)"
  shows "rep (insert_before l n (remove n s)) l (xs @ ys @ [n])"
  using rep_append [OF rep_remove [OF assms]] rep_distinct [OF assms] by auto

text \<open>Taking a node that is in the list, or in none, out of it.\<close>

lemma rep_take_out:
  assumes "rep s l xs" and "n \<in> set xs \<or> rep s n []"
  shows "rep (remove n s) l (remove1 n xs)"
proof (cases "n \<in> set xs")
  case True
  then obtain as bs where xs: "xs = as @ n # bs" "n \<notin> set as" by (meson split_list_first)
  then have "remove1 n xs = as @ bs" by (simp add: remove1_append)
  then show ?thesis using rep_remove [of s l as n bs] assms(1) xs by simp
next
  case False
  then show ?thesis using assms by (simp add: remove_lone remove1_idem)
qed

end

interpretation klist: node_list dlist rt_list_init rt_list_insert_after rt_list_insert_before rt_list_remove rt_list_isempty
proof unfold_locales
  fix s :: "'p links" and l k n :: 'p and xs ys zs
  show "dlist s l xs \<Longrightarrow> distinct (l # xs)" by (simp add: dlist_def)
  show "dlist s n [] \<Longrightarrow> rt_list_remove n s = s" by (rule remove_alone)
  show "dlist (rt_list_insert_after (last (l # xs)) n s) k zs"
    if "dlist s l (xs @ ys)" "n \<notin> set (l # xs @ ys)" "dlist s k zs" "set (k # zs) \<inter> set (l # n # xs @ ys) = {}"
    by (rule dlist_frame [OF that(3)]) (use that(4) in \<open>auto simp del: last.simps intro!: insert_after_other [OF that(1,2)]\<close>)
  show "dlist (rt_list_insert_before (hd (ys @ [l])) n s) k zs"
    if "dlist s l (xs @ ys)" "n \<notin> set (l # xs @ ys)" "dlist s k zs" "set (k # zs) \<inter> set (l # n # xs @ ys) = {}"
    unfolding insert_before_is_after [OF that(1,2)]
    by (rule dlist_frame [OF that(3)]) (use that(4) in \<open>auto simp del: last.simps intro!: insert_after_other [OF that(1,2)]\<close>)
  show "dlist (rt_list_init l s) k zs" if "dlist s k zs" "l \<notin> set (k # zs)"
    by (rule dlist_frame [OF that(1)]) (use that(2) in \<open>auto simp: rt_list_init_def set_next_def set_prev_def\<close>)
  show "dlist (rt_list_remove n s) k zs"
    if "dlist s l (xs @ n # ys)" "dlist s k zs" "set (k # zs) \<inter> set (l # xs @ n # ys) = {}"
    by (rule dlist_frame [OF that(2)]) (use that(3) in \<open>auto intro!: remove_other [OF that(1)]\<close>)
qed (fact dlist_init dlist_isempty dlist_insert_after dlist_insert_before dlist_remove dlist_alone)+

end
