(* ===== verification/Timer.thy ===== *)
theory Timer
  imports Klist
begin

text \<open>
  The timers and the clock of the kernel, \<open>rt-thread/src/timer.c\<close> and \<open>clock.c\<close>, in the configuration of the build: hard
  timers only, one row of the skip list. Timers are named by numbers; the nodes of the timer list
  are its head and the rows of the timers. What a timeout function does to the system is an
  argument.
\<close>

subsection \<open>The state\<close>

datatype tptr = TimerList | Row nat

record rt_timer =
  t_flag :: u8
  init_tick :: u32
  timeout_tick :: u32

text \<open>
  The static variables of both files. \<open>t_env\<close> is the rest of the system, which the timeout functions change, and with it
  the running thread and its time slice.
\<close>

record 'u timer_sys =
  t_links :: "tptr links"
  t_timers :: "nat \<Rightarrow> rt_timer"
  rt_tick :: u32
  random_nr :: u32
  t_env :: 'u

abbreviation (input) "RT_TIMER_FLAG_ACTIVATED \<equiv> 1 :: u8"
abbreviation (input) "RT_TIMER_FLAG_PERIODIC \<equiv> 2 :: u8"
abbreviation (input) "RT_TICK_MAX_HALF \<equiv> 0x7FFFFFFF :: u32"

definition upd_timer :: "nat \<Rightarrow> (rt_timer \<Rightarrow> rt_timer) \<Rightarrow> 'u timer_sys \<Rightarrow> 'u timer_sys" where
  "upd_timer t f s = s\<lparr>t_timers := (t_timers s)(t := f (t_timers s t))\<rparr>"

subsection \<open>The operations\<close>

definition timer_init :: "nat \<Rightarrow> u32 \<Rightarrow> u8 \<Rightarrow> 'u timer_sys \<Rightarrow> 'u timer_sys" where
  "timer_init t time flag s =
     (let s = upd_timer t (\<lambda>_. \<lparr>t_flag = flag AND NOT RT_TIMER_FLAG_ACTIVATED, init_tick = time, timeout_tick = 0\<rparr>) s in
      s\<lparr>t_links := rt_list_init (Row t) (t_links s)\<rparr>)"

definition timer_list_next_timeout :: "'u timer_sys \<Rightarrow> u32 option" where
  "timer_list_next_timeout s =
     (if rt_list_isempty TimerList (t_links s) then Some 0xFFFFFFFF
      else case l_next (t_links s TimerList) of TimerList \<Rightarrow> None | Row t \<Rightarrow> Some (timeout_tick (t_timers s t)))"

definition timer_remove :: "nat \<Rightarrow> 'u timer_sys \<Rightarrow> 'u timer_sys" where
  "timer_remove t s = s\<lparr>t_links := rt_list_remove (Row t) (t_links s)\<rparr>"

text \<open>Initialising, detaching, creating and deleting differ in the registration of the object only.\<close>

definition rt_timer_detach :: "nat \<Rightarrow> 'u timer_sys \<Rightarrow> int \<times> 'u timer_sys" where
  "rt_timer_detach t s = (0, timer_remove t s)"

definition rt_timer_create :: "nat option \<Rightarrow> u32 \<Rightarrow> u8 \<Rightarrow> 'u timer_sys \<Rightarrow> 'u timer_sys" where
  "rt_timer_create allocated time flag s = (case allocated of None \<Rightarrow> s | Some t \<Rightarrow> timer_init t time flag s)"

text \<open>
  The place for a timer in the row: the loop over \<open>row_head\<close>. The entry of the list head would be no timer;
  a loop that gets there, or that never ends, has no result.
\<close>

partial_function (option) timer_find :: "'u timer_sys \<Rightarrow> u32 \<Rightarrow> tptr \<Rightarrow> tptr option" where
  "timer_find s timeout row_head =
     (if row_head = l_prev (t_links s TimerList) then Some row_head
      else case l_next (t_links s row_head) of
        TimerList \<Rightarrow> None
      | Row t \<Rightarrow>
          if timeout_tick (t_timers s t) - timeout = 0 then timer_find s timeout (Row t)
          else if timeout_tick (t_timers s t) - timeout < RT_TICK_MAX_HALF then Some row_head
          else timer_find s timeout (Row t))"

definition rt_timer_start :: "nat \<Rightarrow> 'u timer_sys \<Rightarrow> (int \<times> 'u timer_sys) option" where
  "rt_timer_start t s = do {
     let s = timer_remove t s;
     let s = upd_timer t (t_flag_update (\<lambda>f. f AND NOT RT_TIMER_FLAG_ACTIVATED)) s;
     rt_assert (init_tick (t_timers s t) < RT_TICK_MAX_HALF);
     let s = upd_timer t (\<lambda>r. r\<lparr>timeout_tick := rt_tick s + init_tick r\<rparr>) s;
     row_head \<leftarrow> timer_find s (timeout_tick (t_timers s t)) TimerList;
     let s = s\<lparr>random_nr := random_nr s + 1\<rparr>;
     let s = s\<lparr>t_links := rt_list_insert_after row_head (Row t) (t_links s)\<rparr>;
     Some (0, upd_timer t (t_flag_update (\<lambda>f. f OR RT_TIMER_FLAG_ACTIVATED)) s) }"

definition rt_timer_stop :: "nat \<Rightarrow> 'u timer_sys \<Rightarrow> int \<times> 'u timer_sys" where
  "rt_timer_stop t s =
     (if t_flag (t_timers s t) AND RT_TIMER_FLAG_ACTIVATED = 0 then (- 1, s)
      else (0, upd_timer t (t_flag_update (\<lambda>f. f AND NOT RT_TIMER_FLAG_ACTIVATED)) (timer_remove t s)))"

datatype timer_ctrl = RT_TIMER_CTRL_SET_TIME | RT_TIMER_CTRL_GET_TIME | RT_TIMER_CTRL_SET_ONESHOT | RT_TIMER_CTRL_SET_PERIODIC
  | RT_TIMER_CTRL_OTHER

definition rt_timer_control :: "nat \<Rightarrow> timer_ctrl \<Rightarrow> u32 \<Rightarrow> 'u timer_sys \<Rightarrow> int \<times> u32 \<times> 'u timer_sys" where
  "rt_timer_control t cmd arg s =
     (case cmd of
        RT_TIMER_CTRL_GET_TIME \<Rightarrow> (0, init_tick (t_timers s t), s)
      | RT_TIMER_CTRL_SET_TIME \<Rightarrow> (0, arg, upd_timer t (init_tick_update (\<lambda>_. arg)) s)
      | RT_TIMER_CTRL_SET_ONESHOT \<Rightarrow> (0, arg, upd_timer t (t_flag_update (\<lambda>f. f AND NOT RT_TIMER_FLAG_PERIODIC)) s)
      | RT_TIMER_CTRL_SET_PERIODIC \<Rightarrow> (0, arg, upd_timer t (t_flag_update (\<lambda>f. f OR RT_TIMER_FLAG_PERIODIC)) s)
      | RT_TIMER_CTRL_OTHER \<Rightarrow> (0, arg, s))"

text \<open>What happens to a timer whose timeout function has returned.\<close>

definition timer_rearm :: "nat \<Rightarrow> 'u timer_sys \<Rightarrow> 'u timer_sys option" where
  "timer_rearm t s =
     (let f = t_flag (t_timers s t);
          s' = upd_timer t (t_flag_update (\<lambda>f. f AND NOT RT_TIMER_FLAG_ACTIVATED)) s in
      if f AND RT_TIMER_FLAG_PERIODIC \<noteq> 0 \<and> f AND RT_TIMER_FLAG_ACTIVATED \<noteq> 0 then map_option snd (rt_timer_start t s')
      else Some s')"

partial_function (option) timer_check_loop ::
    "(nat \<Rightarrow> 'u timer_sys \<Rightarrow> 'u timer_sys option) \<Rightarrow> u32 \<Rightarrow> 'u timer_sys \<Rightarrow> 'u timer_sys option" where
  "timer_check_loop timeout_func current_tick s =
     (if rt_list_isempty TimerList (t_links s) then Some s
      else case l_next (t_links s TimerList) of
        TimerList \<Rightarrow> None
      | Row t \<Rightarrow>
          if current_tick - timeout_tick (t_timers s t) < RT_TICK_MAX_HALF then
            (case timeout_func t (timer_remove t s) of
               None \<Rightarrow> None
             | Some s1 \<Rightarrow>
                 (case timer_rearm t s1 of
                    None \<Rightarrow> None
                  | Some s2 \<Rightarrow> timer_check_loop timeout_func (rt_tick s1) s2))
          else Some s)"

definition rt_timer_check :: "(nat \<Rightarrow> 'u timer_sys \<Rightarrow> 'u timer_sys option) \<Rightarrow> 'u timer_sys \<Rightarrow> 'u timer_sys option" where
  "rt_timer_check timeout_func s = timer_check_loop timeout_func (rt_tick s) s"

definition rt_system_timer_init :: "'u timer_sys \<Rightarrow> 'u timer_sys" where
  "rt_system_timer_init s = s\<lparr>t_links := rt_list_init TimerList (t_links s)\<rparr>"

definition rt_tick_set :: "u32 \<Rightarrow> 'u timer_sys \<Rightarrow> 'u timer_sys" where
  "rt_tick_set tick s = s\<lparr>rt_tick := tick\<rparr>"

text \<open>Counting down the time slice of the running thread is an argument: it is a matter of the scheduler.\<close>

definition rt_tick_increase ::
    "('u \<Rightarrow> 'u option) \<Rightarrow> (nat \<Rightarrow> 'u timer_sys \<Rightarrow> 'u timer_sys option) \<Rightarrow> 'u timer_sys \<Rightarrow> 'u timer_sys option" where
  "rt_tick_increase count_down timeout_func s = do {
     let s = s\<lparr>rt_tick := rt_tick s + 1\<rparr>;
     e \<leftarrow> count_down (t_env s);
     rt_timer_check timeout_func (s\<lparr>t_env := e\<rparr>) }"

text \<open>With \<open>RT_TICK_PER_SECOND\<close> 1000.\<close>

definition rt_tick_from_millisecond :: "int \<Rightarrow> u32" where
  "rt_tick_from_millisecond ms =
     (if ms < 0 then 0xFFFFFFFF
      else word_of_int (1000 * (ms sdiv 1000)) + word_of_int ((1000 * (ms smod 1000) + 999) sdiv 1000))"

subsection \<open>The timer list\<close>

text \<open>
  The ticks until a timer is due, negative when it is overdue. The list is in the order of this number; the
  comparisons of the code, which are modulo 2 to the 32, agree with it as long as no timer is more
  than one tick late.
\<close>

definition left :: "'u timer_sys \<Rightarrow> nat \<Rightarrow> int" where
  "left s t = sint (timeout_tick (t_timers s t) - rt_tick s)"

definition in_range :: "int \<Rightarrow> bool" where
  "in_range i \<longleftrightarrow> - 1 \<le> i \<and> i < 0x7FFFFFFF"

definition timers_ok :: "'u timer_sys \<Rightarrow> nat list \<Rightarrow> bool" where
  "timers_ok s ts \<longleftrightarrow> dlist (t_links s) TimerList (map Row ts) \<and> (\<forall>t. t \<notin> set ts \<longrightarrow> dlist (t_links s) (Row t) []) \<and>
     sorted (map (left s) ts) \<and> (\<forall>t \<in> set ts. in_range (left s t))"

lemma sint_diff_mod:
  fixes a b :: u32
  shows "uint (a - b) = (sint a - sint b) mod 2 ^ 32"
proof -
  have "uint (word_of_int (sint a - sint b) :: u32) = (sint a - sint b) mod 2 ^ 32"
    by (simp only: uint_word_of_int) simp
  then show ?thesis by simp
qed

lemma tick_compare:
  fixes x y tick :: u32
  assumes "in_range (sint (x - tick))" and "in_range (sint (y - tick))" and "0 \<le> sint (y - tick)"
  shows "x - y = 0 \<longleftrightarrow> sint (x - tick) = sint (y - tick)"
    and "x - y < RT_TICK_MAX_HALF \<longleftrightarrow> sint (y - tick) \<le> sint (x - tick)"
proof -
  obtain a b where ab: "a = sint (x - tick)" "b = sint (y - tick)" by simp
  have r: "- 1 \<le> a" "a < 0x7FFFFFFF" "0 \<le> b" "b < 0x7FFFFFFF" using assms by (simp_all add: in_range_def ab)
  have "x - y = (x - tick) - (y - tick)" by simp
  then have u: "uint (x - y) = (a - b) mod 2 ^ 32" unfolding ab by (metis sint_diff_mod)
  have "uint (x - y) = (if b \<le> a then a - b else a - b + 2 ^ 32)"
  proof (cases "b \<le> a")
    case True
    then show ?thesis unfolding u using r by (subst mod_pos_pos_trivial) simp_all
  next
    case False
    have "(a - b) mod 2 ^ 32 = (a - b + 2 ^ 32) mod 2 ^ 32" by simp
    also have "\<dots> = a - b + 2 ^ 32" using r False by (intro mod_pos_pos_trivial) simp_all
    finally show ?thesis unfolding u using False by simp
  qed
  moreover have "x - y = 0 \<longleftrightarrow> uint (x - y) = 0" "x - y < RT_TICK_MAX_HALF \<longleftrightarrow> uint (x - y) < 0x7FFFFFFF"
    by (simp_all add: uint_0_iff word_less_def)
  ultimately show "x - y = 0 \<longleftrightarrow> sint (x - tick) = sint (y - tick)"
    and "x - y < RT_TICK_MAX_HALF \<longleftrightarrow> sint (y - tick) \<le> sint (x - tick)"
    unfolding ab [symmetric] using r by (cases "b \<le> a"; simp)+
qed

lemma due_compare:
  assumes "in_range (left s t)"
  shows "rt_tick s - timeout_tick (t_timers s t) < RT_TICK_MAX_HALF \<longleftrightarrow> left s t \<le> 0"
proof -
  let ?x = "timeout_tick (t_timers s t) - rt_tick s"
  have e: "rt_tick s - timeout_tick (t_timers s t) = 0 - ?x" by simp
  have u: "uint (rt_tick s - timeout_tick (t_timers s t)) = (- left s t) mod 2 ^ 32"
    unfolding e sint_diff_mod left_def by simp
  show ?thesis
  proof (cases "left s t \<le> 0")
    case True
    then have "(- left s t) mod 2 ^ 32 = - left s t" using assms by (intro mod_pos_pos_trivial) (simp_all add: in_range_def)
    then show ?thesis using True assms u by (simp add: word_less_def in_range_def)
  next
    case False
    have "(- left s t) mod 2 ^ 32 = (- left s t + 2 ^ 32) mod 2 ^ 32" by simp
    also have "\<dots> = - left s t + 2 ^ 32" using False assms by (intro mod_pos_pos_trivial) (simp_all add: in_range_def)
    finally show ?thesis using False assms u by (simp add: word_less_def in_range_def)
  qed
qed

lemma remove1_Row: "remove1 (Row t) (map Row ts) = map Row (remove1 t ts)"
  by (induction ts) auto

text \<open>The place of a timer with \<open>n\<close> ticks left: behind those that are due no later.\<close>

definition place :: "'u timer_sys \<Rightarrow> int \<Rightarrow> nat \<Rightarrow> nat list \<Rightarrow> nat list" where
  "place s n t ts = takeWhile (\<lambda>x. left s x \<le> n) ts @ t # dropWhile (\<lambda>x. left s x \<le> n) ts"

lemma set_place [simp]: "set (place s n t ts) = insert t (set ts)"
  unfolding place_def using set_append [of "takeWhile (\<lambda>x. left s x \<le> n) ts" "dropWhile (\<lambda>x. left s x \<le> n) ts"] by auto

lemma filter_place: "\<not> P t \<Longrightarrow> filter P (place s n t ts) = filter P ts"
  unfolding place_def using filter_append [of P "takeWhile (\<lambda>x. left s x \<le> n) ts" "dropWhile (\<lambda>x. left s x \<le> n) ts"] by simp

lemma sorted_place:
  assumes "sorted (map f ts)" and "f t = n"
  shows "sorted (map f (takeWhile (\<lambda>x. f x \<le> n) ts @ t # dropWhile (\<lambda>x. f x \<le> n) ts))"
proof -
  let ?a = "takeWhile (\<lambda>x. f x \<le> n) ts" and ?b = "dropWhile (\<lambda>x. f x \<le> n) ts"
  have "sorted (map f (?a @ ?b))" using assms(1) by simp
  then have s: "sorted (map f ?a)" "sorted (map f ?b)" "\<forall>x \<in> set ?a. \<forall>y \<in> set ?b. f x \<le> f y"
    by (simp_all only: map_append sorted_append) auto
  have "\<forall>y \<in> set ?b. n \<le> f y"
  proof (cases ?b)
    case (Cons y ys)
    then have "\<not> f y \<le> n" using hd_dropWhile [of "\<lambda>x. f x \<le> n" ts] by simp
    then show ?thesis using s(2) Cons by auto
  qed (simp only: list.set ball_empty)
  then show ?thesis using s assms(2) by (auto simp: sorted_append dest: set_takeWhileD)
qed

lemma timer_find_walk:
  assumes "dlist (t_links s) TimerList (map Row (as @ bs))" and "\<forall>x \<in> set bs. in_range (left s x)"
    and "in_range (sint (timeout - rt_tick s))" and "0 \<le> sint (timeout - rt_tick s)"
  shows "timer_find s timeout (last (TimerList # map Row as)) =
    Some (last (TimerList # map Row (as @ takeWhile (\<lambda>x. left s x \<le> sint (timeout - rt_tick s)) bs)))"
  using assms(1,2)
proof (induction bs arbitrary: as)
  case Nil
  then have "l_prev (t_links s TimerList) = last (TimerList # map Row as)" using dlist_prev by fastforce
  then show ?case by (subst timer_find.simps) simp
next
  case (Cons b bs)
  define p where p: "p = last (TimerList # map Row as)"
  have "l_prev (t_links s TimerList) = last (TimerList # map Row (as @ b # bs))" using dlist_prev [OF Cons.prems(1)] .
  then have "l_prev (t_links s TimerList) = last (map Row (b # bs))" by simp
  then have "l_prev (t_links s TimerList) \<in> set (map Row (b # bs))" by (metis last_in_set list.simps(3,9))
  moreover have "p \<in> set (TimerList # map Row as)" unfolding p by (rule last_in_set) simp
  moreover have "distinct (TimerList # map Row (as @ b # bs))" using klist.rep_distinct [OF Cons.prems(1)] .
  ultimately have ne: "p \<noteq> l_prev (t_links s TimerList)" by auto
  have nx: "l_next (t_links s p) = Row b"
    using dlist_next [of "t_links s" TimerList "map Row as" "map Row (b # bs)"] Cons.prems(1) p by simp
  have IH: "timer_find s timeout (Row b) =
      Some (last (TimerList # map Row ((as @ [b]) @ takeWhile (\<lambda>x. left s x \<le> sint (timeout - rt_tick s)) bs)))"
    using Cons.IH [of "as @ [b]"] Cons.prems by simp
  have "timeout_tick (t_timers s b) - timeout = 0 \<longleftrightarrow> left s b = sint (timeout - rt_tick s)"
    "timeout_tick (t_timers s b) - timeout < RT_TICK_MAX_HALF \<longleftrightarrow> sint (timeout - rt_tick s) \<le> left s b"
    using tick_compare [of "timeout_tick (t_timers s b)" "rt_tick s" timeout] Cons.prems(2) assms(3,4)
    by (simp_all add: left_def)
  then have "timer_find s timeout p = (if left s b \<le> sint (timeout - rt_tick s) then timer_find s timeout (Row b) else Some p)"
    using ne nx by (subst timer_find.simps) auto
  then show ?case unfolding p [symmetric] using IH p by simp
qed

lemma timers_ok_distinct: "timers_ok s ts \<Longrightarrow> distinct ts"
  using klist.rep_distinct [of "t_links s" TimerList "map Row ts"] by (simp add: timers_ok_def distinct_map)

lemma timer_remove_simps [simp]:
  "t_timers (timer_remove t s) = t_timers s" "rt_tick (timer_remove t s) = rt_tick s" "left (timer_remove t s) = left s"
  "t_env (timer_remove t s) = t_env s"
  by (simp_all add: timer_remove_def left_def fun_eq_iff)

lemma timer_remove_ok:
  assumes "timers_ok s ts"
  shows "timers_ok (timer_remove t s) (remove1 t ts)"
proof -
  let ?L = "rt_list_remove (Row t) (t_links s)"
  have d: "dlist (t_links s) TimerList (map Row ts)" and lone: "\<And>x. x \<notin> set ts \<Longrightarrow> dlist (t_links s) (Row x) []"
    using assms by (auto simp: timers_ok_def)
  have "dlist ?L TimerList (remove1 (Row t) (map Row ts))" using lone by (intro klist.rep_take_out [OF d]) auto
  then have "dlist ?L TimerList (map Row (remove1 t ts))" by (simp add: remove1_Row)
  moreover have "dlist ?L (Row x) []" if x: "x \<notin> set (remove1 t ts)" for x
  proof (cases "t \<in> set ts")
    case True
    show ?thesis
    proof (cases "x = t")
      case True
      then show ?thesis using klist.rep_removed by simp
    next
      case False
      obtain as bs where ts: "ts = as @ t # bs" using split_list [OF True] by blast
      then show ?thesis
        using klist.remove_keeps [of "t_links s" TimerList "map Row as" "Row t" "map Row bs" "Row x" "[]"] d x False lone [of x]
        by (auto simp: in_set_remove1)
    qed
  next
    case False
    then show ?thesis using x lone by (simp add: klist.remove_lone remove1_idem)
  qed
  moreover have "sorted (map (left s) (remove1 t ts))"
    using assms by (auto simp: timers_ok_def sorted_map_remove1)
  moreover have "t_links (timer_remove t s) = ?L" by (simp add: timer_remove_def)
  ultimately show ?thesis
    using assms by (auto simp: timers_ok_def dest: notin_set_remove1)
qed

text \<open>Starting a timer: what becomes of the timer itself, and its place in the list.\<close>

definition started :: "u32 \<Rightarrow> rt_timer \<Rightarrow> rt_timer" where
  "started tick r = \<lparr>t_flag = (t_flag r AND NOT RT_TIMER_FLAG_ACTIVATED) OR RT_TIMER_FLAG_ACTIVATED,
     init_tick = init_tick r, timeout_tick = tick + init_tick r\<rparr>"

lemma started_simps [simp]:
  "t_flag (started tick r) AND 1 \<noteq> 0" "t_flag (started tick r) AND 2 = t_flag r AND 2" "init_tick (started tick r) = init_tick r"
proof -
  show "t_flag (started tick r) AND 1 \<noteq> 0"
    by (metis (no_types, opaque_lifting) started_def rt_timer.select_convs(1) and.commute bit.conj_disj_distrib
        and.idem or.commute or_eq_0_iff one_neq_zero)
  show "t_flag (started tick r) AND 2 = t_flag r AND 2"
    by (rule bit_word_eqI) (auto simp: started_def bit_simps)
qed (simp add: started_def)

lemma rt_timer_start_eq:
  assumes "init_tick (t_timers s t) < RT_TICK_MAX_HALF"
  shows "rt_timer_start t s = do {
    row_head \<leftarrow> timer_find (s\<lparr>t_links := rt_list_remove (Row t) (t_links s), t_timers := (t_timers s)(t :=
      (started (rt_tick s) (t_timers s t))\<lparr>t_flag := t_flag (t_timers s t) AND NOT RT_TIMER_FLAG_ACTIVATED\<rparr>)\<rparr>)
      (rt_tick s + init_tick (t_timers s t)) TimerList;
    Some (0, s\<lparr>t_links := rt_list_insert_after row_head (Row t) (rt_list_remove (Row t) (t_links s)),
      t_timers := (t_timers s)(t := started (rt_tick s) (t_timers s t)), random_nr := random_nr s + 1\<rparr>) }"
  using assms
  by (cases s; cases "t_timers s t")
    (simp add: rt_timer_start_def timer_remove_def upd_timer_def started_def Let_def del: minus_add_distrib)

lemma rt_timer_start_ok:
  assumes ok: "timers_ok s ts" and n: "init_tick (t_timers s t) < RT_TICK_MAX_HALF"
  obtains L where "rt_timer_start t s =
      Some (0, s\<lparr>t_links := L, t_timers := (t_timers s)(t := started (rt_tick s) (t_timers s t)), random_nr := random_nr s + 1\<rparr>)"
    and "timers_ok (s\<lparr>t_links := L, t_timers := (t_timers s)(t := started (rt_tick s) (t_timers s t)), random_nr := random_nr s + 1\<rparr>)
      (place s (uint (init_tick (t_timers s t))) t (remove1 t ts))"
proof -
  let ?n = "uint (init_tick (t_timers s t))" and ?r = "remove1 t ts" and ?L = "rt_list_remove (Row t) (t_links s)"
  let ?new = "started (rt_tick s) (t_timers s t)"
  define as where as: "as = takeWhile (\<lambda>x. left s x \<le> ?n) ?r"
  define bs where bs: "bs = dropWhile (\<lambda>x. left s x \<le> ?n) ?r"
  have r: "?r = as @ bs" by (simp add: as bs)
  have pl: "place s ?n t ?r = as @ t # bs" by (simp add: place_def as bs)
  have n': "?n < 0x7FFFFFFF" using n by (simp add: word_less_def)
  have n0: "0 \<le> ?n" "- 1 \<le> ?n" using uint_ge_0 [of "init_tick (t_timers s t)"] by linarith+
  have "unat (init_tick (t_timers s t)) < 2 ^ 31" using n by (simp add: word_less_nat_alt)
  then have sn: "sint (init_tick (t_timers s t)) = ?n" by (subst sint_small) simp_all
  have rem: "timers_ok (timer_remove t s) ?r" using timer_remove_ok [OF ok] .
  then have d: "dlist ?L TimerList (map Row as @ map Row bs)" and lone: "\<And>x. x \<notin> set ?r \<Longrightarrow> dlist ?L (Row x) []"
    by (simp_all add: timers_ok_def timer_remove_def r)
  have t: "t \<notin> set ?r" using timers_ok_distinct [OF ok] by simp
  let ?s1 = "s\<lparr>t_links := ?L, t_timers := (t_timers s)(t := ?new\<lparr>t_flag := t_flag (t_timers s t) AND NOT RT_TIMER_FLAG_ACTIVATED\<rparr>)\<rparr>"
  have l1: "left ?s1 x = left s x" if "x \<in> set ?r" for x using that t by (auto simp: left_def)
  have "timer_find ?s1 (rt_tick s + init_tick (t_timers s t)) (last (TimerList # map Row [])) =
    Some (last (TimerList # map Row ([] @ takeWhile (\<lambda>x. left ?s1 x \<le> sint (rt_tick s + init_tick (t_timers s t) - rt_tick ?s1)) ?r)))"
  proof (rule timer_find_walk)
    show "dlist (t_links ?s1) TimerList (map Row ([] @ ?r))" using d r by simp
    show "\<forall>x \<in> set ?r. in_range (left ?s1 x)" using rem l1 by (simp add: timers_ok_def)
  qed (use sn n' n0 in \<open>simp_all add: in_range_def\<close>)
  moreover have "takeWhile (\<lambda>x. left ?s1 x \<le> ?n) ?r = as" unfolding as using l1 by (intro takeWhile_cong) simp_all
  ultimately have f: "timer_find ?s1 (rt_tick s + init_tick (t_timers s t)) TimerList = Some (last (TimerList # map Row as))"
    using sn by simp
  define M where M: "M = rt_list_insert_after (last (TimerList # map Row as)) (Row t) ?L"
  let ?s2 = "s\<lparr>t_links := M, t_timers := (t_timers s)(t := ?new), random_nr := random_nr s + 1\<rparr>"
  have nd: "Row t \<notin> set (TimerList # map Row as @ map Row bs)"
    using t r by auto
  have l2: "left ?s2 x = (if x = t then ?n else left s x)" for x using sn by (simp add: left_def started_def)
  have "timers_ok ?s2 (place s ?n t ?r)"
    unfolding timers_ok_def
  proof (intro conjI allI impI ballI)
    show "dlist (t_links ?s2) TimerList (map Row (place s ?n t ?r))"
      using klist.rep_insert_after [OF d nd, folded M] by (simp add: pl)
    show "sorted (map (left ?s2) (place s ?n t ?r))"
    proof -
      have l3: "left ?s2 x = left s x" if "x \<in> set ?r" for x using that t by (auto simp: l2)
      have "takeWhile (\<lambda>x. left ?s2 x \<le> ?n) ?r = as" "dropWhile (\<lambda>x. left ?s2 x \<le> ?n) ?r = bs"
        unfolding as bs using l3 by (auto intro!: takeWhile_cong dropWhile_cong)
      moreover have "sorted (map (left ?s2) ?r)"
        using rem l3 by (simp add: timers_ok_def cong: map_cong)
      moreover have "left ?s2 t = ?n" by (simp add: l2)
      ultimately show ?thesis using sorted_place [of "left ?s2" ?r t ?n] by (simp only: pl)
    qed
    fix x
    show "dlist (t_links ?s2) (Row x) []" if "x \<notin> set (place s ?n t ?r)"
      using klist.insert_after_keeps [OF d nd lone [of x], folded M] that r by auto
    show "in_range (left ?s2 x)" if "x \<in> set (place s ?n t ?r)"
      using that rem n' n0 by (auto simp: l2 timers_ok_def in_range_def)
  qed
  moreover have "rt_timer_start t s = Some (0, ?s2)"
    unfolding rt_timer_start_eq [OF n] f M by simp
  ultimately show thesis using that by blast
qed

subsection \<open>Firing\<close>

text \<open>
  Timeout functions that leave the timers alone, like the one of a sleeping thread: \<open>act\<close> is what they do
  to the rest of the system.
\<close>

definition quiet :: "(nat \<Rightarrow> 'u \<Rightarrow> 'u) \<Rightarrow> nat \<Rightarrow> 'u timer_sys \<Rightarrow> 'u timer_sys option" where
  "quiet act t s = Some (s\<lparr>t_env := act t (t_env s)\<rparr>)"

definition repeating :: "rt_timer \<Rightarrow> bool" where
  "repeating r \<longleftrightarrow> t_flag r AND RT_TIMER_FLAG_PERIODIC \<noteq> 0 \<and> t_flag r AND RT_TIMER_FLAG_ACTIVATED \<noteq> 0"

definition fired :: "u32 \<Rightarrow> rt_timer \<Rightarrow> rt_timer" where
  "fired tick r = (if repeating r then started tick r else r\<lparr>t_flag := t_flag r AND NOT RT_TIMER_FLAG_ACTIVATED\<rparr>)"

lemma started_cleared [simp]: "started tick (r\<lparr>t_flag := t_flag r AND - 2\<rparr>) = started tick r"
  by (simp add: started_def and.assoc)

lemma timers_ok_cong:
  assumes "timers_ok s ts" and "t_links s' = t_links s" and "\<And>t. t \<in> set ts \<Longrightarrow> left s' t = left s t"
  shows "timers_ok s' ts"
  using assms by (simp add: timers_ok_def cong: map_cong)

lemma timer_rearm_ok:
  assumes ok: "timers_ok s ts" and t: "t \<notin> set ts"
    and p: "repeating (t_timers s t) \<Longrightarrow> init_tick (t_timers s t) < RT_TICK_MAX_HALF"
  obtains s' where "timer_rearm t s = Some s'"
    and "timers_ok s' (if repeating (t_timers s t) then place s (uint (init_tick (t_timers s t))) t ts else ts)"
    and "t_timers s' = (t_timers s)(t := fired (rt_tick s) (t_timers s t))" and "rt_tick s' = rt_tick s" and "t_env s' = t_env s"
proof -
  define c where cd: "c = upd_timer t (t_flag_update (\<lambda>f. f AND NOT RT_TIMER_FLAG_ACTIVATED)) s"
  have c: "t_timers c = (t_timers s)(t := (t_timers s t)\<lparr>t_flag := t_flag (t_timers s t) AND NOT RT_TIMER_FLAG_ACTIVATED\<rparr>)"
    "rt_tick c = rt_tick s" "t_env c = t_env s" "t_links c = t_links s" "left c = left s"
    by (simp_all add: cd upd_timer_def left_def fun_eq_iff)
  have okc: "timers_ok c ts" by (rule timers_ok_cong [OF ok]) (simp_all add: c)
  show thesis
  proof (cases "repeating (t_timers s t)")
    case True
    then have "init_tick (t_timers c t) < RT_TICK_MAX_HALF" using p by (simp add: c)
    from rt_timer_start_ok [OF okc this] obtain L where
      L: "rt_timer_start t c = Some (0, c\<lparr>t_links := L, t_timers := (t_timers c)(t := started (rt_tick c) (t_timers c t)),
            random_nr := random_nr c + 1\<rparr>)"
        "timers_ok (c\<lparr>t_links := L, t_timers := (t_timers c)(t := started (rt_tick c) (t_timers c t)),
            random_nr := random_nr c + 1\<rparr>) (place c (uint (init_tick (t_timers c t))) t (remove1 t ts))" .
    show thesis
    proof (rule that)
      show "timer_rearm t s = Some (c\<lparr>t_links := L, t_timers := (t_timers c)(t := started (rt_tick c) (t_timers c t)),
            random_nr := random_nr c + 1\<rparr>)"
        using True L(1) unfolding timer_rearm_def Let_def cd [symmetric] by (simp add: repeating_def)
      show "timers_ok (c\<lparr>t_links := L, t_timers := (t_timers c)(t := started (rt_tick c) (t_timers c t)),
            random_nr := random_nr c + 1\<rparr>)
          (if repeating (t_timers s t) then place s (uint (init_tick (t_timers s t))) t ts else ts)"
        using L(2) True t by (simp add: c(1,5) place_def remove1_idem)
    qed (use True in \<open>simp_all add: c fired_def\<close>)
  next
    case False
    show thesis
      by (rule that [of c])
        (use False okc in \<open>simp_all add: c fired_def\<close>, unfold timer_rearm_def Let_def cd [symmetric], auto simp: repeating_def)
  qed
qed

lemma dlist_first: "timers_ok s (t # ts) \<Longrightarrow> l_next (t_links s TimerList) = Row t \<and> \<not> rt_list_isempty TimerList (t_links s)"
  using klist.rep_isempty [of "t_links s" TimerList "map Row (t # ts)"] by (simp add: timers_ok_def dlist_def)

text \<open>One turn of the loop: the first timer is due, its function runs, and it is started again or not.\<close>

lemma timer_turn:
  assumes ok: "timers_ok s (t # ts)" and due: "left s t \<le> 0"
    and p: "repeating (t_timers s t) \<Longrightarrow> init_tick (t_timers s t) < RT_TICK_MAX_HALF"
  obtains s1 s' where "rt_tick s - timeout_tick (t_timers s t) < RT_TICK_MAX_HALF"
    and "quiet act t (timer_remove t s) = Some s1" and "timer_rearm t s1 = Some s'" and "rt_tick s1 = rt_tick s'"
    and "timers_ok s' (if repeating (t_timers s t) then place s (uint (init_tick (t_timers s t))) t ts else ts)"
    and "t_timers s' = (t_timers s)(t := fired (rt_tick s) (t_timers s t))" and "rt_tick s' = rt_tick s"
    and "t_env s' = act t (t_env s)"
proof -
  define s1 where s1: "s1 = (timer_remove t s)\<lparr>t_env := act t (t_env s)\<rparr>"
  have f: "t_timers s1 = t_timers s" "rt_tick s1 = rt_tick s" "t_env s1 = act t (t_env s)" "left s1 = left s"
    by (simp_all add: s1 left_def fun_eq_iff)
  have "timers_ok (timer_remove t s) ts" using timer_remove_ok [OF ok, of t] by simp
  then have ok1: "timers_ok s1 ts" by (rule timers_ok_cong) (simp_all add: f, simp add: s1)
  have t: "t \<notin> set ts" using timers_ok_distinct [OF ok] by simp
  from timer_rearm_ok [OF ok1 t] p f obtain s' where
    s': "timer_rearm t s1 = Some s'"
      "timers_ok s' (if repeating (t_timers s1 t) then place s1 (uint (init_tick (t_timers s1 t))) t ts else ts)"
      "t_timers s' = (t_timers s1)(t := fired (rt_tick s1) (t_timers s1 t))" "rt_tick s' = rt_tick s1" "t_env s' = t_env s1"
    by metis
  have "in_range (left s t)" using ok by (simp add: timers_ok_def)
  then have "rt_tick s - timeout_tick (t_timers s t) < RT_TICK_MAX_HALF" using due by (simp add: due_compare)
  moreover have "quiet act t (timer_remove t s) = Some s1" by (simp add: quiet_def s1)
  moreover have pl: "place s1 = place s" by (simp add: fun_eq_iff place_def f)
  ultimately show thesis using s' [unfolded f pl] by (intro that [of s1 s']) (simp_all only: f)
qed

lemma timer_check_turn:
  assumes "timers_ok s (t # ts)" and "left s t \<le> 0"
    and "repeating (t_timers s t) \<Longrightarrow> init_tick (t_timers s t) < RT_TICK_MAX_HALF"
  obtains s' where "timer_check_loop (quiet act) (rt_tick s) s = timer_check_loop (quiet act) (rt_tick s') s'"
    and "timers_ok s' (if repeating (t_timers s t) then place s (uint (init_tick (t_timers s t))) t ts else ts)"
    and "t_timers s' = (t_timers s)(t := fired (rt_tick s) (t_timers s t))" and "rt_tick s' = rt_tick s"
    and "t_env s' = act t (t_env s)"
proof (rule timer_turn [OF assms, where act = act])
  fix s1 s'
  assume "rt_tick s - timeout_tick (t_timers s t) < RT_TICK_MAX_HALF" "quiet act t (timer_remove t s) = Some s1"
    "timer_rearm t s1 = Some s'" "rt_tick s1 = rt_tick s'"
  then have "timer_check_loop (quiet act) (rt_tick s) s = timer_check_loop (quiet act) (rt_tick s') s'"
    using dlist_first [OF assms(1)] by (subst timer_check_loop.simps) simp
  then show "timers_ok s' (if repeating (t_timers s t) then place s (uint (init_tick (t_timers s t))) t ts else ts) \<Longrightarrow>
    t_timers s' = (t_timers s)(t := fired (rt_tick s) (t_timers s t)) \<Longrightarrow> rt_tick s' = rt_tick s \<Longrightarrow>
    t_env s' = act t (t_env s) \<Longrightarrow> thesis" by (rule that)
qed

lemma timer_check_stops:
  assumes "timers_ok s ts" and "ts = [] \<or> 0 < left s (hd ts)"
  shows "timer_check_loop timeout_func (rt_tick s) s = Some s"
proof (cases ts)
  case Nil
  then show ?thesis
    using assms klist.rep_isempty [of "t_links s" TimerList "[]"] by (subst timer_check_loop.simps) (simp add: timers_ok_def)
next
  case (Cons t us)
  then have "in_range (left s t)" using assms(1) by (simp add: timers_ok_def)
  then have "\<not> rt_tick s - timeout_tick (t_timers s t) < RT_TICK_MAX_HALF" using assms(2) Cons by (simp add: due_compare)
  then show ?thesis using dlist_first [of s t us] assms(1) Cons by (subst timer_check_loop.simps) simp
qed

text \<open>
  The whole loop: it ends, the due timers have fired once each, in the order of the list, and only timers that
  are not due stay in it.
\<close>

definition periods_ok :: "'u timer_sys \<Rightarrow> nat list \<Rightarrow> bool" where
  "periods_ok s ts \<longleftrightarrow> (\<forall>t \<in> set ts. repeating (t_timers s t) \<longrightarrow> 0 < init_tick (t_timers s t) \<and> init_tick (t_timers s t) < RT_TICK_MAX_HALF)"

lemma left_started: "init_tick r < RT_TICK_MAX_HALF \<Longrightarrow> sint (timeout_tick (started tick r) - tick) = uint (init_tick r)"
  by (simp add: started_def) (subst sint_small, simp_all add: word_less_nat_alt)

lemma repeating_started [simp]: "repeating (started tick r) \<longleftrightarrow> t_flag r AND 2 \<noteq> 0"
  by (simp add: repeating_def)

lemma fired_simps [simp]: "init_tick (fired tick r) = init_tick r" "repeating (fired tick r) \<longleftrightarrow> repeating r"
proof -
  have "f AND - 2 AND 1 = 0" for f :: u8 by (rule bit_word_eqI) (auto simp: bit_simps bit_minus_2_iff)
  then show "repeating (fired tick r) \<longleftrightarrow> repeating r" by (auto simp: fired_def repeating_def and.assoc)
qed (simp add: fired_def)

lemma timer_check_loop_ok:
  assumes "timers_ok s ts" and "periods_ok s ts"
  shows "\<exists>s' ts'. timer_check_loop (quiet act) (rt_tick s) s = Some s' \<and> timers_ok s' ts' \<and> rt_tick s' = rt_tick s \<and>
    t_env s' = fold act (filter (\<lambda>t. left s t \<le> 0) ts) (t_env s) \<and>
    (\<forall>t. t_timers s' t = (if t \<in> set ts \<and> left s t \<le> 0 then fired (rt_tick s) (t_timers s t) else t_timers s t)) \<and>
    set ts' = {t \<in> set ts. 0 < left s t \<or> repeating (t_timers s t)} \<and> (\<forall>t \<in> set ts'. 0 < left s' t)"
  using assms
proof (induction "length (filter (\<lambda>t. left s t \<le> 0) ts)" arbitrary: s ts)
  case 0
  then have none: "\<forall>t \<in> set ts. 0 < left s t" by (auto simp: filter_empty_conv)
  then have "ts = [] \<or> 0 < left s (hd ts)" by (cases ts) simp_all
  from timer_check_stops [OF 0(2) this] show ?case using 0 none by (intro exI [of _ s] exI [of _ ts]) (auto simp: filter_empty_conv)
next
  case (Suc n)
  then obtain h us where ts: "ts = h # us" by (cases ts) auto
  have srt: "sorted (map (left s) ts)" using Suc.prems by (simp add: timers_ok_def)
  have due: "left s h \<le> 0"
  proof (rule ccontr)
    assume "\<not> left s h \<le> 0"
    then have "filter (\<lambda>t. left s t \<le> 0) ts = []" using srt ts by (auto simp: filter_empty_conv)
    then show False using Suc.hyps(2) by simp
  qed
  have hus: "h \<notin> set us" using timers_ok_distinct [OF Suc.prems(1)] ts by simp
  let ?vs = "if repeating (t_timers s h) then place s (uint (init_tick (t_timers s h))) h us else us"
  have p: "repeating (t_timers s h) \<Longrightarrow> init_tick (t_timers s h) < RT_TICK_MAX_HALF" using Suc.prems(2) ts by (simp add: periods_ok_def)
  obtain s1 where s1: "timer_check_loop (quiet act) (rt_tick s) s = timer_check_loop (quiet act) (rt_tick s1) s1"
      "timers_ok s1 ?vs" "t_timers s1 = (t_timers s)(h := fired (rt_tick s) (t_timers s h))" "rt_tick s1 = rt_tick s"
      "t_env s1 = act h (t_env s)"
    by (rule timer_check_turn [OF Suc.prems(1) [unfolded ts] due p])
  have l1: "left s1 t = left s t" if "t \<noteq> h" for t using that s1(3,4) by (simp add: left_def)
  have l1u: "left s1 t = left s t" if "t \<in> set us" for t using l1 [of t] that hus by metis
  have lh: "0 < left s1 h" if "repeating (t_timers s h)"
    using that p Suc.prems(2) ts s1(3,4) by (simp add: left_def fired_def left_started periods_ok_def word_less_def)
  have fl: "filter (\<lambda>t. left s1 t \<le> 0) ?vs = filter (\<lambda>t. left s t \<le> 0) us"
  proof -
    have "filter (\<lambda>t. left s1 t \<le> 0) us = filter (\<lambda>t. left s t \<le> 0) us" using l1u by (intro filter_cong) auto
    then show ?thesis using lh by (auto simp: filter_place)
  qed
  have po: "periods_ok s1 ?vs"
    using Suc.prems(2) ts s1(3) by (auto simp: periods_ok_def)
  have "n = length (filter (\<lambda>t. left s1 t \<le> 0) ?vs)" using Suc.hyps(2) ts due fl by simp
  from Suc.hyps(1) [OF this s1(2) po] obtain s' ts' where
    s': "timer_check_loop (quiet act) (rt_tick s1) s1 = Some s'" "timers_ok s' ts'" "rt_tick s' = rt_tick s1"
      "t_env s' = fold act (filter (\<lambda>t. left s1 t \<le> 0) ?vs) (t_env s1)"
      "\<forall>t. t_timers s' t = (if t \<in> set ?vs \<and> left s1 t \<le> 0 then fired (rt_tick s1) (t_timers s1 t) else t_timers s1 t)"
      "set ts' = {t \<in> set ?vs. 0 < left s1 t \<or> repeating (t_timers s1 t)}" "\<forall>t \<in> set ts'. 0 < left s' t"
    by blast
  show ?case
  proof (intro exI [of _ s'] exI [of _ ts'] conjI)
    show "timer_check_loop (quiet act) (rt_tick s) s = Some s'" using s1(1) s'(1) by simp
    show "t_env s' = fold act (filter (\<lambda>t. left s t \<le> 0) ts) (t_env s)" using s'(4) fl s1(5) ts due by simp
    show "\<forall>t. t_timers s' t = (if t \<in> set ts \<and> left s t \<le> 0 then fired (rt_tick s) (t_timers s t) else t_timers s t)"
      using s'(5) s1(3,4) l1 lh ts due hus by (auto split: if_splits)
    show "set ts' = {t \<in> set ts. 0 < left s t \<or> repeating (t_timers s t)}"
      using s'(6) s1(3) l1 lh ts due hus by (auto split: if_splits)
  qed (use s'(2,3,7) s1(4) in simp_all)
qed

subsection \<open>Ticks\<close>

definition ready :: "'u timer_sys \<Rightarrow> nat list \<Rightarrow> bool" where
  "ready s ts \<longleftrightarrow> timers_ok s ts \<and> periods_ok s ts \<and> (\<forall>t \<in> set ts. 0 \<le> left s t)"

lemma sint_pred:
  fixes a :: u32
  assumes "0 \<le> sint a"
  shows "sint (a - 1) = sint a - 1"
proof (cases "a = 0")
  case False
  have sa: "sint a = int (unat a)" using assms by (rule sint_nonneg)
  then have "unat a < 2 ^ 31" using sint_lt [of a] by (simp del: of_nat_unat)
  moreover have "unat (a - 1) = unat a - 1" using False by (simp add: unat_minus_one)
  moreover have "0 < unat a" using False by (simp add: unat_gt_0)
  ultimately show ?thesis using sa by (subst sint_small) (auto simp: of_nat_diff)
qed simp

text \<open>The clock moves on: every timer in the list has one tick less.\<close>

lemma tick_advance:
  assumes "ready s ts"
  shows "timers_ok (s\<lparr>rt_tick := rt_tick s + 1, t_env := e\<rparr>) ts"
    and "t \<in> set ts \<Longrightarrow> left (s\<lparr>rt_tick := rt_tick s + 1, t_env := e\<rparr>) t = left s t - 1"
proof -
  let ?s = "s\<lparr>rt_tick := rt_tick s + 1, t_env := e\<rparr>"
  have ok: "timers_ok s ts" "\<And>t. t \<in> set ts \<Longrightarrow> 0 \<le> left s t" using assms by (auto simp: ready_def)
  have l: "left ?s t = left s t - 1" if "t \<in> set ts" for t
    using sint_pred [of "timeout_tick (t_timers s t) - rt_tick s"] ok(2) [OF that] by (simp add: left_def diff_diff_eq)
  then show "t \<in> set ts \<Longrightarrow> left ?s t = left s t - 1" by blast
  have "sorted (map (\<lambda>t. left s t - 1) ts)" using ok(1) by (auto simp: timers_ok_def sorted_map elim!: sorted_wrt_mono_rel [rotated])
  moreover have "in_range (left ?s t)" if "t \<in> set ts" for t
    using ok(1) ok(2) [OF that] that by (auto simp: l timers_ok_def in_range_def)
  ultimately show "timers_ok ?s ts" using ok(1) l by (simp add: timers_ok_def cong: map_cong)
qed

lemma rt_tick_increase_ok:
  assumes "ready s ts" and "count_down (t_env s) = Some e"
  shows "\<exists>s' ts'. rt_tick_increase count_down (quiet act) s = Some s' \<and> ready s' ts' \<and>
    t_env s' = fold act (filter (\<lambda>t. left s t \<le> 1) ts) e \<and>
    (\<forall>t. init_tick (t_timers s' t) = init_tick (t_timers s t) \<and> repeating (t_timers s' t) = repeating (t_timers s t)) \<and>
    set ts' = {t \<in> set ts. 1 < left s t \<or> repeating (t_timers s t)} \<and>
    (\<forall>t \<in> set ts'. left s' t = (if left s t \<le> 1 then uint (init_tick (t_timers s t)) else left s t - 1)) \<and>
    (\<forall>t \<in> set ts'. t_flag (t_timers s t) AND 1 \<noteq> 0 \<longrightarrow> t_flag (t_timers s' t) AND 1 \<noteq> 0)"
proof -
  define s0 where s0: "s0 = s\<lparr>rt_tick := rt_tick s + 1, t_env := e\<rparr>"
  have f: "t_links s0 = t_links s" "t_timers s0 = t_timers s" "rt_tick s0 = rt_tick s + 1" "t_env s0 = e"
    by (simp_all add: s0)
  have ok: "periods_ok s ts" using assms(1) by (simp add: ready_def)
  note ok0 = tick_advance(1) [OF assms(1), of e, folded s0] and l = tick_advance(2) [OF assms(1), of _ e, folded s0]
  have po: "periods_ok s0 ts" using ok by (simp add: periods_ok_def f)
  have fl: "filter (\<lambda>t. left s0 t \<le> 0) ts = filter (\<lambda>t. left s t \<le> 1) ts" using l by (intro filter_cong) auto
  from timer_check_loop_ok [OF ok0 po, of act] obtain s' ts' where
    s': "timer_check_loop (quiet act) (rt_tick s0) s0 = Some s'" "timers_ok s' ts'" "rt_tick s' = rt_tick s0"
      "t_env s' = fold act (filter (\<lambda>t. left s0 t \<le> 0) ts) (t_env s0)"
      "\<And>t. t_timers s' t = (if t \<in> set ts \<and> left s0 t \<le> 0 then fired (rt_tick s0) (t_timers s0 t) else t_timers s0 t)"
      "set ts' = {t \<in> set ts. 0 < left s0 t \<or> repeating (t_timers s0 t)}" "\<And>t. t \<in> set ts' \<Longrightarrow> 0 < left s' t"
    by blast
  have keep: "init_tick (t_timers s' t) = init_tick (t_timers s t)" "repeating (t_timers s' t) = repeating (t_timers s t)" for t
    by (simp_all add: s'(5) f)
  have ts': "set ts' = {t \<in> set ts. 1 < left s t \<or> repeating (t_timers s t)}" using s'(6) l by (auto simp: f)
  have "left s' t = (if left s t \<le> 1 then uint (init_tick (t_timers s t)) else left s t - 1)" if t: "t \<in> set ts'" for t
  proof (cases "left s t \<le> 1")
    case True
    then have "repeating (t_timers s t)" "t \<in> set ts" using t ts' by auto
    moreover then have "init_tick (t_timers s t) < RT_TICK_MAX_HALF" using ok by (simp add: periods_ok_def)
    ultimately show ?thesis using True s'(3,5) l by (simp add: left_def [of s'] f fired_def left_started)
  next
    case False
    then have "t \<in> set ts" "\<not> left s0 t \<le> 0" using t ts' l by auto
    then show ?thesis using False s'(3,5) l by (simp add: left_def [of s'] left_def [of s0, symmetric])
  qed
  moreover have "t_flag (t_timers s' t) AND 1 \<noteq> 0" if "t \<in> set ts'" "t_flag (t_timers s t) AND 1 \<noteq> 0" for t
    using that ts' l by (auto simp: s'(5) f fired_def)
  moreover have "ready s' ts'" using s'(2,7) ok ts' keep by (auto simp: ready_def periods_ok_def order_less_imp_le)
  moreover have "rt_tick_increase count_down (quiet act) s = Some s'"
    using s'(1) assms(2) by (simp add: rt_tick_increase_def rt_timer_check_def s0 Let_def)
  ultimately show ?thesis using s'(4) fl f keep ts' by auto
qed

fun ticks :: "('u \<Rightarrow> 'u option) \<Rightarrow> (nat \<Rightarrow> 'u timer_sys \<Rightarrow> 'u timer_sys option) \<Rightarrow> nat \<Rightarrow> 'u timer_sys \<Rightarrow> 'u timer_sys option" where
  "ticks sl f 0 s = Some s"
| "ticks sl f (Suc k) s = do { s \<leftarrow> ticks sl f k s; rt_tick_increase sl f s }"

text \<open>The timeout functions write down which timer has fired.\<close>

definition logs :: "nat \<Rightarrow> nat list \<Rightarrow> nat list" where
  "logs t e = e @ [t]"

lemma fold_logs [simp]: "fold logs ts e = e @ ts"
  by (induction ts arbitrary: e) (simp_all add: logs_def)

lemma count_distinct: "distinct xs \<Longrightarrow> count_list xs x = (if x \<in> set xs then 1 else 0)"
  by (induction xs) auto

lemma ready_start:
  assumes "ready s ts" and "rt_timer_start t s = Some (0, s1)"
    and "t_flag (t_timers s t) AND 2 \<noteq> 0 \<Longrightarrow> 0 < init_tick (t_timers s t)" and "init_tick (t_timers s t) < RT_TICK_MAX_HALF"
  obtains ts1 where "ready s1 ts1" "t \<in> set ts1" "left s1 t = uint (init_tick (t_timers s t))" "t_env s1 = t_env s"
    "init_tick (t_timers s1 t) = init_tick (t_timers s t)" "repeating (t_timers s1 t) \<longleftrightarrow> t_flag (t_timers s t) AND 2 \<noteq> 0"
    "t_flag (t_timers s1 t) AND 1 \<noteq> 0" "set ts1 = insert t (set ts)" "\<And>x. x \<noteq> t \<Longrightarrow> t_timers s1 x = t_timers s x"
    "t_flag (t_timers s1 t) AND 2 = t_flag (t_timers s t) AND 2" "rt_tick s1 = rt_tick s"
proof -
  have ok: "timers_ok s ts" "periods_ok s ts" "\<And>x. x \<in> set ts \<Longrightarrow> 0 \<le> left s x" using assms(1) by (auto simp: ready_def)
  obtain L where
    L: "rt_timer_start t s =
      Some (0, s\<lparr>t_links := L, t_timers := (t_timers s)(t := started (rt_tick s) (t_timers s t)), random_nr := random_nr s + 1\<rparr>)"
      "timers_ok (s\<lparr>t_links := L, t_timers := (t_timers s)(t := started (rt_tick s) (t_timers s t)), random_nr := random_nr s + 1\<rparr>)
        (place s (uint (init_tick (t_timers s t))) t (remove1 t ts))"
    by (rule rt_timer_start_ok [OF ok(1) assms(4)])
  have s1: "s1 = s\<lparr>t_links := L, t_timers := (t_timers s)(t := started (rt_tick s) (t_timers s t)), random_nr := random_nr s + 1\<rparr>"
    using assms(2) L(1) by simp
  have lt: "left s1 x = (if x = t then uint (init_tick (t_timers s t)) else left s x)" for x
    using left_started [OF assms(4)] by (simp add: s1 left_def)
  have "ready s1 (place s (uint (init_tick (t_timers s t))) t (remove1 t ts))"
    using L(2) ok(2,3) assms(3,4) unfolding ready_def periods_ok_def set_place
    by (auto simp: s1 [symmetric] lt dest: notin_set_remove1) (auto simp: s1 dest: notin_set_remove1)
  then show thesis
    by (rule that) (simp_all add: lt, simp_all add: s1 insert_absorb timers_ok_distinct [OF ok(1)])
qed

text \<open>What is true of a timer \<open>k\<close> ticks after it was started for \<open>n\<close> ticks, \<open>c\<close> being how often it had fired before.\<close>

definition on_time :: "nat \<Rightarrow> nat \<Rightarrow> nat \<Rightarrow> bool \<Rightarrow> nat \<Rightarrow> nat list timer_sys \<Rightarrow> bool" where
  "on_time t n c periodic k s \<longleftrightarrow> (\<exists>ts. ready s ts \<and> unat (init_tick (t_timers s t)) = n \<and> (repeating (t_timers s t) \<longleftrightarrow> periodic) \<and>
     (if periodic then t \<in> set ts \<and> left s t = int (n - k mod n) \<and> count_list (t_env s) t = c + k div n
      else if k < n then t \<in> set ts \<and> left s t = int (n - k) \<and> count_list (t_env s) t = c
      else t \<notin> set ts \<and> count_list (t_env s) t = c + 1))"

lemma on_time_step:
  assumes "on_time t n c periodic k s" and "0 < n"
  shows "\<exists>s'. rt_tick_increase Some (quiet logs) s = Some s' \<and> on_time t n c periodic (Suc k) s'"
proof -
  obtain ts where ts: "ready s ts" "unat (init_tick (t_timers s t)) = n" "repeating (t_timers s t) \<longleftrightarrow> periodic"
    and st: "if periodic then t \<in> set ts \<and> left s t = int (n - k mod n) \<and> count_list (t_env s) t = c + k div n
      else if k < n then t \<in> set ts \<and> left s t = int (n - k) \<and> count_list (t_env s) t = c
      else t \<notin> set ts \<and> count_list (t_env s) t = c + 1"
    using assms(1) by (auto simp: on_time_def)
  from rt_tick_increase_ok [OF ts(1), of Some "t_env s" logs] obtain s' ts' where
    s': "rt_tick_increase Some (quiet logs) s = Some s'" "ready s' ts'"
      "t_env s' = t_env s @ filter (\<lambda>t. left s t \<le> 1) ts"
      "init_tick (t_timers s' t) = init_tick (t_timers s t)" "repeating (t_timers s' t) = repeating (t_timers s t)"
      "set ts' = {t \<in> set ts. 1 < left s t \<or> repeating (t_timers s t)}"
      "t \<in> set ts' \<Longrightarrow> left s' t = (if left s t \<le> 1 then uint (init_tick (t_timers s t)) else left s t - 1)"
    unfolding fold_logs by auto
  have "distinct ts" using ts(1) timers_ok_distinct by (auto simp: ready_def)
  then have cnt: "count_list (t_env s') t = count_list (t_env s) t + (if t \<in> set ts \<and> left s t \<le> 1 then 1 else 0)"
    by (simp add: s'(3) count_distinct)
  have un: "uint (init_tick (t_timers s t)) = int n" using ts(2) by auto
  have "on_time t n c periodic (Suc k) s'"
    unfolding on_time_def
  proof (intro exI [of _ ts'] conjI)
    show "if periodic then t \<in> set ts' \<and> left s' t = int (n - Suc k mod n) \<and> count_list (t_env s') t = c + Suc k div n
      else if Suc k < n then t \<in> set ts' \<and> left s' t = int (n - Suc k) \<and> count_list (t_env s') t = c
      else t \<notin> set ts' \<and> count_list (t_env s') t = c + 1"
    proof (cases periodic)
      case True
      have k: "k mod n < n" using assms(2) by simp
      have t: "t \<in> set ts" "left s t = int (n - k mod n)" "count_list (t_env s) t = c + k div n" "t \<in> set ts'"
        using st True ts(3) s'(6) by auto
      show ?thesis
      proof (cases "Suc (k mod n) = n")
        case False
        then have "Suc k mod n = Suc (k mod n)" "Suc k div n = k div n" by (simp_all add: mod_Suc div_Suc)
        moreover have nd: "\<not> left s t \<le> 1" using False k t(2) by simp
        moreover have "left s' t = int (n - k mod n) - 1" using s'(7) [OF t(4)] nd unfolding t(2) by (simp only: if_False)
        ultimately show ?thesis using k t cnt True by (simp add: of_nat_diff)
      qed (use t True cnt un s'(7) [OF t(4)] in \<open>simp add: mod_Suc div_Suc\<close>)
    next
      case False
      then show ?thesis using st ts(3) s'(6,7) cnt by (auto split: if_splits)
    qed
  qed (use s' ts in simp_all)
  then show ?thesis using s'(1) by blast
qed

subsection \<open>All uses of the timers\<close>

text \<open>
  What can happen to the timers after the start of the system, in any order: initialising a timer that is not active,
  starting, stopping and detaching timers, changing them, and ticks of the clock. Times are below half
  the range of the tick, and periodic timers have a period that is not zero.
\<close>

definition legal_time :: "u32 \<Rightarrow> bool" where
  "legal_time n \<longleftrightarrow> 0 < n \<and> n < RT_TICK_MAX_HALF"

definition active :: "rt_timer \<Rightarrow> bool" where
  "active r \<longleftrightarrow> t_flag r AND RT_TIMER_FLAG_ACTIVATED \<noteq> 0"

inductive timer_reach :: "(nat \<Rightarrow> 'u \<Rightarrow> 'u) \<Rightarrow> 'u timer_sys \<Rightarrow> bool" for act where
  boot: "(\<And>t. dlist (t_links s) (Row t) []) \<Longrightarrow> timer_reach act (rt_system_timer_init s)"
| init: "timer_reach act s \<Longrightarrow> \<not> active (t_timers s t) \<Longrightarrow> timer_reach act (timer_init t time flag s)"
| start: "timer_reach act s \<Longrightarrow> rt_timer_start t s = Some (rc, s') \<Longrightarrow> legal_time (init_tick (t_timers s t)) \<Longrightarrow> timer_reach act s'"
| stop: "timer_reach act s \<Longrightarrow> timer_reach act (snd (rt_timer_stop t s))"
| detach: "timer_reach act s \<Longrightarrow> timer_reach act (snd (rt_timer_detach t s))"
| control: "timer_reach act s \<Longrightarrow> (cmd = RT_TIMER_CTRL_SET_TIME \<Longrightarrow> legal_time arg) \<Longrightarrow>
    (cmd = RT_TIMER_CTRL_SET_PERIODIC \<Longrightarrow> legal_time (init_tick (t_timers s t))) \<Longrightarrow>
    timer_reach act (snd (snd (rt_timer_control t cmd arg s)))"
| tick: "timer_reach act s \<Longrightarrow> rt_tick_increase count_down (quiet act) s = Some s' \<Longrightarrow> timer_reach act s'"

definition timer_inv :: "'u timer_sys \<Rightarrow> bool" where
  "timer_inv s \<longleftrightarrow> (\<exists>ts. ready s ts \<and> (\<forall>t \<in> set ts. active (t_timers s t)))"

text \<open>The same with the timers in the list confined to a set.\<close>

definition timers_in :: "'u timer_sys \<Rightarrow> nat set \<Rightarrow> bool" where
  "timers_in s S \<longleftrightarrow> (\<exists>ts. ready s ts \<and> set ts \<subseteq> S \<and> (\<forall>t \<in> set ts. active (t_timers s t)))"

lemma timers_in_UNIV: "timers_in s UNIV \<longleftrightarrow> timer_inv s"
  by (simp add: timers_in_def timer_inv_def)

lemma timers_in_upd:
  assumes "timers_in s S" and "t_links s' = t_links s" and "rt_tick s' = rt_tick s"
    and "\<And>x. x \<noteq> t \<Longrightarrow> t_timers s' x = t_timers s x" and "timeout_tick (t_timers s' t) = timeout_tick (t_timers s t)"
    and "active (t_timers s t) \<Longrightarrow> active (t_timers s' t)"
    and "repeating (t_timers s' t) \<Longrightarrow> legal_time (init_tick (t_timers s' t)) \<or> (repeating (t_timers s t) \<and> init_tick (t_timers s' t) = init_tick (t_timers s t))"
  shows "timers_in s' S"
proof -
  obtain ts where ts: "ready s ts" "set ts \<subseteq> S" "\<forall>t \<in> set ts. active (t_timers s t)" using assms(1) by (auto simp: timers_in_def)
  have "left s' x = left s x" for x by (cases "x = t") (simp_all add: left_def assms(3-5))
  then have l: "left s' = left s" by (rule ext)
  have "timers_ok s ts" using ts(1) by (simp add: ready_def)
  then have "timers_ok s' ts" by (rule timers_ok_cong [OF _ assms(2)]) (simp only: l)
  moreover have "periods_ok s' ts"
    unfolding periods_ok_def
  proof (intro ballI impI)
    fix x
    assume x: "x \<in> set ts" "repeating (t_timers s' x)"
    then show "0 < init_tick (t_timers s' x) \<and> init_tick (t_timers s' x) < RT_TICK_MAX_HALF"
      using ts(1) assms(4,7) by (cases "x = t") (auto simp: ready_def periods_ok_def legal_time_def)
  qed
  moreover have "\<forall>x \<in> set ts. active (t_timers s' x)" using ts(3) assms(4,6) by metis
  ultimately show ?thesis using ts(1,2) l by (auto simp: timers_in_def ready_def)
qed

lemma timers_in_remove:
  assumes "timers_in s S" and "t_links s' = rt_list_remove (Row t) (t_links s)" and "rt_tick s' = rt_tick s"
    and "\<And>x. x \<noteq> t \<Longrightarrow> t_timers s' x = t_timers s x"
  shows "timers_in s' (S - {t})"
proof -
  obtain ts where ts: "ready s ts" "set ts \<subseteq> S" "\<forall>t \<in> set ts. active (t_timers s t)" using assms(1) by (auto simp: timers_in_def)
  then have ok: "timers_ok s ts" by (simp add: ready_def)
  have x: "x \<in> set ts \<and> x \<noteq> t" if "x \<in> set (remove1 t ts)" for x using that timers_ok_distinct [OF ok] by simp
  have l: "left s' x = left s x" if "x \<in> set (remove1 t ts)" for x using x [OF that] assms(3,4) by (simp add: left_def)
  have "timers_ok s' (remove1 t ts)"
  proof (rule timers_ok_cong [OF timer_remove_ok [OF ok, of t]])
    show "t_links s' = t_links (timer_remove t s)" by (simp add: assms(2) timer_remove_def)
  qed (simp only: l timer_remove_simps)
  moreover have "t_timers s' y = t_timers s y" if "y \<in> set (remove1 t ts)" for y using x [OF that] assms(4) by blast
  ultimately show ?thesis
    using ts x l unfolding timers_in_def ready_def periods_ok_def subset_iff Diff_iff singleton_iff
    by (intro exI [of _ "remove1 t ts"]) metis
qed

lemmas timer_inv_upd = timers_in_upd [where S = UNIV, unfolded timers_in_UNIV]

lemma timer_inv_remove:
  assumes "timer_inv s" and "t_links s' = rt_list_remove (Row t) (t_links s)" and "rt_tick s' = rt_tick s"
    and "\<And>x. x \<noteq> t \<Longrightarrow> t_timers s' x = t_timers s x"
  shows "timer_inv s'"
  using timers_in_remove [of s UNIV s' t] assms unfolding timers_in_def timer_inv_def by auto

lemma timer_inv_reach: "timer_reach act s \<Longrightarrow> timer_inv s"
proof (induction rule: timer_reach.induct)
  case (boot s)
  have "dlist (rt_list_init TimerList (t_links s)) (Row t) []" for t
    using dlist_frame [OF boot [of t], of "rt_list_init TimerList (t_links s)"] by (simp add: rt_list_init_def set_next_def set_prev_def)
  then show ?case
    using klist.rep_init [of TimerList "t_links s"]
    by (auto simp: timer_inv_def ready_def timers_ok_def periods_ok_def rt_system_timer_init_def intro!: exI [of _ "[]"])
next
  case (init s t time flag)
  then obtain ts where ts: "ready s ts" "\<forall>t \<in> set ts. active (t_timers s t)" by (auto simp: timer_inv_def)
  let ?s = "timer_init t time flag s"
  have t: "t \<notin> set ts" using ts(2) init(2) by blast
  have "rt_list_init (Row t) (t_links s) = t_links s"
    using ts(1) t by (intro ext rt_list_node.equality) (auto simp: ready_def timers_ok_def dlist_def rt_list_init_def set_next_def set_prev_def)
  then have lk: "t_links ?s = t_links s" by (simp add: timer_init_def upd_timer_def Let_def)
  have tm: "t_timers ?s x = t_timers s x" "left ?s x = left s x" if "x \<in> set ts" for x
    using that t by (auto simp: timer_init_def upd_timer_def Let_def left_def)
  have "timers_ok ?s ts" by (rule timers_ok_cong [of s]) (use ts(1) lk tm in \<open>simp_all add: ready_def\<close>)
  then show ?case using ts tm by (auto simp: timer_inv_def ready_def periods_ok_def intro!: exI [of _ ts])
next
  case (start s t rc s')
  then obtain ts where ts: "ready s ts" "\<forall>t \<in> set ts. active (t_timers s t)" by (auto simp: timer_inv_def)
  have "rc = 0" using start(2) by (auto simp: rt_timer_start_def Let_def bind_eq_Some_conv)
  then obtain ts1 where "ready s' ts1" "set ts1 = insert t (set ts)" "active (t_timers s' t)"
      "\<And>x. x \<noteq> t \<Longrightarrow> t_timers s' x = t_timers s x"
    using ready_start [OF ts(1), of t s'] start(2,3) unfolding legal_time_def active_def by metis
  then show ?case unfolding timer_inv_def using ts(2) by (metis insertE)
next
  case (stop s t)
  show ?case
  proof (cases "active (t_timers s t)")
    case True
    then show ?thesis
      by (intro timer_inv_remove [OF stop(2), of _ t]) (simp_all add: rt_timer_stop_def active_def upd_timer_def timer_remove_def)
  qed (use stop(2) in \<open>simp add: rt_timer_stop_def active_def\<close>)
next
  case (detach s t)
  show ?case
    by (intro timer_inv_remove [OF detach(2), of _ t]) (simp_all add: rt_timer_detach_def timer_remove_def)
next
  case (control s cmd arg t)
  have b: "f AND - 3 AND 1 = f AND 1" "(f OR 2) AND 1 = f AND 1" "f AND - 3 AND 2 = 0" for f :: u8
    by (rule bit_word_eqI; auto simp: bit_simps)+
  show ?case
    using control.hyps by (cases cmd; intro timer_inv_upd [OF control.IH, of _ t])
      (auto simp: rt_timer_control_def upd_timer_def active_def repeating_def and.assoc b)
next
  case (tick s count_down s')
  then obtain e where e: "count_down (t_env s) = Some e" by (auto simp: rt_tick_increase_def Let_def bind_eq_Some_conv)
  from tick obtain ts where ts: "ready s ts" "\<forall>t \<in> set ts. active (t_timers s t)" by (auto simp: timer_inv_def)
  from rt_tick_increase_ok [OF ts(1), of count_down e act] e obtain s2 ts' where
    s2: "rt_tick_increase count_down (quiet act) s = Some s2" "ready s2 ts'"
      "set ts' = {t \<in> set ts. 1 < left s t \<or> repeating (t_timers s t)}"
      "\<forall>t \<in> set ts'. t_flag (t_timers s t) AND 1 \<noteq> 0 \<longrightarrow> t_flag (t_timers s2 t) AND 1 \<noteq> 0"
    by blast
  moreover have "s2 = s'" "set ts' \<subseteq> set ts" using s2(1,3) tick(2) by auto
  ultimately show ?case using ts(2) unfolding timer_inv_def active_def by blast
qed


text \<open>
  C11. A timer fires on time. Whatever has happened to the timers before, one that is started for \<open>n\<close> ticks (between
  1 and 2 to the 31 minus 2) has fired, after \<open>k\<close> ticks of the clock, once if \<open>n \<le> k\<close> when it is a one-shot timer, and
  \<open>k div n\<close> times when it is periodic: never early, never late, across the wrap-around of the
  32-bit tick, and the tick interrupt always comes to an end.
\<close>

theorem timer_fires_on_time:
  assumes "timer_reach logs s" and "rt_timer_start t s = Some (0, s1)" and "legal_time (init_tick (t_timers s t))"
  shows "\<exists>s'. ticks Some (quiet logs) k s1 = Some s' \<and> count_list (t_env s') t = count_list (t_env s) t +
    (if t_flag (t_timers s t) AND 2 \<noteq> 0 then k div unat (init_tick (t_timers s t))
     else if unat (init_tick (t_timers s t)) \<le> k then 1 else 0)"
proof -
  let ?n = "unat (init_tick (t_timers s t))" and ?p = "t_flag (t_timers s t) AND 2 \<noteq> 0"
  let ?inv = "on_time t ?n (count_list (t_env s) t) ?p"
  obtain ts where ts: "ready s ts" using timer_inv_reach [OF assms(1)] by (auto simp: timer_inv_def)
  have n: "0 < init_tick (t_timers s t)" "init_tick (t_timers s t) < RT_TICK_MAX_HALF" using assms(3) by (simp_all add: legal_time_def)
  obtain ts1 where "ready s1 ts1" "t \<in> set ts1" "left s1 t = uint (init_tick (t_timers s t))" "t_env s1 = t_env s"
      "init_tick (t_timers s1 t) = init_tick (t_timers s t)" "repeating (t_timers s1 t) \<longleftrightarrow> ?p"
    by (rule ready_start [OF ts assms(2) n]) blast
  moreover have "0 < ?n" using n(1) by (simp add: word_less_nat_alt)
  ultimately have "?inv 0 s1" by (auto simp: on_time_def)
  then have "\<exists>s'. ticks Some (quiet logs) k s1 = Some s' \<and> ?inv k s'"
  proof (induction k)
    case (Suc k)
    then obtain s' where s': "ticks Some (quiet logs) k s1 = Some s'" "?inv k s'" by blast
    from on_time_step [OF s'(2) \<open>0 < ?n\<close>] show ?case using s'(1) by auto
  qed simp
  then show ?thesis by (auto simp: on_time_def split: if_splits)
qed

definition timer_sys0 :: "nat list timer_sys" where
  "timer_sys0 = \<lparr>t_links = (\<lambda>p. \<lparr>l_next = p, l_prev = p\<rparr>), t_timers = (\<lambda>t. \<lparr>t_flag = 2, init_tick = of_nat t, timeout_tick = 0\<rparr>),
     rt_tick = 0xFFFFFFFE, random_nr = 0, t_env = []\<rparr>"

lemma timer_sys0_ready: "ready timer_sys0 []"
  by (simp add: ready_def timers_ok_def periods_ok_def timer_sys0_def dlist_def)

lemma timer_sys0_reach: "timer_reach logs timer_sys0"
proof -
  have "dlist (t_links timer_sys0) (Row t) []" for t by (simp add: timer_sys0_def dlist_def)
  then have "timer_reach logs (rt_system_timer_init timer_sys0)" by (rule timer_reach.boot)
  moreover have "rt_list_init TimerList (t_links timer_sys0) = t_links timer_sys0"
    by (simp add: timer_sys0_def rt_list_init_def set_next_def set_prev_def fun_eq_iff)
  ultimately show ?thesis by (simp add: rt_system_timer_init_def)
qed


text \<open>A periodic timer of three ticks, started two ticks before the wrap-around, seven ticks later.\<close>

theorem timer_fires_on_time_witness:
  "\<exists>s1 s'. rt_timer_start 3 timer_sys0 = Some (0, s1) \<and> ticks Some (quiet logs) 7 s1 = Some s' \<and> count_list (t_env s') 3 = 2"
proof -
  have n: "init_tick (t_timers timer_sys0 3) = 3" "t_flag (t_timers timer_sys0 3) = 2" "t_env timer_sys0 = []"
    by (simp_all add: timer_sys0_def)
  have "timers_ok timer_sys0 []" using timer_sys0_ready by (simp add: ready_def)
  moreover have "init_tick (t_timers timer_sys0 3) < RT_TICK_MAX_HALF" by (simp add: n)
  ultimately obtain s1 where s1: "rt_timer_start 3 timer_sys0 = Some (0, s1)" by (rule rt_timer_start_ok) blast
  have "legal_time (init_tick (t_timers timer_sys0 3))" by (simp add: n legal_time_def)
  from timer_fires_on_time [OF timer_sys0_reach s1 this, of 7] s1 show ?thesis by (auto simp: n)
qed

text \<open>A due timer of period zero in the list, and that it is still there after a turn of the loop.\<close>

definition zero_due :: "nat \<Rightarrow> 'u timer_sys \<Rightarrow> nat list \<Rightarrow> bool" where
  "zero_due z s ts \<longleftrightarrow> timers_ok s ts \<and> z \<in> set ts \<and> repeating (t_timers s z) \<and> init_tick (t_timers s z) = 0 \<and> left s z \<le> 0 \<and>
     (\<forall>t \<in> set ts. repeating (t_timers s t) \<longrightarrow> init_tick (t_timers s t) < RT_TICK_MAX_HALF)"

lemma zero_due_turn:
  assumes "zero_due z s ts"
  obtains t s1 s' us where "l_next (t_links s TimerList) = Row t" and "\<not> rt_list_isempty TimerList (t_links s)"
    and "rt_tick s - timeout_tick (t_timers s t) < RT_TICK_MAX_HALF" and "quiet act t (timer_remove t s) = Some s1"
    and "timer_rearm t s1 = Some s'" and "rt_tick s1 = rt_tick s'" and "zero_due z s' us"
proof -
  have z: "timers_ok s ts" "z \<in> set ts" "repeating (t_timers s z)" "init_tick (t_timers s z) = 0" "left s z \<le> 0"
    "\<And>t. t \<in> set ts \<Longrightarrow> repeating (t_timers s t) \<Longrightarrow> init_tick (t_timers s t) < RT_TICK_MAX_HALF"
    using assms by (auto simp: zero_due_def)
  then obtain h us where ts: "ts = h # us" by (cases ts) auto
  have "left s h \<le> left s z" using z(1,2) ts by (auto simp: timers_ok_def)
  then have due: "left s h \<le> 0" using z(5) by simp
  have p: "repeating (t_timers s h) \<Longrightarrow> init_tick (t_timers s h) < RT_TICK_MAX_HALF" using z(6) ts by simp
  let ?vs = "if repeating (t_timers s h) then place s (uint (init_tick (t_timers s h))) h us else us"
  show thesis
  proof (rule timer_turn [OF z(1) [unfolded ts] due p, where act = act])
    fix s1 s'
    assume q: "rt_tick s - timeout_tick (t_timers s h) < RT_TICK_MAX_HALF" "quiet act h (timer_remove h s) = Some s1"
      "timer_rearm h s1 = Some s'" "rt_tick s1 = rt_tick s'"
      and ok: "timers_ok s' ?vs" and tm: "t_timers s' = (t_timers s)(h := fired (rt_tick s) (t_timers s h))"
      and tick: "rt_tick s' = rt_tick s"
    have "left s' z \<le> 0"
    proof (cases "z = h")
      case True
      then show ?thesis using z(3,4) p tm tick by (simp add: left_def fired_def left_started)
    qed (use z(5) tm tick in \<open>simp add: left_def\<close>)
    moreover have "z \<in> set ?vs" using z(2,3) ts by auto
    ultimately have "zero_due z s' ?vs" using ok z tm ts by (auto simp: zero_due_def)
    with q dlist_first [OF z(1) [unfolded ts]] show thesis by (intro that [of h s1 s' ?vs]) auto
  qed
qed

lemma zero_due_no_result:
  "timer_check_loop f c s = Some w \<Longrightarrow> f = quiet act \<longrightarrow> c = rt_tick s \<longrightarrow> (\<forall>ts. \<not> zero_due z s ts)"
proof (erule timer_check_loop.raw_induct [where P = "\<lambda>f c s w. f = quiet act \<longrightarrow> c = rt_tick s \<longrightarrow> (\<forall>ts. \<not> zero_due z s ts)", rotated], goal_cases)
  case (1 g f c s w)
  show ?case
  proof (intro impI allI notI)
    fix ts
    assume f: "f = quiet act" and c: "c = rt_tick s" and bad: "zero_due z s ts"
    show False
    proof (rule zero_due_turn [OF bad, where act = act])
      fix t s1 s' us
      assume q: "l_next (t_links s TimerList) = Row t" "\<not> rt_list_isempty TimerList (t_links s)"
        "rt_tick s - timeout_tick (t_timers s t) < RT_TICK_MAX_HALF" "quiet act t (timer_remove t s) = Some s1"
        "timer_rearm t s1 = Some s'" "rt_tick s1 = rt_tick s'" and b: "zero_due z s' us"
      have "g f (rt_tick s') s' = Some w" using 1(2) q f c by simp
      from 1(1) [OF this] f b show False by blast
    qed
  qed
qed

text \<open>
  A periodic timer of zero ticks stops the machine: once such a timer is in the list and due, \<open>rt_timer_check\<close> does not
  return, for the timer is due again as soon as it is started again, and the function runs in the
  tick interrupt. Nothing in \<open>rt_timer_init\<close>, \<open>rt_timer_control\<close> or \<open>rt_timer_start\<close> refuses the period.
\<close>

lemma timer_zero_period_never_ends:
  assumes "timers_ok s ts" and "z \<in> set ts" and "repeating (t_timers s z)" and "init_tick (t_timers s z) = 0" and "left s z \<le> 0"
    and "\<forall>t \<in> set ts. repeating (t_timers s t) \<longrightarrow> init_tick (t_timers s t) < 0x7FFFFFFF"
  shows "rt_timer_check (quiet act) s = None"
proof -
  have "zero_due z s ts" using assms by (simp add: zero_due_def)
  then show ?thesis
    using zero_due_no_result [of "quiet act" "rt_tick s" s _ act z] by (auto simp: rt_timer_check_def intro: option.exhaust)
qed

text \<open>Such a timer, started and then due at once.\<close>

end
