(* ===== verification/Sched.thy ===== *)
theory Sched
  imports Timer
begin

text \<open>
  The scheduler and the threads of the kernel, \<open>rt-thread/src/scheduler.c\<close> and \<open>thread.c\<close>, for one processor and 32
  priorities, without signals and with no hooks set. Threads are named by numbers; the timer of a
  thread has the number of the thread. A function that gives up the processor is modelled up to the
  switch; what it does after it is a definition of its own. The switch itself is code of the processor: in
  the model it is the change of \<open>rt_current_thread\<close>.
\<close>

subsection \<open>The state\<close>

text \<open>The nodes of the lists: the heads of the ready lists, of the list of closed threads and of the lists of waiting
  threads, and the node \<open>tlist\<close> of each thread.\<close>

datatype khead = Table nat | Defunct | Suspended nat
datatype kptr = Head khead | Tlist nat

record rt_thread =
  th_type :: u8
  sp :: u32
  stack_addr :: u32
  stack_size :: u32
  stack_mark :: u8
  th_error :: int
  stat :: u8
  current_priority :: u8
  init_priority :: u8
  number_mask :: u32
  slice_tick :: u32
  remaining_tick :: u32
  cleanup :: bool

text \<open>\<open>stack_mark\<close> is the byte at \<open>stack_addr\<close>, \<open>slice_tick\<close> the thread's \<open>init_tick\<close>, and \<open>cleanup\<close> says that there is a cleanup function.\<close>

record ksys =
  k_links :: "kptr links"
  threads :: "nat \<Rightarrow> rt_thread"
  rt_thread_ready_priority_group :: u32
  rt_scheduler_lock_nest :: "16 word"
  rt_current_thread :: "nat option"
  rt_current_priority :: u8

abbreviation (input) "RT_THREAD_INIT \<equiv> 0 :: u8"
abbreviation (input) "RT_THREAD_READY \<equiv> 1 :: u8"
abbreviation (input) "RT_THREAD_SUSPEND \<equiv> 2 :: u8"
abbreviation (input) "RT_THREAD_RUNNING \<equiv> 3 :: u8"
abbreviation (input) "RT_THREAD_CLOSE \<equiv> 4 :: u8"
abbreviation (input) "RT_THREAD_STAT_MASK \<equiv> 7 :: u8"
abbreviation (input) "RT_THREAD_STAT_YIELD \<equiv> 8 :: u8"
abbreviation (input) "RT_Object_Class_Thread \<equiv> 1 :: u8"
abbreviation (input) "RT_Object_Class_Static \<equiv> 0x80 :: u8"
abbreviation (input) "RT_ETIMEOUT \<equiv> 2 :: int"

definition upd_thread :: "nat \<Rightarrow> (rt_thread \<Rightarrow> rt_thread) \<Rightarrow> ksys \<Rightarrow> ksys" where
  "upd_thread t f s = s\<lparr>threads := (threads s)(t := f (threads s t))\<rparr>"

text \<open>The state of a thread, and its change, which leaves the other bits of \<open>stat\<close> as they are.\<close>

definition thread_stat :: "ksys \<Rightarrow> nat \<Rightarrow> u8" where
  "thread_stat s t = stat (threads s t) AND RT_THREAD_STAT_MASK"

definition set_stat :: "u8 \<Rightarrow> nat \<Rightarrow> ksys \<Rightarrow> ksys" where
  "set_stat x t = upd_thread t (stat_update (\<lambda>f. x OR (f AND NOT RT_THREAD_STAT_MASK)))"

definition rt_object_get_type :: "rt_thread \<Rightarrow> u8" where
  "rt_object_get_type r = th_type r AND NOT RT_Object_Class_Static"

definition rt_object_is_systemobject :: "rt_thread \<Rightarrow> bool" where
  "rt_object_is_systemobject r \<longleftrightarrow> th_type r AND RT_Object_Class_Static \<noteq> 0"

subsection \<open>The scheduler\<close>

text \<open>The number of the lowest bit set, counted from one, as \<open>__builtin_ffs\<close> gives it.\<close>

definition rt_ffs :: "u32 \<Rightarrow> u32" where
  "rt_ffs v = (if v = 0 then 0 else of_nat (length (takeWhile Not (map (bit v) [0..<32]))) + 1)"

text \<open>An overflow of the stack is reported and the machine stopped, which has no result.\<close>

definition rt_scheduler_stack_check :: "rt_thread \<Rightarrow> unit option" where
  "rt_scheduler_stack_check r =
     rt_assert (\<not> (stack_mark r \<noteq> 0x23 \<or> sp r \<le> stack_addr r \<or> sp r > stack_addr r + stack_size r))"

text \<open>Accesses to the table are checked against its 32 entries.\<close>

definition get_highest_priority_thread :: "ksys \<Rightarrow> (nat \<times> u32) option" where
  "get_highest_priority_thread s = do {
     let p = rt_ffs (rt_thread_ready_priority_group s) - 1;
     rt_assert (p < 32);
     case l_next (k_links s (Head (Table (unat p)))) of Tlist t \<Rightarrow> Some (t, p) | Head _ \<Rightarrow> None }"

definition rt_system_scheduler_init :: "ksys \<Rightarrow> ksys" where
  "rt_system_scheduler_init s =
     (let s = s\<lparr>rt_scheduler_lock_nest := 0\<rparr>;
          s = s\<lparr>k_links := fold (\<lambda>p. rt_list_init (Head (Table p))) [0..<32] (k_links s)\<rparr>;
          s = s\<lparr>rt_thread_ready_priority_group := 0\<rparr> in
      s\<lparr>k_links := rt_list_init (Head Defunct) (k_links s)\<rparr>)"

definition rt_schedule_insert_thread :: "nat \<Rightarrow> ksys \<Rightarrow> ksys option" where
  "rt_schedule_insert_thread t s =
     (if rt_current_thread s = Some t then Some (set_stat RT_THREAD_RUNNING t s)
      else do {
        let s = set_stat RT_THREAD_READY t s;
        let p = unat (current_priority (threads s t));
        rt_assert (p < 32);
        let s = s\<lparr>k_links := rt_list_insert_before (Head (Table p)) (Tlist t) (k_links s)\<rparr>;
        Some (s\<lparr>rt_thread_ready_priority_group := rt_thread_ready_priority_group s OR number_mask (threads s t)\<rparr>) })"

definition rt_schedule_remove_thread :: "nat \<Rightarrow> ksys \<Rightarrow> ksys option" where
  "rt_schedule_remove_thread t s = do {
     let s = s\<lparr>k_links := rt_list_remove (Tlist t) (k_links s)\<rparr>;
     let p = unat (current_priority (threads s t));
     rt_assert (p < 32);
     Some (if rt_list_isempty (Head (Table p)) (k_links s)
           then s\<lparr>rt_thread_ready_priority_group := rt_thread_ready_priority_group s AND NOT (number_mask (threads s t))\<rparr>
           else s) }"

definition rt_system_scheduler_start :: "ksys \<Rightarrow> ksys option" where
  "rt_system_scheduler_start s = do {
     (to_thread, _) \<leftarrow> get_highest_priority_thread s;
     let s = s\<lparr>rt_current_thread := Some to_thread\<rparr>;
     s \<leftarrow> rt_schedule_remove_thread to_thread s;
     Some (upd_thread to_thread (stat_update (\<lambda>_. RT_THREAD_RUNNING)) s) }"

text \<open>
  The choice that \<open>rt_schedule\<close> makes between the running thread and the first one of the highest ready priority:
  the thread to run, whether the running one goes back to its ready list, and the state.
\<close>

definition schedule_choice :: "nat \<Rightarrow> nat \<Rightarrow> u32 \<Rightarrow> ksys \<Rightarrow> nat \<times> bool \<times> ksys" where
  "schedule_choice c to_thread p s =
     (if thread_stat s c = RT_THREAD_RUNNING then
        if ucast (current_priority (threads s c)) < p then (c, False, s)
        else if ucast (current_priority (threads s c)) = p \<and> stat (threads s c) AND RT_THREAD_STAT_YIELD = 0 then (c, False, s)
        else (to_thread, True, upd_thread c (stat_update (\<lambda>f. f AND NOT RT_THREAD_STAT_YIELD)) s)
      else (to_thread, False, s))"

definition rt_schedule :: "ksys \<Rightarrow> ksys option" where
  "rt_schedule s =
     (if rt_scheduler_lock_nest s = 0 \<and> rt_thread_ready_priority_group s \<noteq> 0 then do {
        (to_thread, p) \<leftarrow> get_highest_priority_thread s;
        c \<leftarrow> rt_current_thread s;
        let (to_thread, need_insert_from_thread, s) = schedule_choice c to_thread p s;
        if to_thread \<noteq> c then do {
          let s = s\<lparr>rt_current_priority := ucast p, rt_current_thread := Some to_thread\<rparr>;
          s \<leftarrow> (if need_insert_from_thread then rt_schedule_insert_thread c s else Some s);
          s \<leftarrow> rt_schedule_remove_thread to_thread s;
          let s = set_stat RT_THREAD_RUNNING to_thread s;
          rt_scheduler_stack_check (threads s to_thread);
          Some s }
        else do {
          s \<leftarrow> rt_schedule_remove_thread c s;
          Some (set_stat RT_THREAD_RUNNING c s) } }
      else Some s)"

definition rt_enter_critical :: "ksys \<Rightarrow> ksys" where
  "rt_enter_critical s = s\<lparr>rt_scheduler_lock_nest := rt_scheduler_lock_nest s + 1\<rparr>"

definition rt_exit_critical :: "ksys \<Rightarrow> ksys option" where
  "rt_exit_critical s =
     (let s = s\<lparr>rt_scheduler_lock_nest := rt_scheduler_lock_nest s - 1\<rparr> in
      if sint (rt_scheduler_lock_nest s) \<le> 0 then
        (let s = s\<lparr>rt_scheduler_lock_nest := 0\<rparr> in
         if rt_current_thread s \<noteq> None then rt_schedule s else Some s)
      else Some s)"

definition rt_critical_level :: "ksys \<Rightarrow> 16 word" where
  "rt_critical_level s = rt_scheduler_lock_nest s"

subsection \<open>Threads\<close>

text \<open>The kernel as a whole: the timers, with the scheduler and the threads as the rest of their system.\<close>

type_synonym kernel = "ksys timer_sys"

definition on_k :: "(ksys \<Rightarrow> ksys option) \<Rightarrow> kernel \<Rightarrow> kernel option" where
  "on_k f s = do { e \<leftarrow> f (t_env s); Some (s\<lparr>t_env := e\<rparr>) }"

definition upd_k :: "(ksys \<Rightarrow> ksys) \<Rightarrow> kernel \<Rightarrow> kernel" where
  "upd_k f s = s\<lparr>t_env := f (t_env s)\<rparr>"

abbreviation thread_of :: "nat \<Rightarrow> kernel \<Rightarrow> rt_thread" where
  "thread_of t s \<equiv> threads (t_env s) t"

definition is_thread :: "nat \<Rightarrow> kernel \<Rightarrow> bool" where
  "is_thread t s \<longleftrightarrow> rt_object_get_type (thread_of t s) = RT_Object_Class_Thread"

text \<open>
  \<open>_rt_thread_init\<close>; where \<open>rt_hw_stack_init\<close> puts the stack pointer is an argument. The stack is filled with the
  character 0x23, of which the model keeps the byte that is looked at.
\<close>

definition thread_init :: "nat \<Rightarrow> u32 \<Rightarrow> u32 \<Rightarrow> u32 \<Rightarrow> u8 \<Rightarrow> u32 \<Rightarrow> kernel \<Rightarrow> kernel option" where
  "thread_init t stack_start sz stack_pointer priority tick s = do {
     let s = upd_k (\<lambda>k. k\<lparr>k_links := rt_list_init (Tlist t) (k_links k)\<rparr>) s;
     let s = upd_k (upd_thread t (\<lambda>r. r\<lparr>stack_addr := stack_start, stack_size := sz,
               stack_mark := (if sz = 0 then stack_mark r else 0x23), sp := stack_pointer\<rparr>)) s;
     rt_assert (priority < 32);
     let s = upd_k (upd_thread t (\<lambda>r. r\<lparr>init_priority := priority, current_priority := priority, number_mask := 0,
               slice_tick := tick, remaining_tick := tick, th_error := 0, stat := RT_THREAD_INIT, cleanup := False\<rparr>)) s;
     Some (timer_init t 0 0 s) }"

text \<open>\<open>rt_object_init\<close> looks for the object in the list of its class with the scheduler locked, and leaves the lock.\<close>

definition object_search :: "kernel \<Rightarrow> kernel option" where
  "object_search s = on_k rt_exit_critical (upd_k rt_enter_critical s)"

definition rt_thread_init :: "nat \<Rightarrow> u32 \<Rightarrow> u32 \<Rightarrow> u32 \<Rightarrow> u8 \<Rightarrow> u32 \<Rightarrow> kernel \<Rightarrow> kernel option" where
  "rt_thread_init t stack_start sz stack_pointer priority tick s = do {
     s \<leftarrow> object_search s;
     thread_init t stack_start sz stack_pointer priority tick
       (upd_k (upd_thread t (th_type_update (\<lambda>_. RT_Object_Class_Thread OR RT_Object_Class_Static))) s) }"

text \<open>The thread object and the stack that could be allocated, or not, are arguments.\<close>

definition rt_thread_create ::
    "nat option \<Rightarrow> u32 option \<Rightarrow> u32 \<Rightarrow> u32 \<Rightarrow> u8 \<Rightarrow> u32 \<Rightarrow> kernel \<Rightarrow> (nat option \<times> kernel) option" where
  "rt_thread_create object stack sz stack_pointer priority tick s =
     (case object of
        None \<Rightarrow> Some (None, s)
      | Some t \<Rightarrow>
          let s = upd_k (upd_thread t (th_type_update (\<lambda>_. RT_Object_Class_Thread))) s in
          case stack of
            None \<Rightarrow> Some (None, upd_k (upd_thread t (th_type_update (\<lambda>_. 0))) s)
          | Some stack_start \<Rightarrow> do {
              s \<leftarrow> thread_init t stack_start sz stack_pointer priority tick s;
              Some (Some t, s) })"

definition rt_thread_suspend :: "nat \<Rightarrow> kernel \<Rightarrow> (int \<times> kernel) option" where
  "rt_thread_suspend t s = do {
     rt_assert (is_thread t s);
     let st = thread_stat (t_env s) t;
     if st \<noteq> RT_THREAD_READY \<and> st \<noteq> RT_THREAD_RUNNING then Some (- 1, s)
     else do {
       rt_assert (st = RT_THREAD_RUNNING \<longrightarrow> rt_current_thread (t_env s) = Some t);
       s \<leftarrow> on_k (rt_schedule_remove_thread t) s;
       let s = upd_k (set_stat RT_THREAD_SUSPEND t) s;
       let s = snd (rt_timer_stop t s);
       Some (0, s) } }"

definition rt_thread_resume :: "nat \<Rightarrow> kernel \<Rightarrow> (int \<times> kernel) option" where
  "rt_thread_resume t s = do {
     rt_assert (is_thread t s);
     if thread_stat (t_env s) t \<noteq> RT_THREAD_SUSPEND then Some (- 1, s)
     else do {
       let s = upd_k (\<lambda>k. k\<lparr>k_links := rt_list_remove (Tlist t) (k_links k)\<rparr>) s;
       let s = snd (rt_timer_stop t s);
       s \<leftarrow> on_k (rt_schedule_insert_thread t) s;
       Some (0, s) } }"

text \<open>The priority attribute is computed with a shift, which is defined below 32.\<close>

definition set_priority :: "nat \<Rightarrow> u8 \<Rightarrow> ksys \<Rightarrow> ksys option" where
  "set_priority t priority s = do {
     rt_assert (priority < 32);
     Some (upd_thread t (\<lambda>r. r\<lparr>current_priority := priority, number_mask := push_bit (unat priority) 1\<rparr>) s) }"

definition rt_thread_startup :: "nat \<Rightarrow> kernel \<Rightarrow> (int \<times> kernel) option" where
  "rt_thread_startup t s = do {
     rt_assert (thread_stat (t_env s) t = RT_THREAD_INIT);
     rt_assert (is_thread t s);
     s \<leftarrow> on_k (set_priority t (init_priority (thread_of t s))) s;
     let s = upd_k (upd_thread t (stat_update (\<lambda>_. RT_THREAD_SUSPEND))) s;
     (_, s) \<leftarrow> rt_thread_resume t s;
     s \<leftarrow> (if rt_current_thread (t_env s) \<noteq> None then on_k rt_schedule s else Some s);
     Some (0, s) }"

text \<open>What becomes of a closed thread: its object is detached, or it waits for the idle thread to clean up.\<close>

definition close_thread :: "nat \<Rightarrow> kernel \<Rightarrow> kernel" where
  "close_thread t s =
     (if rt_object_is_systemobject (thread_of t s) \<and> \<not> cleanup (thread_of t s)
      then upd_k (upd_thread t (th_type_update (\<lambda>_. 0))) s
      else upd_k (\<lambda>k. k\<lparr>k_links := rt_list_insert_after (Head Defunct) (Tlist t) (k_links k)\<rparr>) s)"

definition rt_thread_exit :: "kernel \<Rightarrow> kernel option" where
  "rt_thread_exit s = do {
     t \<leftarrow> rt_current_thread (t_env s);
     s \<leftarrow> on_k (rt_schedule_remove_thread t) s;
     let s = upd_k (upd_thread t (stat_update (\<lambda>_. RT_THREAD_CLOSE))) s;
     let s = snd (rt_timer_detach t s);
     on_k rt_schedule (close_thread t s) }"

text \<open>\<open>rt_thread_detach\<close> for objects of the system, \<open>rt_thread_delete\<close> for created ones.\<close>

definition rt_thread_detach :: "nat \<Rightarrow> kernel \<Rightarrow> (int \<times> kernel) option" where
  "rt_thread_detach t s = do {
     rt_assert (is_thread t s);
     rt_assert (rt_object_is_systemobject (thread_of t s));
     s \<leftarrow> (if thread_stat (t_env s) t \<noteq> RT_THREAD_INIT then on_k (rt_schedule_remove_thread t) s else Some s);
     let s = snd (rt_timer_detach t s);
     let s = upd_k (upd_thread t (stat_update (\<lambda>_. RT_THREAD_CLOSE))) s;
     Some (0, close_thread t s) }"

definition rt_thread_delete :: "nat \<Rightarrow> kernel \<Rightarrow> (int \<times> kernel) option" where
  "rt_thread_delete t s = do {
     rt_assert (is_thread t s);
     rt_assert (\<not> rt_object_is_systemobject (thread_of t s));
     s \<leftarrow> (if thread_stat (t_env s) t \<noteq> RT_THREAD_INIT then on_k (rt_schedule_remove_thread t) s else Some s);
     let s = snd (rt_timer_detach t s);
     let s = upd_k (upd_thread t (stat_update (\<lambda>_. RT_THREAD_CLOSE))) s;
     Some (0, upd_k (\<lambda>k. k\<lparr>k_links := rt_list_insert_after (Head Defunct) (Tlist t) (k_links k)\<rparr>) s) }"

definition rt_thread_yield :: "ksys \<Rightarrow> ksys option" where
  "rt_thread_yield s = rt_schedule s"

text \<open>Giving up the processor for a time: the part under the interrupt lock, and the return after the switch.\<close>

definition sleep_for :: "nat \<Rightarrow> u32 \<Rightarrow> kernel \<Rightarrow> kernel option" where
  "sleep_for t tick s = do {
     (_, s) \<leftarrow> rt_thread_suspend t s;
     let s = snd (snd (rt_timer_control t RT_TIMER_CTRL_SET_TIME tick s));
     (_, s) \<leftarrow> rt_timer_start t s;
     Some s }"

definition rt_thread_sleep :: "u32 \<Rightarrow> kernel \<Rightarrow> kernel option" where
  "rt_thread_sleep tick s = do {
     t \<leftarrow> rt_current_thread (t_env s);
     rt_assert (is_thread t s);
     s \<leftarrow> sleep_for t tick s;
     on_k rt_schedule s }"

definition sleep_return :: "nat \<Rightarrow> kernel \<Rightarrow> int \<times> kernel" where
  "sleep_return t s =
     (0, if th_error (thread_of t s) = - RT_ETIMEOUT then upd_k (upd_thread t (th_error_update (\<lambda>_. 0))) s else s)"

definition rt_thread_mdelay :: "int \<Rightarrow> kernel \<Rightarrow> kernel option" where
  "rt_thread_mdelay ms s = rt_thread_sleep (rt_tick_from_millisecond ms) s"

text \<open>The first component says whether the thread sleeps; the second is the value of the variable \<open>tick\<close>.\<close>

definition rt_thread_delay_until :: "u32 \<Rightarrow> u32 \<Rightarrow> kernel \<Rightarrow> (bool \<times> u32 \<times> kernel) option" where
  "rt_thread_delay_until tick inc_tick s = do {
     t \<leftarrow> rt_current_thread (t_env s);
     rt_assert (is_thread t s);
     if rt_tick s - tick < inc_tick then do {
       let tick = rt_tick s - tick + inc_tick;
       s \<leftarrow> sleep_for t tick s;
       s \<leftarrow> on_k rt_schedule s;
       Some (True, tick, s) }
     else Some (False, rt_tick s, s) }"

definition delay_until_return :: "nat \<Rightarrow> kernel \<Rightarrow> int \<times> u32 \<times> kernel" where
  "delay_until_return t s = (let (rc, s) = sleep_return t s in (rc, rt_tick s, s))"

datatype thread_ctrl = RT_THREAD_CTRL_CHANGE_PRIORITY u8 | RT_THREAD_CTRL_STARTUP | RT_THREAD_CTRL_CLOSE | RT_THREAD_CTRL_OTHER

definition change_priority :: "nat \<Rightarrow> u8 \<Rightarrow> ksys \<Rightarrow> ksys option" where
  "change_priority t priority s =
     (if thread_stat s t = RT_THREAD_READY then do {
        s \<leftarrow> rt_schedule_remove_thread t s;
        s \<leftarrow> set_priority t priority s;
        rt_schedule_insert_thread t s }
      else set_priority t priority s)"

definition rt_thread_control :: "nat \<Rightarrow> thread_ctrl \<Rightarrow> kernel \<Rightarrow> (int \<times> kernel) option" where
  "rt_thread_control t cmd s = do {
     rt_assert (is_thread t s);
     case cmd of
       RT_THREAD_CTRL_CHANGE_PRIORITY priority \<Rightarrow> do { s \<leftarrow> on_k (change_priority t priority) s; Some (0, s) }
     | RT_THREAD_CTRL_STARTUP \<Rightarrow> rt_thread_startup t s
     | RT_THREAD_CTRL_CLOSE \<Rightarrow> rt_thread_delete t s
     | RT_THREAD_CTRL_OTHER \<Rightarrow> Some (0, s) }"

text \<open>The timeout function of the timer of a thread, and the tick of the clock with both its effects on threads.\<close>

definition rt_thread_timeout :: "nat \<Rightarrow> ksys \<Rightarrow> ksys option" where
  "rt_thread_timeout t s = do {
     rt_assert (thread_stat s t = RT_THREAD_SUSPEND);
     rt_assert (rt_object_get_type (threads s t) = RT_Object_Class_Thread);
     let s = upd_thread t (th_error_update (\<lambda>_. - RT_ETIMEOUT)) s;
     let s = s\<lparr>k_links := rt_list_remove (Tlist t) (k_links s)\<rparr>;
     s \<leftarrow> rt_schedule_insert_thread t s;
     rt_schedule s }"

definition slice_down :: "ksys \<Rightarrow> ksys option" where
  "slice_down s = do {
     t \<leftarrow> rt_current_thread s;
     let s = upd_thread t (remaining_tick_update (\<lambda>n. n - 1)) s;
     if remaining_tick (threads s t) = 0 then
       rt_thread_yield (upd_thread t (\<lambda>r. r\<lparr>remaining_tick := slice_tick r, stat := stat r OR RT_THREAD_STAT_YIELD\<rparr>) s)
     else Some s }"

definition sys_tick :: "kernel \<Rightarrow> kernel option" where
  "sys_tick = rt_tick_increase slice_down (\<lambda>t. on_k (rt_thread_timeout t))"

subsection \<open>The lists of threads\<close>

text \<open>
  \<open>H\<close> are the heads that have been initialised, \<open>T\<close> the threads, and \<open>L\<close> the contents of the lists. A thread is in at most
  one list; the node of a thread in none is by itself.
\<close>

definition lists_ok :: "kptr links \<Rightarrow> khead set \<Rightarrow> nat set \<Rightarrow> (khead \<Rightarrow> nat list) \<Rightarrow> bool" where
  "lists_ok s H T L \<longleftrightarrow> (\<forall>h \<in> H. dlist s (Head h) (map Tlist (L h))) \<and> (\<forall>h. h \<notin> H \<longrightarrow> L h = []) \<and> (\<forall>h. set (L h) \<subseteq> T) \<and>
     (\<forall>h k t. t \<in> set (L h) \<longrightarrow> t \<in> set (L k) \<longrightarrow> h = k) \<and> (\<forall>t \<in> T. (\<forall>h. t \<notin> set (L h)) \<longrightarrow> dlist s (Tlist t) [])"

lemma lists_okD:
  assumes "lists_ok s H T L"
  shows "h \<in> H \<Longrightarrow> dlist s (Head h) (map Tlist (L h))" and "h \<notin> H \<Longrightarrow> L h = []" and "t \<in> set (L h) \<Longrightarrow> t \<in> T"
    and "t \<in> set (L h) \<Longrightarrow> t \<in> set (L k) \<Longrightarrow> h = k" and "t \<in> T \<Longrightarrow> (\<And>h. t \<notin> set (L h)) \<Longrightarrow> dlist s (Tlist t) []"
  using assms unfolding lists_ok_def by blast+

lemma lists_ok_distinct: "lists_ok s H T L \<Longrightarrow> distinct (L h)"
  using klist.rep_distinct [of s "Head h" "map Tlist (L h)"] lists_okD(1,2) [of s H T L h]
  by (cases "h \<in> H") (auto simp: distinct_map)

lemma remove1_Tlist: "remove1 (Tlist t) (map Tlist ts) = map Tlist (remove1 t ts)"
  by (induction ts) auto

text \<open>Taking a thread out of the list that it is in, if any.\<close>

lemma lists_remove:
  assumes ok: "lists_ok s H T L" and t: "t \<in> T"
  shows "lists_ok (rt_list_remove (Tlist t) s) H T (\<lambda>h. remove1 t (L h))"
proof (cases "\<exists>k. t \<in> set (L k)")
  case False
  then have "\<And>h. t \<notin> set (L h)" by blast
  moreover from this have "rt_list_remove (Tlist t) s = s" by (intro klist.remove_lone lists_okD(5) [OF ok t])
  ultimately show ?thesis using ok by (simp add: remove1_idem)
next
  case True
  then obtain k where k: "t \<in> set (L k)" by blast
  then obtain as bs where L: "L k = as @ t # bs" by (meson split_list)
  have kH: "k \<in> H" using lists_okD(2) [OF ok] k by fastforce
  note d = lists_okD(1) [OF ok kH, unfolded L, simplified]
  have other: "t \<notin> set (L h)" if "h \<noteq> k" for h using lists_okD(4) [OF ok k] that by blast
  have dj: "set (L h) \<inter> set (L k) = {}" if "h \<noteq> k" for h using lists_okD(4) [OF ok] that by blast
  let ?s = "rt_list_remove (Tlist t) s"
  have keep: "dlist ?s p zs" if "dlist s p zs" "set (p # zs) \<inter> set (Head k # map Tlist (L k)) = {}" for p zs
    using klist.remove_keeps [OF d that(1)] that(2) L by simp
  have "dlist ?s (Head h) (map Tlist (remove1 t (L h)))" if h: "h \<in> H" for h
  proof (cases "h = k")
    case True
    then show ?thesis using klist.rep_take_out [OF lists_okD(1) [OF ok h], of "Tlist t"] k by (simp add: remove1_Tlist)
  next
    case False
    then show ?thesis using keep [OF lists_okD(1) [OF ok h]] other dj by (auto simp: remove1_idem)
  qed
  moreover have "dlist ?s (Tlist u) []" if u: "u \<in> T" "\<forall>h. u \<notin> set (remove1 t (L h))" for u
  proof (cases "u = t")
    case False
    then have "\<forall>h. u \<notin> set (L h)" using u(2) by (simp add: in_set_remove1)
    then show ?thesis using keep [OF lists_okD(5) [OF ok u(1)]] by auto
  qed (simp add: klist.rep_removed)
  ultimately show ?thesis
    unfolding lists_ok_def using lists_okD(2,3,4) [OF ok] by (auto dest: notin_set_remove1) (meson notin_set_remove1)+
qed

text \<open>Putting a thread that is in no list somewhere into one; links that are changed only there.\<close>

lemma lists_put:
  assumes ok: "lists_ok s H T L" and h: "h \<in> H" "t \<in> T" and t: "\<And>k. t \<notin> set (L k)" and L: "set zs = insert t (set (L h))"
    and new: "dlist s' (Head h) (map Tlist zs)"
    and keep: "\<And>k us. dlist s k us \<Longrightarrow> set (k # us) \<inter> set (Head h # Tlist t # map Tlist (L h)) = {} \<Longrightarrow> dlist s' k us"
  shows "lists_ok s' H T (L(h := zs))"
proof -
  have dj: "set (L k) \<inter> set (L h) = {}" if "k \<noteq> h" for k using lists_okD(4) [OF ok] that by blast
  have "dlist s' (Head k) (map Tlist ((L(h := zs)) k))" if k: "k \<in> H" for k
    using keep [OF lists_okD(1) [OF ok k]] dj [of k] t new by (cases "k = h") auto
  moreover have "dlist s' (Tlist u) []" if u: "u \<in> T" "\<forall>k. u \<notin> set ((L(h := zs)) k)" for u
  proof -
    have nz: "u \<notin> set zs" using u(2) by (auto dest: spec [of _ h])
    then have "u \<noteq> t" "u \<notin> set (L h)" using L by auto
    moreover have "\<forall>k. u \<notin> set (L k)" using u(2) calculation(2) by (metis fun_upd_apply)
    ultimately show ?thesis using keep [OF lists_okD(5) [OF ok u(1)]] by auto
  qed
  ultimately show ?thesis
    unfolding lists_ok_def using lists_okD(2,3,4) [OF ok] h L t by (auto split: if_splits)
qed

lemma lists_insert_before:
  assumes ok: "lists_ok s H T L" and h: "h \<in> H" "t \<in> T" "\<And>k. t \<notin> set (L k)" and L: "L h = xs @ ys"
  shows "lists_ok (rt_list_insert_before (hd (map Tlist ys @ [Head h])) (Tlist t) s) H T (L(h := xs @ t # ys))"
proof (rule lists_put [OF ok h])
  have d: "dlist s (Head h) (map Tlist xs @ map Tlist ys)" using lists_okD(1) [OF ok h(1)] L by simp
  have n: "Tlist t \<notin> set (Head h # map Tlist xs @ map Tlist ys)" using h(3) [of h] L by auto
  show "dlist (rt_list_insert_before (hd (map Tlist ys @ [Head h])) (Tlist t) s) (Head h) (map Tlist (xs @ t # ys))"
    using klist.rep_insert_before [OF d n] by simp
  show "dlist (rt_list_insert_before (hd (map Tlist ys @ [Head h])) (Tlist t) s) k us"
    if "dlist s k us" "set (k # us) \<inter> set (Head h # Tlist t # map Tlist (L h)) = {}" for k us
    using klist.insert_before_keeps [OF d n that(1)] that(2) L by simp
qed (simp add: L)

lemma lists_append:
  assumes "lists_ok s H T L" and "h \<in> H" "t \<in> T" "\<And>k. t \<notin> set (L k)"
  shows "lists_ok (rt_list_insert_before (Head h) (Tlist t) s) H T (L(h := L h @ [t]))"
  using lists_insert_before [OF assms, of "L h" "[]"] by simp

lemma lists_push:
  assumes ok: "lists_ok s H T L" and h: "h \<in> H" "t \<in> T" "\<And>k. t \<notin> set (L k)"
  shows "lists_ok (rt_list_insert_after (Head h) (Tlist t) s) H T (L(h := t # L h))"
proof (rule lists_put [OF ok h])
  have d: "dlist s (Head h) ([] @ map Tlist (L h))" using lists_okD(1) [OF ok h(1)] by simp
  have n: "Tlist t \<notin> set (Head h # [] @ map Tlist (L h))" using h(3) [of h] by auto
  show "dlist (rt_list_insert_after (Head h) (Tlist t) s) (Head h) (map Tlist (t # L h))"
    using klist.rep_insert_after [OF d n] by simp
  show "dlist (rt_list_insert_after (Head h) (Tlist t) s) k us"
    if "dlist s k us" "set (k # us) \<inter> set (Head h # Tlist t # map Tlist (L h)) = {}" for k us
    using klist.insert_after_keeps [OF d n that(1)] that(2) by simp
qed simp

text \<open>New heads and new threads.\<close>

lemma lists_new_head:
  assumes ok: "lists_ok s H T L" and "h \<notin> H"
  shows "lists_ok (rt_list_init (Head h) s) (insert h H) T L"
proof -
  have "L h = []" using lists_okD(2) [OF ok assms(2)] .
  moreover have "dlist (rt_list_init (Head h) s) (Head k) (map Tlist (L k))" if "k \<in> H" for k
    using klist.init_keeps [OF lists_okD(1) [OF ok that], of "Head h"] that assms(2) by auto
  moreover have "dlist (rt_list_init (Head h) s) (Tlist t) []" if "t \<in> T" "\<forall>h. t \<notin> set (L h)" for t
    using klist.init_keeps [OF lists_okD(5) [OF ok that(1)], of "Head h"] that(2) by auto
  ultimately show ?thesis using ok klist.rep_init [of "Head h" s] by (simp add: lists_ok_def)
qed

lemma lists_new_thread:
  assumes ok: "lists_ok s H T L" and t: "t \<notin> T"
  shows "lists_ok (rt_list_init (Tlist t) s) H (insert t T) L"
proof -
  have nt: "t \<notin> set (L h)" for h using lists_okD(3) [OF ok] t by blast
  have "dlist (rt_list_init (Tlist t) s) (Head k) (map Tlist (L k))" if "k \<in> H" for k
    using klist.init_keeps [OF lists_okD(1) [OF ok that], of "Tlist t"] nt by auto
  moreover have "dlist (rt_list_init (Tlist t) s) (Tlist u) []" if "u \<in> insert t T" "\<forall>h. u \<notin> set (L h)" for u
  proof (cases "u = t")
    case False
    then show ?thesis using klist.init_keeps [OF lists_okD(5) [OF ok, of u], of "Tlist t"] that by auto
  qed (simp add: klist.rep_init)
  ultimately show ?thesis using ok unfolding lists_ok_def by blast
qed

subsection \<open>Ready lists and priority group\<close>

lemma takeWhile_first:
  assumes "\<exists>x \<in> set xs. P x"
  shows "length (takeWhile (Not \<circ> P) xs) < length xs \<and> P (xs ! length (takeWhile (Not \<circ> P) xs)) \<and>
    (\<forall>i < length (takeWhile (Not \<circ> P) xs). \<not> P (xs ! i))"
proof -
  let ?n = "length (takeWhile (Not \<circ> P) xs)"
  have n: "?n < length xs"
  proof (rule ccontr)
    assume "\<not> ?n < length xs"
    then have "takeWhile (Not \<circ> P) xs = xs" using takeWhile_eq_take [of "Not \<circ> P" xs] by simp
    then show False using assms by (simp add: takeWhile_eq_all_conv)
  qed
  moreover have "\<not> P (xs ! i)" if "i < ?n" for i
    using set_takeWhileD [of "xs ! i" "Not \<circ> P" xs] nth_mem [OF that] takeWhile_nth [OF that] by simp
  ultimately show ?thesis using nth_length_takeWhile [OF n] by simp
qed

lemma rt_ffs_lowest:
  assumes "v \<noteq> 0"
  obtains p where "p < 32" and "rt_ffs v - 1 = of_nat p" and "bit v p" and "\<And>q. q < p \<Longrightarrow> \<not> bit v q"
proof -
  have "\<exists>p < 32. bit v p" using assms bit_eq_iff [of v 0] by (auto dest: bit_imp_le_length)
  then have "\<exists>p \<in> set [0..<32]. bit v p" by auto
  note f = takeWhile_first [OF this]
  define n where n: "n = length (takeWhile Not (map (bit v) [0..<32]))"
  have e: "length (takeWhile (Not \<circ> bit v) [0..<32]) = n" by (simp add: n takeWhile_map comp_def)
  show thesis
  proof (rule that [of n])
    show "n < 32" using f unfolding e by simp
    then show "bit v n" using f unfolding e by simp
    show "\<not> bit v q" if "q < n" for q using f that \<open>n < 32\<close> unfolding e by (auto dest: spec [of _ q])
    show "rt_ffs v - 1 = of_nat n" using assms by (simp add: rt_ffs_def n [symmetric])
  qed
qed

definition heads :: "nat set \<Rightarrow> khead set" where
  "heads Q = Table ` {..<32} \<union> {Defunct} \<union> Suspended ` Q"

lemma heads_simps [simp]: "Table p \<in> heads Q \<longleftrightarrow> p < 32" "Defunct \<in> heads Q" "Suspended q \<in> heads Q \<longleftrightarrow> q \<in> Q"
  by (auto simp: heads_def)

abbreviation prio :: "ksys \<Rightarrow> nat \<Rightarrow> nat" where
  "prio s t \<equiv> unat (current_priority (threads s t))"

definition has_mask :: "ksys \<Rightarrow> nat \<Rightarrow> bool" where
  "has_mask s t \<longleftrightarrow> number_mask (threads s t) = push_bit (prio s t) 1"

text \<open>
  The ready lists hold threads of their priority, and the priority group has the bits of the lists that are
  not empty.
\<close>

definition queues_ok :: "ksys \<Rightarrow> nat set \<Rightarrow> nat set \<Rightarrow> (khead \<Rightarrow> nat list) \<Rightarrow> bool" where
  "queues_ok s T Q L \<longleftrightarrow> lists_ok (k_links s) (heads Q) T L \<and> (\<forall>p. \<forall>t \<in> set (L (Table p)). prio s t = p) \<and>
     (\<forall>t \<in> T. prio s t < 32) \<and> (\<forall>p < 32. bit (rt_thread_ready_priority_group s) p \<longleftrightarrow> L (Table p) \<noteq> [])"

lemma queues_okD:
  assumes "queues_ok s T Q L"
  shows "lists_ok (k_links s) (heads Q) T L" and "t \<in> set (L (Table p)) \<Longrightarrow> prio s t = p" and "t \<in> T \<Longrightarrow> prio s t < 32"
    and "p < 32 \<Longrightarrow> bit (rt_thread_ready_priority_group s) p \<longleftrightarrow> L (Table p) \<noteq> []"
  using assms by (auto simp: queues_ok_def)

lemma queues_ok_cong:
  assumes "queues_ok s T Q L" and "k_links s' = k_links s" and "rt_thread_ready_priority_group s' = rt_thread_ready_priority_group s"
    and "\<And>t. t \<in> T \<Longrightarrow> prio s' t = prio s t"
  shows "queues_ok s' T Q L"
  using assms lists_okD(3) [OF queues_okD(1) [OF assms(1)]] unfolding queues_ok_def by metis

lemma upd_thread_simps [simp]:
  "k_links (upd_thread t f s) = k_links s" "rt_thread_ready_priority_group (upd_thread t f s) = rt_thread_ready_priority_group s"
  "rt_scheduler_lock_nest (upd_thread t f s) = rt_scheduler_lock_nest s" "rt_current_thread (upd_thread t f s) = rt_current_thread s"
  "threads (upd_thread t f s) = (threads s)(t := f (threads s t))"
  by (simp_all add: upd_thread_def)

lemma set_stat_simps [simp]:
  "k_links (set_stat x t s) = k_links s" "rt_thread_ready_priority_group (set_stat x t s) = rt_thread_ready_priority_group s"
  "rt_scheduler_lock_nest (set_stat x t s) = rt_scheduler_lock_nest s" "rt_current_thread (set_stat x t s) = rt_current_thread s"
  "current_priority (threads (set_stat x t s) u) = current_priority (threads s u)"
  "number_mask (threads (set_stat x t s) u) = number_mask (threads s u)"
  by (simp_all add: set_stat_def)

lemma bit_mask: "bit (2 ^ p :: u32) q \<longleftrightarrow> q = p \<and> p < 32"
  by (auto simp: bit_simps)

text \<open>Inserting and removing a thread change the links and the group so that both stay consistent.\<close>

lemma insert_queues:
  assumes ok: "queues_ok s T Q L" and t: "t \<in> T" "\<And>h. t \<notin> set (L h)" and "has_mask s t" and "rt_current_thread s \<noteq> Some t"
  obtains K G where "rt_schedule_insert_thread t s = Some ((set_stat 1 t s)\<lparr>k_links := K, rt_thread_ready_priority_group := G\<rparr>)"
    and "queues_ok ((set_stat 1 t s)\<lparr>k_links := K, rt_thread_ready_priority_group := G\<rparr>) T Q
      (L(Table (prio s t) := L (Table (prio s t)) @ [t]))"
proof -
  let ?p = "prio s t"
  let ?K = "rt_list_insert_before (Head (Table ?p)) (Tlist t) (k_links s)"
  let ?G = "rt_thread_ready_priority_group s OR number_mask (threads s t)"
  note q = queues_okD [OF ok]
  have p: "?p < 32" using q(3) t(1) by simp
  have "lists_ok ?K (heads Q) T (L(Table ?p := L (Table ?p) @ [t]))" by (rule lists_append [OF q(1)]) (use t p in simp_all)
  moreover have "bit ?G r \<longleftrightarrow> (L(Table ?p := L (Table ?p) @ [t])) (Table r) \<noteq> []" if "r < 32" for r
    using q(4) [OF that] assms(4) p by (simp add: has_mask_def bit_or_iff bit_mask)
  ultimately have "queues_ok ((set_stat 1 t s)\<lparr>k_links := ?K, rt_thread_ready_priority_group := ?G\<rparr>) T Q (L(Table ?p := L (Table ?p) @ [t]))"
    using q(2,3) by (auto simp: queues_ok_def)
  moreover have "rt_schedule_insert_thread t s = Some ((set_stat 1 t s)\<lparr>k_links := ?K, rt_thread_ready_priority_group := ?G\<rparr>)"
    using assms(5) p by (simp add: rt_schedule_insert_thread_def Let_def rt_assert_def)
  ultimately show thesis using that by blast
qed

lemma remove_queues:
  assumes ok: "queues_ok s T Q L" and t: "t \<in> T" and "has_mask s t"
  obtains K G where "rt_schedule_remove_thread t s = Some (s\<lparr>k_links := K, rt_thread_ready_priority_group := G\<rparr>)"
    and "queues_ok (s\<lparr>k_links := K, rt_thread_ready_priority_group := G\<rparr>) T Q (\<lambda>h. remove1 t (L h))"
proof -
  let ?p = "prio s t" and ?K = "rt_list_remove (Tlist t) (k_links s)" and ?g = "rt_thread_ready_priority_group s"
  let ?L = "\<lambda>h. remove1 t (L h)"
  define G where G: "G = (if ?L (Table ?p) = [] then ?g AND NOT (number_mask (threads s t)) else ?g)"
  note q = queues_okD [OF ok]
  have p: "?p < 32" using q(3) t by simp
  have lo: "lists_ok ?K (heads Q) T ?L" by (rule lists_remove [OF q(1) t])
  have "dlist ?K (Head (Table ?p)) (map Tlist (?L (Table ?p)))" using lists_okD(1) [OF lo, of "Table ?p"] p by simp
  then have e: "rt_list_isempty (Head (Table ?p)) ?K \<longleftrightarrow> ?L (Table ?p) = []" by (simp add: klist.rep_isempty)
  have other: "?L (Table r) = L (Table r)" if "r \<noteq> ?p" for r using q(2) [of t r] that by (metis remove1_idem)
  have "bit G r \<longleftrightarrow> ?L (Table r) \<noteq> []" if r: "r < 32" for r
  proof (cases "r = ?p")
    case True
    have "?L (Table ?p) \<noteq> [] \<Longrightarrow> L (Table ?p) \<noteq> []" by auto
    then show ?thesis using q(4) [OF p] assms(3) p True by (auto simp: G has_mask_def bit_and_iff bit_not_iff bit_mask)
  next
    case False
    then show ?thesis using q(4) [OF r] other [OF False] assms(3) r by (auto simp: G has_mask_def bit_and_iff bit_not_iff bit_mask)
  qed
  then have "queues_ok (s\<lparr>k_links := ?K, rt_thread_ready_priority_group := G\<rparr>) T Q ?L"
    using lo q(2,3) unfolding queues_ok_def by (auto dest: notin_set_remove1)
  moreover have "rt_schedule_remove_thread t s = Some (s\<lparr>k_links := ?K, rt_thread_ready_priority_group := G\<rparr>)"
    using p e by (simp add: rt_schedule_remove_thread_def Let_def rt_assert_def G)
  ultimately show thesis using that by blast
qed

subsection \<open>The scheduler invariant\<close>

text \<open>
  The states of the threads fit the lists they are in, only the current thread is running, and the
  attributes of threads that have been started and not closed are computed.
\<close>

definition stats_ok :: "ksys \<Rightarrow> nat set \<Rightarrow> (khead \<Rightarrow> nat list) \<Rightarrow> bool" where
  "stats_ok s T L \<longleftrightarrow> (\<forall>t \<in> T. thread_stat s t = RT_THREAD_READY \<longleftrightarrow> t \<in> set (L (Table (prio s t)))) \<and>
     (\<forall>q. \<forall>t \<in> set (L (Suspended q)). thread_stat s t = RT_THREAD_SUSPEND) \<and> (\<forall>t \<in> set (L Defunct). thread_stat s t = RT_THREAD_CLOSE) \<and>
     (\<forall>t \<in> T. thread_stat s t = RT_THREAD_RUNNING \<longrightarrow> rt_current_thread s = Some t) \<and>
     (\<forall>t. rt_current_thread s = Some t \<longrightarrow> t \<in> T \<and> thread_stat s t \<noteq> RT_THREAD_READY \<and> thread_stat s t \<noteq> RT_THREAD_INIT) \<and>
     (\<forall>t \<in> T. thread_stat s t \<noteq> RT_THREAD_INIT \<longrightarrow> thread_stat s t \<noteq> RT_THREAD_CLOSE \<longrightarrow> has_mask s t)"

definition sched_ok :: "ksys \<Rightarrow> nat set \<Rightarrow> nat set \<Rightarrow> (khead \<Rightarrow> nat list) \<Rightarrow> bool" where
  "sched_ok s T Q L \<longleftrightarrow> queues_ok s T Q L \<and> stats_ok s T L"

lemma stats_okD:
  assumes "stats_ok s T L"
  shows "t \<in> T \<Longrightarrow> thread_stat s t = 1 \<longleftrightarrow> t \<in> set (L (Table (prio s t)))"
    and "t \<in> set (L (Suspended q)) \<Longrightarrow> thread_stat s t = 2" and "t \<in> set (L Defunct) \<Longrightarrow> thread_stat s t = 4"
    and "t \<in> T \<Longrightarrow> thread_stat s t = 3 \<Longrightarrow> rt_current_thread s = Some t"
    and "rt_current_thread s = Some c \<Longrightarrow> c \<in> T \<and> thread_stat s c \<noteq> 1 \<and> thread_stat s c \<noteq> 0"
    and "t \<in> T \<Longrightarrow> thread_stat s t \<noteq> 0 \<Longrightarrow> thread_stat s t \<noteq> 4 \<Longrightarrow> has_mask s t"
  using assms unfolding stats_ok_def by blast+

lemma thread_stat_simps [simp]:
  "thread_stat (s\<lparr>k_links := K\<rparr>) t = thread_stat s t" "thread_stat (s\<lparr>rt_thread_ready_priority_group := G\<rparr>) t = thread_stat s t"
  "thread_stat (s\<lparr>rt_current_thread := c\<rparr>) t = thread_stat s t" "thread_stat (s\<lparr>rt_current_priority := p\<rparr>) t = thread_stat s t"
  "thread_stat (s\<lparr>rt_scheduler_lock_nest := n\<rparr>) t = thread_stat s t"
  by (simp_all add: thread_stat_def)

lemma has_mask_simps [simp]:
  "has_mask (s\<lparr>k_links := K\<rparr>) t = has_mask s t" "has_mask (s\<lparr>rt_thread_ready_priority_group := G\<rparr>) t = has_mask s t"
  "has_mask (s\<lparr>rt_current_thread := c\<rparr>) t = has_mask s t" "has_mask (s\<lparr>rt_current_priority := p\<rparr>) t = has_mask s t"
  "has_mask (s\<lparr>rt_scheduler_lock_nest := n\<rparr>) t = has_mask s t" "has_mask (set_stat x u s) t = has_mask s t"
  by (simp_all add: has_mask_def)

lemma stat_bits: "(x OR (f AND NOT 7)) AND 7 = x AND (7 :: u8)"
  by (rule bit_word_eqI) (auto simp: bit_simps)

lemma thread_stat_set [simp]: "x AND 7 = x \<Longrightarrow> thread_stat (set_stat x t s) u = (if u = t then x else thread_stat s u)"
  using stat_bits [of x] by (simp add: thread_stat_def set_stat_def)

lemma set_stat_idem: "thread_stat s t = x \<Longrightarrow> set_stat x t s = s"
proof -
  assume x: "thread_stat s t = x"
  have "(f AND 7) OR (f AND NOT 7) = f" for f :: u8 by (rule bit_word_eqI) (auto simp: bit_simps)
  then have "stat_update (\<lambda>f. x OR (f AND NOT 7)) (threads s t) = threads s t"
    using x by (intro rt_thread.equality) (auto simp: thread_stat_def)
  then show ?thesis unfolding set_stat_def upd_thread_def by (simp only: fun_upd_triv) simp
qed

lemma sched_okD: "sched_ok s T Q L \<Longrightarrow> queues_ok s T Q L" "sched_ok s T Q L \<Longrightarrow> stats_ok s T L"
  by (simp_all add: sched_ok_def)

text \<open>In which lists a thread cannot be.\<close>

lemma stat_notin:
  assumes "sched_ok s T Q L" and "t \<in> T"
  shows "thread_stat s t \<noteq> 1 \<Longrightarrow> t \<notin> set (L (Table p))" and "thread_stat s t \<noteq> 2 \<Longrightarrow> t \<notin> set (L (Suspended q))"
    and "thread_stat s t \<noteq> 4 \<Longrightarrow> t \<notin> set (L Defunct)"
  using assms queues_okD(2) [of s T Q L t p] stats_okD(1-3) [of s T L] unfolding sched_ok_def by metis+

lemma running_alone:
  assumes "sched_ok s T Q L" and "t \<in> T" and "thread_stat s t = 3 \<or> thread_stat s t = 0"
  shows "t \<notin> set (L h)"
  using stat_notin [OF assms(1,2)] assms(3) by (cases h) auto

lemma remove_nothing:
  assumes ok: "queues_ok s T Q L" and t: "t \<in> T" "\<And>h. t \<notin> set (L h)" and m: "has_mask s t"
  shows "rt_schedule_remove_thread t s = Some s"
proof -
  note q = queues_okD [OF ok]
  let ?p = "prio s t" and ?g = "rt_thread_ready_priority_group s"
  have p: "?p < 32" using q(3) t(1) by simp
  have k: "rt_list_remove (Tlist t) (k_links s) = k_links s" by (intro klist.remove_lone lists_okD(5) [OF q(1)] t)
  have e: "rt_list_isempty (Head (Table ?p)) (k_links s) \<longleftrightarrow> L (Table ?p) = []"
    using lists_okD(1) [OF q(1), of "Table ?p"] p by (simp add: klist.rep_isempty)
  have "?g AND NOT (2 ^ ?p) = ?g" if "L (Table ?p) = []"
    using that q(4) [OF p] by (intro bit_word_eqI) (auto simp: bit_and_iff bit_not_iff bit_mask)
  then show ?thesis using p k e m by (simp add: rt_schedule_remove_thread_def Let_def rt_assert_def has_mask_def)
qed

lemma group_zero:
  assumes "queues_ok s T Q L"
  shows "rt_thread_ready_priority_group s = 0 \<longleftrightarrow> (\<forall>p. L (Table p) = [])"
proof
  assume "rt_thread_ready_priority_group s = 0"
  then have "L (Table p) = []" if "p < 32" for p using queues_okD(4) [OF assms that] by simp
  moreover have "L (Table p) = []" if "\<not> p < 32" for p using lists_okD(2) [OF queues_okD(1) [OF assms], of "Table p"] that by simp
  ultimately show "\<forall>p. L (Table p) = []" by blast
next
  assume "\<forall>p. L (Table p) = []"
  then show "rt_thread_ready_priority_group s = 0"
    using queues_okD(4) [OF assms] by (intro bit_word_eqI) auto
qed

lemma highest_first:
  assumes ok: "queues_ok s T Q L" and "rt_thread_ready_priority_group s \<noteq> 0"
  obtains p t ts where "p < 32" and "L (Table p) = t # ts" and "\<And>q. q < p \<Longrightarrow> L (Table q) = []"
    and "get_highest_priority_thread s = Some (t, of_nat p)"
proof -
  note q = queues_okD [OF ok]
  obtain p where p: "p < 32" "rt_ffs (rt_thread_ready_priority_group s) - 1 = of_nat p" "bit (rt_thread_ready_priority_group s) p"
      "\<And>q. q < p \<Longrightarrow> \<not> bit (rt_thread_ready_priority_group s) q"
    by (rule rt_ffs_lowest [OF assms(2)]) blast
  obtain t ts where L: "L (Table p) = t # ts" using q(4) [OF p(1)] p(3) by (cases "L (Table p)") auto
  have "dlist (k_links s) (Head (Table p)) (map Tlist (t # ts))" using lists_okD(1) [OF q(1), of "Table p"] p(1) L by simp
  then have "l_next (k_links s (Head (Table p))) = Tlist t" by (simp add: dlist_def)
  moreover have "unat (of_nat p :: u32) = p" "(of_nat p :: u32) < 32" using p(1) by (simp_all add: unat_of_nat_small word_less_nat_alt)
  ultimately have "get_highest_priority_thread s = Some (t, of_nat p)"
    by (simp add: get_highest_priority_thread_def Let_def p(2) rt_assert_def)
  moreover have "L (Table q) = []" if "q < p" for q using queues_okD(4) [OF ok, of q] p(1,4) that by simp
  ultimately show thesis using that p(1) L by blast
qed

subsection \<open>A scheduling decision\<close>

text \<open>When the current thread keeps the processor although a thread of priority \<open>p\<close> is ready.\<close>

definition stays :: "ksys \<Rightarrow> nat \<Rightarrow> nat \<Rightarrow> bool" where
  "stays s c p \<longleftrightarrow> thread_stat s c = RT_THREAD_RUNNING \<and>
     (prio s c < p \<or> prio s c = p \<and> stat (threads s c) AND RT_THREAD_STAT_YIELD = 0)"

lemma schedule_choice_eq:
  assumes "p < 32"
  shows "schedule_choice c t (of_nat p) s =
    (if stays s c p then (c, False, s)
     else (t, thread_stat s c = RT_THREAD_RUNNING,
       if thread_stat s c = RT_THREAD_RUNNING then upd_thread c (stat_update (\<lambda>f. f AND NOT RT_THREAD_STAT_YIELD)) s else s))"
proof -
  have u: "unat (of_nat p :: u32) = p" using assms by (simp add: unat_of_nat_small)
  have "unat (ucast (current_priority (threads s c)) :: u32) = prio s c" using unsigned_less [of "current_priority (threads s c)", where ?'a = nat]
    by (simp add: unsigned_ucast_eq take_bit_nat_eq_self)
  then have "(ucast (current_priority (threads s c)) :: u32) < of_nat p \<longleftrightarrow> prio s c < p"
    "(ucast (current_priority (threads s c)) :: u32) = of_nat p \<longleftrightarrow> prio s c = p"
    using u by (simp_all add: word_less_nat_alt word_unat_eq_iff)
  then show ?thesis by (simp add: schedule_choice_def stays_def)
qed

lemma schedule_stay:
  assumes ok: "sched_ok s T Q L" and c: "rt_current_thread s = Some c"
    and "get_highest_priority_thread s = Some (t, of_nat p)" and p: "p < 32" and st: "stays s c p"
  shows "rt_schedule s = Some s"
proof -
  have r: "thread_stat s c = 3" using st by (simp add: stays_def)
  have cT: "c \<in> T" using stats_okD(5) [OF sched_okD(2) [OF ok] c] by simp
  then have "has_mask s c" using stats_okD(6) [OF sched_okD(2) [OF ok]] r by simp
  then have "rt_schedule_remove_thread c s = Some s"
    using remove_nothing [OF sched_okD(1) [OF ok] cT] running_alone [OF ok cT] r by simp
  then show ?thesis using assms r by (simp add: rt_schedule_def schedule_choice_eq set_stat_idem)
qed

text \<open>The switch: the thread that loses the processor while it is running goes to the end of its ready list.\<close>

definition leave :: "nat \<Rightarrow> ksys \<Rightarrow> rt_thread \<Rightarrow> rt_thread" where
  "leave c s = (if thread_stat s c = RT_THREAD_RUNNING
     then stat_update (\<lambda>f. RT_THREAD_READY OR ((f AND NOT RT_THREAD_STAT_YIELD) AND NOT RT_THREAD_STAT_MASK)) else id)"

definition switched :: "nat \<Rightarrow> nat \<Rightarrow> ksys \<Rightarrow> nat \<Rightarrow> rt_thread" where
  "switched c t s = (threads s)(c := leave c s (threads s c),
     t := stat_update (\<lambda>f. RT_THREAD_RUNNING OR (f AND NOT RT_THREAD_STAT_MASK)) (threads s t))"

definition requeue :: "nat \<Rightarrow> ksys \<Rightarrow> (khead \<Rightarrow> nat list) \<Rightarrow> khead \<Rightarrow> nat list" where
  "requeue c s L = (if thread_stat s c = RT_THREAD_RUNNING then L(Table (prio s c) := L (Table (prio s c)) @ [c]) else L)"

lemma schedule_switch:
  assumes ok: "sched_ok s T Q L" and c: "rt_current_thread s = Some c" and "rt_scheduler_lock_nest s = 0"
    and h: "get_highest_priority_thread s = Some (t, of_nat p)" and p: "p < 32" "L (Table p) = t # ts"
    and st: "\<not> stays s c p"
  obtains K G where "rt_schedule s = do {
      rt_scheduler_stack_check (threads s t);
      Some (s\<lparr>k_links := K, threads := switched c t s, rt_thread_ready_priority_group := G, rt_current_thread := Some t,
        rt_current_priority := of_nat p\<rparr>) }"
    and "queues_ok (s\<lparr>k_links := K, threads := switched c t s, rt_thread_ready_priority_group := G, rt_current_thread := Some t,
        rt_current_priority := of_nat p\<rparr>) T Q (\<lambda>h. remove1 t (requeue c s L h))"
proof -
  note q = sched_okD(1) [OF ok] and v = sched_okD(2) [OF ok]
  have cT: "c \<in> T" and cs: "thread_stat s c \<noteq> 1" "thread_stat s c \<noteq> 0" using stats_okD(5) [OF v c] by auto
  have cm: "thread_stat s c = 3 \<Longrightarrow> has_mask s c" using stats_okD(6) [OF v cT] by simp
  have tT: "t \<in> T" using lists_okD(3) [OF queues_okD(1) [OF q], of t "Table p"] p by simp
  have ts: "thread_stat s t = 1" using stats_okD(1) [OF v tT] queues_okD(2) [OF q, of t p] p by simp
  then have tm: "has_mask s t" using stats_okD(6) [OF v tT] by simp
  have tc: "t \<noteq> c" using ts cs by auto
  have g: "rt_thread_ready_priority_group s \<noteq> 0" using group_zero [OF q] p by force
  define s1 where s1: "s1 = (if thread_stat s c = 3 then upd_thread c (stat_update (\<lambda>f. f AND NOT RT_THREAD_STAT_YIELD)) s else s)
    \<lparr>rt_current_priority := of_nat p, rt_current_thread := Some t\<rparr>"
  have "queues_ok s1 T Q L" by (rule queues_ok_cong [OF q]) (simp_all add: s1)
  moreover have pr: "prio s1 c = prio s c" by (simp add: s1)
  moreover have "thread_stat s c = 3 \<Longrightarrow> has_mask s1 c" using cm by (simp add: s1 has_mask_def)
  moreover have "rt_current_thread s1 \<noteq> Some c" using tc by (simp add: s1)
  moreover have "c \<notin> set (L k)" if "thread_stat s c = 3" for k using running_alone [OF ok cT] that by simp
  ultimately obtain K1 G1 where
    s2: "(if thread_stat s c = 3 then rt_schedule_insert_thread c s1 else Some s1) =
        Some (s1\<lparr>k_links := K1, threads := (threads s)(c := leave c s (threads s c)), rt_thread_ready_priority_group := G1\<rparr>)"
    and q2: "queues_ok (s1\<lparr>k_links := K1, threads := (threads s)(c := leave c s (threads s c)), rt_thread_ready_priority_group := G1\<rparr>)
        T Q (requeue c s L)"
  proof (cases "thread_stat s c = 3")
    case True
    have e: "(set_stat 1 c s1)\<lparr>k_links := K, rt_thread_ready_priority_group := G\<rparr> =
        s1\<lparr>k_links := K, threads := (threads s)(c := leave c s (threads s c)), rt_thread_ready_priority_group := G\<rparr>" for K G
      using True by (cases s) (simp add: s1 set_stat_def upd_thread_def leave_def comp_def)
    assume "queues_ok s1 T Q L" "prio s1 c = prio s c" "thread_stat s c = 3 \<Longrightarrow> has_mask s1 c" "rt_current_thread s1 \<noteq> Some c"
      "\<And>k. thread_stat s c = 3 \<Longrightarrow> c \<notin> set (L k)"
    then obtain K G where "rt_schedule_insert_thread c s1 = Some ((set_stat 1 c s1)\<lparr>k_links := K, rt_thread_ready_priority_group := G\<rparr>)"
      "queues_ok ((set_stat 1 c s1)\<lparr>k_links := K, rt_thread_ready_priority_group := G\<rparr>) T Q (requeue c s L)"
      using insert_queues [of s1 T Q L c] cT True unfolding requeue_def by simp blast
    then show thesis unfolding e using that True by simp
  next
    case False
    assume "queues_ok s1 T Q L"
    moreover have "s1 = s1\<lparr>k_links := k_links s1, threads := (threads s)(c := leave c s (threads s c)),
        rt_thread_ready_priority_group := rt_thread_ready_priority_group s1\<rparr>"
      using False by (simp add: s1 leave_def)
    ultimately show thesis using that [of "rt_thread_ready_priority_group s1" "k_links s1"] False by (simp add: requeue_def)
  qed
  let ?s2 = "s1\<lparr>k_links := K1, threads := (threads s)(c := leave c s (threads s c)), rt_thread_ready_priority_group := G1\<rparr>"
  have "has_mask ?s2 t" using tm tc by (simp add: has_mask_def)
  then obtain K G where
    s3: "rt_schedule_remove_thread t ?s2 = Some (?s2\<lparr>k_links := K, rt_thread_ready_priority_group := G\<rparr>)"
    and q3: "queues_ok (?s2\<lparr>k_links := K, rt_thread_ready_priority_group := G\<rparr>) T Q (\<lambda>h. remove1 t (requeue c s L h))"
    using remove_queues [OF q2 tT] by blast
  define s4 where s4: "s4 = s\<lparr>k_links := K, threads := switched c t s, rt_thread_ready_priority_group := G, rt_current_thread := Some t,
    rt_current_priority := of_nat p\<rparr>"
  have e4: "set_stat 3 t (?s2\<lparr>k_links := K, rt_thread_ready_priority_group := G\<rparr>) = s4"
    using tc by (simp add: s1 s4 set_stat_def upd_thread_def switched_def)
  have "queues_ok s4 T Q (\<lambda>h. remove1 t (requeue c s L h))"
    by (rule queues_ok_cong [OF q3]) (simp_all add: s4 switched_def leave_def)
  moreover have "ucast (of_nat p :: u32) = (of_nat p :: u8)" using p(1) by (simp add: unsigned_of_nat take_bit_nat_eq_self)
  then have "rt_schedule s = do { rt_scheduler_stack_check (threads s4 t); Some s4 }"
    using assms g tc s2 s3 e4 schedule_choice_eq [OF p(1), of c t s]
    by (auto simp: rt_schedule_def s1 split: if_splits)
  moreover have "rt_scheduler_stack_check (threads s4 t) = rt_scheduler_stack_check (threads s t)"
    by (simp add: rt_scheduler_stack_check_def s4 switched_def)
  ultimately show thesis using that [of G K] unfolding s4 by simp
qed

end
