(* ===== verification/Threads.thy ===== *)
theory Threads
  imports Sched
begin

text \<open>
  What the scheduler and the operations on threads guarantee: the invariant of the scheduler under all of them and
  under the interrupts of the clock, the choice of the thread to run, and the time that a thread
  sleeps.
\<close>

subsection \<open>The scheduler keeps the invariant\<close>

lemma thread_stat_threads [simp]: "thread_stat (s\<lparr>threads := th\<rparr>) t = stat (th t) AND 7"
  by (simp add: thread_stat_def)

lemma stat_switched:
  assumes "t \<noteq> c"
  shows "stat (switched c t s u) AND 7 = (if u = t then 3 else if u = c \<and> thread_stat s c = 3 then 1 else thread_stat s u)"
proof -
  show ?thesis
    using assms stat_bits [of 3 "stat (threads s t)"] stat_bits [of 1 "stat (threads s c) AND NOT 8"]
    by (simp add: thread_stat_def switched_def leave_def)
qed

lemma switched_simps [simp]:
  "current_priority (switched c t s u) = current_priority (threads s u)" "number_mask (switched c t s u) = number_mask (threads s u)"
  by (simp_all add: switched_def leave_def)

lemma switch_ok:
  assumes ok: "sched_ok s T Q L" and c: "rt_current_thread s = Some c" and t: "t \<in> set (L (Table p))"
    and q: "queues_ok (s\<lparr>k_links := K, threads := switched c t s, rt_thread_ready_priority_group := G, rt_current_thread := Some t,
        rt_current_priority := P\<rparr>) T Q (\<lambda>h. remove1 t (requeue c s L h))" (is "queues_ok ?s T Q ?L")
  shows "sched_ok ?s T Q ?L"
proof -
  note q0 = sched_okD(1) [OF ok] and v = sched_okD(2) [OF ok]
  have cT: "c \<in> T" and cs: "thread_stat s c \<noteq> 1" "thread_stat s c \<noteq> 0" using stats_okD(5) [OF v c] by auto
  have tT: "t \<in> T" using lists_okD(3) [OF queues_okD(1) [OF q0] t] .
  have ts: "thread_stat s t = 1" using stats_okD(1) [OF v tT] queues_okD(2) [OF q0 t] t by simp
  have tc: "t \<noteq> c" using ts cs by auto
  note st = stat_switched [OF tc]
  have cn: "c \<notin> set (L (Table r))" for r using stat_notin(1) [OF ok cT] cs by blast
  have "distinct (requeue c s L h)" for h
    using lists_ok_distinct [OF queues_okD(1) [OF q0]] cn by (simp add: requeue_def)
  then have tn: "t \<notin> set (?L h)" for h by simp
  have other: "?L (Suspended q) = L (Suspended q)" "?L Defunct = L Defunct" for q
    using stat_notin(2,3) [OF ok tT] ts by (auto simp: requeue_def remove1_idem)
  have inL: "u \<in> set (?L (Table r)) \<longleftrightarrow> u \<in> set (L (Table r)) \<or> (u = c \<and> thread_stat s c = 3 \<and> r = prio s c)" if "u \<noteq> t" for u r
    using that by (auto simp: requeue_def)
  have R: "thread_stat ?s u = 1 \<longleftrightarrow> u \<in> set (?L (Table (prio ?s u)))" if u: "u \<in> T" for u
  proof (cases "u = t")
    case False
    then show ?thesis unfolding inL [OF False] using stats_okD(1) [OF v u] cn cs by (auto simp: st)
  qed (use tn in \<open>simp add: st\<close>)
  have S: "thread_stat ?s u = 2" if "u \<in> set (?L (Suspended q))" for u q
    using that stats_okD(2) [OF v] ts unfolding other by (auto simp: st)
  have D: "thread_stat ?s u = 4" if "u \<in> set (?L Defunct)" for u
    using that stats_okD(3) [OF v] ts unfolding other by (auto simp: st)
  have "rt_current_thread ?s = Some u" if "u \<in> T" "thread_stat ?s u = 3" for u
  proof (rule ccontr)
    assume "rt_current_thread ?s \<noteq> Some u"
    then have "u \<noteq> t" by simp
    then have "thread_stat s u = 3" "\<not> (u = c \<and> thread_stat s c = 3)" using that(2) by (simp_all add: st split: if_splits)
    then show False using stats_okD(4) [OF v that(1)] c by simp
  qed
  moreover have "has_mask ?s u" if "u \<in> T" "thread_stat ?s u \<noteq> 0" "thread_stat ?s u \<noteq> 4" for u
  proof -
    have "thread_stat s u \<noteq> 0 \<and> thread_stat s u \<noteq> 4" using that(2,3) ts cs by (simp add: st split: if_splits)
    then show ?thesis using stats_okD(6) [OF v that(1)] by (simp add: has_mask_def)
  qed
  ultimately have "stats_ok ?s T ?L" using R S D tT unfolding stats_ok_def by (simp add: st)
  then show ?thesis using q by (simp add: sched_ok_def)
qed

text \<open>All that \<open>rt_schedule\<close> can do to a state that fits the invariant.\<close>

lemma rt_schedule_cases [consumes 2, case_names idle stay overflow switch]:
  assumes ok: "sched_ok s T Q L" and c: "rt_current_thread s = Some c"
  obtains (idle) "rt_scheduler_lock_nest s \<noteq> 0 \<or> (\<forall>p. L (Table p) = [])" and "rt_schedule s = Some s"
  | (stay) p t ts where "L (Table p) = t # ts" and "\<And>q. q < p \<Longrightarrow> L (Table q) = []" and "stays s c p" and "rt_schedule s = Some s"
  | (overflow) p t ts where "L (Table p) = t # ts" and "rt_scheduler_stack_check (threads s t) = None" and "rt_schedule s = None"
  | (switch) p t ts K G where "L (Table p) = t # ts" and "\<And>q. q < p \<Longrightarrow> L (Table q) = []" and "\<not> stays s c p" and "t \<noteq> c"
      and "rt_schedule s = Some (s\<lparr>k_links := K, threads := switched c t s, rt_thread_ready_priority_group := G, rt_current_thread := Some t,
        rt_current_priority := of_nat p\<rparr>)"
      and "sched_ok (s\<lparr>k_links := K, threads := switched c t s, rt_thread_ready_priority_group := G, rt_current_thread := Some t,
        rt_current_priority := of_nat p\<rparr>) T Q (\<lambda>h. remove1 t (requeue c s L h))"
proof (cases "rt_scheduler_lock_nest s = 0 \<and> rt_thread_ready_priority_group s \<noteq> 0")
  case False
  moreover from False have "rt_scheduler_lock_nest s \<noteq> 0 \<or> (\<forall>p. L (Table p) = [])" using group_zero [OF sched_okD(1) [OF ok]] by blast
  ultimately show thesis using idle by (auto simp: rt_schedule_def)
next
  case True
  then have ln: "rt_scheduler_lock_nest s = 0" and g: "rt_thread_ready_priority_group s \<noteq> 0" by simp_all
  obtain p t ts where p: "p < 32" "L (Table p) = t # ts" "\<And>q. q < p \<Longrightarrow> L (Table q) = []"
      "get_highest_priority_thread s = Some (t, of_nat p)"
    by (rule highest_first [OF sched_okD(1) [OF ok] g]) blast
  have tT: "t \<in> T" using lists_okD(3) [OF queues_okD(1) [OF sched_okD(1) [OF ok]], of t "Table p"] p by simp
  then have "thread_stat s t = 1" using stats_okD(1) [OF sched_okD(2) [OF ok] tT] queues_okD(2) [OF sched_okD(1) [OF ok], of t p] p by simp
  then have tc: "t \<noteq> c" using stats_okD(5) [OF sched_okD(2) [OF ok] c] by auto
  show thesis
  proof (cases "stays s c p")
    case True
    then show thesis using stay [OF p(2,3) True] schedule_stay [OF ok c p(4,1) True] by blast
  next
    case False
    obtain G K where sw: "rt_schedule s = do {
      rt_scheduler_stack_check (threads s t);
      Some (s\<lparr>k_links := K, threads := switched c t s, rt_thread_ready_priority_group := G, rt_current_thread := Some t,
        rt_current_priority := of_nat p\<rparr>) }"
      and q: "queues_ok (s\<lparr>k_links := K, threads := switched c t s, rt_thread_ready_priority_group := G, rt_current_thread := Some t,
        rt_current_priority := of_nat p\<rparr>) T Q (\<lambda>h. remove1 t (requeue c s L h))"
      by (rule schedule_switch [OF ok c ln p(4,1,2) False])
    show thesis
    proof (cases "rt_scheduler_stack_check (threads s t)")
      case None
      then show thesis using overflow [OF p(2)] sw by simp
    next
      case (Some x)
      have "sched_ok (s\<lparr>k_links := K, threads := switched c t s, rt_thread_ready_priority_group := G, rt_current_thread := Some t,
        rt_current_priority := of_nat p\<rparr>) T Q (\<lambda>h. remove1 t (requeue c s L h))"
        using switch_ok [OF ok c, of t p, OF _ q] p(2) by simp
      then show thesis using switch [OF p(2,3) False tc] sw Some by simp
    qed
  qed
qed

lemma rt_schedule_lists:
  assumes ok: "sched_ok s T Q L" and "rt_schedule s = Some s'"
  shows "\<exists>L'. sched_ok s' T Q L' \<and> (\<forall>q. L' (Suspended q) = L (Suspended q))"
proof (cases "rt_current_thread s")
  case None
  then have "s' = s" using assms(2) by (auto simp: rt_schedule_def bind_eq_Some_conv split: if_splits)
  then show ?thesis using ok by blast
next
  case (Some c)
  with ok show ?thesis
  proof (cases rule: rt_schedule_cases)
    case (switch p t ts K G)
    have "t \<notin> set (L (Suspended q))" for q
      using lists_okD(4) [OF queues_okD(1) [OF sched_okD(1) [OF ok]], of t "Table p" "Suspended q"] switch(1) by auto
    then have "remove1 t (requeue c s L (Suspended q)) = L (Suspended q)" for q by (simp add: requeue_def remove1_idem)
    then show ?thesis using switch(5,6) assms(2) by auto
  qed (use ok assms(2) in auto)
qed

lemma rt_schedule_ok:
  assumes "sched_ok s T Q L" and "rt_schedule s = Some s'"
  shows "\<exists>L'. sched_ok s' T Q L' \<and> (\<forall>q. set (L' (Suspended q)) \<subseteq> set (L (Suspended q)))"
  using rt_schedule_lists [OF assms] by auto

text \<open>A scheduling decision changes nothing of the threads but whether those that can run are running or ready.\<close>

definition can_run :: "ksys \<Rightarrow> nat \<Rightarrow> bool" where
  "can_run s t \<longleftrightarrow> thread_stat s t = RT_THREAD_READY \<or> thread_stat s t = RT_THREAD_RUNNING"

definition only_stat :: "ksys \<Rightarrow> ksys \<Rightarrow> bool" where
  "only_stat s s' \<longleftrightarrow> (\<forall>u. threads s' u = (threads s u)\<lparr>stat := stat (threads s' u)\<rparr> \<and> (can_run s' u \<longleftrightarrow> can_run s u) \<and>
     (\<not> can_run s u \<longrightarrow> thread_stat s' u = thread_stat s u))"

lemma only_stat_refl [simp]: "only_stat s s"
  by (simp add: only_stat_def)

lemma only_statD:
  assumes "only_stat s s'"
  shows "prio s' u = prio s u" "has_mask s' u = has_mask s u" "th_error (threads s' u) = th_error (threads s u)"
    "th_type (threads s' u) = th_type (threads s u)" "rt_scheduler_stack_check (threads s' u) = rt_scheduler_stack_check (threads s u)"
    "can_run s' u = can_run s u" "\<not> can_run s u \<Longrightarrow> thread_stat s' u = thread_stat s u"
    "cleanup (threads s' u) = cleanup (threads s u)" "init_priority (threads s' u) = init_priority (threads s u)"
proof -
  have e: "threads s' u = (threads s u)\<lparr>stat := stat (threads s' u)\<rparr>" using assms unfolding only_stat_def by blast
  show "prio s' u = prio s u" "th_error (threads s' u) = th_error (threads s u)" "th_type (threads s' u) = th_type (threads s u)"
    "cleanup (threads s' u) = cleanup (threads s u)" "init_priority (threads s' u) = init_priority (threads s u)"
    by (subst e; simp)+
  show "has_mask s' u = has_mask s u" unfolding has_mask_def by (subst (1 2) e) simp
  show "rt_scheduler_stack_check (threads s' u) = rt_scheduler_stack_check (threads s u)"
    by (subst e) (simp add: rt_scheduler_stack_check_def)
qed (use assms in \<open>simp_all add: only_stat_def\<close>)

lemma rt_schedule_only_stat:
  assumes ok: "sched_ok s T Q L" and "rt_schedule s = Some s'"
  shows "only_stat s s'"
proof (cases "rt_current_thread s")
  case None
  then have "s' = s" using assms(2) by (auto simp: rt_schedule_def bind_eq_Some_conv split: if_splits)
  then show ?thesis by simp
next
  case (Some c)
  from ok Some show ?thesis
  proof (cases rule: rt_schedule_cases)
    case (switch p t ts K G)
    have tT: "t \<in> T" using lists_okD(3) [OF queues_okD(1) [OF sched_okD(1) [OF ok]], of t "Table p"] switch(1) by simp
    have "thread_stat s t = 1"
      using stats_okD(1) [OF sched_okD(2) [OF ok] tT] queues_okD(2) [OF sched_okD(1) [OF ok], of t p] switch(1) by simp
    moreover have "threads s' = switched c t s" using switch(5) assms(2) by simp
    moreover have "thread_stat s' u = stat (threads s' u) AND 7" for u by (simp add: thread_stat_def)
    moreover have "switched c t s u = (threads s u)\<lparr>stat := stat (switched c t s u)\<rparr>" for u
      by (simp add: switched_def leave_def)
    ultimately show ?thesis
      using switch(4) unfolding only_stat_def can_run_def by (simp add: stat_switched)
  qed (use assms(2) in auto)
qed

subsection \<open>Changes of one thread\<close>

lemma stats_ok_change:
  assumes v: "stats_ok s T L" and "rt_current_thread s' = rt_current_thread s"
    and o: "\<And>u. u \<noteq> t \<Longrightarrow> thread_stat s' u = thread_stat s u" "\<And>u. u \<noteq> t \<Longrightarrow> prio s' u = prio s u" "\<And>u. u \<noteq> t \<Longrightarrow> has_mask s' u = has_mask s u"
    and l: "\<And>h u. u \<noteq> t \<Longrightarrow> u \<in> set (L' h) \<longleftrightarrow> u \<in> set (L h)"
    and t: "thread_stat s' t = 1 \<longleftrightarrow> t \<in> set (L' (Table (prio s' t)))" "\<And>q. t \<in> set (L' (Suspended q)) \<Longrightarrow> thread_stat s' t = 2"
      "t \<in> set (L' Defunct) \<Longrightarrow> thread_stat s' t = 4" "thread_stat s' t = 3 \<Longrightarrow> rt_current_thread s = Some t"
      "rt_current_thread s = Some t \<Longrightarrow> thread_stat s' t \<noteq> 1 \<and> thread_stat s' t \<noteq> 0" "thread_stat s' t \<noteq> 0 \<Longrightarrow> thread_stat s' t \<noteq> 4 \<Longrightarrow> has_mask s' t"
  shows "stats_ok s' T L'"
  unfolding stats_ok_def
proof (intro conjI ballI allI impI)
  note d = stats_okD [OF v]
  fix u
  show "thread_stat s' u = 1 \<longleftrightarrow> u \<in> set (L' (Table (prio s' u)))" if "u \<in> T" using d(1) that o l t(1) by (cases "u = t") simp_all
  show "thread_stat s' u = 2" if "u \<in> set (L' (Suspended q))" for q using d(2) that o l t(2) by (cases "u = t") simp_all
  show "thread_stat s' u = 4" if "u \<in> set (L' Defunct)" using d(3) that o l t(3) by (cases "u = t") simp_all
  show "rt_current_thread s' = Some u" if "u \<in> T" "thread_stat s' u = 3" using d(4) that o t(4) assms(2) by (cases "u = t") simp_all
  show "has_mask s' u" if "u \<in> T" "thread_stat s' u \<noteq> 0" "thread_stat s' u \<noteq> 4" using d(6) that o t(6) by (cases "u = t") simp_all
  assume c: "rt_current_thread s' = Some u"
  then show "u \<in> T" using d(5) assms(2) by simp
  have c': "rt_current_thread s = Some u" using c assms(2) by simp
  show "thread_stat s' u \<noteq> 1" using d(5) [OF c'] o(1) t(5) c' by (cases "u = t") simp_all
  show "thread_stat s' u \<noteq> 0" using d(5) [OF c'] o(1) t(5) c' by (cases "u = t") simp_all
qed

text \<open>Threads changed in fields that the scheduler does not look at.\<close>

lemma sched_ok_cong:
  assumes "sched_ok s T Q L" and "k_links s' = k_links s" and "rt_thread_ready_priority_group s' = rt_thread_ready_priority_group s"
    and "rt_current_thread s' = rt_current_thread s"
    and "\<And>u. thread_stat s' u = thread_stat s u" "\<And>u. prio s' u = prio s u" "\<And>u. has_mask s' u = has_mask s u"
  shows "sched_ok s' T Q L"
proof -
  have "queues_ok s' T Q L" by (rule queues_ok_cong [OF sched_okD(1) [OF assms(1)] assms(2,3)]) (rule assms(6))
  moreover have "stats_ok s' T L" using sched_okD(2) [OF assms(1)] unfolding stats_ok_def assms(4-7) .
  ultimately show ?thesis by (simp add: sched_ok_def)
qed

text \<open>A suspended thread becomes ready, or runs on if it is the current one.\<close>

definition woken :: "nat \<Rightarrow> ksys \<Rightarrow> (khead \<Rightarrow> nat list) \<Rightarrow> khead \<Rightarrow> nat list" where
  "woken t s L = (let L' = (\<lambda>h. remove1 t (L h)) in
     if rt_current_thread s = Some t then L' else L'(Table (prio s t) := L' (Table (prio s t)) @ [t]))"

lemma woken_subset: "set (woken t s L (Suspended q)) \<subseteq> set (L (Suspended q))"
  using set_remove1_subset [of t "L (Suspended q)"] by (simp add: woken_def Let_def)

lemma wake_up:
  assumes ok: "sched_ok s T Q L" and t: "t \<in> T" "thread_stat s t = 2"
  obtains K G where "rt_schedule_insert_thread t (s\<lparr>k_links := rt_list_remove (Tlist t) (k_links s)\<rparr>) =
      Some ((set_stat (if rt_current_thread s = Some t then 3 else 1) t s)\<lparr>k_links := K, rt_thread_ready_priority_group := G\<rparr>)"
    and "sched_ok ((set_stat (if rt_current_thread s = Some t then 3 else 1) t s)\<lparr>k_links := K, rt_thread_ready_priority_group := G\<rparr>)
      T Q (woken t s L)"
proof -
  let ?s1 = "s\<lparr>k_links := rt_list_remove (Tlist t) (k_links s)\<rparr>" and ?L1 = "\<lambda>h. remove1 t (L h)"
  let ?x = "if rt_current_thread s = Some t then 3 else 1 :: u8"
  note q = sched_okD(1) [OF ok] and v = sched_okD(2) [OF ok]
  have m: "has_mask s t" using stats_okD(6) [OF v t(1)] t(2) by simp
  have tab: "?L1 (Table p) = L (Table p)" for p using stat_notin(1) [OF ok t(1)] t(2) by (simp add: remove1_idem)
  have q1: "queues_ok ?s1 T Q ?L1"
    using lists_remove [OF queues_okD(1) [OF q] t(1)] q unfolding queues_ok_def tab by simp
  have n: "t \<notin> set (?L1 h)" for h using lists_ok_distinct [OF queues_okD(1) [OF q], of h] by simp
  obtain K G where
    i: "rt_schedule_insert_thread t ?s1 = Some ((set_stat ?x t s)\<lparr>k_links := K, rt_thread_ready_priority_group := G\<rparr>)"
    and q2: "queues_ok ((set_stat ?x t s)\<lparr>k_links := K, rt_thread_ready_priority_group := G\<rparr>) T Q (woken t s L)"
  proof (cases "rt_current_thread s = Some t")
    case True
    have "rt_schedule_insert_thread t ?s1 = Some ((set_stat 3 t s)\<lparr>k_links := k_links ?s1,
        rt_thread_ready_priority_group := rt_thread_ready_priority_group s\<rparr>)"
      using True by (cases s) (simp add: rt_schedule_insert_thread_def set_stat_def upd_thread_def)
    moreover have "queues_ok ((set_stat 3 t s)\<lparr>k_links := k_links ?s1, rt_thread_ready_priority_group := rt_thread_ready_priority_group s\<rparr>)
        T Q ?L1"
      by (rule queues_ok_cong [OF q1]) simp_all
    ultimately show thesis using that True by (simp add: woken_def)
  next
    case False
    have e: "(set_stat 1 t ?s1)\<lparr>k_links := K, rt_thread_ready_priority_group := G\<rparr> =
        (set_stat 1 t s)\<lparr>k_links := K, rt_thread_ready_priority_group := G\<rparr>" for K G
      by (cases s) (simp add: set_stat_def upd_thread_def)
    show thesis
      by (rule insert_queues [OF q1 t(1) n]) (use m False that e in \<open>simp_all add: woken_def Let_def\<close>)
  qed
  have "stats_ok ((set_stat ?x t s)\<lparr>k_links := K, rt_thread_ready_priority_group := G\<rparr>) T (woken t s L)"
    by (rule stats_ok_change [OF v, where t = t]; cases "rt_current_thread s = Some t") (use n m t in \<open>simp_all add: woken_def Let_def\<close>)
  then show thesis using that i q2 by (simp add: sched_ok_def)
qed

text \<open>A thread is taken out of the lists and gets a state in which it is in none, or in the list of closed threads.\<close>

lemma take_out:
  assumes ok: "sched_ok s T Q L" and t: "t \<in> T" "thread_stat s t \<noteq> 0" "thread_stat s t \<noteq> 4"
  obtains K G where "rt_schedule_remove_thread t s = Some (s\<lparr>k_links := K, rt_thread_ready_priority_group := G\<rparr>)"
    and "\<forall>f. (\<forall>r. current_priority (f r) = current_priority r \<and> number_mask (f r) = number_mask r \<and> stat (f r) AND 7 \<in> {2, 4}) \<longrightarrow>
      sched_ok (upd_thread t f (s\<lparr>k_links := K, rt_thread_ready_priority_group := G\<rparr>)) T Q (\<lambda>h. remove1 t (L h))"
proof -
  note q = sched_okD(1) [OF ok] and v = sched_okD(2) [OF ok]
  have m: "has_mask s t" using stats_okD(6) [OF v t] .
  obtain K G where r: "rt_schedule_remove_thread t s = Some (s\<lparr>k_links := K, rt_thread_ready_priority_group := G\<rparr>)"
    and q1: "queues_ok (s\<lparr>k_links := K, rt_thread_ready_priority_group := G\<rparr>) T Q (\<lambda>h. remove1 t (L h))"
    using remove_queues [OF q t(1) m] by blast
  show thesis
  proof (rule that [OF r], intro allI impI)
    fix f :: "rt_thread \<Rightarrow> rt_thread"
    assume f: "\<forall>r. current_priority (f r) = current_priority r \<and> number_mask (f r) = number_mask r \<and> stat (f r) AND 7 \<in> {2, 4}"
    let ?s = "upd_thread t f (s\<lparr>k_links := K, rt_thread_ready_priority_group := G\<rparr>)"
    have st: "thread_stat ?s t \<in> {2, 4}" "\<And>u. u \<noteq> t \<Longrightarrow> thread_stat ?s u = thread_stat s u" using f by (simp_all add: thread_stat_def)
    have n: "t \<notin> set (remove1 t (L h))" for h using lists_ok_distinct [OF queues_okD(1) [OF q], of h] by simp
    have p: "prio ?s u = prio s u" "has_mask ?s u = has_mask s u" for u using f by (simp_all add: has_mask_def)
    have "queues_ok ?s T Q (\<lambda>h. remove1 t (L h))" by (rule queues_ok_cong [OF q1]) (use f in simp_all)
    moreover have "stats_ok ?s T (\<lambda>h. remove1 t (L h))"
      by (rule stats_ok_change [OF v, where t = t]) (use st n p m in auto)
    ultimately show "sched_ok ?s T Q (\<lambda>h. remove1 t (L h))" by (simp add: sched_ok_def)
  qed
qed

lemma push_defunct:
  assumes ok: "sched_ok s T Q L" and t: "t \<in> T" "thread_stat s t = 4" "\<And>h. t \<notin> set (L h)"
  shows "sched_ok (s\<lparr>k_links := rt_list_insert_after (Head Defunct) (Tlist t) (k_links s)\<rparr>) T Q (L(Defunct := t # L Defunct))"
proof -
  note q = sched_okD(1) [OF ok] and v = sched_okD(2) [OF ok]
  have "lists_ok (rt_list_insert_after (Head Defunct) (Tlist t) (k_links s)) (heads Q) T (L(Defunct := t # L Defunct))"
    by (rule lists_push [OF queues_okD(1) [OF q]]) (use t in simp_all)
  then have "queues_ok (s\<lparr>k_links := rt_list_insert_after (Head Defunct) (Tlist t) (k_links s)\<rparr>) T Q (L(Defunct := t # L Defunct))"
    using q by (simp add: queues_ok_def)
  moreover have "stats_ok (s\<lparr>k_links := rt_list_insert_after (Head Defunct) (Tlist t) (k_links s)\<rparr>) T (L(Defunct := t # L Defunct))"
    by (rule stats_ok_change [OF v, where t = t])
      (use t in auto)
  ultimately show ?thesis by (simp add: sched_ok_def)
qed

text \<open>A new priority for a thread that is not ready, and for one that is.\<close>

lemma prio_queues:
  assumes "queues_ok s T Q L" and "\<And>p. t \<notin> set (L (Table p))" and "priority < 32"
  shows "queues_ok (upd_thread t (\<lambda>r. r\<lparr>current_priority := priority, number_mask := M\<rparr>) s) T Q L"
proof -
  have "unat priority < 32" using assms(3) by (simp add: word_less_nat_alt)
  moreover have "u \<noteq> t" if "u \<in> set (L (Table p))" for u p using assms(2) that by blast
  ultimately show ?thesis using assms(1) unfolding queues_ok_def by simp
qed

lemma change_priority_ok:
  assumes ok: "sched_ok s T Q L" and t: "t \<in> T" and p: "priority < 32"
  shows "\<exists>s' L'. change_priority t priority s = Some s' \<and> sched_ok s' T Q L' \<and> only_stat (upd_thread t
      (\<lambda>r. r\<lparr>current_priority := priority, number_mask := push_bit (unat priority) 1\<rparr>) s) s' \<and>
    rt_current_thread s' = rt_current_thread s \<and> rt_scheduler_lock_nest s' = rt_scheduler_lock_nest s \<and>
    (\<forall>q. L' (Suspended q) = L (Suspended q))"
proof -
  note q = sched_okD(1) [OF ok] and v = sched_okD(2) [OF ok]
  let ?f = "\<lambda>r. r\<lparr>current_priority := priority, number_mask := push_bit (unat priority) 1\<rparr>"
  have st: "thread_stat (upd_thread t ?f x) u = thread_stat x u" for x u by (simp add: thread_stat_def)
  have hm: "has_mask (upd_thread t ?f x) u = (u = t \<or> has_mask x u)" for x u by (simp add: has_mask_def)
  show ?thesis
  proof (cases "thread_stat s t = 1")
    case False
    then have n: "t \<notin> set (L (Table r))" for r using stat_notin(1) [OF ok t] by blast
    have "stats_ok (upd_thread t ?f s) T L"
    proof (rule stats_ok_change [OF v, where t = t])
      show "thread_stat (upd_thread t ?f s) t = 1 \<longleftrightarrow> t \<in> set (L (Table (prio (upd_thread t ?f s) t)))" using False n unfolding st by simp
      show "t \<in> set (L (Suspended r)) \<Longrightarrow> thread_stat (upd_thread t ?f s) t = 2" for r unfolding st by (rule stats_okD(2) [OF v])
      show "t \<in> set (L Defunct) \<Longrightarrow> thread_stat (upd_thread t ?f s) t = 4" unfolding st by (rule stats_okD(3) [OF v])
      show "thread_stat (upd_thread t ?f s) t = 3 \<Longrightarrow> rt_current_thread s = Some t" unfolding st by (rule stats_okD(4) [OF v t])
      show "rt_current_thread s = Some t \<Longrightarrow> thread_stat (upd_thread t ?f s) t \<noteq> 1 \<and> thread_stat (upd_thread t ?f s) t \<noteq> 0"
        unfolding st using stats_okD(5) [OF v] by blast
    qed (simp_all only: st hm simp_thms, simp_all)
    then have "sched_ok (upd_thread t ?f s) T Q L" using prio_queues [OF q n p] by (simp add: sched_ok_def)
    then show ?thesis using False p by (auto simp: change_priority_def set_priority_def rt_assert_def)
  next
    case True
    let ?L1 = "\<lambda>h. remove1 t (L h)"
    have m: "has_mask s t" using stats_okD(6) [OF v t] True by simp
    have n: "t \<notin> set (?L1 h)" for h using lists_ok_distinct [OF queues_okD(1) [OF q], of h] by simp
    have nc: "rt_current_thread s \<noteq> Some t" using stats_okD(5) [OF v] True by blast
    obtain K G where r: "rt_schedule_remove_thread t s = Some (s\<lparr>k_links := K, rt_thread_ready_priority_group := G\<rparr>)"
      and q1: "queues_ok (s\<lparr>k_links := K, rt_thread_ready_priority_group := G\<rparr>) T Q ?L1"
      using remove_queues [OF q t m] by blast
    define s2 where s2: "s2 = upd_thread t ?f (s\<lparr>k_links := K, rt_thread_ready_priority_group := G\<rparr>)"
    have q2: "queues_ok s2 T Q ?L1" unfolding s2 by (rule prio_queues [OF q1 n p])
    let ?L2 = "?L1(Table (unat priority) := ?L1 (Table (unat priority)) @ [t])"
    have ps: "prio s2 t = unat priority" "\<And>u. u \<noteq> t \<Longrightarrow> prio s2 u = prio s u" by (simp_all add: s2)
    have ts: "thread_stat s2 u = thread_stat s u" "has_mask s2 u = (u = t \<or> has_mask s u)" for u
      unfolding s2 st hm by simp_all
    have c2: "rt_current_thread s2 = rt_current_thread s" "rt_scheduler_lock_nest s2 = rt_scheduler_lock_nest s" by (simp_all add: s2)
    obtain K2 G2 where i: "rt_schedule_insert_thread t s2 = Some ((set_stat 1 t s2)\<lparr>k_links := K2, rt_thread_ready_priority_group := G2\<rparr>)"
      and q3: "queues_ok ((set_stat 1 t s2)\<lparr>k_links := K2, rt_thread_ready_priority_group := G2\<rparr>) T Q ?L2"
    proof (rule insert_queues [OF q2 t n])
      show "has_mask s2 t" "rt_current_thread s2 \<noteq> Some t" using ts nc c2 by simp_all
    qed (simp only: ps)
    have e: "set_stat 1 t s2 = s2" using ts True by (intro set_stat_idem) simp
    have "stats_ok (s2\<lparr>k_links := K2, rt_thread_ready_priority_group := G2\<rparr>) T ?L2"
      by (rule stats_ok_change [OF v, where t = t]) (use n nc ts ps True c2 in auto)
    then have "sched_ok (s2\<lparr>k_links := K2, rt_thread_ready_priority_group := G2\<rparr>) T Q ?L2" using q3 e by (simp add: sched_ok_def)
    moreover have "change_priority t priority s = Some (s2\<lparr>k_links := K2, rt_thread_ready_priority_group := G2\<rparr>)"
      using True r i p e by (simp add: change_priority_def set_priority_def rt_assert_def s2 [symmetric] del: push_bit_of_1)
    moreover have "?L2 (Suspended r) = L (Suspended r)" for r
      using stat_notin(2) [OF ok t] True by (simp add: remove1_idem)
    moreover have "only_stat (upd_thread t ?f s) (s2\<lparr>k_links := K2, rt_thread_ready_priority_group := G2\<rparr>)"
      unfolding only_stat_def can_run_def st by (simp add: ts) (simp add: s2)
    ultimately show ?thesis
      using c2 by (intro exI [of _ "s2\<lparr>k_links := K2, rt_thread_ready_priority_group := G2\<rparr>"] exI [of _ ?L2]) simp
  qed
qed

subsection \<open>Timers of threads\<close>

lemma timers_in_cong:
  assumes "timers_in s S" and "t_links s' = t_links s" and "t_timers s' = t_timers s" and "rt_tick s' = rt_tick s" and "S \<subseteq> S'"
  shows "timers_in s' S'"
proof -
  have "left s' = left s" by (simp add: left_def assms(3,4) fun_eq_iff)
  then have "ready s' ts = ready s ts" for ts by (simp add: ready_def timers_ok_def periods_ok_def assms(2,3))
  then show ?thesis using assms(1,3,5) unfolding timers_in_def by (metis order_trans)
qed

lemma timers_in_stop:
  assumes "timers_in s S"
  shows "timers_in (snd (rt_timer_stop t s)) (S - {t})"
proof (cases "active (t_timers s t)")
  case True
  then show ?thesis
    by (intro timers_in_remove [OF assms, of _ t]) (simp_all add: rt_timer_stop_def active_def upd_timer_def timer_remove_def)
next
  case False
  then show ?thesis using assms unfolding timers_in_def rt_timer_stop_def active_def by auto
qed

lemma timers_in_detach: "timers_in s S \<Longrightarrow> timers_in (snd (rt_timer_detach t s)) (S - {t})"
  by (intro timers_in_remove [of s S _ t]) (simp_all add: rt_timer_detach_def timer_remove_def)

lemma timers_in_set_time:
  assumes "timers_in s S" and "t_flag (t_timers s t) AND 2 = 0"
  shows "timers_in (snd (snd (rt_timer_control t RT_TIMER_CTRL_SET_TIME n s))) S"
  by (rule timers_in_upd [OF assms(1), of _ t])
    (use assms(2) in \<open>simp_all add: rt_timer_control_def upd_timer_def repeating_def active_def\<close>)

lemma timer_start_bound: "rt_timer_start t s = Some (rc, s') \<Longrightarrow> rc = 0 \<and> init_tick (t_timers s t) < RT_TICK_MAX_HALF"
  by (auto simp: rt_timer_start_def Let_def bind_eq_Some_conv rt_assert_def upd_timer_def timer_remove_def split: if_splits)

lemma timers_in_start:
  assumes "timers_in s S" and "rt_timer_start t s = Some (rc, s')" and "t_flag (t_timers s t) AND 2 = 0"
  shows "timers_in s' (insert t S)" and "t_env s' = t_env s" and "\<And>u. t_flag (t_timers s' u) AND 2 = t_flag (t_timers s u) AND 2"
    and "\<exists>ts. ready s' ts \<and> set ts \<subseteq> insert t S \<and> (\<forall>u \<in> set ts. active (t_timers s' u)) \<and> t \<in> set ts \<and> left s' t = uint (init_tick (t_timers s t))"
    and "rt_tick s' = rt_tick s"
proof -
  obtain ts where ts: "ready s ts" "set ts \<subseteq> S" "\<forall>t \<in> set ts. active (t_timers s t)" using assms(1) by (auto simp: timers_in_def)
  have n: "rt_timer_start t s = Some (0, s')" "init_tick (t_timers s t) < RT_TICK_MAX_HALF" using timer_start_bound [OF assms(2)] assms(2) by simp_all
  obtain ts1 where r: "ready s' ts1" "t_env s' = t_env s" "t_flag (t_timers s' t) AND 1 \<noteq> 0" "set ts1 = insert t (set ts)"
      "\<And>x. x \<noteq> t \<Longrightarrow> t_timers s' x = t_timers s x" "t_flag (t_timers s' t) AND 2 = t_flag (t_timers s t) AND 2"
      "left s' t = uint (init_tick (t_timers s t))" "rt_tick s' = rt_tick s"
    by (rule ready_start [OF ts(1) n(1) _ n(2)]) (use assms(3) in blast)+
  then have "\<forall>u \<in> set ts1. active (t_timers s' u)" using ts(3) by (auto simp: active_def) metis
  then show "\<exists>ts. ready s' ts \<and> set ts \<subseteq> insert t S \<and> (\<forall>u \<in> set ts. active (t_timers s' u)) \<and> t \<in> set ts \<and>
      left s' t = uint (init_tick (t_timers s t))"
    using r(1,4,7) ts(2) by (intro exI [of _ ts1]) auto
  then show "timers_in s' (insert t S)" unfolding timers_in_def by blast
  show "t_env s' = t_env s" "rt_tick s' = rt_tick s" by (rule r)+
  show "t_flag (t_timers s' u) AND 2 = t_flag (t_timers s u) AND 2" for u using r(5,6) by (cases "u = t") simp_all
qed

lemma timers_in_init:
  assumes "timers_in s S" and "t \<notin> S"
  shows "timers_in (timer_init t time flag s) S"
proof -
  obtain ts where ts: "ready s ts" "set ts \<subseteq> S" "\<forall>t \<in> set ts. active (t_timers s t)" using assms(1) by (auto simp: timers_in_def)
  let ?s = "timer_init t time flag s"
  have t: "t \<notin> set ts" using ts(2) assms(2) by blast
  have "rt_list_init (Row t) (t_links s) = t_links s"
    using ts(1) t by (intro ext rt_list_node.equality) (auto simp: ready_def timers_ok_def dlist_def rt_list_init_def set_next_def set_prev_def)
  then have lk: "t_links ?s = t_links s" by (simp add: timer_init_def upd_timer_def Let_def)
  have tm: "t_timers ?s x = t_timers s x" "left ?s x = left s x" if "x \<in> set ts" for x
    using that t by (auto simp: timer_init_def upd_timer_def Let_def left_def)
  have "timers_ok ?s ts" by (rule timers_ok_cong [of s]) (use ts(1) lk tm in \<open>simp_all add: ready_def\<close>)
  then show ?thesis using ts tm by (auto simp: timers_in_def ready_def periods_ok_def intro!: exI [of _ ts])
qed

lemma timer_op_simps [simp]:
  "t_env (snd (rt_timer_stop t s)) = t_env s" "t_env (snd (rt_timer_detach t s)) = t_env s"
  "t_env (snd (snd (rt_timer_control t c n s))) = t_env s" "t_env (timer_init t n f s) = t_env s"
  "rt_tick (snd (rt_timer_stop t s)) = rt_tick s"
  "t_flag (t_timers (snd (rt_timer_stop t s)) u) AND 2 = t_flag (t_timers s u) AND 2"
  "t_timers (snd (rt_timer_detach t s)) = t_timers s"
  "t_flag (t_timers (snd (snd (rt_timer_control t RT_TIMER_CTRL_SET_TIME n s))) u) = t_flag (t_timers s u)"
proof -
  have "(f AND NOT 1) AND 2 = f AND 2" for f :: u8 by (rule bit_word_eqI) (auto simp: bit_simps)
  then show "t_flag (t_timers (snd (rt_timer_stop t s)) u) AND 2 = t_flag (t_timers s u) AND 2"
    by (simp add: rt_timer_stop_def upd_timer_def)
qed (simp_all add: rt_timer_stop_def rt_timer_detach_def rt_timer_control_def timer_init_def upd_timer_def timer_remove_def Let_def
       split: timer_ctrl.splits)

subsection \<open>Operations on threads keep the kernel consistent\<close>

text \<open>
  The kernel: the scheduler fits its invariant, and the timers that run are those of threads that are suspended; all
  timers of threads are one-shot timers.
\<close>

definition waiting :: "ksys \<Rightarrow> nat set \<Rightarrow> nat set" where
  "waiting e T = {t \<in> T. thread_stat e t = RT_THREAD_SUSPEND \<and> rt_object_get_type (threads e t) = RT_Object_Class_Thread}"

definition kernel_at :: "kernel \<Rightarrow> nat set \<Rightarrow> nat set \<Rightarrow> (khead \<Rightarrow> nat list) \<Rightarrow> bool" where
  "kernel_at s T Q L \<longleftrightarrow> sched_ok (t_env s) T Q L \<and> timers_in s (waiting (t_env s) T) \<and> (\<forall>t \<in> T. t_flag (t_timers s t) AND 2 = 0)"

text \<open>\<open>B\<close> bounds the threads in the lists of waiting threads: operations on threads put no thread into one.\<close>

definition kernel_ok :: "kernel \<Rightarrow> nat set \<Rightarrow> nat set \<Rightarrow> (nat \<Rightarrow> nat set) \<Rightarrow> bool" where
  "kernel_ok s T Q B \<longleftrightarrow> (\<exists>L. kernel_at s T Q L \<and> (\<forall>q. set (L (Suspended q)) \<subseteq> B q))"

lemma kernel_okI: "kernel_at s T Q L \<Longrightarrow> (\<And>q. set (L (Suspended q)) \<subseteq> B q) \<Longrightarrow> kernel_ok s T Q B"
  by (auto simp: kernel_ok_def)

lemma kernel_ok_remove1: "kernel_at s T Q (\<lambda>h. remove1 t (L h)) \<Longrightarrow> (\<And>q. set (L (Suspended q)) \<subseteq> B q) \<Longrightarrow> kernel_ok s T Q B"
  by (erule kernel_okI) (meson order_trans set_remove1_subset)

lemma kernel_atD:
  assumes "kernel_at s T Q L"
  shows "sched_ok (t_env s) T Q L" and "timers_in s (waiting (t_env s) T)" and "t \<in> T \<Longrightarrow> t_flag (t_timers s t) AND 2 = 0"
  using assms by (auto simp: kernel_at_def)

lemma kernel_atI:
  assumes "sched_ok (t_env s) T Q L" and "timers_in s S" and "S \<subseteq> waiting (t_env s) T" and "\<And>t. t \<in> T \<Longrightarrow> t_flag (t_timers s t) AND 2 = 0"
  shows "kernel_at s T Q L"
  using assms timers_in_cong [OF assms(2), of s "waiting (t_env s) T"] by (auto simp: kernel_at_def)

lemma only_stat_suspended: "only_stat e e' \<Longrightarrow> thread_stat e' t = 2 \<longleftrightarrow> thread_stat e t = 2"
  using only_statD(6,7) [of e e' t] by (cases "can_run e t") (auto simp: can_run_def)

lemma only_stat_waiting: "only_stat e e' \<Longrightarrow> waiting e' T = waiting e T"
  by (simp add: waiting_def rt_object_get_type_def only_statD(4) only_stat_suspended)

text \<open>Changes to the scheduler part only.\<close>

lemma kernel_env:
  assumes "kernel_at s T Q L" and "sched_ok e T Q L'" and "waiting (t_env s) T \<subseteq> waiting e T"
  shows "kernel_at (s\<lparr>t_env := e\<rparr>) T Q L'"
  by (rule kernel_atI [OF _ timers_in_cong [OF kernel_atD(2) [OF assms(1)], of _ "waiting (t_env s) T"]])
    (use assms kernel_atD(3) [OF assms(1)] in simp_all)

lemma on_k_Some: "on_k f s = Some s' \<longleftrightarrow> (\<exists>e. f (t_env s) = Some e \<and> s' = s\<lparr>t_env := e\<rparr>)"
  by (auto simp: on_k_def bind_eq_Some_conv)

lemma schedule_kernel:
  assumes "kernel_ok s T Q B" and "on_k rt_schedule s = Some s'"
  shows "kernel_ok s' T Q B"
proof -
  obtain L where L: "kernel_at s T Q L" and B: "\<And>q. set (L (Suspended q)) \<subseteq> B q" using assms(1) by (auto simp: kernel_ok_def)
  obtain e where e: "rt_schedule (t_env s) = Some e" "s' = s\<lparr>t_env := e\<rparr>" using assms(2) by (auto simp: on_k_Some)
  obtain L' where L': "sched_ok e T Q L'" "\<And>q. set (L' (Suspended q)) \<subseteq> set (L (Suspended q))"
    using rt_schedule_ok [OF kernel_atD(1) [OF L] e(1)] by blast
  have "kernel_at s' T Q L'"
    using kernel_env [OF L L'(1)] only_stat_waiting [OF rt_schedule_only_stat [OF kernel_atD(1) [OF L] e(1)]] unfolding e(2) by simp
  then show ?thesis by (rule kernel_okI) (use L'(2) B in blast)
qed

lemma waiting_upd: "waiting (upd_thread t f e) T - {t} = waiting e T - {t}"
  by (auto simp: waiting_def thread_stat_def)

lemma set_stat_upd: "set_stat x t e = upd_thread t (stat_update (\<lambda>f. x OR (f AND NOT 7))) e"
  by (simp add: set_stat_def)

text \<open>Suspending a thread that can run takes it out of its list; its timer does not run.\<close>

lemma suspend_kernel:
  assumes k: "kernel_at s T Q L" and t: "t \<in> T" "can_run (t_env s) t" and s: "rt_thread_suspend t s = Some (rc, s')"
  obtains K G where "rc = 0" and "is_thread t s"
    and "t_env s' = (set_stat 2 t (t_env s))\<lparr>k_links := K, rt_thread_ready_priority_group := G\<rparr>"
    and "sched_ok (t_env s') T Q (\<lambda>h. remove1 t (L h))" and "timers_in s' (waiting (t_env s) T - {t})"
    and "\<And>u. t_flag (t_timers s' u) AND 2 = t_flag (t_timers s u) AND 2" and "rt_tick s' = rt_tick s"
proof -
  have ns: "thread_stat (t_env s) t \<noteq> 0" "thread_stat (t_env s) t \<noteq> 4" using t(2) by (auto simp: can_run_def)
  obtain K G where r: "rt_schedule_remove_thread t (t_env s) = Some ((t_env s)\<lparr>k_links := K, rt_thread_ready_priority_group := G\<rparr>)"
    and f: "\<forall>f. (\<forall>r. current_priority (f r) = current_priority r \<and> number_mask (f r) = number_mask r \<and> stat (f r) AND 7 \<in> {2, 4}) \<longrightarrow>
      sched_ok (upd_thread t f ((t_env s)\<lparr>k_links := K, rt_thread_ready_priority_group := G\<rparr>)) T Q (\<lambda>h. remove1 t (L h))"
    by (rule take_out [OF kernel_atD(1) [OF k] t(1) ns])
  define e where e: "e = set_stat 2 t ((t_env s)\<lparr>k_links := K, rt_thread_ready_priority_group := G\<rparr>)"
  have g: "(2 OR (x AND NOT 7)) AND 7 = (2 :: u8)" for x :: u8
    using stat_bits [of 2 x] by simp
  have ok: "sched_ok e T Q (\<lambda>h. remove1 t (L h))" unfolding e set_stat_upd by (rule f [rule_format]) (use g in simp)
  have eq: "e = (set_stat 2 t (t_env s))\<lparr>k_links := K, rt_thread_ready_priority_group := G\<rparr>"
    unfolding e by (cases "t_env s") (simp add: set_stat_def upd_thread_def)
  have s': "s' = snd (rt_timer_stop t (s\<lparr>t_env := e\<rparr>))" "rc = 0" "is_thread t s"
    using s t(2) r by (auto simp: rt_thread_suspend_def can_run_def Let_def on_k_def upd_k_def e bind_eq_Some_conv rt_assert_def split: if_splits)
  have "timers_in (s\<lparr>t_env := e\<rparr>) (waiting (t_env s) T)" by (rule timers_in_cong [OF kernel_atD(2) [OF k]]) simp_all
  then have "timers_in s' (waiting (t_env s) T - {t})" unfolding s' by (rule timers_in_stop)
  then show thesis using that [of G K] s' ok eq by simp
qed

lemma suspend_total:
  assumes k: "kernel_at s T Q L" and c: "rt_current_thread (t_env s) = Some c" "thread_stat (t_env s) c = 3" and "is_thread c s"
  shows "\<exists>s'. rt_thread_suspend c s = Some (0, s')"
proof -
  have cT: "c \<in> T" using stats_okD(5) [OF sched_okD(2) [OF kernel_atD(1) [OF k]] c(1)] by simp
  have ns: "thread_stat (t_env s) c \<noteq> 0" "thread_stat (t_env s) c \<noteq> 4" using c(2) by simp_all
  obtain e where "rt_schedule_remove_thread c (t_env s) = Some e" by (rule take_out [OF kernel_atD(1) [OF k] cT ns])
  then show ?thesis using assms by (simp add: rt_thread_suspend_def Let_def on_k_def rt_assert_def)
qed

text \<open>Resuming a suspended thread.\<close>

lemma waiting_same:
  assumes "\<And>u. u \<noteq> t \<Longrightarrow> thread_stat e' u = thread_stat e u" and "\<And>u. th_type (threads e' u) = th_type (threads e u)"
  shows "waiting e T - {t} \<subseteq> waiting e' T"
  using assms by (auto simp: waiting_def rt_object_get_type_def)

lemma set_stat_type [simp]: "th_type (threads (set_stat x t e) u) = th_type (threads e u)" "th_error (threads (set_stat x t e) u) = th_error (threads e u)"
  by (simp_all add: set_stat_def)

lemma resume_kernel:
  assumes k: "kernel_at s T Q L" and t: "t \<in> T" "thread_stat (t_env s) t = 2" and s: "rt_thread_resume t s = Some (rc, s')"
  shows "kernel_at s' T Q (woken t (t_env s) L)" and "rc = 0"
    and "rt_current_thread (t_env s') = rt_current_thread (t_env s)" and "rt_scheduler_lock_nest (t_env s') = rt_scheduler_lock_nest (t_env s)"
    and "threads (t_env s') = threads (set_stat (if rt_current_thread (t_env s) = Some t then 3 else 1) t (t_env s))"
    and "rt_tick s' = rt_tick s"
proof -
  let ?x = "if rt_current_thread (t_env s) = Some t then 3 else 1 :: u8"
  obtain G K where i: "rt_schedule_insert_thread t ((t_env s)\<lparr>k_links := rt_list_remove (Tlist t) (k_links (t_env s))\<rparr>) =
      Some ((set_stat ?x t (t_env s))\<lparr>k_links := K, rt_thread_ready_priority_group := G\<rparr>)"
    and ok: "sched_ok ((set_stat ?x t (t_env s))\<lparr>k_links := K, rt_thread_ready_priority_group := G\<rparr>) T Q (woken t (t_env s) L)"
    by (rule wake_up [OF kernel_atD(1) [OF k] t])
  define e where e: "e = (set_stat ?x t (t_env s))\<lparr>k_links := K, rt_thread_ready_priority_group := G\<rparr>"
  define s1 where s1: "s1 = snd (rt_timer_stop t (s\<lparr>t_env := (t_env s)\<lparr>k_links := rt_list_remove (Tlist t) (k_links (t_env s))\<rparr>\<rparr>))"
  have s': "s' = s1\<lparr>t_env := e\<rparr>" "rc = 0"
    using s t(2) i by (auto simp: rt_thread_resume_def Let_def on_k_def upd_k_def e s1 bind_eq_Some_conv rt_assert_def split: if_splits)
  have "timers_in (s\<lparr>t_env := (t_env s)\<lparr>k_links := rt_list_remove (Tlist t) (k_links (t_env s))\<rparr>\<rparr>) (waiting (t_env s) T)"
    by (rule timers_in_cong [OF kernel_atD(2) [OF k]]) simp_all
  then have "timers_in s1 (waiting (t_env s) T - {t})" unfolding s1 by (rule timers_in_stop)
  then have ti: "timers_in s' (waiting (t_env s) T - {t})" by (rule timers_in_cong) (simp_all add: s')
  show "kernel_at s' T Q (woken t (t_env s) L)"
  proof (rule kernel_atI [OF _ ti])
    show "sched_ok (t_env s') T Q (woken t (t_env s) L)" using ok by (simp add: s' e)
    show "waiting (t_env s) T - {t} \<subseteq> waiting (t_env s') T" by (rule waiting_same) (simp_all add: s' e)
    show "t_flag (t_timers s' u) AND 2 = 0" if "u \<in> T" for u using kernel_atD(3) [OF k that] by (simp add: s' s1)
  qed
  show "rc = 0" "rt_current_thread (t_env s') = rt_current_thread (t_env s)"
    "rt_scheduler_lock_nest (t_env s') = rt_scheduler_lock_nest (t_env s)" "threads (t_env s') = threads (set_stat ?x t (t_env s))"
    by (simp_all add: s' e)
  show "rt_tick s' = rt_tick s" by (simp add: s' s1)
qed

lemma resume_total:
  assumes k: "kernel_at s T Q L" and t: "t \<in> T" "thread_stat (t_env s) t = 2" "is_thread t s"
  shows "\<exists>s'. rt_thread_resume t s = Some (0, s')"
proof -
  obtain e where "rt_schedule_insert_thread t ((t_env s)\<lparr>k_links := rt_list_remove (Tlist t) (k_links (t_env s))\<rparr>) = Some e"
    by (rule wake_up [OF kernel_atD(1) [OF k] t(1,2)])
  then show ?thesis using t by (simp add: rt_thread_resume_def Let_def upd_k_def on_k_def rt_assert_def)
qed

lemma resume_disorder: "thread_stat (t_env s) t \<noteq> 2 \<Longrightarrow> rt_thread_resume t s = Some (rc, s') \<Longrightarrow> rc = - 1 \<and> s' = s"
  by (auto simp: rt_thread_resume_def bind_eq_Some_conv)

lemma suspend_disorder: "\<not> can_run (t_env s) t \<Longrightarrow> rt_thread_suspend t s = Some (rc, s') \<Longrightarrow> rc = - 1 \<and> s' = s"
  by (auto simp: rt_thread_suspend_def can_run_def Let_def bind_eq_Some_conv)

lemma suspend_kernel_ok:
  assumes "kernel_ok s T Q B" and "t \<in> T" and "rt_thread_suspend t s = Some (rc, s')"
  shows "kernel_ok s' T Q B"
proof (cases "can_run (t_env s) t")
  case True
  obtain L where L: "kernel_at s T Q L" and B: "\<And>q. set (L (Suspended q)) \<subseteq> B q" using assms(1) by (auto simp: kernel_ok_def)
  obtain G K where e: "t_env s' = (set_stat 2 t (t_env s))\<lparr>k_links := K, rt_thread_ready_priority_group := G\<rparr>"
    and "sched_ok (t_env s') T Q (\<lambda>h. remove1 t (L h))" "timers_in s' (waiting (t_env s) T - {t})"
      "\<And>u. t_flag (t_timers s' u) AND 2 = t_flag (t_timers s u) AND 2"
    by (rule suspend_kernel [OF L assms(2) True assms(3)]) blast
  moreover have "waiting (t_env s) T - {t} \<subseteq> waiting (t_env s') T" by (rule waiting_same) (simp_all add: e)
  ultimately have "kernel_at s' T Q (\<lambda>h. remove1 t (L h))" using kernel_atD(3) [OF L] by (intro kernel_atI) simp_all
  then show ?thesis using B by (rule kernel_ok_remove1)
qed (use suspend_disorder [OF _ assms(3)] assms(1) in simp)

lemma resume_kernel_ok:
  assumes "kernel_ok s T Q B" and "t \<in> T" and "rt_thread_resume t s = Some (rc, s')"
  shows "kernel_ok s' T Q B"
proof (cases "thread_stat (t_env s) t = 2")
  case True
  obtain L where L: "kernel_at s T Q L" and B: "\<And>q. set (L (Suspended q)) \<subseteq> B q" using assms(1) by (auto simp: kernel_ok_def)
  show ?thesis using B woken_subset by (intro kernel_okI [OF resume_kernel(1) [OF L assms(2) True assms(3)]]) blast
qed (use resume_disorder [OF _ assms(3)] assms(1) in simp)

text \<open>A thread that has been suspended waits and is in no list; its timer can be started.\<close>

lemma suspend_waits:
  assumes k: "kernel_at s T Q L" and t: "t \<in> T" "can_run (t_env s) t" and s: "rt_thread_suspend t s = Some (rc, s')"
  shows "kernel_at s' T Q (\<lambda>h. remove1 t (L h))" and "t \<in> waiting (t_env s') T" and "\<And>h. t \<notin> set (remove1 t (L h))"
    and "\<exists>K G. t_env s' = (set_stat 2 t (t_env s))\<lparr>k_links := K, rt_thread_ready_priority_group := G\<rparr>" and "rt_tick s' = rt_tick s"
proof -
  obtain G K where e: "t_env s' = (set_stat 2 t (t_env s))\<lparr>k_links := K, rt_thread_ready_priority_group := G\<rparr>" and th: "is_thread t s"
    and ok: "sched_ok (t_env s') T Q (\<lambda>h. remove1 t (L h))" and ti: "timers_in s' (waiting (t_env s) T - {t})"
    and fl: "\<And>u. t_flag (t_timers s' u) AND 2 = t_flag (t_timers s u) AND 2" and tick: "rt_tick s' = rt_tick s"
    by (rule suspend_kernel [OF k t s]) blast
  have "waiting (t_env s) T - {t} \<subseteq> waiting (t_env s') T" by (rule waiting_same) (simp_all add: e)
  then show "kernel_at s' T Q (\<lambda>h. remove1 t (L h))" using ok ti fl kernel_atD(3) [OF k] by (intro kernel_atI) simp_all
  show "t \<in> waiting (t_env s') T" using t(1) th by (simp add: waiting_def e is_thread_def rt_object_get_type_def)
  show "t \<notin> set (remove1 t (L h))" for h
    using lists_ok_distinct [OF queues_okD(1) [OF sched_okD(1) [OF kernel_atD(1) [OF k]]], of h] by simp
  show "\<exists>K G. t_env s' = (set_stat 2 t (t_env s))\<lparr>k_links := K, rt_thread_ready_priority_group := G\<rparr>" "rt_tick s' = rt_tick s"
    using e tick by blast+
qed

lemma arm_kernel:
  assumes k: "kernel_at s T Q L" and t: "t \<in> waiting (t_env s) T"
    and s: "rt_timer_start t (snd (snd (rt_timer_control t RT_TIMER_CTRL_SET_TIME n s))) = Some (rc, s')"
  shows "kernel_at s' T Q L" and "t_env s' = t_env s" and "rt_tick s' = rt_tick s"
    and "\<exists>ts. ready s' ts \<and> set ts \<subseteq> waiting (t_env s') T \<and> (\<forall>u \<in> set ts. active (t_timers s' u)) \<and> t \<in> set ts \<and> left s' t = uint n"
proof -
  let ?s2 = "snd (snd (rt_timer_control t RT_TIMER_CTRL_SET_TIME n s))"
  have tT: "t \<in> T" using t by (simp add: waiting_def)
  have ti: "timers_in ?s2 (waiting (t_env s) T)" by (rule timers_in_set_time [OF kernel_atD(2) [OF k] kernel_atD(3) [OF k tT]])
  have f: "t_flag (t_timers ?s2 t) AND 2 = 0" using kernel_atD(3) [OF k tT] by simp
  note st = timers_in_start [OF ti s f]
  have i: "insert t (waiting (t_env s) T) = waiting (t_env s) T" using t by blast
  show e: "t_env s' = t_env s" using st(2) by simp
  show "kernel_at s' T Q L"
    by (rule kernel_atI [OF _ st(1)]) (use kernel_atD(1,3) [OF k] e i st(3) in simp_all)
  have "init_tick (t_timers ?s2 t) = n" by (simp add: rt_timer_control_def upd_timer_def)
  then show "\<exists>ts. ready s' ts \<and> set ts \<subseteq> waiting (t_env s') T \<and> (\<forall>u \<in> set ts. active (t_timers s' u)) \<and> t \<in> set ts \<and> left s' t = uint n"
    using st(4) unfolding e i by simp
  show "rt_tick s' = rt_tick s" using st(5) by (simp add: rt_timer_control_def upd_timer_def)
qed

lemma arm_total:
  assumes k: "kernel_at s T Q L" and t: "t \<in> T" and n: "n < 0x7FFFFFFF"
  shows "\<exists>s'. rt_timer_start t (snd (snd (rt_timer_control t RT_TIMER_CTRL_SET_TIME n s))) = Some (0, s')"
proof -
  let ?s2 = "snd (snd (rt_timer_control t RT_TIMER_CTRL_SET_TIME n s))"
  have "timers_in ?s2 (waiting (t_env s) T)" by (rule timers_in_set_time [OF kernel_atD(2) [OF k] kernel_atD(3) [OF k t]])
  then obtain ts where "timers_ok ?s2 ts" by (auto simp: timers_in_def ready_def)
  moreover have "init_tick (t_timers ?s2 t) < RT_TICK_MAX_HALF" using n by (simp add: rt_timer_control_def upd_timer_def)
  ultimately show ?thesis by (rule rt_timer_start_ok) blast
qed

text \<open>Starting a thread: its priority is computed, and it is resumed.\<close>

definition started_env :: "nat \<Rightarrow> ksys \<Rightarrow> ksys" where
  "started_env t e = upd_thread t (stat_update (\<lambda>_. 2)) (upd_thread t (\<lambda>r. r\<lparr>current_priority := init_priority (threads e t),
     number_mask := push_bit (unat (init_priority (threads e t))) 1\<rparr>) e)"

lemma startup_kernel:
  assumes k: "kernel_at s T Q L" and t: "t \<in> T" "thread_stat (t_env s) t = 0" and p: "init_priority (thread_of t s) < 32"
  shows "kernel_at (s\<lparr>t_env := started_env t (t_env s)\<rparr>) T Q L" and "thread_stat (started_env t (t_env s)) t = 2"
proof -
  note ok = kernel_atD(1) [OF k]
  let ?e = "started_env t (t_env s)" and ?p = "init_priority (thread_of t s)"
  have n: "t \<notin> set (L h)" for h by (rule running_alone [OF ok t(1)]) (simp add: t(2))
  have nc: "rt_current_thread (t_env s) \<noteq> Some t" using stats_okD(5) [OF sched_okD(2) [OF ok]] t(2) by blast
  have st: "thread_stat ?e u = (if u = t then 2 else thread_stat (t_env s) u)" for u by (simp add: thread_stat_def started_env_def)
  then show "thread_stat ?e t = 2" by simp
  have hm: "has_mask ?e u \<longleftrightarrow> u = t \<or> has_mask (t_env s) u" for u by (simp add: has_mask_def started_env_def)
  have "queues_ok ?e T Q L"
    by (rule queues_ok_cong [OF prio_queues [OF sched_okD(1) [OF ok] n p, of "push_bit (unat ?p) 1"]]) (simp_all add: started_env_def)
  moreover have "stats_ok ?e T L"
    by (rule stats_ok_change [OF sched_okD(2) [OF ok], where t = t]) (use n nc st hm in \<open>simp_all add: started_env_def\<close>)
  ultimately have "sched_ok ?e T Q L" by (simp add: sched_ok_def)
  moreover have "waiting (t_env s) T \<subseteq> waiting ?e T"
    using t(2) st by (auto simp: waiting_def rt_object_get_type_def) (auto simp: started_env_def)
  ultimately show "kernel_at (s\<lparr>t_env := ?e\<rparr>) T Q L" by (rule kernel_env [OF k])
qed

lemma rt_thread_startup_eq:
  "rt_thread_startup t s = do {
     rt_assert (thread_stat (t_env s) t = 0);
     rt_assert (is_thread t s);
     rt_assert (init_priority (thread_of t s) < 32);
     (_, s) \<leftarrow> rt_thread_resume t (s\<lparr>t_env := started_env t (t_env s)\<rparr>);
     s \<leftarrow> (if rt_current_thread (t_env s) \<noteq> None then on_k rt_schedule s else Some s);
     Some (0, s) }"
  unfolding rt_thread_startup_def set_priority_def started_env_def
  by (cases "init_priority (thread_of t s) < 32") (simp_all add: rt_assert_def on_k_def upd_k_def Let_def del: push_bit_of_1)

lemma startup_kernel_ok:
  assumes "kernel_ok s T Q B" and t: "t \<in> T" and "rt_thread_startup t s = Some (rc, s')"
  shows "kernel_ok s' T Q B"
proof -
  obtain L where L: "kernel_at s T Q L" and B: "\<And>q. set (L (Suspended q)) \<subseteq> B q" using assms(1) by (auto simp: kernel_ok_def)
  obtain rc' s2 where s2: "thread_stat (t_env s) t = 0" "init_priority (thread_of t s) < 32"
      "rt_thread_resume t (s\<lparr>t_env := started_env t (t_env s)\<rparr>) = Some (rc', s2)"
      "(if rt_current_thread (t_env s2) \<noteq> None then on_k rt_schedule s2 else Some s2) = Some s'"
    using assms(3) unfolding rt_thread_startup_eq by (auto simp: bind_eq_Some_conv rt_assert_def split: if_splits)
  have "kernel_ok s2 T Q B" using resume_kernel_ok [OF kernel_okI [OF startup_kernel(1) [OF L t s2(1,2)] B] t s2(3)] .
  then show ?thesis using s2(4) schedule_kernel [of s2 T Q B s'] by (auto split: if_splits)
qed

text \<open>Before the scheduler has been started, a thread that is started goes to the end of its ready list.\<close>

lemma startup_before_start:
  assumes k: "kernel_at s T Q L" and t: "t \<in> T" "thread_stat (t_env s) t = 0" "is_thread t s" and p: "init_priority (thread_of t s) < 32"
    and c: "rt_current_thread (t_env s) = None"
  obtains s' where "rt_thread_startup t s = Some (0, s')"
    and "kernel_at s' T Q (L(Table (unat (init_priority (thread_of t s))) := L (Table (unat (init_priority (thread_of t s)))) @ [t]))"
    and "threads (t_env s') = (threads (t_env s))(t := (thread_of t s)\<lparr>current_priority := init_priority (thread_of t s),
      number_mask := push_bit (unat (init_priority (thread_of t s))) 1, stat := 1\<rparr>)"
    and "rt_current_thread (t_env s') = None" and "rt_scheduler_lock_nest (t_env s') = rt_scheduler_lock_nest (t_env s)" and "rt_tick s' = rt_tick s"
proof -
  let ?e = "started_env t (t_env s)" and ?s = "s\<lparr>t_env := started_env t (t_env s)\<rparr>"
  note sk = startup_kernel [OF k t(1,2) p]
  have e: "rt_current_thread ?e = None" "is_thread t ?s" using c t(3) by (simp_all add: started_env_def is_thread_def rt_object_get_type_def)
  obtain s' where s': "rt_thread_resume t ?s = Some (0, s')" using resume_total [OF sk(1) t(1)] sk(2) e by auto
  note rk = resume_kernel [OF sk(1) t(1) _ s']
  have n: "t \<notin> set (L h)" for h by (rule running_alone [OF kernel_atD(1) [OF k] t(1)]) (simp add: t(2))
  have w: "woken t ?e L = L(Table (unat (init_priority (thread_of t s))) := L (Table (unat (init_priority (thread_of t s)))) @ [t])"
    using e(1) n by (simp add: woken_def Let_def remove1_idem started_env_def)
  show thesis
  proof (rule that)
    show "rt_thread_startup t s = Some (0, s')"
      using s' t p rk(3) sk(2) e(1) unfolding rt_thread_startup_eq by (simp add: rt_assert_def)
    show "kernel_at s' T Q (L(Table (unat (init_priority (thread_of t s))) := L (Table (unat (init_priority (thread_of t s)))) @ [t]))"
      using rk(1) sk(2) w by simp
    show "threads (t_env s') = (threads (t_env s))(t := (thread_of t s)\<lparr>current_priority := init_priority (thread_of t s),
        number_mask := push_bit (unat (init_priority (thread_of t s))) 1, stat := 1\<rparr>)"
      using rk(5) sk(2) e(1) by (simp add: started_env_def set_stat_def comp_def)
  qed (use rk(3,4,6) sk(2) e(1) in \<open>simp_all add: started_env_def\<close>)
qed

text \<open>Closing a thread.\<close>

lemma upd_k_detach: "upd_k f (snd (rt_timer_detach t s)) = snd (rt_timer_detach t (upd_k f s))"
  by (simp add: upd_k_def rt_timer_detach_def timer_remove_def)

lemma closed_kernel:
  assumes k: "kernel_at s T Q L" and t: "t \<in> T" "thread_stat (t_env s) t \<noteq> 4"
    and s1: "(if thread_stat (t_env s) t \<noteq> 0 then on_k (rt_schedule_remove_thread t) s else Some s) = Some s1"
  defines "s2 \<equiv> snd (rt_timer_detach t (upd_k (upd_thread t (stat_update (\<lambda>_. 4))) s1))"
  shows "kernel_at s2 T Q (\<lambda>h. remove1 t (L h))" and "thread_stat (t_env s2) t = 4"
proof -
  note ok = kernel_atD(1) [OF k]
  obtain e where e: "s1 = s\<lparr>t_env := e\<rparr>" and ok1: "sched_ok (upd_thread t (stat_update (\<lambda>_. 4)) e) T Q (\<lambda>h. remove1 t (L h))"
    and th: "threads e = threads (t_env s)"
  proof (cases "thread_stat (t_env s) t = 0")
    case True
    then have n: "t \<notin> set (L h)" for h by (intro running_alone [OF ok t(1)]) simp
    let ?e = "upd_thread t (stat_update (\<lambda>_. 4)) (t_env s)"
    have st: "thread_stat ?e u = (if u = t then 4 else thread_stat (t_env s) u)" for u by (simp add: thread_stat_def)
    have "queues_ok ?e T Q L" by (rule queues_ok_cong [OF sched_okD(1) [OF ok]]) simp_all
    moreover have "stats_ok ?e T L"
      by (rule stats_ok_change [OF sched_okD(2) [OF ok], where t = t]) (use n st in \<open>simp_all add: has_mask_def\<close>)
    ultimately show thesis using that [of "t_env s"] s1 True n by (simp add: sched_ok_def remove1_idem)
  next
    case False
    obtain G K where r: "rt_schedule_remove_thread t (t_env s) = Some ((t_env s)\<lparr>k_links := K, rt_thread_ready_priority_group := G\<rparr>)"
      and f: "\<forall>f. (\<forall>r. current_priority (f r) = current_priority r \<and> number_mask (f r) = number_mask r \<and> stat (f r) AND 7 \<in> {2, 4}) \<longrightarrow>
        sched_ok (upd_thread t f ((t_env s)\<lparr>k_links := K, rt_thread_ready_priority_group := G\<rparr>)) T Q (\<lambda>h. remove1 t (L h))"
      by (rule take_out [OF ok t(1) False t(2)])
    show thesis
      by (rule that [of "(t_env s)\<lparr>k_links := K, rt_thread_ready_priority_group := G\<rparr>"])
        (use s1 r False f in \<open>simp_all add: on_k_def\<close>)
  qed
  have te: "t_env s2 = upd_thread t (stat_update (\<lambda>_. 4)) e" by (simp add: s2_def e upd_k_def)
  have "timers_in (upd_k (upd_thread t (stat_update (\<lambda>_. 4))) s1) (waiting (t_env s) T)"
    by (rule timers_in_cong [OF kernel_atD(2) [OF k]]) (simp_all add: e upd_k_def)
  then have "timers_in s2 (waiting (t_env s) T - {t})" unfolding s2_def by (rule timers_in_detach)
  then show "kernel_at s2 T Q (\<lambda>h. remove1 t (L h))"
  proof (rule kernel_atI [rotated])
    show "sched_ok (t_env s2) T Q (\<lambda>h. remove1 t (L h))" unfolding te by (rule ok1)
    show "waiting (t_env s) T - {t} \<subseteq> waiting (t_env s2) T" by (rule waiting_same) (simp_all add: te th thread_stat_def)
    show "t_flag (t_timers s2 u) AND 2 = 0" if "u \<in> T" for u using kernel_atD(3) [OF k that] by (simp add: s2_def e upd_k_def)
  qed
  show "thread_stat (t_env s2) t = 4" by (simp add: te thread_stat_def)
qed

lemma defunct_kernel:
  assumes k: "kernel_at s T Q L" and t: "t \<in> T" "thread_stat (t_env s) t = 4" "\<And>h. t \<notin> set (L h)" and B: "\<And>q. set (L (Suspended q)) \<subseteq> B q"
  shows "kernel_ok (upd_k (\<lambda>k. k\<lparr>k_links := rt_list_insert_after (Head Defunct) (Tlist t) (k_links k)\<rparr>) s) T Q B"
    and "kernel_ok (close_thread t s) T Q B"
proof -
  have "kernel_at (upd_k (\<lambda>k. k\<lparr>k_links := rt_list_insert_after (Head Defunct) (Tlist t) (k_links k)\<rparr>) s) T Q (L(Defunct := t # L Defunct))"
    unfolding upd_k_def by (rule kernel_env [OF k push_defunct [OF kernel_atD(1) [OF k] t]]) (simp add: waiting_def)
  then show d: "kernel_ok (upd_k (\<lambda>k. k\<lparr>k_links := rt_list_insert_after (Head Defunct) (Tlist t) (k_links k)\<rparr>) s) T Q B"
    by (rule kernel_okI) (simp add: B)
  have "sched_ok (upd_thread t (th_type_update (\<lambda>_. 0)) (t_env s)) T Q L"
    by (rule sched_ok_cong [OF kernel_atD(1) [OF k]]) (simp_all add: thread_stat_def has_mask_def)
  then have "kernel_at (upd_k (upd_thread t (th_type_update (\<lambda>_. 0))) s) T Q L"
    unfolding upd_k_def by (rule kernel_env [OF k]) (use t(2) in \<open>auto simp: waiting_def thread_stat_def\<close>)
  then have "kernel_ok (upd_k (upd_thread t (th_type_update (\<lambda>_. 0))) s) T Q B" using B by (rule kernel_okI)
  then show "kernel_ok (close_thread t s) T Q B" using d by (simp add: close_thread_def)
qed

lemma exit_kernel_ok:
  assumes "kernel_ok s T Q B" and "rt_current_thread (t_env s) = Some c" and "thread_stat (t_env s) c = 3" and "rt_thread_exit s = Some s'"
  shows "kernel_ok s' T Q B"
proof -
  obtain L where L: "kernel_at s T Q L" and B: "\<And>q. set (L (Suspended q)) \<subseteq> B q" using assms(1) by (auto simp: kernel_ok_def)
  have c: "c \<in> T" using stats_okD(5) [OF sched_okD(2) [OF kernel_atD(1) [OF L]] assms(2)] by simp
  obtain s1 where s1: "on_k (rt_schedule_remove_thread c) s = Some s1"
      "on_k rt_schedule (close_thread c (snd (rt_timer_detach c (upd_k (upd_thread c (stat_update (\<lambda>_. 4))) s1)))) = Some s'"
    using assms(2,4) by (auto simp: rt_thread_exit_def bind_eq_Some_conv Let_def)
  have n: "c \<notin> set (remove1 c (L h))" for h
    using lists_ok_distinct [OF queues_okD(1) [OF sched_okD(1) [OF kernel_atD(1) [OF L]]], of h] by simp
  have "thread_stat (t_env s) c \<noteq> 4" "(if thread_stat (t_env s) c \<noteq> 0 then on_k (rt_schedule_remove_thread c) s else Some s) = Some s1"
    using s1(1) assms(3) by simp_all
  note closed = closed_kernel [OF L c this]
  have "set (remove1 c (L (Suspended q))) \<subseteq> B q" for q using B [of q] set_remove1_subset by fast
  then show ?thesis by (rule schedule_kernel [OF defunct_kernel(2) [OF closed(1) c closed(2) n] s1(2)])
qed

lemma delete_kernel_ok:
  assumes "kernel_ok s T Q B" and t: "t \<in> T" "thread_stat (t_env s) t \<noteq> 4"
    and s: "rt_thread_detach t s = Some (rc, s') \<or> rt_thread_delete t s = Some (rc, s')"
  shows "kernel_ok s' T Q B"
proof -
  obtain L where L: "kernel_at s T Q L" and B: "\<And>q. set (L (Suspended q)) \<subseteq> B q" using assms(1) by (auto simp: kernel_ok_def)
  have n: "t \<notin> set (remove1 t (L h))" for h
    using lists_ok_distinct [OF queues_okD(1) [OF sched_okD(1) [OF kernel_atD(1) [OF L]]], of h] by simp
  let ?s2 = "\<lambda>s1. snd (rt_timer_detach t (upd_k (upd_thread t (stat_update (\<lambda>_. 4))) s1))"
  obtain s1 where s1: "(if thread_stat (t_env s) t \<noteq> 0 then on_k (rt_schedule_remove_thread t) s else Some s) = Some s1"
      "s' = close_thread t (?s2 s1) \<or>
       s' = upd_k (\<lambda>k. k\<lparr>k_links := rt_list_insert_after (Head Defunct) (Tlist t) (k_links k)\<rparr>) (?s2 s1)"
    using s unfolding rt_thread_detach_def rt_thread_delete_def Let_def upd_k_detach bind_eq_Some_conv by auto
  have "set (remove1 t (L (Suspended q))) \<subseteq> B q" for q using B [of q] set_remove1_subset by fast
  then show ?thesis using defunct_kernel [OF closed_kernel(1) [OF L t s1(1)] t(1) closed_kernel(2) [OF L t s1(1)] n, of B] s1(2) by auto
qed

text \<open>Sleeping: the thread is suspended and its timer runs.\<close>

lemma sleep_for_kernel:
  assumes k: "kernel_at s T Q L" and t: "t \<in> T" "can_run (t_env s) t" and s: "sleep_for t tick s = Some s'"
  shows "kernel_at s' T Q (\<lambda>h. remove1 t (L h))"
    and "\<exists>K G. t_env s' = (set_stat 2 t (t_env s))\<lparr>k_links := K, rt_thread_ready_priority_group := G\<rparr>"
    and "\<exists>ts. ready s' ts \<and> set ts \<subseteq> waiting (t_env s') T \<and> (\<forall>u \<in> set ts. active (t_timers s' u)) \<and> t \<in> set ts \<and> left s' t = uint tick"
    and "rt_tick s' = rt_tick s"
proof -
  obtain rc s1 rc' where s1: "rt_thread_suspend t s = Some (rc, s1)"
      "rt_timer_start t (snd (snd (rt_timer_control t RT_TIMER_CTRL_SET_TIME tick s1))) = Some (rc', s')"
    using s by (auto simp: sleep_for_def bind_eq_Some_conv Let_def)
  note w = suspend_waits [OF k t s1(1)]
  note a = arm_kernel [OF w(1,2) s1(2)]
  show "kernel_at s' T Q (\<lambda>h. remove1 t (L h))" "rt_tick s' = rt_tick s" using a w(5) by simp_all
  show "\<exists>K G. t_env s' = (set_stat 2 t (t_env s))\<lparr>k_links := K, rt_thread_ready_priority_group := G\<rparr>" unfolding a(2) by (rule w(4))
  show "\<exists>ts. ready s' ts \<and> set ts \<subseteq> waiting (t_env s') T \<and> (\<forall>u \<in> set ts. active (t_timers s' u)) \<and> t \<in> set ts \<and> left s' t = uint tick"
    by (rule a(4))
qed

lemma sleep_for_total:
  assumes k: "kernel_at s T Q L" and c: "rt_current_thread (t_env s) = Some c" "thread_stat (t_env s) c = 3" and "is_thread c s" and n: "n < 0x7FFFFFFF"
  shows "\<exists>s'. sleep_for c n s = Some s'"
proof -
  have cT: "c \<in> T" "can_run (t_env s) c"
    using stats_okD(5) [OF sched_okD(2) [OF kernel_atD(1) [OF k]] c(1)] c(2) by (simp_all add: can_run_def)
  obtain s1 where s1: "rt_thread_suspend c s = Some (0, s1)" using suspend_total [OF k c assms(4)] by blast
  then show ?thesis
    using arm_total [OF suspend_waits(1) [OF k cT s1] cT(1) n] by (auto simp: sleep_for_def Let_def)
qed

lemma sleep_kernel_ok:
  assumes "kernel_ok s T Q B" and "rt_current_thread (t_env s) = Some c" and "thread_stat (t_env s) c = 3" and "rt_thread_sleep tick s = Some s'"
  shows "kernel_ok s' T Q B"
proof -
  obtain L where L: "kernel_at s T Q L" and B: "\<And>q. set (L (Suspended q)) \<subseteq> B q" using assms(1) by (auto simp: kernel_ok_def)
  have c: "c \<in> T" "can_run (t_env s) c"
    using stats_okD(5) [OF sched_okD(2) [OF kernel_atD(1) [OF L]] assms(2)] assms(3) by (simp_all add: can_run_def)
  obtain s1 where s1: "sleep_for c tick s = Some s1" "on_k rt_schedule s1 = Some s'"
    using assms(2,4) by (auto simp: rt_thread_sleep_def bind_eq_Some_conv)
  show ?thesis by (rule schedule_kernel [OF kernel_ok_remove1 [OF sleep_for_kernel(1) [OF L c s1(1)] B] s1(2)])
qed

lemma delay_until_kernel_ok:
  assumes "kernel_ok s T Q B" and "rt_current_thread (t_env s) = Some c" and "thread_stat (t_env s) c = 3"
    and "rt_thread_delay_until tick inc s = Some (b, x, s')"
  shows "kernel_ok s' T Q B"
proof (cases "rt_tick s - tick < inc")
  case True
  then have "rt_thread_sleep (rt_tick s - tick + inc) s = Some s'"
    using assms(2,4) by (auto simp: rt_thread_delay_until_def rt_thread_sleep_def bind_eq_Some_conv Let_def)
  then show ?thesis using sleep_kernel_ok assms(1-3) by blast
qed (use assms in \<open>auto simp: rt_thread_delay_until_def bind_eq_Some_conv\<close>)

lemma priority_kernel:
  assumes k: "kernel_at s T Q L" and t: "t \<in> T" and s: "rt_thread_control t (RT_THREAD_CTRL_CHANGE_PRIORITY priority) s = Some (rc, s')"
  shows "\<exists>L'. kernel_at s' T Q L' \<and> (\<forall>q. L' (Suspended q) = L (Suspended q))" and "rc = 0"
    and "only_stat (upd_thread t (\<lambda>r. r\<lparr>current_priority := priority, number_mask := push_bit (unat priority) 1\<rparr>) (t_env s)) (t_env s')"
    and "rt_current_thread (t_env s') = rt_current_thread (t_env s)" and "rt_scheduler_lock_nest (t_env s') = rt_scheduler_lock_nest (t_env s)"
proof -
  obtain e where e: "change_priority t priority (t_env s) = Some e" "s' = s\<lparr>t_env := e\<rparr>" "rc = 0"
    using s by (auto simp: rt_thread_control_def bind_eq_Some_conv on_k_Some)
  then have "priority < 32" by (auto simp: change_priority_def set_priority_def rt_assert_def bind_eq_Some_conv split: if_splits)
  then obtain L' where L': "sched_ok e T Q L'" "\<And>q. L' (Suspended q) = L (Suspended q)" "rt_current_thread e = rt_current_thread (t_env s)"
      "rt_scheduler_lock_nest e = rt_scheduler_lock_nest (t_env s)"
    and o: "only_stat (upd_thread t (\<lambda>r. r\<lparr>current_priority := priority, number_mask := push_bit (unat priority) 1\<rparr>) (t_env s)) e"
    using change_priority_ok [OF kernel_atD(1) [OF k] t, of priority] e(1) by auto
  have "waiting (t_env s) T \<subseteq> waiting e T"
    unfolding only_stat_waiting [OF o] by (auto simp: waiting_def thread_stat_def rt_object_get_type_def)
  then show "\<exists>L'. kernel_at s' T Q L' \<and> (\<forall>q. L' (Suspended q) = L (Suspended q))"
    using kernel_env [OF k L'(1)] L'(2) unfolding e(2) by blast
  show "rc = 0" "rt_current_thread (t_env s') = rt_current_thread (t_env s)" "rt_scheduler_lock_nest (t_env s') = rt_scheduler_lock_nest (t_env s)"
    "only_stat (upd_thread t (\<lambda>r. r\<lparr>current_priority := priority, number_mask := push_bit (unat priority) 1\<rparr>) (t_env s)) (t_env s')"
    using e(2,3) L'(3,4) o by simp_all
qed

lemma control_kernel_ok:
  assumes "kernel_ok s T Q B" and t: "t \<in> T" "thread_stat (t_env s) t \<noteq> 4" and s: "rt_thread_control t cmd s = Some (rc, s')"
  shows "kernel_ok s' T Q B"
proof (cases cmd)
  case (RT_THREAD_CTRL_CHANGE_PRIORITY priority)
  obtain L where L: "kernel_at s T Q L" and B: "\<And>q. set (L (Suspended q)) \<subseteq> B q" using assms(1) by (auto simp: kernel_ok_def)
  then show ?thesis using priority_kernel(1) [OF L t(1) s [unfolded RT_THREAD_CTRL_CHANGE_PRIORITY]] unfolding kernel_ok_def by auto metis
next
  case RT_THREAD_CTRL_STARTUP
  then show ?thesis using s startup_kernel_ok [OF assms(1) t(1)] by (auto simp: rt_thread_control_def bind_eq_Some_conv)
next
  case RT_THREAD_CTRL_CLOSE
  then show ?thesis using s delete_kernel_ok [OF assms(1) t] by (auto simp: rt_thread_control_def bind_eq_Some_conv)
qed (use s assms(1) in \<open>auto simp: rt_thread_control_def bind_eq_Some_conv\<close>)

text \<open>A new thread.\<close>

lemma stats_ok_new:
  assumes "stats_ok s T L" and "thread_stat s t = 0" and "\<And>h. t \<notin> set (L h)"
  shows "stats_ok s (insert t T) L"
  unfolding stats_ok_def
proof (intro conjI ballI allI impI)
  note d = stats_okD [OF assms(1)]
  fix u
  show "thread_stat s u = 1 \<longleftrightarrow> u \<in> set (L (Table (prio s u)))" if "u \<in> insert t T"
    using d(1) [of u] that assms(2,3) by (cases "u = t") simp_all
  show "thread_stat s u = 2" if "u \<in> set (L (Suspended q))" for q by (rule d(2) [OF that])
  show "thread_stat s u = 4" if "u \<in> set (L Defunct)" by (rule d(3) [OF that])
  show "rt_current_thread s = Some u" if "u \<in> insert t T" "thread_stat s u = 3"
    using d(4) [of u] that assms(2) by (cases "u = t") simp_all
  show "has_mask s u" if "u \<in> insert t T" "thread_stat s u \<noteq> 0" "thread_stat s u \<noteq> 4"
    using d(6) [of u] that assms(2) by (cases "u = t") simp_all
  assume "rt_current_thread s = Some u"
  from d(5) [OF this] show "u \<in> insert t T" "thread_stat s u \<noteq> 1" "thread_stat s u \<noteq> 0" by blast+
qed

lemma thread_init_kernel:
  assumes k: "kernel_at s T Q L" and t: "t \<notin> T" and s: "thread_init t a n x p k s = Some s'"
  shows "kernel_at s' (insert t T) Q L"
proof -
  note ok = kernel_atD(1) [OF k]
  note q = sched_okD(1) [OF ok] and v = sched_okD(2) [OF ok]
  have p: "p < 32" using s by (auto simp: thread_init_def Let_def bind_eq_Some_conv rt_assert_def split: if_splits)
  obtain r where e: "t_env s' = (t_env s)\<lparr>k_links := rt_list_init (Tlist t) (k_links (t_env s)), threads := (threads (t_env s))(t := r)\<rparr>"
      and r: "stat r = 0" "current_priority r = p"
    using s by (auto simp: thread_init_def Let_def bind_eq_Some_conv upd_k_def upd_thread_def)
  have st: "thread_stat (t_env s') u = (if u = t then 0 else thread_stat (t_env s) u)" for u by (simp add: e thread_stat_def r)
  have n: "t \<notin> set (L h)" for h using lists_okD(3) [OF queues_okD(1) [OF q]] t by blast
  have nc: "rt_current_thread (t_env s) \<noteq> Some t" using stats_okD(5) [OF v] t by blast
  have "unat p < 32" using p by (simp add: word_less_nat_alt)
  then have q': "queues_ok (t_env s') (insert t T) Q L"
    using lists_new_thread [OF queues_okD(1) [OF q] t] queues_okD(2-4) [OF q] t r n unfolding queues_ok_def e by auto
  have "stats_ok (t_env s') T L"
    by (rule stats_ok_change [OF v, where t = t]) (use n nc in \<open>simp_all add: st\<close>, simp_all add: e has_mask_def)
  then have "stats_ok (t_env s') (insert t T) L" by (rule stats_ok_new) (simp_all add: st n)
  then have ok': "sched_ok (t_env s') (insert t T) Q L" using q' by (simp add: sched_ok_def)
  obtain s0 where s0: "s' = timer_init t 0 0 s0" "t_links s0 = t_links s" "t_timers s0 = t_timers s" "rt_tick s0 = rt_tick s"
    using s by (auto simp: thread_init_def Let_def bind_eq_Some_conv upd_k_def)
  have "timers_in s0 (waiting (t_env s) T)" by (rule timers_in_cong [OF kernel_atD(2) [OF k] s0(2-4)]) simp
  then have "timers_in s' (waiting (t_env s) T)" unfolding s0(1) by (rule timers_in_init) (simp add: waiting_def t)
  then show ?thesis
  proof (rule kernel_atI [OF ok'])
    show "waiting (t_env s) T \<subseteq> waiting (t_env s') (insert t T)" using st t by (auto simp: waiting_def e)
    show "t_flag (t_timers s' u) AND 2 = 0" if "u \<in> insert t T" for u
      using that kernel_atD(3) [OF k, of u] s0 by (cases "u = t") (auto simp: timer_init_def upd_timer_def Let_def)
  qed
qed

lemma type_kernel:
  assumes "kernel_at s T Q L" and "t \<notin> T"
  shows "kernel_at (upd_k (upd_thread t (th_type_update f)) s) T Q L"
proof -
  have "sched_ok (upd_thread t (th_type_update f) (t_env s)) T Q L"
    by (rule sched_ok_cong [OF kernel_atD(1) [OF assms(1)]]) (simp_all add: thread_stat_def has_mask_def)
  then show ?thesis
    unfolding upd_k_def by (rule kernel_env [OF assms(1)]) (use assms(2) in \<open>auto simp: waiting_def thread_stat_def\<close>)
qed

text \<open>The timeout of a waiting thread, and the time slice.\<close>

definition stacks_ok :: "ksys \<Rightarrow> nat set \<Rightarrow> bool" where
  "stacks_ok e T \<longleftrightarrow> (\<forall>t \<in> T. rt_scheduler_stack_check (threads e t) \<noteq> None)"

lemma rt_schedule_total:
  assumes ok: "sched_ok s T Q L" and c: "rt_current_thread s = Some c"
  shows "stacks_ok s T \<Longrightarrow> \<exists>s'. rt_schedule s = Some s'" and "rt_schedule s = Some s' \<Longrightarrow> \<exists>c'. rt_current_thread s' = Some c'"
proof -
  show "\<exists>s'. rt_schedule s = Some s'" if st: "stacks_ok s T"
    using ok c
  proof (cases rule: rt_schedule_cases)
    case (overflow p t ts)
    have "t \<in> T" using lists_okD(3) [OF queues_okD(1) [OF sched_okD(1) [OF ok]], of t "Table p"] overflow(1) by simp
    then show ?thesis using overflow(2) st by (simp add: stacks_ok_def)
  qed auto
  show "\<exists>c'. rt_current_thread s' = Some c'" if "rt_schedule s = Some s'"
    using ok c by (cases rule: rt_schedule_cases) (use that c in auto)
qed

lemma rt_schedule_lock:
  assumes "sched_ok s T Q L" and "rt_current_thread s = Some c" and "rt_schedule s = Some s'"
  shows "rt_scheduler_lock_nest s' = rt_scheduler_lock_nest s"
  using assms(1,2) by (cases rule: rt_schedule_cases) (use assms(3) in auto)

lemma only_stat_trans: "only_stat a b \<Longrightarrow> only_stat b c \<Longrightarrow> only_stat a c"
  unfolding only_stat_def by (metis (no_types, lifting) rt_thread.surjective rt_thread.update_convs(7))

text \<open>The state of the scheduler when the thread has been woken up.\<close>

definition timed_out :: "nat \<Rightarrow> ksys \<Rightarrow> nat \<Rightarrow> rt_thread" where
  "timed_out t s = threads (set_stat (if rt_current_thread s = Some t then 3 else 1) t (upd_thread t (th_error_update (\<lambda>_. - 2)) s))"

lemma timeout_wakes:
  assumes ok: "sched_ok s T Q L" and t: "t \<in> waiting s T"
  obtains e where "rt_thread_timeout t s = rt_schedule e" and "sched_ok e T Q (woken t s L)" and "threads e = timed_out t s"
    and "rt_current_thread e = rt_current_thread s" and "rt_scheduler_lock_nest e = rt_scheduler_lock_nest s"
proof -
  let ?s = "upd_thread t (th_error_update (\<lambda>_. - 2)) s"
  have tT: "t \<in> T" "thread_stat s t = 2" "rt_object_get_type (threads s t) = 1" using t by (simp_all add: waiting_def)
  have ok': "sched_ok ?s T Q L" by (rule sched_ok_cong [OF ok]) (simp_all add: thread_stat_def has_mask_def)
  have st: "thread_stat ?s t = 2" using tT(2) by (simp add: thread_stat_def)
  have w: "woken t ?s L = woken t s L" by (simp add: woken_def Let_def)
  let ?x = "if rt_current_thread ?s = Some t then 3 else 1 :: u8"
  obtain G K where i: "rt_schedule_insert_thread t (?s\<lparr>k_links := rt_list_remove (Tlist t) (k_links ?s)\<rparr>) =
      Some ((set_stat ?x t ?s)\<lparr>k_links := K, rt_thread_ready_priority_group := G\<rparr>)"
    and o: "sched_ok ((set_stat ?x t ?s)\<lparr>k_links := K, rt_thread_ready_priority_group := G\<rparr>) T Q (woken t ?s L)"
    by (rule wake_up [OF ok' tT(1) st])
  show thesis
  proof (rule that [of "(set_stat ?x t ?s)\<lparr>k_links := K, rt_thread_ready_priority_group := G\<rparr>"])
    show "rt_thread_timeout t s = rt_schedule ((set_stat ?x t ?s)\<lparr>k_links := K, rt_thread_ready_priority_group := G\<rparr>)"
      using i tT(2,3) by (simp add: rt_thread_timeout_def Let_def rt_assert_def)
  qed (use o w in \<open>simp_all add: timed_out_def\<close>)
qed

lemma slice_down_ok:
  assumes ok: "sched_ok s T Q L" and "slice_down s = Some s'"
  shows "\<exists>L'. sched_ok s' T Q L' \<and> (\<forall>q. set (L' (Suspended q)) \<subseteq> set (L (Suspended q)))" and "waiting s' T = waiting s T"
    and "\<exists>c. rt_current_thread s' = Some c"
proof -
  obtain c where c: "rt_current_thread s = Some c" using assms(2) by (auto simp: slice_down_def bind_eq_Some_conv)
  let ?s1 = "upd_thread c (remaining_tick_update (\<lambda>n. n - 1)) s"
  let ?s2 = "upd_thread c (\<lambda>r. r\<lparr>remaining_tick := slice_tick r, stat := stat r OR RT_THREAD_STAT_YIELD\<rparr>) ?s1"
  have "(f OR 8) AND 7 = f AND (7 :: u8)" for f by (simp add: bit.conj_disj_distrib2)
  then have th: "thread_stat ?s1 u = thread_stat s u" "thread_stat ?s2 u = thread_stat s u" for u by (simp_all add: thread_stat_def)
  have ok1: "sched_ok ?s1 T Q L" by (rule sched_ok_cong [OF ok]) (simp_all add: th, simp_all add: has_mask_def)
  have ok2: "sched_ok ?s2 T Q L" by (rule sched_ok_cong [OF ok]) (simp_all add: th, simp_all add: has_mask_def)
  have w: "waiting ?s1 T = waiting s T" "waiting ?s2 T = waiting s T"
    unfolding waiting_def rt_object_get_type_def th by (auto simp: fun_upd_def)
  have "s' = ?s1 \<or> rt_schedule ?s2 = Some s'" using assms(2) c by (auto simp: slice_down_def rt_thread_yield_def Let_def split: if_splits)
  moreover have "\<exists>L'. sched_ok s' T Q L' \<and> (\<forall>q. set (L' (Suspended q)) \<subseteq> set (L (Suspended q)))" "waiting s' T = waiting s T"
      "\<exists>c. rt_current_thread s' = Some c" if "rt_schedule ?s2 = Some s'"
    using rt_schedule_ok [OF ok2 that] only_stat_waiting [OF rt_schedule_only_stat [OF ok2 that]] rt_schedule_total(2) [OF ok2 _ that] w c
    by simp_all
  ultimately show "\<exists>L'. sched_ok s' T Q L' \<and> (\<forall>q. set (L' (Suspended q)) \<subseteq> set (L (Suspended q)))" "waiting s' T = waiting s T"
      "\<exists>c. rt_current_thread s' = Some c"
    using ok1 w c by auto
qed

end
