(* ===== verification/Kernel.thy ===== *)
theory Kernel
  imports Threads
begin

text \<open>
  The tick of the clock for threads, all uses of threads as a step relation, and what follows for every state that can
  be reached: the ready table, the choice of the scheduler, yielding, and the time that a thread
  sleeps.
\<close>

subsection \<open>The tick of the clock\<close>

abbreviation thread_timeouts :: "nat \<Rightarrow> kernel \<Rightarrow> kernel option" where
  "thread_timeouts \<equiv> \<lambda>t. on_k (rt_thread_timeout t)"

text \<open>What a timeout does to the threads: those in \<open>D\<close> wait no longer and have the timeout as their error.\<close>

definition timeouts :: "nat set \<Rightarrow> nat set \<Rightarrow> ksys \<Rightarrow> ksys \<Rightarrow> bool" where
  "timeouts T D e e' \<longleftrightarrow> waiting e' T = waiting e T - D \<and> (\<forall>t. th_error (threads e' t) = (if t \<in> D then - RT_ETIMEOUT else th_error (threads e t))) \<and>
     (\<forall>t. rt_scheduler_stack_check (threads e' t) = rt_scheduler_stack_check (threads e t)) \<and> (\<forall>t \<in> D. can_run e' t) \<and>
     (\<forall>t. t \<notin> D \<longrightarrow> (can_run e' t \<longleftrightarrow> can_run e t))"

lemma timeouts_refl [simp]: "timeouts T {} e e"
  by (simp add: timeouts_def)

lemma timeouts_trans:
  assumes "timeouts T D e e'" and "timeouts T D' e' e''"
  shows "timeouts T (D \<union> D') e e''"
proof -
  have "can_run e'' t" if "t \<in> D" for t using assms that unfolding timeouts_def by (cases "t \<in> D'") auto
  then show ?thesis using assms unfolding timeouts_def by auto
qed

lemma timeout_turn:
  assumes ok: "sched_ok e T Q L" and t: "t \<in> waiting e T" and c: "rt_current_thread e = Some c"
  shows "rt_thread_timeout t e = None \<Longrightarrow> \<not> stacks_ok e T"
    and "rt_thread_timeout t e = Some e' \<Longrightarrow> (\<exists>L'. sched_ok e' T Q L' \<and> (\<forall>q. set (L' (Suspended q)) \<subseteq> set (L (Suspended q)))) \<and>
      timeouts T {t} e e' \<and> (\<exists>c. rt_current_thread e' = Some c)"
proof -
  obtain e1 where e1: "rt_thread_timeout t e = rt_schedule e1" "sched_ok e1 T Q (woken t e L)" "threads e1 = timed_out t e"
      "rt_current_thread e1 = rt_current_thread e"
    by (rule timeout_wakes [OF ok t])
  have "timed_out t e = (threads e)(t := (threads e t)\<lparr>th_error := - 2,
      stat := (if rt_current_thread e = Some t then 3 else 1) OR (stat (threads e t) AND NOT 7)\<rparr>)"
    by (cases "threads e t") (simp add: timed_out_def set_stat_def)
  then obtain x where th: "timed_out t e = (threads e)(t := (threads e t)\<lparr>th_error := - 2, stat := x\<rparr>)" by blast
  have "thread_stat e1 u = thread_stat (set_stat (if rt_current_thread e = Some t then 3 else 1) t (upd_thread t (th_error_update (\<lambda>_. - 2)) e)) u" for u
    by (simp add: thread_stat_def e1(3) timed_out_def)
  then have st: "thread_stat e1 u = (if u = t then if rt_current_thread e = Some t then 3 else 1 else thread_stat e u)" for u
    by (simp, simp add: thread_stat_def)
  have sk: "rt_scheduler_stack_check (threads e1 u) = rt_scheduler_stack_check (threads e u)" for u
    by (simp add: e1(3) th rt_scheduler_stack_check_def)
  then have so: "stacks_ok e1 T = stacks_ok e T" by (simp add: stacks_ok_def)
  show "\<not> stacks_ok e T" if "rt_thread_timeout t e = None" using rt_schedule_total(1) [OF e1(2), of c] e1(1,4) c that so by auto
  assume s: "rt_thread_timeout t e = Some e'"
  then have sc: "rt_schedule e1 = Some e'" using e1(1) by simp
  note os = rt_schedule_only_stat [OF e1(2) sc]
  have "waiting e1 T = waiting e T - {t}" by (auto simp: waiting_def st rt_object_get_type_def e1(3) th split: if_splits)
  then have "waiting e' T = waiting e T - {t}" using only_stat_waiting [OF os] by simp
  moreover have "th_error (threads e' u) = (if u \<in> {t} then - 2 else th_error (threads e u))" for u
    by (simp add: only_statD(3) [OF os] e1(3) th)
  moreover have "can_run e' t" "u \<noteq> t \<Longrightarrow> can_run e' u = can_run e u" for u
    unfolding only_statD(6) [OF os] by (simp_all add: can_run_def st)
  ultimately have "timeouts T {t} e e'" unfolding timeouts_def by (simp add: only_statD(5) [OF os] sk)
  moreover obtain L' where "sched_ok e' T Q L'" "\<And>q. set (L' (Suspended q)) \<subseteq> set (woken t e L (Suspended q))"
    using rt_schedule_ok [OF e1(2) sc] by blast
  moreover have "set (woken t e L (Suspended q)) \<subseteq> set (L (Suspended q))" for q by (rule woken_subset)
  ultimately show "(\<exists>L'. sched_ok e' T Q L' \<and> (\<forall>q. set (L' (Suspended q)) \<subseteq> set (L (Suspended q)))) \<and>
      timeouts T {t} e e' \<and> (\<exists>c. rt_current_thread e' = Some c)"
    using rt_schedule_total(2) [OF e1(2) _ sc] e1(4) c by (auto intro!: exI [of _ L'])
qed

text \<open>The loop over the timers: it fails only when a stack has overflowed; else those that are due have fired.\<close>

definition due :: "kernel \<Rightarrow> nat \<Rightarrow> bool" where
  "due s t \<longleftrightarrow> left s t \<le> 0"

definition fired_all :: "nat set \<Rightarrow> nat set \<Rightarrow> (nat \<Rightarrow> nat set) \<Rightarrow> nat list \<Rightarrow> kernel \<Rightarrow> kernel \<Rightarrow> bool" where
  "fired_all T Q B ts s s' \<longleftrightarrow> (\<exists>L. sched_ok (t_env s') T Q L \<and> (\<forall>q. set (L (Suspended q)) \<subseteq> B q)) \<and> timers_ok s' (dropWhile (due s) ts) \<and> rt_tick s' = rt_tick s \<and>
     timeouts T (set (takeWhile (due s) ts)) (t_env s) (t_env s') \<and> (\<exists>c. rt_current_thread (t_env s') = Some c) \<and>
     (\<forall>t. t \<notin> set (takeWhile (due s) ts) \<longrightarrow> t_timers s' t = t_timers s t) \<and>
     (\<forall>t. t_flag (t_timers s' t) AND 2 = t_flag (t_timers s t) AND 2)"

lemma fired_flag: "t_flag r AND 2 = 0 \<Longrightarrow> t_flag (fired k r) AND 2 = 0" "t_flag r AND 2 = 0 \<Longrightarrow> \<not> repeating r"
proof -
  have "(f AND NOT 1) AND 2 = f AND 2" for f :: u8 by (rule bit_word_eqI) (auto simp: bit_simps)
  then show "t_flag (fired k r) AND 2 = 0" if "t_flag r AND 2 = 0" using that by (simp add: fired_def repeating_def)
qed (simp add: repeating_def)

lemma timeout_loop:
  assumes "timers_ok s ts" and "\<forall>t \<in> set ts. t_flag (t_timers s t) AND 2 = 0" and "sched_ok (t_env s) T Q L" and "set ts \<subseteq> waiting (t_env s) T"
    and "rt_current_thread (t_env s) = Some c" and "\<forall>q. set (L (Suspended q)) \<subseteq> B q"
  shows "(timer_check_loop thread_timeouts (rt_tick s) s = None \<longrightarrow> \<not> stacks_ok (t_env s) T) \<and>
    (\<forall>s'. timer_check_loop thread_timeouts (rt_tick s) s = Some s' \<longrightarrow> fired_all T Q B ts s s')"
  using assms
proof (induction ts arbitrary: s L c)
  case Nil
  then show ?case using timer_check_stops [of s "[]" thread_timeouts] by (auto simp: fired_all_def)
next
  case (Cons t us)
  show ?case
  proof (cases "due s t")
    case False
    then have "timer_check_loop thread_timeouts (rt_tick s) s = Some s" using timer_check_stops [OF Cons.prems(1)] by (simp add: due_def)
    then show ?thesis using Cons.prems False by (auto simp: fired_all_def)
  next
    case True
    note first = dlist_first [OF Cons.prems(1)]
    have tw: "t \<in> waiting (t_env s) T" using Cons.prems(4) by simp
    have fl: "t_flag (t_timers s t) AND 2 = 0" using Cons.prems(2) by simp
    note turn = timeout_turn [OF Cons.prems(3) tw Cons.prems(5)]
    have d0: "rt_tick s - timeout_tick (t_timers s t) < RT_TICK_MAX_HALF"
      using True due_compare [of s t] Cons.prems(1) by (simp add: due_def timers_ok_def)
    show ?thesis
    proof (cases "rt_thread_timeout t (t_env s)")
      case None
      then have "timer_check_loop thread_timeouts (rt_tick s) s = None"
        using first d0 by (subst timer_check_loop.simps) (simp add: on_k_def)
      then show ?thesis using turn(1) [OF None] by simp
    next
      case (Some e')
      note e' = turn(2) [OF Some]
      obtain s1 s2 where q: "quiet (\<lambda>_ _. e') t (timer_remove t s) = Some s1" "timer_rearm t s1 = Some s2" "rt_tick s1 = rt_tick s2"
        and ok2: "timers_ok s2 us" and tm: "t_timers s2 = (t_timers s)(t := fired (rt_tick s) (t_timers s t))"
        and tick: "rt_tick s2 = rt_tick s" and env: "t_env s2 = e'"
        by (rule timer_turn [OF Cons.prems(1), where act = "\<lambda>_ _. e'"])
          (use True fired_flag(2) [OF fl] in \<open>simp_all add: due_def\<close>)
      have step: "timer_check_loop thread_timeouts (rt_tick s) s = timer_check_loop thread_timeouts (rt_tick s2) s2"
        using first d0 q Some by (subst timer_check_loop.simps) (simp add: on_k_def quiet_def)
      obtain L' c' where L': "sched_ok (t_env s2) T Q L'" "rt_current_thread (t_env s2) = Some c'"
          "\<forall>q. set (L' (Suspended q)) \<subseteq> set (L (Suspended q))" and to: "timeouts T {t} (t_env s) (t_env s2)"
        using e' env by auto
      have tu: "t \<notin> set us" using timers_ok_distinct [OF Cons.prems(1)] by simp
      have w2: "set us \<subseteq> waiting (t_env s2) T" using Cons.prems(4) to tu by (auto simp: timeouts_def)
      have f2: "\<forall>u \<in> set us. t_flag (t_timers s2 u) AND 2 = 0" using Cons.prems(2) tm tu by auto
      have B2: "\<forall>q. set (L' (Suspended q)) \<subseteq> B q" using L'(3) Cons.prems(6) by blast
      note IH = Cons.IH [OF ok2 f2 L'(1) w2 L'(2) B2]
      have du: "due s2 u = due s u" if "u \<in> set us" for u using that tm tick tu by (auto simp: due_def left_def)
      then have tk: "takeWhile (due s2) us = takeWhile (due s) us" "dropWhile (due s2) us = dropWhile (due s) us"
        by (simp_all cong: takeWhile_cong dropWhile_cong)
      have "\<not> stacks_ok (t_env s) T" if "\<not> stacks_ok (t_env s2) T" using that to by (simp add: stacks_ok_def timeouts_def)
      moreover have "fired_all T Q B (t # us) s s'" if "fired_all T Q B us s2 s'" for s'
        using that True tm tick fl fired_flag(1) [OF fl] timeouts_trans [OF to] unfolding fired_all_def tk by auto
      ultimately show ?thesis using IH unfolding step by blast
    qed
  qed
qed

lemma slice_down_timeouts:
  assumes ok: "sched_ok s T Q L" and c: "rt_current_thread s = Some c"
  shows "slice_down s = Some s' \<Longrightarrow> timeouts T {} s s'" and "stacks_ok s T \<Longrightarrow> slice_down s \<noteq> None"
proof -
  let ?s1 = "upd_thread c (remaining_tick_update (\<lambda>n. n - 1)) s"
  let ?s2 = "upd_thread c (\<lambda>r. r\<lparr>remaining_tick := slice_tick r, stat := stat r OR RT_THREAD_STAT_YIELD\<rparr>) ?s1"
  have "(f OR 8) AND 7 = f AND (7 :: u8)" for f by (simp add: bit.conj_disj_distrib2)
  then have th: "thread_stat ?s1 u = thread_stat s u" "thread_stat ?s2 u = thread_stat s u" for u by (simp_all add: thread_stat_def)
  have ok2: "sched_ok ?s2 T Q L" by (rule sched_ok_cong [OF ok]) (simp_all add: th, simp_all add: has_mask_def)
  have t1: "timeouts T {} s ?s1" "timeouts T {} s ?s2"
    unfolding timeouts_def waiting_def can_run_def th by (auto simp: rt_object_get_type_def rt_scheduler_stack_check_def)
  have eq: "slice_down s = (if remaining_tick (threads ?s1 c) = 0 then rt_schedule ?s2 else Some ?s1)"
    using c by (simp add: slice_down_def rt_thread_yield_def Let_def)
  have "timeouts T {} ?s2 s'" if "rt_schedule ?s2 = Some s'"
    using rt_schedule_only_stat [OF ok2 that] only_stat_waiting only_statD(3,5,6) unfolding timeouts_def by auto
  then show "slice_down s = Some s' \<Longrightarrow> timeouts T {} s s'"
    using t1 timeouts_trans [OF t1(2), of "{}" s'] unfolding eq by (auto split: if_splits)
  have "stacks_ok ?s2 T = stacks_ok s T" using t1(2) unfolding timeouts_def stacks_ok_def by simp
  then show "slice_down s \<noteq> None" if "stacks_ok s T" using rt_schedule_total(1) [OF ok2] c that unfolding eq by auto
qed

lemma sorted_split:
  fixes f :: "'a \<Rightarrow> int"
  assumes "sorted (map f ts)" and "\<forall>t \<in> set ts. P t \<longleftrightarrow> f t \<le> n"
  shows "takeWhile P ts = filter (\<lambda>t. f t \<le> n) ts \<and> dropWhile P ts = filter (\<lambda>t. \<not> f t \<le> n) ts"
  using assms
proof (induction ts)
  case (Cons a ts)
  have "filter (\<lambda>t. f t \<le> n) ts = []" "filter (\<lambda>t. \<not> f t \<le> n) ts = ts" if "\<not> f a \<le> n"
    using Cons.prems(1) that by (fastforce simp: filter_empty_conv filter_id_conv)+
  then show ?case using Cons by auto
qed simp

text \<open>The tick as a whole.\<close>

lemma sys_tick_ok:
  assumes k: "kernel_at s T Q L" and r: "ready s ts" "set ts \<subseteq> waiting (t_env s) T" "\<forall>t \<in> set ts. active (t_timers s t)"
    and c: "rt_current_thread (t_env s) = Some c"
  shows "stacks_ok (t_env s) T \<Longrightarrow> sys_tick s \<noteq> None"
    and "sys_tick s = Some s' \<Longrightarrow> \<exists>L' ts'. kernel_at s' T Q L' \<and> ready s' ts' \<and> set ts' \<subseteq> waiting (t_env s') T \<and>
      (\<forall>t \<in> set ts'. active (t_timers s' t)) \<and> (\<exists>c. rt_current_thread (t_env s') = Some c) \<and>
      (\<forall>q. set (L' (Suspended q)) \<subseteq> set (L (Suspended q))) \<and>
      set ts' = {t \<in> set ts. 1 < left s t} \<and> (\<forall>t \<in> set ts'. left s' t = left s t - 1) \<and>
      timeouts T {t \<in> set ts. left s t \<le> 1} (t_env s) (t_env s')"
proof -
  note ok = kernel_atD(1) [OF k]
  define B where B: "B = (\<lambda>q. set (L (Suspended q)))"
  have fl: "t_flag (t_timers s t) AND 2 = 0" if "t \<in> set ts" for t using kernel_atD(3) [OF k, of t] r(2) that by (auto simp: waiting_def)
  have tick: "(timer_check_loop thread_timeouts (rt_tick s0) s0 = None \<longrightarrow> \<not> stacks_ok (t_env s0) T) \<and>
      (\<forall>s'. timer_check_loop thread_timeouts (rt_tick s0) s0 = Some s' \<longrightarrow> fired_all T Q B ts s0 s')"
    if e: "slice_down (t_env s) = Some e" and s0: "s0 = s\<lparr>rt_tick := rt_tick s + 1, t_env := e\<rparr>" for e s0
  proof -
    obtain L1 c1 where "sched_ok e T Q L1" "rt_current_thread e = Some c1" "\<forall>q. set (L1 (Suspended q)) \<subseteq> B q"
      using slice_down_ok(1,3) [OF ok e] unfolding B by blast
    moreover have "waiting e T = waiting (t_env s) T" using slice_down_ok(2) [OF ok e] .
    ultimately show ?thesis using tick_advance(1) [OF r(1), of e] fl r(2) unfolding s0 by (intro timeout_loop) auto
  qed
  have sys: "sys_tick s = do { e \<leftarrow> slice_down (t_env s);
      timer_check_loop thread_timeouts (rt_tick s + 1) (s\<lparr>rt_tick := rt_tick s + 1, t_env := e\<rparr>) }"
    by (simp add: sys_tick_def rt_tick_increase_def rt_timer_check_def Let_def)
  show "sys_tick s \<noteq> None" if st: "stacks_ok (t_env s) T"
  proof -
    obtain e where e: "slice_down (t_env s) = Some e" using slice_down_timeouts(2) [OF ok c st] by blast
    have "stacks_ok e T" using slice_down_timeouts(1) [OF ok c e] st by (simp add: timeouts_def stacks_ok_def)
    then show ?thesis using tick [OF e refl] sys e by auto
  qed
  assume "sys_tick s = Some s'"
  then obtain e where e: "slice_down (t_env s) = Some e"
      "timer_check_loop thread_timeouts (rt_tick s + 1) (s\<lparr>rt_tick := rt_tick s + 1, t_env := e\<rparr>) = Some s'"
    unfolding sys by (auto simp: bind_eq_Some_conv)
  define s0 where s0: "s0 = s\<lparr>rt_tick := rt_tick s + 1, t_env := e\<rparr>"
  have fa: "fired_all T Q B ts s0 s'" using tick [OF e(1) s0] e(2) s0 by simp
  have l: "left s0 t = left s t - 1" if "t \<in> set ts" for t using tick_advance(2) [OF r(1) that, of e] s0 by simp
  let ?ts = "dropWhile (due s0) ts"
  have srt: "sorted (map (left s) ts)" using r(1) by (simp add: ready_def timers_ok_def)
  have d: "due s0 t \<longleftrightarrow> left s t \<le> 1" if "t \<in> set ts" for t using l [OF that] by (auto simp: due_def)
  have tw: "takeWhile (due s0) ts = filter (\<lambda>t. left s t \<le> 1) ts" "?ts = filter (\<lambda>t. \<not> left s t \<le> 1) ts"
    using sorted_split [of "left s" ts "due s0" 1] srt d by simp_all
  have set: "set ?ts = {t \<in> set ts. 1 < left s t}" "set (takeWhile (due s0) ts) = {t \<in> set ts. left s t \<le> 1}" by (auto simp: tw)
  have tm: "t_timers s' t = t_timers s t" if "t \<in> set ?ts" for t using fa that unfolding fired_all_def set by (auto simp: s0)
  have l': "left s' t = left s t - 1" if "t \<in> set ?ts" for t
  proof -
    have "left s' t = left s0 t" using fa tm [OF that] by (simp add: left_def fired_all_def s0)
    then show ?thesis using l that set by simp
  qed
  have env: "timeouts T {t \<in> set ts. left s t \<le> 1} (t_env s) (t_env s')"
    using timeouts_trans [OF slice_down_timeouts(1) [OF ok c e(1)]] fa unfolding fired_all_def set by (simp add: s0)
  have rd: "ready s' ?ts"
    using fa l' set(1) fl fired_flag(2) tm by (auto simp: ready_def fired_all_def periods_ok_def) 
  have w: "set ?ts \<subseteq> waiting (t_env s') T" using env r(2) set(1) by (auto simp: timeouts_def)
  have act: "\<forall>t \<in> set ?ts. active (t_timers s' t)" using r(3) set(1) tm by auto
  obtain L' where L': "sched_ok (t_env s') T Q L'" "\<forall>q. set (L' (Suspended q)) \<subseteq> set (L (Suspended q))"
    using fa unfolding fired_all_def B by blast
  have "timers_in s' (set ?ts)" using rd act by (auto simp: timers_in_def)
  then have "kernel_at s' T Q L'"
    by (rule kernel_atI [OF L'(1) _ w]) (use kernel_atD(3) [OF k] fa in \<open>simp add: fired_all_def s0\<close>)
  then show "\<exists>L' ts'. kernel_at s' T Q L' \<and> ready s' ts' \<and> set ts' \<subseteq> waiting (t_env s') T \<and>
      (\<forall>t \<in> set ts'. active (t_timers s' t)) \<and> (\<exists>c. rt_current_thread (t_env s') = Some c) \<and>
      (\<forall>q. set (L' (Suspended q)) \<subseteq> set (L (Suspended q))) \<and>
      set ts' = {t \<in> set ts. 1 < left s t} \<and> (\<forall>t \<in> set ts'. left s' t = left s t - 1) \<and>
      timeouts T {t \<in> set ts. left s t \<le> 1} (t_env s) (t_env s')"
    using rd w act l' env set(1) fa L'(2) by (intro exI [of _ L'] exI [of _ ?ts]) (simp add: fired_all_def)
qed

subsection \<open>All uses of threads\<close>

text \<open>
  The steps of the system: creating, starting, suspending, resuming, closing and changing threads, sleeping and returning from
  it, scheduling at any moment, locking the scheduler, and ticks of the clock. Names of threads are not
  used again, a closed thread is not closed or changed again, and only a running thread sleeps or exits.
\<close>

inductive thread_op :: "nat set \<Rightarrow> kernel \<Rightarrow> nat set \<Rightarrow> kernel \<Rightarrow> bool" where
  t_init: "t \<notin> T \<Longrightarrow> rt_thread_init t a n x p k s = Some s' \<Longrightarrow> thread_op T s (insert t T) s'"
| t_create: "t \<notin> T \<Longrightarrow> rt_thread_create (Some t) st n x p k s = Some (r, s') \<Longrightarrow> thread_op T s (if r = None then T else insert t T) s'"
| t_startup: "t \<in> T \<Longrightarrow> rt_thread_startup t s = Some (rc, s') \<Longrightarrow> thread_op T s T s'"
| t_suspend: "t \<in> T \<Longrightarrow> rt_thread_suspend t s = Some (rc, s') \<Longrightarrow> thread_op T s T s'"
| t_resume: "t \<in> T \<Longrightarrow> rt_thread_resume t s = Some (rc, s') \<Longrightarrow> thread_op T s T s'"
| t_detach: "t \<in> T \<Longrightarrow> thread_stat (t_env s) t \<noteq> RT_THREAD_CLOSE \<Longrightarrow> rt_thread_detach t s = Some (rc, s') \<Longrightarrow> thread_op T s T s'"
| t_delete: "t \<in> T \<Longrightarrow> thread_stat (t_env s) t \<noteq> RT_THREAD_CLOSE \<Longrightarrow> rt_thread_delete t s = Some (rc, s') \<Longrightarrow> thread_op T s T s'"
| t_control: "t \<in> T \<Longrightarrow> thread_stat (t_env s) t \<noteq> RT_THREAD_CLOSE \<Longrightarrow> rt_thread_control t cmd s = Some (rc, s') \<Longrightarrow> thread_op T s T s'"
| t_schedule: "on_k rt_schedule s = Some s' \<Longrightarrow> thread_op T s T s'"
| t_sleep: "rt_current_thread (t_env s) = Some c \<Longrightarrow> thread_stat (t_env s) c = RT_THREAD_RUNNING \<Longrightarrow>
    rt_thread_sleep tick s = Some s' \<Longrightarrow> thread_op T s T s'"
| t_delay_until: "rt_current_thread (t_env s) = Some c \<Longrightarrow> thread_stat (t_env s) c = RT_THREAD_RUNNING \<Longrightarrow>
    rt_thread_delay_until tick inc s = Some (b, y, s') \<Longrightarrow> thread_op T s T s'"
| t_return: "thread_op T s T (snd (sleep_return t s))"
| t_exit: "rt_current_thread (t_env s) = Some c \<Longrightarrow> thread_stat (t_env s) c = RT_THREAD_RUNNING \<Longrightarrow>
    rt_thread_exit s = Some s' \<Longrightarrow> thread_op T s T s'"
| t_enter_critical: "thread_op T s T (upd_k rt_enter_critical s)"
| t_exit_critical: "on_k rt_exit_critical s = Some s' \<Longrightarrow> thread_op T s T s'"
| t_start: "rt_current_thread (t_env s) = None \<Longrightarrow> on_k rt_system_scheduler_start s = Some s' \<Longrightarrow> thread_op T s T s'"
| t_tick: "sys_tick s = Some s' \<Longrightarrow> thread_op T s T s'"

inductive k_reach :: "nat set \<Rightarrow> kernel \<Rightarrow> bool" where
  boot: "(\<And>t. dlist (t_links s) (Row t) []) \<Longrightarrow> rt_current_thread (t_env s) = None \<Longrightarrow>
    k_reach {} (rt_system_timer_init (upd_k rt_system_scheduler_init s))"
| step: "k_reach T s \<Longrightarrow> thread_op T s T' s' \<Longrightarrow> k_reach T' s'"

lemma lists_init_tables:
  "lists_ok s H T L \<Longrightarrow> distinct ps \<Longrightarrow> \<forall>p \<in> set ps. Table p \<notin> H \<Longrightarrow>
    lists_ok (fold (\<lambda>p. rt_list_init (Head (Table p))) ps s) (Table ` set ps \<union> H) T L"
proof (induction ps arbitrary: s H)
  case (Cons p ps)
  then show ?case using Cons.IH [OF lists_new_head [of s H T L "Table p"]] by (auto simp: insert_commute)
qed simp

lemma boot_kernel:
  assumes "\<And>t. dlist (t_links s) (Row t) []" and "rt_current_thread (t_env s) = None"
  shows "kernel_at (rt_system_timer_init (upd_k rt_system_scheduler_init s)) {} {} (\<lambda>_. [])"
proof -
  let ?s = "rt_system_timer_init (upd_k rt_system_scheduler_init s)"
  have "lists_ok (k_links (t_env s)) {} {} (\<lambda>_. [])" by (simp add: lists_ok_def)
  from lists_new_head [OF lists_init_tables [OF this, of "[0..<32]"], of Defunct]
  have "lists_ok (k_links (t_env ?s)) (insert Defunct (Table ` {0..<32})) {} (\<lambda>_. [])"
    by (auto simp: rt_system_timer_init_def upd_k_def rt_system_scheduler_init_def Let_def)
  moreover have "insert Defunct (Table ` {0..<32}) = heads {}" by (auto simp: heads_def)
  ultimately have "sched_ok (t_env ?s) {} {} (\<lambda>_. [])"
    using assms(2)
    by (simp add: sched_ok_def queues_ok_def stats_ok_def rt_system_timer_init_def upd_k_def rt_system_scheduler_init_def Let_def)
  moreover have "dlist (t_links ?s) (Row t) []" for t
    using klist.init_keeps [OF assms(1) [of t], of TimerList] by (simp add: rt_system_timer_init_def upd_k_def)
  then have "ready ?s []"
    using klist.rep_init [of TimerList "t_links s"]
    by (simp add: ready_def timers_ok_def periods_ok_def rt_system_timer_init_def upd_k_def)
  then have "timers_in ?s {}" by (auto simp: timers_in_def)
  ultimately show ?thesis by (rule kernel_atI) (simp_all add: waiting_def)
qed

lemma start_kernel:
  assumes k: "kernel_at s T Q L" and n: "rt_current_thread (t_env s) = None" and s: "on_k rt_system_scheduler_start s = Some s'"
  shows "\<exists>t. kernel_at s' T Q (\<lambda>h. remove1 t (L h))"
proof -
  note ok = kernel_atD(1) [OF k]
  note q = sched_okD(1) [OF ok] and v = sched_okD(2) [OF ok]
  obtain t p e1 where h: "get_highest_priority_thread (t_env s) = Some (t, p)"
      and e1: "rt_schedule_remove_thread t ((t_env s)\<lparr>rt_current_thread := Some t\<rparr>) = Some e1"
      and s': "s' = s\<lparr>t_env := upd_thread t (stat_update (\<lambda>_. 3)) e1\<rparr>"
    using s by (auto simp: on_k_Some rt_system_scheduler_start_def bind_eq_Some_conv)
  have "rt_thread_ready_priority_group (t_env s) \<noteq> 0" using h by (auto simp: get_highest_priority_thread_def rt_ffs_def rt_assert_def)
  then obtain r ts where L: "L (Table r) = t # ts" using highest_first [OF q, of thesis] h by (metis option.inject prod.inject)
  have tT: "t \<in> T" using lists_okD(3) [OF queues_okD(1) [OF q], of t "Table r"] L by simp
  have ts: "thread_stat (t_env s) t = 1" using stats_okD(1) [OF v tT] queues_okD(2) [OF q, of t r] L by simp
  have m: "has_mask (t_env s) t" using stats_okD(6) [OF v tT] ts by simp
  have q0: "queues_ok ((t_env s)\<lparr>rt_current_thread := Some t\<rparr>) T Q L" by (rule queues_ok_cong [OF q]) simp_all
  obtain G K where r: "rt_schedule_remove_thread t ((t_env s)\<lparr>rt_current_thread := Some t\<rparr>) =
      Some ((t_env s)\<lparr>rt_current_thread := Some t\<rparr>\<lparr>k_links := K, rt_thread_ready_priority_group := G\<rparr>)"
    and q1: "queues_ok ((t_env s)\<lparr>rt_current_thread := Some t\<rparr>\<lparr>k_links := K, rt_thread_ready_priority_group := G\<rparr>) T Q (\<lambda>h. remove1 t (L h))"
    using remove_queues [OF q0 tT] m by (metis has_mask_simps(3))
  have e': "t_env s' = upd_thread t (stat_update (\<lambda>_. 3)) ((t_env s)\<lparr>rt_current_thread := Some t, k_links := K, rt_thread_ready_priority_group := G\<rparr>)"
    using e1 r s' by simp
  have st: "thread_stat (t_env s') u = (if u = t then 3 else thread_stat (t_env s) u)" for u by (simp add: e' thread_stat_def)
  have hm: "has_mask (t_env s') u = has_mask (t_env s) u" "prio (t_env s') u = prio (t_env s) u" for u by (simp_all add: e' has_mask_def)
  have nt: "t \<notin> set (remove1 t (L h))" for h using lists_ok_distinct [OF queues_okD(1) [OF q], of h] by simp
  have q2: "queues_ok (t_env s') T Q (\<lambda>h. remove1 t (L h))" by (rule queues_ok_cong [OF q1]) (simp_all add: e')
  have "stats_ok (t_env s') T (\<lambda>h. remove1 t (L h))"
    unfolding stats_ok_def hm
  proof (intro conjI ballI allI impI)
    note d = stats_okD [OF v]
    fix u
    show "thread_stat (t_env s') u = 1 \<longleftrightarrow> u \<in> set (remove1 t (L (Table (prio (t_env s) u))))" if "u \<in> T"
      using d(1) [OF that] nt by (cases "u = t") (simp_all add: st)
    show "thread_stat (t_env s') u = 2" if "u \<in> set (remove1 t (L (Suspended h)))" for h
      using d(2) [of u h] that nt by (cases "u = t") (simp_all add: st)
    show "thread_stat (t_env s') u = 4" if "u \<in> set (remove1 t (L Defunct))"
      using d(3) [of u] that nt by (cases "u = t") (simp_all add: st)
    show "rt_current_thread (t_env s') = Some u" if "u \<in> T" "thread_stat (t_env s') u = 3"
      using d(4) [of u] that n unfolding st by (cases "u = t") (simp_all add: e')
    show "has_mask (t_env s) u" if "u \<in> T" "thread_stat (t_env s') u \<noteq> 0" "thread_stat (t_env s') u \<noteq> 4"
      using d(6) [of u] that m by (cases "u = t") (simp_all add: st)
    assume "rt_current_thread (t_env s') = Some u"
    then have "u = t" by (simp add: e')
    then show "u \<in> T" "thread_stat (t_env s') u \<noteq> 1" "thread_stat (t_env s') u \<noteq> 0" using tT by (simp_all add: st)
  qed
  then have "sched_ok (t_env s') T Q (\<lambda>h. remove1 t (L h))" using q2 by (simp add: sched_ok_def)
  moreover have "waiting (t_env s) T \<subseteq> waiting (t_env s') T"
    using ts by (auto simp: waiting_def st rt_object_get_type_def) (simp add: e')
  ultimately have "kernel_at (s\<lparr>t_env := t_env s'\<rparr>) T Q (\<lambda>h. remove1 t (L h))" by (rule kernel_env [OF k])
  moreover have "s\<lparr>t_env := t_env s'\<rparr> = s'" by (simp add: s')
  ultimately show ?thesis by metis
qed

lemma start_kernel_ok:
  assumes "kernel_ok s T Q B" and "rt_current_thread (t_env s) = None" and "on_k rt_system_scheduler_start s = Some s'"
  shows "kernel_ok s' T Q B"
  using assms(1) start_kernel [OF _ assms(2,3)] kernel_ok_remove1 unfolding kernel_ok_def [of s] by blast

lemma critical_kernel:
  assumes "kernel_at s T Q L"
  shows "kernel_at (s\<lparr>t_env := (t_env s)\<lparr>rt_scheduler_lock_nest := n\<rparr>\<rparr>) T Q L"
proof -
  have "sched_ok ((t_env s)\<lparr>rt_scheduler_lock_nest := n\<rparr>) T Q L" by (rule sched_ok_cong [OF kernel_atD(1) [OF assms]]) simp_all
  then show ?thesis by (rule kernel_env [OF assms]) (simp add: waiting_def)
qed

lemma return_kernel:
  assumes "kernel_at s T Q L"
  shows "kernel_at (snd (sleep_return t s)) T Q L"
proof -
  have "sched_ok (upd_thread t (th_error_update (\<lambda>_. 0)) (t_env s)) T Q L"
    by (rule sched_ok_cong [OF kernel_atD(1) [OF assms]]) (simp_all add: thread_stat_def has_mask_def)
  then have "kernel_at (upd_k (upd_thread t (th_error_update (\<lambda>_. 0))) s) T Q L"
    unfolding upd_k_def by (rule kernel_env [OF assms]) (auto simp: waiting_def thread_stat_def rt_object_get_type_def)
  then show ?thesis using assms by (simp add: sleep_return_def)
qed

lemma tick_kernel_ok:
  assumes "kernel_ok s T Q B" and "sys_tick s = Some s'"
  shows "kernel_ok s' T Q B"
proof -
  obtain L where L: "kernel_at s T Q L" and B: "\<And>q. set (L (Suspended q)) \<subseteq> B q" using assms(1) by (auto simp: kernel_ok_def)
  obtain ts where "ready s ts" "set ts \<subseteq> waiting (t_env s) T" "\<forall>t \<in> set ts. active (t_timers s t)"
    using kernel_atD(2) [OF L] by (auto simp: timers_in_def)
  moreover obtain c where "rt_current_thread (t_env s) = Some c"
    using assms(2) by (auto simp: sys_tick_def rt_tick_increase_def slice_down_def bind_eq_Some_conv Let_def)
  ultimately obtain L' where "kernel_at s' T Q L'" "\<forall>q. set (L' (Suspended q)) \<subseteq> set (L (Suspended q))"
    using sys_tick_ok(2) [OF L _ _ _ _ assms(2)] by blast
  then show ?thesis using B unfolding kernel_ok_def by blast
qed

lemma exit_critical_kernel:
  assumes "kernel_ok s T Q B" and "on_k rt_exit_critical s = Some s'"
  shows "kernel_ok s' T Q B"
proof -
  obtain L where L: "kernel_at s T Q L" and B: "\<And>q. set (L (Suspended q)) \<subseteq> B q" using assms(1) by (auto simp: kernel_ok_def)
  obtain n where "s' = s\<lparr>t_env := (t_env s)\<lparr>rt_scheduler_lock_nest := n\<rparr>\<rparr> \<or> on_k rt_schedule (s\<lparr>t_env := (t_env s)\<lparr>rt_scheduler_lock_nest := n\<rparr>\<rparr>) = Some s'"
    using assms(2) by (auto simp: on_k_def rt_exit_critical_def Let_def bind_eq_Some_conv split: if_splits)
  then show ?thesis
    using kernel_okI [OF critical_kernel [OF L, of n] B] schedule_kernel [of "s\<lparr>t_env := (t_env s)\<lparr>rt_scheduler_lock_nest := n\<rparr>\<rparr>" T Q B s'] by blast
qed

lemma search_kernel:
  assumes "kernel_ok s T Q B" and "object_search s = Some s'"
  shows "kernel_ok s' T Q B"
proof -
  obtain L where "kernel_at s T Q L" "\<And>q. set (L (Suspended q)) \<subseteq> B q" using assms(1) by (auto simp: kernel_ok_def)
  then have "kernel_ok (upd_k rt_enter_critical s) T Q B"
    unfolding upd_k_def rt_enter_critical_def by (intro kernel_okI [OF critical_kernel])
  then show ?thesis using assms(2) unfolding object_search_def by (rule exit_critical_kernel)
qed

text \<open>Every step keeps the kernel consistent.\<close>

lemma thread_op_ok:
  assumes "thread_op T s T' s'" and "kernel_ok s T Q B"
  shows "kernel_ok s' T' Q B"
proof -
  obtain L where L: "kernel_at s T Q L" and B: "\<And>q. set (L (Suspended q)) \<subseteq> B q" using assms(2) by (auto simp: kernel_ok_def)
  from assms(1) show ?thesis
  proof cases
    case (t_init t a n x p k)
    then obtain s1 where s1: "object_search s = Some s1"
        "thread_init t a n x p k (upd_k (upd_thread t (th_type_update (\<lambda>_. RT_Object_Class_Thread OR RT_Object_Class_Static))) s1) = Some s'"
      by (auto simp: rt_thread_init_def bind_eq_Some_conv)
    from search_kernel [OF assms(2) s1(1)] obtain L1 where "kernel_at s1 T Q L1" "\<And>q. set (L1 (Suspended q)) \<subseteq> B q"
      by (auto simp: kernel_ok_def)
    then show ?thesis using t_init(1,2) thread_init_kernel [OF type_kernel _ s1(2)] unfolding kernel_ok_def by blast
  next
    case (t_create t st n x p k r)
    show ?thesis
    proof (cases st)
      case None
      then show ?thesis using t_create type_kernel [OF type_kernel [OF L t_create(2)] t_create(2)] B unfolding kernel_ok_def
        by (auto simp: rt_thread_create_def Let_def)
    next
      case (Some a)
      then show ?thesis using t_create thread_init_kernel [OF type_kernel [OF L t_create(2)] t_create(2)] B unfolding kernel_ok_def
        by (auto simp: rt_thread_create_def Let_def bind_eq_Some_conv) blast
    qed
  next
    case (t_control t cmd rc)
    then show ?thesis using control_kernel_ok [OF assms(2)] by blast
  next
    case (t_enter_critical)
    then show ?thesis using critical_kernel [OF L] B unfolding kernel_ok_def upd_k_def rt_enter_critical_def by blast
  next
    case (t_return t)
    then show ?thesis using return_kernel [OF L] B unfolding kernel_ok_def by blast
  qed (use assms(2) L in \<open>blast intro: startup_kernel_ok suspend_kernel_ok resume_kernel_ok delete_kernel_ok schedule_kernel sleep_kernel_ok
      delay_until_kernel_ok exit_kernel_ok exit_critical_kernel start_kernel_ok tick_kernel_ok\<close>)+
qed

lemma k_reach_ok: "k_reach T s \<Longrightarrow> kernel_ok s T {} (\<lambda>_. {})"
proof (induction rule: k_reach.induct)
  case (boot s)
  then show ?case using boot_kernel [of s] by (intro kernel_okI) simp_all
qed (blast intro: thread_op_ok)

subsection \<open>What every reachable state guarantees\<close>

lemma sched_ready_set:
  assumes ok: "sched_ok s T Q L" and "p < 32"
  shows "set (L (Table p)) = {t \<in> T. thread_stat s t = 1 \<and> prio s t = p}"
  using stats_okD(1) [OF sched_okD(2) [OF ok]] queues_okD(2) [OF sched_okD(1) [OF ok]] lists_okD(3) [OF queues_okD(1) [OF sched_okD(1) [OF ok]]]
  by (auto 4 3)

text \<open>
  C3. The ready table is consistent: in every state that the system can reach from its start, by any sequence of operations on
  threads and ticks of the clock, each ready list is an intact ring of exactly the threads that are ready with
  its priority, the priority group has the bit of a priority exactly when such a thread exists, and only the
  current thread is running.
\<close>

theorem ready_table_consistent:
  assumes "k_reach T s"
  shows "\<exists>R. (\<forall>p < 32. dlist (k_links (t_env s)) (Head (Table p)) (map Tlist (R p)) \<and>
      set (R p) = {t \<in> T. thread_stat (t_env s) t = 1 \<and> prio (t_env s) t = p} \<and>
      (bit (rt_thread_ready_priority_group (t_env s)) p \<longleftrightarrow> R p \<noteq> [])) \<and>
    (\<forall>t \<in> T. thread_stat (t_env s) t = 3 \<longrightarrow> rt_current_thread (t_env s) = Some t)"
proof -
  obtain L where "kernel_at s T {} L" using k_reach_ok [OF assms] by (auto simp: kernel_ok_def)
  then have ok: "sched_ok (t_env s) T {} L" by (rule kernel_atD)
  note q = queues_okD [OF sched_okD(1) [OF ok]]
  show ?thesis
    using sched_ready_set [OF ok] lists_okD(1) [OF q(1)] q(4) stats_okD(4) [OF sched_okD(2) [OF ok]]
    by (intro exI [of _ "\<lambda>p. L (Table p)"]) auto
qed

lemma stays_iff:
  assumes ok: "sched_ok s T Q L" and L: "L (Table p) = t # ts" "\<And>q. q < p \<Longrightarrow> L (Table q) = []"
  shows "stays s c p \<longleftrightarrow> thread_stat s c = 3 \<and>
    (\<forall>u \<in> T. thread_stat s u = 1 \<longrightarrow> prio s c < prio s u \<or> (prio s c = prio s u \<and> stat (threads s c) AND 8 = 0))"
proof -
  note q = queues_okD [OF sched_okD(1) [OF ok]] and v = sched_okD(2) [OF ok]
  have t: "t \<in> T" "thread_stat s t = 1" "prio s t = p"
    using lists_okD(3) [OF q(1), of t "Table p"] q(2) [of t p] L(1) stats_okD(1) [OF v, of t] by auto
  have ge: "p \<le> prio s u" if u: "u \<in> T" "thread_stat s u = 1" for u
  proof (rule ccontr)
    assume "\<not> p \<le> prio s u"
    then have "L (Table (prio s u)) = []" using L(2) by simp
    then show False using stats_okD(1) [OF v u(1)] u(2) by simp
  qed
  show ?thesis
    unfolding stays_def
  proof (intro iffI conjI ballI impI; elim conjE)
    fix u
    assume "prio s c < p \<or> prio s c = p \<and> stat (threads s c) AND 8 = 0" "u \<in> T" "thread_stat s u = 1"
    then show "prio s c < prio s u \<or> prio s c = prio s u \<and> stat (threads s c) AND 8 = 0" using ge [of u] by linarith
  next
    assume "\<forall>u \<in> T. thread_stat s u = 1 \<longrightarrow> prio s c < prio s u \<or> prio s c = prio s u \<and> stat (threads s c) AND 8 = 0"
    then show "prio s c < p \<or> prio s c = p \<and> stat (threads s c) AND 8 = 0" using t by blast
  qed
qed

lemma schedule_decides:
  assumes ok: "sched_ok s T Q L" and "rt_current_thread s = Some c" and "rt_scheduler_lock_nest s = 0" and "stacks_ok s T"
    and "u \<in> T" and "can_run s u"
  shows "\<exists>e d. rt_schedule s = Some e \<and> rt_current_thread e = Some d \<and> d \<in> T \<and> thread_stat e d = 3 \<and>
    (\<forall>v \<in> T. thread_stat e v = 1 \<longrightarrow> prio e d \<le> prio e v) \<and>
    (d = c \<longleftrightarrow> thread_stat s c = 3 \<and> (\<forall>v \<in> T. thread_stat s v = 1 \<longrightarrow> prio s c < prio s v \<or>
      (prio s c = prio s v \<and> stat (threads s c) AND 8 = 0)))"
proof -
  note q = queues_okD [OF sched_okD(1) [OF ok]] and v = sched_okD(2) [OF ok]
  have cT: "c \<in> T" using stats_okD(5) [OF v assms(2)] by simp
  from ok assms(2) show ?thesis
  proof (cases rule: rt_schedule_cases)
    case idle
    then have none: "thread_stat s w \<noteq> 1" if "w \<in> T" for w using assms(3) stats_okD(1) [OF v that] by auto
    have "thread_stat s c = 3" using assms(5,6) none stats_okD(4) [OF v assms(5)] assms(2) by (auto simp: can_run_def)
    then show ?thesis using idle(2) assms(2) none cT by auto
  next
    case (stay p t ts)
    then show ?thesis using stays_iff [OF ok stay(1,2)] assms(2) cT by (auto simp: less_imp_le)
  next
    case (overflow p t ts)
    then show ?thesis using assms(4) lists_okD(3) [OF q(1), of t "Table p"] by (auto simp: stacks_ok_def)
  next
    case (switch p t ts K G)
    let ?s = "s\<lparr>k_links := K, threads := switched c t s, rt_thread_ready_priority_group := G, rt_current_thread := Some t,
      rt_current_priority := of_nat p\<rparr>"
    let ?L = "\<lambda>h. remove1 t (requeue c s L h)"
    note q' = queues_okD [OF sched_okD(1) [OF switch(6)]] and v' = sched_okD(2) [OF switch(6)]
    have tp: "prio s t = p" "t \<in> T" "thread_stat s t = 1"
      using q(2) [of t p] switch(1) lists_okD(3) [OF q(1), of t "Table p"] stats_okD(1) [OF v, of t] by auto
    have "prio s t \<le> prio s w" if w: "w \<in> T" "thread_stat ?s w = 1" for w
    proof (rule ccontr)
      assume less: "\<not> prio s t \<le> prio s w"
      have "w \<in> set (?L (Table (prio s w)))" using stats_okD(1) [OF v' w(1)] w(2) by simp
      then have "w \<in> set (requeue c s L (Table (prio s w)))" by (meson notin_set_remove1)
      then have "w \<in> set (L (Table (prio s w))) \<or> w = c \<and> thread_stat s c = 3" by (auto simp: requeue_def split: if_splits)
      then show False using switch(2) [of "prio s w"] less tp(1) switch(3) by (auto simp: stays_def)
    qed
    moreover have "thread_stat ?s t = 3" by (simp add: stat_switched [OF switch(4)])
    moreover have "\<not> (thread_stat s c = 3 \<and> (\<forall>w \<in> T. thread_stat s w = 1 \<longrightarrow> prio s c < prio s w \<or>
        (prio s c = prio s w \<and> stat (threads s c) AND 8 = 0)))"
      using stays_iff [OF ok switch(1,2)] switch(3) by simp
    ultimately show ?thesis using switch(4,5) tp(2) by (intro exI [of _ ?s] exI [of _ t]) simp
  qed
qed

text \<open>
  C8. The scheduler runs a thread of the highest priority: in every reachable state in which the scheduler is not locked, no stack has
  overflowed and some thread can run, \<open>rt_schedule\<close> comes to a decision after which the current thread is
  running and no ready thread has a higher priority (a smaller number). The thread that was running goes on if and
  only if every ready thread has a lower priority, or the same one while its time slice is not used
  up.
\<close>

theorem rt_schedule_runs_highest:
  assumes "k_reach T s" and "rt_current_thread (t_env s) = Some c" and "rt_scheduler_lock_nest (t_env s) = 0" and "stacks_ok (t_env s) T"
    and "u \<in> T" and "can_run (t_env s) u"
  shows "\<exists>e d. rt_schedule (t_env s) = Some e \<and> rt_current_thread e = Some d \<and> d \<in> T \<and> thread_stat e d = 3 \<and>
    (\<forall>v \<in> T. thread_stat e v = 1 \<longrightarrow> prio e d \<le> prio e v) \<and>
    (d = c \<longleftrightarrow> thread_stat (t_env s) c = 3 \<and> (\<forall>v \<in> T. thread_stat (t_env s) v = 1 \<longrightarrow> prio (t_env s) c < prio (t_env s) v \<or>
      (prio (t_env s) c = prio (t_env s) v \<and> stat (threads (t_env s) c) AND 8 = 0)))"
proof -
  obtain L where "kernel_at s T {} L" using k_reach_ok [OF assms(1)] by (auto simp: kernel_ok_def)
  then show ?thesis using schedule_decides [OF kernel_atD(1) assms(2-6)] by blast
qed

text \<open>
  Yielding does not yield: \<open>rt_thread_yield\<close> only calls \<open>rt_schedule\<close>, which keeps the running thread as long as the flag
  of an expired time slice is not set. So a thread that yields goes on running although a thread of the same
  priority is ready, and nothing changes.
\<close>

lemma rt_thread_yield_keeps_running:
  assumes "k_reach T s" and "rt_current_thread (t_env s) = Some c" and "thread_stat (t_env s) c = 3" and "stat (threads (t_env s) c) AND 8 = 0"
    and "\<forall>u \<in> T. thread_stat (t_env s) u = 1 \<longrightarrow> prio (t_env s) c \<le> prio (t_env s) u"
  shows "rt_thread_yield (t_env s) = Some (t_env s)"
proof -
  obtain L where "kernel_at s T {} L" using k_reach_ok [OF assms(1)] by (auto simp: kernel_ok_def)
  then have ok: "sched_ok (t_env s) T {} L" by (rule kernel_atD)
  have st: "stays (t_env s) c p" if "L (Table p) = t # ts" "\<And>q. q < p \<Longrightarrow> L (Table q) = []" for p t ts
    using stays_iff [OF ok that] assms(3-5) by (metis le_neq_implies_less)
  have "rt_schedule (t_env s) = Some (t_env s)" if "L (Table p) = t # ts" "p < 32" "\<And>q. q < p \<Longrightarrow> L (Table q) = []"
    "get_highest_priority_thread (t_env s) = Some (t, of_nat p)" for p t ts
    using schedule_stay [OF ok assms(2) that(4,2) st [OF that(1,3)]] by simp
  then show ?thesis
    using highest_first [OF sched_okD(1) [OF ok], of thesis] unfolding rt_thread_yield_def
    by (cases "rt_thread_ready_priority_group (t_env s) = 0") (simp add: rt_schedule_def, metis highest_first [OF sched_okD(1) [OF ok]])
qed

subsection \<open>Sleeping\<close>

fun sys_ticks :: "nat \<Rightarrow> kernel \<Rightarrow> kernel option" where
  "sys_ticks 0 s = Some s"
| "sys_ticks (Suc k) s = do { s \<leftarrow> sys_ticks k s; sys_tick s }"

text \<open>What is true \<open>k\<close> ticks after the thread \<open>c\<close> went to sleep for \<open>n\<close> ticks.\<close>

definition asleep :: "nat set \<Rightarrow> nat set \<Rightarrow> nat \<Rightarrow> nat \<Rightarrow> nat \<Rightarrow> kernel \<Rightarrow> bool" where
  "asleep T Q c n k s \<longleftrightarrow> (\<exists>L ts. kernel_at s T Q L \<and> ready s ts \<and> set ts \<subseteq> waiting (t_env s) T \<and> (\<forall>t \<in> set ts. active (t_timers s t)) \<and>
     (\<exists>d. rt_current_thread (t_env s) = Some d) \<and> stacks_ok (t_env s) T \<and>
     (if k < max 1 n then c \<in> set ts \<and> left s c = int n - int k
      else can_run (t_env s) c \<and> th_error (thread_of c s) = - RT_ETIMEOUT))"

lemma asleep_tick:
  assumes "asleep T Q c n k s"
  shows "\<exists>s'. sys_tick s = Some s' \<and> asleep T Q c n (Suc k) s'"
proof -
  obtain L ts d where a: "kernel_at s T Q L" "ready s ts" "set ts \<subseteq> waiting (t_env s) T" "\<forall>t \<in> set ts. active (t_timers s t)"
      "rt_current_thread (t_env s) = Some d" "stacks_ok (t_env s) T"
    and c: "if k < max 1 n then c \<in> set ts \<and> left s c = int n - int k else can_run (t_env s) c \<and> th_error (thread_of c s) = - RT_ETIMEOUT"
    using assms by (auto simp: asleep_def)
  obtain s' where s': "sys_tick s = Some s'" using sys_tick_ok(1) [OF a] by blast
  obtain L' ts' where b: "kernel_at s' T Q L'" "ready s' ts'" "set ts' \<subseteq> waiting (t_env s') T" "\<forall>t \<in> set ts'. active (t_timers s' t)"
      "\<exists>d. rt_current_thread (t_env s') = Some d"
    and ts': "set ts' = {t \<in> set ts. 1 < left s t}" "\<forall>t \<in> set ts'. left s' t = left s t - 1"
    and to: "timeouts T {t \<in> set ts. left s t \<le> 1} (t_env s) (t_env s')"
    using sys_tick_ok(2) [OF a(1-5) s'] by blast
  have st: "stacks_ok (t_env s') T" using a(6) to by (simp add: stacks_ok_def timeouts_def)
  have "if Suc k < max 1 n then c \<in> set ts' \<and> left s' c = int n - int (Suc k)
      else can_run (t_env s') c \<and> th_error (thread_of c s') = - RT_ETIMEOUT"
  proof (cases "k < max 1 n")
    case True
    show ?thesis
    proof (cases "Suc k < max 1 n")
      case True
      then show ?thesis using c ts' by auto
    next
      case False
      then have "c \<in> {t \<in> set ts. left s t \<le> 1}" using c True by auto
      then show ?thesis using to False unfolding timeouts_def by auto
    qed
  next
    case False
    then have r: "can_run (t_env s) c" "th_error (thread_of c s) = - RT_ETIMEOUT" using c by simp_all
    then have "c \<notin> set ts" using a(3) by (auto simp: waiting_def can_run_def)
    then show ?thesis using False r to by (simp add: timeouts_def)
  qed
  then show ?thesis using s' b st unfolding asleep_def by blast
qed

text \<open>A thread that waits with its timer running, when the scheduler has been called.\<close>

lemma wait_then_ticks:
  assumes k: "kernel_at s0 T Q L" and c: "rt_current_thread (t_env s0) = Some c" and st: "stacks_ok (t_env s0) T"
    and ts: "ready s0 ts" "set ts \<subseteq> waiting (t_env s0) T" "\<forall>u \<in> set ts. active (t_timers s0 u)" "t \<in> set ts" "left s0 t = uint n"
  shows "\<exists>s1. on_k rt_schedule s0 = Some s1 \<and> rt_tick s1 = rt_tick s0 \<and> (\<forall>k. \<exists>s'. sys_ticks k s1 = Some s' \<and> asleep T Q t (unat n) k s')"
proof -
  note ok0 = kernel_atD(1) [OF k]
  obtain e1 where e1: "rt_schedule (t_env s0) = Some e1" using rt_schedule_total(1) [OF ok0 c st] by blast
  let ?s1 = "s0\<lparr>t_env := e1\<rparr>"
  note os = rt_schedule_only_stat [OF ok0 e1]
  obtain L1 where L1: "sched_ok e1 T Q L1" using rt_schedule_ok [OF ok0 e1] by blast
  have "kernel_at ?s1 T Q L1" using kernel_env [OF k L1] only_stat_waiting [OF os] by simp
  moreover have "ready ?s1 ts" using ts(1) by (simp add: ready_def timers_ok_def periods_ok_def left_def [abs_def])
  moreover have "left ?s1 t = int (unat n)" using ts(5) by (simp add: left_def)
  moreover have "stacks_ok e1 T" using st only_statD(5) [OF os] by (simp add: stacks_ok_def)
  moreover have "\<exists>d. rt_current_thread e1 = Some d" by (rule rt_schedule_total(2) [OF ok0 c e1])
  ultimately have a0: "asleep T Q t (unat n) 0 ?s1"
    using ts only_stat_waiting [OF os] unfolding asleep_def by (intro exI [of _ L1] exI [of _ ts]) simp
  have "\<exists>s'. sys_ticks k ?s1 = Some s' \<and> asleep T Q t (unat n) k s'" for k
  proof (induction k)
    case (Suc k)
    then obtain s' where "sys_ticks k ?s1 = Some s'" "asleep T Q t (unat n) k s'" by blast
    then show ?case using asleep_tick by fastforce
  qed (use a0 in simp)
  then show ?thesis using e1 by (simp add: on_k_def)
qed

lemma sleep_then_ticks:
  assumes k: "kernel_at s T Q L" and c: "rt_current_thread (t_env s) = Some c" "thread_stat (t_env s) c = 3" and "is_thread c s"
    and st: "stacks_ok (t_env s) T" and n: "n < 0x7FFFFFFF"
  shows "\<exists>s1. rt_thread_sleep n s = Some s1 \<and> rt_tick s1 = rt_tick s \<and> (\<forall>k. \<exists>s'. sys_ticks k s1 = Some s' \<and> asleep T Q c (unat n) k s')"
proof -
  have cT: "c \<in> T" "can_run (t_env s) c"
    using stats_okD(5) [OF sched_okD(2) [OF kernel_atD(1) [OF k]] c(1)] c(2) by (simp_all add: can_run_def)
  obtain s0 where s0: "sleep_for c n s = Some s0" using sleep_for_total [OF k c assms(4) n] by blast
  note f = sleep_for_kernel [OF k cT s0]
  obtain ts where ts: "ready s0 ts" "set ts \<subseteq> waiting (t_env s0) T" "\<forall>u \<in> set ts. active (t_timers s0 u)" "c \<in> set ts" "left s0 c = uint n"
    using f(3) by blast
  obtain K G where e: "t_env s0 = (set_stat 2 c (t_env s))\<lparr>k_links := K, rt_thread_ready_priority_group := G\<rparr>" using f(2) by blast
  have c0: "rt_current_thread (t_env s0) = Some c" using e c(1) by simp
  have st0: "stacks_ok (t_env s0) T" using st by (auto simp: stacks_ok_def e rt_scheduler_stack_check_def set_stat_def)
  show ?thesis
    using wait_then_ticks [OF f(1) c0 st0 ts] c(1) assms(4) s0 f(4) by (auto simp: rt_thread_sleep_def rt_assert_def)
qed

text \<open>
  C6. A thread sleeps as long as it asked for: in every reachable state, \<open>rt_thread_sleep\<close> of the running thread for \<open>n\<close> ticks (below 2 to the
  31 minus 1) suspends it, and under ticks of the clock alone it is suspended for \<open>n\<close> ticks (for one if
  \<open>n\<close> is 0) and can run from then on, with the timeout as its error, also when the tick wraps around; the
  interrupt of the clock always ends.
\<close>

theorem thread_sleeps_as_told:
  assumes "k_reach T s" and "rt_current_thread (t_env s) = Some c" and "thread_stat (t_env s) c = 3" and "is_thread c s"
    and "stacks_ok (t_env s) T" and "n < 0x7FFFFFFF"
  shows "\<exists>s1 s'. rt_thread_sleep n s = Some s1 \<and> sys_ticks k s1 = Some s' \<and>
    (if k < max 1 (unat n) then thread_stat (t_env s') c = 2 else can_run (t_env s') c \<and> th_error (thread_of c s') = - RT_ETIMEOUT)"
proof -
  obtain L where L: "kernel_at s T {} L" using k_reach_ok [OF assms(1)] by (auto simp: kernel_ok_def)
  obtain s1 s' where s': "rt_thread_sleep n s = Some s1" "sys_ticks k s1 = Some s'" "asleep T {} c (unat n) k s'"
    using sleep_then_ticks [OF L assms(2-6)] by blast
  then show ?thesis by (auto simp: asleep_def waiting_def split: if_splits)
qed

text \<open>
  C39. \<open>rt_thread_delay_until\<close> oversleeps: a thread that calls it \<open>d\<close> ticks after its last wake-up, to be woken \<open>inc\<close> ticks after that wake-up,
  should sleep for \<open>inc - d\<close> ticks. The code adds the time that has passed instead of subtracting it: the thread
  sleeps for \<open>inc + d\<close> ticks, so it is still suspended at the tick that it asked for and wakes up \<open>2 * d\<close>
  ticks later.
\<close>

theorem delay_until_oversleeps:
  assumes "k_reach T s" and "rt_current_thread (t_env s) = Some c" and "thread_stat (t_env s) c = 3" and "is_thread c s"
    and "stacks_ok (t_env s) T" and "d = rt_tick s - tick" and "0 < d" and "d < inc" and "unat d + unat inc < 0x7FFFFFFF"
  shows "\<exists>s1 s2 s3. rt_thread_delay_until tick inc s = Some (True, d + inc, s1) \<and>
    sys_ticks (unat inc - unat d) s1 = Some s2 \<and> thread_stat (t_env s2) c = 2 \<and>
    sys_ticks (unat inc + unat d - 1) s1 = Some s3 \<and> thread_stat (t_env s3) c = 2 \<and>
    (\<exists>s4. sys_ticks (unat inc + unat d) s1 = Some s4 \<and> can_run (t_env s4) c)"
proof -
  obtain L where L: "kernel_at s T {} L" using k_reach_ok [OF assms(1)] by (auto simp: kernel_ok_def)
  have u: "unat (d + inc) = unat inc + unat d" using assms(9) by (subst unat_word_ariths) simp
  have d: "0 < unat d" "unat d < unat inc" using assms(7,8) by (simp_all add: word_less_nat_alt)
  have "d + inc < 0x7FFFFFFF" using u assms(9) by (simp add: word_less_nat_alt)
  from sleep_then_ticks [OF L assms(2-5) this] obtain s1 where s1: "rt_thread_sleep (d + inc) s = Some s1"
      "\<And>k. \<exists>s'. sys_ticks k s1 = Some s' \<and> asleep T {} c (unat inc + unat d) k s'" unfolding u by blast
  have w: "thread_stat (t_env s') c = 2" if "asleep T {} c (unat inc + unat d) k s'" "k < unat inc + unat d" for k s'
    using that by (auto simp: asleep_def waiting_def split: if_splits)
  have r: "can_run (t_env s') c" if "asleep T {} c (unat inc + unat d) (unat inc + unat d) s'" for s'
    using that d by (auto simp: asleep_def split: if_splits)
  have "rt_thread_delay_until tick inc s = Some (True, d + inc, s1)"
    using s1(1) assms(2,6,8) by (auto simp: rt_thread_delay_until_def rt_thread_sleep_def bind_eq_Some_conv Let_def)
  moreover have "unat inc - unat d < unat inc + unat d" "unat inc + unat d - 1 < unat inc + unat d" using d by simp_all
  ultimately show ?thesis
    using s1(2) [of "unat inc - unat d"] s1(2) [of "unat inc + unat d - 1"] s1(2) [of "unat inc + unat d"] w r by metis
qed

subsection \<open>A system with two threads\<close>

definition kernel0 :: kernel where
  "kernel0 = \<lparr>t_links = (\<lambda>p. \<lparr>l_next = p, l_prev = p\<rparr>), t_timers = (\<lambda>t. \<lparr>t_flag = 0, init_tick = 0, timeout_tick = 0\<rparr>),
     rt_tick = 0xFFFFFFF0, random_nr = 0,
     t_env = \<lparr>k_links = (\<lambda>p. \<lparr>l_next = p, l_prev = p\<rparr>),
       threads = (\<lambda>t. \<lparr>th_type = 0, sp = 0, stack_addr = 0, stack_size = 0, stack_mark = 0, th_error = 0, stat = 0,
         current_priority = 0, init_priority = 0, number_mask = 0, slice_tick = 0, remaining_tick = 0, cleanup = False\<rparr>),
       rt_thread_ready_priority_group = 0, rt_scheduler_lock_nest = 0, rt_current_thread = None, rt_current_priority = 0\<rparr>\<rparr>"

lemma kernel0_boot: "rt_system_timer_init (upd_k rt_system_scheduler_init kernel0) = kernel0"
proof -
  have i: "rt_list_init h (\<lambda>p. \<lparr>l_next = p, l_prev = p\<rparr>) = (\<lambda>p. \<lparr>l_next = p, l_prev = p\<rparr>)" for h :: 'p
    by (simp add: rt_list_init_def set_next_def set_prev_def fun_eq_iff)
  have "fold (\<lambda>p. rt_list_init (Head (Table p))) ps (\<lambda>p. \<lparr>l_next = p, l_prev = p\<rparr>) = (\<lambda>p. \<lparr>l_next = p, l_prev = p\<rparr>)" for ps
    by (induction ps) (simp_all add: i)
  then show ?thesis
    by (simp add: rt_system_timer_init_def upd_k_def rt_system_scheduler_init_def kernel0_def Let_def i)
qed

lemma start_first:
  assumes k: "kernel_at s T Q L" and "rt_current_thread (t_env s) = None" and L: "L (Table p) = t # ts" "\<And>q. q < p \<Longrightarrow> L (Table q) = []"
  obtains K G where "on_k rt_system_scheduler_start s = Some (s\<lparr>t_env := (t_env s)\<lparr>k_links := K,
    threads := (threads (t_env s))(t := (thread_of t s)\<lparr>stat := 3\<rparr>), rt_thread_ready_priority_group := G, rt_current_thread := Some t\<rparr>\<rparr>)"
proof -
  note ok = kernel_atD(1) [OF k]
  note q = sched_okD(1) [OF ok]
  have "rt_thread_ready_priority_group (t_env s) \<noteq> 0" using group_zero [OF q] L(1) by force
  then obtain r u us where h: "L (Table r) = u # us" "\<And>q. q < r \<Longrightarrow> L (Table q) = []" "get_highest_priority_thread (t_env s) = Some (u, of_nat r)"
    by (rule highest_first [OF q]) blast
  have "r = p" using h(1) L(1) L(2) [of r] h(2) [of p] by (metis list.distinct(1) linorder_neqE_nat)
  then have t: "u = t" using h(1) L(1) by simp
  have tT: "t \<in> T" using lists_okD(3) [OF queues_okD(1) [OF q], of t "Table p"] L(1) by simp
  have "thread_stat (t_env s) t = 1"
    using stats_okD(1) [OF sched_okD(2) [OF ok] tT] queues_okD(2) [OF q, of t p] L(1) by simp
  then have m: "has_mask ((t_env s)\<lparr>rt_current_thread := Some t\<rparr>) t" using stats_okD(6) [OF sched_okD(2) [OF ok] tT] by simp
  have q0: "queues_ok ((t_env s)\<lparr>rt_current_thread := Some t\<rparr>) T Q L" by (rule queues_ok_cong [OF q]) simp_all
  obtain G K where "rt_schedule_remove_thread t ((t_env s)\<lparr>rt_current_thread := Some t\<rparr>) =
      Some ((t_env s)\<lparr>rt_current_thread := Some t\<rparr>\<lparr>k_links := K, rt_thread_ready_priority_group := G\<rparr>)"
    by (rule remove_queues [OF q0 tT m])
  then have "on_k rt_system_scheduler_start s = Some (s\<lparr>t_env := (t_env s)\<lparr>k_links := K,
    threads := (threads (t_env s))(t := (thread_of t s)\<lparr>stat := 3\<rparr>), rt_thread_ready_priority_group := G, rt_current_thread := Some t\<rparr>\<rparr>)"
    using h(3) t by (cases "t_env s") (simp add: on_k_def rt_system_scheduler_start_def upd_thread_def)
  then show thesis by (rule that)
qed

text \<open>Two threads of the same priority are started, and then the scheduler: the first one runs.\<close>

definition new_thread :: "u32 \<Rightarrow> rt_thread" where
  "new_thread stack = \<lparr>th_type = 0x81, sp = stack + 0x200, stack_addr = stack, stack_size = 0x400, stack_mark = 0x23, th_error = 0, stat = 0,
     current_priority = 10, init_priority = 10, number_mask = 0, slice_tick = 5, remaining_tick = 5, cleanup = False\<rparr>"

definition started_thread :: "u8 \<Rightarrow> u32 \<Rightarrow> rt_thread" where
  "started_thread st stack = (new_thread stack)\<lparr>number_mask := 0x400, stat := st\<rparr>"

lemma search_before_start: "rt_current_thread (t_env s) = None \<Longrightarrow> rt_scheduler_lock_nest (t_env s) = 0 \<Longrightarrow> object_search s = Some s"
  by (simp add: object_search_def on_k_def upd_k_def rt_enter_critical_def rt_exit_critical_def)

lemma init_total:
  assumes "rt_current_thread (t_env s) = None" and "rt_scheduler_lock_nest (t_env s) = 0"
  obtains s' where "rt_thread_init t stack 0x400 (stack + 0x200) 10 5 s = Some s'" and "rt_tick s' = rt_tick s"
    and "threads (t_env s') = (threads (t_env s))(t := new_thread stack)" and "rt_current_thread (t_env s') = rt_current_thread (t_env s)"
    and "rt_scheduler_lock_nest (t_env s') = rt_scheduler_lock_nest (t_env s)"
  using search_before_start [OF assms]
  by (cases "thread_of t s") (auto simp: rt_thread_init_def thread_init_def Let_def rt_assert_def upd_k_def upd_thread_def new_thread_def timer_init_def upd_timer_def)

lemma two_threads:
  obtains s where "k_reach {6, 5} s" and "rt_current_thread (t_env s) = Some 5" and "rt_scheduler_lock_nest (t_env s) = 0" and "rt_tick s = 0xFFFFFFF0"
    and "thread_of 5 s = started_thread 3 0x1000" and "thread_of 6 s = started_thread 1 0x2000"
proof -
  have b: "dlist (t_links kernel0) (Row t) []" for t by (simp add: kernel0_def dlist_def)
  have n: "rt_current_thread (t_env kernel0) = None" "rt_scheduler_lock_nest (t_env kernel0) = 0" "rt_tick kernel0 = 0xFFFFFFF0"
    by (simp_all add: kernel0_def)
  have r0: "k_reach {} kernel0" using k_reach.boot [of kernel0] b n kernel0_boot by simp
  have k0: "kernel_at kernel0 {} {} (\<lambda>_. [])" using boot_kernel [of kernel0] b n kernel0_boot by simp
  obtain s1 where s1: "rt_thread_init 5 0x1000 0x400 0x1200 10 5 kernel0 = Some s1" "rt_tick s1 = rt_tick kernel0"
      "threads (t_env s1) = (threads (t_env kernel0))(5 := new_thread 0x1000)" "rt_current_thread (t_env s1) = rt_current_thread (t_env kernel0)"
      "rt_scheduler_lock_nest (t_env s1) = rt_scheduler_lock_nest (t_env kernel0)"
    using init_total [of kernel0 5 "0x1000"] n by auto
  have r1: "k_reach {5} s1" using k_reach.step [OF r0 t_init [OF _ s1(1)]] by simp
  have k1: "kernel_at s1 {5} {} (\<lambda>_. [])"
    using thread_init_kernel [OF type_kernel [OF k0]] s1(1) search_before_start n by (auto simp: rt_thread_init_def)
  have th1: "thread_stat (t_env s1) 5 = 0" "is_thread 5 s1" "init_priority (thread_of 5 s1) = 10"
    by (simp_all add: thread_stat_def s1(3) new_thread_def is_thread_def rt_object_get_type_def)
  obtain s2 where s2: "rt_thread_startup 5 s1 = Some (0, s2)" "kernel_at s2 {5} {} ((\<lambda>_. [])(Table 10 := [5]))"
      "threads (t_env s2) = (threads (t_env s1))(5 := (thread_of 5 s1)\<lparr>current_priority := 10, number_mask := push_bit 10 1, stat := 1\<rparr>)"
      "rt_current_thread (t_env s2) = None" "rt_scheduler_lock_nest (t_env s2) = rt_scheduler_lock_nest (t_env s1)" "rt_tick s2 = rt_tick s1"
    by (rule startup_before_start [OF k1 _ th1(1,2)]) (use th1(3) s1(4) n in \<open>simp_all\<close>)
  have r2: "k_reach {5} s2" using k_reach.step [OF r1 t_startup [OF _ s2(1)]] by simp
  obtain s3 where s3: "rt_thread_init 6 0x2000 0x400 0x2200 10 5 s2 = Some s3" "rt_tick s3 = rt_tick s2"
      "threads (t_env s3) = (threads (t_env s2))(6 := new_thread 0x2000)" "rt_current_thread (t_env s3) = rt_current_thread (t_env s2)"
      "rt_scheduler_lock_nest (t_env s3) = rt_scheduler_lock_nest (t_env s2)"
    using init_total [of s2 6 "0x2000"] s2 s1 n by auto
  have r3: "k_reach {6, 5} s3" using k_reach.step [OF r2 t_init [OF _ s3(1)]] by simp
  have k3: "kernel_at s3 {6, 5} {} ((\<lambda>_. [])(Table 10 := [5]))"
    using thread_init_kernel [OF type_kernel [OF s2(2), of 6]] s3(1) search_before_start s2(4,5) s1(5) n by (auto simp: rt_thread_init_def)
  have th3: "thread_stat (t_env s3) 6 = 0" "is_thread 6 s3" "init_priority (thread_of 6 s3) = 10"
    by (simp_all add: thread_stat_def s3(3) new_thread_def is_thread_def rt_object_get_type_def)
  obtain s4 where s4: "rt_thread_startup 6 s3 = Some (0, s4)" "kernel_at s4 {6, 5} {} ((\<lambda>_. [])(Table 10 := [5, 6]))"
      "threads (t_env s4) = (threads (t_env s3))(6 := (thread_of 6 s3)\<lparr>current_priority := 10, number_mask := push_bit 10 1, stat := 1\<rparr>)"
      "rt_current_thread (t_env s4) = None" "rt_scheduler_lock_nest (t_env s4) = rt_scheduler_lock_nest (t_env s3)" "rt_tick s4 = rt_tick s3"
    by (rule startup_before_start [OF k3 _ th3(1,2)]) (use th3(3) s3(4) s2(4) in \<open>simp_all\<close>)
  have r4: "k_reach {6, 5} s4" using k_reach.step [OF r3 t_startup [OF _ s4(1)]] by simp
  obtain G K where s5: "on_k rt_system_scheduler_start s4 = Some (s4\<lparr>t_env := (t_env s4)\<lparr>k_links := K,
      threads := (threads (t_env s4))(5 := (thread_of 5 s4)\<lparr>stat := 3\<rparr>), rt_thread_ready_priority_group := G, rt_current_thread := Some 5\<rparr>\<rparr>)"
    by (rule start_first [OF s4(2,4), of 10 5 "[6]"]) simp_all
  show thesis
    by (rule that [OF k_reach.step [OF r4 t_start [OF s4(4) s5]]])
      (use n s1 s2 s3 s4 in \<open>simp_all add: started_thread_def new_thread_def\<close>)
qed

lemma started_thread_facts:
  assumes "thread_of t s = started_thread st stack"
  shows "thread_stat (t_env s) t = st AND 7" "prio (t_env s) t = 10" "stat (thread_of t s) = st" "is_thread t s"
  using assms by (simp_all add: thread_stat_def started_thread_def new_thread_def is_thread_def rt_object_get_type_def)

lemma two_stacks:
  assumes "thread_of 5 s = started_thread a 0x1000" and "thread_of 6 s = started_thread b 0x2000"
  shows "stacks_ok (t_env s) {6, 5}"
  using assms by (simp add: stacks_ok_def rt_scheduler_stack_check_def rt_assert_def started_thread_def new_thread_def)

theorem ready_table_consistent_witness:
  "\<exists>(s :: kernel) R. dlist (k_links (t_env s)) (Head (Table 10)) (map Tlist R) \<and> set R = {6} \<and> bit (rt_thread_ready_priority_group (t_env s)) 10"
proof -
  obtain s where s: "k_reach {6, 5} s" "thread_of 5 s = started_thread 3 0x1000" "thread_of 6 s = started_thread 1 0x2000"
    by (rule two_threads)
  obtain R where "\<forall>p < 32. dlist (k_links (t_env s)) (Head (Table p)) (map Tlist (R p)) \<and>
      set (R p) = {t \<in> {6, 5}. thread_stat (t_env s) t = 1 \<and> prio (t_env s) t = p} \<and>
      (bit (rt_thread_ready_priority_group (t_env s)) p \<longleftrightarrow> R p \<noteq> [])"
    using ready_table_consistent [OF s(1)] by blast
  from this [rule_format, of 10] have R: "dlist (k_links (t_env s)) (Head (Table 10)) (map Tlist (R 10))"
      "set (R 10) = {t \<in> {6, 5}. thread_stat (t_env s) t = 1 \<and> prio (t_env s) t = 10}"
      "bit (rt_thread_ready_priority_group (t_env s)) 10 \<longleftrightarrow> R 10 \<noteq> []" by simp_all
  have "set (R 10) = {6}" using R(2) started_thread_facts [OF s(2)] started_thread_facts [OF s(3)] by auto
  moreover from this have "R 10 \<noteq> []" by auto
  ultimately show ?thesis using R by blast
qed

theorem rt_schedule_runs_highest_witness:
  "\<exists>(s :: kernel) e. rt_schedule (t_env s) = Some e \<and> rt_current_thread e = Some 5 \<and> thread_stat e 5 = 3 \<and> thread_stat (t_env s) 6 = 1"
proof -
  obtain s where s: "k_reach {6, 5} s" "rt_current_thread (t_env s) = Some 5" "rt_scheduler_lock_nest (t_env s) = 0"
      "thread_of 5 s = started_thread 3 0x1000" "thread_of 6 s = started_thread 1 0x2000"
    by (rule two_threads)
  note f = started_thread_facts [OF s(4)] started_thread_facts [OF s(5)]
  have "can_run (t_env s) 5" using f by (simp add: can_run_def)
  from rt_schedule_runs_highest [OF s(1-3) two_stacks [OF s(4,5)] _ this] obtain e d where
    e: "rt_schedule (t_env s) = Some e" "rt_current_thread e = Some d" "thread_stat e d = 3"
      "d = 5 \<longleftrightarrow> thread_stat (t_env s) 5 = 3 \<and> (\<forall>v \<in> {6, 5}. thread_stat (t_env s) v = 1 \<longrightarrow> prio (t_env s) 5 < prio (t_env s) v \<or>
        (prio (t_env s) 5 = prio (t_env s) v \<and> stat (threads (t_env s) 5) AND 8 = 0))" by auto
  have "d = 5" using e(4) f by simp
  then show ?thesis using e f by (intro exI [of _ s] exI [of _ e]) simp
qed

text \<open>Twenty ticks across the wrap-around of the tick.\<close>

theorem thread_sleeps_as_told_witness:
  "\<exists>s s1 s'. rt_tick s = 0xFFFFFFF0 \<and> rt_thread_sleep 20 s = Some s1 \<and> sys_ticks 19 s1 = Some s' \<and> thread_stat (t_env s') 5 = 2"
proof -
  obtain s where s: "k_reach {6, 5} s" "rt_current_thread (t_env s) = Some 5" "rt_tick s = 0xFFFFFFF0"
      "thread_of 5 s = started_thread 3 0x1000" "thread_of 6 s = started_thread 1 0x2000"
    by (rule two_threads)
  note f = started_thread_facts [OF s(4)]
  have "thread_stat (t_env s) 5 = 3" "is_thread 5 s" "(20 :: u32) < 0x7FFFFFFF" using f by simp_all
  from thread_sleeps_as_told [OF s(1,2) this(1,2) two_stacks [OF s(4,5)] this(3), of 19] s(3) show ?thesis by auto
qed

text \<open>The last wake-up was 4 ticks ago and the next one is to be 10 ticks after it: the thread wakes up 14 ticks from now, not 6.\<close>

theorem delay_until_oversleeps_witness:
  "\<exists>s s1 s2. rt_tick s = 0xFFFFFFF0 \<and> rt_thread_delay_until 0xFFFFFFEC 10 s = Some (True, 14, s1) \<and>
    sys_ticks 6 s1 = Some s2 \<and> thread_stat (t_env s2) 5 = 2"
proof -
  obtain s where s: "k_reach {6, 5} s" "rt_current_thread (t_env s) = Some 5" "rt_tick s = 0xFFFFFFF0"
      "thread_of 5 s = started_thread 3 0x1000" "thread_of 6 s = started_thread 1 0x2000"
    by (rule two_threads)
  note f = started_thread_facts [OF s(4)]
  have "thread_stat (t_env s) 5 = 3" "is_thread 5 s" "4 = rt_tick s - 0xFFFFFFEC" "(0 :: u32) < 4" "(4 :: u32) < 10"
    "unat (4 :: u32) + unat (10 :: u32) < 0x7FFFFFFF" using f s(3) by simp_all
  from delay_until_oversleeps [OF s(1,2) this(1,2) two_stacks [OF s(4,5)] this(3-6)] s(3) show ?thesis by auto
qed

end
