(* ===== verification/Ipc.thy ===== *)
theory Ipc
  imports Kernel
begin

text \<open>
  Semaphores and mutexes of the kernel, \<open>rt-thread/src/ipc.c\<close>, on the threads, the scheduler and the timers. Objects are named by
  numbers; the list \<open>suspend_thread\<close> of the object \<open>q\<close> has the head \<open>Suspended q\<close>. A function that makes its caller
  wait is modelled up to the switch, with the outcome \<open>Waits\<close>; what it returns when the caller
  runs again is a definition of its own. No hooks are set and the functions are not called from interrupts, except those
  that never wait.
\<close>

subsection \<open>The objects\<close>

record rt_semaphore =
  sem_type :: u8
  sem_flag :: u8
  sem_value :: u16

record rt_mutex =
  mutex_type :: u8
  mutex_flag :: u8
  mutex_value :: u16
  original_priority :: u8
  hold :: u8
  owner :: "nat option"

record ipc =
  i_kernel :: kernel
  sems :: "nat \<Rightarrow> rt_semaphore"
  mutexes :: "nat \<Rightarrow> rt_mutex"

datatype outcome = Returns int | Waits

abbreviation (input) "RT_Object_Class_Semaphore \<equiv> 2 :: u8"
abbreviation (input) "RT_Object_Class_Mutex \<equiv> 3 :: u8"
abbreviation (input) "RT_IPC_FLAG_FIFO \<equiv> 0 :: u8"
abbreviation (input) "RT_IPC_FLAG_PRIO \<equiv> 1 :: u8"
abbreviation (input) "RT_IPC_CMD_RESET \<equiv> 1 :: int"
abbreviation (input) "RT_EINTR \<equiv> 9 :: int"

abbreviation i_env :: "ipc \<Rightarrow> ksys" where
  "i_env s \<equiv> t_env (i_kernel s)"

definition upd_sem :: "nat \<Rightarrow> (rt_semaphore \<Rightarrow> rt_semaphore) \<Rightarrow> ipc \<Rightarrow> ipc" where
  "upd_sem q f s = s\<lparr>sems := (sems s)(q := f (sems s q))\<rparr>"

definition upd_mutex :: "nat \<Rightarrow> (rt_mutex \<Rightarrow> rt_mutex) \<Rightarrow> ipc \<Rightarrow> ipc" where
  "upd_mutex q f s = s\<lparr>mutexes := (mutexes s)(q := f (mutexes s q))\<rparr>"

definition is_sem :: "nat \<Rightarrow> ipc \<Rightarrow> bool" where
  "is_sem q s \<longleftrightarrow> sem_type (sems s q) AND NOT RT_Object_Class_Static = RT_Object_Class_Semaphore"

definition is_mutex :: "nat \<Rightarrow> ipc \<Rightarrow> bool" where
  "is_mutex q s \<longleftrightarrow> mutex_type (mutexes s q) AND NOT RT_Object_Class_Static = RT_Object_Class_Mutex"

text \<open>A part of the work on the kernel.\<close>

definition on_i :: "(kernel \<Rightarrow> kernel option) \<Rightarrow> ipc \<Rightarrow> ipc option" where
  "on_i f s = do { k \<leftarrow> f (i_kernel s); Some (s\<lparr>i_kernel := k\<rparr>) }"

definition set_error :: "nat \<Rightarrow> int \<Rightarrow> kernel \<Rightarrow> kernel" where
  "set_error t e = upd_k (upd_thread t (th_error_update (\<lambda>_. e)))"

subsection \<open>Lists of waiting threads\<close>

definition rt_ipc_object_init :: "nat \<Rightarrow> kernel \<Rightarrow> kernel" where
  "rt_ipc_object_init q = upd_k (\<lambda>k. k\<lparr>k_links := rt_list_init (Head (Suspended q)) (k_links k)\<rparr>)"

text \<open>The thread that a node belongs to; the head of a list belongs to none.\<close>

fun tlist_entry :: "kptr \<Rightarrow> nat option" where
  "tlist_entry (Tlist t) = Some t"
| "tlist_entry (Head _) = None"

text \<open>The node before which a thread of the given priority is inserted.\<close>

partial_function (option) suspend_position :: "ksys \<Rightarrow> nat \<Rightarrow> u8 \<Rightarrow> kptr \<Rightarrow> kptr option" where
  "suspend_position k q priority n =
     (if n = Head (Suspended q) then Some n
      else do {
        sthread \<leftarrow> tlist_entry n;
        if priority < current_priority (threads k sthread) then Some n
        else suspend_position k q priority (l_next (k_links k n)) })"

definition rt_ipc_list_suspend :: "nat \<Rightarrow> nat \<Rightarrow> u8 \<Rightarrow> kernel \<Rightarrow> kernel option" where
  "rt_ipc_list_suspend q t flag s = do {
     (_, s) \<leftarrow> rt_thread_suspend t s;
     if flag = RT_IPC_FLAG_FIFO then
       Some (upd_k (\<lambda>k. k\<lparr>k_links := rt_list_insert_before (Head (Suspended q)) (Tlist t) (k_links k)\<rparr>) s)
     else if flag = RT_IPC_FLAG_PRIO then do {
       let k = t_env s;
       n \<leftarrow> suspend_position k q (current_priority (threads k t)) (l_next (k_links k (Head (Suspended q))));
       Some (upd_k (\<lambda>k. k\<lparr>k_links := rt_list_insert_before n (Tlist t) (k_links k)\<rparr>) s) }
     else Some s }"

definition first_waiter :: "nat \<Rightarrow> kernel \<Rightarrow> nat option" where
  "first_waiter q s = tlist_entry (l_next (k_links (t_env s) (Head (Suspended q))))"

definition no_waiter :: "nat \<Rightarrow> kernel \<Rightarrow> bool" where
  "no_waiter q s \<longleftrightarrow> rt_list_isempty (Head (Suspended q)) (k_links (t_env s))"

definition rt_ipc_list_resume :: "nat \<Rightarrow> kernel \<Rightarrow> kernel option" where
  "rt_ipc_list_resume q s = do {
     t \<leftarrow> first_waiter q s;
     (_, s) \<leftarrow> rt_thread_resume t s;
     Some s }"

partial_function (option) rt_ipc_list_resume_all :: "nat \<Rightarrow> kernel \<Rightarrow> kernel option" where
  "rt_ipc_list_resume_all q s =
     (if no_waiter q s then Some s
      else do {
        t \<leftarrow> first_waiter q s;
        rs \<leftarrow> rt_thread_resume t (set_error t (- 1) s);
        rt_ipc_list_resume_all q (snd rs) })"

text \<open>The timer of a thread that waits for a limited time.\<close>

definition start_wait :: "nat \<Rightarrow> int \<Rightarrow> kernel \<Rightarrow> kernel option" where
  "start_wait t time s =
     (if 0 < time then do {
        (_, s) \<leftarrow> rt_timer_start t (snd (snd (rt_timer_control t RT_TIMER_CTRL_SET_TIME (word_of_int time) s)));
        Some s }
      else Some s)"

subsection \<open>Semaphores\<close>

definition rt_sem_init :: "nat \<Rightarrow> u32 \<Rightarrow> u8 \<Rightarrow> ipc \<Rightarrow> (int \<times> ipc) option" where
  "rt_sem_init q value flag s = do {
     rt_assert (value < 0x10000);
     s \<leftarrow> on_i object_search s;
     let s = upd_sem q (sem_type_update (\<lambda>_. RT_Object_Class_Semaphore OR RT_Object_Class_Static)) s;
     let s = s\<lparr>i_kernel := rt_ipc_object_init q (i_kernel s)\<rparr>;
     Some (0, upd_sem q (\<lambda>r. r\<lparr>sem_value := ucast value, sem_flag := flag\<rparr>) s) }"

text \<open>The object that could be allocated, or not, is an argument.\<close>

definition rt_sem_create :: "nat option \<Rightarrow> u32 \<Rightarrow> u8 \<Rightarrow> ipc \<Rightarrow> (nat option \<times> ipc) option" where
  "rt_sem_create object value flag s = do {
     rt_assert (value < 0x10000);
     case object of
       None \<Rightarrow> Some (None, s)
     | Some q \<Rightarrow>
         let s = upd_sem q (sem_type_update (\<lambda>_. RT_Object_Class_Semaphore)) s;
             s = s\<lparr>i_kernel := rt_ipc_object_init q (i_kernel s)\<rparr> in
         Some (Some q, upd_sem q (\<lambda>r. r\<lparr>sem_value := ucast value, sem_flag := flag\<rparr>) s) }"

definition rt_sem_detach :: "nat \<Rightarrow> ipc \<Rightarrow> (int \<times> ipc) option" where
  "rt_sem_detach q s = do {
     rt_assert (is_sem q s);
     rt_assert (sem_type (sems s q) AND RT_Object_Class_Static \<noteq> 0);
     s \<leftarrow> on_i (rt_ipc_list_resume_all q) s;
     Some (0, upd_sem q (sem_type_update (\<lambda>_. 0)) s) }"

definition rt_sem_delete :: "nat \<Rightarrow> ipc \<Rightarrow> (int \<times> ipc) option" where
  "rt_sem_delete q s = do {
     rt_assert (is_sem q s);
     rt_assert (sem_type (sems s q) AND RT_Object_Class_Static = 0);
     s \<leftarrow> on_i (rt_ipc_list_resume_all q) s;
     Some (0, upd_sem q (sem_type_update (\<lambda>_. 0)) s) }"

definition sem_wait :: "nat \<Rightarrow> nat \<Rightarrow> int \<Rightarrow> ipc \<Rightarrow> kernel option" where
  "sem_wait q t time s = do {
     k \<leftarrow> rt_ipc_list_suspend q t (sem_flag (sems s q)) (set_error t 0 (i_kernel s));
     k \<leftarrow> start_wait t time k;
     on_k rt_schedule k }"

definition rt_sem_take :: "nat \<Rightarrow> int \<Rightarrow> ipc \<Rightarrow> (outcome \<times> ipc) option" where
  "rt_sem_take q time s = do {
     rt_assert (is_sem q s);
     if sem_value (sems s q) > 0 then Some (Returns 0, upd_sem q (sem_value_update (\<lambda>v. v - 1)) s)
     else if time = 0 then Some (Returns (- RT_ETIMEOUT), s)
     else do {
       t \<leftarrow> rt_current_thread (i_env s);
       k \<leftarrow> sem_wait q t time s;
       Some (Waits, s\<lparr>i_kernel := k\<rparr>) } }"

definition sem_take_return :: "nat \<Rightarrow> ipc \<Rightarrow> int" where
  "sem_take_return t s = (if th_error (thread_of t (i_kernel s)) \<noteq> 0 then th_error (thread_of t (i_kernel s)) else 0)"

definition rt_sem_trytake :: "nat \<Rightarrow> ipc \<Rightarrow> (outcome \<times> ipc) option" where
  "rt_sem_trytake q s = rt_sem_take q 0 s"

definition rt_sem_release :: "nat \<Rightarrow> ipc \<Rightarrow> (int \<times> ipc) option" where
  "rt_sem_release q s = do {
     rt_assert (is_sem q s);
     if \<not> no_waiter q (i_kernel s) then do {
       s \<leftarrow> on_i (rt_ipc_list_resume q) s;
       s \<leftarrow> on_i (on_k rt_schedule) s;
       Some (0, s) }
     else Some (0, upd_sem q (sem_value_update (\<lambda>v. v + 1)) s) }"

definition rt_sem_control :: "nat \<Rightarrow> int \<Rightarrow> u32 \<Rightarrow> ipc \<Rightarrow> (int \<times> ipc) option" where
  "rt_sem_control q cmd value s = do {
     rt_assert (is_sem q s);
     if cmd = RT_IPC_CMD_RESET then do {
       s \<leftarrow> on_i (rt_ipc_list_resume_all q) s;
       s \<leftarrow> on_i (on_k rt_schedule) (upd_sem q (sem_value_update (\<lambda>_. ucast value)) s);
       Some (0, s) }
     else Some (- 1, s) }"

subsection \<open>Mutexes\<close>

definition fresh_mutex :: "u8 \<Rightarrow> rt_mutex \<Rightarrow> rt_mutex" where
  "fresh_mutex flag r = r\<lparr>mutex_value := 1, owner := None, original_priority := 0xFF, hold := 0, mutex_flag := flag\<rparr>"

definition rt_mutex_init :: "nat \<Rightarrow> u8 \<Rightarrow> ipc \<Rightarrow> (int \<times> ipc) option" where
  "rt_mutex_init q flag s = do {
     s \<leftarrow> on_i object_search s;
     let s = upd_mutex q (mutex_type_update (\<lambda>_. RT_Object_Class_Mutex OR RT_Object_Class_Static)) s;
     let s = s\<lparr>i_kernel := rt_ipc_object_init q (i_kernel s)\<rparr>;
     Some (0, upd_mutex q (fresh_mutex flag) s) }"

definition rt_mutex_create :: "nat option \<Rightarrow> u8 \<Rightarrow> ipc \<Rightarrow> nat option \<times> ipc" where
  "rt_mutex_create object flag s =
     (case object of
        None \<Rightarrow> (None, s)
      | Some q \<Rightarrow>
          let s = upd_mutex q (mutex_type_update (\<lambda>_. RT_Object_Class_Mutex)) s;
              s = s\<lparr>i_kernel := rt_ipc_object_init q (i_kernel s)\<rparr> in
          (Some q, upd_mutex q (fresh_mutex flag) s))"

definition rt_mutex_detach :: "nat \<Rightarrow> ipc \<Rightarrow> (int \<times> ipc) option" where
  "rt_mutex_detach q s = do {
     rt_assert (is_mutex q s);
     rt_assert (mutex_type (mutexes s q) AND RT_Object_Class_Static \<noteq> 0);
     s \<leftarrow> on_i (rt_ipc_list_resume_all q) s;
     Some (0, upd_mutex q (mutex_type_update (\<lambda>_. 0)) s) }"

definition rt_mutex_delete :: "nat \<Rightarrow> ipc \<Rightarrow> (int \<times> ipc) option" where
  "rt_mutex_delete q s = do {
     rt_assert (is_mutex q s);
     rt_assert (mutex_type (mutexes s q) AND RT_Object_Class_Static = 0);
     s \<leftarrow> on_i (rt_ipc_list_resume_all q) s;
     Some (0, upd_mutex q (mutex_type_update (\<lambda>_. 0)) s) }"

text \<open>A new priority for the owner of a mutex.\<close>

definition owner_priority :: "nat \<Rightarrow> u8 \<Rightarrow> kernel \<Rightarrow> kernel option" where
  "owner_priority t priority s = do {
     (_, s) \<leftarrow> rt_thread_control t (RT_THREAD_CTRL_CHANGE_PRIORITY priority) s;
     Some s }"

definition mutex_wait :: "nat \<Rightarrow> nat \<Rightarrow> int \<Rightarrow> ipc \<Rightarrow> kernel option" where
  "mutex_wait q t time s = do {
     let k = i_kernel s;
     u \<leftarrow> owner (mutexes s q);
     k \<leftarrow> (if current_priority (thread_of t k) < current_priority (thread_of u k)
           then owner_priority u (current_priority (thread_of t k)) k else Some k);
     k \<leftarrow> rt_ipc_list_suspend q t (mutex_flag (mutexes s q)) k;
     k \<leftarrow> start_wait t time k;
     on_k rt_schedule k }"

text \<open>From the label \<open>__again\<close> on.\<close>

definition mutex_again :: "nat \<Rightarrow> nat \<Rightarrow> int \<Rightarrow> ipc \<Rightarrow> (outcome \<times> ipc) option" where
  "mutex_again q t time s =
     (if mutex_value (mutexes s q) > 0 then
        Some (Returns 0, upd_mutex q (\<lambda>r. r\<lparr>mutex_value := mutex_value r - 1, owner := Some t,
          original_priority := current_priority (thread_of t (i_kernel s)), hold := hold r + 1\<rparr>) s)
      else if time = 0 then Some (Returns (- RT_ETIMEOUT), s\<lparr>i_kernel := set_error t (- RT_ETIMEOUT) (i_kernel s)\<rparr>)
      else do {
        k \<leftarrow> mutex_wait q t time s;
        Some (Waits, s\<lparr>i_kernel := k\<rparr>) })"

definition rt_mutex_take :: "nat \<Rightarrow> int \<Rightarrow> ipc \<Rightarrow> (outcome \<times> ipc) option" where
  "rt_mutex_take q time s = do {
     t \<leftarrow> rt_current_thread (i_env s);
     rt_assert (is_mutex q s);
     let s = s\<lparr>i_kernel := set_error t 0 (i_kernel s)\<rparr>;
     if owner (mutexes s q) = Some t then Some (Returns 0, upd_mutex q (hold_update (\<lambda>h. h + 1)) s)
     else mutex_again q t time s }"

definition mutex_take_return :: "nat \<Rightarrow> nat \<Rightarrow> int \<Rightarrow> ipc \<Rightarrow> (outcome \<times> ipc) option" where
  "mutex_take_return q t time s =
     (let e = th_error (thread_of t (i_kernel s)) in
      if e \<noteq> 0 then if e = - RT_EINTR then mutex_again q t time s else Some (Returns e, s)
      else Some (Returns 0, s))"

text \<open>The mutex goes to the first thread that waits for it, which leads to a scheduling decision, or becomes free.\<close>

definition mutex_pass_on :: "nat \<Rightarrow> ipc \<Rightarrow> ipc option" where
  "mutex_pass_on q s =
     (if \<not> no_waiter q (i_kernel s) then do {
        u \<leftarrow> first_waiter q (i_kernel s);
        let s = upd_mutex q (\<lambda>r. r\<lparr>owner := Some u, original_priority := current_priority (thread_of u (i_kernel s)), hold := hold r + 1\<rparr>) s;
        s \<leftarrow> on_i (rt_ipc_list_resume q) s;
        on_i (on_k rt_schedule) s }
      else Some (upd_mutex q (\<lambda>r. r\<lparr>mutex_value := mutex_value r + 1, owner := None, original_priority := 0xFF\<rparr>) s))"

definition rt_mutex_release :: "nat \<Rightarrow> ipc \<Rightarrow> (int \<times> ipc) option" where
  "rt_mutex_release q s = do {
     rt_assert (is_mutex q s);
     t \<leftarrow> rt_current_thread (i_env s);
     if owner (mutexes s q) \<noteq> Some t then Some (- 1, s\<lparr>i_kernel := set_error t (- 1) (i_kernel s)\<rparr>)
     else do {
       let s = upd_mutex q (hold_update (\<lambda>h. h - 1)) s;
       if hold (mutexes s q) = 0 then do {
         s \<leftarrow> (if original_priority (mutexes s q) \<noteq> current_priority (thread_of t (i_kernel s))
               then on_i (owner_priority t (original_priority (mutexes s q))) s else Some s);
         s \<leftarrow> mutex_pass_on q s;
         Some (0, s) }
       else Some (0, s) } }"

definition rt_mutex_control :: "nat \<Rightarrow> ipc \<Rightarrow> int option" where
  "rt_mutex_control q s = do { rt_assert (is_mutex q s); Some (- 1) }"

subsection \<open>What happens to the lists of waiting threads\<close>

text \<open>A list that a thread joins: at the end, or behind the threads of the same or a higher priority.\<close>

definition enqueue :: "u8 \<Rightarrow> ksys \<Rightarrow> nat \<Rightarrow> nat list \<Rightarrow> nat list" where
  "enqueue flag k t W =
     (if flag = RT_IPC_FLAG_FIFO then W @ [t]
      else if flag = RT_IPC_FLAG_PRIO then takeWhile (\<lambda>u. prio k u \<le> prio k t) W @ t # dropWhile (\<lambda>u. prio k u \<le> prio k t) W
      else W)"

lemma set_enqueue: "set (enqueue flag k t W) \<subseteq> insert t (set W)"
  by (auto simp: enqueue_def dest: set_takeWhileD set_dropWhileD)

lemma suspend_position_walk:
  assumes "dlist (k_links k) (Head (Suspended q)) (map Tlist (as @ bs))"
  shows "suspend_position k q p (hd (map Tlist bs @ [Head (Suspended q)])) =
    Some (hd (map Tlist (dropWhile (\<lambda>u. prio k u \<le> unat p) bs) @ [Head (Suspended q)]))"
  using assms
proof (induction bs arbitrary: as)
  case Nil
  then show ?case by (subst suspend_position.simps) simp
next
  case (Cons b bs)
  have "l_next (k_links k (Tlist b)) = hd (map Tlist bs @ [Head (Suspended q)])"
    using dlist_next [of "k_links k" "Head (Suspended q)" "map Tlist (as @ [b])" "map Tlist bs"] Cons.prems by simp
  moreover have "p < current_priority (threads k b) \<longleftrightarrow> \<not> prio k b \<le> unat p" by (simp add: word_less_nat_alt linorder_not_le)
  moreover have "suspend_position k q p (hd (map Tlist bs @ [Head (Suspended q)])) =
      Some (hd (map Tlist (dropWhile (\<lambda>u. prio k u \<le> unat p) bs) @ [Head (Suspended q)]))"
    using Cons.IH [of "as @ [b]"] Cons.prems by simp
  ultimately show ?case by (subst suspend_position.simps) simp
qed

lemma sched_suspended_insert:
  assumes ok: "sched_ok s T Q L" and t: "t \<in> T" "thread_stat s t = 2" "\<And>h. t \<notin> set (L h)" and q: "q \<in> Q" and L: "L (Suspended q) = xs @ ys"
  shows "sched_ok (s\<lparr>k_links := rt_list_insert_before (hd (map Tlist ys @ [Head (Suspended q)])) (Tlist t) (k_links s)\<rparr>) T Q
    (L(Suspended q := xs @ t # ys))" (is "sched_ok ?s T Q ?L")
proof -
  note qs = sched_okD(1) [OF ok] and v = sched_okD(2) [OF ok]
  have "lists_ok (k_links ?s) (heads Q) T ?L"
    using lists_insert_before [OF queues_okD(1) [OF qs] _ t(1,3) L] q by simp
  then have "queues_ok ?s T Q ?L" using qs by (simp add: queues_ok_def)
  moreover have "stats_ok ?s T ?L" by (rule stats_ok_change [OF v, where t = t]) (use t L stats_okD(6) [OF v] in auto)
  ultimately show ?thesis by (simp add: sched_ok_def)
qed

lemma waiting_kernel:
  assumes k: "kernel_at s T Q L" and t: "t \<in> waiting (t_env s) T" "\<And>h. t \<notin> set (L h)" and q: "q \<in> Q" and L: "L (Suspended q) = xs @ ys"
  shows "kernel_at (upd_k (\<lambda>k. k\<lparr>k_links := rt_list_insert_before (hd (map Tlist ys @ [Head (Suspended q)])) (Tlist t) (k_links k)\<rparr>) s) T Q
    (L(Suspended q := xs @ t # ys))"
  unfolding upd_k_def
  by (rule kernel_env [OF k sched_suspended_insert [OF kernel_atD(1) [OF k] _ _ t(2) q L]]) (use t(1) in \<open>simp_all add: waiting_def\<close>)

lemma waiting_list:
  assumes "kernel_at s T Q L" and "q \<in> Q"
  shows "dlist (k_links (t_env s)) (Head (Suspended q)) (map Tlist (L (Suspended q)))"
  using lists_okD(1) [OF queues_okD(1) [OF sched_okD(1) [OF kernel_atD(1) [OF assms(1)]]], of "Suspended q"] assms(2) by simp

lemma enqueue_kernel:
  assumes k: "kernel_at s T Q L" and t: "t \<in> waiting (t_env s) T" "\<And>h. t \<notin> set (L h)" and q: "q \<in> Q"
    and s: "rt_thread_suspend t s0 = Some (rc, s)"
  shows "\<exists>s'. rt_ipc_list_suspend q t flag s0 = Some s' \<and> kernel_at s' T Q (L(Suspended q := enqueue flag (t_env s) t (L (Suspended q)))) \<and>
    (\<exists>K. s' = s\<lparr>t_env := (t_env s)\<lparr>k_links := K\<rparr>\<rparr>)"
proof -
  let ?k = "t_env s" and ?h = "Head (Suspended q)" and ?W = "L (Suspended q)"
  let ?p = "\<lambda>u. prio ?k u \<le> prio ?k t"
  note d = waiting_list [OF k q]
  have n: "l_next (k_links ?k ?h) = hd (map Tlist ?W @ [?h])" using dlist_next [of _ ?h "[]" "map Tlist ?W"] d by simp
  note pos = suspend_position_walk [of ?k q "[]" ?W "current_priority (threads ?k t)", simplified, OF d]
  consider "flag = 0" | "flag = 1" | "flag \<noteq> 0" "flag \<noteq> 1" by blast
  then show ?thesis
  proof cases
    case 1
    then show ?thesis using s waiting_kernel [OF k t q, of ?W "[]"] by (auto simp: rt_ipc_list_suspend_def enqueue_def upd_k_def)
  next
    case 2
    then show ?thesis
      using s n pos waiting_kernel [OF k t q, of "takeWhile ?p ?W" "dropWhile ?p ?W"]
      by (auto simp: rt_ipc_list_suspend_def enqueue_def upd_k_def Let_def)
  next
    case 3
    moreover have "\<exists>K. s = s\<lparr>t_env := ?k\<lparr>k_links := K\<rparr>\<rparr>" by (rule exI [of _ "k_links ?k"]) simp
    ultimately show ?thesis using s k by (simp add: rt_ipc_list_suspend_def enqueue_def)
  qed
qed

lemma enqueue_cong: "(\<And>u. u \<in> insert t (set W) \<Longrightarrow> prio k' u = prio k u) \<Longrightarrow> enqueue flag k' t W = enqueue flag k t W"
  unfolding enqueue_def by (simp cong: takeWhile_cong dropWhile_cong)

text \<open>Lists that differ from \<open>L\<close> in the threads that wait for \<open>q\<close> only, apart from the ready lists.\<close>

definition queue_is :: "nat \<Rightarrow> nat list \<Rightarrow> (khead \<Rightarrow> nat list) \<Rightarrow> (khead \<Rightarrow> nat list) \<Rightarrow> bool" where
  "queue_is q W L L' \<longleftrightarrow> (\<forall>r. L' (Suspended r) = (if r = q then W else L (Suspended r)))"

lemma list_suspend_kernel:
  assumes k: "kernel_at s T Q L" and t: "t \<in> T" "can_run (t_env s) t" and q: "q \<in> Q" and s: "rt_ipc_list_suspend q t flag s = Some s'"
  shows "\<exists>L'. kernel_at s' T Q L' \<and> queue_is q (enqueue flag (t_env s) t (L (Suspended q))) L L'" and "t \<in> waiting (t_env s') T"
    and "\<exists>K G. t_env s' = (set_stat 2 t (t_env s))\<lparr>k_links := K, rt_thread_ready_priority_group := G\<rparr>" and "rt_tick s' = rt_tick s"
proof -
  obtain rc s1 where s1: "rt_thread_suspend t s = Some (rc, s1)" using s by (auto simp: rt_ipc_list_suspend_def bind_eq_Some_conv)
  note w = suspend_waits [OF k t s1]
  have n: "t \<notin> set (L (Suspended r))" for r using stat_notin(2) [OF kernel_atD(1) [OF k] t(1)] t(2) by (auto simp: can_run_def)
  obtain K G where e: "t_env s1 = (set_stat 2 t (t_env s))\<lparr>k_links := K, rt_thread_ready_priority_group := G\<rparr>" using w(4) by blast
  obtain K' where s': "kernel_at s' T Q ((\<lambda>h. remove1 t (L h))(Suspended q := enqueue flag (t_env s1) t (remove1 t (L (Suspended q)))))"
      "s' = s1\<lparr>t_env := (t_env s1)\<lparr>k_links := K'\<rparr>\<rparr>"
    using enqueue_kernel [OF w(1-3) q s1, of flag] s by auto
  have "enqueue flag (t_env s1) t (L (Suspended q)) = enqueue flag (t_env s) t (L (Suspended q))" by (rule enqueue_cong) (simp add: e)
  then show "\<exists>L'. kernel_at s' T Q L' \<and> queue_is q (enqueue flag (t_env s) t (L (Suspended q))) L L'"
    using s'(1) n by (auto simp: queue_is_def remove1_idem)
  show "t \<in> waiting (t_env s') T" using w(2) by (simp add: s'(2) waiting_def)
  show "\<exists>K G. t_env s' = (set_stat 2 t (t_env s))\<lparr>k_links := K, rt_thread_ready_priority_group := G\<rparr>"
    by (rule exI [of _ K'], rule exI [of _ G]) (simp add: s'(2) e)
  show "rt_tick s' = rt_tick s" using w(5) by (simp add: s'(2))
qed

lemma start_wait_kernel:
  assumes k: "kernel_at s T Q L" and t: "t \<in> waiting (t_env s) T" and s: "start_wait t time s = Some s'"
  shows "kernel_at s' T Q L" and "t_env s' = t_env s" and "rt_tick s' = rt_tick s"
    and "0 < time \<Longrightarrow> \<exists>ts. ready s' ts \<and> set ts \<subseteq> waiting (t_env s') T \<and> (\<forall>u \<in> set ts. active (t_timers s' u)) \<and> t \<in> set ts \<and>
      left s' t = uint (word_of_int time :: u32)"
proof -
  have "kernel_at s' T Q L \<and> t_env s' = t_env s \<and> rt_tick s' = rt_tick s \<and> (0 < time \<longrightarrow>
      (\<exists>ts. ready s' ts \<and> set ts \<subseteq> waiting (t_env s') T \<and> (\<forall>u \<in> set ts. active (t_timers s' u)) \<and> t \<in> set ts \<and>
      left s' t = uint (word_of_int time :: u32)))"
  proof (cases "0 < time")
    case True
    then obtain rc where "rt_timer_start t (snd (snd (rt_timer_control t RT_TIMER_CTRL_SET_TIME (word_of_int time) s))) = Some (rc, s')"
      using s by (auto simp: start_wait_def bind_eq_Some_conv)
    from arm_kernel [OF k t this] show ?thesis by blast
  qed (use s k in \<open>simp add: start_wait_def\<close>)
  then show "kernel_at s' T Q L" "t_env s' = t_env s" "rt_tick s' = rt_tick s"
    "0 < time \<Longrightarrow> \<exists>ts. ready s' ts \<and> set ts \<subseteq> waiting (t_env s') T \<and> (\<forall>u \<in> set ts. active (t_timers s' u)) \<and> t \<in> set ts \<and>
      left s' t = uint (word_of_int time :: u32)"
    by blast+
qed

lemma schedule_lists:
  assumes k: "kernel_at s T Q L" and s: "on_k rt_schedule s = Some s'"
  shows "\<exists>L'. kernel_at s' T Q L' \<and> (\<forall>q. L' (Suspended q) = L (Suspended q))" and "only_stat (t_env s) (t_env s')"
proof -
  obtain e where e: "rt_schedule (t_env s) = Some e" "s' = s\<lparr>t_env := e\<rparr>" using s by (auto simp: on_k_Some)
  show o: "only_stat (t_env s) (t_env s')" using rt_schedule_only_stat [OF kernel_atD(1) [OF k] e(1)] e(2) by simp
  obtain L' where "sched_ok e T Q L'" "\<forall>q. L' (Suspended q) = L (Suspended q)" using rt_schedule_lists [OF kernel_atD(1) [OF k] e(1)] by blast
  then show "\<exists>L'. kernel_at s' T Q L' \<and> (\<forall>q. L' (Suspended q) = L (Suspended q))"
    using kernel_env [OF k, of e L'] only_stat_waiting [OF o] e(2) by auto
qed

text \<open>Waking up the first thread that waits.\<close>

lemma first_waiter_list:
  assumes "kernel_at s T Q L" and "q \<in> Q"
  shows "no_waiter q s \<longleftrightarrow> L (Suspended q) = []" and "L (Suspended q) = t # W \<Longrightarrow> first_waiter q s = Some t"
proof -
  note d = waiting_list [OF assms]
  show "no_waiter q s \<longleftrightarrow> L (Suspended q) = []" using klist.rep_isempty [OF d] by (simp add: no_waiter_def)
  show "first_waiter q s = Some t" if "L (Suspended q) = t # W"
    using d that dlist_next [of "k_links (t_env s)" "Head (Suspended q)" "[]" "map Tlist (t # W)"] by (simp add: first_waiter_def)
qed

lemma waiter_facts:
  assumes "kernel_at s T Q L" and "t \<in> set (L (Suspended q))"
  shows "t \<in> T" and "thread_stat (t_env s) t = 2"
  using lists_okD(3) [OF queues_okD(1) [OF sched_okD(1) [OF kernel_atD(1) [OF assms(1)]]] assms(2)]
    stats_okD(2) [OF sched_okD(2) [OF kernel_atD(1) [OF assms(1)]] assms(2)] by simp_all

lemma resume_lists:
  assumes k: "kernel_at s T Q L" and L: "L (Suspended q) = t # W" and s: "rt_thread_resume t s = Some (rc, s')"
  shows "\<exists>L'. kernel_at s' T Q L' \<and> queue_is q W L L'"
    and "rt_current_thread (t_env s') = rt_current_thread (t_env s)"
    and "threads (t_env s') = threads (set_stat (if rt_current_thread (t_env s) = Some t then 3 else 1) t (t_env s))"
    and "rt_tick s' = rt_tick s"
proof -
  have t: "t \<in> T" "thread_stat (t_env s) t = 2" using waiter_facts [OF k, of t q] L by simp_all
  note r = resume_kernel [OF k t s]
  have "t \<notin> set (L (Suspended p))" if "p \<noteq> q" for p
    using lists_okD(4) [OF queues_okD(1) [OF sched_okD(1) [OF kernel_atD(1) [OF k]]], of t "Suspended q" "Suspended p"] L that by auto
  then have "queue_is q W L (woken t (t_env s) L)" using L by (auto simp: queue_is_def woken_def Let_def remove1_idem)
  then show "\<exists>L'. kernel_at s' T Q L' \<and> queue_is q W L L'" using r(1) by blast
qed (use resume_kernel [OF k waiter_facts [OF k, of t q] s] L in simp_all)

end
