(* ===== verification/Sync.thy ===== *)
theory Sync
  imports Ipc
begin

text \<open>
  What semaphores and mutexes guarantee: under all uses of them and of threads, together with the clock, a thread waits only
  while there is nothing to take; who is woken up by a release, how long a thread waits, who owns a mutex, and
  how the priority of the owner changes.
\<close>

subsection \<open>Waking up all threads that wait\<close>

lemma queue_is_refl: "queue_is q (L (Suspended q)) L L"
  by (simp add: queue_is_def)

lemma queue_is_trans: "queue_is q W L L' \<Longrightarrow> queue_is q W' L' L'' \<Longrightarrow> queue_is q W' L L''"
  by (simp add: queue_is_def)

lemma queue_is_keeps: "queue_is q W L L' \<Longrightarrow> (\<And>r. L'' (Suspended r) = L' (Suspended r)) \<Longrightarrow> queue_is q W L L''"
  by (simp add: queue_is_def)

lemma set_error_kernel:
  assumes "kernel_at s T Q L"
  shows "kernel_at (set_error t e s) T Q L"
proof -
  have "sched_ok (upd_thread t (th_error_update (\<lambda>_. e)) (t_env s)) T Q L"
    by (rule sched_ok_cong [OF kernel_atD(1) [OF assms]]) (simp_all add: thread_stat_def has_mask_def)
  then show ?thesis
    unfolding set_error_def upd_k_def by (rule kernel_env [OF assms]) (auto simp: waiting_def thread_stat_def rt_object_get_type_def)
qed

lemma set_error_simps [simp]:
  "rt_current_thread (t_env (set_error t e s)) = rt_current_thread (t_env s)" "rt_tick (set_error t e s) = rt_tick s"
  "thread_stat (t_env (set_error t e s)) u = thread_stat (t_env s) u" "is_thread u (set_error t e s) \<longleftrightarrow> is_thread u s"
  "prio (t_env (set_error t e s)) u = prio (t_env s) u" "stacks_ok (t_env (set_error t e s)) T \<longleftrightarrow> stacks_ok (t_env s) T"
  "can_run (t_env (set_error t e s)) u \<longleftrightarrow> can_run (t_env s) u"
  "threads (t_env (set_error t e s)) = (threads (t_env s))(t := (thread_of t s)\<lparr>th_error := e\<rparr>)"
  by (auto simp: set_error_def upd_k_def thread_stat_def is_thread_def rt_object_get_type_def stacks_ok_def rt_scheduler_stack_check_def can_run_def)

text \<open>What becomes of the threads in \<open>W\<close> when all are woken up with an error.\<close>

definition all_woken :: "nat list \<Rightarrow> ksys \<Rightarrow> ksys \<Rightarrow> bool" where
  "all_woken W e e' \<longleftrightarrow> rt_current_thread e' = rt_current_thread e \<and> (\<forall>u. u \<notin> set W \<longrightarrow> threads e' u = threads e u) \<and>
     (\<forall>u \<in> set W. can_run e' u \<and> th_error (threads e' u) = - 1 \<and> rt_scheduler_stack_check (threads e' u) = rt_scheduler_stack_check (threads e u))"

lemma resume_all_step:
  assumes k: "kernel_at s T Q L" and L: "L (Suspended q) = t # W" and s: "rt_thread_resume t (set_error t (- 1) s) = Some (rc, s')"
  shows "\<exists>L'. kernel_at s' T Q L' \<and> queue_is q W L L'" and "all_woken [t] (t_env s) (t_env s')"
proof -
  note r = resume_lists [OF set_error_kernel [OF k] L s]
  show "\<exists>L'. kernel_at s' T Q L' \<and> queue_is q W L L'" by (rule r(1))
  let ?x = "if rt_current_thread (t_env s) = Some t then 3 else 1 :: u8"
  have th: "threads (t_env s') = threads (set_stat ?x t (t_env (set_error t (- 1) s)))" using r(3) by simp
  have "thread_stat (t_env s') t = thread_stat (set_stat ?x t (t_env (set_error t (- 1) s))) t" by (simp add: thread_stat_def th)
  then have "can_run (t_env s') t" by (simp add: can_run_def)
  then show "all_woken [t] (t_env s) (t_env s')"
    using r(2) th by (simp add: all_woken_def set_stat_def rt_scheduler_stack_check_def)
qed

lemma all_woken_trans:
  assumes "all_woken [t] e e'" and "all_woken W e' e''" and "t \<notin> set W"
  shows "all_woken (t # W) e e''"
proof -
  have "threads e'' t = threads e' t" "\<And>u. u \<noteq> t \<Longrightarrow> threads e' u = threads e u" using assms by (simp_all add: all_woken_def)
  moreover from this(1) have "can_run e'' t = can_run e' t" by (simp add: can_run_def thread_stat_def)
  ultimately show ?thesis using assms unfolding all_woken_def by auto
qed

lemma waiters_distinct: "kernel_at s T Q L \<Longrightarrow> distinct (L h)"
  by (rule lists_ok_distinct [OF queues_okD(1) [OF sched_okD(1) [OF kernel_atD(1)]]])

lemma resume_all_kernel:
  assumes "kernel_at s T Q L" and q: "q \<in> Q"
  shows "rt_ipc_list_resume_all q s = Some s' \<longrightarrow>
      (\<exists>L'. kernel_at s' T Q L' \<and> queue_is q [] L L') \<and> all_woken (L (Suspended q)) (t_env s) (t_env s')"
    and "\<forall>t \<in> set (L (Suspended q)). is_thread t s \<Longrightarrow> rt_ipc_list_resume_all q s \<noteq> None"
proof -
  have "W = L (Suspended q) \<Longrightarrow> (\<forall>s'. rt_ipc_list_resume_all q s = Some s' \<longrightarrow>
      (\<exists>L'. kernel_at s' T Q L' \<and> queue_is q [] L L') \<and> all_woken W (t_env s) (t_env s')) \<and>
      ((\<forall>t \<in> set W. is_thread t s) \<longrightarrow> rt_ipc_list_resume_all q s \<noteq> None)" for W
    using assms(1)
  proof (induction W arbitrary: s L)
    case Nil
    then have "rt_ipc_list_resume_all q s = Some s" using first_waiter_list(1) [OF _ q] by (subst rt_ipc_list_resume_all.simps) simp
    then show ?case using Nil queue_is_refl [of q L] by (auto simp: all_woken_def)
  next
    case (Cons t W)
    note L = Cons.prems(1) [symmetric] and k = Cons.prems(2)
    have e: "rt_ipc_list_resume_all q s =
        Option.bind (rt_thread_resume t (set_error t (- 1) s)) (\<lambda>rs. rt_ipc_list_resume_all q (snd rs))"
      using first_waiter_list [OF k q] L by (subst rt_ipc_list_resume_all.simps) simp
    have t: "t \<in> T" "thread_stat (t_env s) t = 2" using waiter_facts [OF k, of t q] L by simp_all
    have tW: "t \<notin> set W" using waiters_distinct [OF k, of "Suspended q"] L by simp
    show ?case
    proof (cases "rt_thread_resume t (set_error t (- 1) s)")
      case None
      then show ?thesis using e resume_total [OF set_error_kernel [OF k] t(1), of t "- 1"] t(2) by auto
    next
      case (Some rs)
      obtain rc s1 where rs: "rs = (rc, s1)" by (cases rs)
      note st = resume_all_step [OF k L Some [unfolded rs]]
      obtain L1 where L1: "kernel_at s1 T Q L1" "queue_is q W L L1" using st(1) by blast
      have W1: "W = L1 (Suspended q)" using L1(2) by (simp add: queue_is_def)
      have "is_thread u s1 = is_thread u s" if "u \<in> set W" for u
        using st(2) tW that by (auto simp: all_woken_def is_thread_def)
      moreover have e1: "rt_ipc_list_resume_all q s = rt_ipc_list_resume_all q s1" using e Some rs by simp
      moreover note Cons.IH [OF W1 L1(1)]
      ultimately show ?thesis unfolding e1 using queue_is_trans [OF L1(2)] all_woken_trans [OF st(2) _ tW]
        by (metis list.set_intros(2))
    qed
  qed
  from this [OF refl] show "rt_ipc_list_resume_all q s = Some s' \<longrightarrow>
      (\<exists>L'. kernel_at s' T Q L' \<and> queue_is q [] L L') \<and> all_woken (L (Suspended q)) (t_env s) (t_env s')"
    "\<forall>t \<in> set (L (Suspended q)). is_thread t s \<Longrightarrow> rt_ipc_list_resume_all q s \<noteq> None" by simp_all
qed

subsection \<open>The invariant\<close>

text \<open>The threads that may wait for an object: for a semaphore only when its value is 0, for a mutex only when another thread owns it.\<close>

definition allowed :: "ipc \<Rightarrow> nat \<Rightarrow> nat set" where
  "allowed s q = {t. (is_sem q s \<longrightarrow> sem_value (sems s q) = 0) \<and>
     (is_mutex q s \<longrightarrow> mutex_value (mutexes s q) = 0 \<and> owner (mutexes s q) \<noteq> Some t)}"

definition mutex_ok :: "nat set \<Rightarrow> rt_mutex \<Rightarrow> bool" where
  "mutex_ok T m \<longleftrightarrow> (case owner m of None \<Rightarrow> mutex_value m = 1 | Some t \<Rightarrow> mutex_value m = 0 \<and> t \<in> T \<and> original_priority m < 32)"

definition ipc_at :: "ipc \<Rightarrow> nat set \<Rightarrow> nat set \<Rightarrow> (khead \<Rightarrow> nat list) \<Rightarrow> bool" where
  "ipc_at s T Q L \<longleftrightarrow> kernel_at (i_kernel s) T Q L \<and> (\<forall>q. set (L (Suspended q)) \<subseteq> allowed s q) \<and>
     (\<forall>q. is_sem q s \<or> is_mutex q s \<longrightarrow> q \<in> Q) \<and> (\<forall>q. \<not> (is_sem q s \<and> is_mutex q s)) \<and> (\<forall>q. is_mutex q s \<longrightarrow> mutex_ok T (mutexes s q))"

definition ipc_ok :: "ipc \<Rightarrow> nat set \<Rightarrow> nat set \<Rightarrow> bool" where
  "ipc_ok s T Q \<longleftrightarrow> (\<exists>L. ipc_at s T Q L)"

lemma ipc_atD:
  assumes "ipc_at s T Q L"
  shows "kernel_at (i_kernel s) T Q L" and "set (L (Suspended q)) \<subseteq> allowed s q" and "is_sem q s \<Longrightarrow> q \<in> Q" and "is_mutex q s \<Longrightarrow> q \<in> Q"
    and "is_sem q s \<Longrightarrow> \<not> is_mutex q s" and "is_mutex q s \<Longrightarrow> mutex_ok T (mutexes s q)"
  using assms unfolding ipc_at_def by blast+

lemma is_sem_simps [simp]:
  "is_sem r (upd_sem q f s) \<longleftrightarrow> (if r = q then sem_type (f (sems s q)) AND NOT 0x80 = 2 else is_sem r s)"
  "is_sem r (upd_mutex q g s) \<longleftrightarrow> is_sem r s" "is_sem r (s\<lparr>i_kernel := k\<rparr>) \<longleftrightarrow> is_sem r s"
  "is_mutex r (upd_mutex q g s) \<longleftrightarrow> (if r = q then mutex_type (g (mutexes s q)) AND NOT 0x80 = 3 else is_mutex r s)"
  "is_mutex r (upd_sem q f s) \<longleftrightarrow> is_mutex r s" "is_mutex r (s\<lparr>i_kernel := k\<rparr>) \<longleftrightarrow> is_mutex r s"
  by (simp_all add: is_sem_def is_mutex_def upd_sem_def upd_mutex_def)

lemma upd_simps [simp]:
  "i_kernel (upd_sem q f s) = i_kernel s" "i_kernel (upd_mutex q g s) = i_kernel s"
  "sems (upd_sem q f s) = (sems s)(q := f (sems s q))" "sems (upd_mutex q g s) = sems s"
  "mutexes (upd_sem q f s) = mutexes s" "mutexes (upd_mutex q g s) = (mutexes s)(q := g (mutexes s q))"
  by (simp_all add: upd_sem_def upd_mutex_def)

text \<open>The kernel has changed, and the threads that wait for \<open>q\<close>, but no object.\<close>

lemma ipc_at_kernel:
  assumes "ipc_at s T Q L" and "kernel_at k T Q L'" and "queue_is q W L L'" and "set W \<subseteq> allowed s q"
  shows "ipc_at (s\<lparr>i_kernel := k\<rparr>) T Q L'"
proof -
  have "allowed (s\<lparr>i_kernel := k\<rparr>) r = allowed s r" for r by (simp add: allowed_def)
  moreover have "set (L' (Suspended r)) \<subseteq> allowed s r" for r using assms(3,4) ipc_atD(2) [OF assms(1)] by (simp add: queue_is_def)
  ultimately show ?thesis using assms(1,2) unfolding ipc_at_def by simp
qed

text \<open>One object has changed.\<close>

lemma ipc_at_sem:
  assumes "ipc_at s T Q L" and "is_sem q s" and "\<And>r. sem_type (f r) = sem_type r"
    and "L (Suspended q) \<noteq> [] \<Longrightarrow> sem_value (f (sems s q)) = 0"
  shows "ipc_at (upd_sem q f s) T Q L"
proof -
  have "is_sem r (upd_sem q f s) \<longleftrightarrow> is_sem r s" for r using assms(3) by (simp add: is_sem_def)
  moreover have "set (L (Suspended r)) \<subseteq> allowed (upd_sem q f s) r" for r
    using ipc_atD(2) [OF assms(1), of r] ipc_atD(5) [OF assms(1,2)] assms(2-4) calculation by (cases "r = q") (auto simp: allowed_def)
  ultimately show ?thesis using assms(1) unfolding ipc_at_def by simp
qed

lemma ipc_at_mutex:
  assumes "ipc_at s T Q L" and "is_mutex q s" and "\<And>r. mutex_type (f r) = mutex_type r" and "mutex_ok T (f (mutexes s q))"
    and "\<And>t. t \<in> set (L (Suspended q)) \<Longrightarrow> mutex_value (f (mutexes s q)) = 0 \<and> owner (f (mutexes s q)) \<noteq> Some t"
  shows "ipc_at (upd_mutex q f s) T Q L"
proof -
  have m: "is_mutex r (upd_mutex q f s) \<longleftrightarrow> is_mutex r s" for r using assms(3) by (simp add: is_mutex_def)
  moreover have "set (L (Suspended r)) \<subseteq> allowed (upd_mutex q f s) r" for r
    using ipc_atD(2) [OF assms(1), of r] ipc_atD(5) [OF assms(1)] assms(2-5) m by (cases "r = q") (auto simp: allowed_def)
  ultimately show ?thesis using assms(1,4) unfolding ipc_at_def by simp
qed

subsection \<open>Operations on kernel objects keep the invariant\<close>

lemma ipc_ok_kernel:
  assumes "ipc_ok s T Q" and "kernel_ok k T Q (allowed s)"
  shows "ipc_ok (s\<lparr>i_kernel := k\<rparr>) T Q"
proof -
  have "allowed (s\<lparr>i_kernel := k\<rparr>) r = allowed s r" for r by (simp add: allowed_def)
  then show ?thesis using assms unfolding ipc_ok_def ipc_at_def kernel_ok_def by simp blast
qed

lemma ipc_at_kernel_ok: "ipc_at s T Q L \<Longrightarrow> kernel_ok (i_kernel s) T Q (allowed s)"
  by (rule kernel_okI [OF ipc_atD(1)]) (auto dest: ipc_atD(2))

lemma on_i_Some: "on_i f s = Some s' \<longleftrightarrow> (\<exists>k. f (i_kernel s) = Some k \<and> s' = s\<lparr>i_kernel := k\<rparr>)"
  by (auto simp: on_i_def bind_eq_Some_conv)

lemma schedule_ipc:
  assumes "ipc_at s T Q L" and "on_i (on_k rt_schedule) s = Some s'"
  shows "\<exists>L'. ipc_at s' T Q L' \<and> (\<forall>q. L' (Suspended q) = L (Suspended q))" and "only_stat (i_env s) (i_env s')" and "sems s' = sems s"
    and "mutexes s' = mutexes s"
proof -
  obtain k where k: "on_k rt_schedule (i_kernel s) = Some k" "s' = s\<lparr>i_kernel := k\<rparr>" using assms(2) by (auto simp: on_i_Some)
  note sl = schedule_lists [OF ipc_atD(1) [OF assms(1)] k(1)]
  obtain L' where L': "kernel_at k T Q L'" "\<forall>q. L' (Suspended q) = L (Suspended q)" using sl(1) by blast
  then have "queue_is q (L (Suspended q)) L L'" for q by (simp add: queue_is_def)
  then show "\<exists>L'. ipc_at s' T Q L' \<and> (\<forall>q. L' (Suspended q) = L (Suspended q))"
    using ipc_at_kernel [OF assms(1) L'(1) _ ipc_atD(2) [OF assms(1)]] L'(2) k(2) by blast
  show "only_stat (i_env s) (i_env s')" "sems s' = sems s" "mutexes s' = mutexes s" using sl(2) k(2) by simp_all
qed

text \<open>A new object.\<close>

lemma new_list_kernel:
  assumes k: "kernel_at s T Q L" and q: "q \<notin> Q"
  shows "kernel_at (rt_ipc_object_init q s) T (insert q Q) L"
proof -
  note ok = kernel_atD(1) [OF k]
  have "heads (insert q Q) = insert (Suspended q) (heads Q)" by (auto simp: heads_def)
  moreover have "lists_ok (rt_list_init (Head (Suspended q)) (k_links (t_env s))) (insert (Suspended q) (heads Q)) T L"
    by (rule lists_new_head [OF queues_okD(1) [OF sched_okD(1) [OF ok]]]) (use q in simp)
  ultimately have "queues_ok ((t_env s)\<lparr>k_links := rt_list_init (Head (Suspended q)) (k_links (t_env s))\<rparr>) T (insert q Q) L"
    using sched_okD(1) [OF ok] by (simp add: queues_ok_def)
  moreover have "stats_ok (e\<lparr>k_links := K\<rparr>) T L \<longleftrightarrow> stats_ok e T L" for e :: ksys and K
  proof -
    have "rt_current_thread (e\<lparr>k_links := K\<rparr>) = rt_current_thread e" "threads (e\<lparr>k_links := K\<rparr>) = threads e" by simp_all
    then show ?thesis by (simp only: stats_ok_def thread_stat_simps has_mask_simps)
  qed
  ultimately have ok': "sched_ok ((t_env s)\<lparr>k_links := rt_list_init (Head (Suspended q)) (k_links (t_env s))\<rparr>) T (insert q Q) L"
    using sched_okD(2) [OF ok] by (simp add: sched_ok_def)
  show ?thesis
    unfolding rt_ipc_object_init_def upd_k_def
    by (rule kernel_atI [OF _ timers_in_cong [OF kernel_atD(2) [OF k], of _ "waiting (t_env s) T"]])
      (use ok' kernel_atD(3) [OF k] in \<open>simp_all add: waiting_def\<close>)
qed

lemma new_object_ipc:
  assumes a: "ipc_at s T Q L" and q: "q \<notin> Q" and k: "i_kernel s' = rt_ipc_object_init q (i_kernel s)"
    and o: "\<And>r. r \<noteq> q \<Longrightarrow> sems s' r = sems s r \<and> mutexes s' r = mutexes s r" and e: "\<not> (is_sem q s' \<and> is_mutex q s')"
    and m: "is_mutex q s' \<Longrightarrow> mutex_ok T (mutexes s' q)"
  shows "ipc_at s' T (insert q Q) L"
proof -
  have other: "is_sem r s' = is_sem r s" "is_mutex r s' = is_mutex r s" "allowed s' r = allowed s r" if "r \<noteq> q" for r
    using o [OF that] by (simp_all add: is_sem_def is_mutex_def allowed_def)
  have "L (Suspended q) = []"
    using lists_okD(2) [OF queues_okD(1) [OF sched_okD(1) [OF kernel_atD(1) [OF ipc_atD(1) [OF a]]]], of "Suspended q"] q by simp
  then have "set (L (Suspended r)) \<subseteq> allowed s' r" for r using ipc_atD(2) [OF a, of r] other [of r] by (cases "r = q") auto
  moreover have "mutex_ok T (mutexes s' r)" if "is_mutex r s'" for r
    using m ipc_atD(6) [OF a, of r] other [of r] o [of r] that by (cases "r = q") auto
  moreover have "\<not> (is_sem r s' \<and> is_mutex r s')" for r using e ipc_atD(5) [OF a, of r] other [of r] by (cases "r = q") auto
  moreover have "r \<in> insert q Q" if "is_sem r s' \<or> is_mutex r s'" for r
    using ipc_atD(3,4) [OF a, of r] other [of r] that by (cases "r = q") auto
  moreover have "kernel_at (i_kernel s') T (insert q Q) L" unfolding k by (rule new_list_kernel [OF ipc_atD(1) [OF a] q])
  ultimately show ?thesis unfolding ipc_at_def by blast
qed

lemma search_ipc:
  assumes "ipc_at s T Q L" and "on_i object_search s = Some s'"
  shows "\<exists>L'. ipc_at s' T Q L'" and "sems s' = sems s" and "mutexes s' = mutexes s"
proof -
  obtain k where k: "object_search (i_kernel s) = Some k" "s' = s\<lparr>i_kernel := k\<rparr>" using assms(2) by (auto simp: on_i_Some)
  show "\<exists>L'. ipc_at s' T Q L'"
    using ipc_ok_kernel [OF _ search_kernel [OF ipc_at_kernel_ok [OF assms(1)] k(1)]] assms(1) k(2) unfolding ipc_ok_def by blast
qed (use assms(2) in \<open>auto simp: on_i_Some\<close>)

lemma unused_object: "ipc_at s T Q L \<Longrightarrow> q \<notin> Q \<Longrightarrow> \<not> is_sem q s \<and> \<not> is_mutex q s"
  by (auto dest: ipc_atD(3,4))

lemma sem_init_ipc:
  assumes "ipc_at s T Q L" and "q \<notin> Q" and "rt_sem_init q value flag s = Some (rc, s')"
  shows "ipc_ok s' T (insert q Q)"
proof -
  obtain s1 where s1: "on_i object_search s = Some s1" using assms(3) by (auto simp: rt_sem_init_def bind_eq_Some_conv)
  obtain L1 where L1: "ipc_at s1 T Q L1" using search_ipc(1) [OF assms(1) s1] by blast
  have "ipc_at s' T (insert q Q) L1"
    by (rule new_object_ipc [OF L1 assms(2)])
      (use assms(3) s1 unused_object [OF L1 assms(2)] in \<open>auto simp: rt_sem_init_def bind_eq_Some_conv Let_def\<close>)
  then show ?thesis by (auto simp: ipc_ok_def)
qed

lemma sem_create_ipc:
  assumes "ipc_at s T Q L" and "q \<notin> Q" and "rt_sem_create (Some q) value flag s = Some (r, s')"
  shows "ipc_ok s' T (insert q Q)"
proof -
  have "ipc_at s' T (insert q Q) L"
    by (rule new_object_ipc [OF assms(1,2)])
      (use assms(3) unused_object [OF assms(1,2)] in \<open>auto simp: rt_sem_create_def bind_eq_Some_conv Let_def\<close>)
  then show ?thesis by (auto simp: ipc_ok_def)
qed

lemma mutex_init_ipc:
  assumes "ipc_at s T Q L" and "q \<notin> Q" and "rt_mutex_init q flag s = Some (rc, s')"
  shows "ipc_ok s' T (insert q Q)"
proof -
  obtain s1 where s1: "on_i object_search s = Some s1" using assms(3) by (auto simp: rt_mutex_init_def bind_eq_Some_conv)
  obtain L1 where L1: "ipc_at s1 T Q L1" using search_ipc(1) [OF assms(1) s1] by blast
  have "ipc_at s' T (insert q Q) L1"
    by (rule new_object_ipc [OF L1 assms(2)])
      (use assms(3) s1 unused_object [OF L1 assms(2)] in \<open>auto simp: rt_mutex_init_def bind_eq_Some_conv Let_def fresh_mutex_def mutex_ok_def\<close>)
  then show ?thesis by (auto simp: ipc_ok_def)
qed

lemma mutex_create_ipc:
  assumes "ipc_at s T Q L" and "q \<notin> Q" and "rt_mutex_create (Some q) flag s = (r, s')"
  shows "ipc_ok s' T (insert q Q)"
proof -
  have "ipc_at s' T (insert q Q) L"
    by (rule new_object_ipc [OF assms(1,2)])
      (use assms(3) unused_object [OF assms(1,2)] in \<open>auto simp: rt_mutex_create_def Let_def fresh_mutex_def mutex_ok_def\<close>)
  then show ?thesis by (auto simp: ipc_ok_def)
qed

text \<open>Threads that wait.\<close>

lemma only_stat_links: "only_stat (e\<lparr>k_links := K, rt_thread_ready_priority_group := G\<rparr>) e' \<longleftrightarrow> only_stat e e'"
  by (simp add: only_stat_def can_run_def)

lemma block_kernel:
  assumes k: "kernel_at s T Q L" and t: "t \<in> T" "can_run (t_env s) t" and q: "q \<in> Q"
    and s1: "rt_ipc_list_suspend q t flag s = Some s1" and s2: "start_wait t time s1 = Some s2" and s3: "on_k rt_schedule s2 = Some s3"
  shows "\<exists>L'. kernel_at s3 T Q L' \<and> queue_is q (enqueue flag (t_env s) t (L (Suspended q))) L L'"
    and "only_stat (set_stat 2 t (t_env s)) (t_env s3)" and "t \<in> waiting (t_env s3) T"
proof -
  note a = list_suspend_kernel [OF k t q s1]
  obtain L1 where L1: "kernel_at s1 T Q L1" "queue_is q (enqueue flag (t_env s) t (L (Suspended q))) L L1" using a(1) by blast
  note b = start_wait_kernel [OF L1(1) a(2) s2]
  note c = schedule_lists [OF b(1) s3]
  show "\<exists>L'. kernel_at s3 T Q L' \<and> queue_is q (enqueue flag (t_env s) t (L (Suspended q))) L L'"
    using c(1) queue_is_keeps [OF L1(2)] by blast
  show "only_stat (set_stat 2 t (t_env s)) (t_env s3)" using c(2) a(3) b(2) by (auto simp: only_stat_links)
  show "t \<in> waiting (t_env s3) T" using a(2) b(2) only_stat_waiting [OF c(2)] by simp
qed

lemma current_running:
  assumes "kernel_at s T Q L" and "rt_current_thread (t_env s) = Some c" and "thread_stat (t_env s) c = 3"
  shows "c \<in> T" and "can_run (t_env s) c"
  using stats_okD(5) [OF sched_okD(2) [OF kernel_atD(1) [OF assms(1)]] assms(2)] assms(3) by (simp_all add: can_run_def)

lemma sem_wait_ipc:
  assumes a: "ipc_at s T Q L" and c: "rt_current_thread (i_env s) = Some c" "thread_stat (i_env s) c = 3"
    and m: "is_sem q s" "sem_value (sems s q) = 0" and k: "sem_wait q c time s = Some k"
  shows "\<exists>L'. ipc_at (s\<lparr>i_kernel := k\<rparr>) T Q L' \<and> queue_is q (enqueue (sem_flag (sems s q)) (i_env s) c (L (Suspended q))) L L'"
    and "only_stat (set_stat 2 c (t_env (set_error c 0 (i_kernel s)))) (t_env k)" and "c \<in> waiting (t_env k) T"
proof -
  let ?k0 = "set_error c 0 (i_kernel s)"
  obtain k1 k2 where k12: "rt_ipc_list_suspend q c (sem_flag (sems s q)) ?k0 = Some k1" "start_wait c time k1 = Some k2"
      "on_k rt_schedule k2 = Some k"
    using k by (auto simp: sem_wait_def bind_eq_Some_conv)
  note r = current_running [OF ipc_atD(1) [OF a] c]
  have r': "can_run (t_env ?k0) c" using r(2) by simp
  note b = block_kernel [OF set_error_kernel [OF ipc_atD(1) [OF a]] r(1) r' ipc_atD(3) [OF a m(1)] k12]
  let ?W = "enqueue (sem_flag (sems s q)) (i_env s) c (L (Suspended q))"
  have W: "enqueue (sem_flag (sems s q)) (t_env ?k0) c (L (Suspended q)) = ?W" by (rule enqueue_cong) simp
  obtain L' where L': "kernel_at k T Q L'" "queue_is q ?W L L'" using b(1) W by auto
  have "set ?W \<subseteq> allowed s q" using ipc_atD(5) [OF a m(1)] m by (simp add: allowed_def)
  then show "\<exists>L'. ipc_at (s\<lparr>i_kernel := k\<rparr>) T Q L' \<and> queue_is q ?W L L'" using ipc_at_kernel [OF a L'] L'(2) by blast
  show "only_stat (set_stat 2 c (t_env ?k0)) (t_env k)" "c \<in> waiting (t_env k) T" using b(2,3) by simp_all
qed

lemma sem_take_ipc:
  assumes a: "ipc_at s T Q L" and c: "rt_current_thread (i_env s) = Some c" "thread_stat (i_env s) c = 3" and s: "rt_sem_take q time s = Some (r, s')"
  shows "ipc_ok s' T Q"
proof -
  have m: "is_sem q s" using s by (auto simp: rt_sem_take_def bind_eq_Some_conv rt_assert_def split: if_splits)
  show ?thesis
  proof (cases "0 < sem_value (sems s q)")
    case True
    then have "sem_value (sems s q) \<noteq> 0" by auto
    then have "L (Suspended q) = []" using ipc_atD(2) [OF a, of q] m by (cases "L (Suspended q)") (auto simp: allowed_def)
    then have "ipc_at (upd_sem q (sem_value_update (\<lambda>v. v - 1)) s) T Q L" using ipc_at_sem [OF a m] by simp
    then show ?thesis using s m True by (auto simp: ipc_ok_def rt_sem_take_def)
  next
    case False
    then have v: "sem_value (sems s q) = 0" by (simp add: word_gt_0)
    show ?thesis
    proof (cases "time = 0")
      case False
      then obtain k where "sem_wait q c time s = Some k" "s' = s\<lparr>i_kernel := k\<rparr>"
        using s m v c(1) by (auto simp: rt_sem_take_def bind_eq_Some_conv)
      then show ?thesis using sem_wait_ipc(1) [OF a c m v] unfolding ipc_ok_def by blast
    qed (use s m v a in \<open>auto simp: rt_sem_take_def ipc_ok_def\<close>)
  qed
qed

text \<open>A thread is woken up by a release.\<close>

lemma resume_first_ipc:
  assumes a: "ipc_at s T Q L" and q: "q \<in> Q" and L: "L (Suspended q) = t # W" and s: "on_i (rt_ipc_list_resume q) s = Some s'"
  shows "\<exists>L'. ipc_at s' T Q L' \<and> queue_is q W L L'" and "sems s' = sems s" and "mutexes s' = mutexes s"
    and "rt_current_thread (i_env s') = rt_current_thread (i_env s)"
    and "threads (i_env s') = threads (set_stat (if rt_current_thread (i_env s) = Some t then 3 else 1) t (i_env s))"
proof -
  obtain rc k where k: "rt_thread_resume t (i_kernel s) = Some (rc, k)" "s' = s\<lparr>i_kernel := k\<rparr>"
    using s first_waiter_list(2) [OF ipc_atD(1) [OF a] q L] by (auto simp: on_i_Some rt_ipc_list_resume_def bind_eq_Some_conv)
  note r = resume_lists [OF ipc_atD(1) [OF a] L k(1)]
  obtain L' where L': "kernel_at k T Q L'" "queue_is q W L L'" using r(1) by blast
  have "set W \<subseteq> allowed s q" using ipc_atD(2) [OF a, of q] L by auto
  then show "\<exists>L'. ipc_at s' T Q L' \<and> queue_is q W L L'" using ipc_at_kernel [OF a L'] L'(2) k(2) by blast
  show "sems s' = sems s" "mutexes s' = mutexes s" "rt_current_thread (i_env s') = rt_current_thread (i_env s)"
    "threads (i_env s') = threads (set_stat (if rt_current_thread (i_env s) = Some t then 3 else 1) t (i_env s))"
    using r(2,3) k(2) by simp_all
qed

lemma sem_release_ipc:
  assumes a: "ipc_at s T Q L" and s: "rt_sem_release q s = Some (rc, s')"
  shows "ipc_ok s' T Q"
proof -
  have m: "is_sem q s" using s by (auto simp: rt_sem_release_def bind_eq_Some_conv rt_assert_def split: if_splits)
  note q = ipc_atD(3) [OF a m]
  show ?thesis
  proof (cases "L (Suspended q)")
    case Nil
    then have "s' = upd_sem q (sem_value_update (\<lambda>v. v + 1)) s"
      using s m first_waiter_list(1) [OF ipc_atD(1) [OF a] q] by (auto simp: rt_sem_release_def)
    then show ?thesis using ipc_at_sem [OF a m, of "sem_value_update (\<lambda>v. v + 1)"] Nil by (auto simp: ipc_ok_def)
  next
    case (Cons t W)
    then obtain s1 where s1: "on_i (rt_ipc_list_resume q) s = Some s1" "on_i (on_k rt_schedule) s1 = Some s'"
      using s m first_waiter_list(1) [OF ipc_atD(1) [OF a] q] by (auto simp: rt_sem_release_def bind_eq_Some_conv)
    then show ?thesis using resume_first_ipc(1) [OF a q Cons s1(1)] schedule_ipc(1) [OF _ s1(2)] unfolding ipc_ok_def by blast
  qed
qed

lemma resume_all_ipc:
  assumes a: "ipc_at s T Q L" and q: "q \<in> Q" and s: "on_i (rt_ipc_list_resume_all q) s = Some s'"
  shows "\<exists>L'. ipc_at s' T Q L' \<and> queue_is q [] L L'" and "all_woken (L (Suspended q)) (i_env s) (i_env s')"
    and "sems s' = sems s" and "mutexes s' = mutexes s"
proof -
  obtain k where k: "rt_ipc_list_resume_all q (i_kernel s) = Some k" "s' = s\<lparr>i_kernel := k\<rparr>" using s by (auto simp: on_i_Some)
  note r = resume_all_kernel(1) [OF ipc_atD(1) [OF a] q, of k, rule_format, OF k(1)]
  then show "\<exists>L'. ipc_at s' T Q L' \<and> queue_is q [] L L'" using ipc_at_kernel [OF a] k(2) by fastforce
  show "all_woken (L (Suspended q)) (i_env s) (i_env s')" "sems s' = sems s" "mutexes s' = mutexes s" using r k(2) by simp_all
qed

lemma sem_control_ipc:
  assumes a: "ipc_at s T Q L" and s: "rt_sem_control q cmd value s = Some (rc, s')"
  shows "ipc_ok s' T Q"
proof (cases "cmd = 1")
  case True
  have m: "is_sem q s" using s by (auto simp: rt_sem_control_def bind_eq_Some_conv rt_assert_def split: if_splits)
  obtain s1 where s1: "on_i (rt_ipc_list_resume_all q) s = Some s1"
      "on_i (on_k rt_schedule) (upd_sem q (sem_value_update (\<lambda>_. ucast value)) s1) = Some s'"
    using s m True by (auto simp: rt_sem_control_def bind_eq_Some_conv)
  note r = resume_all_ipc [OF a ipc_atD(3) [OF a m] s1(1)]
  obtain L' where L': "ipc_at s1 T Q L'" "L' (Suspended q) = []" using r(1) by (auto simp: queue_is_def)
  have "is_sem q s1" using m r(3) by (simp add: is_sem_def)
  then have "ipc_at (upd_sem q (sem_value_update (\<lambda>_. ucast value)) s1) T Q L'" 
    using ipc_at_sem [OF L'(1), of q "sem_value_update (\<lambda>_. ucast value)"] L'(2) by simp
  then show ?thesis using schedule_ipc(1) [OF _ s1(2)] unfolding ipc_ok_def by blast
qed (use s a in \<open>auto simp: rt_sem_control_def ipc_ok_def bind_eq_Some_conv\<close>)

text \<open>Objects that are given up.\<close>

lemma ipc_at_drop:
  assumes "ipc_at s T Q L" and "i_kernel s' = i_kernel s" and "\<And>r. is_sem r s' \<Longrightarrow> is_sem r s"
    and "\<And>r. is_mutex r s' \<Longrightarrow> is_mutex r s" and "\<And>r. is_mutex r s' \<Longrightarrow> mutexes s' r = mutexes s r" and "\<And>r. set (L (Suspended r)) \<subseteq> allowed s' r"
  shows "ipc_at s' T Q L"
proof -
  have "mutex_ok T (mutexes s' r)" if "is_mutex r s'" for r using ipc_atD(6) [OF assms(1) assms(4) [OF that]] assms(5) [OF that] by simp
  then show ?thesis using ipc_atD(1,3,4,5) [OF assms(1)] assms(2-4,6) unfolding ipc_at_def by metis
qed

lemma gone_ipc:
  assumes a: "ipc_at s T Q L" and q: "is_sem q s \<or> is_mutex q s" and s: "on_i (rt_ipc_list_resume_all q) s = Some s1"
  shows "ipc_ok (upd_sem q (sem_type_update (\<lambda>_. 0)) s1) T Q" and "ipc_ok (upd_mutex q (mutex_type_update (\<lambda>_. 0)) s1) T Q"
proof -
  have "q \<in> Q" using ipc_atD(3,4) [OF a] q by blast
  then obtain L' where L': "ipc_at s1 T Q L'" "L' (Suspended q) = []" using resume_all_ipc(1) [OF a _ s] by (auto simp: queue_is_def)
  let ?s2 = "upd_sem q (sem_type_update (\<lambda>_. 0)) s1" and ?s3 = "upd_mutex q (mutex_type_update (\<lambda>_. 0)) s1"
  have "set (L' (Suspended r)) \<subseteq> allowed ?s2 r" "set (L' (Suspended r)) \<subseteq> allowed ?s3 r" for r
    using ipc_atD(2) [OF L'(1), of r] L'(2) by (cases "r = q"; auto simp: allowed_def)+
  then have "ipc_at ?s2 T Q L'" "ipc_at ?s3 T Q L'" by (intro ipc_at_drop [OF L'(1)]; simp split: if_splits)+
  then show "ipc_ok ?s2 T Q" "ipc_ok ?s3 T Q" by (auto simp: ipc_ok_def)
qed

text \<open>Mutexes. The owner gets another priority.\<close>

lemma owner_priority_kernel:
  assumes k: "kernel_at s T Q L" and u: "u \<in> T" and s: "owner_priority u p s = Some s'"
  shows "\<exists>L'. kernel_at s' T Q L' \<and> (\<forall>q. L' (Suspended q) = L (Suspended q))"
    and "only_stat (upd_thread u (\<lambda>r. r\<lparr>current_priority := p, number_mask := push_bit (unat p) 1\<rparr>) (t_env s)) (t_env s')"
    and "rt_current_thread (t_env s') = rt_current_thread (t_env s)" and "can_run (t_env s') v \<longleftrightarrow> can_run (t_env s) v"
    and "current_priority (thread_of v s') = (if v = u then p else current_priority (thread_of v s))"
proof -
  obtain rc where c: "rt_thread_control u (RT_THREAD_CTRL_CHANGE_PRIORITY p) s = Some (rc, s')"
    using s by (auto simp: owner_priority_def bind_eq_Some_conv)
  note r = priority_kernel [OF k u c]
  show "\<exists>L'. kernel_at s' T Q L' \<and> (\<forall>q. L' (Suspended q) = L (Suspended q))" "rt_current_thread (t_env s') = rt_current_thread (t_env s)"
    "only_stat (upd_thread u (\<lambda>r. r\<lparr>current_priority := p, number_mask := push_bit (unat p) 1\<rparr>) (t_env s)) (t_env s')"
    by (rule r)+
  show "can_run (t_env s') v \<longleftrightarrow> can_run (t_env s) v" using only_statD(6) [OF r(3), of v] by (simp add: can_run_def thread_stat_def)
  show "current_priority (thread_of v s') = (if v = u then p else current_priority (thread_of v s))"
    using only_statD(1) [OF r(3), of v] unfolding unsigned_word_eqI by (simp add: word_unat_eq_iff)
qed

lemma mutex_value_cases:
  assumes a: "ipc_at s T Q L" and m: "is_mutex q s"
  shows "mutex_value (mutexes s q) > 0 \<Longrightarrow> owner (mutexes s q) = None \<and> mutex_value (mutexes s q) = 1 \<and> L (Suspended q) = []"
    and "\<not> mutex_value (mutexes s q) > 0 \<Longrightarrow> mutex_value (mutexes s q) = 0 \<and> (\<exists>u. owner (mutexes s q) = Some u \<and> u \<in> T \<and> u \<notin> set (L (Suspended q)))"
    and "L (Suspended q) \<noteq> [] \<Longrightarrow> \<not> mutex_value (mutexes s q) > 0"
proof -
  note ok = ipc_atD(6) [OF a m]
  note al = ipc_atD(2) [OF a, of q]
  show "owner (mutexes s q) = None \<and> mutex_value (mutexes s q) = 1 \<and> L (Suspended q) = []" if "mutex_value (mutexes s q) > 0"
  proof -
    have "mutex_value (mutexes s q) \<noteq> 0" using that by auto
    then show ?thesis using ok al m by (cases "L (Suspended q)") (auto simp: mutex_ok_def allowed_def split: option.splits)
  qed
  then show "\<not> mutex_value (mutexes s q) > 0" if "L (Suspended q) \<noteq> []" using that by blast
  show "mutex_value (mutexes s q) = 0 \<and> (\<exists>u. owner (mutexes s q) = Some u \<and> u \<in> T \<and> u \<notin> set (L (Suspended q)))"
    if "\<not> mutex_value (mutexes s q) > 0"
  proof -
    have "mutex_value (mutexes s q) = 0" using that by (simp add: word_gt_0)
    then show ?thesis using ok al m by (auto simp: mutex_ok_def allowed_def split: option.splits)
  qed
qed

text \<open>Priority inheritance.\<close>

lemma boost_kernel:
  assumes k: "kernel_at s T Q L" and u: "u \<in> T" "c \<noteq> u" and s: "(if current_priority (thread_of c s) < current_priority (thread_of u s)
      then owner_priority u (current_priority (thread_of c s)) s else Some s) = Some s'"
  shows "\<exists>L'. kernel_at s' T Q L' \<and> (\<forall>q. L' (Suspended q) = L (Suspended q))" and "can_run (t_env s') v \<longleftrightarrow> can_run (t_env s) v"
    and "prio (t_env s') u = min (prio (t_env s) u) (prio (t_env s) c)" and "v \<noteq> u \<Longrightarrow> prio (t_env s') v = prio (t_env s) v"
    and "th_error (thread_of c s') = th_error (thread_of c s)"
proof -
  have "(\<exists>L'. kernel_at s' T Q L' \<and> (\<forall>q. L' (Suspended q) = L (Suspended q))) \<and> (can_run (t_env s') v \<longleftrightarrow> can_run (t_env s) v) \<and>
    prio (t_env s') u = min (prio (t_env s) u) (prio (t_env s) c) \<and> (v \<noteq> u \<longrightarrow> prio (t_env s') v = prio (t_env s) v) \<and>
    th_error (thread_of c s') = th_error (thread_of c s)"
  proof (cases "current_priority (thread_of c s) < current_priority (thread_of u s)")
    case True
    then have p: "owner_priority u (current_priority (thread_of c s)) s = Some s'" using s by simp
    note o = owner_priority_kernel [OF k u(1) p]
    have "th_error (thread_of c s') = th_error (thread_of c s)" using only_statD(3) [OF o(2), of c] u(2) by simp
    then show ?thesis using o(1,4,5) True by (simp add: word_less_nat_alt)
  next
    case False
    then have "s' = s" using s by simp
    then show ?thesis using k False by (auto simp: word_less_nat_alt)
  qed
  then show "\<exists>L'. kernel_at s' T Q L' \<and> (\<forall>q. L' (Suspended q) = L (Suspended q))" "can_run (t_env s') v \<longleftrightarrow> can_run (t_env s) v"
    "prio (t_env s') u = min (prio (t_env s) u) (prio (t_env s) c)" "v \<noteq> u \<Longrightarrow> prio (t_env s') v = prio (t_env s) v"
    "th_error (thread_of c s') = th_error (thread_of c s)" by blast+
qed

lemma mutex_wait_ipc:
  assumes a: "ipc_at s T Q L" and c: "rt_current_thread (i_env s) = Some c" "thread_stat (i_env s) c = 3"
    and m: "is_mutex q s" "owner (mutexes s q) = Some u" "u \<noteq> c" and k: "mutex_wait q c time s = Some k"
  shows "\<exists>L'. ipc_at (s\<lparr>i_kernel := k\<rparr>) T Q L' \<and> queue_is q (enqueue (mutex_flag (mutexes s q)) (i_env s) c (L (Suspended q))) L L'"
    and "c \<in> waiting (t_env k) T" and "prio (t_env k) u = min (prio (i_env s) u) (prio (i_env s) c)"
    and "v \<noteq> u \<Longrightarrow> prio (t_env k) v = prio (i_env s) v" and "th_error (thread_of c k) = th_error (thread_of c (i_kernel s))"
proof -
  let ?k = "i_kernel s" and ?f = "mutex_flag (mutexes s q)"
  note ka = ipc_atD(1) [OF a]
  note r = current_running [OF ka c]
  have "\<not> mutex_value (mutexes s q) > 0" using mutex_value_cases(1) [OF a m(1)] m(2) by auto
  then have u: "u \<in> T" "u \<notin> set (L (Suspended q))" "mutex_value (mutexes s q) = 0" using mutex_value_cases(2) [OF a m(1)] m(2) by auto
  obtain k0 k1 k2 where k0: "(if current_priority (thread_of c ?k) < current_priority (thread_of u ?k)
        then owner_priority u (current_priority (thread_of c ?k)) ?k else Some ?k) = Some k0"
    and k12: "rt_ipc_list_suspend q c ?f k0 = Some k1" "start_wait c time k1 = Some k2" "on_k rt_schedule k2 = Some k"
    using k m(2) by (auto simp: mutex_wait_def bind_eq_Some_conv Let_def)
  note bo = boost_kernel [OF ka u(1) m(3) [symmetric] k0]
  have cr: "can_run (t_env k0) c" using bo(2) r(2) by simp
  obtain L0 where L0: "kernel_at k0 T Q L0" "\<forall>q. L0 (Suspended q) = L (Suspended q)" using bo(1) by blast
  note b = block_kernel [OF L0(1) r(1) cr ipc_atD(4) [OF a m(1)] k12]
  let ?W = "enqueue ?f (i_env s) c (L (Suspended q))"
  have cq: "c \<notin> set (L (Suspended q))" using stat_notin(2) [OF kernel_atD(1) [OF ka] r(1)] c(2) by simp
  have "enqueue ?f (t_env k0) c (L0 (Suspended q)) = ?W" unfolding L0(2) [rule_format] by (rule enqueue_cong, rule bo(4)) (use u(2) m(3) in auto)
  then obtain L' where L': "kernel_at k T Q L'" "queue_is q ?W L L'" using b(1) L0(2) by (auto simp: queue_is_def)
  have "set ?W \<subseteq> allowed s q"
    using set_enqueue [of ?f "i_env s" c "L (Suspended q)"] ipc_atD(2) [OF a, of q] u(3) m ipc_atD(5) [OF a, of q] by (auto simp: allowed_def)
  then show "\<exists>L'. ipc_at (s\<lparr>i_kernel := k\<rparr>) T Q L' \<and> queue_is q ?W L L'" using ipc_at_kernel [OF a L'] L'(2) by blast
  show "c \<in> waiting (t_env k) T" by (rule b(3))
  show "prio (t_env k) u = min (prio (i_env s) u) (prio (i_env s) c)" "v \<noteq> u \<Longrightarrow> prio (t_env k) v = prio (i_env s) v"
    "th_error (thread_of c k) = th_error (thread_of c (i_kernel s))"
    using only_statD(1,3) [OF b(2)] bo(3-5) by simp_all
qed

lemma priority_small: "kernel_at s T Q L \<Longrightarrow> t \<in> T \<Longrightarrow> current_priority (thread_of t s) < 32"
  using queues_okD(3) [OF sched_okD(1) [OF kernel_atD(1)], of s T Q L t] by (simp add: word_less_nat_alt)

lemma mutex_again_ipc:
  assumes a: "ipc_at s T Q L" and c: "rt_current_thread (i_env s) = Some c" "thread_stat (i_env s) c = 3"
    and m: "is_mutex q s" "owner (mutexes s q) \<noteq> Some c" and s: "mutex_again q c time s = Some (r, s')"
  shows "ipc_ok s' T Q"
proof (cases "mutex_value (mutexes s q) > 0")
  case True
  note v = mutex_value_cases(1) [OF a m(1) True]
  have cT: "c \<in> T" by (rule current_running(1) [OF ipc_atD(1) [OF a] c])
  note cp = priority_small [OF ipc_atD(1) [OF a] cT]
  let ?f = "\<lambda>r. r\<lparr>mutex_value := mutex_value r - 1, owner := Some c,
    original_priority := current_priority (thread_of c (i_kernel s)), hold := hold r + 1\<rparr>"
  have "ipc_at (upd_mutex q ?f s) T Q L" by (rule ipc_at_mutex [OF a m(1)]) (use v cT cp in \<open>simp_all add: mutex_ok_def\<close>)
  then show ?thesis using s True by (auto simp: mutex_again_def ipc_ok_def)
next
  case False
  then obtain u where u: "owner (mutexes s q) = Some u" using mutex_value_cases(2) [OF a m(1)] by blast
  show ?thesis
  proof (cases "time = 0")
    case True
    then have "s' = s\<lparr>i_kernel := set_error c (- 2) (i_kernel s)\<rparr>" using s False by (simp add: mutex_again_def)
    then show ?thesis
      using ipc_at_kernel [OF a set_error_kernel [OF ipc_atD(1) [OF a]] queue_is_refl ipc_atD(2) [OF a, of q]] by (auto simp: ipc_ok_def)
  next
    case F: False
    then obtain k where "mutex_wait q c time s = Some k" "s' = s\<lparr>i_kernel := k\<rparr>"
      using s False by (auto simp: mutex_again_def bind_eq_Some_conv)
    then show ?thesis using mutex_wait_ipc(1) [OF a c m(1) u] m(2) u unfolding ipc_ok_def by blast
  qed
qed

lemma ipc_at_error: "ipc_at s T Q L \<Longrightarrow> ipc_at (s\<lparr>i_kernel := set_error t e (i_kernel s)\<rparr>) T Q L"
  using ipc_at_kernel [OF _ set_error_kernel queue_is_refl, of s T Q L] ipc_atD(1,2) by blast

lemma hold_ipc:
  assumes a: "ipc_at s T Q L" and m: "is_mutex q s"
  shows "ipc_at (upd_mutex q (hold_update f) s) T Q L"
  by (rule ipc_at_mutex [OF a m])
    (use ipc_atD(2) [OF a, of q] ipc_atD(6) [OF a m] m in \<open>auto simp: mutex_ok_def allowed_def split: option.splits\<close>)

lemma mutex_take_ipc:
  assumes a: "ipc_at s T Q L" and c: "rt_current_thread (i_env s) = Some c" "thread_stat (i_env s) c = 3" and s: "rt_mutex_take q time s = Some (r, s')"
  shows "ipc_ok s' T Q"
proof -
  have m: "is_mutex q s" using s by (auto simp: rt_mutex_take_def bind_eq_Some_conv rt_assert_def split: if_splits)
  let ?s = "s\<lparr>i_kernel := set_error c 0 (i_kernel s)\<rparr>"
  note a' = ipc_at_error [OF a, of c 0]
  have m': "is_mutex q ?s" using m by simp
  show ?thesis
  proof (cases "owner (mutexes s q) = Some c")
    case True
    then show ?thesis using s c m hold_ipc [OF a' m'] by (auto simp: rt_mutex_take_def ipc_ok_def Let_def)
  next
    case False
    then have "mutex_again q c time ?s = Some (r, s')" using s c m by (simp add: rt_mutex_take_def Let_def)
    then show ?thesis using mutex_again_ipc [OF a' _ _ m'] c False by simp
  qed
qed

lemma on_i_upd_mutex: "on_i f (upd_mutex q g s) = Option.bind (on_i f s) (\<lambda>s'. Some (upd_mutex q g s'))"
  by (cases "f (i_kernel s)") (simp_all add: on_i_def upd_mutex_def)

text \<open>A mutex that is given to the first thread that waits for it.\<close>

lemma hand_over_ipc:
  assumes a: "ipc_at s T Q L" and m: "is_mutex q s" and L: "L (Suspended q) = u # W"
    and f: "\<And>r. mutex_type (f r) = mutex_type r \<and> mutex_value (f r) = mutex_value r \<and> owner (f r) = Some u \<and>
      original_priority (f r) = current_priority (thread_of u (i_kernel s))"
    and s: "on_i (rt_ipc_list_resume q) (upd_mutex q f s) = Some s'"
  shows "\<exists>L'. ipc_at s' T Q L' \<and> queue_is q W L L'" and "sems s' = sems s" and "mutexes s' = (mutexes s)(q := f (mutexes s q))"
    and "rt_current_thread (i_env s') = rt_current_thread (i_env s)"
    and "threads (i_env s') = threads (set_stat (if rt_current_thread (i_env s) = Some u then 3 else 1) u (i_env s))"
proof -
  obtain s1 where s1: "on_i (rt_ipc_list_resume q) s = Some s1" "s' = upd_mutex q f s1" using s unfolding on_i_upd_mutex by (auto simp: bind_eq_Some_conv)
  note r = resume_first_ipc [OF a ipc_atD(4) [OF a m] L s1(1)]
  obtain L' where L': "ipc_at s1 T Q L'" "queue_is q W L L'" using r(1) by blast
  have W: "L' (Suspended q) = W" using L'(2) by (simp add: queue_is_def)
  have m1: "is_mutex q s1" using m r(3) by (simp add: is_mutex_def)
  have u: "u \<in> T" "u \<notin> set W" using waiter_facts(1) [OF ipc_atD(1) [OF a], of u q] waiters_distinct [OF ipc_atD(1) [OF a], of "Suspended q"] L by simp_all
  have v: "mutex_value (mutexes s q) = 0" using mutex_value_cases(2,3) [OF a m] L by simp
  have "ipc_at s' T Q L'"
    unfolding s1(2) by (rule ipc_at_mutex [OF L'(1) m1]) (use f u v r(3) W priority_small [OF ipc_atD(1) [OF a] u(1)] in \<open>auto simp: mutex_ok_def\<close>)
  then show "\<exists>L'. ipc_at s' T Q L' \<and> queue_is q W L L'" using L'(2) by blast
  show "sems s' = sems s" "mutexes s' = (mutexes s)(q := f (mutexes s q))" "rt_current_thread (i_env s') = rt_current_thread (i_env s)"
    "threads (i_env s') = threads (set_stat (if rt_current_thread (i_env s) = Some u then 3 else 1) u (i_env s))"
    using r s1(2) by simp_all
qed

lemma restore_ipc:
  assumes a: "ipc_at s T Q L" and c: "c \<in> T"
    and s: "(if p \<noteq> current_priority (thread_of c (i_kernel s)) then on_i (owner_priority c p) s else Some s) = Some s'"
  shows "\<exists>L'. ipc_at s' T Q L' \<and> (\<forall>q. L' (Suspended q) = L (Suspended q))" and "sems s' = sems s" and "mutexes s' = mutexes s"
    and "rt_current_thread (i_env s') = rt_current_thread (i_env s)" and "can_run (i_env s') v \<longleftrightarrow> can_run (i_env s) v"
    and "current_priority (thread_of v (i_kernel s')) = (if v = c then p else current_priority (thread_of v (i_kernel s)))"
    and "th_error (thread_of v (i_kernel s')) = th_error (thread_of v (i_kernel s))"
proof -
  have "(\<exists>L'. ipc_at s' T Q L' \<and> (\<forall>q. L' (Suspended q) = L (Suspended q))) \<and> sems s' = sems s \<and> mutexes s' = mutexes s \<and>
    rt_current_thread (i_env s') = rt_current_thread (i_env s) \<and> (can_run (i_env s') v \<longleftrightarrow> can_run (i_env s) v) \<and>
    current_priority (thread_of v (i_kernel s')) = (if v = c then p else current_priority (thread_of v (i_kernel s))) \<and>
    th_error (thread_of v (i_kernel s')) = th_error (thread_of v (i_kernel s))"
  proof (cases "p = current_priority (thread_of c (i_kernel s))")
    case False
    then obtain k where k: "owner_priority c p (i_kernel s) = Some k" "s' = s\<lparr>i_kernel := k\<rparr>" using s by (auto simp: on_i_Some)
    note o = owner_priority_kernel [OF ipc_atD(1) [OF a] c k(1)]
    obtain L' where L': "kernel_at k T Q L'" "\<forall>q. L' (Suspended q) = L (Suspended q)" using o(1) by blast
    then have "queue_is 0 (L (Suspended 0)) L L'" by (simp add: queue_is_def)
    then have "ipc_at s' T Q L'" using ipc_at_kernel [OF a L'(1) _ ipc_atD(2) [OF a]] k(2) by blast
    moreover have "th_error (thread_of v k) = th_error (thread_of v (i_kernel s))" using only_statD(3) [OF o(2), of v] by (simp split: if_splits)
    ultimately show ?thesis using L'(2) o(3-5) k(2) by auto
  qed (use s a in auto)
  then show "\<exists>L'. ipc_at s' T Q L' \<and> (\<forall>q. L' (Suspended q) = L (Suspended q))" "sems s' = sems s" "mutexes s' = mutexes s"
    "rt_current_thread (i_env s') = rt_current_thread (i_env s)" "can_run (i_env s') v \<longleftrightarrow> can_run (i_env s) v"
    "current_priority (thread_of v (i_kernel s')) = (if v = c then p else current_priority (thread_of v (i_kernel s)))"
    "th_error (thread_of v (i_kernel s')) = th_error (thread_of v (i_kernel s))" by blast+
qed

text \<open>A mutex is passed on.\<close>

lemma pass_on_free:
  assumes a: "ipc_at s T Q L" and m: "is_mutex q s" and v: "mutex_value (mutexes s q) = 0" and L: "L (Suspended q) = []" and s: "mutex_pass_on q s = Some s'"
  shows "ipc_at s' T Q L" and "s' = upd_mutex q (\<lambda>r. r\<lparr>mutex_value := 1, owner := None, original_priority := 0xFF\<rparr>) s"
proof -
  have "s' = upd_mutex q (\<lambda>r. r\<lparr>mutex_value := mutex_value r + 1, owner := None, original_priority := 0xFF\<rparr>) s"
    using s first_waiter_list(1) [OF ipc_atD(1) [OF a] ipc_atD(4) [OF a m]] L by (simp add: mutex_pass_on_def)
  then show e: "s' = upd_mutex q (\<lambda>r. r\<lparr>mutex_value := 1, owner := None, original_priority := 0xFF\<rparr>) s" using v by (simp add: upd_mutex_def)
  show "ipc_at s' T Q L" unfolding e by (rule ipc_at_mutex [OF a m]) (use L in \<open>simp_all add: mutex_ok_def\<close>)
qed

lemma pass_on_waiter:
  assumes a: "ipc_at s T Q L" and m: "is_mutex q s" and L: "L (Suspended q) = u # W" and s: "mutex_pass_on q s = Some s'"
  shows "\<exists>L'. ipc_at s' T Q L' \<and> queue_is q W L L'" and "sems s' = sems s"
    and "mutexes s' = (mutexes s)(q := (mutexes s q)\<lparr>owner := Some u, original_priority := current_priority (thread_of u (i_kernel s)),
      hold := hold (mutexes s q) + 1\<rparr>)"
    and "current_priority (thread_of v (i_kernel s')) = current_priority (thread_of v (i_kernel s))" and "can_run (i_env s') u"
    and "th_error (thread_of u (i_kernel s')) = th_error (thread_of u (i_kernel s))"
proof -
  let ?f = "\<lambda>r. r\<lparr>owner := Some u, original_priority := current_priority (thread_of u (i_kernel s)), hold := hold r + 1\<rparr>"
  obtain s1 where s1: "on_i (rt_ipc_list_resume q) (upd_mutex q ?f s) = Some s1" "on_i (on_k rt_schedule) s1 = Some s'"
    using s first_waiter_list [OF ipc_atD(1) [OF a] ipc_atD(4) [OF a m]] L by (auto simp: mutex_pass_on_def bind_eq_Some_conv Let_def)
  have f: "mutex_type (?f r) = mutex_type r \<and> mutex_value (?f r) = mutex_value r \<and> owner (?f r) = Some u \<and>
    original_priority (?f r) = current_priority (thread_of u (i_kernel s))" for r by simp
  note ho = hand_over_ipc [OF a m L f s1(1)]
  obtain L1 where L1: "ipc_at s1 T Q L1" "queue_is q W L L1" using ho(1) by blast
  note sc = schedule_ipc [OF L1(1) s1(2)]
  show "\<exists>L'. ipc_at s' T Q L' \<and> queue_is q W L L'" using sc(1) queue_is_keeps [OF L1(2)] by blast
  have "thread_stat (i_env s1) u = thread_stat (set_stat (if rt_current_thread (i_env s) = Some u then 3 else 1) u (i_env s)) u"
    using ho(5) by (simp add: thread_stat_def)
  then show "can_run (i_env s') u" using only_statD(6) [OF sc(2), of u] by (simp add: can_run_def)
  show "current_priority (thread_of v (i_kernel s')) = current_priority (thread_of v (i_kernel s))"
    using only_statD(1) [OF sc(2), of v] ho(5) by (simp add: word_unat_eq_iff)
  show "th_error (thread_of u (i_kernel s')) = th_error (thread_of u (i_kernel s))" using only_statD(3) [OF sc(2), of u] ho(5) by simp
  show "sems s' = sems s" "mutexes s' = (mutexes s)(q := (mutexes s q)\<lparr>owner := Some u,
      original_priority := current_priority (thread_of u (i_kernel s)), hold := hold (mutexes s q) + 1\<rparr>)" using sc(3,4) ho(2,3) by simp_all
qed

text \<open>What \<open>rt_mutex_release\<close> can do.\<close>

lemma mutex_release_cases [consumes 4, case_names not_owner nested free hand_over]:
  assumes a: "ipc_at s T Q L" and m: "is_mutex q s" and c: "rt_current_thread (i_env s) = Some c" and s: "rt_mutex_release q s = Some (rc, s')"
  obtains (not_owner) "owner (mutexes s q) \<noteq> Some c" and "rc = - 1" and "s' = s\<lparr>i_kernel := set_error c (- 1) (i_kernel s)\<rparr>"
  | (nested) "owner (mutexes s q) = Some c" and "hold (mutexes s q) \<noteq> 1" and "rc = 0" and "s' = upd_mutex q (hold_update (\<lambda>h. h - 1)) s"
  | (free) L' where "owner (mutexes s q) = Some c" and "hold (mutexes s q) = 1" and "L (Suspended q) = []" and "rc = 0" and "ipc_at s' T Q L'"
      and "\<forall>r. L' (Suspended r) = L (Suspended r)" and "sems s' = sems s"
      and "mutexes s' = (mutexes s)(q := (mutexes s q)\<lparr>hold := 0, mutex_value := 1, owner := None, original_priority := 0xFF\<rparr>)"
      and "current_priority (thread_of c (i_kernel s')) = original_priority (mutexes s q)"
  | (hand_over) L' u W where "owner (mutexes s q) = Some c" and "hold (mutexes s q) = 1" and "L (Suspended q) = u # W" and "rc = 0" and "ipc_at s' T Q L'"
      and "queue_is q W L L'" and "sems s' = sems s"
      and "mutexes s' = (mutexes s)(q := (mutexes s q)\<lparr>owner := Some u, original_priority := current_priority (thread_of u (i_kernel s)), hold := 1\<rparr>)"
      and "current_priority (thread_of c (i_kernel s')) = original_priority (mutexes s q)" and "can_run (i_env s') u"
      and "th_error (thread_of u (i_kernel s')) = th_error (thread_of u (i_kernel s))"
proof (cases "owner (mutexes s q) = Some c")
  case False
  then show thesis using not_owner s m c by (auto simp: rt_mutex_release_def)
next
  case own: True
  have cT: "c \<in> T" using stats_okD(5) [OF sched_okD(2) [OF kernel_atD(1) [OF ipc_atD(1) [OF a]]] c] by simp
  show thesis
  proof (cases "hold (mutexes s q) = 1")
    case False
    then have "hold (mutexes s q) - 1 \<noteq> 0" by simp
    then show thesis using nested [OF own False] s m c own by (simp add: rt_mutex_release_def Let_def)
  next
    case h: True
    define s1 where s1: "s1 = upd_mutex q (hold_update (\<lambda>h. h - 1)) s"
    have a1: "ipc_at s1 T Q L" unfolding s1 by (rule hold_ipc [OF a m])
    have m1: "mutexes s1 q = (mutexes s q)\<lparr>hold := 0\<rparr>" "is_mutex q s1" "sems s1 = sems s" "i_kernel s1 = i_kernel s"
      using h m by (simp_all add: s1 is_mutex_def)
    let ?p = "original_priority (mutexes s q)"
    have "rt_mutex_release q s = do {
        s \<leftarrow> (if ?p \<noteq> current_priority (thread_of c (i_kernel s1)) then on_i (owner_priority c ?p) s1 else Some s1);
        s \<leftarrow> mutex_pass_on q s; Some (0, s) }"
      using own m c m1(1) h unfolding rt_mutex_release_def Let_def s1 [symmetric] by simp
    from trans [OF this [symmetric] s] obtain s2 where s2: "(if ?p \<noteq> current_priority (thread_of c (i_kernel s1)) then on_i (owner_priority c ?p) s1 else Some s1) = Some s2"
        and fin: "mutex_pass_on q s2 = Some s'" "rc = 0"
      by (auto simp only: bind_eq_Some_conv option.inject prod.inject)
    note re = restore_ipc [OF a1 cT s2]
    obtain L2 where L2: "ipc_at s2 T Q L2" "\<forall>r. L2 (Suspended r) = L (Suspended r)" using re(1) by blast
    have m2: "is_mutex q s2" using m1(2) re(3) by (simp add: is_mutex_def)
    have v: "mutex_value (mutexes s q) = 0" using mutex_value_cases(1,2) [OF a m] own by auto
    then have v2: "mutex_value (mutexes s2 q) = 0" using re(3) m1(1) by simp
    show thesis
    proof (cases "L (Suspended q)")
      case Nil
      then have "L2 (Suspended q) = []" using L2(2) by simp
      note p = pass_on_free [OF L2(1) m2 v2 this fin(1)]
      show thesis by (rule free [OF own h Nil fin(2) p(1) L2(2)]) (use p(2) re(2,3,6) m1 in \<open>simp_all add: s1\<close>)
    next
      case (Cons u W)
      then have "L2 (Suspended q) = u # W" using L2(2) by simp
      note p = pass_on_waiter [OF L2(1) m2 this fin(1)]
      obtain L' where L': "ipc_at s' T Q L'" "queue_is q W L L'" using p(1) L2(2) by (auto simp: queue_is_def)
      have uc: "u \<noteq> c" using mutex_value_cases(2,3) [OF a m] own Cons by auto
      show thesis
        by (rule hand_over [OF own h Cons fin(2) L']) (use p(2-6) re(2,3,6,7) m1 uc in \<open>simp_all add: s1 h\<close>)
    qed
  qed
qed

lemma mutex_release_ipc:
  assumes a: "ipc_at s T Q L" and s: "rt_mutex_release q s = Some (rc, s')"
  shows "ipc_ok s' T Q"
proof -
  have m: "is_mutex q s" using s by (auto simp: rt_mutex_release_def bind_eq_Some_conv rt_assert_def split: if_splits)
  obtain c where c: "rt_current_thread (i_env s) = Some c" using s by (auto simp: rt_mutex_release_def bind_eq_Some_conv)
  from a m c s show ?thesis
    by (cases rule: mutex_release_cases) (use ipc_at_error [OF a] hold_ipc [OF a m] in \<open>auto simp: ipc_ok_def\<close>)
qed

subsection \<open>All uses of the objects\<close>

text \<open>
  The steps: everything that threads, the scheduler and the clock do, and every operation on semaphores and mutexes. Names of
  objects are not used again; the caller of an operation that may wait is running. A thread that runs again after waiting for a
  mutex goes on in \<open>rt_mutex_take\<close>; its error is never \<open>RT_EINTR\<close>, which only signals set.
\<close>

definition running :: "ipc \<Rightarrow> bool" where
  "running s \<longleftrightarrow> (case rt_current_thread (i_env s) of None \<Rightarrow> False | Some c \<Rightarrow> thread_stat (i_env s) c = RT_THREAD_RUNNING)"

inductive ipc_op :: "nat set \<Rightarrow> nat set \<Rightarrow> ipc \<Rightarrow> nat set \<Rightarrow> nat set \<Rightarrow> ipc \<Rightarrow> bool" where
  i_thread: "thread_op T (i_kernel s) T' k \<Longrightarrow> ipc_op T Q s T' Q (s\<lparr>i_kernel := k\<rparr>)"
| i_sem_init: "q \<notin> Q \<Longrightarrow> rt_sem_init q value flag s = Some (rc, s') \<Longrightarrow> ipc_op T Q s T (insert q Q) s'"
| i_sem_create: "q \<notin> Q \<Longrightarrow> rt_sem_create (Some q) value flag s = Some (r, s') \<Longrightarrow> ipc_op T Q s T (insert q Q) s'"
| i_sem_detach: "rt_sem_detach q s = Some (rc, s') \<Longrightarrow> ipc_op T Q s T Q s'"
| i_sem_delete: "rt_sem_delete q s = Some (rc, s') \<Longrightarrow> ipc_op T Q s T Q s'"
| i_sem_take: "running s \<Longrightarrow> rt_sem_take q time s = Some (out, s') \<Longrightarrow> ipc_op T Q s T Q s'"
| i_sem_release: "rt_sem_release q s = Some (rc, s') \<Longrightarrow> ipc_op T Q s T Q s'"
| i_sem_control: "rt_sem_control q cmd value s = Some (rc, s') \<Longrightarrow> ipc_op T Q s T Q s'"
| i_mutex_init: "q \<notin> Q \<Longrightarrow> rt_mutex_init q flag s = Some (rc, s') \<Longrightarrow> ipc_op T Q s T (insert q Q) s'"
| i_mutex_create: "q \<notin> Q \<Longrightarrow> rt_mutex_create (Some q) flag s = (r, s') \<Longrightarrow> ipc_op T Q s T (insert q Q) s'"
| i_mutex_detach: "rt_mutex_detach q s = Some (rc, s') \<Longrightarrow> ipc_op T Q s T Q s'"
| i_mutex_delete: "rt_mutex_delete q s = Some (rc, s') \<Longrightarrow> ipc_op T Q s T Q s'"
| i_mutex_take: "running s \<Longrightarrow> rt_mutex_take q time s = Some (out, s') \<Longrightarrow> ipc_op T Q s T Q s'"
| i_mutex_return: "th_error (thread_of t (i_kernel s)) \<noteq> - RT_EINTR \<Longrightarrow> mutex_take_return q t time s = Some (out, s') \<Longrightarrow> ipc_op T Q s T Q s'"
| i_mutex_release: "rt_mutex_release q s = Some (rc, s') \<Longrightarrow> ipc_op T Q s T Q s'"

inductive ipc_reach :: "nat set \<Rightarrow> nat set \<Rightarrow> ipc \<Rightarrow> bool" where
  i_boot: "k_reach T (i_kernel s) \<Longrightarrow> (\<And>q. sem_type (sems s q) = 0 \<and> mutex_type (mutexes s q) = 0) \<Longrightarrow> ipc_reach T {} s"
| i_step: "ipc_reach T Q s \<Longrightarrow> ipc_op T Q s T' Q' s' \<Longrightarrow> ipc_reach T' Q' s'"

lemma thread_op_mono: "thread_op T s T' s' \<Longrightarrow> T \<subseteq> T'"
  by (auto elim!: thread_op.cases)

lemma thread_ipc:
  assumes a: "ipc_at s T Q L" and k: "thread_op T (i_kernel s) T' k"
  shows "ipc_ok (s\<lparr>i_kernel := k\<rparr>) T' Q"
proof -
  have mono: "mutex_ok T' m" if "mutex_ok T m" for m using that thread_op_mono [OF k] by (auto simp: mutex_ok_def split: option.splits)
  have "kernel_ok k T' Q (allowed s)" by (rule thread_op_ok [OF k ipc_at_kernel_ok [OF a]])
  then obtain L' where "kernel_at k T' Q L'" "\<forall>q. set (L' (Suspended q)) \<subseteq> allowed s q" by (auto simp: kernel_ok_def)
  moreover have "allowed (s\<lparr>i_kernel := k\<rparr>) q = allowed s q" for q by (simp add: allowed_def)
  ultimately have "ipc_at (s\<lparr>i_kernel := k\<rparr>) T' Q L'" using a mono unfolding ipc_at_def by simp
  then show ?thesis by (auto simp: ipc_ok_def)
qed

lemma running_current: "running s \<Longrightarrow> \<exists>c. rt_current_thread (i_env s) = Some c \<and> thread_stat (i_env s) c = 3"
  by (auto simp: running_def split: option.splits)

lemma ipc_op_ok:
  assumes "ipc_op T Q s T' Q' s'" and "ipc_ok s T Q"
  shows "ipc_ok s' T' Q'"
proof -
  obtain L where a: "ipc_at s T Q L" using assms(2) by (auto simp: ipc_ok_def)
  from assms(1) show ?thesis
  proof cases
    case (i_sem_detach q rc)
    then show ?thesis using gone_ipc(1) [OF a, of q] by (auto simp: rt_sem_detach_def bind_eq_Some_conv rt_assert_def split: if_splits)
  next
    case (i_sem_delete q rc)
    then show ?thesis using gone_ipc(1) [OF a, of q] by (auto simp: rt_sem_delete_def bind_eq_Some_conv rt_assert_def split: if_splits)
  next
    case (i_mutex_detach q rc)
    then show ?thesis using gone_ipc(2) [OF a, of q] by (auto simp: rt_mutex_detach_def bind_eq_Some_conv rt_assert_def split: if_splits)
  next
    case (i_mutex_delete q rc)
    then show ?thesis using gone_ipc(2) [OF a, of q] by (auto simp: rt_mutex_delete_def bind_eq_Some_conv rt_assert_def split: if_splits)
  next
    case (i_sem_take q time out)
    then show ?thesis using running_current sem_take_ipc [OF a] by blast
  next
    case (i_mutex_take q time out)
    then show ?thesis using running_current mutex_take_ipc [OF a] by blast
  next
    case (i_mutex_return t q time out)
    then show ?thesis using assms(2) by (auto simp: mutex_take_return_def Let_def split: if_splits)
  next
    case (i_thread k)
    then show ?thesis using thread_ipc [OF a] by simp
  next
    case (i_sem_init q v flag rc)
    then show ?thesis using sem_init_ipc [OF a] by simp
  next
    case (i_sem_create q v flag r)
    then show ?thesis using sem_create_ipc [OF a] by simp
  next
    case (i_sem_release q rc)
    then show ?thesis using sem_release_ipc [OF a] by simp
  next
    case (i_sem_control q cmd v rc)
    then show ?thesis using sem_control_ipc [OF a] by simp
  next
    case (i_mutex_init q flag rc)
    then show ?thesis using mutex_init_ipc [OF a] by simp
  next
    case (i_mutex_create q flag r)
    then show ?thesis using mutex_create_ipc [OF a] by simp
  next
    case (i_mutex_release q rc)
    then show ?thesis using mutex_release_ipc [OF a] by simp
  qed
qed

lemma ipc_reach_ok: "ipc_reach T Q s \<Longrightarrow> ipc_ok s T Q"
proof (induction rule: ipc_reach.induct)
  case (i_boot T s)
  obtain L where L: "kernel_at (i_kernel s) T {} L" "\<And>q. L (Suspended q) = []" using k_reach_ok [OF i_boot(1)] by (auto simp: kernel_ok_def)
  have "\<not> is_sem q s" "\<not> is_mutex q s" for q using i_boot(2) by (simp_all add: is_sem_def is_mutex_def)
  then show ?case using L by (auto simp: ipc_ok_def ipc_at_def intro!: exI [of _ L])
qed (rule ipc_op_ok)

end
