(* ===== verification/SyncProps.thy ===== *)
theory SyncProps
  imports Sync
begin

text \<open>
  The guarantees of semaphores and mutexes in every state that can be reached: intact lists of waiting threads, semaphores as
  counters with a queue, timeouts, the end of a semaphore, priority inheritance, the hand-over of a mutex, and the
  width of the counter of nested takes.
\<close>

subsection \<open>Lists of waiting threads\<close>

definition waits_for :: "ipc \<Rightarrow> nat \<Rightarrow> nat list \<Rightarrow> bool" where
  "waits_for s q W \<longleftrightarrow> dlist (k_links (i_env s)) (Head (Suspended q)) (map Tlist W)"

lemma path_unique:
  assumes "path s a xs b" and "path s a ys b" and "b \<notin> set xs" and "b \<notin> set ys"
  shows "xs = ys"
  using assms
proof (induction xs arbitrary: a ys)
  case Nil
  then show ?case by (cases ys) auto
next
  case (Cons x xs)
  then show ?case by (cases ys) auto
qed

lemma dlist_unique: "dlist s l xs \<Longrightarrow> dlist s l ys \<Longrightarrow> xs = ys"
  by (auto simp: dlist_def intro: path_unique)

lemma waits_for_iff:
  assumes "ipc_at s T Q L" and "q \<in> Q"
  shows "waits_for s q W \<longleftrightarrow> W = L (Suspended q)"
proof -
  note d = waiting_list [OF ipc_atD(1) [OF assms(1)] assms(2)]
  show ?thesis
  proof
    assume "waits_for s q W"
    then have "map Tlist W = map Tlist (L (Suspended q))" unfolding waits_for_def by (rule dlist_unique [OF _ d])
    then show "W = L (Suspended q)" by (rule map_injective) (simp add: inj_def)
  qed (use d in \<open>simp add: waits_for_def\<close>)
qed

text \<open>
  C2. Threads wait only while there is nothing to take: in every state that can be reached by any sequence of operations on
  threads, semaphores and mutexes and ticks of the clock, the list of the threads that wait for an object is an
  intact ring of suspended threads. If a thread waits for a semaphore, its value is 0. A mutex without owner
  has the value 1 and nobody waits for it; a mutex with an owner has the value 0, and the owner does not
  wait for it.
\<close>

theorem wait_lists_consistent:
  assumes "ipc_reach T Q s" and "is_sem q s \<or> is_mutex q s"
  shows "\<exists>W. waits_for s q W \<and> (\<forall>t \<in> set W. t \<in> T \<and> thread_stat (i_env s) t = 2) \<and>
    (is_sem q s \<longrightarrow> W = [] \<or> sem_value (sems s q) = 0) \<and>
    (is_mutex q s \<longrightarrow> (case owner (mutexes s q) of None \<Rightarrow> mutex_value (mutexes s q) = 1 \<and> W = []
       | Some u \<Rightarrow> mutex_value (mutexes s q) = 0 \<and> u \<in> T \<and> u \<notin> set W))"
proof -
  obtain L where a: "ipc_at s T Q L" using ipc_reach_ok [OF assms(1)] by (auto simp: ipc_ok_def)
  have q: "q \<in> Q" using ipc_atD(3,4) [OF a] assms(2) by blast
  let ?W = "L (Suspended q)"
  have "\<forall>t \<in> set ?W. t \<in> T \<and> thread_stat (i_env s) t = 2" using waiter_facts [OF ipc_atD(1) [OF a]] by blast
  moreover have "?W = [] \<or> sem_value (sems s q) = 0" if "is_sem q s"
    using ipc_atD(2) [OF a, of q] that by (cases ?W) (auto simp: allowed_def)
  moreover have "case owner (mutexes s q) of None \<Rightarrow> mutex_value (mutexes s q) = 1 \<and> ?W = []
      | Some u \<Rightarrow> mutex_value (mutexes s q) = 0 \<and> u \<in> T \<and> u \<notin> set ?W" if m: "is_mutex q s"
    using mutex_value_cases(1,2) [OF a m] ipc_atD(6) [OF a m] by (auto simp: mutex_ok_def split: option.splits)
  ultimately show ?thesis using waits_for_iff [OF a q] by blast
qed

subsection \<open>Waiting always comes to a decision\<close>

lemma schedule_total:
  assumes "kernel_at s T Q L" and "rt_current_thread (t_env s) = Some c" and "stacks_ok (t_env s) T"
  shows "\<exists>s'. on_k rt_schedule s = Some s'"
  using rt_schedule_total(1) [OF kernel_atD(1) [OF assms(1)] assms(2,3)] by (auto simp: on_k_def)

lemma stacks_ok_cong: "(\<And>t. rt_scheduler_stack_check (threads e' t) = rt_scheduler_stack_check (threads e t)) \<Longrightarrow> stacks_ok e T \<Longrightarrow> stacks_ok e' T"
  by (simp add: stacks_ok_def)

lemma set_stat_stack [simp]: "rt_scheduler_stack_check (threads (set_stat x t e) u) = rt_scheduler_stack_check (threads e u)"
  by (simp add: set_stat_def rt_scheduler_stack_check_def)

lemma block_total:
  assumes k: "kernel_at s T Q L" and c: "rt_current_thread (t_env s) = Some c" "can_run (t_env s) c" "is_thread c s" and q: "q \<in> Q"
    and st: "stacks_ok (t_env s) T" and n: "time < 0x7FFFFFFF"
  obtains s1 s2 L2 where "rt_ipc_list_suspend q c flag s = Some s1" and "start_wait c time s1 = Some s2" and "kernel_at s2 T Q L2"
    and "rt_current_thread (t_env s2) = Some c" and "stacks_ok (t_env s2) T" and "c \<in> waiting (t_env s2) T"
    and "0 < time \<longrightarrow> (\<exists>ts. ready s2 ts \<and> set ts \<subseteq> waiting (t_env s2) T \<and> (\<forall>u \<in> set ts. active (t_timers s2 u)) \<and> c \<in> set ts \<and>
      left s2 c = uint (word_of_int time :: u32))"
proof -
  have cT: "c \<in> T" "thread_stat (t_env s) c = 3"
    using stats_okD(5) [OF sched_okD(2) [OF kernel_atD(1) [OF k]] c(1)] c(2) by (auto simp: can_run_def)
  obtain s0 where s0: "rt_thread_suspend c s = Some (0, s0)" using suspend_total [OF k c(1) cT(2) c(3)] by blast
  note w = suspend_waits [OF k cT(1) c(2) s0]
  obtain s1 where s1: "rt_ipc_list_suspend q c flag s = Some s1" using enqueue_kernel [OF w(1-3) q s0] by blast
  note b = list_suspend_kernel [OF k cT(1) c(2) q s1]
  obtain L1 where L1: "kernel_at s1 T Q L1" using b(1) by blast
  have "word_of_int time < (0x7FFFFFFF :: u32)" if "0 < time" using n that by (simp add: word_less_alt unsigned_of_int take_bit_int_eq_self)
  then obtain s2 where s2: "start_wait c time s1 = Some s2"
    using arm_total [OF L1 cT(1), of "word_of_int time"] by (cases "0 < time") (auto simp: start_wait_def)
  note d = start_wait_kernel [OF L1 b(2) s2]
  obtain K G where e: "t_env s1 = (set_stat 2 c (t_env s))\<lparr>k_links := K, rt_thread_ready_priority_group := G\<rparr>" using b(3) by blast
  show thesis
    by (rule that [OF s1 s2 d(1)]) (use d(2,4) b(2) e c(1) stacks_ok_cong [OF _ st] in simp_all)
qed

lemma sem_wait_total:
  assumes a: "ipc_at s T Q L" and m: "is_sem q s" and c: "rt_current_thread (i_env s) = Some c" "thread_stat (i_env s) c = 3" "is_thread c (i_kernel s)"
    and st: "stacks_ok (i_env s) T" and n: "time < 0x7FFFFFFF"
  shows "\<exists>k. sem_wait q c time s = Some k"
    and "0 < time \<Longrightarrow> \<exists>k. sem_wait q c time s = Some k \<and> (\<forall>j. \<exists>k'. sys_ticks j k = Some k' \<and> asleep T Q c (nat time) j k')"
proof -
  let ?k = "set_error c 0 (i_kernel s)"
  note k0 = set_error_kernel [OF ipc_atD(1) [OF a], of c 0]
  have c0: "rt_current_thread (t_env ?k) = Some c" "can_run (t_env ?k) c" "is_thread c ?k" and st0: "stacks_ok (t_env ?k) T"
    using c st by (simp_all add: can_run_def)
  obtain s1 s2 L2 where b: "rt_ipc_list_suspend q c (sem_flag (sems s q)) ?k = Some s1" "start_wait c time s1 = Some s2" "kernel_at s2 T Q L2"
      "rt_current_thread (t_env s2) = Some c" "stacks_ok (t_env s2) T"
      "0 < time \<longrightarrow> (\<exists>ts. ready s2 ts \<and> set ts \<subseteq> waiting (t_env s2) T \<and> (\<forall>u \<in> set ts. active (t_timers s2 u)) \<and> c \<in> set ts \<and>
        left s2 c = uint (word_of_int time :: u32))"
    by (rule block_total [OF k0 c0 ipc_atD(3) [OF a m] st0 n])
  have e: "sem_wait q c time s = on_k rt_schedule s2" using b(1,2) by (simp add: sem_wait_def)
  show "\<exists>k. sem_wait q c time s = Some k" unfolding e by (rule schedule_total [OF b(3-5)])
  show "\<exists>k. sem_wait q c time s = Some k \<and> (\<forall>j. \<exists>k'. sys_ticks j k = Some k' \<and> asleep T Q c (nat time) j k')" if t: "0 < time"
  proof -
    obtain ts where ts: "ready s2 ts" "set ts \<subseteq> waiting (t_env s2) T" "\<forall>u \<in> set ts. active (t_timers s2 u)" "c \<in> set ts"
        "left s2 c = uint (word_of_int time :: u32)"
      using b(6) t by blast
    have "unat (word_of_int time :: u32) = nat time" using t n by (simp add: unsigned_of_int take_bit_int_eq_self)
    then show ?thesis unfolding e using wait_then_ticks [OF b(3-5) ts] by auto
  qed
qed

subsection \<open>Semaphores\<close>

text \<open>The specification: a counter of 16 bits and a queue.\<close>

definition sem_V :: "u16 \<times> nat list \<Rightarrow> u16 \<times> nat list" where
  "sem_V a = (case a of (v, []) \<Rightarrow> (v + 1, []) | (v, t # W) \<Rightarrow> (v, W))"

definition sem_P :: "(nat list \<Rightarrow> nat list) \<Rightarrow> bool \<Rightarrow> u16 \<times> nat list \<Rightarrow> outcome \<times> u16 \<times> nat list" where
  "sem_P join wait a = (case a of (v, W) \<Rightarrow>
     if v \<noteq> 0 then (Returns 0, v - 1, W) else if wait then (Waits, v, join W) else (Returns (- RT_ETIMEOUT), v, W))"

definition sem_abs :: "ipc \<Rightarrow> nat \<Rightarrow> u16 \<times> nat list \<Rightarrow> bool" where
  "sem_abs s q a \<longleftrightarrow> sem_value (sems s q) = fst a \<and> waits_for s q (snd a)"

lemma sem_release_refines:
  assumes a: "ipc_at s T Q L" and m: "is_sem q s" and v: "sem_abs s q (v, W)" and c: "rt_current_thread (i_env s) = Some c"
    and st: "stacks_ok (i_env s) T" and th: "\<forall>t \<in> set W. is_thread t (i_kernel s)"
  shows "\<exists>s'. rt_sem_release q s = Some (0, s') \<and> sem_abs s' q (sem_V (v, W)) \<and>
    (W \<noteq> [] \<longrightarrow> can_run (i_env s') (hd W) \<and> sem_take_return (hd W) s' = sem_take_return (hd W) s)"
proof -
  note q = ipc_atD(3) [OF a m]
  have W: "W = L (Suspended q)" "sem_value (sems s q) = v" using v waits_for_iff [OF a q] by (simp_all add: sem_abs_def)
  note fw = first_waiter_list [OF ipc_atD(1) [OF a] q]
  show ?thesis
  proof (cases W)
    case Nil
    then have "rt_sem_release q s = Some (0, upd_sem q (sem_value_update (\<lambda>v. v + 1)) s)" using fw(1) W m by (simp add: rt_sem_release_def)
    then show ?thesis using v Nil by (simp add: sem_abs_def sem_V_def waits_for_def)
  next
    case (Cons t W')
    note L = Cons [unfolded W(1)]
    have t: "t \<in> T" "thread_stat (i_env s) t = 2" using waiter_facts [OF ipc_atD(1) [OF a], of t q] L by simp_all
    obtain k where k: "rt_thread_resume t (i_kernel s) = Some (0, k)" using resume_total [OF ipc_atD(1) [OF a] t] th Cons by auto
    define s1 where s1: "s1 = s\<lparr>i_kernel := k\<rparr>"
    have r1: "on_i (rt_ipc_list_resume q) s = Some s1" using k fw(2) [OF L] by (simp add: on_i_def rt_ipc_list_resume_def s1)
    note r = resume_first_ipc [OF a q L r1]
    obtain L1 where L1: "ipc_at s1 T Q L1" "queue_is q W' L L1" using r(1) by blast
    have "stacks_ok (i_env s1) T" by (rule stacks_ok_cong [OF _ st]) (simp add: r(5))
    then obtain k' where "on_k rt_schedule (i_kernel s1) = Some k'" using schedule_total [OF ipc_atD(1) [OF L1(1)]] r(4) c by auto
    then obtain s' where s': "on_i (on_k rt_schedule) s1 = Some s'" by (simp add: on_i_def)
    note sc = schedule_ipc [OF L1(1) s']
    obtain L' where L': "ipc_at s' T Q L'" "\<forall>q. L' (Suspended q) = L1 (Suspended q)" using sc(1) by blast
    have "waits_for s' q W'" using waits_for_iff [OF L'(1) q] L'(2) L1(2) by (simp add: queue_is_def)
    moreover have "rt_sem_release q s = Some (0, s')" using m fw(1) L r1 s' by (simp add: rt_sem_release_def)
    moreover have "thread_stat (i_env s1) t = thread_stat (set_stat (if rt_current_thread (i_env s) = Some t then 3 else 1) t (i_env s)) t"
      using r(5) by (simp add: thread_stat_def)
    then have "can_run (i_env s') t" using only_statD(6) [OF sc(2), of t] by (simp add: can_run_def)
    moreover have "sem_take_return t s' = sem_take_return t s" using only_statD(3) [OF sc(2), of t] r(5) by (simp add: sem_take_return_def)
    ultimately show ?thesis using Cons W(2) sc(3) r(2) by (simp add: sem_abs_def sem_V_def)
  qed
qed

lemma sem_take_refines:
  assumes a: "ipc_at s T Q L" and m: "is_sem q s" and v: "sem_abs s q (v, W)"
    and c: "rt_current_thread (i_env s) = Some c" "thread_stat (i_env s) c = 3" "is_thread c (i_kernel s)"
    and st: "stacks_ok (i_env s) T" and n: "time < 0x7FFFFFFF"
  shows "\<exists>out s' b. rt_sem_take q time s = Some (out, s') \<and> sem_P (enqueue (sem_flag (sems s q)) (i_env s) c) (time \<noteq> 0) (v, W) = (out, b) \<and>
    sem_abs s' q b \<and> (out = Waits \<longrightarrow> thread_stat (i_env s') c = 2 \<and> sem_take_return c s' = 0)"
proof -
  note q = ipc_atD(3) [OF a m]
  have W: "W = L (Suspended q)" "sem_value (sems s q) = v" using v waits_for_iff [OF a q] by (simp_all add: sem_abs_def)
  consider "v \<noteq> 0" | "v = 0" "time = 0" | "v = 0" "time \<noteq> 0" by blast
  then show ?thesis
  proof cases
    case 1
    then show ?thesis using v W m by (simp add: rt_sem_take_def sem_P_def sem_abs_def waits_for_def word_gt_0)
  next
    case 2
    then show ?thesis using v W m by (simp add: rt_sem_take_def sem_P_def sem_abs_def)
  next
    case 3
    obtain k where k: "sem_wait q c time s = Some k" using sem_wait_total(1) [OF a m c st n] by blast
    have v0: "sem_value (sems s q) = 0" using W(2) 3 by simp
    note w = sem_wait_ipc [OF a c(1,2) m v0 k]
    obtain L' where L': "ipc_at (s\<lparr>i_kernel := k\<rparr>) T Q L'" "L' (Suspended q) = enqueue (sem_flag (sems s q)) (i_env s) c W"
      using w(1) W(1) by (auto simp: queue_is_def)
    have "sem_take_return c (s\<lparr>i_kernel := k\<rparr>) = 0" using only_statD(3) [OF w(2), of c] by (simp add: sem_take_return_def)
    moreover have "thread_stat (t_env k) c = 2" using w(3) by (simp add: waiting_def)
    ultimately show ?thesis
      using 3 k m c(1) v0 waits_for_iff [OF L'(1) q] L'(2) by (simp add: rt_sem_take_def sem_P_def sem_abs_def)
  qed
qed

text \<open>
  C7. A semaphore is a counter with a queue: in every reachable state, \<open>rt_sem_release\<close> and \<open>rt_sem_take\<close> (by a running thread) always come to
  an end and do to the value and the queue of the semaphore what the specification does. A release wakes up
  the first thread of the queue, which can then run with its error as it was, and leaves the value alone; without
  waiting threads it increases the value, modulo 2 to the 16. A take decreases a value that is not 0; at 0
  it returns a timeout at once or puts the caller, suspended and with no error, into the queue, at the end or
  by its priority.
\<close>

theorem rt_sem_refines:
  assumes "ipc_reach T Q s" and "is_sem q s" and "sem_abs s q (v, W)"
    and "rt_current_thread (i_env s) = Some c" and "thread_stat (i_env s) c = 3" and "\<forall>t \<in> set (c # W). is_thread t (i_kernel s)"
    and "stacks_ok (i_env s) T" and "time < 0x7FFFFFFF"
  shows "(\<exists>s'. rt_sem_release q s = Some (0, s') \<and> sem_abs s' q (sem_V (v, W)) \<and>
      (W \<noteq> [] \<longrightarrow> can_run (i_env s') (hd W) \<and> sem_take_return (hd W) s' = sem_take_return (hd W) s)) \<and>
    (\<exists>out s' b. rt_sem_take q time s = Some (out, s') \<and> sem_P (enqueue (sem_flag (sems s q)) (i_env s) c) (time \<noteq> 0) (v, W) = (out, b) \<and>
      sem_abs s' q b \<and> (out = Waits \<longrightarrow> thread_stat (i_env s') c = 2 \<and> sem_take_return c s' = 0))"
proof -
  obtain L where a: "ipc_at s T Q L" using ipc_reach_ok [OF assms(1)] by (auto simp: ipc_ok_def)
  have th: "is_thread c (i_kernel s)" "\<forall>t \<in> set W. is_thread t (i_kernel s)" using assms(6) by simp_all
  show ?thesis
    using sem_release_refines [OF a assms(2,3,4,7) th(2)] sem_take_refines [OF a assms(2-5) th(1) assms(7,8)] by blast
qed

text \<open>
  C18. A limited wait ends in time: in every reachable state, a running thread that takes a semaphore of value 0 with a time of \<open>n\<close> ticks
  (above 0 and below 2 to the 31 minus 1) waits, and under ticks of the clock alone it is suspended for \<open>n\<close> ticks; from then on it
  can run, is in no list of waiting threads any more, and its \<open>rt_sem_take\<close> returns the timeout.
\<close>

theorem sem_take_times_out:
  assumes "ipc_reach T Q s" and "is_sem q s" and "sem_value (sems s q) = 0"
    and "rt_current_thread (i_env s) = Some c" and "thread_stat (i_env s) c = 3" and "is_thread c (i_kernel s)"
    and "stacks_ok (i_env s) T" and "0 < time" and "time < 0x7FFFFFFF"
  shows "\<exists>s1 k. rt_sem_take q time s = Some (Waits, s1) \<and> sys_ticks j (i_kernel s1) = Some k \<and>
    (if int j < time then thread_stat (t_env k) c = 2
     else can_run (t_env k) c \<and> sem_take_return c (s1\<lparr>i_kernel := k\<rparr>) = - RT_ETIMEOUT \<and>
       (\<forall>r W. r \<in> Q \<longrightarrow> waits_for (s1\<lparr>i_kernel := k\<rparr>) r W \<longrightarrow> c \<notin> set W))"
proof -
  obtain L where a: "ipc_at s T Q L" using ipc_reach_ok [OF assms(1)] by (auto simp: ipc_ok_def)
  obtain k0 k where k: "sem_wait q c time s = Some k0" "sys_ticks j k0 = Some k" "asleep T Q c (nat time) j k"
    using sem_wait_total(2) [OF a assms(2,4-7,9,8)] by blast
  have t: "rt_sem_take q time s = Some (Waits, s\<lparr>i_kernel := k0\<rparr>)" using assms k(1) by (simp add: rt_sem_take_def)
  obtain L' where L': "kernel_at k T Q L'" using k(3) by (auto simp: asleep_def)
  have out: "c \<notin> set W" if "can_run (t_env k) c" "r \<in> Q" "waits_for (s\<lparr>i_kernel := k0, i_kernel := k\<rparr>) r W" for r W
  proof -
    have "map Tlist W = map Tlist (L' (Suspended r))"
      using dlist_unique [OF _ waiting_list [OF L' that(2)]] that(3) by (simp add: waits_for_def)
    then have "W = L' (Suspended r)" by (rule map_injective) (simp add: inj_def)
    then show ?thesis using waiter_facts(2) [OF L', of c r] that(1) by (auto simp: can_run_def)
  qed
  show ?thesis
  proof (cases "int j < time")
    case True
    then have "thread_stat (t_env k) c = 2" using k(3) by (auto simp: asleep_def waiting_def split: if_splits)
    then show ?thesis using t k(2) True by simp
  next
    case False
    then have "can_run (t_env k) c" "th_error (thread_of c k) = - RT_ETIMEOUT" using k(3) assms(8) by (auto simp: asleep_def split: if_splits)
    then show ?thesis using t k(2) False out by (simp add: sem_take_return_def)
  qed
qed

text \<open>
  C34. Detaching a semaphore leaves nobody behind: \<open>rt_sem_detach\<close> on a static semaphore ends in every reachable state; every thread that
  waited for it can run and gets the general error from its \<open>rt_sem_take\<close>, and the semaphore
  cannot be used any more.
\<close>

theorem sem_detach_wakes_all:
  assumes "ipc_reach T Q s" and "is_sem q s" and "sem_type (sems s q) AND 0x80 \<noteq> 0" and "waits_for s q W"
    and "\<forall>t \<in> set W. is_thread t (i_kernel s)"
  shows "\<exists>s'. rt_sem_detach q s = Some (0, s') \<and> \<not> is_sem q s' \<and> waits_for s' q [] \<and>
    (\<forall>t \<in> set W. can_run (i_env s') t \<and> sem_take_return t s' = - 1)"
proof -
  obtain L where a: "ipc_at s T Q L" using ipc_reach_ok [OF assms(1)] by (auto simp: ipc_ok_def)
  note q = ipc_atD(3) [OF a assms(2)]
  have W: "W = L (Suspended q)" using assms(4) waits_for_iff [OF a q] by simp
  obtain k where "rt_ipc_list_resume_all q (i_kernel s) = Some k"
    using resume_all_kernel(2) [OF ipc_atD(1) [OF a] q] assms(5) W by auto
  then have r: "on_i (rt_ipc_list_resume_all q) s = Some (s\<lparr>i_kernel := k\<rparr>)" by (simp add: on_i_def)
  note d = resume_all_ipc [OF a q r]
  obtain L' where L': "ipc_at (s\<lparr>i_kernel := k\<rparr>) T Q L'" "L' (Suspended q) = []" using d(1) by (auto simp: queue_is_def)
  have "waits_for (s\<lparr>i_kernel := k\<rparr>) q []" using waits_for_iff [OF L'(1) q] L'(2) by simp
  then show ?thesis
    using r assms(2,3) d(2) W by (simp add: rt_sem_detach_def all_woken_def sem_take_return_def waits_for_def)
qed

subsection \<open>Mutexes\<close>

lemma owner_priority_total:
  assumes k: "kernel_at s T Q L" and u: "u \<in> T" "is_thread u s" and p: "p < 32"
  shows "\<exists>s'. owner_priority u p s = Some s'"
  using change_priority_ok [OF kernel_atD(1) [OF k] u(1) p] u(2)
  by (auto simp: owner_priority_def rt_thread_control_def on_k_def)

lemma owner_priority_keeps:
  assumes k: "kernel_at s T Q L" and u: "u \<in> T" and s: "owner_priority u p s = Some s'"
  shows "is_thread v s' \<longleftrightarrow> is_thread v s" and "stacks_ok (t_env s) T \<Longrightarrow> stacks_ok (t_env s') T"
proof -
  note o = owner_priority_kernel(2) [OF k u s]
  show "is_thread v s' \<longleftrightarrow> is_thread v s" using only_statD(4) [OF o, of v] by (simp add: is_thread_def rt_object_get_type_def)
  show "stacks_ok (t_env s') T" if "stacks_ok (t_env s) T"
    by (rule stacks_ok_cong [OF _ that]) (use only_statD(5) [OF o] in \<open>simp add: rt_scheduler_stack_check_def\<close>)
qed

lemma mutex_wait_total:
  assumes a: "ipc_at s T Q L" and m: "is_mutex q s" "owner (mutexes s q) = Some u" "u \<noteq> c"
    and c: "rt_current_thread (i_env s) = Some c" "thread_stat (i_env s) c = 3" "is_thread c (i_kernel s)" "is_thread u (i_kernel s)"
    and st: "stacks_ok (i_env s) T" and n: "time < 0x7FFFFFFF"
  shows "\<exists>k. mutex_wait q c time s = Some k"
proof -
  let ?k = "i_kernel s" and ?p = "current_priority (thread_of c (i_kernel s))"
  note ka = ipc_atD(1) [OF a]
  note r = current_running [OF ka c(1,2)]
  have u: "u \<in> T" using ipc_atD(6) [OF a m(1)] m(2) by (simp add: mutex_ok_def)
  obtain k0 where k0: "(if ?p < current_priority (thread_of u ?k) then owner_priority u ?p ?k else Some ?k) = Some k0"
    using owner_priority_total [OF ka u c(4) priority_small [OF ka r(1)]] by (cases "?p < current_priority (thread_of u ?k)") auto
  have k0': "rt_current_thread (t_env k0) = Some c" "is_thread c k0" "stacks_ok (t_env k0) T"
    using k0 owner_priority_kernel(3) [OF ka u] owner_priority_keeps [OF ka u] c st by (auto split: if_splits)
  note bo = boost_kernel [OF ka u m(3) [symmetric] k0]
  obtain L0 where L0: "kernel_at k0 T Q L0" using bo(1) by blast
  have cr: "can_run (t_env k0) c" using bo(2) r(2) by simp
  obtain s1 s2 L2 where b: "rt_ipc_list_suspend q c (mutex_flag (mutexes s q)) k0 = Some s1" "start_wait c time s1 = Some s2" "kernel_at s2 T Q L2"
      "rt_current_thread (t_env s2) = Some c" "stacks_ok (t_env s2) T"
    by (rule block_total [OF L0 k0'(1) cr k0'(2) ipc_atD(4) [OF a m(1)] k0'(3) n])
  obtain k where "on_k rt_schedule s2 = Some k" using schedule_total [OF b(3-5)] by blast
  then show ?thesis using k0 b(1,2) m(2) by (simp add: mutex_wait_def Let_def)
qed

text \<open>
  C17. Priority inheritance: in every reachable state, a running thread that takes a mutex of another thread, with a time other than 0, waits in the queue
  of the mutex, suspended and with no error. The owner stays the owner and now has the higher of its own
  priority and that of the caller (the smaller number); all other priorities are as they were.
\<close>

theorem mutex_inherits_priority:
  assumes "ipc_reach T Q s" and "is_mutex q s" and "owner (mutexes s q) = Some u" and "u \<noteq> c" and "waits_for s q W"
    and "rt_current_thread (i_env s) = Some c" and "thread_stat (i_env s) c = 3" and "is_thread c (i_kernel s)" and "is_thread u (i_kernel s)"
    and "stacks_ok (i_env s) T" and "time \<noteq> 0" and "time < 0x7FFFFFFF"
  shows "\<exists>s'. rt_mutex_take q time s = Some (Waits, s') \<and> mutexes s' = mutexes s \<and>
    waits_for s' q (enqueue (mutex_flag (mutexes s q)) (i_env s) c W) \<and> thread_stat (i_env s') c = 2 \<and> th_error (thread_of c (i_kernel s')) = 0 \<and>
    prio (i_env s') u = min (prio (i_env s) u) (prio (i_env s) c) \<and> (\<forall>v. v \<noteq> u \<longrightarrow> prio (i_env s') v = prio (i_env s) v)"
proof -
  obtain L where a: "ipc_at s T Q L" using ipc_reach_ok [OF assms(1)] by (auto simp: ipc_ok_def)
  note q = ipc_atD(4) [OF a assms(2)]
  have W: "W = L (Suspended q)" using assms(5) waits_for_iff [OF a q] by simp
  let ?s = "s\<lparr>i_kernel := set_error c 0 (i_kernel s)\<rparr>"
  note a' = ipc_at_error [OF a, of c 0]
  have m: "is_mutex q ?s" "owner (mutexes ?s q) = Some u" "rt_current_thread (i_env ?s) = Some c" "thread_stat (i_env ?s) c = 3"
      "is_thread c (i_kernel ?s)" "is_thread u (i_kernel ?s)" "stacks_ok (i_env ?s) T"
    using assms(2,3,6-10) by simp_all
  obtain k where k: "mutex_wait q c time ?s = Some k" using mutex_wait_total [OF a' m(1,2) assms(4) m(3-7) assms(12)] by blast
  note w = mutex_wait_ipc [OF a' m(3,4,1,2) assms(4) k]
  let ?W = "enqueue (mutex_flag (mutexes s q)) (i_env s) c W"
  have "enqueue (mutex_flag (mutexes s q)) (i_env ?s) c (L (Suspended q)) = ?W" unfolding W by (rule enqueue_cong) simp
  then obtain L' where L': "ipc_at (?s\<lparr>i_kernel := k\<rparr>) T Q L'" "L' (Suspended q) = ?W" using w(1) by (auto simp: queue_is_def)
  have "\<not> 0 < mutex_value (mutexes s q)" using mutex_value_cases(1) [OF a assms(2)] assms(3) by auto
  then have "rt_mutex_take q time s = Some (Waits, ?s\<lparr>i_kernel := k\<rparr>)"
    using k assms(2,3,4,6,11) by (simp add: rt_mutex_take_def mutex_again_def Let_def)
  moreover have "waits_for (?s\<lparr>i_kernel := k\<rparr>) q ?W" using waits_for_iff [OF L'(1) q] L'(2) by simp
  moreover have "thread_stat (t_env k) c = 2" using w(2) by (simp add: waiting_def)
  moreover have "th_error (thread_of c k) = 0" using w(5) by simp
  moreover have "prio (t_env k) u = min (prio (i_env s) u) (prio (i_env s) c)" using w(3) by simp
  moreover have "prio (t_env k) v = prio (i_env s) v" if "v \<noteq> u" for v using w(4) [OF that] by simp
  ultimately show ?thesis by (intro exI [of _ "?s\<lparr>i_kernel := k\<rparr>"]) simp
qed

lemma pass_on_total:
  assumes a: "ipc_at s T Q L" and m: "is_mutex q s" and c: "rt_current_thread (i_env s) = Some c" and st: "stacks_ok (i_env s) T"
    and th: "\<forall>t \<in> set (L (Suspended q)). is_thread t (i_kernel s)"
  shows "\<exists>s'. mutex_pass_on q s = Some s'"
proof (cases "L (Suspended q)")
  case Nil
  then show ?thesis using first_waiter_list(1) [OF ipc_atD(1) [OF a] ipc_atD(4) [OF a m]] by (simp add: mutex_pass_on_def)
next
  case (Cons u W)
  note fw = first_waiter_list [OF ipc_atD(1) [OF a] ipc_atD(4) [OF a m]]
  have u: "u \<in> T" "thread_stat (i_env s) u = 2" "is_thread u (i_kernel s)" using waiter_facts [OF ipc_atD(1) [OF a], of u q] Cons th by simp_all
  obtain k where k: "rt_thread_resume u (i_kernel s) = Some (0, k)" using resume_total [OF ipc_atD(1) [OF a] u] by blast
  let ?f = "\<lambda>r. r\<lparr>owner := Some u, original_priority := current_priority (thread_of u (i_kernel s)), hold := hold r + 1\<rparr>"
  let ?s1 = "upd_mutex q ?f s\<lparr>i_kernel := k\<rparr>"
  have s1: "on_i (rt_ipc_list_resume q) (upd_mutex q ?f s) = Some ?s1" using k fw(2) [OF Cons] by (simp add: on_i_def rt_ipc_list_resume_def)
  have f: "mutex_type (?f r) = mutex_type r \<and> mutex_value (?f r) = mutex_value r \<and> owner (?f r) = Some u \<and>
    original_priority (?f r) = current_priority (thread_of u (i_kernel s))" for r by simp
  note ho = hand_over_ipc [OF a m Cons f s1]
  obtain L1 where L1: "ipc_at ?s1 T Q L1" using ho(1) by blast
  have "stacks_ok (i_env ?s1) T" by (rule stacks_ok_cong [OF _ st]) (subst ho(5), simp)
  then obtain k' where "on_k rt_schedule (i_kernel ?s1) = Some k'" using schedule_total [OF ipc_atD(1) [OF L1]] ho(4) c by auto
  then have "\<exists>s'. on_i (on_k rt_schedule) ?s1 = Some s'" by (simp add: on_i_def)
  then show ?thesis using fw Cons s1 by (simp add: mutex_pass_on_def Let_def)
qed

lemma mutex_release_total:
  assumes a: "ipc_at s T Q L" and m: "is_mutex q s" and c: "rt_current_thread (i_env s) = Some c" "is_thread c (i_kernel s)"
    and st: "stacks_ok (i_env s) T" and th: "\<forall>t \<in> set (L (Suspended q)). is_thread t (i_kernel s)"
  shows "\<exists>rc s'. rt_mutex_release q s = Some (rc, s')"
proof (cases "owner (mutexes s q) = Some c \<and> hold (mutexes s q) - 1 = 0")
  case False
  then show ?thesis using m c by (auto simp: rt_mutex_release_def Let_def)
next
  case True
  let ?s1 = "upd_mutex q (hold_update (\<lambda>h. h - 1)) s" and ?p = "original_priority (mutexes s q)"
  note a1 = hold_ipc [OF a m, of "\<lambda>h. h - 1"]
  have cT: "c \<in> T" "?p < 32" using ipc_atD(6) [OF a m] True by (simp_all add: mutex_ok_def)
  obtain k where k: "owner_priority c ?p (i_kernel s) = Some k" using owner_priority_total [OF ipc_atD(1) [OF a] cT(1) c(2) cT(2)] by blast
  obtain s2 where s2: "(if ?p \<noteq> current_priority (thread_of c (i_kernel ?s1)) then on_i (owner_priority c ?p) ?s1 else Some ?s1) = Some s2"
    using k by (cases "?p = current_priority (thread_of c (i_kernel s))") (simp_all add: on_i_def)
  note re = restore_ipc [OF a1 cT(1) s2]
  obtain L2 where L2: "ipc_at s2 T Q L2" "\<forall>r. L2 (Suspended r) = L (Suspended r)" using re(1) by blast
  have s2': "stacks_ok (i_env s2) T" "\<forall>t \<in> set (L2 (Suspended q)). is_thread t (i_kernel s2)"
    using s2 L2(2) st th owner_priority_keeps [OF ipc_atD(1) [OF a] cT(1)] by (auto simp: on_i_Some split: if_splits)
  have "is_mutex q s2" using m re(3) by (simp add: is_mutex_def)
  then obtain s' where "mutex_pass_on q s2 = Some s'" using pass_on_total [OF L2(1) _ _ s2'] re(4) c(1) by auto
  then have "rt_mutex_release q s = Some (0, s')"
    using True m c(1) s2 unfolding rt_mutex_release_def Let_def by (auto split: if_splits)
  then show ?thesis by blast
qed

text \<open>
  C10. A mutex is handed over: in every reachable state, when its owner gives back its last hold of a mutex for which threads wait, \<open>rt_mutex_release\<close> succeeds
  and makes the first of them the owner, with a single hold and with its priority noted down; this thread can run, and
  its \<open>rt_mutex_take\<close> returns success if it had no error. The releasing thread has again the priority that it had when it took
  the mutex, and the others go on waiting.
\<close>

theorem mutex_handed_over:
  assumes "ipc_reach T Q s" and "is_mutex q s" and "waits_for s q (u # W)"
    and "rt_current_thread (i_env s) = Some c" and "owner (mutexes s q) = Some c" and "hold (mutexes s q) = 1"
    and "stacks_ok (i_env s) T" and "\<forall>t \<in> set (c # u # W). is_thread t (i_kernel s)"
  shows "\<exists>s'. rt_mutex_release q s = Some (0, s') \<and> owner (mutexes s' q) = Some u \<and> hold (mutexes s' q) = 1 \<and> mutex_value (mutexes s' q) = 0 \<and>
    original_priority (mutexes s' q) = current_priority (thread_of u (i_kernel s)) \<and> waits_for s' q W \<and> can_run (i_env s') u \<and>
    (th_error (thread_of u (i_kernel s)) = 0 \<longrightarrow> mutex_take_return q u time s' = Some (Returns 0, s')) \<and>
    current_priority (thread_of c (i_kernel s')) = original_priority (mutexes s q)"
proof -
  obtain L where a: "ipc_at s T Q L" using ipc_reach_ok [OF assms(1)] by (auto simp: ipc_ok_def)
  note q = ipc_atD(4) [OF a assms(2)]
  have W: "L (Suspended q) = u # W" using assms(3) waits_for_iff [OF a q] by simp
  obtain rc s' where s': "rt_mutex_release q s = Some (rc, s')" using mutex_release_total [OF a assms(2,4) _ assms(7)] assms(8) W by auto
  have v: "mutex_value (mutexes s q) = 0" using mutex_value_cases(2,3) [OF a assms(2)] W by simp
  from a assms(2,4) s' show ?thesis
  proof (cases rule: mutex_release_cases)
    case (hand_over L' u' W')
    then have uw: "u' = u" "W' = W" using W by simp_all
    have "waits_for s' q W" using waits_for_iff [OF hand_over(5) q] hand_over(6) uw by (simp add: queue_is_def)
    then show ?thesis using s' hand_over uw v by (simp add: mutex_take_return_def)
  qed (use assms W in simp_all)
qed

text \<open>
  C40. The counter of nested takes wraps around: it has 8 bits, so an owner that holds a mutex 255 times and takes it twice more has a counter of 1,
  and its next \<open>rt_mutex_release\<close> gives the mutex away although 256 takes have not been released.
\<close>

theorem mutex_hold_wraps:
  assumes "ipc_reach T Q s" and "is_mutex q s" and "waits_for s q []" and "rt_current_thread (i_env s) = Some c" and "is_thread c (i_kernel s)"
    and "owner (mutexes s q) = Some c" and "hold (mutexes s q) = 255" and "stacks_ok (i_env s) T"
  shows "\<exists>s1 s2 s3. rt_mutex_take q time s = Some (Returns 0, s1) \<and> rt_mutex_take q time s1 = Some (Returns 0, s2) \<and>
    rt_mutex_release q s2 = Some (0, s3) \<and> owner (mutexes s3 q) = None \<and> mutex_value (mutexes s3 q) = 1"
proof -
  obtain L where a: "ipc_at s T Q L" using ipc_reach_ok [OF assms(1)] by (auto simp: ipc_ok_def)
  note q = ipc_atD(4) [OF a assms(2)]
  have W: "L (Suspended q) = []" using assms(3) waits_for_iff [OF a q] by simp
  define s1 where s1: "s1 = upd_mutex q (hold_update (\<lambda>h. h + 1)) (s\<lparr>i_kernel := set_error c 0 (i_kernel s)\<rparr>)"
  define s2 where s2: "s2 = upd_mutex q (hold_update (\<lambda>h. h + 1)) (s1\<lparr>i_kernel := set_error c 0 (i_kernel s1)\<rparr>)"
  have t: "rt_mutex_take q time s = Some (Returns 0, s1)" using assms(2,4,6) by (simp add: rt_mutex_take_def Let_def s1)
  have m1: "is_mutex q s1" "owner (mutexes s1 q) = Some c" "rt_current_thread (i_env s1) = Some c"
    using assms(2,4,6) by (simp_all add: s1 is_mutex_def)
  then have t1: "rt_mutex_take q time s1 = Some (Returns 0, s2)" by (simp add: rt_mutex_take_def Let_def s2)
  have a1: "ipc_at s1 T Q L" unfolding s1 by (rule hold_ipc [OF ipc_at_error [OF a]]) (use assms(2) in simp)
  have a2: "ipc_at s2 T Q L" unfolding s2 by (rule hold_ipc [OF ipc_at_error [OF a1]]) (use m1 in simp)
  have m2: "is_mutex q s2" "owner (mutexes s2 q) = Some c" "rt_current_thread (i_env s2) = Some c" "is_thread c (i_kernel s2)" "stacks_ok (i_env s2) T"
    using m1 assms(5,8) by (simp_all add: s2 s1 is_mutex_def)
  have h: "hold (mutexes s2 q) = 1" using assms(7) by (simp add: s2 s1)
  obtain rc s3 where s3: "rt_mutex_release q s2 = Some (rc, s3)" using mutex_release_total [OF a2 m2(1,3,4,5)] W by auto
  from a2 m2(1,3) s3 have "rc = 0 \<and> owner (mutexes s3 q) = None \<and> mutex_value (mutexes s3 q) = 1"
    by (cases rule: mutex_release_cases) (use m2(2) h W in simp_all)
  then show ?thesis using t t1 s3 by blast
qed

subsection \<open>Two threads and a semaphore\<close>

definition ipc0 :: "kernel \<Rightarrow> ipc" where
  "ipc0 k = \<lparr>i_kernel = k, sems = \<lambda>_. \<lparr>sem_type = 0, sem_flag = 0, sem_value = 0\<rparr>,
     mutexes = \<lambda>_. \<lparr>mutex_type = 0, mutex_flag = 0, mutex_value = 0, original_priority = 0, hold = 0, owner = None\<rparr>\<rparr>"

text \<open>Two threads of one priority, of which the first is running, and no object.\<close>

lemma two_threads_ipc:
  obtains s where "ipc_reach {6, 5} {} s" and "s = ipc0 (i_kernel s)" and "object_search (i_kernel s) = Some (i_kernel s)"
    and "rt_current_thread (i_env s) = Some 5" and "rt_scheduler_lock_nest (i_env s) = 0"
    and "thread_of 5 (i_kernel s) = started_thread 3 0x1000" and "thread_of 6 (i_kernel s) = started_thread 1 0x2000"
proof -
  obtain k where k: "k_reach {6, 5} k" "rt_current_thread (t_env k) = Some 5" "rt_scheduler_lock_nest (t_env k) = 0"
      "thread_of 5 k = started_thread 3 0x1000" "thread_of 6 k = started_thread 1 0x2000"
    by (rule two_threads)
  note f = started_thread_facts [OF k(4)] started_thread_facts [OF k(5)]
  have "rt_thread_yield (t_env k) = Some (t_env k)" by (rule rt_thread_yield_keeps_running [OF k(1,2)]) (use f in simp_all)
  moreover have e: "(t_env k)\<lparr>rt_scheduler_lock_nest := 0\<rparr> = t_env k" using k(3) by simp
  ultimately have "object_search k = Some k"
    using k(2,3) by (simp add: object_search_def on_k_def upd_k_def rt_enter_critical_def rt_exit_critical_def rt_thread_yield_def Let_def e)
  moreover have "ipc_reach {6, 5} {} (ipc0 k)" by (rule ipc_reach.i_boot) (use k(1) in \<open>simp_all add: ipc0_def\<close>)
  ultimately show thesis using that [of "ipc0 k"] k by (simp add: ipc0_def)
qed

text \<open>A semaphore of value 0 is initialised.\<close>

lemma sem_scene:
  obtains s where "ipc_reach {6, 5} {1} s" and "is_sem 1 s" and "sems s 1 = \<lparr>sem_type = 0x82, sem_flag = 0, sem_value = 0\<rparr>" and "waits_for s 1 []"
    and "rt_current_thread (i_env s) = Some 5" and "thread_of 5 (i_kernel s) = started_thread 3 0x1000"
    and "thread_of 6 (i_kernel s) = started_thread 1 0x2000" and "stacks_ok (i_env s) {6, 5}" and "is_thread 5 (i_kernel s)"
    and "thread_stat (i_env s) 5 = 3"
proof -
  obtain s where s: "ipc_reach {6, 5} {} s" "s = ipc0 (i_kernel s)" "object_search (i_kernel s) = Some (i_kernel s)"
      "rt_current_thread (i_env s) = Some 5" "thread_of 5 (i_kernel s) = started_thread 3 0x1000" "thread_of 6 (i_kernel s) = started_thread 1 0x2000"
    by (rule two_threads_ipc)
  define s1 where s1: "s1 = s\<lparr>i_kernel := rt_ipc_object_init 1 (i_kernel s), sems := (sems s)(1 := \<lparr>sem_type = 0x82, sem_flag = 0, sem_value = 0\<rparr>)\<rparr>"
  have o: "sems s 1 = \<lparr>sem_type = 0, sem_flag = 0, sem_value = 0\<rparr>" by (subst s(2)) (simp add: ipc0_def)
  have "rt_sem_init 1 0 0 s = Some (0, s1)"
    using s(3) o by (cases s) (simp add: rt_sem_init_def on_i_def upd_sem_def Let_def s1)
  then have r: "ipc_reach {6, 5} {1} s1" using ipc_reach.i_step [OF s(1) ipc_op.i_sem_init, of 1 0 0 0 s1] by simp
  have m: "is_sem 1 s1" by (simp add: s1 is_sem_def)
  have e: "threads (i_env s1) = threads (i_env s)" "rt_current_thread (i_env s1) = rt_current_thread (i_env s)"
    by (simp_all add: s1 rt_ipc_object_init_def upd_k_def)
  have w: "waits_for s1 1 []" by (simp add: waits_for_def s1 rt_ipc_object_init_def upd_k_def klist.rep_init)
  have th: "thread_of 5 (i_kernel s1) = started_thread 3 0x1000" "thread_of 6 (i_kernel s1) = started_thread 1 0x2000" using e s by simp_all
  show thesis
    by (rule that [OF r m _ w _ th two_stacks [OF th]]) (use started_thread_facts [OF th(1)] e s(4) in \<open>simp_all add: s1\<close>)
qed

text \<open>The running thread waits for it.\<close>

lemma sem_scene_waiting:
  obtains s where "ipc_reach {6, 5} {1} s" and "is_sem 1 s" and "sem_type (sems s 1) = 0x82" and "waits_for s 1 [5]" and "is_thread 5 (i_kernel s)"
proof -
  obtain s where s: "ipc_reach {6, 5} {1} s" "is_sem 1 s" "sems s 1 = \<lparr>sem_type = 0x82, sem_flag = 0, sem_value = 0\<rparr>" "waits_for s 1 []"
      "rt_current_thread (i_env s) = Some 5" "stacks_ok (i_env s) {6, 5}" "is_thread 5 (i_kernel s)" "thread_stat (i_env s) 5 = 3"
    by (rule sem_scene)
  obtain L where a: "ipc_at s {6, 5} {1} L" using ipc_reach_ok [OF s(1)] by (auto simp: ipc_ok_def)
  obtain k where k: "sem_wait 1 5 (- 1) s = Some k" using sem_wait_total(1) [OF a s(2,5,8,7,6), of "- 1"] by auto
  then have t: "rt_sem_take 1 (- 1) s = Some (Waits, s\<lparr>i_kernel := k\<rparr>)" using s(2,3,5) by (simp add: rt_sem_take_def)
  have v: "sem_value (sems s 1) = 0" using s(3) by simp
  note w = sem_wait_ipc [OF a s(5,8,2) v k]
  have L: "L (Suspended 1) = []" using waits_for_iff [OF a, of 1 "[]"] s(4) by simp
  obtain L' where L': "ipc_at (s\<lparr>i_kernel := k\<rparr>) {6, 5} {1} L'" "L' (Suspended 1) = [5]"
    using w(1) L s(3) by (auto simp: queue_is_def enqueue_def)
  have "running s" using s(5,8) by (simp add: running_def)
  then have r: "ipc_reach {6, 5} {1} (s\<lparr>i_kernel := k\<rparr>)" using ipc_reach.i_step [OF s(1) ipc_op.i_sem_take [OF _ t]] by blast
  show thesis
    by (rule that [OF r]) (use s(2,3) waits_for_iff [OF L'(1), of 1 "[5]"] L'(2) w(3) in \<open>simp_all add: waiting_def is_thread_def\<close>)
qed

theorem wait_lists_consistent_witness: "\<exists>s. is_sem 1 s \<and> sem_value (sems s 1) = 0 \<and> waits_for s 1 [5] \<and> thread_stat (i_env s) 5 = 2"
proof -
  obtain s where s: "ipc_reach {6, 5} {1} s" "is_sem 1 s" "waits_for s 1 [5]" by (rule sem_scene_waiting)
  then obtain W where W: "waits_for s 1 W" "\<forall>t \<in> set W. t \<in> {6, 5} \<and> thread_stat (i_env s) t = 2" "W = [] \<or> sem_value (sems s 1) = 0"
    using wait_lists_consistent [OF s(1), of 1] by auto
  have "map Tlist W = map Tlist [5]" by (rule dlist_unique) (use W(1) s(3) in \<open>simp_all add: waits_for_def\<close>)
  then have "W = [5]" by auto
  then show ?thesis using W s by auto
qed

theorem rt_sem_refines_witness:
  "\<exists>s s1 s2. rt_sem_release 1 s = Some (0, s1) \<and> sem_abs s1 1 (1, []) \<and> rt_sem_take 1 20 s = Some (Waits, s2) \<and> sem_abs s2 1 (0, [5])"
proof -
  obtain s where s: "ipc_reach {6, 5} {1} s" "is_sem 1 s" "sems s 1 = \<lparr>sem_type = 0x82, sem_flag = 0, sem_value = 0\<rparr>" "waits_for s 1 []"
      "rt_current_thread (i_env s) = Some 5" "stacks_ok (i_env s) {6, 5}" "is_thread 5 (i_kernel s)" "thread_stat (i_env s) 5 = 3"
    by (rule sem_scene)
  have "sem_abs s 1 (0, [])" "\<forall>t \<in> set [5]. is_thread t (i_kernel s)" "(20 :: int) < 0x7FFFFFFF" using s by (simp_all add: sem_abs_def)
  from rt_sem_refines [OF s(1,2) this(1) s(5,8) this(2) s(6) this(3)] show ?thesis using s(3) by (auto simp: sem_V_def sem_P_def enqueue_def)
qed

theorem sem_take_times_out_witness:
  "\<exists>s1 k. sys_ticks 20 (i_kernel s1) = Some k \<and> can_run (t_env k) 5 \<and> sem_take_return 5 (s1\<lparr>i_kernel := k\<rparr>) = - 2"
proof -
  obtain s where s: "ipc_reach {6, 5} {1} s" "is_sem 1 s" "sems s 1 = \<lparr>sem_type = 0x82, sem_flag = 0, sem_value = 0\<rparr>"
      "rt_current_thread (i_env s) = Some 5" "stacks_ok (i_env s) {6, 5}" "is_thread 5 (i_kernel s)" "thread_stat (i_env s) 5 = 3"
    by (rule sem_scene)
  have "sem_value (sems s 1) = 0" "(0 :: int) < 20" "(20 :: int) < 0x7FFFFFFF" using s(3) by simp_all
  from sem_take_times_out [OF s(1,2) this(1) s(4,7,6,5) this(2,3), of 20] show ?thesis by auto
qed

theorem sem_detach_wakes_all_witness: "\<exists>s s'. waits_for s 1 [5] \<and> rt_sem_detach 1 s = Some (0, s') \<and> can_run (i_env s') 5 \<and> sem_take_return 5 s' = - 1"
proof -
  obtain s where s: "ipc_reach {6, 5} {1} s" "is_sem 1 s" "sem_type (sems s 1) = 0x82" "waits_for s 1 [5]" "is_thread 5 (i_kernel s)"
    by (rule sem_scene_waiting)
  have "sem_type (sems s 1) AND 0x80 \<noteq> 0" "\<forall>t \<in> set [5]. is_thread t (i_kernel s)" using s(3,5) by simp_all
  from sem_detach_wakes_all [OF s(1,2) this(1) s(4) this(2)] show ?thesis using s(4) by auto
qed

subsection \<open>Two threads and a mutex\<close>

text \<open>
  Thread 5 is running with priority 20 and holds the mutex \<open>Suc n\<close> times; thread 6 is ready with priority 10.
\<close>

definition thread_facts :: "nat \<Rightarrow> u8 \<Rightarrow> nat \<Rightarrow> kernel \<Rightarrow> bool" where
  "thread_facts t x p k \<longleftrightarrow> thread_stat (t_env k) t = x \<and> prio (t_env k) t = p \<and> is_thread t k \<and> th_error (thread_of t k) = 0"

definition holds_mutex :: "nat \<Rightarrow> ipc \<Rightarrow> bool" where
  "holds_mutex n s \<longleftrightarrow> ipc_reach {6, 5} {1} s \<and> is_mutex 1 s \<and> mutex_flag (mutexes s 1) = 0 \<and> owner (mutexes s 1) = Some 5 \<and>
     hold (mutexes s 1) = of_nat (Suc n) \<and> original_priority (mutexes s 1) = 20 \<and> waits_for s 1 [] \<and> stacks_ok (i_env s) {6, 5} \<and>
     rt_scheduler_lock_nest (i_env s) = 0"

lemma only_stat_facts:
  assumes "only_stat (t_env k) (t_env k')" and "thread_facts t x p k" and "thread_stat (t_env k') t = y"
  shows "thread_facts t y p k'"
  using assms only_statD(1,3,4) [OF assms(1), of t] by (simp add: thread_facts_def is_thread_def rt_object_get_type_def)

lemma mutex_fresh:
  obtains s where "ipc_reach {6, 5} {1} s" and "is_mutex 1 s" and "mutexes s 1 = \<lparr>mutex_type = 0x83, mutex_flag = 0, mutex_value = 1,
      original_priority = 0xFF, hold = 0, owner = None\<rparr>" and "waits_for s 1 []" and "rt_scheduler_lock_nest (i_env s) = 0"
    and "stacks_ok (i_env s) {6, 5}" and "rt_current_thread (i_env s) = Some 5" and "thread_facts 5 3 10 (i_kernel s)" and "thread_facts 6 1 10 (i_kernel s)"
proof -
  obtain s where s: "ipc_reach {6, 5} {} s" "s = ipc0 (i_kernel s)" "object_search (i_kernel s) = Some (i_kernel s)"
      "rt_current_thread (i_env s) = Some 5" "rt_scheduler_lock_nest (i_env s) = 0"
      "thread_of 5 (i_kernel s) = started_thread 3 0x1000" "thread_of 6 (i_kernel s) = started_thread 1 0x2000"
    by (rule two_threads_ipc)
  let ?m = "\<lparr>mutex_type = 0x83, mutex_flag = 0, mutex_value = 1, original_priority = 0xFF, hold = 0, owner = None\<rparr>"
  define s1 where s1: "s1 = s\<lparr>i_kernel := rt_ipc_object_init 1 (i_kernel s), mutexes := (mutexes s)(1 := ?m)\<rparr>"
  have o: "mutexes s 1 = \<lparr>mutex_type = 0, mutex_flag = 0, mutex_value = 0, original_priority = 0, hold = 0, owner = None\<rparr>"
    by (subst s(2)) (simp add: ipc0_def)
  have "rt_mutex_init 1 0 s = Some (0, s1)"
    using s(3) o by (cases s) (simp add: rt_mutex_init_def on_i_def upd_mutex_def Let_def s1 fresh_mutex_def)
  then have r: "ipc_reach {6, 5} {1} s1" using ipc_reach.i_step [OF s(1) ipc_op.i_mutex_init, of 1 0 0 s1] by simp
  have m: "is_mutex 1 s1" "mutexes s1 1 = ?m" by (simp_all add: s1 is_mutex_def)
  have e: "threads (i_env s1) = threads (i_env s)" "rt_current_thread (i_env s1) = rt_current_thread (i_env s)"
      "rt_scheduler_lock_nest (i_env s1) = rt_scheduler_lock_nest (i_env s)"
    by (simp_all add: s1 rt_ipc_object_init_def upd_k_def)
  have w: "waits_for s1 1 []" by (simp add: waits_for_def s1 rt_ipc_object_init_def upd_k_def klist.rep_init)
  have th: "thread_of 5 (i_kernel s1) = started_thread 3 0x1000" "thread_of 6 (i_kernel s1) = started_thread 1 0x2000" using e s by simp_all
  have "th_error (started_thread x a) = 0" for x a by (simp add: started_thread_def new_thread_def)
  then have "thread_facts 5 3 10 (i_kernel s1)" "thread_facts 6 1 10 (i_kernel s1)"
    using started_thread_facts [OF th(1)] started_thread_facts [OF th(2)] th by (simp_all add: thread_facts_def)
  then show thesis by (intro that [OF r m w _ two_stacks [OF th]]) (use e s(4,5) in simp_all)
qed

text \<open>The running thread lowers its priority.\<close>

lemma mutex_lowered:
  obtains s where "ipc_reach {6, 5} {1} s" and "is_mutex 1 s" and "mutexes s 1 = \<lparr>mutex_type = 0x83, mutex_flag = 0, mutex_value = 1,
      original_priority = 0xFF, hold = 0, owner = None\<rparr>" and "waits_for s 1 []" and "rt_scheduler_lock_nest (i_env s) = 0"
    and "stacks_ok (i_env s) {6, 5}" and "rt_current_thread (i_env s) = Some 5" and "thread_facts 5 3 20 (i_kernel s)" and "thread_facts 6 1 10 (i_kernel s)"
proof -
  obtain s where s: "ipc_reach {6, 5} {1} s" "is_mutex 1 s" "mutexes s 1 = \<lparr>mutex_type = 0x83, mutex_flag = 0, mutex_value = 1,
      original_priority = 0xFF, hold = 0, owner = None\<rparr>" "waits_for s 1 []" "rt_scheduler_lock_nest (i_env s) = 0" "stacks_ok (i_env s) {6, 5}"
      "rt_current_thread (i_env s) = Some 5" "thread_facts 5 3 10 (i_kernel s)" "thread_facts 6 1 10 (i_kernel s)"
    by (rule mutex_fresh)
  obtain L where a: "ipc_at s {6, 5} {1} L" using ipc_reach_ok [OF s(1)] by (auto simp: ipc_ok_def)
  note k = ipc_atD(1) [OF a]
  have T: "(5 :: nat) \<in> {6, 5}" "(20 :: u8) < 32" by simp_all
  have f: "thread_stat (i_env s) 5 = 3" "is_thread 5 (i_kernel s)" "thread_stat (i_env s) 6 = 1" using s(8,9) by (simp_all add: thread_facts_def)
  obtain k1 where op: "owner_priority 5 20 (i_kernel s) = Some k1" using owner_priority_total [OF k T(1) f(2) T(2)] by blast
  then obtain rc where rc: "rt_thread_control 5 (RT_THREAD_CTRL_CHANGE_PRIORITY 20) (i_kernel s) = Some (rc, k1)"
    by (auto simp: owner_priority_def bind_eq_Some_conv)
  note p = priority_kernel [OF k T(1) rc] and o = owner_priority_kernel [OF k T(1) op] and o' = owner_priority_keeps [OF k T(1) op]
  let ?s = "s\<lparr>i_kernel := k1\<rparr>"
  have "thread_op {6, 5} (i_kernel s) {6, 5} k1" by (rule thread_op.t_control [OF T(1) _ rc]) (simp add: f)
  then have r: "ipc_reach {6, 5} {1} ?s" by (intro ipc_reach.i_step [OF s(1) ipc_op.i_thread])
  obtain L1 where L1: "kernel_at k1 {6, 5} {1} L1" "L1 (Suspended 1) = L (Suspended 1)" using p(1) by auto
  have w: "waits_for ?s 1 []"
    using waiting_list [OF L1(1), of 1] L1(2) waits_for_iff [OF a, of 1 "[]"] s(4) by (simp add: waits_for_def)
  have c1: "rt_current_thread (t_env k1) = Some 5" using p(4) s(7) by simp
  note v1 = sched_okD(2) [OF kernel_atD(1) [OF L1(1)]]
  have st5: "thread_stat (t_env k1) 5 = 3" using stats_okD(5) [OF v1 c1] o(4) [of 5] f(1) by (auto simp: can_run_def)
  have "thread_stat (t_env k1) 6 \<noteq> 3" using stats_okD(4) [OF v1, of 6] c1 by auto
  then have st6: "thread_stat (t_env k1) 6 = 1" using o(4) [of 6] f(3) by (auto simp: can_run_def)
  have er: "th_error (thread_of t k1) = th_error (thread_of t (i_kernel s))" for t using only_statD(3) [OF o(2), of t] by simp
  have "thread_facts 5 3 20 k1" "thread_facts 6 1 10 k1"
    using s(8,9) o(5) o'(1) st5 st6 er by (simp_all add: thread_facts_def)
  then show thesis using s(2,3,5-7) p(4,5) o'(2) by (intro that [OF r _ _ w]) simp_all
qed

lemma error_zero_facts: "thread_facts t x p (set_error u 0 k) \<longleftrightarrow> thread_stat (t_env k) t = x \<and> prio (t_env k) t = p \<and> is_thread t k \<and>
    (t = u \<or> th_error (thread_of t k) = 0)"
  unfolding thread_facts_def set_error_simps(3,4,5) by (simp del: set_error_simps(3-5))

lemma error_zero_keeps: "thread_facts t x p k \<Longrightarrow> thread_facts t x p (set_error u 0 k)"
  by (simp add: error_zero_facts) (simp add: thread_facts_def)

lemma set_error_links: "waits_for (s\<lparr>i_kernel := set_error t e (i_kernel s)\<rparr>) q W \<longleftrightarrow> waits_for s q W"
  "rt_scheduler_lock_nest (t_env (set_error t e k)) = rt_scheduler_lock_nest (t_env k)"
  by (simp_all add: waits_for_def set_error_def upd_k_def)

lemma waits_for_upd: "waits_for (upd_mutex q f s) r W \<longleftrightarrow> waits_for s r W"
  by (simp add: waits_for_def)

lemma mutex_held:
  "\<exists>s. holds_mutex n s \<and> rt_current_thread (i_env s) = Some 5 \<and> thread_facts 5 3 20 (i_kernel s) \<and> thread_facts 6 1 10 (i_kernel s)"
proof (induction n)
  case 0
  obtain s where s: "ipc_reach {6, 5} {1} s" "is_mutex 1 s" "mutexes s 1 = \<lparr>mutex_type = 0x83, mutex_flag = 0, mutex_value = 1,
      original_priority = 0xFF, hold = 0, owner = None\<rparr>" "waits_for s 1 []" "rt_scheduler_lock_nest (i_env s) = 0" "stacks_ok (i_env s) {6, 5}"
      "rt_current_thread (i_env s) = Some 5" "thread_facts 5 3 20 (i_kernel s)" "thread_facts 6 1 10 (i_kernel s)"
    by (rule mutex_lowered)
  let ?s0 = "s\<lparr>i_kernel := set_error 5 0 (i_kernel s)\<rparr>"
  define s1 where s1: "s1 = upd_mutex 1 (\<lambda>r. r\<lparr>mutex_value := mutex_value r - 1, owner := Some 5,
      original_priority := current_priority (thread_of 5 (i_kernel ?s0)), hold := hold r + 1\<rparr>) ?s0"
  have "rt_mutex_take 1 0 s = Some (Returns 0, s1)"
    using s(2,3,7) by (simp add: rt_mutex_take_def mutex_again_def Let_def s1)
  moreover have "running s" using s(7,8) by (simp add: running_def thread_facts_def)
  ultimately have r: "ipc_reach {6, 5} {1} s1" using ipc_reach.i_step [OF s(1) ipc_op.i_mutex_take] by blast
  have "current_priority (thread_of 5 (i_kernel s)) = 20" using s(8) by (simp add: thread_facts_def word_unat_eq_iff)
  then have "mutexes s1 1 = \<lparr>mutex_type = 0x83, mutex_flag = 0, mutex_value = 0, original_priority = 20, hold = 1, owner = Some 5\<rparr>"
    using s(3) by (simp add: s1)
  moreover have "i_kernel s1 = set_error 5 0 (i_kernel s)" "waits_for s1 1 []" using s(4) by (simp_all add: s1 waits_for_upd set_error_links)
  ultimately have "holds_mutex 0 s1" using r s(5,6) by (simp add: holds_mutex_def is_mutex_def set_error_links)
  then show ?case
    using s(7-9) error_zero_keeps by (intro exI [of _ s1]) (simp add: s1)
next
  case (Suc n)
  then obtain s where s: "holds_mutex n s" "rt_current_thread (i_env s) = Some 5" "thread_facts 5 3 20 (i_kernel s)" "thread_facts 6 1 10 (i_kernel s)"
    by blast
  let ?s0 = "s\<lparr>i_kernel := set_error 5 0 (i_kernel s)\<rparr>"
  define s1 where s1: "s1 = upd_mutex 1 (hold_update (\<lambda>h. h + 1)) ?s0"
  have "rt_mutex_take 1 0 s = Some (Returns 0, s1)"
    using s(1,2) by (simp add: rt_mutex_take_def Let_def s1 holds_mutex_def)
  moreover have "running s" using s(2,3) by (simp add: running_def thread_facts_def)
  ultimately have r: "ipc_reach {6, 5} {1} s1" using ipc_reach.i_step [OF _ ipc_op.i_mutex_take] s(1) unfolding holds_mutex_def by blast
  have "holds_mutex (Suc n) s1"
    using s(1) r unfolding holds_mutex_def s1 by (simp add: is_mutex_def waits_for_upd set_error_links)
  then show ?case using s(2-4) error_zero_keeps by (intro exI [of _ s1]) (simp add: s1)
qed

theorem mutex_hold_wraps_witness:
  "\<exists>s s1 s2 s3. hold (mutexes s 1) = 255 \<and> rt_mutex_take 1 0 s = Some (Returns 0, s1) \<and> rt_mutex_take 1 0 s1 = Some (Returns 0, s2) \<and>
    rt_mutex_release 1 s2 = Some (0, s3) \<and> owner (mutexes s3 1) = None"
proof -
  obtain s where s: "holds_mutex 254 s" "rt_current_thread (i_env s) = Some 5" "thread_facts 5 3 20 (i_kernel s)" using mutex_held by blast
  have h: "ipc_reach {6, 5} {1} s" "is_mutex 1 s" "waits_for s 1 []" "is_thread 5 (i_kernel s)" "owner (mutexes s 1) = Some 5"
      "hold (mutexes s 1) = 255" "stacks_ok (i_env s) {6, 5}"
    using s by (simp_all add: holds_mutex_def thread_facts_def)
  from mutex_hold_wraps [OF h(1-3) s(2) h(4-7), of 0] show ?thesis using h(6) by blast
qed

text \<open>The thread of the higher priority gets the processor.\<close>

lemma holder_preempted:
  "\<exists>s. holds_mutex 0 s \<and> rt_current_thread (i_env s) = Some 6 \<and> thread_facts 5 1 20 (i_kernel s) \<and> thread_facts 6 3 10 (i_kernel s)"
proof -
  obtain s where s: "holds_mutex 0 s" "rt_current_thread (i_env s) = Some 5" "thread_facts 5 3 20 (i_kernel s)" "thread_facts 6 1 10 (i_kernel s)"
    using mutex_held by blast
  have h: "ipc_reach {6, 5} {1} s" "rt_scheduler_lock_nest (i_env s) = 0" "stacks_ok (i_env s) {6, 5}" "waits_for s 1 []"
    using s(1) by (simp_all add: holds_mutex_def)
  obtain L where a: "ipc_at s {6, 5} {1} L" using ipc_reach_ok [OF h(1)] by (auto simp: ipc_ok_def)
  note ok = kernel_atD(1) [OF ipc_atD(1) [OF a]]
  have "can_run (i_env s) 6" using s(4) by (simp add: thread_facts_def can_run_def)
  from schedule_decides [OF ok s(2) h(2,3) _ this] obtain e d where e: "rt_schedule (i_env s) = Some e" "rt_current_thread e = Some d"
      "d \<in> {6, 5}" "thread_stat e d = 3" "d = 5 \<longleftrightarrow> thread_stat (i_env s) 5 = 3 \<and> (\<forall>v \<in> {6, 5}. thread_stat (i_env s) v = 1 \<longrightarrow>
        prio (i_env s) 5 < prio (i_env s) v \<or> (prio (i_env s) 5 = prio (i_env s) v \<and> stat (threads (i_env s) 5) AND 8 = 0))"
    by auto
  have "d \<noteq> 5" using e(5) s(3,4) by (simp add: thread_facts_def)
  then have d: "d = 6" using e(3) by simp
  let ?k = "(i_kernel s)\<lparr>t_env := e\<rparr>"
  let ?s = "s\<lparr>i_kernel := ?k\<rparr>"
  have sc: "on_k rt_schedule (i_kernel s) = Some ?k" using e(1) by (simp add: on_k_def)
  have r: "ipc_reach {6, 5} {1} ?s" by (rule ipc_reach.i_step [OF h(1) ipc_op.i_thread [OF thread_op.t_schedule [OF sc]]])
  note o = rt_schedule_only_stat [OF ok e(1)]
  have "on_i (on_k rt_schedule) s = Some ?s" using sc by (simp add: on_i_def)
  then obtain L' where L': "ipc_at ?s {6, 5} {1} L'" "L' (Suspended 1) = L (Suspended 1)" using schedule_ipc(1) [OF a] by blast
  then have w: "waits_for ?s 1 []" using waits_for_iff [OF L'(1), of 1] waits_for_iff [OF a, of 1] h(4) by simp
  have "thread_stat e 5 \<noteq> 3" using stats_okD(4) [OF sched_okD(2) [OF kernel_atD(1) [OF ipc_atD(1) [OF L'(1)]]], of 5] e(2) d by auto
  then have "thread_stat e 5 = 1" using only_statD(6) [OF o, of 5] s(3) by (auto simp: can_run_def thread_facts_def)
  then have "thread_facts 5 1 20 ?k" "thread_facts 6 3 10 ?k" using only_stat_facts [of "i_kernel s" ?k] o s(3,4) e(4) d by simp_all
  moreover have "stacks_ok e {6, 5}" by (rule stacks_ok_cong [OF _ h(3)]) (rule only_statD(5) [OF o])
  then have "holds_mutex 0 ?s"
    using s(1) r w rt_schedule_lock [OF ok s(2) e(1)] by (simp add: holds_mutex_def)
  ultimately show ?thesis using e(2) d by (intro exI [of _ ?s]) simp
qed

theorem mutex_inherits_priority_witness:
  "\<exists>s s'. prio (i_env s) 5 = 20 \<and> rt_mutex_take 1 (- 1) s = Some (Waits, s') \<and> waits_for s' 1 [6] \<and> owner (mutexes s' 1) = Some 5 \<and> prio (i_env s') 5 = 10"
proof -
  obtain s where s: "holds_mutex 0 s" "rt_current_thread (i_env s) = Some 6" "thread_facts 5 1 20 (i_kernel s)" "thread_facts 6 3 10 (i_kernel s)"
    using holder_preempted by blast
  have h: "ipc_reach {6, 5} {1} s" "is_mutex 1 s" "owner (mutexes s 1) = Some 5" "(5 :: nat) \<noteq> 6" "waits_for s 1 []"
      "thread_stat (i_env s) 6 = 3" "is_thread 6 (i_kernel s)" "is_thread 5 (i_kernel s)" "stacks_ok (i_env s) {6, 5}" "(- 1 :: int) \<noteq> 0"
      "(- 1 :: int) < 0x7FFFFFFF" "mutex_flag (mutexes s 1) = 0" "prio (i_env s) 5 = 20" "prio (i_env s) 6 = 10"
    using s by (simp_all add: holds_mutex_def thread_facts_def)
  from mutex_inherits_priority [OF h(1-5) s(2) h(6-11)] show ?thesis using h(3,12-14) by (auto simp: enqueue_def)
qed

text \<open>When it waits, another thread that can run gets the processor.\<close>

lemma mutex_wait_switches:
  assumes a: "ipc_at s T Q L" and c: "rt_current_thread (i_env s) = Some c" "thread_stat (i_env s) c = 3"
    and m: "is_mutex q s" "owner (mutexes s q) = Some u" "u \<noteq> c" and k: "mutex_wait q c time s = Some k"
    and l: "rt_scheduler_lock_nest (i_env s) = 0" and st: "stacks_ok (i_env s) T" and v: "v \<in> T" "can_run (i_env s) v" "v \<noteq> c"
  shows "\<exists>d \<in> T. rt_current_thread (t_env k) = Some d \<and> thread_stat (t_env k) d = 3" and "stacks_ok (t_env k) T"
    and "is_thread w k \<longleftrightarrow> is_thread w (i_kernel s)"
proof -
  let ?k = "i_kernel s" and ?p = "current_priority (thread_of c (i_kernel s))"
  note ka = ipc_atD(1) [OF a]
  note r = current_running [OF ka c]
  have u: "u \<in> T" using ipc_atD(6) [OF a m(1)] m(2) by (simp add: mutex_ok_def)
  obtain k0 k1 k2 where k0: "(if ?p < current_priority (thread_of u ?k) then owner_priority u ?p ?k else Some ?k) = Some k0"
    and k12: "rt_ipc_list_suspend q c (mutex_flag (mutexes s q)) k0 = Some k1" "start_wait c time k1 = Some k2" "on_k rt_schedule k2 = Some k"
    using k m(2) by (auto simp: mutex_wait_def bind_eq_Some_conv Let_def)
  have lock: "rt_scheduler_lock_nest (t_env k0) = 0" if op: "owner_priority u ?p ?k = Some k0"
  proof -
    obtain rc where "rt_thread_control u (RT_THREAD_CTRL_CHANGE_PRIORITY ?p) ?k = Some (rc, k0)"
      using op by (auto simp: owner_priority_def bind_eq_Some_conv)
    from priority_kernel(5) [OF ka u this] l show ?thesis by simp
  qed
  have k0': "rt_current_thread (t_env k0) = Some c" "is_thread w k0 \<longleftrightarrow> is_thread w ?k" "stacks_ok (t_env k0) T" "rt_scheduler_lock_nest (t_env k0) = 0"
    using k0 owner_priority_kernel(3) [OF ka u] owner_priority_keeps [OF ka u] c st l lock by (auto split: if_splits)
  note bo = boost_kernel [OF ka u m(3) [symmetric] k0]
  obtain L0 where L0: "kernel_at k0 T Q L0" using bo(1) by blast
  have cr: "can_run (t_env k0) c" "can_run (t_env k0) v" using bo(2) r(2) v(2) by simp_all
  note ls = list_suspend_kernel [OF L0 r(1) cr(1) ipc_atD(4) [OF a m(1)] k12(1)]
  obtain L1 where L1: "kernel_at k1 T Q L1" using ls(1) by blast
  note sw = start_wait_kernel [OF L1 ls(2) k12(2)]
  obtain K G where e: "t_env k2 = (set_stat 2 c (t_env k0))\<lparr>k_links := K, rt_thread_ready_priority_group := G\<rparr>" using ls(3) sw(2) by auto
  have e2: "rt_current_thread (t_env k2) = Some c" "rt_scheduler_lock_nest (t_env k2) = 0" using e k0' by simp_all
  have st2: "stacks_ok (t_env k2) T" by (rule stacks_ok_cong [OF _ k0'(3)]) (simp add: e)
  have "can_run (t_env k2) v" using e cr(2) v(3) by (simp add: can_run_def)
  from schedule_decides [OF kernel_atD(1) [OF sw(1)] e2 st2 v(1) this] k12(3) obtain d where
    "rt_current_thread (t_env k) = Some d" "d \<in> T" "thread_stat (t_env k) d = 3" by (auto simp: on_k_def)
  then show "\<exists>d \<in> T. rt_current_thread (t_env k) = Some d \<and> thread_stat (t_env k) d = 3" by blast
  note o = schedule_lists(2) [OF sw(1) k12(3)]
  show "stacks_ok (t_env k) T" by (rule stacks_ok_cong [OF _ st2]) (rule only_statD(5) [OF o])
  show "is_thread w k \<longleftrightarrow> is_thread w (i_kernel s)" using only_statD(4) [OF o, of w] e k0'(2) by (simp add: is_thread_def rt_object_get_type_def)
qed

theorem mutex_handed_over_witness:
  "\<exists>s s'. prio (i_env s) 5 = 10 \<and> rt_mutex_release 1 s = Some (0, s') \<and> owner (mutexes s' 1) = Some 6 \<and> can_run (i_env s') 6 \<and>
    mutex_take_return 1 6 (- 1) s' = Some (Returns 0, s') \<and> current_priority (thread_of 5 (i_kernel s')) = 20"
proof -
  obtain s where s: "holds_mutex 0 s" "rt_current_thread (i_env s) = Some 6" "thread_facts 5 1 20 (i_kernel s)" "thread_facts 6 3 10 (i_kernel s)"
    using holder_preempted by blast
  let ?s = "s\<lparr>i_kernel := set_error 6 0 (i_kernel s)\<rparr>"
  have h: "ipc_reach {6, 5} {1} s" "is_mutex 1 s" "mutex_flag (mutexes s 1) = 0" "owner (mutexes s 1) = Some 5" "hold (mutexes s 1) = 1"
      "original_priority (mutexes s 1) = 20" "waits_for s 1 []" "stacks_ok (i_env s) {6, 5}" "rt_scheduler_lock_nest (i_env s) = 0"
    using s(1) by (simp_all add: holds_mutex_def)
  obtain L where a: "ipc_at s {6, 5} {1} L" using ipc_reach_ok [OF h(1)] by (auto simp: ipc_ok_def)
  note a' = ipc_at_error [OF a, of 6 0]
  have m: "rt_current_thread (i_env ?s) = Some 6" "thread_stat (i_env ?s) 6 = 3" "is_mutex 1 ?s" "owner (mutexes ?s 1) = Some 5" "(5 :: nat) \<noteq> 6"
    using s(2,4) h(2,4) by (simp_all add: thread_facts_def)
  have m': "is_thread 6 (i_kernel ?s)" "is_thread 5 (i_kernel ?s)" "stacks_ok (i_env ?s) {6, 5}" "(- 1 :: int) < 0x7FFFFFFF"
      "rt_scheduler_lock_nest (i_env ?s) = 0" "(5 :: nat) \<in> {6, 5}" "can_run (i_env ?s) 5"
    using s(3,4) h(8,9) by (simp_all add: thread_facts_def set_error_links can_run_def)
  obtain k where k: "mutex_wait 1 6 (- 1) ?s = Some k" using mutex_wait_total [OF a' m(3-5,1,2) m'(1-4)] by blast
  note w = mutex_wait_ipc [OF a' m k] and w' = mutex_wait_switches [OF a' m k m'(5,3,6,7) m(5)]
  let ?t = "?s\<lparr>i_kernel := k\<rparr>"
  have "\<not> 0 < mutex_value (mutexes s 1)" using mutex_value_cases(1) [OF a h(2)] h(4) by auto
  then have "rt_mutex_take 1 (- 1) s = Some (Waits, ?t)" using k h(2,4) s(2) by (simp add: rt_mutex_take_def mutex_again_def Let_def)
  moreover have "running s" using s(2,4) by (simp add: running_def thread_facts_def)
  ultimately have r: "ipc_reach {6, 5} {1} ?t" using ipc_reach.i_step [OF h(1) ipc_op.i_mutex_take] by blast
  have "L (Suspended 1) = []" using waits_for_iff [OF a, of 1 "[]"] h(7) by simp
  then obtain L' where L': "ipc_at ?t {6, 5} {1} L'" "L' (Suspended 1) = [6]" using w(1) h(3) by (auto simp: queue_is_def enqueue_def)
  have wf: "waits_for ?t 1 [6]" using waits_for_iff [OF L'(1), of 1 "[6]"] L'(2) by simp
  have "thread_stat (t_env k) 6 = 2" using w(2) by (simp add: waiting_def)
  then have c: "rt_current_thread (i_env ?t) = Some 5" using w'(1) by auto
  have p: "prio (i_env ?t) 5 = 10" using w(3) s(3,4) by (simp add: thread_facts_def)
  have er: "th_error (thread_of 6 (i_kernel ?t)) = 0" using w(5) by simp
  have th: "\<forall>t \<in> set [5, 6]. is_thread t (i_kernel ?t)" using w'(3) m'(1,2) by simp
  have t: "is_mutex 1 ?t" "owner (mutexes ?t 1) = Some 5" "hold (mutexes ?t 1) = 1" "stacks_ok (i_env ?t) {6, 5}" "original_priority (mutexes ?t 1) = 20"
    using h w'(2) by simp_all
  from mutex_handed_over [OF r t(1) wf c t(2-4) th, of "- 1"] obtain s' where "rt_mutex_release 1 ?t = Some (0, s')"
      "owner (mutexes s' 1) = Some 6" "can_run (i_env s') 6" "mutex_take_return 1 6 (- 1) s' = Some (Returns 0, s')"
      "current_priority (thread_of 5 (i_kernel s')) = 20"
    using er t(5) by auto
  then show ?thesis using p by (intro exI [of _ ?t] exI [of _ s']) simp
qed

end
