(* ===== verification/Serial.thy ===== *)
theory Serial
  imports Ringbuffer "HOL-Library.Sublist"
begin

text \<open>
  The receiving side of the serial driver \<open>rt-thread/components/drivers/serial/serial.c\<close> and the generic calls
  of \<open>rt-thread/src/device.c\<close> that lead to it. The interrupt handler and the reader share a circular buffer with two 16-bit
  indices and a flag; each critical section of the source (interrupts disabled) is one definition here, so that
  the reader of one byte and the handler of one character are atomic and everything else may come between them.

  The characters that the receiver of the chip delivers are arguments. In DMA mode the controller writes into the
  buffer by itself; what it does to the memory is the parameter \<open>hw\<close>.
\<close>

subsection \<open>The receive buffer\<close>

record rt_serial_rx_fifo =
  rx_buffer :: "u8 list"
  put_index :: u16
  get_index :: u16
  is_full :: bool

definition fifo_next :: "u16 \<Rightarrow> u16 \<Rightarrow> u16" where
  "fifo_next bufsz i = (if i + 1 \<ge> bufsz then 0 else i + 1)"

text \<open>One character in the interrupt handler, and the whole loop over the characters that are there.\<close>

definition serial_fifo_put :: "u16 \<Rightarrow> u8 \<Rightarrow> rt_serial_rx_fifo \<Rightarrow> rt_serial_rx_fifo option" where
  "serial_fifo_put bufsz ch f = do {
     m \<leftarrow> mem_set (rx_buffer f) (unat (put_index f)) ch;
     let f = f\<lparr>rx_buffer := m, put_index := fifo_next bufsz (put_index f)\<rparr>;
     Some (if put_index f = get_index f
           then f\<lparr>get_index := fifo_next bufsz (get_index f), is_full := True\<rparr> else f) }"

fun serial_fifo_puts :: "u16 \<Rightarrow> u8 list \<Rightarrow> rt_serial_rx_fifo \<Rightarrow> rt_serial_rx_fifo option" where
  "serial_fifo_puts bufsz [] f = Some f"
| "serial_fifo_puts bufsz (ch # chs) f = do { f \<leftarrow> serial_fifo_put bufsz ch f; serial_fifo_puts bufsz chs f }"

definition rx_length :: "u16 \<Rightarrow> rt_serial_rx_fifo \<Rightarrow> u32" where
  "rx_length bufsz f =
     (if put_index f \<ge> get_index f then word_of_int (uint (put_index f) - uint (get_index f))
      else word_of_int (uint bufsz - (uint (get_index f) - uint (put_index f))))"

text \<open>One byte for the reader: nothing there, or the byte.\<close>

definition serial_fifo_get :: "u16 \<Rightarrow> rt_serial_rx_fifo \<Rightarrow> (u8 \<times> rt_serial_rx_fifo) option option" where
  "serial_fifo_get bufsz f =
     (if get_index f = put_index f \<and> \<not> is_full f then Some None
      else do {
        ch \<leftarrow> mem_get (rx_buffer f) (unat (get_index f));
        Some (Some (ch, f\<lparr>get_index := fifo_next bufsz (get_index f), is_full := False\<rparr>)) })"

fun serial_int_rx_loop :: "u16 \<Rightarrow> nat \<Rightarrow> nat \<Rightarrow> u8 list \<Rightarrow> rt_serial_rx_fifo \<Rightarrow> (nat \<times> u8 list \<times> rt_serial_rx_fifo) option" where
  "serial_int_rx_loop bufsz 0 cnt data f = Some (cnt, data, f)"
| "serial_int_rx_loop bufsz (Suc len) cnt data f = do {
     r \<leftarrow> serial_fifo_get bufsz f;
     case r of
       None \<Rightarrow> Some (cnt, data, f)
     | Some (ch, f) \<Rightarrow> do { data \<leftarrow> mem_set data cnt ch; serial_int_rx_loop bufsz len (Suc cnt) data f } }"

definition serial_int_rx :: "u16 \<Rightarrow> nat \<Rightarrow> u8 list \<Rightarrow> rt_serial_rx_fifo \<Rightarrow> (nat \<times> u8 list \<times> rt_serial_rx_fifo) option" where
  "serial_int_rx bufsz len data f = serial_int_rx_loop bufsz len 0 data f"

definition serial_fifo_calc_recved_len :: "u16 \<Rightarrow> rt_serial_rx_fifo \<Rightarrow> u32" where
  "serial_fifo_calc_recved_len bufsz f =
     (if put_index f = get_index f then (if is_full f then ucast bufsz else 0)
      else if put_index f > get_index f then word_of_int (uint (put_index f) - uint (get_index f))
      else word_of_int (uint bufsz - (uint (get_index f) - uint (put_index f))))"

subsection \<open>The receive buffer under DMA\<close>

definition rt_dma_recv_update_get_index :: "u16 \<Rightarrow> u32 \<Rightarrow> rt_serial_rx_fifo \<Rightarrow> rt_serial_rx_fifo option" where
  "rt_dma_recv_update_get_index bufsz len f = do {
     rt_assert (len \<le> serial_fifo_calc_recved_len bufsz f);
     let f = (if is_full f \<and> len \<noteq> 0 then f\<lparr>is_full := False\<rparr> else f);
     let get = get_index f + ucast len;
     Some (f\<lparr>get_index := if get \<ge> bufsz then get mod bufsz else get\<rparr>) }"

definition rt_dma_recv_update_put_index :: "u16 \<Rightarrow> u32 \<Rightarrow> rt_serial_rx_fifo \<Rightarrow> rt_serial_rx_fifo" where
  "rt_dma_recv_update_put_index bufsz len f =
     (let put = put_index f + ucast len;
          f = (if get_index f \<le> put_index f
               then if put \<ge> bufsz
                    then let put = put mod bufsz in
                      f\<lparr>put_index := put, is_full := is_full f \<or> put \<ge> get_index f\<rparr>
                    else f\<lparr>put_index := put, is_full := is_full f\<rparr>
               else if put \<ge> get_index f
                    then f\<lparr>put_index := if put \<ge> bufsz then put mod bufsz else put, is_full := True\<rparr>
                    else f\<lparr>put_index := put, is_full := is_full f\<rparr>)
      in if is_full f then f\<lparr>get_index := put_index f\<rparr> else f)"

definition serial_dma_rx :: "u16 \<Rightarrow> nat \<Rightarrow> u8 list \<Rightarrow> rt_serial_rx_fifo \<Rightarrow> (nat \<times> u8 list \<times> rt_serial_rx_fifo) option" where
  "serial_dma_rx bufsz len data f =
     (let recv = min len (unat (serial_fifo_calc_recved_len bufsz f));
          get = unat (get_index f); n = unat bufsz in do {
      data \<leftarrow> (if get + recv < n then mem_copy data 0 (rx_buffer f) get recv
               else do {
                 data \<leftarrow> mem_copy data 0 (rx_buffer f) get (n - get);
                 mem_copy data (n - get) (rx_buffer f) 0 (recv + get - n) });
      f \<leftarrow> rt_dma_recv_update_get_index bufsz (of_nat recv) f;
      Some (recv, data, f) })"

subsection \<open>The device\<close>

text \<open>
  What \<open>serial_rx\<close> and \<open>serial_tx\<close> point to. Of the sending side only the kind of structure is kept; the
  completion and the data queue in it belong to the sending side.
\<close>

datatype serial_rx_t = No_rx | Rx_fifo rt_serial_rx_fifo | Rx_dma bool

datatype serial_tx_t = No_tx | Tx_fifo | Tx_dma bool

record rt_serial_device =
  ser_flag :: u16
  ser_open_flag :: u16
  ser_ref_count :: u8
  ser_rx_indicate :: bool
  ser_bufsz :: u16
  serial_rx :: serial_rx_t
  serial_tx :: serial_tx_t

abbreviation "RT_DEVICE_FLAG_STANDALONE \<equiv> (0x008 :: u16)"
abbreviation "RT_DEVICE_FLAG_ACTIVATED \<equiv> (0x010 :: u16)"
abbreviation "RT_DEVICE_FLAG_STREAM \<equiv> (0x040 :: u16)"
abbreviation "RT_DEVICE_FLAG_INT_RX \<equiv> (0x100 :: u16)"
abbreviation "RT_DEVICE_FLAG_DMA_RX \<equiv> (0x200 :: u16)"
abbreviation "RT_DEVICE_FLAG_INT_TX \<equiv> (0x400 :: u16)"
abbreviation "RT_DEVICE_FLAG_DMA_TX \<equiv> (0x800 :: u16)"
abbreviation "RT_DEVICE_OFLAG_OPEN \<equiv> (0x008 :: u16)"

definition flagged :: "u16 \<Rightarrow> u16 \<Rightarrow> bool" where
  "flagged w m \<longleftrightarrow> w AND m \<noteq> 0"

definition fresh_fifo :: "u16 \<Rightarrow> rt_serial_rx_fifo" where
  "fresh_fifo bufsz = \<lparr>rx_buffer = replicate (unat bufsz) 0, put_index = 0, get_index = 0, is_full = False\<rparr>"

definition or_open :: "u16 \<Rightarrow> rt_serial_device \<Rightarrow> rt_serial_device" where
  "or_open m d = d\<lparr>ser_open_flag := ser_open_flag d OR m\<rparr>"

text \<open>The receiving and the sending part of \<open>rt_serial_open\<close>; \<open>mem\<close> says whether the structure can be allocated.\<close>

definition serial_open_rx :: "u16 \<Rightarrow> bool \<Rightarrow> rt_serial_device \<Rightarrow> rt_serial_device option" where
  "serial_open_rx oflag mem d =
     (if serial_rx d = No_rx
      then if flagged oflag RT_DEVICE_FLAG_INT_RX
           then do {
             rt_assert mem;
             Some (or_open RT_DEVICE_FLAG_INT_RX (d\<lparr>serial_rx := Rx_fifo (fresh_fifo (ser_bufsz d))\<rparr>)) }
           else if flagged oflag RT_DEVICE_FLAG_DMA_RX
           then do {
             rt_assert mem;
             Some (or_open RT_DEVICE_FLAG_DMA_RX
               (d\<lparr>serial_rx := if ser_bufsz d = 0 then Rx_dma False else Rx_fifo (fresh_fifo (ser_bufsz d))\<rparr>)) }
           else Some d
      else if flagged oflag RT_DEVICE_FLAG_INT_RX then Some (or_open RT_DEVICE_FLAG_INT_RX d)
      else if flagged oflag RT_DEVICE_FLAG_DMA_RX then Some (or_open RT_DEVICE_FLAG_DMA_RX d)
      else Some d)"

definition serial_open_tx :: "u16 \<Rightarrow> bool \<Rightarrow> rt_serial_device \<Rightarrow> rt_serial_device option" where
  "serial_open_tx oflag mem d =
     (if serial_tx d = No_tx
      then if flagged oflag RT_DEVICE_FLAG_INT_TX
           then do { rt_assert mem; Some (or_open RT_DEVICE_FLAG_INT_TX (d\<lparr>serial_tx := Tx_fifo\<rparr>)) }
           else if flagged oflag RT_DEVICE_FLAG_DMA_TX
           then do { rt_assert mem; Some (or_open RT_DEVICE_FLAG_DMA_TX (d\<lparr>serial_tx := Tx_dma False\<rparr>)) }
           else Some d
      else if flagged oflag RT_DEVICE_FLAG_INT_TX then Some (or_open RT_DEVICE_FLAG_INT_TX d)
      else if flagged oflag RT_DEVICE_FLAG_DMA_TX then Some (or_open RT_DEVICE_FLAG_DMA_TX d)
      else Some d)"

definition rt_serial_open :: "u16 \<Rightarrow> bool \<Rightarrow> bool \<Rightarrow> rt_serial_device \<Rightarrow> (int \<times> rt_serial_device) option" where
  "rt_serial_open oflag rx_mem tx_mem d =
     (if \<exists>m \<in> {RT_DEVICE_FLAG_DMA_RX, RT_DEVICE_FLAG_DMA_TX, RT_DEVICE_FLAG_INT_RX, RT_DEVICE_FLAG_INT_TX}.
           flagged oflag m \<and> \<not> flagged (ser_flag d) m
      then Some (- 8, d)
      else do {
        let stream_flag = (if flagged oflag RT_DEVICE_FLAG_STREAM \<or> flagged (ser_open_flag d) RT_DEVICE_FLAG_STREAM
                           then RT_DEVICE_FLAG_STREAM else 0);
        d \<leftarrow> serial_open_rx oflag rx_mem (d\<lparr>ser_open_flag := oflag AND 0xFF\<rparr>);
        d \<leftarrow> serial_open_tx oflag tx_mem d;
        Some (0, or_open stream_flag d) })"

definition and_open :: "u16 \<Rightarrow> rt_serial_device \<Rightarrow> rt_serial_device" where
  "and_open m d = d\<lparr>ser_open_flag := ser_open_flag d AND NOT m\<rparr>"

definition serial_close_rx :: "rt_serial_device \<Rightarrow> rt_serial_device option" where
  "serial_close_rx d =
     (if flagged (ser_open_flag d) RT_DEVICE_FLAG_INT_RX
      then do { rt_assert (serial_rx d \<noteq> No_rx); Some (and_open RT_DEVICE_FLAG_INT_RX (d\<lparr>serial_rx := No_rx\<rparr>)) }
      else if flagged (ser_open_flag d) RT_DEVICE_FLAG_DMA_RX
      then do { rt_assert (serial_rx d \<noteq> No_rx); Some (and_open RT_DEVICE_FLAG_DMA_RX (d\<lparr>serial_rx := No_rx\<rparr>)) }
      else Some d)"

definition serial_close_tx :: "rt_serial_device \<Rightarrow> rt_serial_device option" where
  "serial_close_tx d =
     (if flagged (ser_open_flag d) RT_DEVICE_FLAG_INT_TX
      then do { rt_assert (serial_tx d \<noteq> No_tx); Some (and_open RT_DEVICE_FLAG_INT_TX (d\<lparr>serial_tx := No_tx\<rparr>)) }
      else if flagged (ser_open_flag d) RT_DEVICE_FLAG_DMA_TX
      then do { rt_assert (serial_tx d \<noteq> No_tx); Some (and_open RT_DEVICE_FLAG_DMA_TX (d\<lparr>serial_tx := No_tx\<rparr>)) }
      else Some d)"

definition rt_serial_close :: "rt_serial_device \<Rightarrow> (int \<times> rt_serial_device) option" where
  "rt_serial_close d =
     (if ser_ref_count d > 1 then Some (0, d)
      else do { d \<leftarrow> serial_close_rx d; d \<leftarrow> serial_close_tx d; Some (0, d) })"

text \<open>
  Polling: \<open>chs\<close> is what \<open>ops->getc\<close> would return call by call (then \<open>-1\<close>). A read in DMA mode without buffer
  starts a transfer into the caller's memory, or finds one under way.
\<close>

fun serial_poll_rx :: "nat \<Rightarrow> nat \<Rightarrow> u8 list \<Rightarrow> u8 list \<Rightarrow> (nat \<times> u8 list) option" where
  "serial_poll_rx 0 cnt data chs = Some (cnt, data)"
| "serial_poll_rx (Suc len) cnt data [] = Some (cnt, data)"
| "serial_poll_rx (Suc len) cnt data (ch # chs) = do {
     data \<leftarrow> mem_set data cnt ch;
     if ch = 10 then Some (Suc cnt, data) else serial_poll_rx len (Suc cnt) data chs }"

definition serial_dma_rx_start :: "nat \<Rightarrow> bool \<Rightarrow> nat \<times> bool" where
  "serial_dma_rx_start len activated = (if \<not> activated then (len, True) else (0, activated))"

definition rt_serial_read :: "nat \<Rightarrow> u8 list \<Rightarrow> u8 list \<Rightarrow> rt_serial_device \<Rightarrow> (nat \<times> u8 list \<times> rt_serial_device) option" where
  "rt_serial_read sz data chs d =
     (if sz = 0 then Some (0, data, d)
      else if flagged (ser_open_flag d) RT_DEVICE_FLAG_INT_RX
      then case serial_rx d of
             Rx_fifo f \<Rightarrow> do {
               (n, data, f) \<leftarrow> serial_int_rx (ser_bufsz d) sz data f;
               Some (n, data, d\<lparr>serial_rx := Rx_fifo f\<rparr>) }
           | _ \<Rightarrow> None
      else if flagged (ser_open_flag d) RT_DEVICE_FLAG_DMA_RX
      then case serial_rx d of
             Rx_fifo f \<Rightarrow> do {
               (n, data, f) \<leftarrow> serial_dma_rx (ser_bufsz d) sz data f;
               Some (n, data, d\<lparr>serial_rx := Rx_fifo f\<rparr>) }
           | Rx_dma activated \<Rightarrow>
               let (n, activated) = serial_dma_rx_start sz activated in Some (n, data, d\<lparr>serial_rx := Rx_dma activated\<rparr>)
           | No_rx \<Rightarrow> None
      else do { (n, data) \<leftarrow> serial_poll_rx sz 0 data chs; Some (n, data, d) })"

text \<open>
  The interrupt handler: \<open>RT_SERIAL_EVENT_RX_IND\<close> with the characters of the receiver, and \<open>RT_SERIAL_EVENT_RX_DMADONE\<close>
  with the memory as the DMA controller has left it. The result says whether, and with which size,
  the callback of the application is invoked.
\<close>

definition serial_isr_rx_ind :: "u8 list \<Rightarrow> rt_serial_device \<Rightarrow> (u32 option \<times> rt_serial_device) option" where
  "serial_isr_rx_ind chs d =
     (case serial_rx d of
        Rx_fifo f \<Rightarrow> do {
          f \<leftarrow> serial_fifo_puts (ser_bufsz d) chs f;
          let len = rx_length (ser_bufsz d) f;
          Some (if ser_rx_indicate d \<and> len \<noteq> 0 then Some len else None, d\<lparr>serial_rx := Rx_fifo f\<rparr>) }
      | _ \<Rightarrow> None)"

definition serial_isr_rx_dmadone :: "u8 list \<Rightarrow> u32 \<Rightarrow> rt_serial_device \<Rightarrow> (u32 option \<times> rt_serial_device) option" where
  "serial_isr_rx_dmadone m len d =
     (case serial_rx d of
        Rx_dma activated \<Rightarrow> do { rt_assert (ser_rx_indicate d); Some (Some len, d\<lparr>serial_rx := Rx_dma False\<rparr>) }
      | Rx_fifo f \<Rightarrow>
          let f = rt_dma_recv_update_put_index (ser_bufsz d) len (f\<lparr>rx_buffer := m\<rparr>) in
          Some (if ser_rx_indicate d then Some (serial_fifo_calc_recved_len (ser_bufsz d) f) else None, d\<lparr>serial_rx := Rx_fifo f\<rparr>)
      | No_rx \<Rightarrow> None)"

text \<open>
  The calls of \<open>device.c\<close> on a serial device. \<open>cfg\<close> is the result of \<open>ops->configure\<close> of the chip's driver, which
  \<open>rt_serial_init\<close> returns.
\<close>

definition rt_serial_init :: "int \<Rightarrow> rt_serial_device \<Rightarrow> int \<times> rt_serial_device" where
  "rt_serial_init cfg d = (cfg, d\<lparr>serial_rx := No_rx, serial_tx := No_tx\<rparr>)"

definition rt_device_open :: "int \<Rightarrow> u16 \<Rightarrow> bool \<Rightarrow> bool \<Rightarrow> rt_serial_device \<Rightarrow> (int \<times> rt_serial_device) option" where
  "rt_device_open cfg oflag rx_mem tx_mem d =
     (let (rc, d) = (if flagged (ser_flag d) RT_DEVICE_FLAG_ACTIVATED then (0, d)
                     else case rt_serial_init cfg d of (rc, d) \<Rightarrow>
                       if rc \<noteq> 0 then (rc, d) else (0, d\<lparr>ser_flag := ser_flag d OR RT_DEVICE_FLAG_ACTIVATED\<rparr>)) in
      if rc \<noteq> 0 then Some (rc, d)
      else if flagged (ser_flag d) RT_DEVICE_FLAG_STANDALONE \<and> flagged (ser_open_flag d) RT_DEVICE_OFLAG_OPEN
      then Some (- 7, d)
      else do {
        (rc, d) \<leftarrow> rt_serial_open oflag rx_mem tx_mem d;
        if rc = 0
        then let d = (or_open RT_DEVICE_OFLAG_OPEN d)\<lparr>ser_ref_count := ser_ref_count d + 1\<rparr> in
             do { rt_assert (ser_ref_count d \<noteq> 0); Some (rc, d) }
        else Some (rc, d) })"

definition rt_device_close :: "rt_serial_device \<Rightarrow> (int \<times> rt_serial_device) option" where
  "rt_device_close d =
     (if ser_ref_count d = 0 then Some (- 1, d)
      else let d = d\<lparr>ser_ref_count := ser_ref_count d - 1\<rparr> in
        if ser_ref_count d \<noteq> 0 then Some (0, d)
        else do { (rc, d) \<leftarrow> rt_serial_close d; Some (rc, if rc = 0 then d\<lparr>ser_open_flag := 0\<rparr> else d) })"

definition rt_device_read :: "nat \<Rightarrow> u8 list \<Rightarrow> u8 list \<Rightarrow> rt_serial_device \<Rightarrow> (nat \<times> u8 list \<times> rt_serial_device) option" where
  "rt_device_read sz data chs d =
     (if ser_ref_count d = 0 then Some (0, data, d) else rt_serial_read sz data chs d)"

text \<open>The configuration command of \<open>rt_serial_control\<close>: the size of the buffer is fixed while the device is open.\<close>

definition serial_control_config :: "u16 \<Rightarrow> rt_serial_device \<Rightarrow> int \<times> rt_serial_device" where
  "serial_control_config bufsz d =
     (if bufsz \<noteq> ser_bufsz d \<and> ser_ref_count d \<noteq> 0 then (7, d) else (0, d\<lparr>ser_bufsz := bufsz\<rparr>))"

definition rt_device_set_rx_indicate :: "rt_serial_device \<Rightarrow> rt_serial_device" where
  "rt_device_set_rx_indicate d = d\<lparr>ser_rx_indicate := True\<rparr>"

subsection \<open>Queues that keep the newest bytes\<close>

definition last_n :: "nat \<Rightarrow> 'a list \<Rightarrow> 'a list" where
  "last_n k xs = drop (length xs - k) xs"

lemma length_last_n [simp]: "length (last_n k xs) = min k (length xs)"
  by (simp add: last_n_def)

lemma last_n_all [simp]: "length xs \<le> k \<Longrightarrow> last_n k xs = xs"
  by (simp add: last_n_def)

lemma nth_last_n: "i < min k (length xs) \<Longrightarrow> last_n k xs ! i = xs ! (length xs - min k (length xs) + i)"
  by (simp add: last_n_def min_def)

lemma last_n_append: "last_n k (last_n k xs @ ys) = last_n k (xs @ ys)"
  by (cases "length xs \<le> k") (simp_all add: last_n_def add.commute)

lemma last_n_min: "last_n (min k (length xs)) xs = last_n k xs"
  by (simp add: last_n_def min_def)

lemma last_n_subseq: "subseq (last_n k xs) xs"
  unfolding last_n_def by (rule suffix_imp_subseq [OF suffix_drop])

lemma take_drop_append: "take k xs @ drop k xs @ ys = xs @ ys"
  by (simp add: append_assoc [symmetric] del: append_assoc)

text \<open>
  The promise of a receive buffer: what arrives is appended and the oldest bytes go when there are more than \<open>cap\<close>;
  a reader gets the oldest bytes first. An arrival has a size the buffer can cope with.
\<close>

datatype fifo_op = Arrive "u8 list" | Fetch nat

fun fifo_run :: "(u8 list \<Rightarrow> 'f \<Rightarrow> 'f option) \<Rightarrow> (nat \<Rightarrow> 'f \<Rightarrow> (u8 list \<times> 'f) option) \<Rightarrow> fifo_op list \<Rightarrow> 'f \<Rightarrow> (u8 list list \<times> 'f) option" where
  "fifo_run put get [] f = Some ([], f)"
| "fifo_run put get (Arrive bs # ops) f = do { f \<leftarrow> put bs f; fifo_run put get ops f }"
| "fifo_run put get (Fetch k # ops) f = do {
     (out, f) \<leftarrow> get k f;
     (outs, f) \<leftarrow> fifo_run put get ops f;
     Some (out # outs, f) }"

fun lossy_run :: "nat \<Rightarrow> fifo_op list \<Rightarrow> u8 list \<Rightarrow> u8 list list \<times> u8 list" where
  "lossy_run cap [] q = ([], q)"
| "lossy_run cap (Arrive bs # ops) q = lossy_run cap ops (last_n cap (q @ bs))"
| "lossy_run cap (Fetch k # ops) q = (let (outs, q') = lossy_run cap ops (drop k q) in (take k q # outs, q'))"

fun arrivals :: "fifo_op list \<Rightarrow> u8 list" where
  "arrivals [] = []"
| "arrivals (Arrive bs # ops) = bs @ arrivals ops"
| "arrivals (Fetch k # ops) = arrivals ops"

fun op_fits :: "(nat \<Rightarrow> bool) \<Rightarrow> fifo_op \<Rightarrow> bool" where
  "op_fits fits (Arrive bs) = fits (length bs)"
| "op_fits fits (Fetch k) = True"

text \<open>Nothing is invented or reordered; and nothing is lost while the bytes fit.\<close>

lemma lossy_run_subseq: "lossy_run cap ops q = (outs, q') \<Longrightarrow> subseq (concat outs @ q') (q @ arrivals ops)"
proof (induction cap ops q arbitrary: outs rule: lossy_run.induct)
  case (2 cap bs ops q)
  then have "subseq (concat outs @ q') (last_n cap (q @ bs) @ arrivals ops)" by simp
  moreover have "subseq (last_n cap (q @ bs) @ arrivals ops) ((q @ bs) @ arrivals ops)" by (intro list_emb_append_mono last_n_subseq) auto
  ultimately show ?case by (auto intro: subseq_order.order_trans)
next
  case (3 cap k ops q)
  then obtain os where os: "lossy_run cap ops (drop k q) = (os, q')" "outs = take k q # os" by (auto simp: Let_def split: prod.splits)
  then have "subseq (take k q @ concat os @ q') (take k q @ drop k q @ arrivals ops)"
    using 3(1) by (intro list_emb_append_mono [of _ "take k q" "take k q"]) simp_all
  then show ?case using os(2) by (simp add: take_drop_append)
qed simp

lemma lossy_run_lossless:
  "length q + length (arrivals ops) \<le> cap \<Longrightarrow> lossy_run cap ops q = (outs, q') \<Longrightarrow> concat outs @ q' = q @ arrivals ops"
proof (induction cap ops q arbitrary: outs rule: lossy_run.induct)
  case (3 cap k ops q)
  then obtain os where os: "lossy_run cap ops (drop k q) = (os, q')" "outs = take k q # os" by (auto simp: Let_def split: prod.splits)
  moreover have "concat os @ q' = drop k q @ arrivals ops" using 3 os(1) by simp
  ultimately show ?case by (simp add: take_drop_append)
qed auto

locale lossy_queue =
  fixes invar :: "'f \<Rightarrow> bool" and contents :: "'f \<Rightarrow> u8 list" and cap :: nat and fits :: "nat \<Rightarrow> bool"
    and put :: "u8 list \<Rightarrow> 'f \<Rightarrow> 'f option" and get :: "nat \<Rightarrow> 'f \<Rightarrow> (u8 list \<times> 'f) option"
  assumes put_law: "invar f \<Longrightarrow> fits (length bs) \<Longrightarrow> \<exists>f'. put bs f = Some f' \<and> invar f' \<and> contents f' = last_n cap (contents f @ bs)"
    and get_law: "invar f \<Longrightarrow> \<exists>f'. get k f = Some (take k (contents f), f') \<and> invar f' \<and> contents f' = drop k (contents f)"
begin

lemma run_refines:
  assumes "invar f" and "\<forall>op \<in> set ops. op_fits fits op"
  shows "\<exists>outs f'. fifo_run put get ops f = Some (outs, f') \<and> invar f' \<and> lossy_run cap ops (contents f) = (outs, contents f')"
  using assms
proof (induction ops arbitrary: f)
  case (Cons x ops)
  show ?case
  proof (cases x)
    case (Arrive bs)
    then obtain f1 where "put bs f = Some f1" "invar f1" "contents f1 = last_n cap (contents f @ bs)"
      using put_law [OF Cons(2), of bs] Cons(3) by auto
    then show ?thesis using Cons(1) [of f1] Cons(3) Arrive by auto
  next
    case (Fetch k)
    obtain f1 where "get k f = Some (take k (contents f), f1)" "invar f1" "contents f1 = drop k (contents f)"
      using get_law [OF Cons(2), of k] by auto
    then show ?thesis using Cons(1) [of f1] Cons(3) Fetch by (auto split: prod.splits)
  qed
qed simp

end

subsection \<open>Circular memory\<close>

text \<open>The \<open>l\<close> bytes of a circular memory that end before position \<open>p\<close>, and a write of consecutive bytes at \<open>p\<close>.\<close>

definition run_before :: "u8 list \<Rightarrow> nat \<Rightarrow> nat \<Rightarrow> u8 list" where
  "run_before m p l = ring m (length m) (p + length m - l) l"

definition circular_write :: "u8 list \<Rightarrow> nat \<Rightarrow> u8 list \<Rightarrow> u8 list \<Rightarrow> bool" where
  "circular_write m p bs m' \<longleftrightarrow> length m' = length m \<and> (\<forall>i < length bs. m' ! ((p + i) mod length m) = bs ! i) \<and>
     (\<forall>j < length m. (\<forall>i < length bs. j \<noteq> (p + i) mod length m) \<longrightarrow> m' ! j = m ! j)"

lemma length_run_before [simp]: "length (run_before m p l) = l"
  by (simp add: run_before_def)

lemma nth_run_before: "i < l \<Longrightarrow> run_before m p l ! i = m ! ((p + length m - l + i) mod length m)"
  by (simp add: run_before_def ring_def)

lemma diff_min: "l - min k l = l - k" for k l :: nat
  by (simp add: min_def)

lemma run_before_write:
  assumes w: "circular_write m p bs m'" and p: "p < length m" and l: "l \<le> length m" and k: "length bs \<le> length m"
    and l': "l' \<le> length m" "l' \<le> l + length bs"
  shows "run_before m' ((p + length bs) mod length m) l' = last_n l' (run_before m p l @ bs)"
proof (rule nth_equalityI)
  let ?N = "length m" and ?k = "length bs"
  have N: "0 < ?N" and lm: "length m' = ?N" using p w by (auto simp: circular_write_def)
  show "length (run_before m' ((p + ?k) mod ?N) l') = length (last_n l' (run_before m p l @ bs))" using l' by simp
  fix i assume "i < length (run_before m' ((p + ?k) mod ?N) l')"
  then have i: "i < l'" by simp
  have "(p + ?k) mod ?N + ?N - l' + i = (p + ?k) mod ?N + (?N - l' + i)" using l' by arith
  then have "((p + ?k) mod ?N + ?N - l' + i) mod ?N = ((p + ?k) mod ?N + (?N - l' + i)) mod ?N" by (rule arg_cong)
  also have "\<dots> = (p + ?k + (?N - l' + i)) mod ?N" by (simp add: mod_simps)
  finally have L: "run_before m' ((p + ?k) mod ?N) l' ! i = m' ! ((p + ?k + (?N - l' + i)) mod ?N)" using i lm by (simp add: nth_run_before)
  have R: "last_n l' (run_before m p l @ bs) ! i = (run_before m p l @ bs) ! (l + ?k - l' + i)" using i l' by (simp add: nth_last_n)
  show "run_before m' ((p + ?k) mod ?N) l' ! i = last_n l' (run_before m p l @ bs) ! i"
  proof (cases "l' \<le> ?k + i")
    case True
    then have "p + ?k + (?N - l' + i) = p + (?k + i - l') + ?N" using l' by simp
    then have "(p + ?k + (?N - l' + i)) mod ?N = (p + (?k + i - l')) mod ?N" by (simp only: mod_add_self2)
    moreover have "m' ! ((p + j) mod ?N) = bs ! j" if "j < ?k" for j using w that by (simp add: circular_write_def)
    then have "m' ! ((p + (?k + i - l')) mod ?N) = bs ! (?k + i - l')" by this (use i True in arith)
    moreover have "l + ?k - l' + i = l + (?k + i - l')" using True l' by arith
    then have "(run_before m p l @ bs) ! (l + ?k - l' + i) = bs ! (?k + i - l')" by (simp add: nth_append)
    ultimately show ?thesis using L R by simp
  next
    case False
    define d where "d = l' - ?k - i"
    have d: "0 < d" "d + ?k \<le> ?N" "p + ?k + (?N - l' + i) = p + ?N - d" "l + ?k - l' + i = l - d" "d \<le> l"
      using False l' by (auto simp: d_def)
    have "(p + ?N - d) mod ?N \<noteq> (p + j) mod ?N" if "j < ?k" for j
      using p d(1,2) that by (auto simp: mod_twice)
    then have "m' ! ((p + ?N - d) mod ?N) = m ! ((p + ?N - d) mod ?N)" using w N by (simp add: circular_write_def)
    moreover have "(run_before m p l @ bs) ! (l - d) = m ! ((p + ?N - d) mod ?N)" using d l by (simp add: nth_append nth_run_before)
    ultimately show ?thesis using L R d(3,4) by simp
  qed
qed

lemma run_before_drop: "l \<le> length m \<Longrightarrow> p < length m \<Longrightarrow> run_before m p (l - k) = drop k (run_before m p l)"
  using run_before_write [of m p "[]" m l "l - k"] by (cases "k \<le> l") (simp_all add: circular_write_def last_n_def run_before_def [of m p 0])

lemma update_circular: "p < length m \<Longrightarrow> circular_write m p [b] (m[p := b])"
  by (auto simp: circular_write_def)

subsection \<open>The buffer as a queue\<close>

definition fifo_len :: "u16 \<Rightarrow> rt_serial_rx_fifo \<Rightarrow> nat" where
  "fifo_len n f = (if put_index f = get_index f then (if is_full f then unat n else 0)
     else (unat (put_index f) + unat n - unat (get_index f)) mod unat n)"

definition fifo_contents :: "u16 \<Rightarrow> rt_serial_rx_fifo \<Rightarrow> u8 list" where
  "fifo_contents n f = run_before (rx_buffer f) (unat (put_index f)) (fifo_len n f)"

definition fifo_ok :: "u16 \<Rightarrow> rt_serial_rx_fifo \<Rightarrow> bool" where
  "fifo_ok n f \<longleftrightarrow> length (rx_buffer f) = unat n \<and> put_index f < n \<and> get_index f < n"

text \<open>In interrupt mode the buffer never has the two indices equal when it is full.\<close>

definition int_fifo_ok :: "u16 \<Rightarrow> rt_serial_rx_fifo \<Rightarrow> bool" where
  "int_fifo_ok n f \<longleftrightarrow> fifo_ok n f \<and> 2 \<le> n \<and> (put_index f = get_index f \<longrightarrow> \<not> is_full f)"

lemma unat_fifo_next:
  assumes "i < n"
  shows "unat (fifo_next n i) = (unat i + 1) mod unat n"
proof -
  have "unat i + 1 < 2 ^ 16" using assms unsigned_less [of n, where 'a = nat] by (simp add: word_less_nat_alt)
  then have "unat (i + 1) = unat i + 1" by (simp add: unat_word_ariths)
  then show ?thesis using assms by (auto simp: fifo_next_def word_le_nat_alt word_less_nat_alt mod_if)
qed

lemma index_eq: "i = j \<longleftrightarrow> unat i = unat j" for i j :: u16
  by (rule word_unat_eq_iff)

lemma mod_next: "p < n \<Longrightarrow> (p + 1) mod n = (if p + 1 = n then 0 else p + 1)" for n :: nat
  by (simp add: mod_if)

lemma mod_distance: "p < n \<Longrightarrow> g < n \<Longrightarrow> (p + n - g) mod n = (if g \<le> p then p - g else p + n - g)" for n :: nat
  by (auto simp: mod_if)

lemma distance_next:
  fixes p g n :: nat
  assumes "p < n" and "g < n" and "2 \<le> n" and "p' = (p + 1) mod n" and "g' = (if p' = g then (g + 1) mod n else g)"
  shows "p' \<noteq> g'" and "(p' + n - g') mod n = min (n - 1) ((p + n - g) mod n + 1)"
proof -
  have p': "p' < n" "p' = (if p + 1 = n then 0 else p + 1)" using assms(1,4) by (simp_all add: mod_next)
  have g': "g' < n" "g' = (if p' = g then (if g + 1 = n then 0 else g + 1) else g)" using assms(2,5) by (simp_all add: mod_next)
  show "p' \<noteq> g'" using assms(3) g'(2) by auto
  show "(p' + n - g') mod n = min (n - 1) ((p + n - g) mod n + 1)"
    unfolding mod_distance [OF p'(1) g'(1)] mod_distance [OF assms(1,2)] using assms(1-3) p'(2) g'(2) by (auto split: if_splits)
qed

lemma fifo_okD:
  assumes "fifo_ok n f"
  shows "length (rx_buffer f) = unat n" and "unat (put_index f) < unat n" and "unat (get_index f) < unat n"
    and "put_index f < n" and "get_index f < n" and "fifo_len n f \<le> unat n"
  using assms by (auto simp: fifo_ok_def fifo_len_def word_less_nat_alt mod_le_divisor)

lemma int_fifo_len: "int_fifo_ok n f \<Longrightarrow> fifo_len n f = (unat (put_index f) + unat n - unat (get_index f)) mod unat n"
  by (auto simp: int_fifo_ok_def fifo_len_def)

lemma serial_fifo_put_law:
  assumes ok: "int_fifo_ok n f"
  shows "\<exists>f'. serial_fifo_put n ch f = Some f' \<and> int_fifo_ok n f' \<and> fifo_contents n f' = last_n (unat n - 1) (fifo_contents n f @ [ch])"
proof -
  let ?p = "unat (put_index f)" and ?g = "unat (get_index f)" and ?N = "unat n" and ?l = "fifo_len n f"
  let ?m = "(rx_buffer f)[unat (put_index f) := ch]" and ?p' = "fifo_next n (put_index f)"
  let ?g' = "if ?p' = get_index f then fifo_next n (get_index f) else get_index f"
  define f' where "f' = f\<lparr>rx_buffer := ?m, put_index := ?p', get_index := ?g', is_full := is_full f \<or> ?p' = get_index f\<rparr>"
  have f: "fifo_ok n f" and N: "2 \<le> ?N" using ok by (auto simp: int_fifo_ok_def word_le_nat_alt)
  note d = fifo_okD [OF f] and nx = unat_fifo_next [OF fifo_okD(4) [OF f]] unat_fifo_next [OF fifo_okD(5) [OF f]]
  have put: "serial_fifo_put n ch f = Some f'" using d(1,2) by (simp add: serial_fifo_put_def mem_set_def f'_def)
  have "unat ?g' = (if unat ?p' = ?g then (?g + 1) mod ?N else ?g)" using nx(2) by (simp add: index_eq)
  note ds = distance_next [OF d(2,3) N nx(1) this]
  have ok': "int_fifo_ok n f'"
    using ok ds(1) d nx N by (auto simp: int_fifo_ok_def fifo_ok_def f'_def word_less_nat_alt index_eq)
  have l: "?l = (?p + ?N - ?g) mod ?N" by (rule int_fifo_len [OF ok])
  have "fifo_len n f' = (unat ?p' + ?N - unat ?g') mod ?N" using int_fifo_len [OF ok'] by (simp add: f'_def)
  also have "\<dots> = min (?N - 1) (?l + 1)" unfolding l by (rule ds(2))
  finally have len: "fifo_len n f' = min (?N - 1) (?l + 1)" .
  have "fifo_contents n f' = run_before ?m ((?p + length [ch]) mod length (rx_buffer f)) (min (?N - 1) (?l + 1))"
    using len nx d(1) by (simp add: fifo_contents_def f'_def)
  also have "\<dots> = last_n (min (?N - 1) (?l + 1)) (fifo_contents n f @ [ch])"
    unfolding fifo_contents_def by (rule run_before_write [OF update_circular]) (use d N in simp_all)
  also have "\<dots> = last_n (?N - 1) (fifo_contents n f @ [ch])"
    using last_n_min [of "?N - 1" "fifo_contents n f @ [ch]"] by (simp add: fifo_contents_def)
  finally show ?thesis using put ok' by blast
qed

lemma serial_fifo_puts_law:
  "int_fifo_ok n f \<Longrightarrow> \<exists>f'. serial_fifo_puts n chs f = Some f' \<and> int_fifo_ok n f' \<and>
     fifo_contents n f' = last_n (unat n - 1) (fifo_contents n f @ chs)"
proof (induction chs arbitrary: f)
  case Nil
  then have "fifo_len n f < unat n" using int_fifo_len by (simp add: int_fifo_ok_def fifo_ok_def word_less_nat_alt)
  then show ?case using Nil by (simp add: fifo_contents_def)
next
  case (Cons ch chs)
  obtain f1 where "serial_fifo_put n ch f = Some f1" "int_fifo_ok n f1" "fifo_contents n f1 = last_n (unat n - 1) (fifo_contents n f @ [ch])"
    using serial_fifo_put_law [OF Cons(2)] by blast
  moreover have "last_n (unat n - 1) (last_n (unat n - 1) (fifo_contents n f @ [ch]) @ chs) = last_n (unat n - 1) (fifo_contents n f @ ch # chs)"
    by (simp add: last_n_append)
  ultimately show ?case using Cons(1) [of f1] by auto
qed

lemma fifo_start:
  assumes "fifo_ok n f"
  shows "(unat (put_index f) + unat n - fifo_len n f) mod unat n = unat (get_index f)"
proof -
  note d = fifo_okD [OF assms]
  have "put_index f \<noteq> get_index f \<Longrightarrow> fifo_len n f = (if unat (get_index f) \<le> unat (put_index f)
      then unat (put_index f) - unat (get_index f) else unat (put_index f) + unat n - unat (get_index f))"
    using mod_distance [OF d(2,3)] by (simp add: fifo_len_def)
  then show ?thesis using d(2,3) by (cases "put_index f = get_index f") (auto simp: fifo_len_def)
qed

lemma fifo_first:
  assumes "fifo_ok n f" and "fifo_contents n f = c # cs"
  shows "rx_buffer f ! unat (get_index f) = c" and "fifo_len n f = Suc (length cs)"
proof -
  have "fifo_len n f = length (fifo_contents n f)" by (simp add: fifo_contents_def)
  then show l: "fifo_len n f = Suc (length cs)" using assms(2) by simp
  have "c = fifo_contents n f ! 0" using assms(2) by simp
  then show "rx_buffer f ! unat (get_index f) = c"
    using l fifo_start [OF assms(1)] fifo_okD(1) [OF assms(1)] by (simp add: fifo_contents_def nth_run_before)
qed

lemma fifo_empty_iff: "int_fifo_ok n f \<Longrightarrow> fifo_contents n f = [] \<longleftrightarrow> get_index f = put_index f \<and> \<not> is_full f"
proof -
  assume ok: "int_fifo_ok n f"
  then have d: "unat (put_index f) < unat n" "unat (get_index f) < unat n" using fifo_okD(2,3) by (auto simp: int_fifo_ok_def)
  have "fifo_contents n f = [] \<longleftrightarrow> fifo_len n f = 0" unfolding fifo_contents_def by (metis length_run_before length_0_conv)
  also have "\<dots> \<longleftrightarrow> get_index f = put_index f"
    unfolding int_fifo_len [OF ok] mod_distance [OF d] using d by (auto simp: index_eq)
  finally show ?thesis using ok by (auto simp: int_fifo_ok_def)
qed

lemma serial_fifo_get_law:
  assumes ok: "int_fifo_ok n f"
  shows "fifo_contents n f = [] \<Longrightarrow> serial_fifo_get n f = Some None"
    and "fifo_contents n f = c # cs \<Longrightarrow> \<exists>f'. serial_fifo_get n f = Some (Some (c, f')) \<and> int_fifo_ok n f' \<and> fifo_contents n f' = cs"
proof -
  have f: "fifo_ok n f" using ok by (simp add: int_fifo_ok_def)
  note d = fifo_okD [OF f]
  show "serial_fifo_get n f = Some None" if "fifo_contents n f = []" using that fifo_empty_iff [OF ok] by (simp add: serial_fifo_get_def)
  assume c: "fifo_contents n f = c # cs"
  note h = fifo_first [OF f c]
  let ?f = "f\<lparr>get_index := fifo_next n (get_index f), is_full := False\<rparr>"
  have ne: "\<not> (get_index f = put_index f \<and> \<not> is_full f)" using fifo_empty_iff [OF ok] c by simp
  then have get: "serial_fifo_get n f = Some (Some (c, ?f))" unfolding serial_fifo_get_def using d(1,3) h(1) by (simp add: mem_get_def)
  have nx: "unat (fifo_next n (get_index f)) = (unat (get_index f) + 1) mod unat n" by (rule unat_fifo_next [OF d(5)])
  then have ok': "int_fifo_ok n ?f" using ok d by (auto simp: int_fifo_ok_def fifo_ok_def word_less_nat_alt)
  have "put_index f \<noteq> get_index f" using ne ok by (auto simp: int_fifo_ok_def)
  then have "fifo_len n ?f = fifo_len n f - 1"
    unfolding int_fifo_len [OF ok'] int_fifo_len [OF ok] using nx [unfolded mod_next [OF d(3)]] d(2,3)
    by (auto simp: mod_distance index_eq)
  then have "fifo_contents n ?f = drop 1 (fifo_contents n f)"
    using run_before_drop [of "fifo_len n f" "rx_buffer f" "unat (put_index f)" 1] d by (simp add: fifo_contents_def)
  then show "\<exists>f'. serial_fifo_get n f = Some (Some (c, f')) \<and> int_fifo_ok n f' \<and> fifo_contents n f' = cs" using get ok' c by simp
qed

lemma serial_int_rx_loop_law:
  assumes "int_fifo_ok n f" and "cnt + k \<le> length data"
  shows "\<exists>f'. serial_int_rx_loop n k cnt data f =
    Some (cnt + length (take k (fifo_contents n f)), overwrite data cnt (take k (fifo_contents n f)), f') \<and>
    int_fifo_ok n f' \<and> fifo_contents n f' = drop k (fifo_contents n f)"
  using assms
proof (induction k arbitrary: cnt data f)
  case (Suc k)
  show ?case
  proof (cases "fifo_contents n f")
    case Nil
    then show ?thesis using serial_fifo_get_law(1) [OF Suc(2)] Suc(2) by simp
  next
    case (Cons c cs)
    obtain f1 where f1: "serial_fifo_get n f = Some (Some (c, f1))" "int_fifo_ok n f1" "fifo_contents n f1 = cs"
      using serial_fifo_get_law(2) [OF Suc(2) Cons] by blast
    have "cnt < length data" "Suc cnt + k \<le> length (data[cnt := c])" using Suc(3) by simp_all
    then show ?thesis using Suc(1) [OF f1(2), of "Suc cnt" "data[cnt := c]"] f1 Cons
      by (auto simp: mem_set_def overwrite_update_Suc)
  qed
qed simp

definition int_fetch :: "u16 \<Rightarrow> nat \<Rightarrow> rt_serial_rx_fifo \<Rightarrow> (u8 list \<times> rt_serial_rx_fifo) option" where
  "int_fetch n k f = do { (cnt, data, f) \<leftarrow> serial_int_rx n k (replicate k 0) f; Some (take cnt data, f) }"

lemma take_overwrite_0: "length bs \<le> length m \<Longrightarrow> take (length bs) (overwrite m 0 bs) = bs"
  by (simp add: overwrite_def)

lemma int_fetch_law:
  assumes "int_fifo_ok n f"
  shows "\<exists>f'. int_fetch n k f = Some (take k (fifo_contents n f), f') \<and> int_fifo_ok n f' \<and> fifo_contents n f' = drop k (fifo_contents n f)"
  using serial_int_rx_loop_law [OF assms, of 0 k "replicate k 0"] take_overwrite_0 [of "take k (fifo_contents n f)" "replicate k 0"]
  by (auto simp: int_fetch_def serial_int_rx_def)

interpretation int_rx: lossy_queue "int_fifo_ok n" "fifo_contents n" "unat n - 1" "\<lambda>_. True" "serial_fifo_puts n" "int_fetch n" for n
  by unfold_locales (rule serial_fifo_puts_law int_fetch_law, assumption)+

text \<open>Under DMA the full buffer has equal indices, and the buffer is at most half of what an index can count.\<close>

definition dma_fifo_ok :: "u16 \<Rightarrow> rt_serial_rx_fifo \<Rightarrow> bool" where
  "dma_fifo_ok n f \<longleftrightarrow> fifo_ok n f \<and> unat n \<le> 0x8000 \<and> (is_full f \<longrightarrow> put_index f = get_index f)"

definition circular_dma :: "(u8 list \<Rightarrow> nat \<Rightarrow> u8 list \<Rightarrow> u8 list) \<Rightarrow> bool" where
  "circular_dma hw \<longleftrightarrow> (\<forall>m p bs. p < length m \<longrightarrow> length bs \<le> length m \<longrightarrow> circular_write m p bs (hw m p bs))"

definition dma_arrive :: "(u8 list \<Rightarrow> nat \<Rightarrow> u8 list \<Rightarrow> u8 list) \<Rightarrow> u16 \<Rightarrow> u8 list \<Rightarrow> rt_serial_rx_fifo \<Rightarrow> rt_serial_rx_fifo option" where
  "dma_arrive hw n bs f = Some (rt_dma_recv_update_put_index n (of_nat (length bs))
     (f\<lparr>rx_buffer := hw (rx_buffer f) (unat (put_index f)) bs\<rparr>))"

lemma calc_recved_len:
  assumes "fifo_ok n f"
  shows "unat (serial_fifo_calc_recved_len n f) = fifo_len n f"
proof -
  note d = fifo_okD [OF assms]
  have n: "unat n < 2 ^ 16" using unsigned_less [of n, where 'a = nat] by simp
  have w: "unat (word_of_int (int k) :: u32) = k" if "k < 2 ^ 16" for k using that by (simp add: unat_word_of_int_small)
  have u: "unat (ucast n :: u32) = unat n" by (rule unat_ucast_small) (use n in simp)
  consider "put_index f = get_index f" | "put_index f > get_index f" | "put_index f < get_index f" by (rule linorder_cases)
  then show ?thesis
  proof cases
    case 2
    then have lt: "unat (get_index f) < unat (put_index f)" by (simp add: word_less_nat_alt)
    then have "uint (put_index f) - uint (get_index f) = int (unat (put_index f) - unat (get_index f))" by (simp add: of_nat_diff)
    then have "serial_fifo_calc_recved_len n f = word_of_int (int (unat (put_index f) - unat (get_index f)))"
      using 2 by (auto simp: serial_fifo_calc_recved_len_def)
    moreover have "fifo_len n f = unat (put_index f) - unat (get_index f)" using 2 lt mod_distance [OF d(2,3)] by (auto simp: fifo_len_def)
    ultimately show ?thesis using w d(2) n by simp
  next
    case 3
    then have lt: "unat (put_index f) < unat (get_index f)" by (simp add: word_less_nat_alt)
    then have "uint n - (uint (get_index f) - uint (put_index f)) = int (unat (put_index f) + unat n - unat (get_index f))"
      using d(3) by (simp add: of_nat_diff)
    then have "serial_fifo_calc_recved_len n f = word_of_int (int (unat (put_index f) + unat n - unat (get_index f)))"
      using 3 by (auto simp: serial_fifo_calc_recved_len_def)
    moreover have "fifo_len n f = unat (put_index f) + unat n - unat (get_index f)" using 3 lt mod_distance [OF d(2,3)] by (auto simp: fifo_len_def)
    ultimately show ?thesis using w lt n by simp
  qed (use u in \<open>simp add: serial_fifo_calc_recved_len_def fifo_len_def\<close>)
qed

lemma rx_length_zero:
  assumes "int_fifo_ok n f"
  shows "rx_length n f = 0 \<longleftrightarrow> fifo_contents n f = []"
proof -
  have "rx_length n f = serial_fifo_calc_recved_len n f"
    using assms by (auto simp: rx_length_def serial_fifo_calc_recved_len_def int_fifo_ok_def)
  moreover have "unat (serial_fifo_calc_recved_len n f) = length (fifo_contents n f)"
    using calc_recved_len assms by (simp add: int_fifo_ok_def fifo_contents_def)
  ultimately show ?thesis by (simp add: word_unat_eq_iff)
qed

lemma dma_put_indices:
  assumes ok: "dma_fifo_ok n f" and k: "k \<le> unat n"
  defines "f' \<equiv> rt_dma_recv_update_put_index n (of_nat k) f"
  shows "unat (put_index f') = (unat (put_index f) + k) mod unat n" and "get_index f' < n" and "is_full f' \<longrightarrow> put_index f' = get_index f'"
    and "fifo_len n f' = min (unat n) (fifo_len n f + k)" and "rx_buffer f' = rx_buffer f"
proof -
  let ?p = "unat (put_index f)" and ?g = "unat (get_index f)" and ?N = "unat n" and ?P = "put_index f + ucast (of_nat k :: u32)"
  have f: "fifo_ok n f" and N: "?N \<le> 0x8000" using ok by (simp_all add: dma_fifo_ok_def)
  note d = fifo_okD [OF f]
  have uk: "unat (ucast (of_nat k :: u32) :: u16) = k" using k N by simp
  have P: "unat ?P = ?p + k" using uk d(2) k N by (simp add: unat_word_ariths)
  have Pm: "unat (?P mod n) = (if ?p + k < ?N then ?p + k else ?p + k - ?N)" using P d(2) k by (simp add: unat_mod_distrib mod_twice)
  have pk: "(?p + k) mod ?N = (if ?p + k < ?N then ?p + k else ?p + k - ?N)" using d(2) k by (simp add: mod_twice)
  have full: "is_full f \<Longrightarrow> ?p = ?g" using ok by (simp add: dma_fifo_ok_def)
  note defs = f'_def rt_dma_recv_update_put_index_def Let_def word_le_nat_alt P Pm
  show u: "unat (put_index f') = (?p + k) mod ?N" using d(2,3) k unfolding pk by (auto simp: defs)
  show g: "get_index f' < n" using d(2,3) k by (auto simp: defs word_less_nat_alt)
  show eq: "is_full f' \<longrightarrow> put_index f' = get_index f'" by (auto simp: defs)
  show "rx_buffer f' = rx_buffer f" by (auto simp: defs)
  have l: "fifo_len n f = (if is_full f then ?N else if ?g \<le> ?p then ?p - ?g else ?p + ?N - ?g)"
    using full d(2,3) by (auto simp: fifo_len_def mod_distance index_eq)
  have p': "unat (put_index f') < ?N" using u d(2) by simp
  have g': "unat (get_index f') < ?N" using g by (simp add: word_less_nat_alt)
  have l': "fifo_len n f' = (if is_full f' then ?N else if unat (get_index f') \<le> unat (put_index f') then unat (put_index f') - unat (get_index f')
      else unat (put_index f') + ?N - unat (get_index f'))"
    using eq mod_distance [OF p' g'] by (auto simp: fifo_len_def index_eq)
  have F: "is_full f' \<longleftrightarrow> is_full f \<or> (if ?g \<le> ?p then ?N \<le> ?p + k \<and> ?g \<le> ?p + k - ?N else ?g \<le> ?p + k)" using d(2,3) by (auto simp: defs)
  have G: "\<not> is_full f' \<Longrightarrow> get_index f' = get_index f" by (auto simp: defs split: if_splits)
  show "fifo_len n f' = min ?N (fifo_len n f + k)"
  proof (cases "is_full f'")
    case True
    then show ?thesis using l' F l d(2,3) by (auto split: if_splits)
  next
    case False
    then show ?thesis using l' F l G u pk d(2,3) k by (auto split: if_splits)
  qed
qed

lemma dma_arrive_law:
  assumes hw: "circular_dma hw" and ok: "dma_fifo_ok n f" and k: "length bs \<le> unat n"
  shows "\<exists>f'. dma_arrive hw n bs f = Some f' \<and> dma_fifo_ok n f' \<and> fifo_contents n f' = last_n (unat n) (fifo_contents n f @ bs)"
proof -
  let ?m = "hw (rx_buffer f) (unat (put_index f)) bs" and ?f = "f\<lparr>rx_buffer := hw (rx_buffer f) (unat (put_index f)) bs\<rparr>"
  define f' where "f' = rt_dma_recv_update_put_index n (of_nat (length bs)) ?f"
  have f: "fifo_ok n f" using ok by (simp add: dma_fifo_ok_def)
  note d = fifo_okD [OF f]
  have w: "circular_write (rx_buffer f) (unat (put_index f)) bs ?m" using hw d(1,2) k by (simp add: circular_dma_def)
  then have ok1: "dma_fifo_ok n ?f" using ok by (simp add: dma_fifo_ok_def fifo_ok_def circular_write_def)
  note i = dma_put_indices [OF ok1 k, folded f'_def]
  have len: "fifo_len n ?f = fifo_len n f" by (simp add: fifo_len_def)
  have ok': "dma_fifo_ok n f'"
    using ok1 i d(2) by (simp add: dma_fifo_ok_def fifo_ok_def word_less_nat_alt)
  have "fifo_contents n f' = run_before ?m ((unat (put_index f) + length bs) mod length (rx_buffer f)) (min (unat n) (fifo_len n f + length bs))"
    using i len d(1) by (simp add: fifo_contents_def)
  also have "\<dots> = last_n (min (unat n) (fifo_len n f + length bs)) (fifo_contents n f @ bs)"
    unfolding fifo_contents_def by (rule run_before_write [OF w]) (use d k in simp_all)
  also have "\<dots> = last_n (unat n) (fifo_contents n f @ bs)"
    using last_n_min [of "unat n" "fifo_contents n f @ bs"] by (simp add: fifo_contents_def)
  finally show ?thesis using ok' by (simp add: dma_arrive_def f'_def)
qed

lemma take_fifo_contents:
  assumes f: "fifo_ok n f" and r: "r \<le> fifo_len n f"
  shows "take r (fifo_contents n f) = (if unat (get_index f) + r < unat n then take r (drop (unat (get_index f)) (rx_buffer f))
    else drop (unat (get_index f)) (rx_buffer f) @ take (unat (get_index f) + r - unat n) (rx_buffer f))"
    (is "_ = ?bs")
proof (rule nth_equalityI)
  note d = fifo_okD [OF f]
  let ?g = "unat (get_index f)" and ?N = "unat n"
  show "length (take r (fifo_contents n f)) = length ?bs" using d r by (simp add: fifo_contents_def)
  fix i assume "i < length (take r (fifo_contents n f))"
  then have i: "i < r" by simp
  have "(unat (put_index f) + ?N - fifo_len n f + i) mod ?N = (?g + i) mod ?N" using fifo_start [OF f] by (metis mod_add_left_eq)
  then have "take r (fifo_contents n f) ! i = rx_buffer f ! ((?g + i) mod ?N)" using i r d(1) by (simp add: fifo_contents_def nth_run_before)
  also have "(?g + i) mod ?N = (if ?g + i < ?N then ?g + i else ?g + i - ?N)" using d(3,6) i r by (intro mod_twice) simp
  finally show "take r (fifo_contents n f) ! i = ?bs ! i" using i d(1,3) r d(6) by (auto simp: nth_append add.commute)
qed

lemma dma_get_indices:
  assumes ok: "dma_fifo_ok n f" and r: "r \<le> fifo_len n f"
  shows "\<exists>f'. rt_dma_recv_update_get_index n (of_nat r) f = Some f' \<and> dma_fifo_ok n f' \<and> fifo_len n f' = fifo_len n f - r \<and>
    put_index f' = put_index f \<and> rx_buffer f' = rx_buffer f"
proof -
  let ?p = "unat (put_index f)" and ?g = "unat (get_index f)" and ?N = "unat n" and ?G = "get_index f + ucast (of_nat r :: u32)"
  have f: "fifo_ok n f" and N: "?N \<le> 0x8000" using ok by (simp_all add: dma_fifo_ok_def)
  note d = fifo_okD [OF f]
  have ur: "unat (of_nat r :: u32) = r" "unat (ucast (of_nat r :: u32) :: u16) = r" using r d(6) N by simp_all
  have G: "unat ?G = ?g + r" using ur(2) d(3,6) r N by (simp add: unat_word_ariths)
  define g' where "g' = (if ?G \<ge> n then ?G mod n else ?G)"
  have g': "unat g' = (if ?g + r < ?N then ?g + r else ?g + r - ?N)"
    using G d(3,6) r by (auto simp: g'_def word_le_nat_alt unat_mod_distrib mod_twice)
  let ?f = "f\<lparr>get_index := g', is_full := is_full f \<and> r = 0\<rparr>"
  have z: "(of_nat r :: u32) = 0 \<longleftrightarrow> r = 0" by (subst word_unat_eq_iff) (simp only: ur(1) unat_0)
  have "of_nat r \<le> serial_fifo_calc_recved_len n f" using ur(1) r calc_recved_len [OF f] by (simp add: word_le_nat_alt)
  then have "rt_dma_recv_update_get_index n (of_nat r) f = Some ?f"
    unfolding rt_dma_recv_update_get_index_def Let_def z g'_def by (cases "is_full f"; cases "r = 0") (simp_all add: rt_serial_rx_fifo.equality)
  moreover have lt: "unat g' < ?N" using g' d(3,6) r by (auto split: if_splits)
  moreover have full: "is_full f \<Longrightarrow> ?p = ?g" using ok by (simp add: dma_fifo_ok_def)
  have l: "fifo_len n f = (if is_full f then ?N else if ?g \<le> ?p then ?p - ?g else ?p + ?N - ?g)"
    using full d(2,3) by (auto simp: fifo_len_def mod_distance index_eq)
  have e: "r = 0 \<Longrightarrow> unat g' = ?g" using g' d(3) by simp
  have ok': "dma_fifo_ok n ?f" using ok lt e full by (auto simp: dma_fifo_ok_def fifo_ok_def word_less_nat_alt index_eq)
  moreover have "fifo_len n ?f = fifo_len n f - r"
  proof (cases "r = 0")
    case True
    then show ?thesis using e index_eq [of g' "get_index f"] by (simp add: fifo_len_def)
  next
    case False
    then have "fifo_len n ?f = (if unat g' \<le> ?p then ?p - unat g' else ?p + ?N - unat g')"
      using mod_distance [OF d(2) lt] by (auto simp: fifo_len_def index_eq)
    then show ?thesis using False l r g' full d(2,3) by (auto split: if_splits)
  qed
  ultimately show ?thesis by auto
qed

lemma serial_dma_rx_law:
  assumes ok: "dma_fifo_ok n f" and k: "k \<le> length data"
  shows "\<exists>f'. serial_dma_rx n k data f = Some (length (take k (fifo_contents n f)), overwrite data 0 (take k (fifo_contents n f)), f') \<and>
    dma_fifo_ok n f' \<and> fifo_contents n f' = drop k (fifo_contents n f)"
proof -
  have f: "fifo_ok n f" using ok by (simp add: dma_fifo_ok_def)
  note d = fifo_okD [OF f]
  let ?r = "min k (fifo_len n f)" and ?g = "unat (get_index f)" and ?N = "unat n" and ?m = "rx_buffer f"
  have l: "length (fifo_contents n f) = fifo_len n f" by (simp add: fifo_contents_def)
  then have t: "take k (fifo_contents n f) = take ?r (fifo_contents n f)" by (simp add: min_def)
  obtain f' where f': "rt_dma_recv_update_get_index n (of_nat ?r) f = Some f'" "dma_fifo_ok n f'" "fifo_len n f' = fifo_len n f - ?r"
      "put_index f' = put_index f" "rx_buffer f' = rx_buffer f"
    using dma_get_indices [OF ok, of ?r] by auto
  have "fifo_contents n f' = drop k (fifo_contents n f)"
    using f'(3-5) run_before_drop [of "fifo_len n f" ?m "unat (put_index f)" k] d by (simp add: fifo_contents_def diff_min)
  moreover have "(if ?g + ?r < ?N then mem_copy data 0 ?m ?g ?r
      else do { data \<leftarrow> mem_copy data 0 ?m ?g (?N - ?g); mem_copy data (?N - ?g) ?m 0 (?r + ?g - ?N) }) = Some (overwrite data 0 (take k (fifo_contents n f)))"
  proof (cases "?g + ?r < ?N")
    case True
    then show ?thesis using take_fifo_contents [OF f, of ?r] t k d(1) by (simp add: mem_copy_Some)
  next
    case False
    have "overwrite (overwrite data 0 (drop ?g ?m)) (0 + length (drop ?g ?m)) (take (?g + ?r - ?N) ?m) =
        overwrite data 0 (drop ?g ?m @ take (?g + ?r - ?N) ?m)"
      by (rule overwrite_overwrite_append) (use False d k in simp)
    then show ?thesis using False take_fifo_contents [OF f, of ?r] t k d by (simp add: mem_copy_Some add.commute)
  qed
  ultimately show ?thesis using f'(1,2) calc_recved_len [OF f] l by (simp add: serial_dma_rx_def Let_def)
qed

definition dma_fetch :: "u16 \<Rightarrow> nat \<Rightarrow> rt_serial_rx_fifo \<Rightarrow> (u8 list \<times> rt_serial_rx_fifo) option" where
  "dma_fetch n k f = do { (cnt, data, f) \<leftarrow> serial_dma_rx n k (replicate k 0) f; Some (take cnt data, f) }"

lemma dma_fetch_law:
  assumes "dma_fifo_ok n f"
  shows "\<exists>f'. dma_fetch n k f = Some (take k (fifo_contents n f), f') \<and> dma_fifo_ok n f' \<and> fifo_contents n f' = drop k (fifo_contents n f)"
  using serial_dma_rx_law [OF assms, of k "replicate k 0"] take_overwrite_0 [of "take k (fifo_contents n f)" "replicate k 0"]
  by (auto simp: dma_fetch_def)

lemma dma_rx_queue:
  assumes "circular_dma hw"
  shows "lossy_queue (dma_fifo_ok n) (fifo_contents n) (unat n) (\<lambda>k. k \<le> unat n) (dma_arrive hw n) (dma_fetch n)"
  by (unfold_locales; rule dma_arrive_law [OF assms] dma_fetch_law)

subsection \<open>What the two modes guarantee\<close>

lemma fresh_fifo_ok:
  assumes "0 < n"
  shows "fifo_ok n (fresh_fifo n)" and "fifo_contents n (fresh_fifo n) = []" and "\<not> is_full (fresh_fifo n)"
    and "put_index (fresh_fifo n) = get_index (fresh_fifo n)"
  using assms by (simp_all add: fifo_ok_def fresh_fifo_def fifo_contents_def fifo_len_def run_before_def)

text \<open>
  C9. In interrupt mode the receive buffer is a queue of \<open>bufsz - 1\<close> bytes that gives up the oldest: from the opened device on, any sequence of
  interrupts (each with any number of characters) and reads (each for any number of bytes) ends without an access outside the buffer, the
  reads get what the queue gives, in the order of arrival, and what is read and what is left is everything that arrived as long
  as that is less than \<open>bufsz\<close> bytes.
\<close>

theorem serial_int_rx_fifo:
  assumes "2 \<le> n"
  shows "\<exists>outs f. fifo_run (serial_fifo_puts n) (int_fetch n) ops (fresh_fifo n) = Some (outs, f) \<and>
    lossy_run (unat n - 1) ops [] = (outs, fifo_contents n f) \<and> subseq (concat outs @ fifo_contents n f) (arrivals ops) \<and>
    (length (arrivals ops) < unat n \<longrightarrow> concat outs @ fifo_contents n f = arrivals ops)"
proof -
  have n: "0 < n" "2 \<le> unat n" using assms by (auto simp: word_gt_0 word_le_nat_alt)
  note z = fresh_fifo_ok [OF n(1)]
  have "int_fifo_ok n (fresh_fifo n)" using z assms by (simp add: int_fifo_ok_def)
  moreover have "op_fits (\<lambda>_. True) x" for x by (cases x) simp_all
  ultimately obtain outs f where r: "fifo_run (serial_fifo_puts n) (int_fetch n) ops (fresh_fifo n) = Some (outs, f)"
      "lossy_run (unat n - 1) ops [] = (outs, fifo_contents n f)"
    using int_rx.run_refines [of n "fresh_fifo n" ops] z(2) by auto
  then show ?thesis using lossy_run_subseq [OF r(2)] lossy_run_lossless [OF _ r(2)] n(2) by auto
qed

theorem serial_int_rx_fifo_witness:
  "\<exists>f. fifo_run (serial_fifo_puts 4) (int_fetch 4) [Arrive [1, 2], Fetch 1, Arrive [3, 4, 5], Fetch 2] (fresh_fifo 4) = Some ([[1], [3, 4]], f) \<and>
    fifo_contents 4 f = [5]"
  using serial_int_rx_fifo [of 4 "[Arrive [1, 2], Fetch 1, Arrive [3, 4, 5], Fetch 2]"] by (auto simp: last_n_def)


lemma circular_ring_write: "circular_dma (\<lambda>m. ring_write m (length m))"
proof -
  have "circular_write m p bs (ring_write m (length m) p bs)" if p: "p < length m" and k: "length bs \<le> length m" for m :: "u8 list" and p bs
  proof -
    have "ring_write m (length m) p bs ! j = m ! j" if j: "j < length m" "\<forall>i < length bs. j \<noteq> (p + i) mod length m" for j
    proof -
      let ?i = "(j + length m - p) mod length m"
      have i: "?i < length m" "(p + ?i) mod length m = j" using p j(1) by (auto simp: mod_twice)
      then have "\<not> ?i < length bs" using j(2) by auto
      then show ?thesis using ring_write_nth [OF p _ k i(1)] i(2) by simp
    qed
    moreover have "ring_write m (length m) p bs ! ((p + i) mod length m) = bs ! i" if "i < length bs" for i
      using ring_write_nth [OF p order_refl k, of i] k that by simp
    ultimately show ?thesis using p k by (simp add: circular_write_def)
  qed
  then show ?thesis by (simp add: circular_dma_def)
qed


text \<open>
  A second \<open>rt_device_open\<close> without a receive mode takes the mode away from the device: the interrupt handler still fills the buffer, but every read
  polls the receiver and never looks into it.
\<close>

lemma serial_reopen_polls:
  assumes "flagged (ser_flag d) RT_DEVICE_FLAG_ACTIVATED" and "\<not> flagged (ser_flag d) RT_DEVICE_FLAG_STANDALONE"
    and "serial_rx d = Rx_fifo f" and "serial_tx d = No_tx" and "ser_ref_count d \<noteq> 0xFF"
  shows "\<exists>d'. rt_device_open cfg 3 rx_mem tx_mem d = Some (0, d') \<and> serial_rx d' = Rx_fifo f \<and>
    rt_device_read 1 [b] [] d' = Some (0, [b], d')"
proof -
  have f3: "\<not> flagged 3 m" if "m \<in> {0x40, 0x100, 0x200, 0x400, 0x800}" for m using that by (auto simp: flagged_def)
  have c: "ser_ref_count d + 1 \<noteq> 0"
  proof
    assume "ser_ref_count d + 1 = 0"
    then have "ser_ref_count d = - 1" by (simp add: eq_neg_iff_add_eq_0)
    then show False using assms(5) by simp
  qed
  show ?thesis
    using assms f3 c by (auto simp: rt_device_open_def rt_serial_open_def serial_open_rx_def serial_open_tx_def or_open_def Let_def
        rt_device_read_def rt_serial_read_def flagged_def)
qed

end
