(* ===== verification/Dust.thy ===== *)
theory Dust
  imports SyncProps Serial DevSensor
begin

text \<open>
  The receiver of the dust sensor (\<open>modules/src/dev_sensor.c\<close>) on the serial driver and the semaphores of the kernel: the interrupt handler
  of the serial port puts characters into the receive buffer and releases a semaphore through the callback
  \<open>dev_sensor_zph02_callback\<close>; the thread \<open>dev_sensor_zph02_thread\<close> reads byte by byte and waits for the semaphore when there is none.
  Interrupts, the other threads of the system and the other parts of the application come in between at every point. The properties:
  the thread does not wait while bytes are there, an interrupt wakes it up, and the bytes reach the frame decoder in the
  order in which they came.
\<close>

subsection \<open>The thread, the callback and the interrupt\<close>

text \<open>Where the thread is: about to read, about to take the semaphore, or inside \<open>rt_sem_take\<close>, waiting.\<close>

datatype dust_label = Reading | Taking | Waiting

record 'f dust =
  d_ipc :: ipc
  d_serial :: rt_serial_device
  d_app :: "'f app"
  d_at :: dust_label

definition dev_sensor_zph02_callback :: "nat \<Rightarrow> ipc \<Rightarrow> (int \<times> ipc) option" where
  "dev_sensor_zph02_callback q s = do { (_, s) \<leftarrow> rt_sem_release q s; Some (0, s) }"

definition dust_isr :: "nat \<Rightarrow> u8 list \<Rightarrow> 'f dust \<Rightarrow> 'f dust option" where
  "dust_isr q chs s = do {
     (indicate, d) \<leftarrow> serial_isr_rx_ind chs (d_serial s);
     i \<leftarrow> (case indicate of None \<Rightarrow> Some (d_ipc s)
           | Some len \<Rightarrow> do { (_, i) \<leftarrow> dev_sensor_zph02_callback q (d_ipc s); Some i });
     Some (s\<lparr>d_ipc := i, d_serial := d\<rparr>) }"

text \<open>
  The steps of the thread: the condition of the inner loop with, when a byte was read, the rest of the outer loop; and the wait in
  the inner loop, whose result the code ignores. The port is in interrupt mode, so that no character is polled for.
\<close>

definition dust_read :: "'f dust \<Rightarrow> (u8 option \<times> 'f dust) option" where
  "dust_read s = do {
     (n, data, d) \<leftarrow> rt_device_read 1 [0] [] (d_serial s);
     if n \<noteq> 1 then Some (None, s\<lparr>d_serial := d, d_at := Taking\<rparr>)
     else do {
       ch \<leftarrow> mem_get data 0;
       a \<leftarrow> dev_sensor_zph02_byte ch (d_app s);
       Some (Some ch, s\<lparr>d_serial := d, d_app := a\<rparr>) } }"

definition dust_take :: "nat \<Rightarrow> 'f dust \<Rightarrow> 'f dust option" where
  "dust_take q s = do {
     (out, i) \<leftarrow> rt_sem_take q (- 1) (d_ipc s);
     Some (s\<lparr>d_ipc := i, d_at := (case out of Returns _ \<Rightarrow> Reading | Waits \<Rightarrow> Waiting)\<rparr>) }"

text \<open>
  The part of \<open>dev_sensor_zph02_init\<close> on the port and the semaphore. As in the code, no result of these calls is looked at; \<open>cfg\<close> is what the
  driver of the chip answers to the configuration.
\<close>

definition dust_start :: "nat \<Rightarrow> int \<Rightarrow> 'f dust \<Rightarrow> 'f dust option" where
  "dust_start q cfg s = do {
     let d = snd (serial_control_config 128 (d_serial s));
     (_, i) \<leftarrow> rt_sem_init q 0 0 (d_ipc s);
     (_, d) \<leftarrow> rt_device_open cfg RT_DEVICE_FLAG_INT_RX True True d;
     Some (s\<lparr>d_ipc := i, d_serial := rt_device_set_rx_indicate d, d_at := Reading\<rparr>) }"

text \<open>A port that nobody has opened and that can receive by interrupts.\<close>

definition idle_port :: "rt_serial_device \<Rightarrow> bool" where
  "idle_port d \<longleftrightarrow> serial_rx d = No_rx \<and> ser_ref_count d = 0 \<and> ser_open_flag d = 0 \<and> flagged (ser_flag d) RT_DEVICE_FLAG_INT_RX"

definition dust_runs :: "nat \<Rightarrow> 'f dust \<Rightarrow> bool" where
  "dust_runs t s \<longleftrightarrow> rt_current_thread (i_env (d_ipc s)) = Some t \<and> thread_stat (i_env (d_ipc s)) t = RT_THREAD_RUNNING"

definition pending :: "'f dust \<Rightarrow> u8 list" where
  "pending s = (case serial_rx (d_serial s) of Rx_fifo f \<Rightarrow> fifo_contents (ser_bufsz (d_serial s)) f | _ \<Rightarrow> [])"

text \<open>The variables of the application that the frame decoder uses.\<close>

definition zph02_view :: "'f app \<Rightarrow> dev_sensor_t \<times> u8 list \<times> u8 \<times> u8 \<times> u8" where
  "zph02_view a = (zph02_status (result_data a), dev_zph02_value_buffer a, zph02_count a, dev_zph02_data_high a, dev_zph02_data_low a)"

subsection \<open>All runs of the receiver\<close>

text \<open>
  A run with its history: the characters that have come, the bytes that the thread has taken, and whether characters ever came that the
  buffer had no room for. \<open>q\<close> is the semaphore, \<open>t\<close> the thread and \<open>a\<close> the application at the start. The semaphore and the decoder's
  variables are local to the file, so the other operations of the system (\<open>other\<close>, \<open>app\<close>) leave them alone; and the
  semaphore is not released at its largest value, where it would start again at 0.
\<close>

inductive dust_reach :: "nat \<Rightarrow> nat \<Rightarrow> 'f app \<Rightarrow> nat set \<Rightarrow> nat set \<Rightarrow> u8 list \<Rightarrow> u8 list \<Rightarrow> bool \<Rightarrow> 'f dust \<Rightarrow> bool" for q t a where
  start: "ipc_reach T Q (d_ipc s) \<Longrightarrow> q \<notin> Q \<Longrightarrow> idle_port (d_serial s) \<Longrightarrow> dust_start q 0 s = Some s' \<Longrightarrow> d_app s = a \<Longrightarrow>
    dust_reach q t a T (insert q Q) [] [] False s'"
| isr: "dust_reach q t a T Q rx tx lost s \<Longrightarrow> sem_value (sems (d_ipc s) q) \<noteq> 0xFFFF \<Longrightarrow> dust_isr q chs s = Some s' \<Longrightarrow>
    dust_reach q t a T Q (rx @ chs) tx (lost \<or> 127 < length (pending s) + length chs) s'"
| read: "dust_reach q t a T Q rx tx lost s \<Longrightarrow> d_at s = Reading \<Longrightarrow> dust_runs t s \<Longrightarrow> dust_read s = Some (b, s') \<Longrightarrow>
    dust_reach q t a T Q rx (tx @ (case b of None \<Rightarrow> [] | Some ch \<Rightarrow> [ch])) lost s'"
| take: "dust_reach q t a T Q rx tx lost s \<Longrightarrow> d_at s = Taking \<Longrightarrow> dust_runs t s \<Longrightarrow> dust_take q s = Some s' \<Longrightarrow>
    dust_reach q t a T Q rx tx lost s'"
| wake: "dust_reach q t a T Q rx tx lost s \<Longrightarrow> d_at s = Waiting \<Longrightarrow> dust_runs t s \<Longrightarrow> dust_reach q t a T Q rx tx lost (s\<lparr>d_at := Reading\<rparr>)"
| other: "dust_reach q t a T Q rx tx lost s \<Longrightarrow> ipc_op T Q (d_ipc s) T' Q' i \<Longrightarrow> sems i q = sems (d_ipc s) q \<Longrightarrow>
    waits_for i q = waits_for (d_ipc s) q \<Longrightarrow> dust_reach q t a T' Q' rx tx lost (s\<lparr>d_ipc := i\<rparr>)"
| app: "dust_reach q t a T Q rx tx lost s \<Longrightarrow> zph02_view b = zph02_view (d_app s) \<Longrightarrow> dust_reach q t a T Q rx tx lost (s\<lparr>d_app := b\<rparr>)"

subsection \<open>The semaphore under a call that has returned\<close>

text \<open>The semaphore is one with a queue in the order of arrival.\<close>

definition fifo_sem :: "nat \<Rightarrow> ipc \<Rightarrow> bool" where
  "fifo_sem q s \<longleftrightarrow> is_sem q s \<and> sem_flag (sems s q) = RT_IPC_FLAG_FIFO"

lemma sem_release_queue:
  assumes r: "ipc_reach T Q s" and m0: "fifo_sem q s" and W: "waits_for s q W" and s: "rt_sem_release q s = Some (rc, s')"
  shows "fifo_sem q s'" and "waits_for s' q (tl W)" and "sem_value (sems s' q) = (if W = [] then sem_value (sems s q) + 1 else sem_value (sems s q))"
proof -
  obtain L where a: "ipc_at s T Q L" using ipc_reach_ok [OF r] by (auto simp: ipc_ok_def)
  have m: "is_sem q s" using m0 by (simp add: fifo_sem_def)
  note q = ipc_atD(3) [OF a m]
  have L: "W = L (Suspended q)" using W waits_for_iff [OF a q] by simp
  note fw = first_waiter_list [OF ipc_atD(1) [OF a] q]
  have "fifo_sem q s' \<and> waits_for s' q (tl W) \<and> sem_value (sems s' q) = (if W = [] then sem_value (sems s q) + 1 else sem_value (sems s q))"
  proof (cases W)
    case Nil
    then have "s' = upd_sem q (sem_value_update (\<lambda>v. v + 1)) s" using s m fw(1) L by (simp add: rt_sem_release_def)
    then show ?thesis using Nil W m0 by (simp add: waits_for_def fifo_sem_def is_sem_def)
  next
    case (Cons u V)
    note LC = Cons [unfolded L]
    obtain s1 where s1: "on_i (rt_ipc_list_resume q) s = Some s1" "on_i (on_k rt_schedule) s1 = Some s'"
      using s m fw(1) LC by (auto simp: rt_sem_release_def bind_eq_Some_conv)
    note r1 = resume_first_ipc [OF a q LC s1(1)]
    obtain L1 where L1: "ipc_at s1 T Q L1" "queue_is q V L L1" using r1(1) by blast
    note sc = schedule_ipc [OF L1(1) s1(2)]
    obtain L' where L': "ipc_at s' T Q L'" "\<forall>q. L' (Suspended q) = L1 (Suspended q)" using sc(1) by blast
    have "waits_for s' q V" using waits_for_iff [OF L'(1) q] L'(2) L1(2) by (simp add: queue_is_def)
    then show ?thesis using Cons sc(3) r1(2) m0 by (simp add: fifo_sem_def is_sem_def)
  qed
  then show "fifo_sem q s'" "waits_for s' q (tl W)" "sem_value (sems s' q) = (if W = [] then sem_value (sems s q) + 1 else sem_value (sems s q))"
    by simp_all
qed

lemma sem_take_queue:
  assumes r: "ipc_reach T Q s" and m0: "fifo_sem q s" and W: "waits_for s q []" and c: "rt_current_thread (i_env s) = Some t" "thread_stat (i_env s) t = 3"
    and s: "rt_sem_take q (- 1) s = Some (out, s')"
  shows "fifo_sem q s'" and "(\<exists>rc. out = Returns rc \<and> sem_value (sems s q) \<noteq> 0 \<and> waits_for s' q []) \<or> (out = Waits \<and> sem_value (sems s q) = 0 \<and> waits_for s' q [t])"
proof -
  obtain L where a: "ipc_at s T Q L" using ipc_reach_ok [OF r] by (auto simp: ipc_ok_def)
  have m: "is_sem q s" using m0 by (simp add: fifo_sem_def)
  note q = ipc_atD(3) [OF a m]
  have L: "L (Suspended q) = []" using W waits_for_iff [OF a q] by simp
  have "fifo_sem q s' \<and> ((\<exists>rc. out = Returns rc \<and> sem_value (sems s q) \<noteq> 0 \<and> waits_for s' q []) \<or> (out = Waits \<and> sem_value (sems s q) = 0 \<and> waits_for s' q [t]))"
  proof (cases "sem_value (sems s q) = 0")
    case True
    then obtain k where k: "sem_wait q t (- 1) s = Some k" "s' = s\<lparr>i_kernel := k\<rparr>" "out = Waits"
      using s m c(1) by (auto simp: rt_sem_take_def bind_eq_Some_conv)
    have "enqueue (sem_flag (sems s q)) (i_env s) t [] = [t]" using m0 by (simp add: enqueue_def fifo_sem_def)
    then obtain L' where L': "ipc_at s' T Q L'" "L' (Suspended q) = [t]"
      using sem_wait_ipc(1) [OF a c m True k(1)] L k(2) by (auto simp: queue_is_def)
    then show ?thesis using True k(2,3) m0 waits_for_iff [OF L'(1) q] by (simp add: fifo_sem_def is_sem_def)
  next
    case False
    then have "out = Returns 0 \<and> s' = upd_sem q (sem_value_update (\<lambda>v. v - 1)) s" using s m by (simp add: rt_sem_take_def word_gt_0)
    then show ?thesis using False W m0 by (simp add: waits_for_def fifo_sem_def is_sem_def)
  qed
  then show "fifo_sem q s'" "(\<exists>rc. out = Returns rc \<and> sem_value (sems s q) \<noteq> 0 \<and> waits_for s' q []) \<or> (out = Waits \<and> sem_value (sems s q) = 0 \<and> waits_for s' q [t])"
    by simp_all
qed

subsection \<open>The port\<close>

definition dust_port :: "rt_serial_device \<Rightarrow> bool" where
  "dust_port d \<longleftrightarrow> (\<exists>f. serial_rx d = Rx_fifo f \<and> int_fifo_ok 128 f) \<and> ser_bufsz d = 128 \<and>
     flagged (ser_open_flag d) RT_DEVICE_FLAG_INT_RX \<and> ser_rx_indicate d \<and> ser_ref_count d \<noteq> 0"

definition port_bytes :: "rt_serial_device \<Rightarrow> u8 list" where
  "port_bytes d = (case serial_rx d of Rx_fifo f \<Rightarrow> fifo_contents (ser_bufsz d) f | _ \<Rightarrow> [])"

lemma pending_port: "pending s = port_bytes (d_serial s)"
  by (simp add: pending_def port_bytes_def)

lemma port_isr:
  assumes "dust_port d"
  shows "\<exists>len d'. serial_isr_rx_ind chs d = Some (len, d') \<and> dust_port d' \<and> port_bytes d' = last_n 127 (port_bytes d @ chs) \<and>
    (len = None \<longleftrightarrow> port_bytes d' = [])"
proof -
  obtain f where f: "serial_rx d = Rx_fifo f" "int_fifo_ok 128 f" "ser_bufsz d = 128" "ser_rx_indicate d" using assms by (auto simp: dust_port_def)
  obtain f' where f': "serial_fifo_puts 128 chs f = Some f'" "int_fifo_ok 128 f'" "fifo_contents 128 f' = last_n 127 (fifo_contents 128 f @ chs)"
    using serial_fifo_puts_law [OF f(2), of chs] by auto
  then show ?thesis
    using f assms rx_length_zero [OF f'(2)] by (auto simp: serial_isr_rx_ind_def Let_def dust_port_def port_bytes_def)
qed

lemma port_read:
  assumes "dust_port d"
  shows "\<exists>d'. rt_device_read 1 [b] chs d = Some (length (take 1 (port_bytes d)), take 1 (port_bytes d @ [b]), d') \<and> dust_port d' \<and>
    port_bytes d' = drop 1 (port_bytes d)"
proof -
  obtain f where f: "serial_rx d = Rx_fifo f" "int_fifo_ok 128 f" "ser_bufsz d = 128" "flagged (ser_open_flag d) RT_DEVICE_FLAG_INT_RX"
      "ser_ref_count d \<noteq> 0"
    using assms by (auto simp: dust_port_def)
  obtain f' where f': "serial_int_rx 128 1 [b] f = Some (length (take 1 (fifo_contents 128 f)), overwrite [b] 0 (take 1 (fifo_contents 128 f)), f')"
      "int_fifo_ok 128 f'" "fifo_contents 128 f' = drop 1 (fifo_contents 128 f)"
    using serial_int_rx_loop_law [OF f(2), of 0 1 "[b]"] by (auto simp: serial_int_rx_def)
  moreover have "overwrite [b] 0 (take 1 xs) = take 1 (xs @ [b])" for xs by (cases xs) (simp_all add: overwrite_def)
  ultimately show ?thesis
    using f assms by (simp add: rt_device_read_def rt_serial_read_def dust_port_def port_bytes_def)
qed

lemma flagged_or: "flagged w m \<Longrightarrow> flagged (w OR v) m"
proof -
  assume "flagged w m"
  then obtain i where "bit w i" "bit m i" by (auto simp: flagged_def bit_eq_iff bit_simps)
  then have "bit ((w OR v) AND m) i" by (simp add: bit_simps)
  then show ?thesis by (auto simp: flagged_def)
qed

lemma port_open:
  assumes "idle_port d" and "rt_device_open 0 RT_DEVICE_FLAG_INT_RX True True (snd (serial_control_config 128 d)) = Some (rc, d')"
  shows "dust_port (rt_device_set_rx_indicate d')" and "port_bytes (rt_device_set_rx_indicate d') = []"
proof -
  have o: "flagged 0x100 0x100" "\<not> flagged 0x100 0x200" "\<not> flagged 0x100 0x400" "\<not> flagged 0x100 0x800" "\<not> flagged 0x100 0x40" "\<not> flagged 0 0x40"
      "\<not> flagged 0 8" "flagged 0x108 0x100"
    by (simp_all add: flagged_def)
  have i: "serial_rx d = No_rx" "ser_ref_count d = 0" "ser_open_flag d = 0" "flagged (ser_flag d) 0x100"
    using assms(1) by (simp_all add: idle_port_def)
  have i': "flagged (ser_flag d OR 0x10) 0x100" by (rule flagged_or [OF i(4)])
  have d': "serial_rx d' = Rx_fifo (fresh_fifo 128) \<and> ser_bufsz d' = 128 \<and> ser_ref_count d' = 1 \<and> flagged (ser_open_flag d') 0x100"
    using assms(2) i i' o
    by (cases "flagged (ser_flag d) 0x10"; cases "serial_tx d = No_tx")
      (auto simp: rt_device_open_def serial_control_config_def rt_serial_init_def rt_serial_open_def serial_open_rx_def
        serial_open_tx_def or_open_def Let_def flagged_or)
  have "(0 :: u16) < 128" "(2 :: u16) \<le> 128" by simp_all
  then show "dust_port (rt_device_set_rx_indicate d')" "port_bytes (rt_device_set_rx_indicate d') = []"
    using d' fresh_fifo_ok [of 128] by (simp_all add: dust_port_def rt_device_set_rx_indicate_def port_bytes_def int_fifo_ok_def)
qed

subsection \<open>The decoder\<close>

definition decoder_ok :: "'f app \<Rightarrow> bool" where
  "decoder_ok a \<longleftrightarrow> length (dev_zph02_value_buffer a) = 9 \<and> unat (zph02_count a) < 9"

lemma zph02_byte_view:
  assumes "zph02_view a = zph02_view b" and "dev_sensor_zph02_byte ch a = Some a'"
  shows "\<exists>b'. dev_sensor_zph02_byte ch b = Some b' \<and> zph02_view a' = zph02_view b'"
  using assms by (cases "mem_set (dev_zph02_value_buffer a) (unat (zph02_count a)) ch")
    (auto simp: zph02_view_def dev_sensor_zph02_byte_def sint_char_not_255 dev_zph02_value_check_def Let_def)

lemma zph02_byte_total:
  assumes "decoder_ok a"
  shows "\<exists>a'. dev_sensor_zph02_byte ch a = Some a' \<and> decoder_ok a'"
proof -
  let ?c = "zph02_count a"
  have c: "unat ?c < 9" "length (dev_zph02_value_buffer a) = 9" using assms by (simp_all add: decoder_ok_def)
  have u: "unat (?c + 1) = unat ?c + 1" using c(1) by (simp add: unat_word_ariths)
  then have "?c + 1 \<noteq> 9 \<Longrightarrow> unat (?c + 1) < 9" using c(1) by (auto simp: word_unat_eq_iff)
  then show ?thesis using c by (auto simp: dev_sensor_zph02_byte_def mem_set_def sint_char_not_255 decoder_ok_def Let_def dev_zph02_value_check_def)
qed

lemma zph02_bytes_decoder: "decoder_ok a \<Longrightarrow> dev_sensor_zph02_bytes bs a = Some b \<Longrightarrow> decoder_ok b"
proof (induction bs arbitrary: a)
  case (Cons ch bs)
  then obtain c where "dev_sensor_zph02_byte ch a = Some c" "decoder_ok c" using zph02_byte_total by blast
  then show ?case using Cons by simp
qed simp

lemma decoder_view: "zph02_view a = zph02_view b \<Longrightarrow> decoder_ok a \<longleftrightarrow> decoder_ok b"
  by (simp add: zph02_view_def decoder_ok_def)

subsection \<open>The invariant\<close>

definition dust_ok :: "nat \<Rightarrow> nat \<Rightarrow> 'f app \<Rightarrow> nat set \<Rightarrow> nat set \<Rightarrow> u8 list \<Rightarrow> u8 list \<Rightarrow> bool \<Rightarrow> 'f dust \<Rightarrow> bool" where
  "dust_ok q t a T Q rx tx lost s \<longleftrightarrow> ipc_reach T Q (d_ipc s) \<and> fifo_sem q (d_ipc s) \<and> dust_port (d_serial s) \<and>
     (\<exists>W. waits_for (d_ipc s) q W \<and> (W = [] \<or> W = [t] \<and> d_at s = Waiting \<and> pending s = [])) \<and>
     (d_at s = Taking \<longrightarrow> pending s \<noteq> [] \<longrightarrow> sem_value (sems (d_ipc s) q) \<noteq> 0) \<and>
     subseq (tx @ pending s) rx \<and> (\<not> lost \<longrightarrow> tx @ pending s = rx) \<and>
     (\<exists>b. dev_sensor_zph02_bytes tx a = Some b \<and> zph02_view b = zph02_view (d_app s))"

lemma dust_start_ok:
  assumes "ipc_reach T Q (d_ipc s)" and "q \<notin> Q" and "idle_port (d_serial s)" and "dust_start q 0 s = Some s'"
  shows "dust_ok q t (d_app s) T (insert q Q) [] [] False s'"
proof -
  obtain rc i rc' d where i: "rt_sem_init q 0 0 (d_ipc s) = Some (rc, i)"
      and d: "rt_device_open 0 RT_DEVICE_FLAG_INT_RX True True (snd (serial_control_config 128 (d_serial s))) = Some (rc', d)"
      and s': "s' = s\<lparr>d_ipc := i, d_serial := rt_device_set_rx_indicate d, d_at := Reading\<rparr>"
    using assms(4) by (auto simp: dust_start_def bind_eq_Some_conv Let_def)
  note p = port_open [OF assms(3) d]
  have r: "ipc_reach T (insert q Q) i" using ipc_reach.i_step [OF assms(1) ipc_op.i_sem_init [OF assms(2) i]] .
  have m: "fifo_sem q i" using i by (auto simp: rt_sem_init_def bind_eq_Some_conv Let_def fifo_sem_def is_sem_def upd_sem_def)
  have w: "waits_for i q []"
    using i by (auto simp: rt_sem_init_def bind_eq_Some_conv Let_def waits_for_def upd_sem_def rt_ipc_object_init_def upd_k_def klist.rep_init)
  show ?thesis using r m w p s' by (auto simp: dust_ok_def pending_port)
qed

lemma dust_isr_ok:
  assumes ok: "dust_ok q t a T Q rx tx lost s" and v: "sem_value (sems (d_ipc s) q) \<noteq> 0xFFFF" and s: "dust_isr q chs s = Some s'"
  shows "dust_ok q t a T Q (rx @ chs) tx (lost \<or> 127 < length (pending s) + length chs) s'"
proof -
  have o: "ipc_reach T Q (d_ipc s)" "fifo_sem q (d_ipc s)" "dust_port (d_serial s)" using ok by (simp_all add: dust_ok_def)
  obtain W where W: "waits_for (d_ipc s) q W" "W = [] \<or> W = [t] \<and> d_at s = Waiting \<and> pending s = []" using ok by (auto simp: dust_ok_def)
  obtain len d where d: "serial_isr_rx_ind chs (d_serial s) = Some (len, d)" "dust_port d" "port_bytes d = last_n 127 (pending s @ chs)"
      "len = None \<longleftrightarrow> port_bytes d = []"
    using port_isr [OF o(3), of chs] unfolding pending_port by blast
  obtain i where i: "(case len of None \<Rightarrow> Some (d_ipc s) | Some len \<Rightarrow> do { (_, i) \<leftarrow> dev_sensor_zph02_callback q (d_ipc s); Some i }) = Some i"
      "s' = s\<lparr>d_ipc := i, d_serial := d\<rparr>"
    using s d(1) by (auto simp: dust_isr_def bind_eq_Some_conv)
  have sub: "subseq (tx @ port_bytes d) (rx @ chs)"
  proof -
    have "subseq (tx @ port_bytes d) (tx @ pending s @ chs)" unfolding d(3) by (intro list_emb_append_mono last_n_subseq) simp
    moreover have "subseq ((tx @ pending s) @ chs) (rx @ chs)" using ok by (intro list_emb_append_mono) (auto simp: dust_ok_def)
    ultimately show ?thesis by (auto intro: subseq_order.order_trans)
  qed
  have all: "tx @ port_bytes d = rx @ chs" if "\<not> (lost \<or> 127 < length (pending s) + length chs)"
  proof -
    have "port_bytes d = pending s @ chs" unfolding d(3) by (rule last_n_all) (use that in simp)
    moreover have "tx @ pending s = rx" using ok that by (simp add: dust_ok_def)
    ultimately show ?thesis by (simp add: append_assoc [symmetric] del: append_assoc)
  qed
  have sem: "ipc_reach T Q i \<and> fifo_sem q i \<and> (\<exists>V. waits_for i q V \<and> (V = [] \<or> V = [t] \<and> d_at s = Waiting \<and> port_bytes d = [])) \<and>
    (d_at s = Taking \<longrightarrow> port_bytes d \<noteq> [] \<longrightarrow> sem_value (sems i q) \<noteq> 0)"
  proof (cases "port_bytes d = []")
    case True
    then show ?thesis using i(1) d(4) o W by auto
  next
    case False
    then obtain n where "len = Some n" using d(4) by auto
    then obtain rc where rc: "rt_sem_release q (d_ipc s) = Some (rc, i)"
      using i(1) by (auto simp: dev_sensor_zph02_callback_def bind_eq_Some_conv)
    note r = sem_release_queue [OF o(1,2) W(1) rc]
    have "ipc_reach T Q i" using ipc_reach.i_step [OF o(1) ipc_op.i_sem_release [OF rc]] .
    moreover have "sem_value (sems i q) \<noteq> 0" if "W = []"
    proof
      assume "sem_value (sems i q) = 0"
      then have "sem_value (sems (d_ipc s) q) = - 1" using r(3) that by (simp add: eq_neg_iff_add_eq_0)
      then show False using v by simp
    qed
    ultimately show ?thesis using r(1,2) W(2) by auto
  qed
  show ?thesis using sem sub all d(2) i(2) ok unfolding dust_ok_def by (simp add: pending_port)
qed

lemma dust_read_cases:
  assumes "dust_port (d_serial s)" and "dust_read s = Some (b, s')"
  obtains d where "b = None" and "pending s = []" and "dust_port d" and "port_bytes d = []" and "s' = s\<lparr>d_serial := d, d_at := Taking\<rparr>"
  | ch cs d a where "b = Some ch" and "pending s = ch # cs" and "dust_port d" and "port_bytes d = cs"
      and "dev_sensor_zph02_byte ch (d_app s) = Some a" and "s' = s\<lparr>d_serial := d, d_app := a\<rparr>"
proof -
  obtain d where d: "rt_device_read 1 [0] [] (d_serial s) = Some (length (take 1 (pending s)), take 1 (pending s @ [0]), d)" "dust_port d"
      "port_bytes d = drop 1 (pending s)"
    using port_read [OF assms(1), of 0 "[]"] unfolding pending_port by blast
  show thesis
  proof (cases "pending s")
    case Nil
    then show thesis using that(1) [OF _ Nil d(2)] assms(2) d by (auto simp: dust_read_def)
  next
    case (Cons ch cs)
    then obtain a where "dev_sensor_zph02_byte ch (d_app s) = Some a" "b = Some ch" "s' = s\<lparr>d_serial := d, d_app := a\<rparr>"
      using assms(2) d(1) by (auto simp: dust_read_def mem_get_def bind_eq_Some_conv)
    then show thesis using that(2) [OF _ Cons d(2)] d(3) Cons by simp
  qed
qed

lemma dust_read_ok:
  assumes ok: "dust_ok q t a T Q rx tx lost s" and at: "d_at s = Reading" and s: "dust_read s = Some (b, s')"
  shows "dust_ok q t a T Q rx (tx @ (case b of None \<Rightarrow> [] | Some ch \<Rightarrow> [ch])) lost s'"
proof -
  have p: "dust_port (d_serial s)" using ok by (simp add: dust_ok_def)
  have w: "waits_for (d_ipc s) q []" using ok at by (auto simp: dust_ok_def)
  from p s show ?thesis
  proof (cases rule: dust_read_cases)
    case (1 d)
    then show ?thesis using ok w unfolding dust_ok_def by (auto simp: pending_port)
  next
    case (2 ch cs d a')
    obtain c where c: "dev_sensor_zph02_bytes tx a = Some c" "zph02_view c = zph02_view (d_app s)" using ok by (auto simp: dust_ok_def)
    obtain c' where "dev_sensor_zph02_byte ch c = Some c'" "zph02_view c' = zph02_view a'"
      using zph02_byte_view [OF c(2) [symmetric] 2(5)] by auto
    then have "dev_sensor_zph02_bytes (tx @ [ch]) a = Some c'" "zph02_view c' = zph02_view a'" using c(1) by (simp_all add: zph02_bytes_append)
    then show ?thesis using ok at w 2 unfolding dust_ok_def by (auto simp: pending_port)
  qed
qed

lemma dust_take_ok:
  assumes ok: "dust_ok q t a T Q rx tx lost s" and at: "d_at s = Taking" and t: "dust_runs t s" and s: "dust_take q s = Some s'"
  shows "dust_ok q t a T Q rx tx lost s'"
proof -
  have o: "ipc_reach T Q (d_ipc s)" "fifo_sem q (d_ipc s)" and w: "waits_for (d_ipc s) q []"
    and v: "pending s \<noteq> [] \<Longrightarrow> sem_value (sems (d_ipc s) q) \<noteq> 0"
    using ok at by (auto simp: dust_ok_def)
  have c: "rt_current_thread (i_env (d_ipc s)) = Some t" "thread_stat (i_env (d_ipc s)) t = 3" using t by (simp_all add: dust_runs_def)
  obtain out i where i: "rt_sem_take q (- 1) (d_ipc s) = Some (out, i)"
      "s' = s\<lparr>d_ipc := i, d_at := (case out of Returns _ \<Rightarrow> Reading | Waits \<Rightarrow> Waiting)\<rparr>"
    using s by (auto simp: dust_take_def bind_eq_Some_conv)
  have "running (d_ipc s)" using c by (simp add: running_def)
  then have r: "ipc_reach T Q i" using ipc_reach.i_step [OF o(1) ipc_op.i_sem_take [OF _ i(1)]] by blast
  note k = sem_take_queue [OF o w c i(1)]
  from k(2) show ?thesis
  proof (elim disjE exE conjE)
    fix rc assume "out = Returns rc" "waits_for i q []"
    then show ?thesis using ok r k(1) i(2) unfolding dust_ok_def by (auto simp: pending_port)
  next
    assume "out = Waits" "sem_value (sems (d_ipc s) q) = 0" "waits_for i q [t]"
    then show ?thesis using ok r k(1) i(2) v unfolding dust_ok_def by (auto simp: pending_port)
  qed
qed

lemma dust_wake_ok:
  assumes ok: "dust_ok q t a T Q rx tx lost s" and t: "dust_runs t s"
  shows "dust_ok q t a T Q rx tx lost (s\<lparr>d_at := Reading\<rparr>)"
proof -
  have "ipc_reach T Q (d_ipc s)" using ok by (simp add: dust_ok_def)
  then obtain L where L: "ipc_at (d_ipc s) T Q L" using ipc_reach_ok unfolding ipc_ok_def by blast
  have q: "q \<in> Q" using ipc_atD(3) [OF L] ok by (auto simp: dust_ok_def fifo_sem_def)
  have "\<not> waits_for (d_ipc s) q [t]"
  proof
    assume "waits_for (d_ipc s) q [t]"
    then have "L (Suspended q) = [t]" using waits_for_iff [OF L q] by simp
    then have "thread_stat (i_env (d_ipc s)) t = 2" using waiter_facts(2) [OF ipc_atD(1) [OF L], of t q] by simp
    then show False using t by (simp add: dust_runs_def)
  qed
  then show ?thesis using ok unfolding dust_ok_def by (auto simp: pending_port)
qed

lemma dust_reach_ok: "dust_reach q t a T Q rx tx lost s \<Longrightarrow> dust_ok q t a T Q rx tx lost s"
proof (induction rule: dust_reach.induct)
  case (start T Q s s')
  then show ?case using dust_start_ok by blast
next
  case (isr T Q rx tx lost s chs s')
  then show ?case using dust_isr_ok by blast
next
  case (read T Q rx tx lost s b s')
  then show ?case using dust_read_ok by blast
next
  case (take T Q rx tx lost s s')
  then show ?case using dust_take_ok by blast
next
  case (wake T Q rx tx lost s)
  then show ?case using dust_wake_ok by blast
next
  case (other T Q rx tx lost s T' Q' i)
  then have "ipc_reach T' Q' i" using ipc_reach.i_step by (auto simp: dust_ok_def)
  then show ?case using other unfolding dust_ok_def by (simp add: pending_port fifo_sem_def is_sem_def)
next
  case (app T Q rx tx lost s b)
  then show ?case unfolding dust_ok_def by (simp add: pending_port)
qed

subsection \<open>The receiver is never asleep with work to do\<close>

text \<open>
  C5. No lost wake-up: whatever the order of interrupts, steps of the thread and operations of other threads, the dust sensor's thread is
  in the queue of its semaphore only while the receive buffer is empty; and when it comes to take the semaphore while bytes are
  there, which an interrupt between its last look and the call may have brought, \<open>rt_sem_take\<close> returns at once.
\<close>

theorem dust_never_sleeps_on_data:
  assumes "dust_reach q t a T Q rx tx lost s"
  shows "\<exists>W. waits_for (d_ipc s) q W \<and> set W \<subseteq> {t} \<and> (t \<in> set W \<longrightarrow> d_at s = Waiting \<and> pending s = []) \<and>
    (d_at s = Taking \<longrightarrow> pending s \<noteq> [] \<longrightarrow> (\<exists>s'. dust_take q s = Some s' \<and> d_at s' = Reading))"
proof -
  note ok = dust_reach_ok [OF assms]
  obtain W where W: "waits_for (d_ipc s) q W" "W = [] \<or> W = [t] \<and> d_at s = Waiting \<and> pending s = []" using ok by (auto simp: dust_ok_def)
  have "\<exists>s'. dust_take q s = Some s' \<and> d_at s' = Reading" if "d_at s = Taking" "pending s \<noteq> []"
    using ok that by (simp add: dust_ok_def fifo_sem_def dust_take_def rt_sem_take_def word_gt_0)
  then show ?thesis using W by auto
qed

text \<open>
  C25. An interrupt that brings characters wakes the thread up: in every run, when the thread waits for the semaphore and its
  structures are intact, the interrupt ends, the newest 127 of the characters are in the buffer, nobody waits any more, and the thread can
  run and gets success from \<open>rt_sem_take\<close> if it has no error yet.
\<close>

theorem dust_isr_wakes:
  assumes "dust_reach q t a T Q rx tx lost s" and "waits_for (d_ipc s) q [t]" and "chs \<noteq> []"
    and "rt_current_thread (i_env (d_ipc s)) = Some c" and "stacks_ok (i_env (d_ipc s)) T" and "is_thread t (i_kernel (d_ipc s))"
  shows "\<exists>s'. dust_isr q chs s = Some s' \<and> pending s' = last_n 127 chs \<and> waits_for (d_ipc s') q [] \<and> can_run (i_env (d_ipc s')) t \<and>
    sem_take_return t (d_ipc s') = sem_take_return t (d_ipc s)"
proof -
  note ok = dust_reach_ok [OF assms(1)]
  have o: "ipc_reach T Q (d_ipc s)" "is_sem q (d_ipc s)" "dust_port (d_serial s)" using ok by (simp_all add: dust_ok_def fifo_sem_def)
  obtain L where L: "ipc_at (d_ipc s) T Q L" using ipc_reach_ok [OF o(1)] by (auto simp: ipc_ok_def)
  obtain W where W: "waits_for (d_ipc s) q W" "W = [] \<or> W = [t] \<and> d_at s = Waiting \<and> pending s = []" using ok by (auto simp: dust_ok_def)
  have "W = [t]" using W(1) assms(2) waits_for_iff [OF L ipc_atD(3) [OF L o(2)]] by simp
  then have e: "pending s = []" using W(2) by simp
  obtain len d where d: "serial_isr_rx_ind chs (d_serial s) = Some (len, d)" "port_bytes d = last_n 127 chs" "len = None \<longleftrightarrow> port_bytes d = []"
    using port_isr [OF o(3), of chs] e by (auto simp: pending_port)
  have "last_n 127 chs \<noteq> []" using assms(3) by (cases chs) (simp_all add: last_n_def)
  then obtain n where n: "len = Some n" using d(2,3) by (cases len) auto
  have v: "sem_abs (d_ipc s) q (sem_value (sems (d_ipc s) q), [t])" using assms(2) by (simp add: sem_abs_def)
  have th: "\<forall>u \<in> set [t]. is_thread u (i_kernel (d_ipc s))" using assms(6) by simp
  obtain i where i: "rt_sem_release q (d_ipc s) = Some (0, i)" "sem_abs i q (sem_V (sem_value (sems (d_ipc s) q), [t]))"
      "can_run (i_env i) t" "sem_take_return t i = sem_take_return t (d_ipc s)"
    using sem_release_refines [OF L o(2) v assms(4,5) th] by auto
  then show ?thesis
    using d(1,2) n by (auto simp: dust_isr_def dev_sensor_zph02_callback_def pending_port sem_abs_def sem_V_def)
qed

text \<open>
  C16. Bytes reach the decoder in order: in every run, the bytes that the thread has taken, followed by those in the buffer, are a subsequence of the
  characters that came, and all of them when the buffer never overflowed; the decoder is in the state that these bytes, one after the other,
  lead to; and a read by the thread always ends, without an access outside the buffers, when the decoder's counter starts
  within its frame.
\<close>

theorem dust_bytes_in_order:
  assumes "dust_reach q t a T Q rx tx lost s" and "decoder_ok a"
  shows "subseq (tx @ pending s) rx \<and> (\<not> lost \<longrightarrow> tx @ pending s = rx) \<and>
    (\<exists>b. dev_sensor_zph02_bytes tx a = Some b \<and> zph02_view b = zph02_view (d_app s)) \<and> (\<exists>r. dust_read s = Some r)"
proof -
  note ok = dust_reach_ok [OF assms(1)]
  have p: "dust_port (d_serial s)" using ok by (simp add: dust_ok_def)
  obtain b where b: "dev_sensor_zph02_bytes tx a = Some b" "zph02_view b = zph02_view (d_app s)" using ok by (auto simp: dust_ok_def)
  have "decoder_ok (d_app s)" using zph02_bytes_decoder [OF assms(2) b(1)] decoder_view [OF b(2)] by simp
  then obtain c where c: "dev_sensor_zph02_byte (hd (pending s)) (d_app s) = Some c" using zph02_byte_total by blast
  have "\<exists>r. dust_read s = Some r"
    using port_read [OF p, of 0 "[]"] c unfolding pending_port [symmetric]
    by (cases "pending s") (auto simp: dust_read_def mem_get_def)
  then show ?thesis using ok b by (auto simp: dust_ok_def)
qed

subsection \<open>A run\<close>

lemma schedule_current:
  assumes k: "kernel_at s T Q L" and c: "rt_current_thread (t_env s) = Some c" and s: "on_k rt_schedule s = Some s'"
  shows "\<exists>d. rt_current_thread (t_env s') = Some d"
proof -
  obtain e where e: "rt_schedule (t_env s) = Some e" "s' = s\<lparr>t_env := e\<rparr>" using s by (auto simp: on_k_Some)
  from kernel_atD(1) [OF k] c show ?thesis by (cases rule: rt_schedule_cases) (use e c in auto)
qed

lemma sem_wait_after:
  assumes a: "ipc_at s T Q L" and m: "is_sem q s" "sem_value (sems s q) = 0" and c: "rt_current_thread (i_env s) = Some c" "thread_stat (i_env s) c = 3"
    and th: "is_thread c (i_kernel s)" and st: "stacks_ok (i_env s) T" and k: "sem_wait q c (- 1) s = Some k"
  shows "\<exists>d. rt_current_thread (t_env k) = Some d" and "stacks_ok (t_env k) T" and "is_thread c k"
proof -
  note o = sem_wait_ipc(2) [OF a c m k]
  show "is_thread c k" using only_statD(4) [OF o, of c] th by (simp add: is_thread_def rt_object_get_type_def set_stat_def)
  have "stacks_ok (t_env (set_error c 0 (i_kernel s))) T" using st by simp
  then show "stacks_ok (t_env k) T" by (rule stacks_ok_cong [rotated]) (simp only: only_statD(5) [OF o] set_stat_stack)
  let ?k = "set_error c 0 (i_kernel s)"
  have c0: "rt_current_thread (t_env ?k) = Some c" "can_run (t_env ?k) c" "is_thread c ?k" "stacks_ok (t_env ?k) T" "(- 1 :: int) < 0x7FFFFFFF"
    using c th st by (simp_all add: can_run_def)
  obtain s1 s2 L2 where b: "rt_ipc_list_suspend q c (sem_flag (sems s q)) ?k = Some s1" "start_wait c (- 1) s1 = Some s2" "kernel_at s2 T Q L2"
      "rt_current_thread (t_env s2) = Some c"
    by (rule block_total [OF set_error_kernel [OF ipc_atD(1) [OF a]] c0(1-3) ipc_atD(3) [OF a m(1)] c0(4,5)])
  then have "on_k rt_schedule s2 = Some k" using k by (simp add: sem_wait_def)
  then show "\<exists>d. rt_current_thread (t_env k) = Some d" by (rule schedule_current [OF b(3,4)])
qed

definition uart_port :: rt_serial_device where
  "uart_port = \<lparr>ser_flag = 0x103, ser_open_flag = 0, ser_ref_count = 0, ser_rx_indicate = False, ser_bufsz = 64, serial_rx = No_rx, serial_tx = No_tx\<rparr>"

text \<open>The receiver right after its start; thread 5 is the receiver's thread and running.\<close>

lemma dust_scene_started:
  obtains s :: "int dust" where "dust_reach 1 5 app_idle {6, 5} {1} [] [] False s" and "d_at s = Reading" and "dust_runs 5 s"
    and "stacks_ok (i_env (d_ipc s)) {6, 5}" and "is_thread 5 (i_kernel (d_ipc s))" and "sem_value (sems (d_ipc s) 1) = 0"
proof -
  obtain s where s: "ipc_reach {6, 5} {} s" "s = ipc0 (i_kernel s)" "object_search (i_kernel s) = Some (i_kernel s)"
      "rt_current_thread (i_env s) = Some 5" "thread_of 5 (i_kernel s) = started_thread 3 0x1000" "thread_of 6 (i_kernel s) = started_thread 1 0x2000"
    by (rule two_threads_ipc)
  define s1 where s1: "s1 = s\<lparr>i_kernel := rt_ipc_object_init 1 (i_kernel s), sems := (sems s)(1 := \<lparr>sem_type = 0x82, sem_flag = 0, sem_value = 0\<rparr>)\<rparr>"
  have o: "sems s 1 = \<lparr>sem_type = 0, sem_flag = 0, sem_value = 0\<rparr>" by (subst s(2)) (simp add: ipc0_def)
  have i: "rt_sem_init 1 0 0 s = Some (0, s1)"
    using s(3) o by (cases s) (simp add: rt_sem_init_def on_i_def upd_sem_def Let_def s1)
  have e: "threads (i_env s1) = threads (i_env s)" "rt_current_thread (i_env s1) = Some 5"
    by (simp_all add: s1 rt_ipc_object_init_def upd_k_def s(4))
  have th: "thread_of 5 (i_kernel s1) = started_thread 3 0x1000" "thread_of 6 (i_kernel s1) = started_thread 1 0x2000" using e s by simp_all
  have u: "idle_port uart_port" by (simp add: idle_port_def uart_port_def flagged_def)
  obtain d where d: "rt_device_open 0 0x100 True True (snd (serial_control_config 128 uart_port)) = Some (0, d)"
    by (simp add: uart_port_def rt_device_open_def serial_control_config_def rt_serial_init_def rt_serial_open_def serial_open_rx_def
        serial_open_tx_def or_open_def Let_def flagged_def)
  let ?init = "\<lparr>d_ipc = s, d_serial = uart_port, d_app = app_idle, d_at = Reading\<rparr>"
  let ?s = "\<lparr>d_ipc = s1, d_serial = rt_device_set_rx_indicate d, d_app = app_idle, d_at = Reading\<rparr>"
  have "dust_start 1 0 ?init = Some ?s" using i d by (simp add: dust_start_def)
  then have r: "dust_reach 1 5 app_idle {6, 5} {1} [] [] False ?s"
    using dust_reach.start [of "{6, 5}" "{}" ?init 1 ?s app_idle 5] s(1) u by simp
  show thesis
    by (rule that [OF r]) (use two_stacks [OF th] started_thread_facts [OF th(1)] e in \<open>simp_all add: dust_runs_def s1\<close>)
qed

text \<open>It has found the buffer empty, and then waits.\<close>

lemma dust_scene_empty:
  obtains s :: "int dust" where "dust_reach 1 5 app_idle {6, 5} {1} [] [] False s" and "d_at s = Taking" and "dust_runs 5 s"
    and "stacks_ok (i_env (d_ipc s)) {6, 5}" and "is_thread 5 (i_kernel (d_ipc s))" and "sem_value (sems (d_ipc s) 1) = 0" and "pending s = []"
proof -
  obtain s :: "int dust" where s: "dust_reach 1 5 app_idle {6, 5} {1} [] [] False s" "d_at s = Reading" "dust_runs 5 s"
      "stacks_ok (i_env (d_ipc s)) {6, 5}" "is_thread 5 (i_kernel (d_ipc s))" "sem_value (sems (d_ipc s) 1) = 0"
    by (rule dust_scene_started)
  have p: "dust_port (d_serial s)" "pending s = []" using dust_reach_ok [OF s(1)] by (simp_all add: dust_ok_def)
  obtain d where d: "rt_device_read 1 [0] [] (d_serial s) = Some (0, [0], d)" "dust_port d" "port_bytes d = []"
    using port_read [OF p(1), of 0 "[]"] p(2) by (auto simp: pending_port)
  let ?s = "s\<lparr>d_serial := d, d_at := Taking\<rparr>"
  have "dust_read s = Some (None, ?s)" using d(1) by (simp add: dust_read_def)
  then have "dust_reach 1 5 app_idle {6, 5} {1} [] [] False ?s" using dust_reach.read [OF s(1-3)] by force
  then show thesis by (rule that) (use s d(3) in \<open>simp_all add: dust_runs_def pending_port\<close>)
qed

text \<open>A character comes before the thread waits.\<close>

lemma dust_scene_isr:
  assumes s: "dust_reach 1 5 app_idle {6, 5} {1} [] [] False s" "d_at s \<noteq> Waiting" "sem_value (sems (d_ipc s) 1) = 0" "pending s = []"
  obtains s1 where "dust_reach 1 5 app_idle {6, 5} {1} [7] [] False s1" and "d_at s1 = d_at s" and "pending s1 = [7]"
proof -
  have o: "ipc_reach {6, 5} {1} (d_ipc s)" "is_sem 1 (d_ipc s)" "dust_port (d_serial s)" "waits_for (d_ipc s) 1 []"
    using dust_reach_ok [OF s(1)] s(2) by (auto simp: dust_ok_def fifo_sem_def)
  obtain L where L: "ipc_at (d_ipc s) {6, 5} {1} L" using ipc_reach_ok [OF o(1)] by (auto simp: ipc_ok_def)
  have "no_waiter 1 (i_kernel (d_ipc s))"
    using first_waiter_list(1) [OF ipc_atD(1) [OF L], of 1] waits_for_iff [OF L, of 1 "[]"] o(4) by simp
  then have r: "rt_sem_release 1 (d_ipc s) = Some (0, upd_sem 1 (sem_value_update (\<lambda>v. v + 1)) (d_ipc s))" using o(2) by (simp add: rt_sem_release_def)
  obtain len d where d: "serial_isr_rx_ind [7] (d_serial s) = Some (len, d)" "port_bytes d = [7]" "len \<noteq> None"
    using port_isr [OF o(3), of "[7]"] s(4) by (auto simp: pending_port)
  let ?s = "s\<lparr>d_ipc := upd_sem 1 (sem_value_update (\<lambda>v. v + 1)) (d_ipc s), d_serial := d\<rparr>"
  have "dust_isr 1 [7] s = Some ?s" using d(1,3) r by (auto simp: dust_isr_def dev_sensor_zph02_callback_def)
  then have "dust_reach 1 5 app_idle {6, 5} {1} [7] [] False ?s" using dust_reach.isr [OF s(1), of "[7]" ?s] s(3,4) by simp
  then show thesis by (rule that) (simp_all add: d(2) pending_port)
qed

theorem dust_never_sleeps_on_data_witness:
  "\<exists>s s' :: int dust. d_at s = Taking \<and> pending s = [7] \<and> dust_take 1 s = Some s' \<and> d_at s' = Reading"
proof -
  obtain s :: "int dust" where s: "dust_reach 1 5 app_idle {6, 5} {1} [] [] False s" "d_at s = Taking" "sem_value (sems (d_ipc s) 1) = 0" "pending s = []"
    by (rule dust_scene_empty)
  have "d_at s \<noteq> Waiting" using s(2) by simp
  from dust_scene_isr [OF s(1) this s(3,4)] obtain s1 :: "int dust" where r: "dust_reach 1 5 app_idle {6, 5} {1} [7] [] False s1"
      "d_at s1 = Taking" "pending s1 = [7]" using s(2) by auto
  from dust_never_sleeps_on_data [OF r(1)] r(2,3) show ?thesis by auto
qed

theorem dust_isr_wakes_witness:
  "\<exists>s s' :: int dust. d_at s = Waiting \<and> waits_for (d_ipc s) 1 [5] \<and> dust_isr 1 [7, 8] s = Some s' \<and> pending s' = [7, 8] \<and>
    can_run (i_env (d_ipc s')) 5"
proof -
  obtain s :: "int dust" where s: "dust_reach 1 5 app_idle {6, 5} {1} [] [] False s" "d_at s = Taking" "dust_runs 5 s"
      "stacks_ok (i_env (d_ipc s)) {6, 5}" "is_thread 5 (i_kernel (d_ipc s))" "sem_value (sems (d_ipc s) 1) = 0"
    by (rule dust_scene_empty)
  have o: "ipc_reach {6, 5} {1} (d_ipc s)" "fifo_sem 1 (d_ipc s)" "is_sem 1 (d_ipc s)" "waits_for (d_ipc s) 1 []"
    using dust_reach_ok [OF s(1)] s(2) by (auto simp: dust_ok_def fifo_sem_def)
  obtain L where L: "ipc_at (d_ipc s) {6, 5} {1} L" using ipc_reach_ok [OF o(1)] by (auto simp: ipc_ok_def)
  have c: "rt_current_thread (i_env (d_ipc s)) = Some 5" "thread_stat (i_env (d_ipc s)) 5 = 3" using s(3) by (simp_all add: dust_runs_def)
  obtain k where k: "sem_wait 1 5 (- 1) (d_ipc s) = Some k" using sem_wait_total(1) [OF L o(3) c s(5,4), of "- 1"] by auto
  let ?i = "(d_ipc s)\<lparr>i_kernel := k\<rparr>"
  have t: "rt_sem_take 1 (- 1) (d_ipc s) = Some (Waits, ?i)" using k c(1) s(6) o(3) by (simp add: rt_sem_take_def)
  define s1 where "s1 = s\<lparr>d_ipc := ?i, d_at := Waiting\<rparr>"
  have "dust_take 1 s = Some s1" using t by (simp add: dust_take_def s1_def)
  then have r: "dust_reach 1 5 app_idle {6, 5} {1} [] [] False s1" by (rule dust_reach.take [OF s(1-3)])
  have w: "waits_for (d_ipc s1) 1 [5]" using sem_take_queue(2) [OF o(1,2,4) c t] by (simp add: s1_def)
  note f = sem_wait_after [OF L o(3) s(6) c s(5,4) k]
  obtain d where d: "rt_current_thread (i_env (d_ipc s1)) = Some d" using f(1) by (auto simp: s1_def)
  have e: "stacks_ok (i_env (d_ipc s1)) {6, 5}" "is_thread 5 (i_kernel (d_ipc s1))" "[7, 8 :: u8] \<noteq> []" using f(2,3) by (simp_all add: s1_def)
  from dust_isr_wakes [OF r w e(3) d e(1,2)] obtain s' where "dust_isr 1 [7, 8] s1 = Some s'"
      "pending s' = last_n 127 [7, 8]" "can_run (i_env (d_ipc s')) 5"
    by auto
  moreover have "d_at s1 = Waiting" "last_n 127 [7, 8 :: u8] = [7, 8]" by (simp_all add: s1_def)
  ultimately show ?thesis using w by metis
qed

theorem dust_bytes_in_order_witness:
  "\<exists>s :: int dust. d_at s = Reading \<and> [] @ pending s = [7] \<and> (\<exists>r. dust_read s = Some r)"
proof -
  obtain s :: "int dust" where s: "dust_reach 1 5 app_idle {6, 5} {1} [] [] False s" "d_at s = Reading" "sem_value (sems (d_ipc s) 1) = 0"
    by (rule dust_scene_started)
  have p: "d_at s \<noteq> Waiting" "pending s = []" using s(2) dust_reach_ok [OF s(1)] by (simp_all add: dust_ok_def)
  obtain s1 :: "int dust" where r: "dust_reach 1 5 app_idle {6, 5} {1} [7] [] False s1" "d_at s1 = Reading"
    using dust_scene_isr [OF s(1) p(1) s(3) p(2)] s(2) by auto
  have "decoder_ok app_idle" by (simp add: decoder_ok_def app_idle_def app0_def)
  from dust_bytes_in_order [OF r(1) this] r(2) show ?thesis by auto
qed

end
