(* ===== verification/Spec2Isabelle.thy ===== *)
theory Spec2Isabelle
  imports Ringbuffer MqttPublish MqttConnect MqttSubscribe DevSensor HeapAlloc Pipe MqttThread Dust
begin

text \<open>
  A verification of the firmware of a smart-home device (\<open>src/Device\<close>): an STM32L475 board under RT-Thread
  4.0.2 that reads a temperature and humidity sensor, a gas sensor and a dust sensor, drives two
  relays and a beeper, and exchanges commands and readings with a mobile application through an MQTT
  broker. The files modelled are the application (\<open>modules/src\<close>), the MQTT packages it uses
  (\<open>packages/pahomqtt-v1.1.0\<close>) and the parts of the kernel those rest on (\<open>rt-thread\<close>).

  \<^bold>\<open>How the parts interact.\<close> \<open>dev_sensor_init\<close> initialises pins and sensors and starts the MQTT client
  (\<open>mqtt_start\<close>, \<open>paho_mqtt_start\<close>). The worker thread of the client connects, subscribes to the commands
  and then waits for the socket or its pipe. A PUBLISH packet from the socket is deserialized and
  handed to \<open>mqtt_sub_callback\<close>, which compares the payload with the command names, drives the pins
  and may publish an answer. \<open>MQTTPublish\<close> puts a message into the pipe, a ring buffer behind file
  operations; the worker reads it from there, serializes it and sends it. The buffers come from the kernel
  heap; texts are made with \<open>rt_sprintf\<close>. The bytes of the dust sensor come through the interrupt of a serial port to a thread that
  waits for them with a semaphore.

  \<^bold>\<open>Conventions.\<close> Machine integers are words of their width (\<open>u8\<close>, \<open>u16\<close>, \<open>u32\<close>), or \<^typ>\<open>int\<close> where the C
  type is \<open>int\<close> and the value stays in range; the target is 32-bit and little-endian with unsigned \<open>char\<close>. Memory a
  function accesses is a list of bytes, and every access goes through \<open>mem_get\<close>, \<open>mem_set\<close>, \<open>mem_read\<close>,
  \<open>mem_write\<close> and \<open>mem_copy\<close>, which have no result (\<^const>\<open>None\<close>) outside the list; so does a failed
  assertion, \<open>rt_assert\<close>. A result \<^term>\<open>Some x\<close> therefore says that the code ran without leaving its
  buffers. Error codes of the code are values of the results. What hardware, sockets and memory
  allocation answer, and variables that the code leaves uninitialised, are arguments or scripts in the
  state.

  \<^bold>\<open>The theories.\<close>

  \<^item> \<open>Prelude\<close>: byte memory, words, and the lemmas on lists and options that the others share.

  \<^item> \<open>Ringbuffer\<close> (\<open>components/drivers/src/ringbuffer.c\<close>, \<open>ringbuffer.h\<close>): the record with its mirror bits and
  every operation. The locale \<open>byte_queue\<close> states what a bounded byte queue promises; it is
  interpreted by the ring buffer, and any sequence of operations refines the abstract queue.

  \<^item> \<open>Pipe\<close> (\<open>components/drivers/src/pipe.c\<close>): the pipe device on the ring buffer. A blocked call returns \<open>Waiting\<close>, and
  the turns of a writer and a reader interleave freely. FIFO delivery and the end of a blocking
  write are proved for all interleavings.

  \<^item> \<open>MqttPacket\<close>, \<open>MqttPublish\<close>, \<open>MqttConnect\<close>, \<open>MqttSubscribe\<close> (\<open>MQTTPacket/src\<close>): the encoding and decoding of packets.
  Locales describe a source of characters and of bytes, interpreted by the packet buffer here and by
  the socket in \<open>MqttReceive\<close>. Round trips, exact bounds of the writes, and the cases
  in which the code leaves its buffers or accepts broken packets.

  \<^item> \<open>MqttClient\<close> (\<open>MQTTClient-RT/paho_mqtt_pipe.c\<close>, \<open>paho_mqtt.h\<close>, built without TLS): definitions only. The
  sockets are scripts; \<open>thread_step\<close> runs the worker thread from one label of \<open>paho_mqtt_thread\<close> to the next,
  in its loop one iteration.

  \<^item> \<open>MqttReceive\<close>: what the client reads from the socket, and topic filters against the matching of
  the MQTT specification.

  \<^item> \<open>MqttSession\<close>: the application on the client: a received command is executed, its answer queued and the
  packet acknowledged; a published message is sent; the two ways in which the pipe loses messages or
  blocks the worker.

  \<^item> \<open>MqttThread\<close>: the step relation of the worker thread, the threads that use the client and the network, and
  the connection state as an invariant of it.

  \<^item> \<open>Kstring\<close>, \<open>Kprintf\<close> (\<open>rt-thread/src/kservice.c\<close>): memory and string functions with their word-wise loops,
  and \<open>rt_vsnprintf\<close>.

  \<^item> \<open>Heap\<close>, \<open>HeapAlloc\<close> (\<open>rt-thread/src/mem.c\<close>): the allocator over the bytes of the heap, with the block
  headers in them. The list of blocks is the abstraction; the locale \<open>allocator\<close> states the contract
  of an allocator over sets of areas in use and is interpreted by the heap.

  \<^item> \<open>Klist\<close> (\<open>include/rtservice.h\<close>): the doubly linked rings of the kernel over a store of nodes. The locale
  \<open>node_list\<close> states what a list promises to the objects linked into it, interpreted by \<open>rt_list_t\<close>.

  \<^item> \<open>Timer\<close> (\<open>rt-thread/src/timer.c\<close>, \<open>clock.c\<close>): the hard timers and the system tick. The uses of the timers are the
  inductive predicate \<open>timer_reach\<close>; on all of them the ring is in due order and a timer fires at its tick,
  also across the wrap-around of the counter. A periodic timer with period 0 keeps the timer
  interrupt from returning.

  \<^item> \<open>Sched\<close>, \<open>Threads\<close>, \<open>Kernel\<close> (\<open>rt-thread/src/scheduler.c\<close>, \<open>thread.c\<close>, with the tick of \<open>clock.c\<close>): the ready lists with their priority
  group, the scheduling decision, and the operations on threads with the timers of the threads.
  \<open>Sched\<close> has the definitions and the invariant of the scheduler, \<open>Threads\<close> shows that every operation
  keeps it, and \<open>Kernel\<close> has the step relation \<open>thread_op\<close>, the reachable states \<open>k_reach\<close> and the properties of them.

  \<^item> \<open>Ipc\<close>, \<open>Sync\<close>, \<open>SyncProps\<close> (\<open>rt-thread/src/ipc.c\<close>): semaphores and mutexes with their lists of waiting threads. \<open>Ipc\<close> has the definitions and what
  they do to the lists; a call that waits ends with the outcome \<open>Waits\<close>, and what it returns later is a definition of its own.
  \<open>Sync\<close> has the invariant, the step relation \<open>ipc_op\<close>, which contains all steps of \<open>thread_op\<close>, and the reachable states \<open>ipc_reach\<close>;
  \<open>SyncProps\<close> the properties: the semaphore as a counter with a queue, timeouts, priority inheritance and
  the hand-over of a mutex.

  \<^item> \<open>DevSensor\<close> (\<open>modules/src/dev_sensor.c\<close>, \<open>wifi_mqtt.c\<close>): sensors, actuators and commands. The reachable states
  of the application are an inductive predicate; floating-point operations are parameters.

  \<^item> \<open>Serial\<close> (\<open>components/drivers/serial/serial.c\<close>, \<open>rt-thread/src/device.c\<close>): the receiving side of the serial driver, with interrupts, DMA or polling.
  The locale \<open>lossy_queue\<close> states what a receive buffer promises that gives up its oldest bytes; it is interpreted by the
  buffer in interrupt mode, and the buffer in DMA mode satisfies it for every controller that writes circularly.

  \<^item> \<open>Dust\<close>: the interrupt, the callback and the thread of the dust sensor on \<open>Serial\<close>, \<open>SyncProps\<close> and \<open>DevSensor\<close>. The runs are the
  inductive predicate \<open>dust_reach\<close>, with the operations of all other threads in between: there is no lost wake-up, and the
  bytes reach the decoder in order.

  \<^bold>\<open>Loops.\<close> Loops are recursive functions with termination proofs. The loops of the heap walk the block
  list as partial functions, where no result also means no end; the theorems on them show a result. The
  same holds for the loops of \<open>rt_pipe_read\<close> and \<open>rt_pipe_write\<close>, and for \<open>timer_find\<close> and \<open>timer_check_loop\<close>, which walk
  the ring of the timers, and for \<open>suspend_position\<close> and \<open>rt_ipc_list_resume_all\<close>, which walk a list of waiting threads.

  \<^bold>\<open>Not modelled.\<close> The switch of registers and stacks between threads, which is assembly code; events, mailboxes and message
  queues of \<open>ipc.c\<close>; the sending side of the serial driver; the registration of objects and devices; the drivers of the WLAN module and of the I2C sensor, the network stacks, the file system layer, TLS
  (not in the build), console output, the vendor libraries and the mobile application. The pipe and the MQTT client have turns and steps of their
  own for blocking calls; the semaphore of the heap and the lock of the pipe are represented by the
  atomicity of the operations they protect.
\<close>

end
